(* ===== verification/Ember_Prelude.thy ===== *)
theory Ember_Prelude
  imports Main "HOL-Library.Word"
begin

text \<open>
  Shared vocabulary of the development: the machine integers of
  \<^verbatim>\<open>src/kernel/include/kernel.h\<close>, its alignment macros, address conversion
  (\<^verbatim>\<open>src/kernel/include/mm.h\<close>), the error codes, the reasons for which the kernel
  stops, and the generic lemmas on words, sets of words and loops that the components
  use. Nothing here depends on a component.
\<close>

unbundle bit_operations_syntax

named_theorems word_to_nat \<open>facts that move a statement on words to one on nat\<close>
named_theorems kconst \<open>values of the constants of the headers\<close>

section \<open>Primitive types\<close>

type_synonym u8 = "8 word"
type_synonym u16 = "16 word"
type_synonym u32 = "32 word"
type_synonym u64 = "64 word"

section \<open>Constants\<close>

definition PAGE_SIZE :: u64 where [kconst]: "PAGE_SIZE = 4096"

definition KERNEL_BASE :: u64 where [kconst]: "KERNEL_BASE = 0xFFFFFFFF80000000"

definition KERNEL_PHYS :: u64 where [kconst]: "KERNEL_PHYS = 0x100000"

definition ENOENT :: int where [kconst]: "ENOENT = 2"
definition EPERM :: int where [kconst]: "EPERM = 1"
definition EBADF :: int where [kconst]: "EBADF = 9"
definition ENOMEM :: int where [kconst]: "ENOMEM = 12"
definition ENODEV :: int where [kconst]: "ENODEV = 19"
definition EINVAL :: int where [kconst]: "EINVAL = 22"
definition ENOSYS :: int where [kconst]: "ENOSYS = 38"

section \<open>Alignment and address conversion\<close>

definition ALIGN_UP :: "'a::len word \<Rightarrow> 'a word \<Rightarrow> 'a word" where
  "ALIGN_UP x a = (x + a - 1) AND NOT (a - 1)"

definition ALIGN_DOWN :: "'a::len word \<Rightarrow> 'a word \<Rightarrow> 'a word" where
  "ALIGN_DOWN x a = x AND NOT (a - 1)"

definition IS_ALIGNED :: "'a::len word \<Rightarrow> 'a word \<Rightarrow> bool" where
  "IS_ALIGNED x a \<longleftrightarrow> x AND (a - 1) = 0"

definition PHYS_TO_VIRT :: "u64 \<Rightarrow> u64" where
  "PHYS_TO_VIRT p = p + KERNEL_BASE"

definition VIRT_TO_PHYS :: "u64 \<Rightarrow> u64" where
  "VIRT_TO_PHYS v = v - KERNEL_BASE"

section \<open>Outcomes\<close>

text \<open>
  \<open>panic\<close> never returns, and a dereference of a null or unmapped pointer traps. Both are
  values of \<open>kstop\<close>; an operation that may stop returns \<open>kstop + 'a\<close>, with \<open>Inl\<close> for a
  run that stopped. \<open>kbind\<close> is sequencing: what follows a stopped operation is not run.
\<close>

datatype kstop =
    OutOfPhysicalMemory      \<comment> \<open>panic in alloc\_page\<close>
  | HeapExhausted            \<comment> \<open>panic in heap\_expand\<close>
  | NullDeref                \<comment> \<open>access through a null pointer\<close>
  | WildDeref                \<comment> \<open>access outside the object a pointer refers to\<close>
  | NoProgress               \<comment> \<open>a loop did not end within the steps it is given\<close>
  | Halted                   \<comment> \<open>the cpu stays in a hlt loop\<close>
  | DivideError              \<comment> \<open>division by zero\<close>

definition kbind :: "kstop + 'a \<Rightarrow> ('a \<Rightarrow> kstop + 'b) \<Rightarrow> kstop + 'b" where
  "kbind r f = (case r of Inl e \<Rightarrow> Inl e | Inr x \<Rightarrow> f x)"

lemma kbind_simps [simp]: "kbind (Inl e) f = Inl e" "kbind (Inr x) f = f x"
  by (simp_all add: kbind_def)

lemma kbind_assoc: "kbind (kbind r f) g = kbind r (\<lambda>x. kbind (f x) g)"
  by (cases r) simp_all

lemma kbind_eq_Inr [simp]: "kbind r f = Inr y \<longleftrightarrow> (\<exists>x. r = Inr x \<and> f x = Inr y)"
  by (cases r) simp_all

lemma kbind_eq_Inl: "kbind r f = Inl e \<longleftrightarrow> r = Inl e \<or> (\<exists>x. r = Inr x \<and> f x = Inl e)"
  by (cases r) auto

section \<open>Lemmas on words\<close>

lemma unat_lt_64 [simp]: "unat (x :: u64) < 18446744073709551616"
  using unsigned_less [of x] by simp

lemma unat_inc_less: "(x :: u64) < y \<Longrightarrow> unat (x + 1) = unat x + 1"
  using unat_lt_64 [of y] by (simp add: word_less_nat_alt unat_word_ariths del: unat_lt_64)

lemma word_loop_measure: "(x :: u64) < y \<Longrightarrow> unat (y - (x + 1)) < unat (y - x)"
proof -
  assume "x < y"
  then have nz: "y - x \<noteq> 0" by auto
  have "unat (y - (x + 1)) = unat (y - x) - 1"
    using unat_minus_one [OF nz] by (simp add: algebra_simps)
  moreover have "0 < unat (y - x)" using nz by (simp add: unat_gt_0)
  ultimately show ?thesis by simp
qed

lemma div_mod_64_eq: "(p :: u64) div 64 = q div 64 \<Longrightarrow> p mod 64 = q mod 64 \<Longrightarrow> p = q"
  by (metis div_mult_mod_eq)

lemma unat_mod_64 [simp]: "unat ((p :: u64) mod 64) < 64"
  by (simp add: unat_mod_distrib)

lemma and_4095: "(x :: u64) AND 4095 = x mod 4096"
proof -
  have "x AND mask 12 = take_bit 12 x" by (simp add: take_bit_eq_mask)
  then show ?thesis by (simp add: mask_eq_exp_minus_1 take_bit_eq_mod)
qed

lemma and_not_4095: "(x :: u64) AND - 4096 = x div 4096 * 4096"
proof -
  have "x AND NOT (mask 12) = push_bit 12 (drop_bit 12 x)"
    by (rule bit_eqI) (auto simp: bit_simps)
  then show ?thesis by (simp add: mask_eq_exp_minus_1 push_bit_eq_mult drop_bit_eq_div)
qed

lemma IS_ALIGNED_page: "IS_ALIGNED x PAGE_SIZE \<longleftrightarrow> x mod 4096 = 0"
  by (simp add: IS_ALIGNED_def kconst and_4095)

lemma ALIGN_DOWN_page: "ALIGN_DOWN x PAGE_SIZE = x div 4096 * 4096"
  by (simp add: ALIGN_DOWN_def kconst and_not_4095)

lemma ALIGN_UP_page: "ALIGN_UP x PAGE_SIZE = (x + 4095) div 4096 * 4096"
  by (simp add: ALIGN_UP_def kconst and_not_4095 add.commute)

lemma unat_page_round: "unat ((x :: u64) div 4096 * 4096) = unat x div 4096 * 4096"
proof -
  have "unat x div 4096 * 4096 < 2 ^ 64"
    by (rule order.strict_trans1 [OF div_times_less_eq_dividend]) simp
  then show ?thesis
    by (simp add: unat_word_ariths unat_div_distrib)
qed

lemma page_round_div: "(x :: u64) div 4096 * 4096 div 4096 = x div 4096"
  by (rule word_unat_eq_iff [THEN iffD2]) (simp add: unat_div_distrib unat_page_round)

lemma ALIGN_UP_page_div: "ALIGN_UP x PAGE_SIZE div PAGE_SIZE = (x + 4095) div 4096"
  by (simp only: ALIGN_UP_page) (simp add: kconst page_round_div)

lemma ALIGN_DOWN_page_div: "ALIGN_DOWN x PAGE_SIZE div PAGE_SIZE = x div 4096"
  by (simp only: ALIGN_DOWN_page) (simp add: kconst page_round_div)

lemma PHYS_TO_VIRT_inj [simp]: "PHYS_TO_VIRT a = PHYS_TO_VIRT b \<longleftrightarrow> a = b"
  by (simp add: PHYS_TO_VIRT_def)

lemma VIRT_PHYS_inverse [simp]:
  "VIRT_TO_PHYS (PHYS_TO_VIRT p) = p" "PHYS_TO_VIRT (VIRT_TO_PHYS v) = v"
  by (simp_all add: PHYS_TO_VIRT_def VIRT_TO_PHYS_def)

lemma unat_of_nat_small: "n < 2 ^ 64 \<Longrightarrow> unat (word_of_nat n :: u64) = n"
  by (simp only: unat_of_nat mod_less len_num0 len_bit0 len_num1 mult_2) (simp add: unat_of_nat)

lemma unat_image_interval: "unat ` {p :: u64. a \<le> p \<and> p < b} = {unat a..<unat b}"
proof (intro set_eqI iffI)
  fix n assume "n \<in> {unat a..<unat b}"
  then have n: "unat a \<le> n" "n < unat b" by auto
  have "n < 2 ^ 64" using order.strict_trans [OF n(2), of "2 ^ 64"] by simp
  then have u: "unat (word_of_nat n :: u64) = n" by (rule unat_of_nat_small)
  have "a \<le> word_of_nat n \<and> word_of_nat n < b"
    unfolding word_le_nat_alt word_less_nat_alt u using n by blast
  then have "word_of_nat n \<in> {p. a \<le> p \<and> p < b}" by (rule CollectI)
  then have "unat (word_of_nat n :: u64) \<in> unat ` {p. a \<le> p \<and> p < b}" by (rule imageI)
  then show "n \<in> unat ` {p. a \<le> p \<and> p < b}" by (simp only: u)
qed (auto simp: word_le_nat_alt word_less_nat_alt)

lemma inj_unat: "inj_on unat (A :: u64 set)"
  by (simp add: inj_on_def word_unat_eq_iff)

lemma card_words_interval: "card {p :: u64. a \<le> p \<and> p < b} = unat b - unat a"
  using card_image [OF inj_unat, of "{p :: u64. a \<le> p \<and> p < b}"]
  by (simp add: unat_image_interval)

end
