(* ===== verification/Kqueue.thy ===== *)
theory Kqueue
  imports Ember_Prelude
begin

text \<open>
  Ring buffers: the arithmetic shared by the keyboard buffer, the mouse buffer and pipes,
  and the contract of a bounded first-in first-out queue that all three are shown to meet.
\<close>

section \<open>The elements of a ring buffer\<close>

text \<open>The \<open>n\<close> elements from position \<open>t\<close> on, in a buffer of \<open>N\<close> cells.\<close>

definition ring_elems :: "nat \<Rightarrow> (nat \<Rightarrow> 'e) \<Rightarrow> nat \<Rightarrow> nat \<Rightarrow> 'e list" where
  "ring_elems N buf t n = map (\<lambda>i. buf ((t + i) mod N)) [0..<n]"

lemma length_ring_elems [simp]: "length (ring_elems N buf t n) = n"
  by (simp add: ring_elems_def)

lemma ring_elems_0 [simp]: "ring_elems N buf t 0 = []"
  by (simp add: ring_elems_def)

lemma mod_add_inj:
  assumes "n < N" "i < N" "(t + n) mod N = (t + i) mod N"
  shows "n = (i :: nat)"
proof -
  have "int N dvd (int t + int n) - (int t + int i)"
    using assms(3) by (metis mod_eq_dvd_iff of_nat_add of_nat_mod)
  then have "int N dvd int n - int i" by simp
  moreover have "\<bar>int n - int i\<bar> < int N" using assms(1,2) by auto
  ultimately show ?thesis using zdvd_not_zless [of "\<bar>int n - int i\<bar>" "int N"] by fastforce
qed

lemma ring_elems_put:
  assumes "n < N"
  shows "ring_elems N (buf((t + n) mod N := e)) t (Suc n) = ring_elems N buf t n @ [e]"
proof -
  have "(t + i) mod N \<noteq> (t + n) mod N" if "i < n" for i
    using mod_add_inj [of n N i t] that assms by auto
  then show ?thesis by (simp add: ring_elems_def)
qed

lemma ring_elems_get:
  "0 < n \<Longrightarrow> ring_elems N buf t n = buf (t mod N) # ring_elems N buf (Suc t mod N) (n - 1)"
proof -
  assume "0 < n"
  then obtain m where n: "n = Suc m" by (cases n) auto
  have "[0..<Suc m] = 0 # map Suc [0..<m]" by (simp only: upt_conv_Cons map_Suc_upt)
  moreover have "(t + Suc i) mod N = (Suc t mod N + i) mod N" for i by (simp add: mod_add_left_eq)
  ultimately show ?thesis by (simp add: ring_elems_def n del: upt_Suc)
qed

text \<open>Head and tail indices: the number of elements between them.\<close>

definition ring_count :: "nat \<Rightarrow> nat \<Rightarrow> nat \<Rightarrow> nat" where
  "ring_count N head tail = (head + N - tail) mod N"

lemma ring_count_less: "0 < N \<Longrightarrow> ring_count N head tail < N"
  by (simp add: ring_count_def)

lemma ring_count_head: "head < N \<Longrightarrow> tail < N \<Longrightarrow> (tail + ring_count N head tail) mod N = head"
  by (cases "tail \<le> head") (auto simp: ring_count_def mod_if)

lemma ring_count_0: "head < N \<Longrightarrow> tail < N \<Longrightarrow> ring_count N head tail = 0 \<longleftrightarrow> head = tail"
  by (cases "tail \<le> head") (auto simp: ring_count_def mod_if)

lemma ring_count_full:
  "head < N \<Longrightarrow> tail < N \<Longrightarrow> Suc head mod N = tail \<longleftrightarrow> ring_count N head tail = N - 1"
  by (cases "tail \<le> head") (auto simp: ring_count_def mod_if)

lemma ring_count_Suc:
  "head < N \<Longrightarrow> tail < N \<Longrightarrow> Suc head mod N \<noteq> tail \<Longrightarrow>
   ring_count N (Suc head mod N) tail = Suc (ring_count N head tail)"
  by (cases "tail \<le> head") (auto simp: ring_count_def mod_if split: if_splits)

lemma ring_count_pred:
  "head < N \<Longrightarrow> tail < N \<Longrightarrow> head \<noteq> tail \<Longrightarrow>
   ring_count N head (Suc tail mod N) = ring_count N head tail - 1"
  by (cases "tail \<le> head") (auto simp: ring_count_def mod_if split: if_splits)

section \<open>The contract of a bounded queue\<close>

fun put_all :: "('e \<Rightarrow> 's \<Rightarrow> 's) \<Rightarrow> 'e list \<Rightarrow> 's \<Rightarrow> 's" where
  "put_all put [] s = s"
| "put_all put (e # es) s = put_all put es (put e s)"

fun get_n :: "('s \<Rightarrow> ('e \<times> 's) option) \<Rightarrow> nat \<Rightarrow> 's \<Rightarrow> ('e list \<times> 's) option" where
  "get_n get 0 s = Some ([], s)"
| "get_n get (Suc n) s = (case get s of None \<Rightarrow> None
     | Some (e, s1) \<Rightarrow> (case get_n get n s1 of None \<Rightarrow> None | Some (es, s2) \<Rightarrow> Some (e # es, s2)))"

locale bounded_queue =
  fixes put :: "'e \<Rightarrow> 's \<Rightarrow> 's"
    and get :: "'s \<Rightarrow> ('e \<times> 's) option"
    and elems :: "'s \<Rightarrow> 'e list"
    and cap :: nat
    and inv :: "'s \<Rightarrow> bool"
  assumes put_inv: "inv s \<Longrightarrow> inv (put e s)"
    and put_elems: "inv s \<Longrightarrow> elems (put e s) = (if length (elems s) < cap then elems s @ [e] else elems s)"
    and get_elems: "inv s \<Longrightarrow> (case get s of None \<Rightarrow> elems s = []
      | Some (e, s') \<Rightarrow> elems s = e # elems s' \<and> inv s')"
    and bounded: "inv s \<Longrightarrow> length (elems s) \<le> cap"
begin

lemma put_all_elems:
  "inv s \<Longrightarrow> inv (put_all put es s) \<and> elems (put_all put es s) = take cap (elems s @ es)"
proof (induction es arbitrary: s)
  case Nil
  with bounded show ?case by simp
next
  case (Cons e es)
  show ?case
    using Cons.IH [OF put_inv [OF Cons.prems]] put_elems [OF Cons.prems, of e] bounded [OF Cons.prems]
    by (cases "length (elems s) < cap") (auto simp: not_less take_Cons diff_Suc split: nat.splits)
qed

lemma get_n_elems:
  "inv s \<Longrightarrow> n \<le> length (elems s) \<Longrightarrow>
     \<exists>s'. get_n get n s = Some (take n (elems s), s') \<and> elems s' = drop n (elems s) \<and> inv s'"
proof (induction n arbitrary: s)
  case (Suc n)
  then obtain e s1 where g: "get s = Some (e, s1)" "elems s = e # elems s1" "inv s1"
    using get_elems [OF Suc.prems(1)] by (cases "get s") auto
  with Suc.IH [of s1] Suc.prems(2) show ?case by auto
qed simp

lemma fifo:
  assumes "inv s" "elems s = []" "length es \<le> cap"
  shows "\<exists>s'. get_n get (length es) (put_all put es s) = Some (es, s') \<and> elems s' = [] \<and> inv s'"
  using get_n_elems [of "put_all put es s" "length es"] put_all_elems [OF assms(1), of es] assms by auto

end

end
