(* ===== verification/Input.thy ===== *)
theory Input
  imports Kqueue
begin

text \<open>
  The input drivers \<^verbatim>\<open>src/kernel/drivers/input/keyboard.c\<close> and
  \<^verbatim>\<open>src/kernel/drivers/input/mouse.c\<close>: scan-code translation, the three-byte packet
  state machine of the mouse, and the two ring buffers. Bytes read from the controller are
  arguments of the interrupt handlers; the initialisation of the mouse is the list of
  controller accesses it makes. The buffers are shown to be bounded queues.
\<close>

section \<open>Keyboard\<close>

definition KB_BUF_SIZE :: nat where [kconst]: "KB_BUF_SIZE = 64"

record keyboard =
  kb_buf :: "nat \<Rightarrow> char"
  kb_head :: nat
  kb_tail :: nat
  shift_held :: bool
  caps_lock :: bool

definition NUL :: char where "NUL = CHR 0x00"

text \<open>The entries after the listed ones are zero.\<close>

definition scancode_table :: "char list" where
  "scancode_table =
     [NUL, NUL] @ ''1234567890-='' @ [CHR 0x08, CHR 0x09] @ ''qwertyuiop[]'' @ [CHR 0x0A, NUL]
     @ ''asdfghjkl;'' @ [CHR 0x27, CHR 0x60, NUL, CHR 0x5C] @ ''zxcvbnm,./'' @ [NUL] @ ''*'' @ [NUL] @ '' ''
     @ replicate 70 NUL"

definition scancode_shift :: "char list" where
  "scancode_shift =
     [NUL, NUL] @ ''!@#$%^&*()_+'' @ [CHR 0x08, CHR 0x09] @ ''QWERTYUIOP{}'' @ [CHR 0x0A, NUL]
     @ ''ASDFGHJKL:'' @ [CHR 0x22, CHR 0x7E, NUL, CHR 0x7C] @ ''ZXCVBNM<>?'' @ [NUL] @ ''*'' @ [NUL] @ '' ''
     @ replicate 70 NUL"

definition SC_LSHIFT :: u8 where [kconst]: "SC_LSHIFT = 0x2A"
definition SC_RSHIFT :: u8 where [kconst]: "SC_RSHIFT = 0x36"
definition SC_CAPSLOCK :: u8 where [kconst]: "SC_CAPSLOCK = 0x3A"
definition SC_RELEASE :: u8 where [kconst]: "SC_RELEASE = 0x80"

definition kb_enqueue :: "char \<Rightarrow> keyboard \<Rightarrow> keyboard" where
  "kb_enqueue c s =
     (let nx = (kb_head s + 1) mod KB_BUF_SIZE
      in if nx \<noteq> kb_tail s then s\<lparr>kb_buf := (kb_buf s)(kb_head s := c), kb_head := nx\<rparr> else s)"

definition keyboard_handler :: "u8 \<Rightarrow> keyboard \<Rightarrow> keyboard" where
  "keyboard_handler sc s =
     (if sc AND SC_RELEASE \<noteq> 0 then
        let key = sc AND NOT SC_RELEASE
        in if key = SC_LSHIFT \<or> key = SC_RSHIFT then s\<lparr>shift_held := False\<rparr> else s
      else if sc = SC_LSHIFT \<or> sc = SC_RSHIFT then s\<lparr>shift_held := True\<rparr>
      else if sc = SC_CAPSLOCK then s\<lparr>caps_lock := \<not> caps_lock s\<rparr>
      else if sc < 128 then
        let upper = (shift_held s \<noteq> caps_lock s);
            c = (if upper \<and> scancode_shift ! unat sc \<noteq> NUL then scancode_shift ! unat sc
                 else scancode_table ! unat sc)
        in if c \<noteq> NUL then kb_enqueue c s else s
      else s)"

definition kb_pending :: "keyboard \<Rightarrow> bool" where
  "kb_pending s \<longleftrightarrow> kb_head s \<noteq> kb_tail s"

text \<open>\<open>None\<close>: \<open>kb_getc\<close> waits.\<close>

definition kb_getc :: "keyboard \<Rightarrow> (char \<times> keyboard) option" where
  "kb_getc s = (if \<not> kb_pending s then None
     else Some (kb_buf s (kb_tail s), s\<lparr>kb_tail := (kb_tail s + 1) mod KB_BUF_SIZE\<rparr>))"

section \<open>Mouse\<close>

definition MOUSE_BUF_SIZE :: nat where [kconst]: "MOUSE_BUF_SIZE = 64"

text \<open>\<open>dx\<close> and \<open>dy\<close> are signed bytes: two's complement in 8 bits.\<close>

record mouse_event =
  dx :: u8
  dy :: u8
  btn_left :: bool
  btn_right :: bool
  btn_middle :: bool

record mouse =
  mouse_buf :: "nat \<Rightarrow> mouse_event"
  mouse_head :: nat
  mouse_tail :: nat
  packet :: "nat \<Rightarrow> u8"
  packet_idx :: nat

definition PS2_STATUS_OBF :: u8 where [kconst]: "PS2_STATUS_OBF = 0x01"
definition PS2_STATUS_IBF :: u8 where [kconst]: "PS2_STATUS_IBF = 0x02"
definition PS2_STATUS_AUX :: u8 where [kconst]: "PS2_STATUS_AUX = 0x20"

definition decode_packet :: "u8 \<Rightarrow> u8 \<Rightarrow> u8 \<Rightarrow> mouse_event" where
  "decode_packet flags x y = \<lparr>dx = x, dy = - y, btn_left = (flags AND 0x01 \<noteq> 0),
     btn_right = (flags AND 0x02 \<noteq> 0), btn_middle = (flags AND 0x04 \<noteq> 0)\<rparr>"

definition mouse_enqueue :: "mouse_event \<Rightarrow> mouse \<Rightarrow> mouse" where
  "mouse_enqueue evt s =
     (let nx = (mouse_head s + 1) mod MOUSE_BUF_SIZE
      in if nx \<noteq> mouse_tail s then s\<lparr>mouse_buf := (mouse_buf s)(mouse_head s := evt), mouse_head := nx\<rparr> else s)"

text \<open>\<open>status\<close> and \<open>byte\<close> are what the two port reads return.\<close>

definition mouse_irq_handler :: "u8 \<Rightarrow> u8 \<Rightarrow> mouse \<Rightarrow> mouse" where
  "mouse_irq_handler status byte s =
     (if status AND PS2_STATUS_OBF = 0 \<or> status AND PS2_STATUS_AUX = 0 then s
      else if packet_idx s = 0 \<and> byte AND 0x08 = 0 then s
      else
        let s1 = s\<lparr>packet := (packet s)(packet_idx s := byte), packet_idx := packet_idx s + 1\<rparr>
        in if packet_idx s1 = 3 then
             let s2 = s1\<lparr>packet_idx := 0\<rparr>; flags = packet s2 0
             in if flags AND 0x40 \<noteq> 0 \<or> flags AND 0x80 \<noteq> 0 then s2
                else mouse_enqueue (decode_packet flags (packet s2 1) (packet s2 2)) s2
           else s1)"

definition mouse_pending :: "mouse \<Rightarrow> bool" where
  "mouse_pending s \<longleftrightarrow> mouse_head s \<noteq> mouse_tail s"

definition mouse_read :: "mouse \<Rightarrow> (mouse_event \<times> mouse) option" where
  "mouse_read s = (if \<not> mouse_pending s then None
     else Some (mouse_buf s (mouse_tail s), s\<lparr>mouse_tail := (mouse_tail s + 1) mod MOUSE_BUF_SIZE\<rparr>))"

subsection \<open>Controller accesses\<close>

text \<open>
  The bounded busy waits: \<open>busy k\<close> is the test of the \<open>k\<close>-th status read. The result is the
  value of \<open>timeout\<close> when the loop ends.
\<close>

fun ps2_wait :: "(nat \<Rightarrow> bool) \<Rightarrow> nat \<Rightarrow> nat \<Rightarrow> nat" where
  "ps2_wait busy k 0 = 0"
| "ps2_wait busy k (Suc n) = (if busy k then ps2_wait busy (Suc k) n else Suc n)"

definition ps2_wait_write :: "(nat \<Rightarrow> u8) \<Rightarrow> nat" where
  "ps2_wait_write status = ps2_wait (\<lambda>k. status k AND PS2_STATUS_IBF \<noteq> 0) 0 100000"

definition ps2_wait_read :: "(nat \<Rightarrow> u8) \<Rightarrow> bool" where
  "ps2_wait_read status \<longleftrightarrow> ps2_wait (\<lambda>k. status k AND PS2_STATUS_OBF = 0) 0 100000 \<noteq> 0"

datatype ps2_io = WaitWrite | WaitRead | Outb nat u8 | Inb nat

definition ps2_send_cmd :: "u8 \<Rightarrow> ps2_io list" where "ps2_send_cmd c = [WaitWrite, Outb 0x64 c]"
definition ps2_send_data :: "u8 \<Rightarrow> ps2_io list" where "ps2_send_data d = [WaitWrite, Outb 0x60 d]"
definition ps2_read_data :: "ps2_io list" where "ps2_read_data = [WaitRead, Inb 0x60]"

definition mouse_send :: "u8 \<Rightarrow> ps2_io list" where
  "mouse_send c = ps2_send_cmd 0xD4 @ ps2_send_data c"

text \<open>\<open>cfg\<close> is the configuration byte that the controller returns.\<close>

definition mouse_init :: "u8 \<Rightarrow> ps2_io list" where
  "mouse_init cfg =
     ps2_send_cmd 0xA8 @ ps2_send_cmd 0x20 @ ps2_read_data
     @ ps2_send_cmd 0x60 @ ps2_send_data ((cfg OR 0x02) AND NOT 0x20)
     @ mouse_send 0xFF @ ps2_read_data @ ps2_read_data @ ps2_read_data
     @ mouse_send 0xF6 @ ps2_read_data
     @ mouse_send 0xF4 @ ps2_read_data"

section \<open>The buffers are bounded queues\<close>

definition kb_inv :: "keyboard \<Rightarrow> bool" where
  "kb_inv s \<longleftrightarrow> kb_head s < KB_BUF_SIZE \<and> kb_tail s < KB_BUF_SIZE"

definition kb_elems :: "keyboard \<Rightarrow> char list" where
  "kb_elems s = ring_elems KB_BUF_SIZE (kb_buf s) (kb_tail s) (ring_count KB_BUF_SIZE (kb_head s) (kb_tail s))"

definition mouse_inv :: "mouse \<Rightarrow> bool" where
  "mouse_inv s \<longleftrightarrow> mouse_head s < MOUSE_BUF_SIZE \<and> mouse_tail s < MOUSE_BUF_SIZE \<and> packet_idx s < 3"

definition mouse_elems :: "mouse \<Rightarrow> mouse_event list" where
  "mouse_elems s = ring_elems MOUSE_BUF_SIZE (mouse_buf s) (mouse_tail s)
     (ring_count MOUSE_BUF_SIZE (mouse_head s) (mouse_tail s))"

text \<open>One put and one get on a buffer with head and tail indices.\<close>

lemma ring_put:
  assumes "head < N" "tail < N" "Suc head mod N \<noteq> tail"
  shows "ring_elems N (buf(head := e)) tail (ring_count N (Suc head mod N) tail)
    = ring_elems N buf tail (ring_count N head tail) @ [e]"
proof -
  have "ring_count N head tail < N" using assms(1) by (intro ring_count_less) simp
  from ring_elems_put [OF this, of buf tail e] show ?thesis
    by (simp add: ring_count_head [OF assms(1,2)] ring_count_Suc [OF assms])
qed

lemma ring_get:
  assumes "head < N" "tail < N" "head \<noteq> tail"
  shows "ring_elems N buf tail (ring_count N head tail)
    = buf tail # ring_elems N buf (Suc tail mod N) (ring_count N head (Suc tail mod N))"
proof -
  have "0 < ring_count N head tail" using ring_count_0 [OF assms(1,2)] assms(3) by simp
  from ring_elems_get [OF this, of N buf tail] show ?thesis
    using assms(2) by (simp add: ring_count_pred [OF assms])
qed

lemma ring_full:
  assumes "head < N" "tail < N"
  shows "ring_count N head tail < N - 1 \<longleftrightarrow> Suc head mod N \<noteq> tail"
  using ring_count_full [OF assms] ring_count_less [of N head tail] assms by auto

interpretation kb: bounded_queue kb_enqueue kb_getc kb_elems 63 kb_inv
proof unfold_locales
  fix s e assume i: "kb_inv s"
  then have h: "kb_head s < KB_BUF_SIZE" "kb_tail s < KB_BUF_SIZE" by (auto simp: kb_inv_def)
  show "kb_inv (kb_enqueue e s)" using i by (auto simp: kb_inv_def kb_enqueue_def Let_def kconst)
  show "kb_elems (kb_enqueue e s) = (if length (kb_elems s) < 63 then kb_elems s @ [e] else kb_elems s)"
    using ring_put [OF h] ring_full [OF h]
    by (auto simp: kb_elems_def kb_enqueue_def Let_def) (auto simp: kconst)
  show "case kb_getc s of None \<Rightarrow> kb_elems s = [] | Some (e, s') \<Rightarrow> kb_elems s = e # kb_elems s' \<and> kb_inv s'"
    using ring_get [OF h, of "kb_buf s"] ring_count_0 [OF h] h
    by (auto simp: kb_getc_def kb_pending_def kb_elems_def kb_inv_def)
  show "length (kb_elems s) \<le> 63"
    using ring_count_less [of KB_BUF_SIZE "kb_head s" "kb_tail s"] by (simp add: kb_elems_def kconst)
qed

interpretation ms: bounded_queue mouse_enqueue mouse_read mouse_elems 63 mouse_inv
proof unfold_locales
  fix s e assume i: "mouse_inv s"
  then have h: "mouse_head s < MOUSE_BUF_SIZE" "mouse_tail s < MOUSE_BUF_SIZE" by (auto simp: mouse_inv_def)
  show "mouse_inv (mouse_enqueue e s)" using i by (auto simp: mouse_inv_def mouse_enqueue_def Let_def kconst)
  show "mouse_elems (mouse_enqueue e s) = (if length (mouse_elems s) < 63 then mouse_elems s @ [e] else mouse_elems s)"
    using ring_put [OF h] ring_full [OF h]
    by (auto simp: mouse_elems_def mouse_enqueue_def Let_def) (auto simp: kconst)
  show "case mouse_read s of None \<Rightarrow> mouse_elems s = [] | Some (e, s') \<Rightarrow> mouse_elems s = e # mouse_elems s' \<and> mouse_inv s'"
    using ring_get [OF h, of "mouse_buf s"] ring_count_0 [OF h] h i
    by (auto simp: mouse_read_def mouse_pending_def mouse_elems_def mouse_inv_def)
  show "length (mouse_elems s) \<le> 63"
    using ring_count_less [of MOUSE_BUF_SIZE "mouse_head s" "mouse_tail s"] by (simp add: mouse_elems_def kconst)
qed

section \<open>Packets\<close>

text \<open>The bytes of a packet, each delivered by one interrupt with a good status.\<close>

type_synonym raw_packet = "u8 \<times> u8 \<times> u8"

fun deliver :: "u8 list \<Rightarrow> mouse \<Rightarrow> mouse" where
  "deliver [] s = s"
| "deliver (b # bs) s = deliver bs (mouse_irq_handler 0x21 b s)"

fun packet_bytes :: "raw_packet list \<Rightarrow> u8 list" where
  "packet_bytes [] = []"
| "packet_bytes ((f, x, y) # ps) = [f, x, y] @ packet_bytes ps"

definition sync_byte :: "u8 \<Rightarrow> bool" where "sync_byte b \<longleftrightarrow> b AND 0x08 \<noteq> 0"

text \<open>The events of the packets without an overflow bit.\<close>

definition packet_events :: "raw_packet list \<Rightarrow> mouse_event list" where
  "packet_events ps = map (\<lambda>(f, x, y). decode_packet f x y)
     (filter (\<lambda>(f, x, y). f AND 0x40 = 0 \<and> f AND 0x80 = 0) ps)"

lemma deliver_append: "deliver (as @ bs) s = deliver bs (deliver as s)"
  by (induction as arbitrary: s) auto

lemma status_good: "\<not> ((0x21 :: u8) AND PS2_STATUS_OBF = 0 \<or> (0x21 :: u8) AND PS2_STATUS_AUX = 0)"
  by (simp add: kconst)

lemma irq_good:
  "mouse_irq_handler 0x21 b s =
     (if packet_idx s = 0 \<and> \<not> sync_byte b then s
      else
        let s1 = s\<lparr>packet := (packet s)(packet_idx s := b), packet_idx := packet_idx s + 1\<rparr>
        in if packet_idx s1 = 3 then
             let s2 = s1\<lparr>packet_idx := 0\<rparr>; flags = packet s2 0
             in if flags AND 0x40 \<noteq> 0 \<or> flags AND 0x80 \<noteq> 0 then s2
                else mouse_enqueue (decode_packet flags (packet s2 1) (packet s2 2)) s2
           else s1)"
  unfolding mouse_irq_handler_def if_not_P [OF status_good] sync_byte_def by simp

lemma deliver_packet:
  assumes "mouse_inv s" "packet_idx s = 0" "sync_byte f"
  shows "mouse_inv (deliver [f, x, y] s) \<and> packet_idx (deliver [f, x, y] s) = 0
    \<and> mouse_elems (deliver [f, x, y] s) = take 63 (mouse_elems s @ packet_events [(f, x, y)])"
proof -
  define s3 where "s3 = s\<lparr>packet := (packet s)(0 := f, 1 := x, 2 := y), packet_idx := 0\<rparr>"
  have d: "deliver [f, x, y] s = (if f AND 0x40 \<noteq> 0 \<or> f AND 0x80 \<noteq> 0 then s3
      else mouse_enqueue (decode_packet f x y) s3)"
    using assms(2,3) by (simp add: irq_good Let_def numeral_2_eq_2 s3_def)
  have i3: "mouse_inv s3" and e3: "mouse_elems s3 = mouse_elems s" and x3: "packet_idx s3 = 0"
    using assms(1) by (simp_all add: mouse_inv_def mouse_elems_def s3_def)
  have idx: "packet_idx (mouse_enqueue e s3) = 0" for e by (simp add: mouse_enqueue_def Let_def x3)
  show ?thesis
    unfolding d using ms.put_inv [OF i3] ms.put_elems [OF i3, of "decode_packet f x y"] ms.bounded [OF i3] i3 e3 x3 idx
    by (auto simp: packet_events_def)
qed

lemma deliver_packets:
  "mouse_inv s \<Longrightarrow> packet_idx s = 0 \<Longrightarrow> \<forall>(f, x, y) \<in> set ps. sync_byte f \<Longrightarrow>
   mouse_inv (deliver (packet_bytes ps) s) \<and> packet_idx (deliver (packet_bytes ps) s) = 0
   \<and> mouse_elems (deliver (packet_bytes ps) s) = take 63 (mouse_elems s @ packet_events ps)"
proof (induction ps arbitrary: s)
  case Nil
  with ms.bounded show ?case by (simp add: packet_events_def)
next
  case (Cons p ps)
  obtain f x y where p: "p = (f, x, y)" by (cases p) auto
  have one: "mouse_inv (deliver [f, x, y] s) \<and> packet_idx (deliver [f, x, y] s) = 0
    \<and> mouse_elems (deliver [f, x, y] s) = take 63 (mouse_elems s @ packet_events [(f, x, y)])"
    using Cons.prems p by (intro deliver_packet) auto
  have split: "deliver (packet_bytes (p # ps)) s = deliver (packet_bytes ps) (deliver [f, x, y] s)"
    by (simp add: p)
  have ev: "packet_events (p # ps) = packet_events [(f, x, y)] @ packet_events ps"
    by (simp add: packet_events_def p)
  have tk: "take 63 (take 63 a @ b) = take 63 (a @ b)" for a b :: "mouse_event list"
    by (cases "length a \<le> 63") simp_all
  show ?case
    unfolding split ev using Cons.IH [of "deliver [f, x, y] s"] one Cons.prems(3)
    by (simp add: tk del: deliver.simps take_append append_assoc) (simp add: tk [of "_ @ _", simplified] take_append)
qed

lemma deliver_noise:
  "packet_idx s = 0 \<Longrightarrow> \<forall>b \<in> set bs. \<not> sync_byte b \<Longrightarrow> deliver bs s = s"
  by (induction bs) (simp_all add: irq_good)

section \<open>Concrete states\<close>

definition keyboard_bss :: keyboard where
  "keyboard_bss = \<lparr>kb_buf = (\<lambda>_. NUL), kb_head = 0, kb_tail = 0, shift_held = False, caps_lock = False\<rparr>"

definition mouse_bss :: mouse where
  "mouse_bss = \<lparr>mouse_buf = (\<lambda>_. \<lparr>dx = 0, dy = 0, btn_left = False, btn_right = False, btn_middle = False\<rparr>),
     mouse_head = 0, mouse_tail = 0, packet = (\<lambda>_. 0), packet_idx = 0\<rparr>"

lemma bss_queues: "kb_inv keyboard_bss" "kb_elems keyboard_bss = []" "mouse_inv mouse_bss" "mouse_elems mouse_bss = []"
  by (simp_all add: kb_inv_def kb_elems_def keyboard_bss_def mouse_inv_def mouse_elems_def mouse_bss_def ring_count_def kconst)

section \<open>Properties\<close>

text \<open>
  C10: Up to 63 characters put into the empty keyboard buffer are read back by \<open>kb_getc\<close> in
  the order of arrival; of a longer burst exactly the first 63 are kept.
\<close>

theorem keyboard_fifo:
  assumes "kb_inv s" and "kb_elems s = []"
  shows "(length cs \<le> 63 \<longrightarrow> (\<exists>s'. get_n kb_getc (length cs) (put_all kb_enqueue cs s) = Some (cs, s')
           \<and> kb_getc s' = None))
       \<and> kb_elems (put_all kb_enqueue cs s) = take 63 cs"
proof -
  have "kb_getc s' = None" if "kb_inv s'" "kb_elems s' = []" for s'
    using kb.get_elems [OF that(1)] that(2) by (auto split: option.splits)
  with kb.fifo [OF assms, of cs] kb.put_all_elems [OF assms(1), of cs] assms(2) show ?thesis by fastforce
qed

theorem keyboard_fifo_witness:
  "\<exists>s'. get_n kb_getc 2 (put_all kb_enqueue ''ls'' keyboard_bss) = Some (''ls'', s')"
  using keyboard_fifo [OF bss_queues(1,2), of "''ls''"] by (auto simp: numeral_2_eq_2)

text \<open>
  The mouse driver decodes every stream of packets: after any bytes without the sync
  bit, the bytes of a list of packets leave exactly the events of those packets that have
  no overflow bit, in order, behind the events already queued (63 at most).
\<close>

theorem mouse_packets_decoded:
  assumes "mouse_inv s" and "packet_idx s = 0" and "\<forall>b \<in> set noise. \<not> sync_byte b"
    and "\<forall>(f, x, y) \<in> set ps. sync_byte f"
  shows "mouse_elems (deliver (noise @ packet_bytes ps) s) = take 63 (mouse_elems s @ packet_events ps)
       \<and> mouse_inv (deliver (noise @ packet_bytes ps) s) \<and> packet_idx (deliver (noise @ packet_bytes ps) s) = 0"
  using deliver_packets [OF assms(1,2,4)] deliver_noise [OF assms(2,3)] by (simp add: deliver_append)

theorem mouse_packets_decoded_witness:
  "mouse_elems (deliver [0x00, 0x09, 5, 3] mouse_bss)
     = [\<lparr>dx = 5, dy = - 3, btn_left = True, btn_right = False, btn_middle = False\<rparr>]"
proof -
  have "packet_idx mouse_bss = 0" by (simp add: mouse_bss_def)
  moreover have "\<forall>b \<in> set [0x00 :: u8]. \<not> sync_byte b" "\<forall>(f, x, y) \<in> set [(0x09 :: u8, 5 :: u8, 3 :: u8)]. sync_byte f"
    by (simp_all add: sync_byte_def)
  ultimately have "mouse_elems (deliver ([0x00] @ packet_bytes [(0x09, 5, 3)]) mouse_bss)
      = take 63 (mouse_elems mouse_bss @ packet_events [(0x09, 5, 3)])"
    using mouse_packets_decoded [OF bss_queues(3)] by blast
  then show ?thesis by (simp add: bss_queues packet_events_def decode_packet_def del: deliver.simps)
qed

text \<open>
  Caps lock is treated as shift for every key: with caps lock on and shift up, the key
  of digit 1 produces an exclamation mark.
\<close>

theorem caps_lock_shifts_digits:
  assumes "caps_lock s" and "\<not> shift_held s"
  shows "keyboard_handler 0x02 s = kb_enqueue (CHR ''!'') s"
  using assms by (simp add: keyboard_handler_def kconst Let_def scancode_shift_def NUL_def)

theorem caps_lock_shifts_digits_witness:
  "kb_elems (keyboard_handler 0x02 (keyboard_handler 0x3A keyboard_bss)) = ''!''"
proof -
  let ?s = "keyboard_handler 0x3A keyboard_bss"
  have "caps_lock ?s" "\<not> shift_held ?s" and k: "kb_elems ?s = []" "kb_inv ?s"
    by (simp_all add: keyboard_handler_def keyboard_bss_def kconst kb_elems_def kb_inv_def ring_count_def)
  then have "keyboard_handler 0x02 ?s = kb_enqueue (CHR ''!'') ?s" by (intro caps_lock_shifts_digits)
  with kb.put_elems [OF k(2), of "CHR ''!''"] k(1) show ?thesis by simp
qed

end
