(* ===== verification/Kstring.thy ===== *)
theory Kstring
  imports Ember_Prelude
begin

text \<open>
  The string and memory routines of the kernel (\<^verbatim>\<open>src/kernel/lib/string.c\<close>) and of the
  user library (\<^verbatim>\<open>src/lib/libflame/string.c\<close> and the first part of
  \<^verbatim>\<open>src/lib/libflame/memory.c\<close>). Raw memory is a function from addresses to bytes, so that
  overlapping areas are the real ones. A C string that is only read is the list of
  characters from the pointer on, the terminating zero included; a destination array is a
  list and a position. Reading or writing beyond the array gives \<open>None\<close>. A pointer result
  is an offset from the argument.
\<close>

abbreviation NULc :: char where "NULc \<equiv> CHR 0x00"

section \<open>Raw memory\<close>

type_synonym mem = "nat \<Rightarrow> u8"

subsection \<open>Kernel\<close>

fun kmemset :: "nat \<Rightarrow> u8 \<Rightarrow> nat \<Rightarrow> mem \<Rightarrow> mem" where
  "kmemset p c 0 m = m"
| "kmemset p c (Suc n) m = kmemset (p + 1) c n (m(p := c))"

fun kmemcpy :: "nat \<Rightarrow> nat \<Rightarrow> nat \<Rightarrow> mem \<Rightarrow> mem" where
  "kmemcpy d s 0 m = m"
| "kmemcpy d s (Suc n) m = kmemcpy (d + 1) (s + 1) n (m(d := m s))"

fun kmemcmp :: "nat \<Rightarrow> nat \<Rightarrow> nat \<Rightarrow> mem \<Rightarrow> int" where
  "kmemcmp p q 0 m = 0"
| "kmemcmp p q (Suc n) m =
     (if m p < m q then -1 else if m q < m p then 1 else kmemcmp (p + 1) (q + 1) n m)"

subsection \<open>User library\<close>

fun memcpy :: "nat \<Rightarrow> nat \<Rightarrow> nat \<Rightarrow> mem \<Rightarrow> mem" where
  "memcpy d s 0 m = m"
| "memcpy d s (Suc n) m = memcpy (d + 1) (s + 1) n (m(d := m s))"

text \<open>The second loop of \<open>memmove\<close>: from the end down.\<close>

fun memcpy_down :: "nat \<Rightarrow> nat \<Rightarrow> nat \<Rightarrow> mem \<Rightarrow> mem" where
  "memcpy_down d s 0 m = m"
| "memcpy_down d s (Suc n) m = memcpy_down d s n (m(d + n := m (s + n)))"

definition memmove :: "nat \<Rightarrow> nat \<Rightarrow> nat \<Rightarrow> mem \<Rightarrow> mem" where
  "memmove d s n m = (if d < s \<or> d \<ge> s + n then memcpy d s n m else memcpy_down d s n m)"

fun memset :: "nat \<Rightarrow> u8 \<Rightarrow> nat \<Rightarrow> mem \<Rightarrow> mem" where
  "memset p c 0 m = m"
| "memset p c (Suc n) m = memset (p + 1) c n (m(p := c))"

fun memcmp :: "nat \<Rightarrow> nat \<Rightarrow> nat \<Rightarrow> mem \<Rightarrow> int" where
  "memcmp p q 0 m = 0"
| "memcmp p q (Suc n) m =
     (if m p \<noteq> m q then uint (m p) - uint (m q) else memcmp (p + 1) (q + 1) n m)"

section \<open>Reading strings\<close>

definition uchar :: "char \<Rightarrow> int" where "uchar c = of_char c"

subsection \<open>Kernel\<close>

fun kstrlen :: "string \<Rightarrow> nat option" where
  "kstrlen [] = None"
| "kstrlen (c # s) = (if c = NULc then Some 0 else map_option Suc (kstrlen s))"

fun kstrcmp :: "string \<Rightarrow> string \<Rightarrow> int option" where
  "kstrcmp (a # as) (b # bs) =
     (if a \<noteq> NULc \<and> a = b then kstrcmp as bs else Some (uchar a - uchar b))"
| "kstrcmp as bs = None"

fun kstrncmp :: "nat \<Rightarrow> string \<Rightarrow> string \<Rightarrow> int option" where
  "kstrncmp 0 as bs = Some 0"
| "kstrncmp (Suc n) (a # as) (b # bs) =
     (if a \<noteq> NULc \<and> a = b then kstrncmp n as bs else Some (uchar a - uchar b))"
| "kstrncmp (Suc n) as bs = None"

text \<open>The result of a search: \<open>Some (Some k)\<close> is the pointer \<open>s + k\<close>, \<open>Some None\<close> the null pointer.\<close>

fun kstrchr_from :: "nat \<Rightarrow> string \<Rightarrow> char \<Rightarrow> nat option option" where
  "kstrchr_from k [] c = None"
| "kstrchr_from k (x # s) c =
     (if x = NULc then Some (if c = NULc then Some k else None)
      else if x = c then Some (Some k) else kstrchr_from (Suc k) s c)"

definition kstrchr :: "string \<Rightarrow> char \<Rightarrow> nat option option" where
  "kstrchr s c = kstrchr_from 0 s c"

fun kstrrchr_from :: "nat \<Rightarrow> nat option \<Rightarrow> string \<Rightarrow> char \<Rightarrow> nat option option" where
  "kstrrchr_from k lst [] c = None"
| "kstrrchr_from k lst (x # s) c =
     (if x = NULc then Some (if c = NULc then Some k else lst)
      else kstrrchr_from (Suc k) (if x = c then Some k else lst) s c)"

definition kstrrchr :: "string \<Rightarrow> char \<Rightarrow> nat option option" where
  "kstrrchr s c = kstrrchr_from 0 None s c"

subsection \<open>User library\<close>

fun strlen :: "string \<Rightarrow> nat option" where
  "strlen [] = None"
| "strlen (c # s) = (if c = NULc then Some 0 else map_option Suc (strlen s))"

fun strcmp :: "string \<Rightarrow> string \<Rightarrow> int option" where
  "strcmp (a # as) (b # bs) =
     (if a \<noteq> NULc \<and> a = b then strcmp as bs else Some (uchar a - uchar b))"
| "strcmp as bs = None"

text \<open>\<open>n--\<close> has wrapped to \<open>-1\<close> exactly when the count is used up.\<close>

fun strncmp :: "nat \<Rightarrow> string \<Rightarrow> string \<Rightarrow> int option" where
  "strncmp 0 as bs = Some 0"
| "strncmp (Suc n) (a # as) (b # bs) =
     (if a \<noteq> NULc \<and> a = b then strncmp n as bs else Some (uchar a - uchar b))"
| "strncmp (Suc n) as bs = None"

fun strchr_from :: "nat \<Rightarrow> string \<Rightarrow> char \<Rightarrow> nat option option" where
  "strchr_from k [] c = None"
| "strchr_from k (x # s) c =
     (if x \<noteq> NULc then (if x = c then Some (Some k) else strchr_from (Suc k) s c)
      else Some (if c = NULc then Some k else None))"

definition strchr :: "string \<Rightarrow> char \<Rightarrow> nat option option" where
  "strchr s c = strchr_from 0 s c"

fun strrchr_from :: "nat \<Rightarrow> nat option \<Rightarrow> string \<Rightarrow> char \<Rightarrow> nat option option" where
  "strrchr_from k lst [] c = None"
| "strrchr_from k lst (x # s) c =
     (if x \<noteq> NULc then strrchr_from (Suc k) (if x = c then Some k else lst) s c
      else Some (if c = NULc then Some k else lst))"

definition strrchr :: "string \<Rightarrow> char \<Rightarrow> nat option option" where
  "strrchr s c = strrchr_from 0 None s c"

fun strstr_from :: "nat \<Rightarrow> string \<Rightarrow> string \<Rightarrow> nat \<Rightarrow> nat option option" where
  "strstr_from k [] needle nlen = None"
| "strstr_from k (x # hs) needle nlen =
     (if x = NULc then Some None
      else case strncmp nlen (x # hs) needle of
             None \<Rightarrow> None
           | Some r \<Rightarrow> if r = 0 then Some (Some k) else strstr_from (Suc k) hs needle nlen)"

definition strstr :: "string \<Rightarrow> string \<Rightarrow> nat option option" where
  "strstr haystack needle =
     (case needle of [] \<Rightarrow> None
      | c # _ \<Rightarrow> if c = NULc then Some (Some 0)
                else Option.bind (strlen needle) (strstr_from 0 haystack needle))"

text \<open>
  \<open>strtok_r\<close>: skip delimiters, cut a token. The second component is the new save pointer,
  as the rest of the string.
\<close>

fun skip_delim :: "string \<Rightarrow> string \<Rightarrow> string" where
  "skip_delim delim [] = []"
| "skip_delim delim (c # s) = (if c \<noteq> NULc \<and> strchr delim c \<noteq> Some None \<and> strchr delim c \<noteq> None
     then skip_delim delim s else c # s)"

fun take_token :: "string \<Rightarrow> string \<Rightarrow> string \<times> string" where
  "take_token delim [] = ([], [])"
| "take_token delim (c # s) = (if c \<noteq> NULc \<and> strchr delim c = Some None
     then (let (t, r) = take_token delim s in (c # t, r)) else ([], c # s))"

definition strtok_r :: "string \<Rightarrow> string \<Rightarrow> string option \<times> string" where
  "strtok_r s delim =
     (let s1 = skip_delim delim s in
      case s1 of [] \<Rightarrow> (None, [])
      | c # _ \<Rightarrow>
        if c = NULc then (None, s1)
        else let (t, r) = take_token delim s1 in
             case r of [] \<Rightarrow> (Some t, [])
             | d # r' \<Rightarrow> (Some t, if d \<noteq> NULc then r' else r))"

section \<open>Writing strings\<close>

definition put :: "string \<Rightarrow> nat \<Rightarrow> char \<Rightarrow> string option" where
  "put dst d c = (if d < length dst then Some (dst[d := c]) else None)"

subsection \<open>Kernel\<close>

fun kstrcpy :: "string \<Rightarrow> nat \<Rightarrow> string \<Rightarrow> string option" where
  "kstrcpy dst d [] = None"
| "kstrcpy dst d (c # src) = Option.bind (put dst d c) (\<lambda>dst'.
     if c = NULc then Some dst' else kstrcpy dst' (d + 1) src)"

text \<open>The first loop of \<open>kstrncpy\<close>: the count is not decremented for the terminating zero.\<close>

fun kstrncpy_copy :: "string \<Rightarrow> nat \<Rightarrow> string \<Rightarrow> nat \<Rightarrow> (string \<times> nat \<times> nat) option" where
  "kstrncpy_copy dst d src 0 = Some (dst, d, 0)"
| "kstrncpy_copy dst d [] (Suc n) = None"
| "kstrncpy_copy dst d (c # src) (Suc n) = Option.bind (put dst d c) (\<lambda>dst'.
     if c = NULc then Some (dst', d + 1, Suc n) else kstrncpy_copy dst' (d + 1) src n)"

fun fill_zero :: "string \<Rightarrow> nat \<Rightarrow> nat \<Rightarrow> string option" where
  "fill_zero dst d 0 = Some dst"
| "fill_zero dst d (Suc n) = Option.bind (put dst d NULc) (\<lambda>dst'. fill_zero dst' (d + 1) n)"

definition kstrncpy :: "string \<Rightarrow> string \<Rightarrow> nat \<Rightarrow> string option" where
  "kstrncpy dst src n = Option.bind (kstrncpy_copy dst 0 src n) (\<lambda>(dst', d, k). fill_zero dst' d k)"

subsection \<open>User library\<close>

fun strcpy :: "string \<Rightarrow> nat \<Rightarrow> string \<Rightarrow> string option" where
  "strcpy dst d [] = None"
| "strcpy dst d (c # src) = Option.bind (put dst d c) (\<lambda>dst'.
     if c = NULc then Some dst' else strcpy dst' (d + 1) src)"

fun strncpy_copy :: "string \<Rightarrow> nat \<Rightarrow> string \<Rightarrow> nat \<Rightarrow> (string \<times> nat \<times> nat) option" where
  "strncpy_copy dst i src 0 = Some (dst, i, 0)"
| "strncpy_copy dst i [] (Suc n) = None"
| "strncpy_copy dst i (c # src) (Suc n) =
     (if c = NULc then Some (dst, i, Suc n)
      else Option.bind (put dst i c) (\<lambda>dst'. strncpy_copy dst' (i + 1) src n))"

definition strncpy :: "string \<Rightarrow> string \<Rightarrow> nat \<Rightarrow> string option" where
  "strncpy dst src n = Option.bind (strncpy_copy dst 0 src n) (\<lambda>(dst', i, k). fill_zero dst' i k)"

definition strcat :: "string \<Rightarrow> string \<Rightarrow> string option" where
  "strcat dst src = Option.bind (strlen dst) (\<lambda>d. strcpy dst d src)"

fun strncat_copy :: "string \<Rightarrow> nat \<Rightarrow> string \<Rightarrow> nat \<Rightarrow> (string \<times> nat) option" where
  "strncat_copy dst d src 0 = Some (dst, d)"
| "strncat_copy dst d [] (Suc n) = None"
| "strncat_copy dst d (c # src) (Suc n) =
     (if c = NULc then Some (dst, d) else Option.bind (put dst d c) (\<lambda>dst'. strncat_copy dst' (d + 1) src n))"

definition strncat :: "string \<Rightarrow> string \<Rightarrow> nat \<Rightarrow> string option" where
  "strncat dst src n = Option.bind (strlen dst) (\<lambda>d.
     Option.bind (strncat_copy dst d src n) (\<lambda>(dst', d'). put dst' d' NULc))"

section \<open>Numbers\<close>

fun skip_blanks :: "string \<Rightarrow> string" where
  "skip_blanks [] = []"
| "skip_blanks (c # s) = (if c = CHR '' '' \<or> c = CHR 0x09 then skip_blanks s else c # s)"

definition digit_value :: "char \<Rightarrow> int option" where
  "digit_value c =
     (let n = uchar c in
      if 48 \<le> n \<and> n \<le> 57 then Some (n - 48)
      else if 97 \<le> n \<and> n \<le> 102 then Some (n - 97 + 10)
      else if 65 \<le> n \<and> n \<le> 70 then Some (n - 65 + 10)
      else None)"

text \<open>
  The digit loop. The accumulator is exact; in C the behaviour is defined as long as the
  value fits a \<open>long\<close>.
\<close>

fun digits_loop :: "int \<Rightarrow> int \<Rightarrow> string \<Rightarrow> int \<times> string" where
  "digits_loop base acc [] = (acc, [])"
| "digits_loop base acc (c # s) =
     (if c = NULc then (acc, c # s)
      else case digit_value c of None \<Rightarrow> (acc, c # s)
           | Some d \<Rightarrow> if base \<le> d then (acc, c # s) else digits_loop base (acc * base + d) s)"

definition hex_prefix :: "string \<Rightarrow> bool" where
  "hex_prefix s \<longleftrightarrow> (case s of a # b # _ \<Rightarrow> a = CHR ''0'' \<and> (b = CHR ''x'' \<or> b = CHR ''X'') | _ \<Rightarrow> False)"

definition strtol :: "string \<Rightarrow> int \<Rightarrow> int \<times> string" where
  "strtol s0 base0 =
     (let s1 = skip_blanks s0;
          (neg, s2) = (case s1 of [] \<Rightarrow> (False, [])
             | c # r \<Rightarrow> if c = CHR ''-'' then (True, r) else if c = CHR ''+'' then (False, r) else (False, s1));
          (base, s3) =
            (if base0 = 0 then
               if hex_prefix s2 then (16, drop 2 s2)
               else if take 1 s2 = ''0'' then (8, drop 1 s2)
               else (10, s2)
             else if base0 = 16 \<and> hex_prefix s2 then (base0, drop 2 s2)
             else (base0, s2));
          (r, rest) = digits_loop base 0 s3
      in (if neg then - r else r, rest))"

definition strtoul :: "string \<Rightarrow> int \<Rightarrow> u64 \<times> string" where
  "strtoul s base = (let (r, rest) = strtol s base in (word_of_int r, rest))"

text \<open>The cast of a \<open>long\<close> to \<open>int\<close>.\<close>

definition to_int :: "int \<Rightarrow> int" where
  "to_int x = sint (word_of_int x :: u32)"

definition atoi :: "string \<Rightarrow> int" where "atoi s = to_int (fst (strtol s 10))"
definition atol :: "string \<Rightarrow> int" where "atol s = fst (strtol s 10)"

definition digit_char :: "nat \<Rightarrow> char" where
  "digit_char r = (if r < 10 then char_of (48 + r) else char_of (97 + r - 10))"

text \<open>The digits, least significant first, as \<open>tmp\<close> holds them.\<close>

function itoa_digits :: "nat \<Rightarrow> nat \<Rightarrow> string" where
  "itoa_digits base u = (if 0 < u \<and> 2 \<le> base then digit_char (u mod base) # itoa_digits base (u div base) else [])"
  by pat_completeness auto
termination
  by (relation "measure snd") auto

declare itoa_digits.simps [simp del]

text \<open>\<open>val\<close> is a 32-bit int; the characters written to \<open>buf\<close>, without the terminating zero.\<close>

definition itoa :: "int \<Rightarrow> int \<Rightarrow> string" where
  "itoa val base =
     (if base < 2 \<or> base > 36 then []
      else let neg = (val < 0 \<and> base = 10);
               u = nat ((if neg then - val else val) mod 2 ^ 32);
               tmp = (if u = 0 then ''0'' else []) @ itoa_digits (nat base) u @ (if neg then ''-'' else [])
           in rev tmp)"

section \<open>Copying memory\<close>

lemma memcpy_forward:
  "d \<le> s \<or> s + n \<le> d \<Longrightarrow> memcpy d s n m a = (if d \<le> a \<and> a < d + n then m (s + (a - d)) else m a)"
proof (induction n arbitrary: d s m)
  case (Suc n)
  show ?case
  proof (cases "d + 1 \<le> a \<and> a < d + Suc n")
    case True
    have "s + 1 + (a - (d + 1)) \<noteq> d" using True Suc.prems by arith
    moreover have "s + 1 + (a - (d + 1)) = s + (a - d)" using True by arith
    ultimately show ?thesis using Suc.IH [of "d + 1" "s + 1" "m(d := m s)"] Suc.prems True by (auto simp: fun_upd_def)
  next
    case False
    then show ?thesis using Suc.IH [of "d + 1" "s + 1" "m(d := m s)"] Suc.prems
      by (cases "a = d") (auto simp: fun_upd_def)
  qed
qed auto

lemma memcpy_down_eq:
  "s \<le> d \<Longrightarrow> memcpy_down d s n m a = (if d \<le> a \<and> a < d + n then m (s + (a - d)) else m a)"
proof (induction n arbitrary: m)
  case (Suc n)
  show ?case
  proof (cases "d \<le> a \<and> a < d + n")
    case True
    have "s + (a - d) \<noteq> d + n" using True Suc.prems by arith
    then show ?thesis using Suc.IH [of "m(d + n := m (s + n))"] Suc.prems True by (auto simp: fun_upd_def)
  next
    case False
    then have "d \<le> a \<and> a < d + Suc n \<longleftrightarrow> a = d + n" by auto
    then show ?thesis using Suc.IH [of "m(d + n := m (s + n))"] Suc.prems False by (auto simp: fun_upd_def)
  qed
qed auto

lemma kmemcpy_memcpy: "kmemcpy d s n m = memcpy d s n m"
  by (induction n arbitrary: d s m) (simp_all del: fun_upd_apply)

lemma kmemset_eq: "kmemset p c n m a = (if p \<le> a \<and> a < p + n then c else m a)"
  by (induction n arbitrary: p m) (auto simp: fun_upd_def)

lemma memset_eq: "memset p c n m a = (if p \<le> a \<and> a < p + n then c else m a)"
  by (induction n arbitrary: p m) (auto simp: fun_upd_def)

lemma kmemcmp_0: "kmemcmp p q n m = 0 \<longleftrightarrow> (\<forall>i < n. m (p + i) = m (q + i))"
proof (induction n arbitrary: p q)
  case (Suc n)
  have "(\<forall>i < Suc n. m (p + i) = m (q + i)) \<longleftrightarrow> m p = m q \<and> (\<forall>i < n. m (p + 1 + i) = m (q + 1 + i))"
    by (auto simp: less_Suc_eq_0_disj)
  with Suc show ?case by auto
qed simp

section \<open>Comparing strings\<close>

lemma uchar_0 [simp]: "uchar c = uchar d \<longleftrightarrow> c = d"
  by (simp add: uchar_def)

lemma kstrcmp_0:
  "NULc \<notin> set s \<Longrightarrow> NULc \<notin> set t \<Longrightarrow> kstrcmp (s @ NULc # u) (t @ NULc # v) = Some 0 \<longleftrightarrow> s = t"
proof (induction s arbitrary: t)
  case Nil
  then show ?case by (cases t) auto
next
  case (Cons c s)
  then show ?case by (cases t) auto
qed

lemma kstrlen_eq: "NULc \<notin> set s \<Longrightarrow> kstrlen (s @ NULc # u) = Some (length s)"
  by (induction s) auto

lemma strlen_eq: "NULc \<notin> set s \<Longrightarrow> strlen (s @ NULc # u) = Some (length s)"
  by (induction s) auto

section \<open>Bounded copies\<close>

lemma put_Some: "d < length dst \<Longrightarrow> put dst d c = Some (take d dst @ c # drop (Suc d) dst)"
  by (simp add: put_def upd_conv_take_nth_drop)

lemma fill_zero_eq:
  "fill_zero dst d n =
     (if n = 0 \<or> d + n \<le> length dst then Some (take d dst @ replicate n NULc @ drop (d + n) dst) else None)"
proof (induction dst d n rule: fill_zero.induct)
  case (2 dst d n)
  show ?case
  proof (cases "d < length dst")
    case True
    let ?dst = "take d dst @ NULc # drop (Suc d) dst"
    have l: "length ?dst = length dst" "take (d + 1) ?dst = take d dst @ [NULc]"
      "drop (d + 1 + n) ?dst = drop (d + Suc n) dst"
      using True by (auto simp: min_def drop_Cons' add.commute)
    have "put dst d NULc = Some ?dst" by (rule put_Some [OF True])
    with 2 [OF this] l True show ?thesis by (auto simp del: One_nat_def add_Suc_right add_Suc)
  next
    case False
    then show ?thesis by (auto simp: put_def)
  qed
qed simp

lemma kstrncpy_copy_eq:
  "NULc \<notin> set s \<Longrightarrow> length s < n \<Longrightarrow> d + length s < length dst \<Longrightarrow>
   kstrncpy_copy dst d (s @ NULc # u) n =
     Some (take d dst @ s @ NULc # drop (Suc (d + length s)) dst, Suc (d + length s), n - length s)"
proof (induction s arbitrary: dst d n)
  case Nil
  then obtain k where "n = Suc k" by (cases n) auto
  with Nil show ?case by (simp add: put_Some)
next
  case (Cons c s)
  then obtain k where n: "n = Suc k" by (cases n) auto
  let ?dst = "take d dst @ c # drop (Suc d) dst"
  have p: "put dst d c = Some ?dst" using Cons.prems by (intro put_Some) simp
  have l: "length ?dst = length dst" using Cons.prems by simp
  have m: "min (length dst) d = d" using Cons.prems by simp
  from Cons.IH [of k "d + 1" ?dst] Cons.prems n l p m show ?case
    by (auto simp: drop_Cons' add.commute)
qed

lemma strncpy_copy_eq:
  "NULc \<notin> set s \<Longrightarrow> length s < n \<Longrightarrow> d + length s \<le> length dst \<Longrightarrow>
   strncpy_copy dst d (s @ NULc # u) n =
     Some (take d dst @ s @ drop (d + length s) dst, d + length s, n - length s)"
proof (induction s arbitrary: dst d n)
  case Nil
  then obtain k where "n = Suc k" by (cases n) auto
  with Nil show ?case by simp
next
  case (Cons c s)
  then obtain k where n: "n = Suc k" by (cases n) auto
  let ?dst = "take d dst @ c # drop (Suc d) dst"
  have p: "put dst d c = Some ?dst" using Cons.prems by (intro put_Some) simp
  have l: "length ?dst = length dst" using Cons.prems by simp
  have m: "min (length dst) d = d" using Cons.prems by simp
  from Cons.IH [of k "d + 1" ?dst] Cons.prems n l p m show ?case
    by (auto simp: drop_Cons' add.commute)
qed

section \<open>Numbers\<close>

lemma uchar_char_of: "n < 256 \<Longrightarrow> uchar (char_of n) = int n"
proof -
  assume "n < 256"
  then have "(of_char (char_of n) :: nat) = n" by simp
  then show ?thesis by (metis uchar_def of_nat_of_char)
qed

lemma digit_char_value: "r < 16 \<Longrightarrow> digit_value (digit_char r) = Some (int r)"
  by (auto simp: digit_value_def digit_char_def Let_def uchar_char_of)

lemma digit_char_NUL: "r < 16 \<Longrightarrow> digit_char r \<noteq> NULc"
  using digit_char_value [of r] by (auto simp: digit_value_def uchar_def Let_def)

lemma digits_loop_itoa:
  "2 \<le> b \<Longrightarrow> b \<le> 16 \<Longrightarrow>
   digits_loop (int b) acc (rev (itoa_digits b u) @ rest)
     = digits_loop (int b) (acc * int b ^ length (itoa_digits b u) + int u) rest"
proof (induction b u arbitrary: rest rule: itoa_digits.induct)
  case (1 b u)
  show ?case
  proof (cases "0 < u")
    case True
    let ?d = "digit_char (u mod b)" and ?k = "length (itoa_digits b (u div b))"
    have it: "itoa_digits b u = ?d # itoa_digits b (u div b)"
      using True "1.prems" by (simp add: itoa_digits.simps [of b u])
    have r: "u mod b < 16" "u mod b < b" using "1.prems" by (simp_all add: order.strict_trans2 [OF mod_less_divisor])
    have "digits_loop (int b) acc (rev (itoa_digits b (u div b)) @ ?d # rest)
        = digits_loop (int b) (acc * int b ^ ?k + int (u div b)) (?d # rest)"
      using 1 True by simp
    also have "\<dots> = digits_loop (int b) ((acc * int b ^ ?k + int (u div b)) * int b + int (u mod b)) rest"
      using r digit_char_value [OF r(1)] digit_char_NUL [OF r(1)] by simp
    also have "(acc * int b ^ ?k + int (u div b)) * int b + int (u mod b) = acc * int b ^ Suc ?k + int u"
      by (simp add: algebra_simps flip: of_nat_mult of_nat_add)
    finally show ?thesis by (simp add: it)
  next
    case False
    then show ?thesis by (simp add: itoa_digits.simps [of b 0])
  qed
qed

lemma itoa_digits_chars:
  "b \<le> 16 \<Longrightarrow> c \<in> set (itoa_digits b u) \<Longrightarrow> digit_value c \<noteq> None"
proof (induction b u rule: itoa_digits.induct)
  case (1 b u)
  have "u mod b < 16" if "2 \<le> b" using that 1(2) by (simp add: order.strict_trans2 [OF mod_less_divisor])
  with 1 show ?case
    by (subst (asm) (2) itoa_digits.simps) (auto simp: digit_char_value split: if_splits)
qed

text \<open>The digits of an unsigned value, most significant first.\<close>

definition udigits :: "nat \<Rightarrow> nat \<Rightarrow> string" where
  "udigits b u = (if u = 0 then ''0'' else rev (itoa_digits b u))"

lemma udigits_chars: "b \<le> 16 \<Longrightarrow> c \<in> set (udigits b u) \<Longrightarrow> digit_value c \<noteq> None"
  using itoa_digits_chars [of b c u] by (auto simp: udigits_def digit_value_def uchar_def split: if_splits)

lemma udigits_ne: "2 \<le> b \<Longrightarrow> udigits b u \<noteq> []"
  by (simp add: udigits_def itoa_digits.simps [of b u])

lemma digits_loop_udigits:
  "2 \<le> b \<Longrightarrow> b \<le> 16 \<Longrightarrow> digits_loop (int b) 0 (udigits b u @ NULc # rest) = (int u, NULc # rest)"
  using digits_loop_itoa [of b 0 u "NULc # rest"]
  by (auto simp: udigits_def digit_value_def uchar_def)

lemma digit_value_special:
  "digit_value (CHR '' '') = None" "digit_value (CHR 0x09) = None" "digit_value (CHR ''-'') = None"
  "digit_value (CHR ''+'') = None" "digit_value (CHR ''x'') = None" "digit_value (CHR ''X'') = None"
  "digit_value NULc = None"
  by (simp_all add: digit_value_def uchar_def)

lemma udigits_no_prefix: "2 \<le> b \<Longrightarrow> b \<le> 16 \<Longrightarrow> \<not> hex_prefix (udigits b u @ NULc # rest)"
proof -
  assume b: "2 \<le> b" "b \<le> 16"
  obtain c s where cs: "udigits b u = c # s" using udigits_ne [OF b(1), of u] by (cases "udigits b u") auto
  show ?thesis
  proof (cases s)
    case (Cons x xs)
    have "digit_value x \<noteq> None" using udigits_chars [OF b(2), of x u] cs Cons by simp
    then show ?thesis using cs Cons digit_value_special by (auto simp: hex_prefix_def)
  qed (simp add: hex_prefix_def cs)
qed

lemma strtol_udigits:
  assumes b: "2 \<le> b" "b \<le> 16"
  shows "strtol (udigits b u @ NULc # rest) (int b) = (int u, NULc # rest)"
    and "strtol (CHR ''-'' # udigits b u @ NULc # rest) (int b) = (- int u, NULc # rest)"
proof -
  obtain c s where cs: "udigits b u = c # s" using udigits_ne [OF b(1), of u] by (cases "udigits b u") auto
  have "digit_value c \<noteq> None" using udigits_chars [OF b(2), of c u] cs by simp
  then have c: "c \<noteq> CHR '' ''" "c \<noteq> CHR 0x09" "c \<noteq> CHR ''-''" "c \<noteq> CHR ''+''" using digit_value_special by auto
  note dl = digits_loop_udigits [OF b, of u rest] and np = udigits_no_prefix [OF b, of u rest]
  show "strtol (udigits b u @ NULc # rest) (int b) = (int u, NULc # rest)"
    using c dl np b unfolding strtol_def cs by simp
  show "strtol (CHR ''-'' # udigits b u @ NULc # rest) (int b) = (- int u, NULc # rest)"
    using c dl np b unfolding strtol_def cs by simp
qed

lemma itoa_udigits:
  assumes "2 \<le> b" "b \<le> 36"
  shows "0 \<le> v \<Longrightarrow> v < 2 ^ 32 \<Longrightarrow> itoa v (int b) = udigits b (nat v)"
    and "v < 0 \<Longrightarrow> - (2 ^ 31) \<le> v \<Longrightarrow> itoa v 10 = CHR ''-'' # udigits 10 (nat (- v))"
  using assms by (auto simp: itoa_def Let_def udigits_def itoa_digits.simps [of _ 0])

section \<open>Properties\<close>

text \<open>
  C13: \<open>memmove\<close> copies correctly for every overlap: afterwards the destination holds the
  bytes the source held before, and no other byte has changed. \<open>memcpy\<close> (and the kernel's
  \<open>kmemcpy\<close>) does so when the destination does not start inside the source.
\<close>

theorem memmove_copies:
  "memmove d s n m a = (if d \<le> a \<and> a < d + n then m (s + (a - d)) else m a)
   \<and> (d \<le> s \<or> s + n \<le> d \<longrightarrow> memcpy d s n m = memmove d s n m \<and> kmemcpy d s n m = memmove d s n m)"
proof -
  have mm: "memmove d s n m a = (if d \<le> a \<and> a < d + n then m (s + (a - d)) else m a)" for a
    using memcpy_forward [of d s n m a] memcpy_down_eq [of s d n m a] by (auto simp: memmove_def)
  moreover have "memcpy d s n m = memmove d s n m" if "d \<le> s \<or> s + n \<le> d"
    using that mm by (auto simp: fun_eq_iff memcpy_forward)
  ultimately show ?thesis by (simp add: kmemcpy_memcpy)
qed

theorem memmove_copies_witness:
  "memmove 1 0 2 (\<lambda>a. of_nat a) 2 = 1 \<and> memcpy 0 1 2 (\<lambda>a. of_nat a) = memmove 0 1 2 (\<lambda>a. of_nat a)"
  using memmove_copies [of 1 0 2 "\<lambda>a. of_nat a" 2] memmove_copies [of 0 1 2 "\<lambda>a. of_nat a" 0] by simp

text \<open>
  Printing a number and reading it back gives the number: \<open>strtol\<close> on the output of
  \<open>itoa\<close> returns the value and stops at the terminating zero, for every 32-bit int in base
  10 and for every unsigned value in the bases 2 to 16; \<open>atoi\<close> inverts \<open>itoa\<close>.
\<close>

theorem strtol_itoa:
  "(- (2 ^ 31) \<le> v \<and> v < 2 ^ 31 \<longrightarrow>
      strtol (itoa v 10 @ NULc # rest) 10 = (v, NULc # rest) \<and> atoi (itoa v 10 @ NULc # rest) = v)
   \<and> (2 \<le> b \<and> b \<le> 16 \<and> u < 2 ^ 32 \<longrightarrow>
      strtol (itoa (int u) (int b) @ NULc # rest) (int b) = (int u, NULc # rest))"
proof (intro conjI impI)
  assume v: "- (2 ^ 31) \<le> v \<and> v < 2 ^ 31"
  show s: "strtol (itoa v 10 @ NULc # rest) 10 = (v, NULc # rest)"
  proof (cases "v < 0")
    case True
    with v itoa_udigits(2) [of 10 v] strtol_udigits(2) [of 10 "nat (- v)" rest] show ?thesis by simp
  next
    case False
    with v itoa_udigits(1) [of 10 v] strtol_udigits(1) [of 10 "nat v" rest] show ?thesis by simp
  qed
  have "to_int v = v"
    using v by (simp add: to_int_def signed_of_int signed_take_bit_int_eq_self)
  with s show "atoi (itoa v 10 @ NULc # rest) = v" by (simp add: atoi_def)
next
  assume "2 \<le> b \<and> b \<le> 16 \<and> u < 2 ^ 32"
  then show "strtol (itoa (int u) (int b) @ NULc # rest) (int b) = (int u, NULc # rest)"
    using itoa_udigits(1) [of b "int u"] strtol_udigits(1) [of b u rest] by simp
qed

theorem strtol_itoa_witness:
  "atoi (itoa (- 40) 10 @ [NULc]) = - 40 \<and> strtol (itoa 255 16 @ [NULc]) 16 = (255, [NULc])"
  using strtol_itoa [of "- 40" "[]" 16 255] by simp

text \<open>
  \<open>kstrncpy\<close> with a source shorter than \<open>n\<close> writes \<open>n + 1\<close> characters: on a destination
  of exactly \<open>n\<close> it writes beyond the end. The library's \<open>strncpy\<close> writes exactly \<open>n\<close>.
\<close>

theorem kstrncpy_writes_one_too_many:
  assumes "NULc \<notin> set s" and "length s < n"
  shows "(length dst = n \<longrightarrow> kstrncpy dst (s @ NULc # u) n = None)
    \<and> (n < length dst \<longrightarrow> kstrncpy dst (s @ NULc # u) n =
          Some (s @ replicate (Suc n - length s) NULc @ drop (Suc n) dst))
    \<and> (n \<le> length dst \<longrightarrow> strncpy dst (s @ NULc # u) n =
          Some (s @ replicate (n - length s) NULc @ drop n dst))"
  using assms kstrncpy_copy_eq [OF assms, of 0 dst u] strncpy_copy_eq [OF assms, of 0 dst u]
  by (auto simp: kstrncpy_def strncpy_def fill_zero_eq Suc_diff_le min_def)

theorem kstrncpy_writes_one_too_many_witness:
  "kstrncpy ''xxxx'' [CHR ''a'', NULc] 4 = None
   \<and> strncpy ''xxxx'' [CHR ''a'', NULc] 4 = Some [CHR ''a'', NULc, NULc, NULc]"
  using kstrncpy_writes_one_too_many [of "''a''" 4 "''xxxx''" "[]"] by (simp add: numeral_eq_Suc)

end
