(* ===== verification/Printf.thy ===== *)
theory Printf
  imports Kstring
begin

text \<open>
  Formatted output: the kernel's \<^verbatim>\<open>src/kernel/printk.c\<close> and the user library's
  \<^verbatim>\<open>src/lib/libflame/printf.c\<close>. A format is the list of its characters with the
  terminating zero; the variable arguments are a list. \<open>None\<close> stands for what C leaves
  undefined: reading past the format or the arguments, or writing outside an array. Every
  conversion yields the characters it emits; the loops emit them one by one through
  \<open>emit_char\<close> and \<open>ctx_emit\<close>, which write to a buffer or, with the null buffer, to the
  terminal.
\<close>

section \<open>Arguments and digits\<close>

datatype arg = AInt u64 | AStr "string option"     \<comment> \<open>\<open>AStr None\<close> is the null pointer\<close>

text \<open>An integer argument: 64 bits, or its low 32 bits extended with sign or with zero.\<close>

definition arg_signed :: "bool \<Rightarrow> u64 \<Rightarrow> int" where
  "arg_signed is_long w = (if is_long then sint w else sint (ucast w :: u32))"

definition arg_unsigned :: "bool \<Rightarrow> u64 \<Rightarrow> nat" where
  "arg_unsigned is_long w = (if is_long then unat w else unat (ucast w :: u32))"

definition hex_digit :: "bool \<Rightarrow> nat \<Rightarrow> char" where
  "hex_digit upper d = (if upper then ''0123456789ABCDEF'' else ''0123456789abcdef'') ! d"

function tmp_digits :: "bool \<Rightarrow> nat \<Rightarrow> nat \<Rightarrow> string" where
  "tmp_digits upper base v =
     (if 0 < v \<and> 2 \<le> base then hex_digit upper (v mod base) # tmp_digits upper base (v div base) else [])"
  by pat_completeness auto
termination
  by (relation "measure (\<lambda>(u, b, v). v)") auto

declare tmp_digits.simps [simp del]

lemma tmp_digits_step:
  "0 < v \<Longrightarrow> 2 \<le> base \<Longrightarrow> tmp_digits u base v = hex_digit u (v mod base) # tmp_digits u base (v div base)"
  by (subst tmp_digits.simps) simp

lemma tmp_digits_0: "tmp_digits u base 0 = []"
  by (subst tmp_digits.simps) simp

lemma replicate_num: "replicate (numeral k) x = x # replicate (pred_numeral k) x"
  by (simp add: numeral_eq_Suc)

text \<open>The contents of \<open>tmp\<close> before padding, least significant digit first.\<close>

definition uint_tmp :: "bool \<Rightarrow> nat \<Rightarrow> nat \<Rightarrow> string" where
  "uint_tmp upper base v = (if v = 0 then ''0'' else tmp_digits upper base v)"

text \<open>The value \<open>(u64)v\<close> after \<open>v = -v\<close>.\<close>

definition abs_u64 :: "int \<Rightarrow> nat" where
  "abs_u64 v = nat ((if v < 0 then - v else v) mod 2 ^ 64)"

definition is_digit :: "char \<Rightarrow> bool" where
  "is_digit c \<longleftrightarrow> 48 \<le> uchar c \<and> uchar c \<le> 57"

fun parse_width :: "nat \<Rightarrow> string \<Rightarrow> nat \<times> string" where
  "parse_width w [] = (w, [])"
| "parse_width w (c # s) =
     (if is_digit c then parse_width (w * 10 + nat (uchar c - 48)) s else (w, c # s))"

definition skip_char :: "char \<Rightarrow> string \<Rightarrow> bool \<times> string" where
  "skip_char c s = (case s of [] \<Rightarrow> (False, []) | x # r \<Rightarrow> if x = c then (True, r) else (False, s))"

section \<open>The kernel's formatter\<close>

record pctx =
  pbuf :: "string option"    \<comment> \<open>the array, \<open>None\<close> for the null pointer\<close>
  ppos :: nat
  pmax :: nat
  tty :: string              \<comment> \<open>characters sent to the serial line\<close>

definition emit_char :: "char \<Rightarrow> pctx \<Rightarrow> pctx option" where
  "emit_char c x =
     (case pbuf x of
        Some b \<Rightarrow>
          if ppos x < (pmax x + 2 ^ 64 - 1) mod 2 ^ 64 then
            if ppos x < length b then Some (x\<lparr>pbuf := Some (b[ppos x := c]), ppos := ppos x + 1\<rparr>) else None
          else Some (x\<lparr>ppos := ppos x + 1\<rparr>)
      | None \<Rightarrow> Some (x\<lparr>tty := tty x @ [c], ppos := ppos x + 1\<rparr>))"

fun emit_chars :: "string \<Rightarrow> pctx \<Rightarrow> pctx option" where
  "emit_chars [] x = Some x"
| "emit_chars (c # cs) x = Option.bind (emit_char c x) (emit_chars cs)"

definition emit_str :: "string option \<Rightarrow> string" where
  "emit_str s = (case s of None \<Rightarrow> ''(null)'' | Some t \<Rightarrow> takeWhile (\<lambda>c. c \<noteq> NULc) t)"

text \<open>\<open>tmp\<close> has 64 cells.\<close>

definition emit_uint :: "nat \<Rightarrow> nat \<Rightarrow> bool \<Rightarrow> nat \<Rightarrow> char \<Rightarrow> string option" where
  "emit_uint v base upper width pad =
     (let t = uint_tmp upper base v;
          t' = t @ replicate (width - length t) pad
      in if length t' \<le> 64 then Some (rev t') else None)"

definition conversion :: "char \<Rightarrow> bool \<Rightarrow> nat \<Rightarrow> char \<Rightarrow> arg list \<Rightarrow> (string \<times> arg list) option" where
  "conversion d is_long width pad args =
     (if d = CHR ''d'' then
        (case args of AInt w # as \<Rightarrow>
           (let v = arg_signed is_long w
            in map_option (\<lambda>t. ((if v < 0 then ''-'' else []) @ t, as)) (emit_uint (abs_u64 v) 10 False width pad))
         | _ \<Rightarrow> None)
      else if d = CHR ''u'' then
        (case args of AInt w # as \<Rightarrow> map_option (\<lambda>t. (t, as)) (emit_uint (arg_unsigned is_long w) 10 False width pad) | _ \<Rightarrow> None)
      else if d = CHR ''x'' then
        (case args of AInt w # as \<Rightarrow> map_option (\<lambda>t. (t, as)) (emit_uint (arg_unsigned is_long w) 16 False width pad) | _ \<Rightarrow> None)
      else if d = CHR ''X'' then
        (case args of AInt w # as \<Rightarrow> map_option (\<lambda>t. (t, as)) (emit_uint (arg_unsigned is_long w) 16 True width pad) | _ \<Rightarrow> None)
      else if d = CHR ''p'' then
        (case args of AInt w # as \<Rightarrow> map_option (\<lambda>t. (''0x'' @ t, as)) (emit_uint (unat w) 16 False 16 (CHR ''0'')) | _ \<Rightarrow> None)
      else if d = CHR ''s'' then
        (case args of AStr s # as \<Rightarrow> Some (emit_str s, as) | _ \<Rightarrow> None)
      else if d = CHR ''c'' then
        (case args of AInt w # as \<Rightarrow> Some ([char_of (unat w)], as) | _ \<Rightarrow> None)
      else if d = CHR ''%'' then Some (''%'', args)
      else Some ([CHR ''%'', d], args))"

text \<open>What stands between the percent sign and the conversion character.\<close>

definition parse_spec :: "string \<Rightarrow> char \<times> nat \<times> bool \<times> string" where
  "parse_spec s =
     (let (zero, s1) = skip_char (CHR ''0'') s;
          (width, s2) = parse_width 0 s1;
          (l1, s3) = skip_char (CHR ''l'') s2;
          (l2, s4) = skip_char (CHR ''l'') s3
      in (if zero then CHR ''0'' else CHR '' '', width, l1, s4))"

lemma skip_char_length: "length (snd (skip_char c s)) \<le> length s"
  by (cases s) (auto simp: skip_char_def)

lemma parse_width_length: "length (snd (parse_width w s)) \<le> length s"
  by (induction w s rule: parse_width.induct) auto

lemma parse_spec_length: "parse_spec s = (p, w, l, s') \<Longrightarrow> length s' \<le> length s"
proof -
  assume "parse_spec s = (p, w, l, s')"
  then have "s' = snd (skip_char (CHR ''l'') (snd (skip_char (CHR ''l'') (snd (parse_width 0 (snd (skip_char (CHR ''0'') s)))))))"
    by (auto simp: parse_spec_def split: prod.splits)
  then show ?thesis
    using skip_char_length parse_width_length by (metis (no_types, lifting) le_trans)
qed

lemma parse_spec_less: "(p, w, l, d # s') = parse_spec s \<Longrightarrow> length s' < Suc (length s)"
  using parse_spec_length [of s p w l "d # s'"] by simp

function vsnprintk_loop :: "string \<Rightarrow> arg list \<Rightarrow> pctx \<Rightarrow> pctx option" where
  "vsnprintk_loop [] args x = None"
| "vsnprintk_loop (c # fmt) args x =
     (if c = NULc then Some x
      else if c \<noteq> CHR ''%'' then Option.bind (emit_char c x) (vsnprintk_loop fmt args)
      else case parse_spec fmt of
             (pad, width, is_long, []) \<Rightarrow> None
           | (pad, width, is_long, d # fmt') \<Rightarrow>
               (case conversion d is_long width pad args of None \<Rightarrow> None
                | Some (out, args') \<Rightarrow> Option.bind (emit_chars out x) (vsnprintk_loop fmt' args')))"
  by pat_completeness auto
termination
  by (relation "measure (\<lambda>(f, a, x). length f)") (auto dest: parse_spec_less)

text \<open>The closing zero and the returned count.\<close>

definition vsnprintk :: "string option \<Rightarrow> nat \<Rightarrow> string \<Rightarrow> arg list \<Rightarrow> (nat \<times> pctx) option" where
  "vsnprintk b mx fmt args =
     Option.bind (vsnprintk_loop fmt args \<lparr>pbuf = b, ppos = 0, pmax = mx, tty = []\<rparr>) (\<lambda>x.
       case pbuf x of None \<Rightarrow> Some (ppos x, x)
       | Some bb \<Rightarrow>
         if mx > 0 then
           (let i = (if ppos x < mx then ppos x else mx - 1)
            in if i < length bb then Some (ppos x, x\<lparr>pbuf := Some (bb[i := NULc])\<rparr>) else None)
         else Some (ppos x, x))"

definition printk :: "string \<Rightarrow> arg list \<Rightarrow> string option" where
  "printk fmt args = map_option (\<lambda>(n, x). tty x) (vsnprintk None (2 ^ 64 - 1) fmt args)"

definition early_printk :: "string \<Rightarrow> arg list \<Rightarrow> string option" where
  "early_printk fmt args = map_option (\<lambda>(n, x). tty x) (vsnprintk None (2 ^ 64 - 1) fmt args)"

definition snprintk :: "string \<Rightarrow> nat \<Rightarrow> string \<Rightarrow> arg list \<Rightarrow> (nat \<times> string) option" where
  "snprintk b n fmt args = Option.bind (vsnprintk (Some b) n fmt args) (\<lambda>(r, x).
     map_option (\<lambda>bb. (r, bb)) (pbuf x))"

text \<open>What \<open>panic\<close> prints before it halts.\<close>

definition panic_output :: "string \<Rightarrow> arg list \<Rightarrow> string option" where
  "panic_output fmt args = map_option (\<lambda>t. [CHR 0x0A, CHR 0x0A] @ ''*** KERNEL PANIC ***'' @ [CHR 0x0A] @ t
     @ [CHR 0x0A] @ ''System halted.'' @ [CHR 0x0A]) (printk fmt args)"

section \<open>The library's formatter\<close>

text \<open>\<open>f_end\<close> is the number of writable cells, \<open>f_at\<close> the number already written.\<close>

record fmt_ctx =
  f_buf :: "string option"
  f_at :: nat
  f_end :: nat
  f_count :: nat
  f_out :: string
  f_stores :: "(u64 \<times> nat) list"    \<comment> \<open>what \<open>%n\<close> stored, with the address\<close>

definition ctx_emit :: "char \<Rightarrow> fmt_ctx \<Rightarrow> fmt_ctx option" where
  "ctx_emit c x =
     (case f_buf x of
        Some b \<Rightarrow>
          if f_at x < f_end x then
            if f_at x < length b then Some (x\<lparr>f_buf := Some (b[f_at x := c]), f_at := f_at x + 1, f_count := f_count x + 1\<rparr>)
            else None
          else Some (x\<lparr>f_count := f_count x + 1\<rparr>)
      | None \<Rightarrow> Some (x\<lparr>f_out := f_out x @ [c], f_count := f_count x + 1\<rparr>))"

fun ctx_emits :: "string \<Rightarrow> fmt_ctx \<Rightarrow> fmt_ctx option" where
  "ctx_emits [] x = Some x"
| "ctx_emits (c # cs) x = Option.bind (ctx_emit c x) (ctx_emits cs)"

definition ctx_emit_str :: "string \<Rightarrow> nat \<Rightarrow> bool \<Rightarrow> string" where
  "ctx_emit_str s width left =
     (let fill = replicate (width - length s) (CHR '' '')
      in (if left then [] else fill) @ s @ (if left then fill else []))"

definition ctx_emit_uint :: "nat \<Rightarrow> nat \<Rightarrow> bool \<Rightarrow> nat \<Rightarrow> char \<Rightarrow> bool \<Rightarrow> string" where
  "ctx_emit_uint v base upper width pad left =
     (let t = uint_tmp upper base v
      in (if left then [] else replicate (width - length t) pad) @ rev t
         @ (if left then replicate (width - length t) (CHR '' '') else []))"

fun parse_flags :: "bool \<Rightarrow> bool \<Rightarrow> string \<Rightarrow> bool \<times> bool \<times> string" where
  "parse_flags left zero [] = (left, zero, [])"
| "parse_flags left zero (c # s) =
     (if c = CHR ''-'' then parse_flags True zero s
      else if c = CHR ''0'' then parse_flags left True s
      else (left, zero, c # s))"

definition parse_prec :: "string \<Rightarrow> nat option \<times> string" where
  "parse_prec s = (let (dot, s1) = skip_char (CHR ''.'') s
     in if dot then (let (p, s2) = parse_width 0 s1 in (Some p, s2)) else (None, s))"

text \<open>\<open>l\<close> and \<open>ll\<close>: both select 64-bit arguments.\<close>

definition parse_length :: "string \<Rightarrow> bool \<times> string" where
  "parse_length s = (let (l1, s1) = skip_char (CHR ''l'') s
     in if l1 then (True, snd (skip_char (CHR ''l'') s1)) else (False, s))"

definition vformat_conv ::
    "char \<Rightarrow> bool \<Rightarrow> nat \<Rightarrow> nat option \<Rightarrow> char \<Rightarrow> bool \<Rightarrow> arg list \<Rightarrow> (string \<times> arg list) option" where
  "vformat_conv d is_long width prec pad left args =
     (if d = CHR ''d'' \<or> d = CHR ''i'' then
        (case args of AInt w # as \<Rightarrow>
           (let v = arg_signed is_long w;
                wd = (if v < 0 \<and> 0 < width then width - 1 else width)
            in Some ((if v < 0 then ''-'' else []) @ ctx_emit_uint (abs_u64 v) 10 False wd pad left, as))
         | _ \<Rightarrow> None)
      else if d = CHR ''u'' then
        (case args of AInt w # as \<Rightarrow> Some (ctx_emit_uint (arg_unsigned is_long w) 10 False width pad left, as) | _ \<Rightarrow> None)
      else if d = CHR ''x'' then
        (case args of AInt w # as \<Rightarrow> Some (ctx_emit_uint (arg_unsigned is_long w) 16 False width pad left, as) | _ \<Rightarrow> None)
      else if d = CHR ''X'' then
        (case args of AInt w # as \<Rightarrow> Some (ctx_emit_uint (arg_unsigned is_long w) 16 True width pad left, as) | _ \<Rightarrow> None)
      else if d = CHR ''p'' then
        (case args of AInt w # as \<Rightarrow>
           Some (''0x'' @ ctx_emit_uint (unat w) 16 False (if width \<noteq> 0 then width else 16) (CHR ''0'') False, as) | _ \<Rightarrow> None)
      else if d = CHR ''s'' then
        (case args of AStr s # as \<Rightarrow>
           (let t = emit_str s
            in Some (case prec of None \<Rightarrow> ctx_emit_str t width left
                     | Some p \<Rightarrow> ctx_emit_str (take p t) width left, as))
         | _ \<Rightarrow> None)
      else if d = CHR ''c'' then
        (case args of AInt w # as \<Rightarrow> Some ([char_of (unat w)], as) | _ \<Rightarrow> None)
      else if d = CHR ''%'' then Some (''%'', args)
      else if d = CHR ''n'' then (case args of AInt w # as \<Rightarrow> Some ([], as) | _ \<Rightarrow> None)
      else Some ([CHR ''%'', d], args))"

text \<open>\<open>%n\<close> stores the count of emitted characters through its argument.\<close>

definition store_count :: "char \<Rightarrow> arg list \<Rightarrow> fmt_ctx \<Rightarrow> fmt_ctx" where
  "store_count d args x =
     (case args of AInt w # as \<Rightarrow>
        if d = CHR ''n'' \<and> w \<noteq> 0 then x\<lparr>f_stores := f_stores x @ [(w, f_count x)]\<rparr> else x
      | _ \<Rightarrow> x)"

definition vformat_spec :: "string \<Rightarrow> bool \<times> nat \<times> nat option \<times> bool \<times> char \<times> string" where
  "vformat_spec s =
     (let (left, zero, s1) = parse_flags False False s;
          (width, s2) = parse_width 0 s1;
          (prec, s3) = parse_prec s2;
          (is_long, s4) = parse_length s3
      in (left, width, prec, is_long, (if zero \<and> \<not> left then CHR ''0'' else CHR '' ''), s4))"

lemma parse_flags_length: "length (snd (snd (parse_flags l z s))) \<le> length s"
  by (induction l z s rule: parse_flags.induct) auto

lemma parse_prec_length: "length (snd (parse_prec s)) \<le> length s"
  using skip_char_length [of "CHR ''.''" s] parse_width_length [of 0 "snd (skip_char (CHR ''.'') s)"]
  by (auto simp: parse_prec_def Let_def split_def)

lemma parse_length_length: "length (snd (parse_length s)) \<le> length s"
  using skip_char_length [of "CHR ''l''" s] skip_char_length [of "CHR ''l''" "snd (skip_char (CHR ''l'') s)"]
  by (auto simp: parse_length_def Let_def split_def)

lemma vformat_spec_length: "vformat_spec s = (l, w, p, g, c, s') \<Longrightarrow> length s' \<le> length s"
proof -
  assume "vformat_spec s = (l, w, p, g, c, s')"
  then have "s' = snd (parse_length (snd (parse_prec (snd (parse_width 0 (snd (snd (parse_flags False False s))))))))"
    by (auto simp: vformat_spec_def split: prod.splits)
  then show ?thesis
    using parse_flags_length parse_width_length parse_prec_length parse_length_length
    by (metis (no_types, lifting) le_trans)
qed

lemma vformat_spec_less: "(l, w, p, g, c, d # s') = vformat_spec s \<Longrightarrow> length s' < Suc (length s)"
  using vformat_spec_length [of s l w p g c "d # s'"] by simp

function vformat :: "string \<Rightarrow> arg list \<Rightarrow> fmt_ctx \<Rightarrow> fmt_ctx option" where
  "vformat [] args x = None"
| "vformat (c # fmt) args x =
     (if c = NULc then Some x
      else if c \<noteq> CHR ''%'' then Option.bind (ctx_emit c x) (vformat fmt args)
      else case vformat_spec fmt of
             (left, width, prec, is_long, pad, []) \<Rightarrow> None
           | (left, width, prec, is_long, pad, d # fmt') \<Rightarrow>
               (case vformat_conv d is_long width prec pad left args of None \<Rightarrow> None
                | Some (out, args') \<Rightarrow> Option.bind (ctx_emits out (store_count d args x)) (vformat fmt' args')))"
  by pat_completeness auto
termination
  by (relation "measure (\<lambda>(f, a, x). length f)") (auto dest: vformat_spec_less)

definition vsnprintf :: "string option \<Rightarrow> nat \<Rightarrow> string \<Rightarrow> arg list \<Rightarrow> (nat \<times> fmt_ctx) option" where
  "vsnprintf b n fmt args =
     Option.bind (vformat fmt args \<lparr>f_buf = b, f_at = 0, f_end = (if n > 0 then n - 1 else 0), f_count = 0, f_out = [], f_stores = []\<rparr>) (\<lambda>x.
       case f_buf x of None \<Rightarrow> Some (f_count x, x)
       | Some bb \<Rightarrow>
         if n > 0 then
           if f_at x < length bb then Some (f_count x, x\<lparr>f_buf := Some (bb[f_at x := NULc])\<rparr>) else None
         else Some (f_count x, x))"

definition vsprintf :: "string option \<Rightarrow> string \<Rightarrow> arg list \<Rightarrow> (nat \<times> fmt_ctx) option" where
  "vsprintf b fmt args = vsnprintf b 0x7fffffff fmt args"

definition vprintf :: "string \<Rightarrow> arg list \<Rightarrow> (nat \<times> fmt_ctx) option" where
  "vprintf fmt args = map_option (\<lambda>x. (f_count x, x))
     (vformat fmt args \<lparr>f_buf = None, f_at = 0, f_end = 0, f_count = 0, f_out = [], f_stores = []\<rparr>)"

definition snprintf :: "string option \<Rightarrow> nat \<Rightarrow> string \<Rightarrow> arg list \<Rightarrow> (nat \<times> fmt_ctx) option" where
  "snprintf b n fmt args = vsnprintf b n fmt args"

definition sprintf :: "string option \<Rightarrow> string \<Rightarrow> arg list \<Rightarrow> (nat \<times> fmt_ctx) option" where
  "sprintf b fmt args = vsprintf b fmt args"

definition printf :: "string \<Rightarrow> arg list \<Rightarrow> (nat \<times> fmt_ctx) option" where
  "printf fmt args = vprintf fmt args"

text \<open>The stream argument is ignored.\<close>

definition vfprintf :: "nat \<Rightarrow> string \<Rightarrow> arg list \<Rightarrow> (nat \<times> fmt_ctx) option" where
  "vfprintf f fmt args = vprintf fmt args"

definition fprintf :: "nat \<Rightarrow> string \<Rightarrow> arg list \<Rightarrow> (nat \<times> fmt_ctx) option" where
  "fprintf f fmt args = vfprintf f fmt args"

section \<open>Both formatters render, then emit\<close>

text \<open>The characters a format stands for, with no buffer in sight.\<close>

function kformat :: "string \<Rightarrow> arg list \<Rightarrow> string option" where
  "kformat [] args = None"
| "kformat (c # fmt) args =
     (if c = NULc then Some []
      else if c \<noteq> CHR ''%'' then map_option ((#) c) (kformat fmt args)
      else case parse_spec fmt of
             (pad, width, is_long, []) \<Rightarrow> None
           | (pad, width, is_long, d # fmt') \<Rightarrow>
               (case conversion d is_long width pad args of None \<Rightarrow> None
                | Some (out, args') \<Rightarrow> map_option ((@) out) (kformat fmt' args')))"
  by pat_completeness auto
termination
  by (relation "measure (\<lambda>(f, a). length f)") (auto dest: parse_spec_less)

declare vsnprintk_loop.simps(2) [simp del] kformat.simps(2) [simp del]

lemma emit_chars_append:
  "emit_chars (s @ t) x = Option.bind (emit_chars s x) (emit_chars t)"
proof (induction s arbitrary: x)
  case (Cons c s)
  then show ?case by (cases "emit_char c x") simp_all
qed simp

lemma loop_kformat:
  "vsnprintk_loop fmt args x = Option.bind (kformat fmt args) (\<lambda>t. emit_chars t x)"
proof (induction fmt args x rule: vsnprintk_loop.induct)
  case (2 c fmt args x)
  show ?case
  proof (cases "c = CHR ''%''")
    case False
    then show ?thesis
      using 2(1) by (cases "c = NULc"; cases "emit_char c x"; cases "kformat fmt args")
        (simp_all add: vsnprintk_loop.simps(2) kformat.simps(2))
  next
    case True
    obtain pad width l s where p: "parse_spec fmt = (pad, width, l, s)"
      by (cases "parse_spec fmt") auto
    show ?thesis
    proof (cases s)
      case Nil
      then show ?thesis
        using True p by (simp add: vsnprintk_loop.simps(2) kformat.simps(2))
    next
      case (Cons d fmt')
      show ?thesis
      proof (cases "conversion d l width pad args")
        case None
        then show ?thesis
          using True p Cons by (simp add: vsnprintk_loop.simps(2) kformat.simps(2))
      next
        case (Some r)
        then obtain out args' where r: "conversion d l width pad args = Some (out, args')"
          by (cases r) auto
        have IH: "vsnprintk_loop fmt' args' y = Option.bind (kformat fmt' args') (\<lambda>t. emit_chars t y)"
          if "emit_chars out x = Some y" for y
          using 2(2) True p Cons r that by fastforce
        show ?thesis
          using True p Cons r IH
          by (cases "emit_chars out x"; cases "kformat fmt' args'")
            (simp_all add: vsnprintk_loop.simps(2) kformat.simps(2) emit_chars_append)
      qed
    qed
  qed
qed simp

function uformat :: "string \<Rightarrow> arg list \<Rightarrow> string option" where
  "uformat [] args = None"
| "uformat (c # fmt) args =
     (if c = NULc then Some []
      else if c \<noteq> CHR ''%'' then map_option ((#) c) (uformat fmt args)
      else case vformat_spec fmt of
             (left, width, prec, is_long, pad, []) \<Rightarrow> None
           | (left, width, prec, is_long, pad, d # fmt') \<Rightarrow>
               (case vformat_conv d is_long width prec pad left args of None \<Rightarrow> None
                | Some (out, args') \<Rightarrow> map_option ((@) out) (uformat fmt' args')))"
  by pat_completeness auto
termination
  by (relation "measure (\<lambda>(f, a). length f)") (auto dest: vformat_spec_less)

declare vformat.simps(2) [simp del] uformat.simps(2) [simp del]

lemma ctx_emits_append:
  "ctx_emits (s @ t) x = Option.bind (ctx_emits s x) (ctx_emits t)"
proof (induction s arbitrary: x)
  case (Cons c s)
  then show ?case by (cases "ctx_emit c x") simp_all
qed simp

text \<open>The stores of \<open>%n\<close> do not interfere with the output.\<close>

definition forget :: "fmt_ctx \<Rightarrow> fmt_ctx" where
  "forget x = x\<lparr>f_stores := []\<rparr>"

lemma forget_fields:
  "forget x = \<lparr>f_buf = b, f_at = i, f_end = e, f_count = n, f_out = t, f_stores = st\<rparr> \<Longrightarrow>
     f_buf x = b \<and> f_at x = i \<and> f_end x = e \<and> f_count x = n \<and> f_out x = t"
  by (cases x) (simp add: forget_def)

lemma ctx_emit_forget: "ctx_emit c (forget x) = map_option forget (ctx_emit c x)"
  by (auto simp: ctx_emit_def forget_def split: option.split)

lemma ctx_emits_forget: "ctx_emits s (forget x) = map_option forget (ctx_emits s x)"
proof (induction s arbitrary: x)
  case (Cons c s)
  then show ?case
    by (cases "ctx_emit c x") (simp_all add: ctx_emit_forget)
qed simp

lemma forget_store: "forget (store_count d args x) = forget x"
  by (auto simp: forget_def store_count_def split: list.split arg.split)

lemma vformat_uformat:
  "map_option forget (vformat fmt args x) = Option.bind (uformat fmt args) (\<lambda>t. ctx_emits t (forget x))"
proof (induction fmt args x rule: vformat.induct)
  case (2 c fmt args x)
  show ?case
  proof (cases "c = CHR ''%''")
    case False
    then show ?thesis
      using 2(1) by (cases "c = NULc"; cases "ctx_emit c x"; cases "uformat fmt args")
        (simp_all add: vformat.simps(2) uformat.simps(2) ctx_emit_forget)
  next
    case True
    obtain left width prec l pad s where p: "vformat_spec fmt = (left, width, prec, l, pad, s)"
      by (cases "vformat_spec fmt") auto
    show ?thesis
    proof (cases s)
      case Nil
      then show ?thesis
        using True p by (simp add: vformat.simps(2) uformat.simps(2))
    next
      case (Cons d fmt')
      show ?thesis
      proof (cases "vformat_conv d l width prec pad left args")
        case None
        then show ?thesis
          using True p Cons by (simp add: vformat.simps(2) uformat.simps(2))
      next
        case (Some r)
        then obtain out args' where r: "vformat_conv d l width prec pad left args = Some (out, args')"
          by (cases r) auto
        have IH: "map_option forget (vformat fmt' args' y) = Option.bind (uformat fmt' args') (\<lambda>t. ctx_emits t (forget y))"
          if "ctx_emits out (store_count d args x) = Some y" for y
          using 2(2) True p Cons r that by fastforce
        show ?thesis
          using True p Cons r IH ctx_emits_forget [of out "store_count d args x"]
          by (cases "ctx_emits out (store_count d args x)"; cases "uformat fmt' args'")
            (auto simp: vformat.simps(2) uformat.simps(2) ctx_emits_append forget_store)
      qed
    qed
  qed
qed simp

section \<open>Bounded output is a prefix of the full output\<close>

lemma emit_chars_tty:
  "pbuf x = None \<Longrightarrow> emit_chars t x = Some (x\<lparr>tty := tty x @ t, ppos := ppos x + length t\<rparr>)"
  by (induction t arbitrary: x) (auto simp: emit_char_def)

lemma ctx_emits_out:
  "f_buf x = None \<Longrightarrow> ctx_emits t x = Some (x\<lparr>f_out := f_out x @ t, f_count := f_count x + length t\<rparr>)"
  by (induction t arbitrary: x) (auto simp: ctx_emit_def)

text \<open>The array after the characters \<open>d\<close>, of which \<open>m\<close> fit.\<close>

definition filled :: "nat \<Rightarrow> string \<Rightarrow> string \<Rightarrow> string" where
  "filled m b d = take m d @ drop (min m (length d)) b"

lemma filled_length [simp]: "m \<le> length b \<Longrightarrow> length (filled m b d) = length b"
  by (simp add: filled_def)

lemma filled_put:
  "length d < m \<Longrightarrow> m \<le> length b \<Longrightarrow> (filled m b d)[length d := c] = filled m b (d @ [c])"
  by (cases "m = Suc (length d)") (simp_all add: filled_def list_update_append min_def Cons_nth_drop_Suc [symmetric])

lemma filled_full: "m \<le> length d \<Longrightarrow> filled m b (d @ [c]) = filled m b d"
  by (simp add: filled_def)

lemma emit_chars_filled:
  assumes "0 < n" "n \<le> length b" "n < 2 ^ 64"
  shows "emit_chars t \<lparr>pbuf = Some (filled (n - 1) b d), ppos = length d, pmax = n, tty = u\<rparr> =
    Some \<lparr>pbuf = Some (filled (n - 1) b (d @ t)), ppos = length (d @ t), pmax = n, tty = u\<rparr>"
proof (induction t arbitrary: d)
  case (Cons c t)
  have m: "(n + 2 ^ 64 - 1) mod 2 ^ 64 = n - 1"
    using assms by (simp add: mod_if)
  have "emit_char c \<lparr>pbuf = Some (filled (n - 1) b d), ppos = length d, pmax = n, tty = u\<rparr> =
    Some \<lparr>pbuf = Some (filled (n - 1) b (d @ [c])), ppos = length (d @ [c]), pmax = n, tty = u\<rparr>"
    using assms filled_put [of d "n - 1" b c] filled_full [of "n - 1" d b c]
    by (auto simp: emit_char_def m [simplified])
  then show ?case
    using Cons [of "d @ [c]"] by simp
qed simp

lemma ctx_emits_filled:
  assumes "n \<le> length b"
  shows "ctx_emits t \<lparr>f_buf = Some (filled n b d), f_at = min n (length d), f_end = n, f_count = length d, f_out = u, f_stores = st\<rparr> =
    Some \<lparr>f_buf = Some (filled n b (d @ t)), f_at = min n (length (d @ t)), f_end = n, f_count = length (d @ t), f_out = u, f_stores = st\<rparr>"
proof (induction t arbitrary: d)
  case (Cons c t)
  have "ctx_emit c \<lparr>f_buf = Some (filled n b d), f_at = min n (length d), f_end = n, f_count = length d, f_out = u, f_stores = st\<rparr> =
    Some \<lparr>f_buf = Some (filled n b (d @ [c])), f_at = min n (length (d @ [c])), f_end = n, f_count = length (d @ [c]), f_out = u, f_stores = st\<rparr>"
    using assms filled_put [of d n b c] filled_full [of n d b c]
    by (auto simp: ctx_emit_def min_def)
  then show ?case
    using Cons [of "d @ [c]"] by simp
qed simp

lemma filled_close:
  "0 < n \<Longrightarrow> n \<le> length b \<Longrightarrow>
    (filled (n - 1) b t)[min (n - 1) (length t) := NULc] =
      take (n - 1) t @ NULc # drop (Suc (min (n - 1) (length t))) b"
  by (simp add: filled_def list_update_append min_def Cons_nth_drop_Suc [symmetric])

lemma filled_empty [simp]: "filled n b [] = b"
  by (simp add: filled_def)

lemma printk_kformat: "printk fmt args = kformat fmt args"
  by (cases "kformat fmt args") (simp_all add: printk_def vsnprintk_def loop_kformat emit_chars_tty)

text \<open>
  C40: With a buffer of at least \<open>n > 0\<close> bytes \<open>snprintk\<close> stores the first \<open>n - 1\<close> characters
  of what \<open>printk\<close> would print for the same format and arguments, closes them with a zero,
  leaves the rest of the buffer alone, and returns the length of the full text. It is
  defined exactly when \<open>printk\<close> is.
\<close>

theorem snprintk_is_printk_prefix:
  assumes "0 < n" "n \<le> length b" "n < 2 ^ 64"
  shows "snprintk b n fmt args =
    map_option (\<lambda>t. (length t, take (n - 1) t @ NULc # drop (Suc (min (n - 1) (length t))) b)) (printk fmt args)"
proof (cases "kformat fmt args")
  case (Some t)
  obtain m where n: "n = Suc m"
    using assms(1) by (cases n) auto
  have e: "emit_chars t \<lparr>pbuf = Some b, ppos = 0, pmax = n, tty = []\<rparr> =
    Some \<lparr>pbuf = Some (filled m b t), ppos = length t, pmax = n, tty = []\<rparr>"
    using emit_chars_filled [OF assms, of t "[]" "[]"] n by simp
  show ?thesis
  proof (cases "length t < n")
    case True
    then have "min m (length t) = length t" using n by simp
    then show ?thesis
      using True n e assms(2) Some filled_close [of n b t]
      by (simp add: snprintk_def vsnprintk_def loop_kformat printk_kformat Let_def)
  next
    case False
    then have "min m (length t) = m" using n by simp
    then show ?thesis
      using False n e assms(2) Some filled_close [of n b t]
      by (simp add: snprintk_def vsnprintk_def loop_kformat printk_kformat Let_def)
  qed
qed (simp add: snprintk_def vsnprintk_def loop_kformat printk_kformat)

theorem snprintk_is_printk_prefix_witness:
  "snprintk (replicate 9 CHR ''.'') 7 (''pid=%03d'' @ [NULc]) [AInt (-5)] =
     Some (8, ''pid=-0'' @ [NULc] @ ''..'')"
proof -
  have p: "printk (''pid=%03d'' @ [NULc]) [AInt (-5)] = Some ''pid=-005''"
    by (simp add: printk_kformat kformat.simps parse_spec_def skip_char_def is_digit_def uchar_def conversion_def
      arg_signed_def emit_uint_def uint_tmp_def tmp_digits_step tmp_digits_0 abs_u64_def hex_digit_def replicate_num)
  show ?thesis
    using snprintk_is_printk_prefix [of 7 "replicate 9 CHR ''.''" "''pid=%03d'' @ [NULc]" "[AInt (-5)]"] p
    by (simp add: replicate_num)
qed

text \<open>The library's formatter keeps the same contract against \<open>printf\<close>.\<close>

lemma vprintf_uformat:
  "map_option (\<lambda>(r, x). (r, f_out x)) (vprintf fmt args) = map_option (\<lambda>t. (length t, t)) (uformat fmt args)"
proof -
  let ?x = "\<lparr>f_buf = None, f_at = 0, f_end = 0, f_count = 0, f_out = [], f_stores = []\<rparr>"
  have "map_option forget (vformat fmt args ?x) = map_option (\<lambda>t. ?x\<lparr>f_out := t, f_count := length t\<rparr>) (uformat fmt args)"
    using vformat_uformat [of fmt args ?x]
    by (cases "uformat fmt args") (simp_all add: forget_def ctx_emits_out)
  then show ?thesis
    by (cases "vformat fmt args ?x"; cases "uformat fmt args") (auto simp: vprintf_def dest: forget_fields)
qed

text \<open>
  The library's \<open>snprintf\<close> into a buffer of at least \<open>n > 0\<close> bytes stores the first
  \<open>n - 1\<close> characters of what \<open>printf\<close> would write to the standard output, closes them with
  a zero, leaves the rest of the buffer alone, and returns the length of the full text, on
  every format, including those with \<open>%n\<close>.
\<close>

theorem snprintf_is_printf_prefix:
  assumes "0 < n" "n \<le> length b"
  shows "map_option (\<lambda>(r, x). (r, f_buf x)) (snprintf (Some b) n fmt args) =
    map_option (\<lambda>(r, x). (r, Some (take (n - 1) (f_out x) @ NULc # drop (Suc (min (n - 1) (length (f_out x)))) b)))
      (printf fmt args)"
proof -
  obtain m where n: "n = Suc m"
    using assms(1) by (cases n) auto
  let ?x = "\<lparr>f_buf = Some b, f_at = 0, f_end = m, f_count = 0, f_out = [], f_stores = []\<rparr>"
  have "ctx_emits t ?x = Some \<lparr>f_buf = Some (filled m b t), f_at = min m (length t), f_end = m,
      f_count = length t, f_out = [], f_stores = []\<rparr>" for t
    using ctx_emits_filled [of m b t "[]" "[]" "[]"] assms n by simp
  then have f: "map_option forget (vformat fmt args ?x) =
      map_option (\<lambda>t. ?x\<lparr>f_buf := Some (filled m b t), f_at := min m (length t), f_count := length t\<rparr>) (uformat fmt args)"
    using vformat_uformat [of fmt args ?x] by (cases "uformat fmt args") (simp_all add: forget_def)
  show ?thesis
  proof (cases "uformat fmt args")
    case None
    then show ?thesis
      using f vprintf_uformat [of fmt args] n by (simp add: snprintf_def vsnprintf_def printf_def)
  next
    case (Some t)
    then obtain y where y: "vformat fmt args ?x = Some y" "f_buf y = Some (filled m b t)" "f_at y = min m (length t)"
        "f_count y = length t"
      using f by (cases "vformat fmt args ?x") (auto dest: forget_fields)
    obtain r x where x: "vprintf fmt args = Some (r, x)" "r = length t" "f_out x = t"
      using vprintf_uformat [of fmt args] Some by (cases "vprintf fmt args") auto
    have "m < length b" using assms n by simp
    then show ?thesis
      using y x n filled_close [of n b t] assms by (simp add: snprintf_def vsnprintf_def printf_def)
  qed
qed

theorem snprintf_is_printf_prefix_witness:
  "map_option (\<lambda>(r, x). (r, f_buf x)) (snprintf (Some ''........'') 5 (''<%-3x>'' @ [NULc]) [AInt 10]) =
     Some (5, Some (''<a  '' @ [NULc] @ ''...''))"
proof -
  have "printf (''<%-3x>'' @ [NULc]) [AInt 10] =
      Some (5, \<lparr>f_buf = None, f_at = 0, f_end = 0, f_count = 5, f_out = ''<a  >'', f_stores = []\<rparr>)"
    by (simp add: printf_def vprintf_def vformat.simps vformat_spec_def parse_prec_def parse_length_def skip_char_def
        is_digit_def uchar_def vformat_conv_def arg_unsigned_def ctx_emit_uint_def uint_tmp_def tmp_digits_step
        tmp_digits_0 hex_digit_def ctx_emit_def store_count_def replicate_num)
  then show ?thesis
    using snprintf_is_printf_prefix [of 5 "''........''" "''<%-3x>'' @ [NULc]" "[AInt 10]"] by simp
qed

section \<open>Printing a number and reading it back\<close>

lemma hex_digit_char: "d < 16 \<Longrightarrow> hex_digit False d = digit_char d"
proof -
  have "\<forall>d < 16. hex_digit False d = digit_char d" by code_simp
  then show "d < 16 \<Longrightarrow> hex_digit False d = digit_char d" by blast
qed

lemma tmp_digits_itoa: "2 \<le> b \<Longrightarrow> b \<le> 16 \<Longrightarrow> tmp_digits False b u = itoa_digits b u"
proof (induction u rule: less_induct)
  case (less u)
  have "hex_digit False (u mod b) = digit_char (u mod b)"
    using less.prems by (intro hex_digit_char order_less_le_trans [OF mod_less_divisor]) simp_all
  moreover have "0 < u \<Longrightarrow> tmp_digits False b (u div b) = itoa_digits b (u div b)"
    using less by simp
  ultimately show ?case
    by (simp add: tmp_digits.simps [of _ b u] itoa_digits.simps [of b u])
qed

lemma uint_tmp_udigits: "2 \<le> b \<Longrightarrow> b \<le> 16 \<Longrightarrow> rev (uint_tmp False b u) = udigits b u"
  by (simp add: uint_tmp_def udigits_def tmp_digits_itoa)

lemma tmp_digits_bound: "2 \<le> b \<Longrightarrow> u < 2 ^ k \<Longrightarrow> length (tmp_digits up b u) \<le> k"
proof (induction k arbitrary: u)
  case (Suc k)
  have "u div b \<le> u div 2" using Suc.prems(1) by (simp add: div_le_mono2)
  also have "u div 2 < 2 ^ k" using Suc.prems(2) by simp
  finally have "length (tmp_digits up b (u div b)) \<le> k" using Suc by simp
  then show ?case by (simp add: tmp_digits.simps [of up b u])
qed (simp add: tmp_digits_0)

text \<open>A 64-bit value fits the 64 cells of \<open>tmp\<close> in every base.\<close>

lemma emit_uint_udigits:
  "2 \<le> b \<Longrightarrow> b \<le> 16 \<Longrightarrow> u < 2 ^ 64 \<Longrightarrow> emit_uint u b False 0 pad = Some (udigits b u)"
  using tmp_digits_bound [of b u 64 False] uint_tmp_udigits [of b u] by (auto simp: emit_uint_def uint_tmp_def)

text \<open>
  \<open>strtol\<close> reads back what the kernel's \<open>%ld\<close> prints, for every 64-bit value, the least
  one included.
\<close>

theorem strtol_printk:
  "\<exists>t. printk (''%ld'' @ [NULc]) [AInt w] = Some t \<and> strtol (t @ NULc # rest) 10 = (sint w, NULc # rest)"
proof -
  have r: "- (2 ^ 63) \<le> sint w" "sint w < 2 ^ 63"
    using sint_greater_eq [of w] sint_less [of w] by simp_all
  then have u: "abs_u64 (sint w) = nat \<bar>sint w\<bar>" "nat \<bar>sint w\<bar> < 2 ^ 64"
    by (auto simp: abs_u64_def abs_if)
  have "printk (''%ld'' @ [NULc]) [AInt w] =
      Some ((if sint w < 0 then ''-'' else []) @ udigits 10 (nat \<bar>sint w\<bar>))"
    using u emit_uint_udigits [of 10 "nat \<bar>sint w\<bar>" "CHR '' ''"]
    by (simp add: printk_kformat kformat.simps parse_spec_def skip_char_def is_digit_def uchar_def conversion_def
        arg_signed_def)
  then show ?thesis
    using strtol_udigits [of 10 "nat \<bar>sint w\<bar>" rest] by auto
qed

text \<open>
  A width above 64 makes \<open>emit_uint\<close> write past \<open>tmp\<close>, and a format that ends in a percent
  sign makes the formatter step over the terminating zero.
\<close>

theorem printk_wide_field: "64 < width \<Longrightarrow> emit_uint v base upper width pad = None"
  by (auto simp: emit_uint_def Let_def)

theorem printk_trailing_percent: "vsnprintk b mx (''100%'' @ [NULc]) args = None"
  by (simp add: vsnprintk_def loop_kformat kformat.simps parse_spec_def skip_char_def is_digit_def uchar_def
      conversion_def)

end
