(* ===== verification/Sc_Lexer.thy ===== *)
theory Sc_Lexer
  imports Kstring
begin

text \<open>
  The lexer of the S compiler, \<^verbatim>\<open>src/tools/s-lang/sc.c\<close> lines 47 to 457: the token types,
  the lexer state, the output buffer and \<open>lexer_next\<close>. The source text is the list of its
  characters, \<open>len\<close> its length. A token's text goes through \<open>xstrdup\<close>, which copies up to the
  first zero character. The theorems: lexing ends, the texts of the tokens make up the
  source, and every token carries its position.
\<close>

section \<open>Tokens and lexer state\<close>

datatype TokType = TOK_EOF | TOK_WORD | TOK_NUMBER | TOK_STRING | TOK_CHAR_LIT | TOK_PUNCT
  | TOK_NEWLINE | TOK_SPACE | TOK_LINE_COMMENT | TOK_BLOCK_COMMENT | TOK_DOTDOT | TOK_DOTDOTEQ
  | TOK_ARROW | TOK_EQ2 | TOK_NEQ | TOK_LEQ | TOK_GEQ | TOK_AND2 | TOK_OR2 | TOK_SHL | TOK_SHR
  | TOK_PLUSEQ | TOK_MINUSEQ | TOK_STAREQ | TOK_SLASHEQ | TOK_PERCENTEQ | TOK_ANDEQ | TOK_OREQ
  | TOK_XOREQ | TOK_INC | TOK_DEC

record token =
  t_type :: TokType
  t_text :: string
  t_line :: nat
  t_col :: nat

record lexer =
  l_src :: string
  l_pos :: nat
  l_line :: nat
  l_col :: nat

abbreviation l_len :: "lexer \<Rightarrow> nat" where
  "l_len l \<equiv> length (l_src l)"

text \<open>\<open>xstrdup\<close> copies \<open>strlen\<close> characters, \<open>xstrndup\<close> the next \<open>n\<close>.\<close>

definition xstrdup :: "string \<Rightarrow> string" where
  "xstrdup s = takeWhile (\<lambda>c. c \<noteq> NULc) s"

definition xstrndup :: "string \<Rightarrow> nat \<Rightarrow> nat \<Rightarrow> string" where
  "xstrndup s start n = take n (drop start s)"

definition make_tok :: "TokType \<Rightarrow> string \<Rightarrow> nat \<Rightarrow> nat \<Rightarrow> token" where
  "make_tok t text line col = \<lparr>t_type = t, t_text = xstrdup text, t_line = line, t_col = col\<rparr>"

definition src_at :: "lexer \<Rightarrow> nat \<Rightarrow> char" where
  "src_at l i = (if i < l_len l then l_src l ! i else NULc)"

definition lexer_peek :: "lexer \<Rightarrow> char" where
  "lexer_peek l = (if l_pos l \<ge> l_len l then NULc else src_at l (l_pos l))"

definition lexer_peek2 :: "lexer \<Rightarrow> char" where
  "lexer_peek2 l = (if l_pos l + 1 \<ge> l_len l then NULc else src_at l (l_pos l + 1))"

text \<open>\<open>lexer_advance\<close> steps over one character; the character it returns is \<open>lexer_peek\<close> before it.\<close>

definition lexer_advance :: "lexer \<Rightarrow> lexer" where
  "lexer_advance l =
     (if src_at l (l_pos l) = CHR 0x0A
      then l\<lparr>l_pos := l_pos l + 1, l_line := l_line l + 1, l_col := 1\<rparr>
      else l\<lparr>l_pos := l_pos l + 1, l_col := l_col l + 1\<rparr>)"

section \<open>Character classes (C locale)\<close>

definition isdigit :: "char \<Rightarrow> bool" where
  "isdigit c \<longleftrightarrow> 48 \<le> uchar c \<and> uchar c \<le> 57"

definition isxdigit :: "char \<Rightarrow> bool" where
  "isxdigit c \<longleftrightarrow> isdigit c \<or> (65 \<le> uchar c \<and> uchar c \<le> 70) \<or> (97 \<le> uchar c \<and> uchar c \<le> 102)"

definition isalpha :: "char \<Rightarrow> bool" where
  "isalpha c \<longleftrightarrow> (65 \<le> uchar c \<and> uchar c \<le> 90) \<or> (97 \<le> uchar c \<and> uchar c \<le> 122)"

definition isalnum :: "char \<Rightarrow> bool" where
  "isalnum c \<longleftrightarrow> isalpha c \<or> isdigit c"

section \<open>The scanning loops\<close>

text \<open>\<open>while (l->pos < l->len && P) lexer_advance(l)\<close>.\<close>

function lex_while :: "(lexer \<Rightarrow> bool) \<Rightarrow> lexer \<Rightarrow> lexer" where
  "lex_while P l = (if l_pos l < l_len l \<and> P l then lex_while P (lexer_advance l) else l)"
  by pat_completeness auto
termination
  by (relation "measure (\<lambda>(P, l). l_len l - l_pos l)") (auto simp: lexer_advance_def)

definition is_blank :: "char \<Rightarrow> bool" where
  "is_blank c \<longleftrightarrow> c = CHR '' '' \<or> c = CHR 0x09 \<or> c = CHR 0x0D"

definition lex_space :: "lexer \<Rightarrow> lexer" where
  "lex_space l = lex_while (\<lambda>l. is_blank (lexer_peek l)) l"

definition lex_line_comment :: "lexer \<Rightarrow> lexer" where
  "lex_line_comment l = lex_while (\<lambda>l. lexer_peek l \<noteq> CHR 0x0A) l"

function block_loop :: "lexer \<Rightarrow> lexer" where
  "block_loop l =
     (if l_pos l + 1 < l_len l then
        if lexer_peek l = CHR ''*'' \<and> lexer_peek2 l = CHR ''/'' then lexer_advance (lexer_advance l)
        else block_loop (lexer_advance l)
      else l)"
  by pat_completeness auto
termination
  by (relation "measure (\<lambda>l. l_len l - l_pos l)") (auto simp: lexer_advance_def)

definition lex_block_comment :: "lexer \<Rightarrow> lexer" where
  "lex_block_comment l = block_loop (lexer_advance (lexer_advance l))"

function quoted_loop :: "char \<Rightarrow> lexer \<Rightarrow> lexer" where
  "quoted_loop q l =
     (if l_pos l < l_len l then
        (let ch = lexer_peek l; l1 = lexer_advance l
         in if ch = CHR 0x5C then quoted_loop q (if l_pos l1 < l_len l1 then lexer_advance l1 else l1)
            else if ch = q then l1
            else quoted_loop q l1)
      else l)"
  by pat_completeness auto
termination
  by (relation "measure (\<lambda>(q, l). l_len l - l_pos l)") (auto simp: lexer_advance_def Let_def)

definition lex_quoted :: "char \<Rightarrow> lexer \<Rightarrow> lexer" where
  "lex_quoted q l = quoted_loop q (lexer_advance l)"

function number_loop :: "bool \<Rightarrow> lexer \<Rightarrow> lexer" where
  "number_loop seen_dot l =
     (if l_pos l < l_len l then
        (let ch = lexer_peek l
         in if isdigit ch then number_loop seen_dot (lexer_advance l)
            else if ch = CHR ''.'' \<and> \<not> seen_dot \<and> lexer_peek2 l \<noteq> CHR ''.'' then
              if l_pos l + 1 < l_len l \<and> isdigit (src_at l (l_pos l + 1))
              then number_loop True (lexer_advance l) else l
            else l)
      else l)"
  by pat_completeness auto
termination
  by (relation "measure (\<lambda>(d, l). l_len l - l_pos l)") (auto simp: lexer_advance_def Let_def)

definition is_suffix :: "char \<Rightarrow> bool" where
  "is_suffix c \<longleftrightarrow> c = CHR ''u'' \<or> c = CHR ''U'' \<or> c = CHR ''l'' \<or> c = CHR ''L'' \<or> c = CHR ''f'' \<or> c = CHR ''F''"

definition lex_number :: "lexer \<Rightarrow> lexer" where
  "lex_number l =
     (if lexer_peek l = CHR ''0'' \<and> (lexer_peek2 l = CHR ''x'' \<or> lexer_peek2 l = CHR ''X'')
      then lex_while (\<lambda>l. isxdigit (lexer_peek l)) (lexer_advance (lexer_advance l))
      else lex_while (\<lambda>l. is_suffix (lexer_peek l)) (number_loop False l))"

definition is_word_char :: "char \<Rightarrow> bool" where
  "is_word_char c \<longleftrightarrow> isalnum c \<or> c = CHR ''_''"

definition lex_word :: "lexer \<Rightarrow> lexer" where
  "lex_word l = lex_while (\<lambda>l. is_word_char (lexer_peek l)) l"

declare lex_while.simps [simp del] block_loop.simps [simp del] quoted_loop.simps [simp del] number_loop.simps [simp del]

section \<open>Operators\<close>

text \<open>The two-character operators, in the order the code tests them.\<close>

definition op2_type :: "char \<Rightarrow> char \<Rightarrow> TokType option" where
  "op2_type c c2 =
     (if c = CHR ''-'' \<and> c2 = CHR ''>'' then Some TOK_ARROW
      else if c = CHR ''='' \<and> c2 = CHR ''='' then Some TOK_EQ2
      else if c = CHR ''!'' \<and> c2 = CHR ''='' then Some TOK_NEQ
      else if c = CHR ''<'' \<and> c2 = CHR ''='' then Some TOK_LEQ
      else if c = CHR ''>'' \<and> c2 = CHR ''='' then Some TOK_GEQ
      else if c = CHR ''&'' \<and> c2 = CHR ''&'' then Some TOK_AND2
      else if c = CHR ''|'' \<and> c2 = CHR ''|'' then Some TOK_OR2
      else if c = CHR ''<'' \<and> c2 = CHR ''<'' then Some TOK_SHL
      else if c = CHR ''>'' \<and> c2 = CHR ''>'' then Some TOK_SHR
      else if c = CHR ''+'' \<and> c2 = CHR ''='' then Some TOK_PLUSEQ
      else if c = CHR ''-'' \<and> c2 = CHR ''='' then Some TOK_MINUSEQ
      else if c = CHR ''*'' \<and> c2 = CHR ''='' then Some TOK_STAREQ
      else if c = CHR ''/'' \<and> c2 = CHR ''='' then Some TOK_SLASHEQ
      else if c = CHR ''%'' \<and> c2 = CHR ''='' then Some TOK_PERCENTEQ
      else if c = CHR ''&'' \<and> c2 = CHR ''='' then Some TOK_ANDEQ
      else if c = CHR ''|'' \<and> c2 = CHR ''='' then Some TOK_OREQ
      else if c = CHR ''^'' \<and> c2 = CHR ''='' then Some TOK_XOREQ
      else if c = CHR ''+'' \<and> c2 = CHR ''+'' then Some TOK_INC
      else if c = CHR ''-'' \<and> c2 = CHR ''-'' then Some TOK_DEC
      else None)"

definition lex_operator :: "lexer \<Rightarrow> token \<times> lexer" where
  "lex_operator l =
     (let line = l_line l; col = l_col l; c = lexer_peek l;
          l1 = lexer_advance l; c2 = lexer_peek l1
      in if c = CHR ''.'' \<and> c2 = CHR ''.'' then
           (let l2 = lexer_advance l1
            in if lexer_peek l2 = CHR ''='' then (make_tok TOK_DOTDOTEQ ''..='' line col, lexer_advance l2)
               else (make_tok TOK_DOTDOT ''..'' line col, l2))
         else case op2_type c c2 of
             Some t \<Rightarrow> (make_tok t [c, c2] line col, lexer_advance l1)
           | None \<Rightarrow> (make_tok TOK_PUNCT [c] line col, l1))"

section \<open>One token\<close>

definition tok_from :: "TokType \<Rightarrow> lexer \<Rightarrow> lexer \<Rightarrow> token \<times> lexer" where
  "tok_from t l l' = (make_tok t (xstrndup (l_src l) (l_pos l) (l_pos l' - l_pos l)) (l_line l) (l_col l), l')"

text \<open>The first component is the returned flag: false at the end of the input.\<close>

definition lexer_next :: "lexer \<Rightarrow> bool \<times> token \<times> lexer" where
  "lexer_next l =
     (if l_pos l \<ge> l_len l then (False, make_tok TOK_EOF [] (l_line l) (l_col l), l)
      else
        (let c = lexer_peek l; c2 = lexer_peek2 l
         in (True,
           if is_blank c then tok_from TOK_SPACE l (lex_space l)
           else if c = CHR 0x0A then (make_tok TOK_NEWLINE [CHR 0x0A] (l_line l) (l_col l), lexer_advance l)
           else if c = CHR ''/'' \<and> c2 = CHR ''/'' then tok_from TOK_LINE_COMMENT l (lex_line_comment l)
           else if c = CHR ''/'' \<and> c2 = CHR ''*'' then tok_from TOK_BLOCK_COMMENT l (lex_block_comment l)
           else if c = CHR 0x22 then tok_from TOK_STRING l (lex_quoted (CHR 0x22) l)
           else if c = CHR 0x27 then tok_from TOK_CHAR_LIT l (lex_quoted (CHR 0x27) l)
           else if isdigit c \<or> (c = CHR ''0'' \<and> (c2 = CHR ''x'' \<or> c2 = CHR ''X'' \<or> c2 = CHR ''b'' \<or> c2 = CHR ''B''))
           then tok_from TOK_NUMBER l (lex_number l)
           else if isalpha c \<or> c = CHR ''_'' then tok_from TOK_WORD l (lex_word l)
           else lex_operator l)))"

section \<open>Moving over text\<close>

text \<open>Line and column after a text.\<close>

fun walk :: "string \<Rightarrow> nat \<times> nat \<Rightarrow> nat \<times> nat" where
  "walk [] p = p"
| "walk (c # s) p = walk s (if c = CHR 0x0A then (fst p + 1, 1) else (fst p, snd p + 1))"

lemma walk_append: "walk (s @ t) p = walk t (walk s p)"
  by (induction s arbitrary: p) auto

text \<open>\<open>l'\<close> is \<open>l\<close> moved over \<open>s\<close>.\<close>

definition moved :: "string \<Rightarrow> lexer \<Rightarrow> lexer \<Rightarrow> bool" where
  "moved s l l' \<longleftrightarrow> l_src l' = l_src l \<and> l_pos l' = l_pos l + length s \<and> l_pos l' \<le> l_len l
     \<and> take (length s) (drop (l_pos l) (l_src l)) = s
     \<and> (l_line l', l_col l') = walk s (l_line l, l_col l)"

lemma moved_refl: "l_pos l \<le> l_len l \<Longrightarrow> moved [] l l"
  by (simp add: moved_def)

lemma moved_trans: "moved s l l1 \<Longrightarrow> moved t l1 l2 \<Longrightarrow> moved (s @ t) l l2"
  by (auto simp: moved_def walk_append take_add add.commute)

lemma moved_advance: "l_pos l < l_len l \<Longrightarrow> moved [lexer_peek l] l (lexer_advance l)"
  by (auto simp: moved_def lexer_advance_def lexer_peek_def src_at_def take_Suc_conv_app_nth hd_drop_conv_nth take_Suc)

lemma moved_cons:
  "l_pos l < l_len l \<Longrightarrow> moved t (lexer_advance l) l2 \<Longrightarrow> moved (lexer_peek l # t) l l2"
  using moved_trans [OF moved_advance, of l t l2] by simp

lemma advance_pos [simp]: "l_pos (lexer_advance l) = l_pos l + 1" "l_src (lexer_advance l) = l_src l"
  by (simp_all add: lexer_advance_def)

lemma moved_text: "moved s l l' \<Longrightarrow> xstrndup (l_src l) (l_pos l) (l_pos l' - l_pos l) = s"
  by (simp add: moved_def xstrndup_def)

lemma lex_while_moved: "l_pos l \<le> l_len l \<Longrightarrow> \<exists>s. moved s l (lex_while P l)"
proof (induction P l rule: lex_while.induct)
  case (1 P l)
  show ?case
  proof (cases "l_pos l < l_len l \<and> P l")
    case True
    with 1 obtain s where "moved s (lexer_advance l) (lex_while P (lexer_advance l))" by auto
    with True show ?thesis
      by (intro exI [of _ "lexer_peek l # s"]) (simp add: lex_while.simps [of P l] moved_cons)
  next
    case False
    with 1 show ?thesis by (intro exI [of _ "[]"]) (auto simp: lex_while.simps [of P l] moved_refl)
  qed
qed

lemma lex_while_moved_first:
  assumes "l_pos l < l_len l" "P l"
  shows "\<exists>s. moved (lexer_peek l # s) l (lex_while P l)"
  using lex_while_moved [of "lexer_advance l" P] assms
  by (auto simp: lex_while.simps [of P l] intro: moved_cons)

lemma block_loop_moved: "l_pos l \<le> l_len l \<Longrightarrow> \<exists>s. moved s l (block_loop l)"
proof (induction l rule: block_loop.induct)
  case (1 l)
  consider "l_pos l + 1 \<ge> l_len l"
    | "l_pos l + 1 < l_len l" "lexer_peek l = CHR ''*'' \<and> lexer_peek2 l = CHR ''/''"
    | "l_pos l + 1 < l_len l" "\<not> (lexer_peek l = CHR ''*'' \<and> lexer_peek2 l = CHR ''/'')"
    by fastforce
  then show ?case
  proof cases
    case 1
    with \<open>l_pos l \<le> l_len l\<close> show ?thesis
      by (intro exI [of _ "[]"]) (simp add: block_loop.simps [of l] moved_refl)
  next
    case 2
    then have "moved (lexer_peek l # [lexer_peek (lexer_advance l)]) l (lexer_advance (lexer_advance l))"
      by (intro moved_cons moved_advance) simp_all
    with 2 show ?thesis by (auto simp: block_loop.simps [of l])
  next
    case 3
    with "1.IH" obtain s where "moved s (lexer_advance l) (block_loop (lexer_advance l))" by auto
    then have "moved (lexer_peek l # s) l (block_loop (lexer_advance l))"
      using 3 by (intro moved_cons) simp_all
    with 3 show ?thesis by (auto simp: block_loop.simps [of l])
  qed
qed

lemma quoted_loop_moved: "l_pos l \<le> l_len l \<Longrightarrow> \<exists>s. moved s l (quoted_loop q l)"
proof (induction q l rule: quoted_loop.induct)
  case (1 q l)
  show ?case
  proof (cases "l_pos l < l_len l")
    case True
    consider "lexer_peek l = CHR 0x5C" "l_pos l + 1 < l_len l" | "lexer_peek l = CHR 0x5C" "\<not> l_pos l + 1 < l_len l"
      | "lexer_peek l \<noteq> CHR 0x5C" "lexer_peek l = q" | "lexer_peek l \<noteq> CHR 0x5C" "lexer_peek l \<noteq> q"
      by blast
    then show ?thesis
    proof cases
      case 1
      with "1.IH"(1) True obtain s where "moved s (lexer_advance (lexer_advance l)) (quoted_loop q (lexer_advance (lexer_advance l)))"
        by auto
      then have "moved (lexer_peek l # lexer_peek (lexer_advance l) # s) l (quoted_loop q (lexer_advance (lexer_advance l)))"
        using True 1 by (intro moved_cons) simp_all
      with True 1 show ?thesis by (auto simp: quoted_loop.simps [of q l] Let_def)
    next
      case 2
      with "1.IH"(1) True obtain s where "moved s (lexer_advance l) (quoted_loop q (lexer_advance l))"
        by auto
      then have "moved (lexer_peek l # s) l (quoted_loop q (lexer_advance l))"
        using True by (intro moved_cons) simp_all
      with True 2 show ?thesis by (auto simp: quoted_loop.simps [of q l] Let_def)
    next
      case 3
      with True show ?thesis by (auto simp: quoted_loop.simps [of q l] Let_def intro: moved_advance)
    next
      case 4
      with "1.IH"(2) True obtain s where "moved s (lexer_advance l) (quoted_loop q (lexer_advance l))"
        by auto
      then have "moved (lexer_peek l # s) l (quoted_loop q (lexer_advance l))"
        using True by (intro moved_cons) simp_all
      with True 4 show ?thesis by (auto simp: quoted_loop.simps [of q l] Let_def)
    qed
  next
    case False
    with "1.prems" show ?thesis
      by (intro exI [of _ "[]"]) (simp add: quoted_loop.simps [of q l] moved_refl)
  qed
qed

lemma number_step:
  "number_loop d l = l \<or> (l_pos l < l_len l \<and> (\<exists>d'. number_loop d l = number_loop d' (lexer_advance l)))"
proof (cases "l_pos l < l_len l")
  case True
  then show ?thesis
    by (cases "isdigit (lexer_peek l)") (auto simp: number_loop.simps [of d l] Let_def)
qed (simp add: number_loop.simps [of d l])

lemma number_loop_moved: "l_pos l \<le> l_len l \<Longrightarrow> \<exists>s. moved s l (number_loop d l)"
proof (induction "l_len l - l_pos l" arbitrary: d l rule: less_induct)
  case less
  from number_step [of d l] show ?case
  proof (elim disjE conjE exE)
    assume "number_loop d l = l"
    with less.prems show ?thesis by (intro exI [of _ "[]"]) (simp add: moved_refl)
  next
    fix d' assume lt: "l_pos l < l_len l" and d': "number_loop d l = number_loop d' (lexer_advance l)"
    have "\<exists>s. moved s (lexer_advance l) (number_loop d' (lexer_advance l))"
      using lt by (intro less.hyps) simp_all
    with lt d' show ?thesis by (auto intro: moved_cons)
  qed
qed

lemma number_first:
  assumes "l_pos l < l_len l" "isdigit (lexer_peek l)"
  shows "\<exists>s. moved (lexer_peek l # s) l (lex_number l)"
proof (cases "lexer_peek l = CHR ''0'' \<and> (lexer_peek2 l = CHR ''x'' \<or> lexer_peek2 l = CHR ''X'')")
  case True
  then have lt: "l_pos l + 1 < l_len l"
    by (auto simp: lexer_peek2_def split: if_splits)
  obtain s where "moved s (lexer_advance (lexer_advance l)) (lex_number l)"
    using lex_while_moved [of "lexer_advance (lexer_advance l)"] lt True by (auto simp: lex_number_def)
  then have "moved (lexer_peek l # lexer_peek (lexer_advance l) # s) l (lex_number l)"
    using lt by (intro moved_cons) simp_all
  then show ?thesis by blast
next
  case False
  obtain s where s: "moved s (lexer_advance l) (number_loop False l)"
    using number_loop_moved [of "lexer_advance l" False] assms by (auto simp: number_loop.simps [of False l] Let_def)
  then obtain t where t: "moved t (number_loop False l) (lex_number l)"
    using lex_while_moved [of "number_loop False l"] False by (auto simp: lex_number_def moved_def)
  have "moved (lexer_peek l # s @ t) l (lex_number l)"
    using assms moved_trans [OF s t] by (intro moved_cons) simp_all
  then show ?thesis by blast
qed

text \<open>Every step of the lexer consumes a nonempty piece and makes a token of it.\<close>

lemma quoted_first: "l_pos l < l_len l \<Longrightarrow> \<exists>s. moved (lexer_peek l # s) l (lex_quoted q l)"
  using quoted_loop_moved [of "lexer_advance l" q] by (auto simp: lex_quoted_def intro: moved_cons)

lemma block_first:
  assumes "l_pos l < l_len l" "lexer_peek2 l = CHR ''*''"
  shows "\<exists>s. moved (lexer_peek l # s) l (lex_block_comment l)"
proof -
  have lt: "l_pos l + 1 < l_len l"
    using assms by (auto simp: lexer_peek2_def split: if_splits)
  obtain s where "moved s (lexer_advance (lexer_advance l)) (lex_block_comment l)"
    using block_loop_moved [of "lexer_advance (lexer_advance l)"] lt by (auto simp: lex_block_comment_def)
  then have "moved (lexer_peek l # lexer_peek (lexer_advance l) # s) l (lex_block_comment l)"
    using lt by (intro moved_cons) simp_all
  then show ?thesis by blast
qed

definition token_of :: "string \<Rightarrow> lexer \<Rightarrow> token \<Rightarrow> lexer \<Rightarrow> bool" where
  "token_of s l tok l' \<longleftrightarrow> s \<noteq> [] \<and> moved s l l' \<and> t_text tok = xstrdup s \<and> t_line tok = l_line l
     \<and> t_col tok = l_col l \<and> t_type tok \<noteq> TOK_EOF"

definition lexed :: "lexer \<Rightarrow> token \<times> lexer \<Rightarrow> bool" where
  "lexed l p \<longleftrightarrow> (\<exists>s. token_of s l (fst p) (snd p))"

lemma tok_from_token:
  assumes "\<exists>s. moved (lexer_peek l # s) l l'" "t \<noteq> TOK_EOF"
  shows "lexed l (tok_from t l l')"
proof -
  obtain s where s: "moved (lexer_peek l # s) l l'" using assms by blast
  show ?thesis
    using s moved_text [OF s] assms(2) unfolding lexed_def
    by (intro exI [of _ "lexer_peek l # s"]) (simp add: token_of_def tok_from_def make_tok_def)
qed

lemma peek_lt: "lexer_peek l \<noteq> NULc \<Longrightarrow> l_pos l < l_len l"
  by (auto simp: lexer_peek_def split: if_splits)

lemma op2_not_eof: "op2_type c c2 = Some t \<Longrightarrow> t \<noteq> TOK_EOF \<and> c2 \<noteq> NULc"
  by (auto simp: op2_type_def split: if_splits)

lemma operator_token:
  assumes "l_pos l < l_len l"
  shows "lexed l (lex_operator l)"
proof -
  let ?l1 = "lexer_advance l" and ?l2 = "lexer_advance (lexer_advance l)"
  have m1: "moved [lexer_peek l] l ?l1"
    by (rule moved_advance [OF assms])
  have m2: "moved [lexer_peek l, lexer_peek ?l1] l ?l2" if "lexer_peek ?l1 \<noteq> NULc"
    using assms peek_lt [OF that] by (intro moved_cons moved_advance) simp_all
  have m3: "moved [lexer_peek l, lexer_peek ?l1, lexer_peek ?l2] l (lexer_advance ?l2)"
    if "lexer_peek ?l1 \<noteq> NULc" "lexer_peek ?l2 \<noteq> NULc"
    using assms peek_lt [OF that(1)] peek_lt [OF that(2)] by (intro moved_cons moved_advance) simp_all
  consider "lexer_peek l = CHR ''.''" "lexer_peek ?l1 = CHR ''.''" "lexer_peek ?l2 = CHR ''=''"
    | "lexer_peek l = CHR ''.''" "lexer_peek ?l1 = CHR ''.''" "lexer_peek ?l2 \<noteq> CHR ''=''"
    | t where "\<not> (lexer_peek l = CHR ''.'' \<and> lexer_peek ?l1 = CHR ''.'')" "op2_type (lexer_peek l) (lexer_peek ?l1) = Some t"
    | "\<not> (lexer_peek l = CHR ''.'' \<and> lexer_peek ?l1 = CHR ''.'')" "op2_type (lexer_peek l) (lexer_peek ?l1) = None"
    by (cases "op2_type (lexer_peek l) (lexer_peek ?l1)") auto
  then have "\<exists>s. token_of s l (fst (lex_operator l)) (snd (lex_operator l))"
  proof cases
    case 1
    with m3 show ?thesis
      by (intro exI [of _ "''..=''"]) (simp add: token_of_def lex_operator_def Let_def make_tok_def)
  next
    case 2
    with m2 show ?thesis
      by (intro exI [of _ "''..''"]) (simp add: token_of_def lex_operator_def Let_def make_tok_def)
  next
    case 3
    with m2 op2_not_eof [OF 3(2)] show ?thesis
      by (intro exI [of _ "[lexer_peek l, lexer_peek ?l1]"]) (auto simp: token_of_def lex_operator_def Let_def make_tok_def)
  next
    case 4
    with m1 show ?thesis
      by (intro exI [of _ "[lexer_peek l]"]) (auto simp: token_of_def lex_operator_def Let_def make_tok_def)
  qed
  then show ?thesis by (simp add: lexed_def)
qed

lemma newline_token:
  assumes "l_pos l < l_len l" "lexer_peek l = CHR 0x0A"
  shows "lexed l (make_tok TOK_NEWLINE [CHR 0x0A] (l_line l) (l_col l), lexer_advance l)"
  using moved_advance [OF assms(1)] assms(2) unfolding lexed_def
  by (intro exI [of _ "[CHR 0x0A]"]) (simp add: token_of_def make_tok_def)

lemma while_token:
  "l_pos l < l_len l \<Longrightarrow> P l \<Longrightarrow> t \<noteq> TOK_EOF \<Longrightarrow> lexed l (tok_from t l (lex_while P l))"
  by (rule tok_from_token [OF lex_while_moved_first])

lemma lexer_next_token:
  assumes lt: "l_pos l < l_len l"
  shows "\<exists>s tok l'. lexer_next l = (True, tok, l') \<and> token_of s l tok l'"
proof -
  let ?c = "lexer_peek l"
  have b: "is_blank ?c \<Longrightarrow> lexed l (tok_from TOK_SPACE l (lex_space l))"
    and lc: "?c = CHR ''/'' \<Longrightarrow> lexed l (tok_from TOK_LINE_COMMENT l (lex_line_comment l))"
    and w: "isalpha ?c \<or> ?c = CHR ''_'' \<Longrightarrow> lexed l (tok_from TOK_WORD l (lex_word l))"
    unfolding lex_space_def lex_line_comment_def lex_word_def
    by (rule while_token [OF lt]; auto simp: is_word_char_def isalnum_def)+
  have bc: "lexer_peek2 l = CHR ''*'' \<Longrightarrow> lexed l (tok_from TOK_BLOCK_COMMENT l (lex_block_comment l))"
    by (rule tok_from_token [OF block_first [OF lt]]) simp_all
  have q: "t \<noteq> TOK_EOF \<Longrightarrow> lexed l (tok_from t l (lex_quoted c l))" for t c
    by (rule tok_from_token [OF quoted_first [OF lt]])
  have "isdigit CHR ''0''" by (simp add: isdigit_def uchar_def)
  then have n: "isdigit ?c \<or> ?c = CHR ''0'' \<and> X \<Longrightarrow> lexed l (tok_from TOK_NUMBER l (lex_number l))" for X
    by (intro tok_from_token number_first [OF lt]) auto
  have "lexed l (snd (lexer_next l))" "fst (lexer_next l)"
    using lt b lc bc w n q newline_token [OF lt] operator_token [OF lt]
    by (simp_all add: lexer_next_def Let_def)
  then show ?thesis
    by (cases "lexer_next l") (auto simp: lexed_def)
qed

lemma lexer_next_decreases:
  "lexer_next l = (True, tok, l') \<Longrightarrow> l_len l' - l_pos l' < l_len l - l_pos l"
proof -
  assume n: "lexer_next l = (True, tok, l')"
  then have lt: "l_pos l < l_len l"
    by (cases "l_pos l < l_len l") (simp_all add: lexer_next_def)
  obtain s where "token_of s l tok l'"
    using lexer_next_token [OF lt] n by auto
  then have "0 < length s" "l_len l' = l_len l" "l_pos l' = l_pos l + length s"
    by (simp_all add: token_of_def moved_def)
  with lt show ?thesis by linarith
qed

section \<open>The whole source\<close>

text \<open>The tokens before the end, and the lexer that met the end.\<close>

function lex_all :: "lexer \<Rightarrow> token list \<times> lexer" where
  "lex_all l =
     (case lexer_next l of
        (found, tok, l') \<Rightarrow> if found then (let (ts, lf) = lex_all l' in (tok # ts, lf)) else ([], l'))"
  by pat_completeness auto
termination
  by (relation "measure (\<lambda>l. l_len l - l_pos l)") (auto dest: lexer_next_decreases [OF sym])

declare lex_all.simps [simp del]

definition lexer_start :: "string \<Rightarrow> lexer" where
  "lexer_start src = \<lparr>l_src = src, l_pos = 0, l_line = 1, l_col = 1\<rparr>"

definition lex :: "string \<Rightarrow> token list" where
  "lex src = fst (lex_all (lexer_start src))"

lemma lex_all_step:
  assumes "l_pos l < l_len l"
  obtains s tok l' where "lexer_next l = (True, tok, l')" "token_of s l tok l'"
    "lex_all l = (tok # fst (lex_all l'), snd (lex_all l'))"
proof -
  obtain s tok l' where t: "lexer_next l = (True, tok, l')" "token_of s l tok l'"
    using lexer_next_token [OF assms] by blast
  then have "lex_all l = (tok # fst (lex_all l'), snd (lex_all l'))"
    unfolding lex_all.simps [of l] t(1) by (simp add: split_def Let_def)
  with t that show thesis by blast
qed

lemma lex_all_end: "l_len l \<le> l_pos l \<Longrightarrow> lex_all l = ([], l)"
  by (subst lex_all.simps) (simp add: lexer_next_def)

lemma token_of_drop: "token_of s l tok l' \<Longrightarrow> drop (l_pos l) (l_src l) = s @ drop (l_pos l') (l_src l')"
  by (auto simp: token_of_def moved_def) (metis append_take_drop_id drop_drop add.commute)

lemma xstrdup_id: "NULc \<notin> set s \<Longrightarrow> xstrdup s = s"
  by (auto simp: xstrdup_def intro: takeWhile_eq_all_conv [THEN iffD2])

lemma lex_all_exact:
  assumes "l_pos l \<le> l_len l" "NULc \<notin> set (drop (l_pos l) (l_src l))"
  shows "concat (map t_text (fst (lex_all l))) = drop (l_pos l) (l_src l) \<and>
    (\<forall>i < length (fst (lex_all l)). (t_line (fst (lex_all l) ! i), t_col (fst (lex_all l) ! i)) =
      walk (concat (map t_text (take i (fst (lex_all l))))) (l_line l, l_col l))"
  using assms
proof (induction "l_len l - l_pos l" arbitrary: l rule: less_induct)
  case less
  show ?case
  proof (cases "l_pos l < l_len l")
    case True
    obtain s tok l' where n: "lexer_next l = (True, tok, l')" and t: "token_of s l tok l'"
      and e: "lex_all l = (tok # fst (lex_all l'), snd (lex_all l'))"
      using lex_all_step [OF True] by blast
    note d = token_of_drop [OF t]
    have m: "l_src l' = l_src l" "l_pos l' \<le> l_len l'" "(l_line l', l_col l') = walk s (l_line l, l_col l)"
      using t by (auto simp: token_of_def moved_def)
    have x: "t_text tok = s" "t_line tok = l_line l" "t_col tok = l_col l"
      using t d less.prems(2) by (auto simp: token_of_def xstrdup_id)
    have IH: "concat (map t_text (fst (lex_all l'))) = drop (l_pos l') (l_src l') \<and>
        (\<forall>i < length (fst (lex_all l')). (t_line (fst (lex_all l') ! i), t_col (fst (lex_all l') ! i)) =
          walk (concat (map t_text (take i (fst (lex_all l'))))) (l_line l', l_col l'))"
      using less.hyps [OF lexer_next_decreases [OF n]] m d less.prems(2) by simp
    have "(t_line ((tok # fst (lex_all l')) ! i), t_col ((tok # fst (lex_all l')) ! i)) =
        walk (concat (map t_text (take i (tok # fst (lex_all l'))))) (l_line l, l_col l)"
      if "i < length (tok # fst (lex_all l'))" for i
      using that IH x m by (cases i) (auto simp: walk_append)
    then show ?thesis
      using e IH d x m by simp
  next
    case False
    with less.prems show ?thesis by (simp add: lex_all_end)
  qed
qed

text \<open>
  C14: The lexer reads every source to its end and loses nothing: unless the source contains
  a zero character, the texts of the tokens, put together, are the source, and every token
  carries the line and column of its first character (lines and columns count from 1).
\<close>

theorem lex_lossless:
  assumes "NULc \<notin> set src"
  shows "concat (map t_text (lex src)) = src \<and>
    (\<forall>i < length (lex src). (t_line (lex src ! i), t_col (lex src ! i)) =
      walk (concat (map t_text (take i (lex src)))) (1, 1))"
  using lex_all_exact [of "lexer_start src"] assms by (simp add: lex_def lexer_start_def)

theorem lex_lossless_witness:
  "concat (map t_text (lex (''a'' @ [CHR 0x0A] @ ''b+=1''))) = ''a'' @ [CHR 0x0A] @ ''b+=1''"
  using lex_lossless [of "''a'' @ [CHR 0x0A] @ ''b+=1''"] by simp

text \<open>Identifiers are read whole.\<close>

lemma lex_while_stop: "l_pos (lex_while P l) < l_len (lex_while P l) \<Longrightarrow> \<not> P (lex_while P l)"
  by (induction P l rule: lex_while.induct) (subst lex_while.simps, subst (asm) (1 2) lex_while.simps, auto)

lemma lex_word_chars:
  "moved s l (lex_word l) \<Longrightarrow> \<forall>c \<in> set s. is_word_char c"
proof (induction "l_len l - l_pos l" arbitrary: s l rule: less_induct)
  case less
  let ?P = "\<lambda>l. is_word_char (lexer_peek l)"
  show ?case
  proof (cases "l_pos l < l_len l \<and> ?P l")
    case True
    then have w: "lex_word l = lex_word (lexer_advance l)"
      by (simp add: lex_word_def lex_while.simps [of ?P l])
    obtain s' where s': "moved s' (lexer_advance l) (lex_word (lexer_advance l))"
      using True lex_while_moved [of "lexer_advance l" ?P] by (auto simp: lex_word_def)
    have "s = lexer_peek l # s'"
      using moved_text [OF less.prems] moved_text [OF moved_cons [OF _ s']] True w by simp
    moreover have "\<forall>c \<in> set s'. is_word_char c"
      using less.hyps [OF _ s'] True by (simp add: diff_less_mono2)
    ultimately show ?thesis
      using True by simp
  next
    case False
    then have "lex_word l = l"
      by (auto simp: lex_word_def lex_while.simps [of ?P l])
    then show ?thesis
      using less.prems by (simp add: moved_def)
  qed
qed

lemma lexer_next_word:
  assumes "lexer_next l = (True, tok, l')" "t_type tok = TOK_WORD"
  shows "l' = lex_word l \<and> (isalpha (lexer_peek l) \<or> lexer_peek l = CHR ''_'')"
proof -
  have "\<not> l_len l \<le> l_pos l"
    using assms by (auto simp: lexer_next_def)
  moreover have "t_type (fst (lex_operator l)) \<noteq> TOK_WORD"
    by (auto simp: lex_operator_def Let_def make_tok_def op2_type_def)
  ultimately show ?thesis
    using assms by (auto simp: lexer_next_def Let_def tok_from_def make_tok_def split: if_splits)
qed

lemma lex_all_first:
  assumes "l_pos l < l_len l" "NULc \<notin> set (drop (l_pos l) (l_src l))"
  shows "\<exists>tok ts. fst (lex_all l) = tok # ts \<and> t_text tok \<noteq> [] \<and> hd (t_text tok) = lexer_peek l"
proof -
  obtain s tok l' where t: "token_of s l tok l'" and e: "lex_all l = (tok # fst (lex_all l'), snd (lex_all l'))"
    using lex_all_step [OF assms(1)] by blast
  note d = token_of_drop [OF t]
  have s: "t_text tok = s" "s \<noteq> []"
    using t d assms(2) by (auto simp: token_of_def xstrdup_id)
  then have "hd s = lexer_peek l"
    using d assms(1) hd_drop_conv_nth [of "l_pos l" "l_src l"] by (simp add: lexer_peek_def src_at_def hd_append)
  with s e show ?thesis by simp
qed

definition word_shape :: "token \<Rightarrow> bool" where
  "word_shape t \<longleftrightarrow> t_text t \<noteq> [] \<and> (isalpha (hd (t_text t)) \<or> hd (t_text t) = CHR ''_'')
     \<and> (\<forall>c \<in> set (t_text t). is_word_char c)"

definition ends_word :: "token \<Rightarrow> token \<Rightarrow> bool" where
  "ends_word t u \<longleftrightarrow> (t_type t = TOK_WORD \<longrightarrow> t_text u \<noteq> [] \<and> \<not> is_word_char (hd (t_text u)))"

lemma lex_all_words:
  assumes "l_pos l \<le> l_len l" "NULc \<notin> set (drop (l_pos l) (l_src l))"
  shows "(\<forall>t \<in> set (fst (lex_all l)). t_type t = TOK_WORD \<longrightarrow> word_shape t) \<and> successively ends_word (fst (lex_all l))"
  using assms
proof (induction "l_len l - l_pos l" arbitrary: l rule: less_induct)
  case less
  show ?case
  proof (cases "l_pos l < l_len l")
    case True
    obtain s tok l' where n: "lexer_next l = (True, tok, l')" and t: "token_of s l tok l'"
      and e: "lex_all l = (tok # fst (lex_all l'), snd (lex_all l'))"
      using lex_all_step [OF True] by blast
    note d = token_of_drop [OF t]
    have m: "l_src l' = l_src l" "l_pos l' \<le> l_len l'" "moved s l l'" "s \<noteq> []" and x: "t_text tok = s"
      using t d less.prems(2) by (auto simp: token_of_def moved_def xstrdup_id)
    have nz: "NULc \<notin> set (drop (l_pos l') (l_src l'))"
      using d less.prems(2) by simp
    have IH: "(\<forall>t \<in> set (fst (lex_all l')). t_type t = TOK_WORD \<longrightarrow> word_shape t) \<and> successively ends_word (fst (lex_all l'))"
      using less.hyps [OF lexer_next_decreases [OF n]] m nz by simp
    have hd: "hd s = lexer_peek l"
      using d m(4) True hd_drop_conv_nth [of "l_pos l" "l_src l"] by (simp add: lexer_peek_def src_at_def hd_append)
    have w: "word_shape tok" if "t_type tok = TOK_WORD"
      using lexer_next_word [OF n that] lex_word_chars [of s l] m x hd by (auto simp: word_shape_def)
    have "ends_word tok (hd (fst (lex_all l')))" if "fst (lex_all l') \<noteq> []"
    proof (cases "l_pos l' < l_len l'")
      case True
      have "\<not> is_word_char (lexer_peek l')" if "t_type tok = TOK_WORD"
        using lexer_next_word [OF n that] lex_while_stop [of "\<lambda>l. is_word_char (lexer_peek l)" l] True
        by (simp add: lex_word_def)
      then show ?thesis
        using lex_all_first [OF True nz] by (auto simp: ends_word_def)
    next
      case False
      with that show ?thesis by (simp add: lex_all_end)
    qed
    then show ?thesis
      using e IH w by (cases "fst (lex_all l')") auto
  next
    case False
    with less.prems show ?thesis by (simp add: lex_all_end)
  qed
qed

text \<open>
  A word token is an identifier read whole: it starts with a letter or an underscore, has
  only letters, digits and underscores, and the token after it does not begin with one of
  these. So a keyword is recognised exactly where it stands as a word of its own.
\<close>

theorem lex_words_whole:
  assumes "NULc \<notin> set src"
  shows "(\<forall>t \<in> set (lex src). t_type t = TOK_WORD \<longrightarrow> word_shape t) \<and> successively ends_word (lex src)"
  using lex_all_words [of "lexer_start src"] assms by (simp add: lex_def lexer_start_def)

theorem lex_words_whole_witness: "successively ends_word (lex ''format(for_x)'')"
  using lex_words_whole [of "''format(for_x)''"] by simp

text \<open>A zero character cuts the text of the token it stands in: the rest of the literal is lost.\<close>

theorem lex_zero_truncates: "xstrdup (s @ NULc # t) = xstrdup s"
  by (induction s) (simp_all add: xstrdup_def)

end
