(* ===== verification/Sc_Translate.thy ===== *)
theory Sc_Translate
  imports Sc_Lexer
begin

text \<open>
  The translator of the S compiler, \<^verbatim>\<open>src/tools/s-lang/sc.c\<close>: the growing output buffer, the
  token array, the translation of each construct and \<open>transpile\<close>. The array of tokens is a
  list, \<open>count\<close> its length. Memory allocation is taken to succeed (the code exits otherwise).
  A fresh buffer has no terminating zero: reading it as a string before the first append is
  undefined in C and \<open>None\<close> here. Cells behind the terminating zero are shown as zero and
  never read.
\<close>

section \<open>The output buffer\<close>

record out_buf =
  ob_buf :: string      \<comment> \<open>all \<open>cap\<close> cells\<close>
  ob_len :: nat
  ob_cap :: nat
  ob_set :: bool        \<comment> \<open>something was appended, so the text is terminated\<close>

definition ob_init :: out_buf where
  "ob_init = \<lparr>ob_buf = replicate 4096 NULc, ob_len = 0, ob_cap = 4096, ob_set = False\<rparr>"

text \<open>The capacity is never zero: it starts at 4096 and is doubled.\<close>

function ob_grow :: "out_buf \<Rightarrow> nat \<Rightarrow> out_buf" where
  "ob_grow ob need =
     (if ob_len ob + need \<ge> ob_cap ob \<and> 0 < ob_cap ob
      then ob_grow (ob\<lparr>ob_cap := ob_cap ob * 2, ob_buf := ob_buf ob @ replicate (ob_cap ob) NULc\<rparr>) need
      else ob)"
  by pat_completeness auto
termination
  by (relation "measure (\<lambda>(ob, need). ob_len ob + need + 1 - ob_cap ob)") auto

declare ob_grow.simps [simp del]

definition ob_write :: "string \<Rightarrow> out_buf \<Rightarrow> out_buf" where
  "ob_write s ob =
     (let l = ob_len ob + length s
      in ob\<lparr>ob_buf := (take (ob_len ob) (ob_buf ob) @ s @ drop l (ob_buf ob))[l := NULc], ob_len := l, ob_set := True\<rparr>)"

definition ob_append :: "out_buf \<Rightarrow> string \<Rightarrow> nat \<Rightarrow> out_buf" where
  "ob_append ob s n = ob_write (take n s) (ob_grow ob (n + 1))"

definition ob_str :: "string \<Rightarrow> out_buf \<Rightarrow> out_buf" where
  "ob_str s ob = ob_append ob s (length (xstrdup s))"

definition ob_char :: "char \<Rightarrow> out_buf \<Rightarrow> out_buf" where
  "ob_char c ob = ob_write [c] (ob_grow ob 2)"

text \<open>Dropping the blanks at the end, as \<open>translate_fn\<close> and the range loop do in place.\<close>

function ob_trim :: "out_buf \<Rightarrow> out_buf" where
  "ob_trim ob =
     (if 0 < ob_len ob \<and> (ob_buf ob ! (ob_len ob - 1) = CHR '' '' \<or> ob_buf ob ! (ob_len ob - 1) = CHR 0x09)
      then ob_trim (ob\<lparr>ob_len := ob_len ob - 1, ob_buf := (ob_buf ob)[ob_len ob - 1 := NULc]\<rparr>)
      else ob)"
  by pat_completeness auto
termination
  by (relation "measure ob_len") auto

declare ob_trim.simps [simp del]

text \<open>The buffer read as a string, as \<open>ob_str(ob, params_ob.buf)\<close> does.\<close>

definition ob_cstr :: "out_buf \<Rightarrow> string option" where
  "ob_cstr ob = (if ob_set ob then Some (xstrdup (ob_buf ob)) else None)"

section \<open>The token array\<close>

record translator =
  tr_tokens :: "token list"
  tr_cap :: nat
  tr_pos :: nat

abbreviation tr_count :: "translator \<Rightarrow> nat" where
  "tr_count tr \<equiv> length (tr_tokens tr)"

definition tr_push :: "token \<Rightarrow> translator \<Rightarrow> translator" where
  "tr_push tok tr =
     (let tr1 = (if tr_count tr \<ge> tr_cap tr
                 then tr\<lparr>tr_cap := (if tr_cap tr \<noteq> 0 then tr_cap tr * 2 else 256)\<rparr> else tr)
      in tr1\<lparr>tr_tokens := tr_tokens tr @ [tok]\<rparr>)"

definition tr_peek :: "translator \<Rightarrow> token" where
  "tr_peek tr = (if tr_pos tr \<ge> tr_count tr then make_tok TOK_EOF [] 0 0 else tr_tokens tr ! tr_pos tr)"

definition tr_inc :: "translator \<Rightarrow> translator" where
  "tr_inc tr = tr\<lparr>tr_pos := tr_pos tr + 1\<rparr>"

definition tr_consume :: "translator \<Rightarrow> token \<times> translator" where
  "tr_consume tr = (tr_peek tr, if tr_pos tr \<ge> tr_count tr then tr else tr_inc tr)"

definition tok_is :: "token \<Rightarrow> string \<Rightarrow> bool" where
  "tok_is t s \<longleftrightarrow> t_type t = TOK_WORD \<and> t_text t = s"

definition first_char :: "string \<Rightarrow> char" where
  "first_char s = (case s of [] \<Rightarrow> NULc | c # _ \<Rightarrow> c)"

definition tok_is_punct :: "token \<Rightarrow> char \<Rightarrow> bool" where
  "tok_is_punct t c \<longleftrightarrow> t_type t = TOK_PUNCT \<and> first_char (t_text t) = c"

function skip_spaces :: "translator \<Rightarrow> translator" where
  "skip_spaces tr =
     (if tr_pos tr < tr_count tr \<and> t_type (tr_peek tr) = TOK_SPACE then skip_spaces (tr_inc tr) else tr)"
  by pat_completeness auto
termination
  by (relation "measure (\<lambda>tr. tr_count tr - tr_pos tr)") (auto simp: tr_inc_def)

declare skip_spaces.simps [simp del]

section \<open>Type aliases\<close>

definition type_aliases :: "(string \<times> string) list" where
  "type_aliases =
     [(''str'', ''char*''), (''byte'', ''uint8_t''), (''i8'', ''int8_t''), (''i16'', ''int16_t''),
      (''i32'', ''int32_t''), (''i64'', ''int64_t''), (''u8'', ''uint8_t''), (''u16'', ''uint16_t''),
      (''u32'', ''uint32_t''), (''u64'', ''uint64_t''), (''f32'', ''float''), (''f64'', ''double''),
      (''usize'', ''size_t''), (''isize'', ''ssize_t'')]"

definition translate_type :: "string \<Rightarrow> string option" where
  "translate_type word = map_of type_aliases word"

text \<open>A word's alias, or the text of the token.\<close>

definition alias_text :: "token \<Rightarrow> string" where
  "alias_text t =
     (if t_type t = TOK_WORD then (case translate_type (t_text t) of Some m \<Rightarrow> m | None \<Rightarrow> t_text t)
      else t_text t)"

section \<open>Functions\<close>

function fn_params :: "nat \<Rightarrow> translator \<Rightarrow> out_buf \<Rightarrow> translator \<times> out_buf" where
  "fn_params depth tr ob =
     (if tr_pos tr < tr_count tr \<and> 0 < depth then
        (let t = tr_peek tr
         in if t_type t = TOK_EOF then (tr, ob)
            else if tok_is_punct t (CHR ''('') then fn_params (depth + 1) (tr_inc tr) (ob_str (t_text t) ob)
            else if tok_is_punct t (CHR '')'') then
              if depth - 1 = 0 then (tr_inc tr, ob_char (CHR '')'') ob)
              else fn_params (depth - 1) (tr_inc tr) (ob_str (t_text t) ob)
            else fn_params depth (tr_inc tr) (ob_str (alias_text t) ob))
      else (tr, ob))"
  by pat_completeness auto
termination
  by (relation "measure (\<lambda>(d, tr, ob). tr_count tr - tr_pos tr)") (auto simp: tr_inc_def)

function fn_ret :: "translator \<Rightarrow> out_buf \<Rightarrow> translator \<times> out_buf" where
  "fn_ret tr ob =
     (if tr_pos tr < tr_count tr then
        (let t = tr_peek tr
         in if t_type t = TOK_EOF \<or> tok_is_punct t (CHR ''{'') \<or> tok_is_punct t (CHR '';'') \<or> t_type t = TOK_NEWLINE
            then (tr, ob)
            else fn_ret (tr_inc tr) (ob_str (alias_text t) ob))
      else (tr, ob))"
  by pat_completeness auto
termination
  by (relation "measure (\<lambda>(tr, ob). tr_count tr - tr_pos tr)") (auto simp: tr_inc_def)

declare fn_params.simps [simp del] fn_ret.simps [simp del]

definition fn_ret_type :: "translator \<Rightarrow> (string \<times> translator) option" where
  "fn_ret_type tr =
     (if t_type (tr_peek tr) = TOK_ARROW
      then (let (tr', rtob) = fn_ret (skip_spaces (tr_inc tr)) ob_init
            in map_option (\<lambda>r. (r, tr')) (ob_cstr (ob_trim rtob)))
      else Some (''void'', tr))"

definition translate_fn :: "translator \<Rightarrow> out_buf \<Rightarrow> (translator \<times> out_buf) option" where
  "translate_fn tr ob =
     (let (name_tok, tr1) = tr_consume (skip_spaces (tr_inc tr))
      in if t_type name_tok \<noteq> TOK_WORD then Some (tr1, ob_str (t_text name_tok) (ob_str ''fn '' ob))
         else
           (let tr2 = skip_spaces tr1
            in if \<not> tok_is_punct (tr_peek tr2) (CHR ''('') then Some (tr2, ob_str (t_text name_tok) (ob_str ''void '' ob))
               else
                 (let (tr3, params_ob) = fn_params 1 (tr_inc tr2) (ob_char (CHR ''('') ob_init)
                  in Option.bind (fn_ret_type (skip_spaces tr3)) (\<lambda>(ret_type, tr5).
                     Option.bind (ob_cstr params_ob) (\<lambda>params.
                     Some (tr5, fold ob_str [t_text name_tok, params] (ob_char (CHR '' '') (ob_str ret_type ob))))))))"

section \<open>Include directives\<close>

function use_loop :: "translator \<Rightarrow> out_buf \<Rightarrow> translator \<times> out_buf" where
  "use_loop tr ob =
     (if tr_pos tr < tr_count tr then
        (let tt = tr_peek tr; ob1 = ob_str (t_text tt) ob; tr1 = tr_inc tr
         in if tok_is_punct tt (CHR ''>'') \<or> t_type tt = TOK_NEWLINE \<or> t_type tt = TOK_EOF then (tr1, ob1)
            else use_loop tr1 ob1)
      else (tr, ob))"
  by pat_completeness auto
termination
  by (relation "measure (\<lambda>(tr, ob). tr_count tr - tr_pos tr)") (auto simp: tr_inc_def)

declare use_loop.simps [simp del]

definition translate_use :: "translator \<Rightarrow> out_buf \<Rightarrow> translator \<times> out_buf" where
  "translate_use tr ob =
     (let tr1 = skip_spaces (tr_inc tr); t = tr_peek tr1
      in if t_type t = TOK_STRING then (tr_inc tr1, ob_str (t_text t) (ob_str ''#include '' ob))
         else if tok_is_punct t (CHR ''<'') then use_loop (tr_inc tr1) (ob_str (t_text t) (ob_str ''#include '' ob))
         else (tr_inc tr1, ob_str '' */'' (ob_str (t_text t) (ob_str ''/* use '' ob))))"

section \<open>Declarations\<close>

text \<open>The shared part of \<open>let\<close> and \<open>var\<close>: \<open>prefix\<close> is \<open>const\<close> or nothing.\<close>

definition ob_prefix :: "string \<Rightarrow> out_buf \<Rightarrow> out_buf" where
  "ob_prefix p ob = (if p = [] then ob else ob_str p ob)"

definition name_type :: "string \<Rightarrow> token \<Rightarrow> translator \<Rightarrow> out_buf \<Rightarrow> translator \<times> out_buf" where
  "name_type prefix t1 tr ob =
     (let type_tok = tr_peek tr;
          mapped2 = (if t_type type_tok = TOK_WORD then translate_type (t_text type_tok) else None)
      in case mapped2 of
           Some m \<Rightarrow> (tr_inc tr, ob_str (t_text t1) (ob_char (CHR '' '') (ob_str m (ob_prefix prefix ob))))
         | None \<Rightarrow>
             (let (tr', ob') = (if t_type type_tok \<noteq> TOK_EOF then (tr_inc tr, ob_str (t_text type_tok) (ob_prefix prefix ob))
                                else (tr, ob_prefix prefix ob))
              in (tr', ob_str (t_text t1) (ob_char (CHR '' '') ob'))))"

definition translate_decl :: "string \<Rightarrow> translator \<Rightarrow> out_buf \<Rightarrow> translator \<times> out_buf" where
  "translate_decl prefix tr ob =
     (let tr1 = skip_spaces (tr_inc tr); t1 = tr_peek tr1
      in if t_type t1 = TOK_WORD then
           case translate_type (t_text t1) of
             Some m \<Rightarrow> (tr_inc tr1, ob_str m (ob_prefix prefix ob))
           | None \<Rightarrow>
               (let tr2 = skip_spaces (tr_inc tr1)
                in if tok_is_punct (tr_peek tr2) (CHR '':'') then name_type prefix t1 (skip_spaces (tr_inc tr2)) ob
                   else (tr_inc tr1, ob_str (t_text t1) (ob_prefix prefix ob)))
         else (tr1, ob_prefix prefix ob))"

definition translate_let :: "translator \<Rightarrow> out_buf \<Rightarrow> translator \<times> out_buf" where
  "translate_let tr ob = translate_decl ''const '' tr ob"

definition translate_var :: "translator \<Rightarrow> out_buf \<Rightarrow> translator \<times> out_buf" where
  "translate_var tr ob = translate_decl [] tr ob"

section \<open>Range loops\<close>

text \<open>The start expression; the option is the kind of range found, true for an inclusive one.\<close>

function for_start :: "translator \<Rightarrow> out_buf \<Rightarrow> bool option \<times> translator \<times> out_buf" where
  "for_start tr ob =
     (if tr_pos tr < tr_count tr then
        (let t = tr_peek tr
         in if t_type t = TOK_DOTDOTEQ then (Some True, tr_inc tr, ob)
            else if t_type t = TOK_DOTDOT then (Some False, tr_inc tr, ob)
            else if t_type t = TOK_NEWLINE \<or> t_type t = TOK_EOF then (None, tr, ob)
            else for_start (tr_inc tr) (ob_str (t_text t) ob))
      else (None, tr, ob))"
  by pat_completeness auto
termination
  by (relation "measure (\<lambda>(tr, ob). tr_count tr - tr_pos tr)") (auto simp: tr_inc_def)

function for_end :: "translator \<Rightarrow> out_buf \<Rightarrow> translator \<times> out_buf" where
  "for_end tr ob =
     (if tr_pos tr < tr_count tr then
        (let t = tr_peek tr
         in if tok_is_punct t (CHR ''{'') \<or> t_type t = TOK_NEWLINE \<or> t_type t = TOK_EOF then (tr, ob)
            else for_end (tr_inc tr) (ob_str (t_text t) ob))
      else (tr, ob))"
  by pat_completeness auto
termination
  by (relation "measure (\<lambda>(tr, ob). tr_count tr - tr_pos tr)") (auto simp: tr_inc_def)

declare for_start.simps [simp del] for_end.simps [simp del]

definition range_for_pieces :: "string \<Rightarrow> string \<Rightarrow> bool \<Rightarrow> string \<Rightarrow> string list" where
  "range_for_pieces v start inclusive e =
     [''for (int '', v, '' = '', start, ''; '', v, (if inclusive then '' <= '' else '' < ''), e, ''; '', v, ''++)'']"

text \<open>\<open>Some None\<close>: not a range loop, the position is restored and nothing is emitted.\<close>

definition try_translate_for_range :: "translator \<Rightarrow> out_buf \<Rightarrow> (translator \<times> out_buf) option option" where
  "try_translate_for_range tr ob =
     (let tr1 = skip_spaces (tr_inc tr); var_tok = tr_peek tr1
      in if t_type var_tok \<noteq> TOK_WORD then Some None
         else
           (let tr2 = skip_spaces (tr_inc tr1)
            in if \<not> tok_is (tr_peek tr2) ''in'' then Some None
               else
                 (case for_start (skip_spaces (tr_inc tr2)) ob_init of
                    (None, _, _) \<Rightarrow> Some None
                  | (Some inclusive, tr3, start_ob) \<Rightarrow>
                      (let (tr4, end_ob) = for_end (skip_spaces tr3) ob_init
                       in Option.bind (ob_cstr start_ob) (\<lambda>s.
                          Option.bind (ob_cstr (ob_trim end_ob)) (\<lambda>e.
                          Some (Some (tr4, fold ob_str (range_for_pieces (t_text var_tok) s inclusive e) ob))))))))"

section \<open>The translation loop\<close>

text \<open>Every step moves forward over the same tokens.\<close>

definition forward :: "translator \<Rightarrow> translator \<Rightarrow> bool" where
  "forward tr tr' \<longleftrightarrow> tr_tokens tr' = tr_tokens tr \<and> tr_pos tr \<le> tr_pos tr'"

lemma forward_refl [simp]: "forward tr tr"
  by (simp add: forward_def)

lemma forward_trans: "forward a b \<Longrightarrow> forward b c \<Longrightarrow> forward a c"
  by (auto simp: forward_def)

lemma forward_inc [simp]: "forward tr (tr_inc tr)"
  by (simp add: forward_def tr_inc_def)

lemma forward_skip [simp]: "forward tr (skip_spaces tr)"
proof (induction tr rule: skip_spaces.induct)
  case (1 tr)
  then show ?case
    by (subst skip_spaces.simps) (auto intro: forward_trans [OF forward_inc])
qed

lemma forward_consume [simp]: "forward tr (snd (tr_consume tr))"
  by (simp add: tr_consume_def)

lemma forward_fn_params [simp]: "forward tr (fst (fn_params d tr ob))"
proof (induction d tr ob rule: fn_params.induct)
  case (1 d tr ob)
  then show ?case
    by (subst fn_params.simps) (auto simp: Let_def intro: forward_trans [OF forward_inc])
qed

lemma forward_fn_ret [simp]: "forward tr (fst (fn_ret tr ob))"
proof (induction tr ob rule: fn_ret.induct)
  case (1 tr ob)
  then show ?case
    by (subst fn_ret.simps) (auto simp: Let_def intro: forward_trans [OF forward_inc])
qed

lemma forward_use_loop [simp]: "forward tr (fst (use_loop tr ob))"
proof (induction tr ob rule: use_loop.induct)
  case (1 tr ob)
  then show ?case
    by (subst use_loop.simps) (auto simp: Let_def intro: forward_trans [OF forward_inc])
qed

lemma forward_for_start [simp]: "forward tr (fst (snd (for_start tr ob)))"
proof (induction tr ob rule: for_start.induct)
  case (1 tr ob)
  then show ?case
    by (subst for_start.simps) (auto simp: Let_def intro: forward_trans [OF forward_inc])
qed

lemma forward_for_end [simp]: "forward tr (fst (for_end tr ob))"
proof (induction tr ob rule: for_end.induct)
  case (1 tr ob)
  then show ?case
    by (subst for_end.simps) (auto simp: Let_def intro: forward_trans [OF forward_inc])
qed

lemma forward_fn:
  assumes "translate_fn tr ob = Some r"
  shows "forward (tr_inc tr) (fst r)"
proof -
  let ?a = "skip_spaces (tr_inc tr)"
  let ?b = "snd (tr_consume ?a)"
  let ?c = "skip_spaces ?b"
  let ?d = "fst (fn_params 1 (tr_inc ?c) (ob_char (CHR ''('') ob_init))"
  let ?e = "skip_spaces ?d"
  have b: "forward (tr_inc tr) ?b"
    by (rule forward_trans [OF forward_skip forward_consume])
  then have c: "forward (tr_inc tr) ?c"
    using forward_trans forward_skip by blast
  then have e: "forward (tr_inc tr) ?e"
    using forward_trans forward_skip forward_inc forward_fn_params by meson
  then have "forward (tr_inc tr) (fst (fn_ret (skip_spaces (tr_inc ?e)) ob_init))"
    using forward_trans forward_skip forward_inc forward_fn_ret by meson
  with e have "fn_ret_type ?e = Some (rt, tr5) \<Longrightarrow> forward (tr_inc tr) tr5" for rt tr5
    by (auto simp: fn_ret_type_def split_def Let_def split: if_splits)
  with b c assms show ?thesis
    unfolding translate_fn_def split_def Let_def by (auto split: if_splits bind_splits)
qed

lemma forward_use: "forward (tr_inc tr) (fst (translate_use tr ob))"
proof -
  have "forward (tr_inc tr) (tr_inc (skip_spaces (tr_inc tr)))"
    using forward_trans forward_skip forward_inc by blast
  moreover have "forward (tr_inc tr) (fst (use_loop (tr_inc (skip_spaces (tr_inc tr))) ob'))" for ob'
    using calculation forward_trans forward_use_loop by blast
  ultimately show ?thesis
    by (simp add: translate_use_def Let_def)
qed

lemma forward_decl: "forward (tr_inc tr) (fst (translate_decl p tr ob))"
proof -
  let ?a = "skip_spaces (tr_inc tr)"
  have a: "forward (tr_inc tr) ?a" "forward (tr_inc tr) (tr_inc ?a)"
    using forward_trans forward_skip forward_inc by blast+
  then have c: "forward (tr_inc tr) (skip_spaces (tr_inc (skip_spaces (tr_inc ?a))))" (is "forward _ ?c")
    using forward_trans forward_skip forward_inc by meson
  then have "forward (tr_inc tr) (fst (name_type p t ?c ob'))" for t ob'
    using forward_trans [OF c forward_inc] by (simp add: name_type_def Let_def split: option.split)
  with a show ?thesis
    by (simp add: translate_decl_def Let_def split: option.split)
qed

lemma forward_range:
  assumes "try_translate_for_range tr ob = Some (Some r)"
  shows "forward (tr_inc tr) (fst r)"
proof -
  let ?a = "skip_spaces (tr_inc (skip_spaces (tr_inc (skip_spaces (tr_inc tr)))))"
  have a: "forward (tr_inc tr) ?a"
    using forward_trans forward_skip forward_inc by meson
  then have "forward (tr_inc tr) (fst (for_end (skip_spaces (fst (snd (for_start ?a ob_init)))) ob_init))"
    using forward_trans forward_skip forward_for_start forward_for_end by meson
  then show ?thesis
    using assms by (auto simp: try_translate_for_range_def Let_def split_def split: if_splits option.splits bind_splits)
qed

lemma forward_less:
  "forward (tr_inc tr) tr' \<Longrightarrow> tr_pos tr < tr_count tr \<Longrightarrow> tr_count tr' - tr_pos tr' < tr_count tr - tr_pos tr"
  by (auto simp: forward_def tr_inc_def)

text \<open>One round of the loop.\<close>

definition translate_step :: "translator \<Rightarrow> out_buf \<Rightarrow> (translator \<times> out_buf) option" where
  "translate_step tr ob =
     (let t = tr_peek tr
      in if t_type t \<noteq> TOK_WORD then Some (tr_inc tr, ob_str (t_text t) ob)
         else if tok_is t ''use'' then Some (translate_use tr ob)
         else if tok_is t ''fn'' then translate_fn tr ob
         else if tok_is t ''let'' then Some (translate_let tr ob)
         else if tok_is t ''var'' then Some (translate_var tr ob)
         else if tok_is t ''null'' then Some (tr_inc tr, ob_str ''NULL'' ob)
         else if tok_is t ''loop'' then Some (tr_inc tr, ob_str ''while (1)'' ob)
         else if tok_is t ''for'' then
           map_option (\<lambda>r. case r of Some r \<Rightarrow> r | None \<Rightarrow> (tr_inc tr, ob_str (t_text t) ob))
             (try_translate_for_range tr ob)
         else Some (tr_inc tr, ob_str (alias_text t) ob))"

lemma forward_step: "translate_step tr ob = Some r \<Longrightarrow> forward (tr_inc tr) (fst r)"
  using forward_range [of tr ob] forward_fn [of tr ob r]
  by (auto simp: translate_step_def Let_def translate_let_def translate_var_def forward_use forward_decl
      split: option.splits if_splits)

function translate_tokens :: "translator \<Rightarrow> out_buf \<Rightarrow> (translator \<times> out_buf) option" where
  "translate_tokens tr ob =
     (if tr_pos tr < tr_count tr \<and> t_type (tr_peek tr) \<noteq> TOK_EOF
      then (case translate_step tr ob of None \<Rightarrow> None | Some (tr', ob') \<Rightarrow> translate_tokens tr' ob')
      else Some (tr, ob))"
  by pat_completeness auto
termination
proof (relation "measure (\<lambda>(tr, ob). tr_count tr - tr_pos tr)")
  fix tr ob x tr' ob'
  assume lt: "tr_pos tr < tr_count tr \<and> t_type (tr_peek tr) \<noteq> TOK_EOF"
    and x: "translate_step tr ob = Some x" and "(tr', ob') = x"
  then show "((tr', ob'), tr, ob) \<in> measure (\<lambda>(tr, ob). tr_count tr - tr_pos tr)"
    using forward_less [OF forward_step [OF x]] by auto
qed simp

declare translate_tokens.simps [simp del]

section \<open>Transpiling a source\<close>

definition has_substr :: "string \<Rightarrow> string \<Rightarrow> bool" where
  "has_substr pat s \<longleftrightarrow> list_ex (\<lambda>i. take (length pat) (drop i s) = pat) [0..<Suc (length s)]"

text \<open>The search for an include of \<open>s.h\<close>: the first token that is not blank after a \<open>use\<close>.\<close>

fun has_s_include :: "token list \<Rightarrow> bool" where
  "has_s_include [] = False"
| "has_s_include (t # ts) =
     (tok_is t ''use'' \<and>
        (case dropWhile (\<lambda>u. t_type u = TOK_SPACE) ts of [] \<Rightarrow> False | u # _ \<Rightarrow> has_substr ''s.h'' (t_text u))
      \<or> has_s_include ts)"

text \<open>The UTF-8 bytes of the dash in the banner.\<close>

definition banner :: string where
  "banner = ''/* Generated by sc (S language compiler) v0.1.0 '' @ [CHR 0xE2, CHR 0x80, CHR 0x94]
     @ '' DO NOT EDIT */'' @ [CHR 0x0A]"

definition push_all :: "token list \<Rightarrow> translator \<Rightarrow> translator" where
  "push_all ts tr = fold tr_push ts tr"

definition transpile_tokens :: "string \<Rightarrow> translator" where
  "transpile_tokens src =
     (let (ts, lf) = lex_all (lexer_start src)
      in tr_push (make_tok TOK_EOF [] (l_line lf) (l_col lf)) (push_all ts \<lparr>tr_tokens = [], tr_cap = 0, tr_pos = 0\<rparr>))"

definition transpile :: "string \<Rightarrow> string \<Rightarrow> out_buf option" where
  "transpile src filename =
     (let tr = transpile_tokens src
      in Option.bind (translate_tokens tr ob_init) (\<lambda>(tr', body).
           let out1 = fold ob_str [banner, ''/* Source: '', filename, '' */'' @ [CHR 0x0A, CHR 0x0A]] ob_init;
               out2 = (if \<not> has_s_include (tr_tokens tr) then ob_str (''#include <s.h>'' @ [CHR 0x0A]) out1 else out1)
           in map_option (\<lambda>b. ob_str b out2) (ob_cstr body)))"

section \<open>The buffer holds what was appended\<close>

text \<open>A buffer that takes strings up to their first zero, and what its clients rely on.\<close>

locale text_buffer =
  fixes ok :: "'b \<Rightarrow> bool"
    and content :: "'b \<Rightarrow> string"
    and put :: "string \<Rightarrow> 'b \<Rightarrow> 'b"
  assumes put_ok: "ok b \<Longrightarrow> ok (put s b)"
    and put_content: "ok b \<Longrightarrow> content (put s b) = content b @ xstrdup s"
begin

lemma puts_ok: "ok b \<Longrightarrow> ok (fold put ss b)"
  by (induction ss arbitrary: b) (auto intro: put_ok)

lemma puts_content: "ok b \<Longrightarrow> content (fold put ss b) = content b @ concat (map xstrdup ss)"
  by (induction ss arbitrary: b) (auto simp: put_ok put_content)

end

definition ob_text :: "out_buf \<Rightarrow> string" where
  "ob_text ob = take (ob_len ob) (ob_buf ob)"

definition ob_ok :: "out_buf \<Rightarrow> bool" where
  "ob_ok ob \<longleftrightarrow> length (ob_buf ob) = ob_cap ob \<and> ob_len ob < ob_cap ob \<and> NULc \<notin> set (ob_text ob)
     \<and> (ob_set ob \<longrightarrow> ob_buf ob ! ob_len ob = NULc)"

lemma ob_init_ok [simp]: "ob_ok ob_init" "ob_text ob_init = []" "\<not> ob_set ob_init"
  by (simp_all add: ob_ok_def ob_text_def ob_init_def)

lemma ob_grow_ok:
  "ob_ok ob \<Longrightarrow> ob_ok (ob_grow ob n) \<and> ob_text (ob_grow ob n) = ob_text ob \<and> ob_len (ob_grow ob n) = ob_len ob
     \<and> ob_len ob + n < ob_cap (ob_grow ob n) \<and> ob_set (ob_grow ob n) = ob_set ob"
proof (induction ob n rule: ob_grow.induct)
  case (1 ob n)
  let ?ob = "ob\<lparr>ob_cap := ob_cap ob * 2, ob_buf := ob_buf ob @ replicate (ob_cap ob) NULc\<rparr>"
  have ok: "ob_ok ?ob" "ob_text ?ob = ob_text ob"
    using "1.prems" by (auto simp: ob_ok_def ob_text_def nth_append)
  show ?case
  proof (cases "ob_len ob + n \<ge> ob_cap ob")
    case True
    have c: "0 < ob_cap ob" using "1.prems" by (simp add: ob_ok_def)
    with True have e: "ob_grow ob n = ob_grow ?ob n" by (subst ob_grow.simps) simp
    have "ob_len ?ob = ob_len ob" "ob_set ?ob = ob_set ob" by simp_all
    with "1.IH" True c ok show ?thesis unfolding e by metis
  next
    case False
    then have "ob_grow ob n = ob" by (subst ob_grow.simps) simp
    with False "1.prems" show ?thesis by simp
  qed
qed

lemma ob_write_ok:
  assumes "ob_ok ob" "ob_len ob + length s < ob_cap ob" "NULc \<notin> set s"
  shows "ob_ok (ob_write s ob) \<and> ob_text (ob_write s ob) = ob_text ob @ s \<and> ob_set (ob_write s ob)"
  using assms by (auto simp: ob_ok_def ob_text_def ob_write_def Let_def take_update_swap list_update_beyond)

lemma xstrdup_take: "take (length (xstrdup s)) s = xstrdup s"
  unfolding xstrdup_def by (rule takeWhile_eq_take [symmetric])

lemma xstrdup_no_zero [simp]: "NULc \<notin> set (xstrdup s)"
  by (auto simp: xstrdup_def dest: set_takeWhileD)

lemma ob_str_ok:
  "ob_ok ob \<Longrightarrow> ob_ok (ob_str s ob) \<and> ob_text (ob_str s ob) = ob_text ob @ xstrdup s \<and> ob_set (ob_str s ob)"
  using ob_grow_ok [of ob "length (xstrdup s) + 1"] ob_write_ok [of "ob_grow ob (length (xstrdup s) + 1)" "xstrdup s"]
  by (simp add: ob_str_def ob_append_def xstrdup_take)

lemma ob_char_ok:
  "ob_ok ob \<Longrightarrow> c \<noteq> NULc \<Longrightarrow> ob_ok (ob_char c ob) \<and> ob_text (ob_char c ob) = ob_text ob @ [c] \<and> ob_set (ob_char c ob)"
  using ob_grow_ok [of ob 2] ob_write_ok [of "ob_grow ob 2" "[c]"] by (simp add: ob_char_def)

lemma ob_cstr_text: "ob_ok ob \<Longrightarrow> ob_set ob \<Longrightarrow> ob_cstr ob = Some (ob_text ob)"
proof -
  assume ok: "ob_ok ob" "ob_set ob"
  then have "ob_buf ob = ob_text ob @ NULc # drop (Suc (ob_len ob)) (ob_buf ob)"
    by (metis ob_ok_def ob_text_def append_take_drop_id Cons_nth_drop_Suc)
  then have "xstrdup (ob_buf ob) = xstrdup (ob_text ob)"
    by (metis lex_zero_truncates)
  with ok show ?thesis
    by (simp add: ob_cstr_def xstrdup_id ob_ok_def)
qed

interpretation ob: text_buffer ob_ok ob_text ob_str
  by unfold_locales (simp_all add: ob_str_ok)

lemma ob_puts_set: "ob_ok b \<Longrightarrow> ss \<noteq> [] \<Longrightarrow> ob_set (fold ob_str ss b)"
proof (induction ss arbitrary: b rule: rev_induct)
  case (snoc s ss)
  then show ?case using ob_str_ok [OF ob.puts_ok] by simp
qed simp

section \<open>C without S words passes unchanged\<close>

definition plain :: "token \<Rightarrow> bool" where
  "plain t \<longleftrightarrow> t_type t \<noteq> TOK_EOF \<and>
     (t_type t = TOK_WORD \<longrightarrow>
        t_text t \<notin> {''use'', ''fn'', ''let'', ''var'', ''null'', ''loop'', ''for''} \<and> translate_type (t_text t) = None)"

lemma translate_step_plain:
  "plain (tr_peek tr) \<Longrightarrow> translate_step tr ob = Some (tr_inc tr, ob_str (t_text (tr_peek tr)) ob)"
  by (auto simp: plain_def translate_step_def tok_is_def alias_text_def Let_def)

lemma translate_plain:
  assumes "tr_tokens tr = ts @ [e]" "t_type e = TOK_EOF" "\<forall>t \<in> set ts. plain t" "tr_pos tr \<le> length ts"
  shows "\<exists>tr'. translate_tokens tr ob = Some (tr', fold ob_str (map t_text (drop (tr_pos tr) ts)) ob)"
  using assms
proof (induction "length ts - tr_pos tr" arbitrary: tr ob rule: less_induct)
  case less
  show ?case
  proof (cases "tr_pos tr < length ts")
    case True
    then have p: "tr_peek tr = ts ! tr_pos tr" "tr_pos tr < tr_count tr"
      using less.prems(1) by (simp_all add: tr_peek_def nth_append)
    then have pl: "plain (tr_peek tr)" using less.prems(3) True by simp
    then have "translate_tokens tr ob = translate_tokens (tr_inc tr) (ob_str (t_text (ts ! tr_pos tr)) ob)"
      using p translate_step_plain [OF pl, of ob] by (subst translate_tokens.simps) (auto simp: plain_def)
    moreover have "drop (tr_pos tr) ts = ts ! tr_pos tr # drop (tr_pos (tr_inc tr)) ts"
      using True by (simp add: tr_inc_def Cons_nth_drop_Suc)
    moreover have "\<exists>tr'. translate_tokens (tr_inc tr) ob' = Some (tr', fold ob_str (map t_text (drop (tr_pos (tr_inc tr)) ts)) ob')" for ob'
      using less.prems True by (intro less.hyps) (simp_all add: tr_inc_def)
    ultimately show ?thesis by simp
  next
    case False
    then have "tr_peek tr = e"
      using less.prems by (simp add: tr_peek_def nth_append)
    with False less.prems show ?thesis
      by (subst translate_tokens.simps) simp
  qed
qed

lemma push_all_tokens: "tr_tokens (push_all ts tr) = tr_tokens tr @ ts \<and> tr_pos (push_all ts tr) = tr_pos tr"
  by (induction ts arbitrary: tr) (auto simp: push_all_def tr_push_def Let_def)

lemma transpile_tokens_eq:
  "\<exists>e. t_type e = TOK_EOF \<and> tr_tokens (transpile_tokens src) = lex src @ [e] \<and> tr_pos (transpile_tokens src) = 0"
  using push_all_tokens [of "lex src" "\<lparr>tr_tokens = [], tr_cap = 0, tr_pos = 0\<rparr>"]
  by (auto simp: transpile_tokens_def lex_def split_def Let_def tr_push_def make_tok_def)

lemma no_use: "\<forall>t \<in> set ts. \<not> tok_is t ''use'' \<Longrightarrow> \<not> has_s_include ts"
  by (induction ts) auto

text \<open>
  C15: A C source in which no S keyword and no S type name stands as a word passes through the
  compiler unchanged: the output is the banner, the name of the source, the include of \<open>s.h\<close>
  and then the source, character by character, whatever its length (the buffers grow).
\<close>

theorem transpile_keeps_c:
  assumes "src \<noteq> []" "NULc \<notin> set src" "NULc \<notin> set filename" "\<forall>t \<in> set (lex src). plain t"
  shows "Option.bind (transpile src filename) ob_cstr =
    Some (banner @ ''/* Source: '' @ filename @ '' */'' @ [CHR 0x0A, CHR 0x0A] @ ''#include <s.h>'' @ [CHR 0x0A] @ src)"
proof -
  obtain e where e: "t_type e = TOK_EOF" "tr_tokens (transpile_tokens src) = lex src @ [e]" "tr_pos (transpile_tokens src) = 0"
    using transpile_tokens_eq by blast
  have c: "concat (map t_text (lex src)) = src"
    using lex_all_exact [of "lexer_start src"] assms(2) by (simp add: lex_def lexer_start_def)
  then have "set (concat (map t_text (lex src))) = set src" by (simp only:)
  then have nz: "map xstrdup (map t_text (lex src)) = map t_text (lex src)"
    using assms(2) by (auto simp: xstrdup_id)
  let ?body = "fold ob_str (map t_text (lex src)) ob_init"
  obtain tr' where t: "translate_tokens (transpile_tokens src) ob_init = Some (tr', ?body)"
    using translate_plain [OF e(2) e(1) assms(4), of ob_init] e(3) by auto
  have "lex src \<noteq> []" using c assms(1) by auto
  then have b: "ob_cstr ?body = Some src"
    using ob_cstr_text [OF ob.puts_ok [OF ob_init_ok(1)]] ob_puts_set [OF ob_init_ok(1), of "map t_text (lex src)"]
      ob.puts_content [OF ob_init_ok(1), of "map t_text (lex src)"] by (simp only: nz c) simp
  have s: "\<not> has_s_include (lex src @ [e])"
    using assms(4) e(1) by (intro no_use) (auto simp: plain_def tok_is_def)
  let ?pre = "[banner, ''/* Source: '', filename, '' */'' @ [CHR 0x0A, CHR 0x0A], ''#include <s.h>'' @ [CHR 0x0A], src]"
  have "transpile src filename = Some (fold ob_str ?pre ob_init)"
    using t b s e(2) by (simp add: transpile_def Let_def)
  moreover have "NULc \<notin> set banner" by (simp add: banner_def)
  ultimately show ?thesis
    using assms ob_cstr_text [OF ob.puts_ok [OF ob_init_ok(1), of ?pre]] ob_puts_set [of ob_init ?pre]
      ob.puts_content [of ob_init ?pre]
    by (simp add: xstrdup_id)
qed

theorem transpile_keeps_c_witness:
  "Option.bind (transpile ''x=1;'' ''a.s'') ob_cstr =
    Some (banner @ ''/* Source: a.s */'' @ [CHR 0x0A, CHR 0x0A] @ ''#include <s.h>'' @ [CHR 0x0A] @ ''x=1;'')"
proof -
  have "\<forall>t \<in> set (lex ''x=1;''). plain t" by code_simp
  then show ?thesis using transpile_keeps_c [of "''x=1;''" "''a.s''"] by simp
qed

section \<open>Range loops\<close>

definition ahead :: "translator \<Rightarrow> token list \<Rightarrow> bool" where
  "ahead tr ts \<longleftrightarrow> drop (tr_pos tr) (tr_tokens tr) = ts"

lemma ahead_Cons:
  assumes "ahead tr (t # ts)"
  shows "tr_peek tr = t" "tr_pos tr < tr_count tr" "ahead (tr_inc tr) ts"
proof -
  have d: "drop (tr_pos tr) (tr_tokens tr) = t # ts" using assms by (simp add: ahead_def)
  then show lt: "tr_pos tr < tr_count tr" by (cases "tr_pos tr < tr_count tr") auto
  show "tr_peek tr = t" using d lt by (simp add: tr_peek_def) (metis hd_drop_conv_nth list.sel(1))
  show "ahead (tr_inc tr) ts"
    using d by (simp add: ahead_def tr_inc_def) (metis drop_Suc list.sel(3) tl_drop)
qed

lemma skip_ahead:
  "ahead tr (t # ts) \<Longrightarrow> t_type t \<noteq> TOK_SPACE \<Longrightarrow> skip_spaces tr = tr"
  "ahead tr (sp # t # ts) \<Longrightarrow> t_type sp = TOK_SPACE \<Longrightarrow> t_type t \<noteq> TOK_SPACE \<Longrightarrow> skip_spaces tr = tr_inc tr"
proof -
  show one: "skip_spaces tr = tr" if "ahead tr (t # ts)" "t_type t \<noteq> TOK_SPACE" for tr t ts
    using ahead_Cons [OF that(1)] that(2) by (subst skip_spaces.simps) simp
  show "skip_spaces tr = tr_inc tr" if "ahead tr (sp # t # ts)" "t_type sp = TOK_SPACE" "t_type t \<noteq> TOK_SPACE"
    using ahead_Cons [OF that(1)] that(2) one [OF _ that(3)] by (subst skip_spaces.simps) simp
qed

fun skip_n :: "nat \<Rightarrow> translator \<Rightarrow> translator" where
  "skip_n 0 tr = tr"
| "skip_n (Suc n) tr = skip_n n (tr_inc tr)"

lemma skip_n_add: "skip_n (m + n) tr = skip_n n (skip_n m tr)"
  by (induction m arbitrary: tr) simp_all

lemma skip_n_inc: "skip_n n (tr_inc tr) = tr_inc (skip_n n tr)"
  by (induction n arbitrary: tr) simp_all

lemma ahead_skip_n: "ahead tr (us @ ts) \<Longrightarrow> ahead (skip_n (length us) tr) ts"
  by (induction us arbitrary: tr) (auto dest: ahead_Cons(3))

lemma for_start_run:
  assumes "ahead tr (ss @ r # rest)" "t_type r = (if incl then TOK_DOTDOTEQ else TOK_DOTDOT)"
    and "\<forall>t \<in> set ss. t_type t \<notin> {TOK_DOTDOT, TOK_DOTDOTEQ, TOK_NEWLINE, TOK_EOF}"
  shows "for_start tr ob = (Some incl, tr_inc (skip_n (length ss) tr), fold ob_str (map t_text ss) ob)"
  using assms
proof (induction ss arbitrary: tr ob)
  case Nil
  then show ?case
    using ahead_Cons [of tr r rest] by (subst for_start.simps) (auto simp: Let_def)
next
  case (Cons t ss)
  have a: "tr_peek tr = t" "tr_pos tr < tr_count tr" "ahead (tr_inc tr) (ss @ r # rest)"
    using ahead_Cons [of tr t "ss @ r # rest"] Cons.prems(1) by simp_all
  show ?case
    using a Cons.IH [OF a(3) Cons.prems(2)] Cons.prems(3) by (subst for_start.simps) (simp add: Let_def)
qed

lemma for_end_run:
  assumes "ahead tr (es @ b # rest)" "tok_is_punct b (CHR ''{'')"
    and "\<forall>t \<in> set es. \<not> tok_is_punct t (CHR ''{'') \<and> t_type t \<notin> {TOK_NEWLINE, TOK_EOF}"
  shows "for_end tr ob = (skip_n (length es) tr, fold ob_str (map t_text es) ob)"
  using assms
proof (induction es arbitrary: tr ob)
  case Nil
  then show ?case
    using ahead_Cons [of tr b rest] by (subst for_end.simps) (auto simp: Let_def)
next
  case (Cons t es)
  have a: "tr_peek tr = t" "tr_pos tr < tr_count tr" "ahead (tr_inc tr) (es @ b # rest)"
    using ahead_Cons [of tr t "es @ b # rest"] Cons.prems(1) by simp_all
  show ?case
    using a Cons.IH [OF a(3) Cons.prems(2)] Cons.prems(3) by (subst for_end.simps) (simp add: Let_def)
qed

definition trim_end :: "string \<Rightarrow> string" where
  "trim_end s = rev (dropWhile (\<lambda>c. c = CHR '' '' \<or> c = CHR 0x09) (rev s))"

lemma ob_trim_ok:
  "ob_ok ob \<Longrightarrow> ob_set ob \<Longrightarrow> ob_ok (ob_trim ob) \<and> ob_set (ob_trim ob) \<and> ob_text (ob_trim ob) = trim_end (ob_text ob)"
proof (induction ob rule: ob_trim.induct)
  case (1 ob)
  let ?c = "ob_buf ob ! (ob_len ob - 1)"
  let ?ob = "ob\<lparr>ob_len := ob_len ob - 1, ob_buf := (ob_buf ob)[ob_len ob - 1 := NULc]\<rparr>"
  show ?case
  proof (cases "0 < ob_len ob \<and> (?c = CHR '' '' \<or> ?c = CHR 0x09)")
    case True
    then obtain k where k: "ob_len ob = Suc k" by (cases "ob_len ob") auto
    have lt: "k < length (ob_buf ob)" using "1.prems" k by (simp add: ob_ok_def)
    have t: "ob_text ob = ob_text ?ob @ [?c]"
      using k lt by (simp add: ob_text_def take_Suc_conv_app_nth take_update_swap list_update_beyond)
    then have "ob_ok ?ob"
      using "1.prems" k lt by (auto simp: ob_ok_def)
    then have "ob_ok (ob_trim ?ob) \<and> ob_set (ob_trim ?ob) \<and> ob_text (ob_trim ?ob) = trim_end (ob_text ?ob)"
      using "1.IH" [OF True] "1.prems" by simp
    moreover have "ob_trim ob = ob_trim ?ob"
      using True by (subst ob_trim.simps) simp
    moreover have "trim_end (ob_text ob) = trim_end (ob_text ?ob)"
      using t True by (simp add: trim_end_def)
    ultimately show ?thesis by simp
  next
    case False
    then have e: "ob_trim ob = ob" by (subst ob_trim.simps) auto
    have "trim_end (ob_text ob) = ob_text ob"
    proof (cases "ob_len ob")
      case (Suc k)
      then have "ob_text ob = take k (ob_buf ob) @ [?c]"
        using "1.prems" by (simp add: ob_ok_def ob_text_def take_Suc_conv_app_nth)
      with False Suc show ?thesis by (simp add: trim_end_def)
    qed (simp add: ob_text_def trim_end_def)
    with e "1.prems" show ?thesis by simp
  qed
qed

lemma puts_cstr:
  assumes "ts \<noteq> []"
  shows "ob_cstr (fold ob_str (map t_text ts) ob_init) = Some (concat (map (xstrdup \<circ> t_text) ts))"
    and "ob_cstr (ob_trim (fold ob_str (map t_text ts) ob_init)) = Some (trim_end (concat (map (xstrdup \<circ> t_text) ts)))"
proof -
  let ?b = "fold ob_str (map t_text ts) ob_init"
  have b: "ob_ok ?b" "ob_set ?b" "ob_text ?b = concat (map (xstrdup \<circ> t_text) ts)"
    using assms ob.puts_ok [OF ob_init_ok(1)] ob_puts_set [OF ob_init_ok(1)]
      ob.puts_content [OF ob_init_ok(1), of "map t_text ts"] by simp_all
  then show "ob_cstr ?b = Some (concat (map (xstrdup \<circ> t_text) ts))"
    by (simp add: ob_cstr_text)
  show "ob_cstr (ob_trim ?b) = Some (trim_end (concat (map (xstrdup \<circ> t_text) ts)))"
    using ob_trim_ok [OF b(1,2)] b(3) by (simp add: ob_cstr_text)
qed

text \<open>The tokens of \<open>for v in S..E {\<close>, with single blanks around the words.\<close>

definition range_header :: "token \<Rightarrow> token \<Rightarrow> token list \<Rightarrow> bool \<Rightarrow> token list \<Rightarrow> token list \<Rightarrow> bool" where
  "range_header sp v ss incl es ts \<longleftrightarrow> (\<exists>f i r b rest.
     ts = [f, sp, v, sp, i, sp] @ ss @ [r] @ es @ [b] @ rest \<and> t_type sp = TOK_SPACE \<and> t_type v = TOK_WORD
     \<and> tok_is i ''in'' \<and> t_type r = (if incl then TOK_DOTDOTEQ else TOK_DOTDOT) \<and> tok_is_punct b (CHR ''{'')
     \<and> ss \<noteq> [] \<and> t_type (hd ss) \<noteq> TOK_SPACE \<and> (\<forall>t \<in> set ss. t_type t \<notin> {TOK_DOTDOT, TOK_DOTDOTEQ, TOK_NEWLINE, TOK_EOF})
     \<and> es \<noteq> [] \<and> t_type (hd es) \<noteq> TOK_SPACE
     \<and> (\<forall>t \<in> set es. \<not> tok_is_punct t (CHR ''{'') \<and> t_type t \<notin> {TOK_NEWLINE, TOK_EOF}))"

lemma range_run:
  assumes "ahead tr ts" "range_header sp v ss incl es ts"
  shows "try_translate_for_range tr ob = Some (Some (skip_n (length ss + length es + 7) tr,
    fold ob_str (range_for_pieces (t_text v) (concat (map (xstrdup \<circ> t_text) ss)) incl
      (trim_end (concat (map (xstrdup \<circ> t_text) es)))) ob))"
proof -
  obtain f i r b rest where ts: "ts = f # sp # v # sp # i # sp # ss @ r # es @ b # rest"
    and h: "t_type sp = TOK_SPACE" "t_type v = TOK_WORD" "tok_is i ''in''" "t_type r = (if incl then TOK_DOTDOTEQ else TOK_DOTDOT)"
      "tok_is_punct b (CHR ''{'')" "ss \<noteq> []" "t_type (hd ss) \<noteq> TOK_SPACE" "es \<noteq> []" "t_type (hd es) \<noteq> TOK_SPACE"
    and sset: "\<forall>t \<in> set ss. t_type t \<notin> {TOK_DOTDOT, TOK_DOTDOTEQ, TOK_NEWLINE, TOK_EOF}"
    and eset: "\<forall>t \<in> set es. \<not> tok_is_punct t (CHR ''{'') \<and> t_type t \<notin> {TOK_NEWLINE, TOK_EOF}"
    using assms(2) by (auto simp: range_header_def)
  obtain s0 ss' where ss: "ss = s0 # ss'" using h(6) by (cases ss) auto
  obtain e0 es' where es: "es = e0 # es'" using h(8) by (cases es) auto
  have i: "t_type i = TOK_WORD" using h(3) by (simp add: tok_is_def)
  note a0 = assms(1) [unfolded ts]
  note a1 = ahead_Cons(3) [OF a0]
  note a2 = ahead_Cons(3) [OF a1]
  note a3 = ahead_Cons(3) [OF a2]
  note a4 = ahead_Cons(3) [OF a3]
  note a5 = ahead_Cons(3) [OF a4]
  note a6 = ahead_Cons(3) [OF a5]
  have k1: "skip_spaces (tr_inc tr) = tr_inc (tr_inc tr)"
    by (rule skip_ahead(2) [OF a1]) (simp_all add: h)
  have k2: "skip_spaces (tr_inc (tr_inc (tr_inc tr))) = tr_inc (tr_inc (tr_inc (tr_inc tr)))"
    by (rule skip_ahead(2) [OF a3]) (simp_all add: h i)
  let ?t6 = "tr_inc (tr_inc (tr_inc (tr_inc (tr_inc (tr_inc tr)))))"
  have k3: "skip_spaces (tr_inc (tr_inc (tr_inc (tr_inc (tr_inc tr))))) = ?t6"
    using a5 h(1,7) unfolding ss by (intro skip_ahead(2)) simp_all
  let ?t7 = "tr_inc (skip_n (length ss) ?t6)"
  have fs: "for_start ?t6 ob_init = (Some incl, ?t7, fold ob_str (map t_text ss) ob_init)"
    by (rule for_start_run [OF a6 h(4) sset])
  have a7: "ahead ?t7 (es @ b # rest)"
    by (rule ahead_Cons(3) [OF ahead_skip_n [OF a6]])
  have k4: "skip_spaces ?t7 = ?t7"
    using a7 h(9) unfolding es by (intro skip_ahead(1)) simp_all
  have fe: "for_end ?t7 ob_init = (skip_n (length es) ?t7, fold ob_str (map t_text es) ob_init)"
    by (rule for_end_run [OF a7 h(5) eset])
  have n: "skip_n (length ss + length es + 7) tr = skip_n (length es) ?t7"
    using skip_n_add [of "length ss + 7" "length es" tr] skip_n_add [of "6" "length ss" tr] skip_n_inc
    by (simp add: numeral_eq_Suc)
  show ?thesis
    unfolding try_translate_for_range_def Let_def k1 k2 k3 ahead_Cons(1) [OF a2] ahead_Cons(1) [OF a4] fs prod.case
      option.case k4 fe n
    using h(2,3) puts_cstr [OF h(6)] puts_cstr [OF h(8)] by simp
qed

text \<open>
  A range loop \<open>for v in S..E {\<close> (or with \<open>..=\<close>) becomes
  \<open>for (int v = S; v < E; v++)\<close> (or with \<open><=\<close>): the texts of the tokens of both expressions are
  copied, blanks at the end of the second dropped, nothing else is written, and the
  translation goes on at the brace.
\<close>

theorem range_for_translated:
  assumes "ob_ok ob" "ahead tr ts" "range_header sp v ss incl es ts"
    and "\<forall>t \<in> set (v # ss @ es). NULc \<notin> set (t_text t)"
  shows "\<exists>tr' ob'. try_translate_for_range tr ob = Some (Some (tr', ob')) \<and> tok_is_punct (tr_peek tr') (CHR ''{'')
    \<and> ob_text ob' = ob_text ob @ ''for (int '' @ t_text v @ '' = '' @ concat (map t_text ss) @ ''; '' @ t_text v
        @ (if incl then '' <= '' else '' < '') @ trim_end (concat (map t_text es)) @ ''; '' @ t_text v @ ''++)''"
proof -
  let ?S = "concat (map t_text ss)" and ?E = "trim_end (concat (map t_text es))"
  have x: "map (xstrdup \<circ> t_text) ss = map t_text ss" "map (xstrdup \<circ> t_text) es = map t_text es" "xstrdup (t_text v) = t_text v"
    using assms(4) by (auto simp: xstrdup_id)
  have "NULc \<notin> set ?S" "NULc \<notin> set ?E"
    using assms(4) by (auto simp: trim_end_def dest: set_dropWhileD)
  then have "ob_text (fold ob_str (range_for_pieces (t_text v) ?S incl ?E) ob) =
      ob_text ob @ concat (range_for_pieces (t_text v) ?S incl ?E)"
    using ob.puts_content [OF assms(1), of "range_for_pieces (t_text v) ?S incl ?E"] x(3)
    by (simp add: range_for_pieces_def xstrdup_id del: ob.puts_content)
  moreover have "tok_is_punct (tr_peek (skip_n (length ss + length es + 7) tr)) (CHR ''{'')"
  proof -
    obtain us b rest where "ts = us @ b # rest" "length us = length ss + length es + 7" "tok_is_punct b (CHR ''{'')"
    proof -
      obtain f i r b rest where "ts = ([f, sp, v, sp, i, sp] @ ss @ [r] @ es) @ b # rest" "tok_is_punct b (CHR ''{'')"
        using assms(3) by (auto simp: range_header_def)
      then show thesis by (intro that [of "[f, sp, v, sp, i, sp] @ ss @ [r] @ es" b rest]) simp_all
    qed
    then show ?thesis
      using ahead_Cons(1) [OF ahead_skip_n, of tr us b rest] assms(2) by simp
  qed
  ultimately show ?thesis
    using range_run [OF assms(2,3), of ob] by (simp add: x range_for_pieces_def)
qed

definition tok :: "TokType \<Rightarrow> string \<Rightarrow> token" where
  "tok t s = make_tok t s 1 1"

theorem range_for_translated_witness:
  "\<exists>tr' ob'. try_translate_for_range
      \<lparr>tr_tokens = [tok TOK_WORD ''for'', tok TOK_SPACE '' '', tok TOK_WORD ''i'', tok TOK_SPACE '' '', tok TOK_WORD ''in'',
         tok TOK_SPACE '' '', tok TOK_NUMBER ''0'', tok TOK_DOTDOT ''..'', tok TOK_WORD ''n'', tok TOK_SPACE '' '',
         tok TOK_PUNCT ''{''], tr_cap = 256, tr_pos = 0\<rparr> ob_init = Some (Some (tr', ob'))
    \<and> tok_is_punct (tr_peek tr') (CHR ''{'') \<and> ob_text ob' = ''for (int i = 0; i < n; i++)''"
proof -
  let ?ts = "[tok TOK_WORD ''for'', tok TOK_SPACE '' '', tok TOK_WORD ''i'', tok TOK_SPACE '' '', tok TOK_WORD ''in'',
         tok TOK_SPACE '' '', tok TOK_NUMBER ''0'', tok TOK_DOTDOT ''..'', tok TOK_WORD ''n'', tok TOK_SPACE '' '',
         tok TOK_PUNCT ''{'']"
  let ?ss = "[tok TOK_NUMBER ''0'']" and ?es = "[tok TOK_WORD ''n'', tok TOK_SPACE '' '']"
  note d = tok_def make_tok_def xstrdup_def tok_is_def tok_is_punct_def first_char_def
  have h: "range_header (tok TOK_SPACE '' '') (tok TOK_WORD ''i'') ?ss False ?es ?ts"
    unfolding range_header_def
    by (rule exI [of _ "tok TOK_WORD ''for''"], rule exI [of _ "tok TOK_WORD ''in''"], rule exI [of _ "tok TOK_DOTDOT ''..''"],
        rule exI [of _ "tok TOK_PUNCT ''{''"], rule exI [of _ "[]"]) (simp add: d)
  have e: "concat (map t_text ?ss) = ''0''" "trim_end (concat (map t_text ?es)) = ''n''" "t_text (tok TOK_WORD ''i'') = ''i''"
    by (simp_all add: d trim_end_def)
  have a: "ahead \<lparr>tr_tokens = ?ts, tr_cap = 256, tr_pos = 0\<rparr> ?ts" by (simp add: ahead_def)
  show ?thesis
    using range_for_translated [OF ob_init_ok(1) a h] unfolding e by (simp add: d)
qed

section \<open>Where the compiler errs\<close>

text \<open>
  The search for an existing include of \<open>s.h\<close> looks at one token. After \<open>use <s.h>\<close> that token
  is the bracket, so the header is included again; and every quoted header whose name
  contains \<open>s.h\<close> counts, so with \<open>use "utils.h"\<close> the header is left out.
\<close>

theorem s_include_missed: "\<not> has_s_include (lex ''use <s.h>'')"
  by code_simp

theorem s_include_mistaken: "has_s_include (lex (''use '' @ [CHR 0x22] @ ''utils.h'' @ [CHR 0x22]))"
  by code_simp

text \<open>An empty source leaves the body unwritten, and the compiler reads it as a string.\<close>

theorem transpile_empty: "transpile [] filename = None"
proof -
  obtain e where e: "t_type e = TOK_EOF" "tr_tokens (transpile_tokens []) = lex [] @ [e]" "tr_pos (transpile_tokens []) = 0"
    using transpile_tokens_eq by blast
  have l: "lex [] = []" by (simp add: lex_def lex_all_end lexer_start_def)
  obtain tr' where "translate_tokens (transpile_tokens []) ob_init = Some (tr', ob_init)"
    using translate_plain [OF e(2) e(1), of ob_init] e(3) l by auto
  then show ?thesis
    by (simp add: transpile_def Let_def ob_cstr_def)
qed

section \<open>The command line\<close>

record cli =
  input_path :: "string option"
  output_bin :: "string option"
  output_c :: "string option"
  emit_c :: bool

text \<open>Usage and exit code, the version, an error exit, or the options to run with.\<close>

datatype cli_result = Usage nat | Version | Die string | Run cli

fun parse_args :: "string list \<Rightarrow> cli \<Rightarrow> cli_result" where
  "parse_args [] c = (if input_path c = None then Usage 1 else Run c)"
| "parse_args (a # as) c =
     (if a = ''-h'' \<or> a = ''--help'' then Usage 0
      else if a = ''--version'' then Version
      else if a = ''--emit-c'' then parse_args as (c\<lparr>emit_c := True\<rparr>)
      else if a = ''-o'' then
        (case as of [] \<Rightarrow> Die ''-o requires an argument'' | b # bs \<Rightarrow> parse_args bs (c\<lparr>output_bin := Some b\<rparr>))
      else if a = ''-C'' then
        (case as of [] \<Rightarrow> Die ''-C requires an argument'' | b # bs \<Rightarrow> parse_args bs (c\<lparr>output_c := Some b\<rparr>))
      else if first_char a = CHR ''-'' then Usage 1
      else parse_args as (c\<lparr>input_path := Some a\<rparr>))"

definition sc_args :: "string list \<Rightarrow> cli_result" where
  "sc_args argv =
     (if length argv < 2 then Usage 1
      else parse_args (tl argv) \<lparr>input_path = None, output_bin = None, output_c = None, emit_c = False\<rparr>)"

text \<open>The name of the binary: the option, or the source without its extension, cut to 511 characters.\<close>

definition last_index :: "char \<Rightarrow> string \<Rightarrow> nat option" where
  "last_index c s = (if c \<in> set s then Some (length s - 1 - length (takeWhile (\<lambda>x. x \<noteq> c) (rev s))) else None)"

definition bin_name :: "string option \<Rightarrow> string \<Rightarrow> string" where
  "bin_name out inp =
     (case out of Some b \<Rightarrow> take 511 b
      | None \<Rightarrow>
          (let n = take 511 inp
           in case last_index (CHR ''.'') n of
                None \<Rightarrow> n
              | Some i \<Rightarrow> if drop i n = ''.s'' then take i n else n))"

definition sc_dir :: "string \<Rightarrow> string" where
  "sc_dir argv0 =
     (let n = take 511 argv0 in case last_index (CHR ''/'') n of Some i \<Rightarrow> take i n | None \<Rightarrow> ''.'')"

theorem bin_name_strips: "length n < 510 \<Longrightarrow> bin_name None (n @ ''.s'') = n"
  by (simp add: bin_name_def last_index_def)

end
