(* ===== verification/Kindle.thy ===== *)
theory Kindle
  imports Ember_Prelude
begin

text \<open>
  The init system, \<^verbatim>\<open>src/userspace/init/kindle.c\<close>: parsing of service files, the dependency test, starting
  and supervising services, and the handler for terminated children. The operating system is
  the environment of a step relation: \<open>fork\<close> gives a process number not in use or fails, processes
  terminate at any time, and the handler interrupts the main program between any two of its steps,
  also between \<open>fork\<close> and the statement that records the process number. A C string is a list
  without its terminating zero.
\<close>

section \<open>Service descriptors\<close>

definition MAX_SERVICES :: nat where [kconst]: "MAX_SERVICES = 64"
definition NAME_MAX_LEN :: nat where [kconst]: "NAME_MAX_LEN = 64"
definition EXEC_MAX_LEN :: nat where [kconst]: "EXEC_MAX_LEN = 256"
definition DEP_MAX :: nat where [kconst]: "DEP_MAX = 8"

datatype restart_t = RESTART_NEVER | RESTART_ALWAYS | RESTART_ON_FAIL
datatype svc_state = SVC_STOPPED | SVC_STARTING | SVC_RUNNING | SVC_FAILED

record service =
  sv_name :: string
  sv_exec :: string
  sv_restart :: restart_t
  sv_depends :: "string list"
  sv_pid :: int
  sv_state :: svc_state
  sv_restarts :: nat

definition service_zero :: service where
  "service_zero = \<lparr>sv_name = [], sv_exec = [], sv_restart = RESTART_NEVER, sv_depends = [], sv_pid = 0,
     sv_state = SVC_STOPPED, sv_restarts = 0\<rparr>"

section \<open>Parsing a service file\<close>

text \<open>\<open>fgets\<close> with a buffer of \<open>n + 1\<close> bytes: the line up to its newline, at most \<open>n\<close> characters.\<close>

fun fgets_line :: "nat \<Rightarrow> string \<Rightarrow> string \<times> string" where
  "fgets_line 0 cs = ([], cs)"
| "fgets_line (Suc n) [] = ([], [])"
| "fgets_line (Suc n) (c # cs) =
     (if c = CHR 0x0A then ([c], cs) else (case fgets_line n cs of (l, r) \<Rightarrow> (c # l, r)))"

lemma fgets_rest: "length (snd (fgets_line n cs)) \<le> length cs"
  by (induction n cs rule: fgets_line.induct) (auto split: prod.splits)

lemma fgets_shorter: "cs \<noteq> [] \<Longrightarrow> fgets_line (Suc n) cs = (l, r) \<Longrightarrow> length r < length cs"
  using fgets_rest [of n "tl cs"] by (cases cs) (auto split: if_splits prod.splits)

lemma fgets_511: "cs \<noteq> [] \<Longrightarrow> fgets_line 511 cs = (l, r) \<Longrightarrow> length r < length cs"
  using fgets_shorter [of cs 510 l r] by simp

definition blank :: "char \<Rightarrow> bool" where
  "blank c \<longleftrightarrow> c = CHR '' '' \<or> c = CHR 0x09"

definition strip_eol :: "string \<Rightarrow> string" where
  "strip_eol l = rev (dropWhile (\<lambda>c. c = CHR 0x0A \<or> c = CHR 0x0D) (rev l))"

text \<open>One key and its value.\<close>

definition apply_key :: "string \<Rightarrow> string \<Rightarrow> service \<Rightarrow> service" where
  "apply_key key val sv =
     (if key = ''name'' then sv\<lparr>sv_name := take (NAME_MAX_LEN - 1) val\<rparr>
      else if key = ''exec'' then sv\<lparr>sv_exec := take (EXEC_MAX_LEN - 1) val\<rparr>
      else if key = ''restart'' then
        sv\<lparr>sv_restart := (if val = ''always'' then RESTART_ALWAYS else if val = ''on-fail'' then RESTART_ON_FAIL else RESTART_NEVER)\<rparr>
      else if key = ''depends'' \<and> length (sv_depends sv) < DEP_MAX then
        sv\<lparr>sv_depends := sv_depends sv @ [take (NAME_MAX_LEN - 1) val]\<rparr>
      else sv)"

definition parse_line :: "string \<Rightarrow> service \<Rightarrow> service" where
  "parse_line raw sv =
     (let l = strip_eol (takeWhile (\<lambda>c. c \<noteq> CHR 0x00) raw)
      in if l = [] \<or> hd l = CHR ''#'' then sv
         else if CHR ''='' \<notin> set l then sv
         else apply_key (dropWhile blank (takeWhile (\<lambda>c. c \<noteq> CHR ''='') l)) (dropWhile blank (tl (dropWhile (\<lambda>c. c \<noteq> CHR ''='') l))) sv)"

function parse_lines :: "string \<Rightarrow> service \<Rightarrow> service" where
  "parse_lines cs sv =
     (if cs = [] then sv else (case fgets_line 511 cs of (l, r) \<Rightarrow> parse_lines r (parse_line l sv)))"
  by pat_completeness auto
termination
  by (relation "measure (\<lambda>(cs, sv). length cs)") (auto dest: fgets_511 [OF _ sym])

declare parse_lines.simps [simp del]

text \<open>None is a file that cannot be opened or lacks a name or a command.\<close>

definition parse_svc_file :: "string option \<Rightarrow> service option" where
  "parse_svc_file file_text =
     (case file_text of None \<Rightarrow> None
      | Some cs \<Rightarrow>
          (let sv = parse_lines cs service_zero
           in if sv_name sv \<noteq> [] \<and> sv_exec sv \<noteq> [] then Some sv else None))"

text \<open>The directory: names and contents in the order of \<open>readdir\<close>.\<close>

fun load_services :: "(string \<times> string option) list \<Rightarrow> service list \<Rightarrow> service list" where
  "load_services [] svs = svs"
| "load_services ((fname, cs) # des) svs =
     (if length fname < 5 \<or> drop (length fname - 4) fname \<noteq> ''.svc'' then load_services des svs
      else if length svs \<ge> MAX_SERVICES then svs
      else (case parse_svc_file cs of None \<Rightarrow> load_services des svs | Some sv \<Rightarrow> load_services des (svs @ [sv])))"

section \<open>Starting\<close>

definition deps_satisfied :: "service list \<Rightarrow> service \<Rightarrow> bool" where
  "deps_satisfied svs sv \<longleftrightarrow> (\<forall>d \<in> set (sv_depends sv). \<exists>x \<in> set svs. sv_name x = d \<and> sv_state x = SVC_RUNNING)"

definition should_start :: "service \<Rightarrow> bool" where
  "should_start sv \<longleftrightarrow>
     (sv_state sv = SVC_STOPPED \<and> sv_pid sv = 0 \<and> sv_restarts sv = 0)
   \<or> (sv_state sv = SVC_FAILED \<and> (sv_restart sv = RESTART_ALWAYS \<or> sv_restart sv = RESTART_ON_FAIL))"

text \<open>The statements of \<open>start_service\<close> after a fork, and its two ends.\<close>

definition svc_started :: "int \<Rightarrow> service \<Rightarrow> service" where
  "svc_started p sv = sv\<lparr>sv_pid := p, sv_state := SVC_RUNNING, sv_restarts := sv_restarts sv + 1\<rparr>"

definition svc_died :: "service \<Rightarrow> service" where
  "svc_died sv = sv\<lparr>sv_pid := 0, sv_state := SVC_FAILED\<rparr>"

text \<open>The arguments for \<open>execv\<close>: the command split at blanks, at most 31 of them.\<close>

fun split_blank :: "string \<Rightarrow> string list" where
  "split_blank [] = [[]]"
| "split_blank (c # cs) = (if blank c then [] # split_blank cs else (c # hd (split_blank cs)) # tl (split_blank cs))"

definition exec_args :: "string \<Rightarrow> string list" where
  "exec_args cmd = take 31 (filter (\<lambda>w. w \<noteq> []) (split_blank (take (EXEC_MAX_LEN - 1) cmd)))"

text \<open>The handler's loop body: the first service with this process number.\<close>

fun reap_service :: "int \<Rightarrow> int \<Rightarrow> service list \<Rightarrow> service list" where
  "reap_service p code [] = []"
| "reap_service p code (sv # svs) =
     (if sv_pid sv = p then sv\<lparr>sv_pid := 0, sv_state := (if code = 0 then SVC_STOPPED else SVC_FAILED)\<rparr> # svs
      else sv # reap_service p code svs)"

section \<open>Runs\<close>

datatype place = Initial nat | Loop nat        \<comment> \<open>the start pass of \<open>main\<close>, the pass of \<open>supervise\<close>\<close>
datatype progress = Ready | Forked int | Checking int
datatype tag = Tag_ok | Tag_fail

record kindle =
  svcs :: "service list"
  place_of :: place
  doing :: progress
  alive :: "(int \<times> nat) list"                 \<comment> \<open>running children and the service they belong to\<close>
  zombies :: "(int \<times> nat \<times> int) list"        \<comment> \<open>terminated, not yet waited for, with exit code\<close>
  starts :: "nat list"                          \<comment> \<open>services in the order of their forks\<close>
  tags :: "(nat \<times> tag) list"                   \<comment> \<open>status tags printed\<close>

fun here :: "place \<Rightarrow> nat" where
  "here (Initial i) = i"
| "here (Loop i) = i"

fun advance :: "place \<Rightarrow> place" where
  "advance (Initial i) = Initial (Suc i)"
| "advance (Loop i) = Loop (Suc i)"

definition wants_start :: "kindle \<Rightarrow> bool" where
  "wants_start k \<longleftrightarrow>
     (case place_of k of
        Initial i \<Rightarrow> i < length (svcs k) \<and> sv_depends (svcs k ! i) = []
      | Loop i \<Rightarrow> i < length (svcs k) \<and> should_start (svcs k ! i) \<and> deps_satisfied (svcs k) (svcs k ! i))"

definition used_pids :: "kindle \<Rightarrow> int set" where
  "used_pids k = fst ` set (alive k) \<union> fst ` set (zombies k)"

inductive kstep :: "kindle \<Rightarrow> kindle \<Rightarrow> bool" where
  skip: "doing k = Ready \<Longrightarrow> here (place_of k) < length (svcs k) \<Longrightarrow> \<not> wants_start k \<Longrightarrow>
     kstep k (k\<lparr>place_of := advance (place_of k)\<rparr>)"
| pass_done: "doing k = Ready \<Longrightarrow> here (place_of k) \<ge> length (svcs k) \<Longrightarrow> kstep k (k\<lparr>place_of := Loop 0\<rparr>)"
| fork_fails: "doing k = Ready \<Longrightarrow> wants_start k \<Longrightarrow>
     kstep k (k\<lparr>svcs := (svcs k)[here (place_of k) := (svcs k ! here (place_of k))\<lparr>sv_state := SVC_FAILED\<rparr>],
                tags := (here (place_of k), Tag_fail) # tags k, place_of := advance (place_of k)\<rparr>)"
| forks: "doing k = Ready \<Longrightarrow> wants_start k \<Longrightarrow> 0 < p \<Longrightarrow> p \<notin> used_pids k \<Longrightarrow>
     kstep k (k\<lparr>doing := Forked p, alive := (p, here (place_of k)) # alive k, starts := starts k @ [here (place_of k)]\<rparr>)"
| records: "doing k = Forked p \<Longrightarrow>
     kstep k (k\<lparr>doing := Checking p, svcs := (svcs k)[here (place_of k) := svc_started p (svcs k ! here (place_of k))]\<rparr>)"
| check_dead: "doing k = Checking p \<Longrightarrow> (p, i, code) \<in> set (zombies k) \<Longrightarrow>
     kstep k (k\<lparr>doing := Ready, zombies := filter (\<lambda>(q, _). q \<noteq> p) (zombies k),
                svcs := (svcs k)[here (place_of k) := svc_died (svcs k ! here (place_of k))],
                tags := (here (place_of k), Tag_fail) # tags k, place_of := advance (place_of k)\<rparr>)"
| check_alive: "doing k = Checking p \<Longrightarrow> p \<notin> fst ` set (zombies k) \<Longrightarrow>
     kstep k (k\<lparr>doing := Ready, tags := (here (place_of k), Tag_ok) # tags k, place_of := advance (place_of k)\<rparr>)"
| terminates: "(p, i) \<in> set (alive k) \<Longrightarrow>
     kstep k (k\<lparr>alive := filter (\<lambda>(q, _). q \<noteq> p) (alive k), zombies := (p, i, code) # zombies k\<rparr>)"
| handler: "(p, i, code) \<in> set (zombies k) \<Longrightarrow>
     kstep k (k\<lparr>zombies := filter (\<lambda>(q, _). q \<noteq> p) (zombies k), svcs := reap_service p code (svcs k)\<rparr>)"

definition kindle_start :: "service list \<Rightarrow> kindle" where
  "kindle_start svs = \<lparr>svcs = svs, place_of = Initial 0, doing = Ready, alive = [], zombies = [], starts = [], tags = []\<rparr>"

inductive kreach :: "service list \<Rightarrow> kindle \<Rightarrow> bool" for svs where
  start: "kreach svs (kindle_start svs)"
| step: "kreach svs k \<Longrightarrow> kstep k k' \<Longrightarrow> kreach svs k'"

section \<open>Invariants\<close>

text \<open>Names and dependencies never change.\<close>

definition same_services :: "service list \<Rightarrow> service list \<Rightarrow> bool" where
  "same_services svs xs \<longleftrightarrow> map sv_name xs = map sv_name svs \<and> map sv_depends xs = map sv_depends svs"

lemma reap_service_nth:
  "length (reap_service p code svs) = length svs"
  "i < length svs \<Longrightarrow> reap_service p code svs ! i = svs ! i \<or>
     (sv_pid (svs ! i) = p \<and> reap_service p code svs ! i = (svs ! i)\<lparr>sv_pid := 0, sv_state := (if code = 0 then SVC_STOPPED else SVC_FAILED)\<rparr>)"
proof -
  show "length (reap_service p code svs) = length svs" by (induction svs) auto
  show "i < length svs \<Longrightarrow> reap_service p code svs ! i = svs ! i \<or>
     (sv_pid (svs ! i) = p \<and> reap_service p code svs ! i = (svs ! i)\<lparr>sv_pid := 0, sv_state := (if code = 0 then SVC_STOPPED else SVC_FAILED)\<rparr>)"
  proof (induction svs arbitrary: i)
    case (Cons sv svs)
    then show ?case by (cases i) (use Cons.IH [of "i - 1"] in auto)
  qed simp
qed

lemma same_update:
  assumes "same_services svs xs" "sv_name y = sv_name (xs ! i)" "sv_depends y = sv_depends (xs ! i)"
  shows "same_services svs (xs[i := y])"
proof (cases "i < length xs")
  case True
  with assms show ?thesis by (simp add: same_services_def map_update list_update_id flip: nth_map)
qed (use assms in \<open>simp add: list_update_beyond\<close>)

lemma same_reap: "same_services svs xs \<Longrightarrow> same_services svs (reap_service p code xs)"
proof -
  have "map sv_name (reap_service p code xs) = map sv_name xs" "map sv_depends (reap_service p code xs) = map sv_depends xs"
    by (induction xs) auto
  then show "same_services svs xs \<Longrightarrow> same_services svs (reap_service p code xs)" by (simp add: same_services_def)
qed

lemma kstep_same: "kstep k k' \<Longrightarrow> same_services svs (svcs k) \<Longrightarrow> same_services svs (svcs k')"
  by (induction rule: kstep.induct) (auto simp: svc_started_def svc_died_def intro!: same_update same_reap)

lemma same_nth: "same_services svs xs \<Longrightarrow> length xs = length svs"
  "same_services svs xs \<Longrightarrow> i < length svs \<Longrightarrow> sv_name (xs ! i) = sv_name (svs ! i) \<and> sv_depends (xs ! i) = sv_depends (svs ! i)"
proof -
  show l: "same_services svs xs \<Longrightarrow> length xs = length svs" unfolding same_services_def using map_eq_imp_length_eq by blast
  show "same_services svs xs \<Longrightarrow> i < length svs \<Longrightarrow> sv_name (xs ! i) = sv_name (svs ! i) \<and> sv_depends (xs ! i) = sv_depends (svs ! i)"
    using l unfolding same_services_def by (metis nth_map)
qed

text \<open>A running service has been forked.\<close>

definition started_ok :: "kindle \<Rightarrow> bool" where
  "started_ok k \<longleftrightarrow> (\<forall>i < length (svcs k). sv_state (svcs k ! i) = SVC_RUNNING \<longrightarrow> i \<in> set (starts k))
     \<and> (doing k \<noteq> Ready \<longrightarrow> here (place_of k) < length (svcs k) \<and> here (place_of k) \<in> set (starts k))"

lemma wants_here: "wants_start k \<Longrightarrow> here (place_of k) < length (svcs k)"
  by (auto simp: wants_start_def split: place.splits)

lemma kstep_started: "kstep k k' \<Longrightarrow> started_ok k \<Longrightarrow> started_ok k'"
proof (induction rule: kstep.induct)
  case (handler p i code k)
  have "sv_state (svcs k ! j) = SVC_RUNNING" if "j < length (svcs k)" "sv_state (reap_service p code (svcs k) ! j) = SVC_RUNNING" for j
    using reap_service_nth(2) [OF that(1), of p code] that(2) by (auto split: if_splits)
  with handler show ?case by (simp add: started_ok_def reap_service_nth(1))
qed (auto simp: started_ok_def nth_list_update svc_started_def svc_died_def wants_here)

text \<open>Dependencies are forked first.\<close>

definition deps_first :: "service list \<Rightarrow> nat list \<Rightarrow> bool" where
  "deps_first svs ss \<longleftrightarrow> (\<forall>xs i ys. ss = xs @ i # ys \<longrightarrow>
     (\<forall>d \<in> set (sv_depends (svs ! i)). \<exists>j \<in> set xs. j < length svs \<and> sv_name (svs ! j) = d))"

lemma deps_first_snoc:
  assumes "deps_first svs ss" "\<forall>d \<in> set (sv_depends (svs ! i)). \<exists>j \<in> set ss. j < length svs \<and> sv_name (svs ! j) = d"
  shows "deps_first svs (ss @ [i])"
  unfolding deps_first_def
proof (intro allI impI)
  fix xs k ys assume "ss @ [i] = xs @ k # ys"
  then have "ys = [] \<and> xs = ss \<and> k = i \<or> (\<exists>zs. ys = zs @ [i] \<and> ss = xs @ k # zs)"
    by (cases ys rule: rev_cases) auto
  then show "\<forall>d \<in> set (sv_depends (svs ! k)). \<exists>j \<in> set xs. j < length svs \<and> sv_name (svs ! j) = d"
    using assms unfolding deps_first_def by blast
qed

lemma wants_deps:
  assumes w: "wants_start k" and s: "same_services svs (svcs k)" and st: "started_ok k"
  shows "\<forall>d \<in> set (sv_depends (svs ! here (place_of k))). \<exists>j \<in> set (starts k). j < length svs \<and> sv_name (svs ! j) = d"
proof
  let ?i = "here (place_of k)"
  fix d assume d: "d \<in> set (sv_depends (svs ! ?i))"
  have len: "length (svcs k) = length svs" by (rule same_nth(1) [OF s])
  have dd: "d \<in> set (sv_depends (svcs k ! ?i))" using d same_nth(2) [OF s] wants_here [OF w] len by simp
  then have "deps_satisfied (svcs k) (svcs k ! ?i)" using w by (auto simp: wants_start_def split: place.splits)
  then obtain x where x: "x \<in> set (svcs k)" "sv_name x = d" "sv_state x = SVC_RUNNING" using dd by (auto simp: deps_satisfied_def)
  then obtain j where j: "j < length (svcs k)" "svcs k ! j = x" by (auto simp: in_set_conv_nth)
  then have "j \<in> set (starts k)" using st x(3) by (auto simp: started_ok_def)
  then show "\<exists>j \<in> set (starts k). j < length svs \<and> sv_name (svs ! j) = d"
    using j x(2) same_nth(2) [OF s, of j] len by auto
qed

lemma kstep_deps:
  "kstep k k' \<Longrightarrow> same_services svs (svcs k) \<Longrightarrow> started_ok k \<Longrightarrow> deps_first svs (starts k) \<Longrightarrow> deps_first svs (starts k')"
proof (induction rule: kstep.induct)
  case (forks k p)
  then show ?case using deps_first_snoc [OF _ wants_deps] by simp
qed auto

text \<open>
  Processes: numbers are distinct, a running child belongs to the service that records it or is the one
  just forked, no other child belongs to the service being started, and the start pass
  meets every service for the first time.
\<close>

definition procs_ok :: "kindle \<Rightarrow> bool" where
  "procs_ok k \<longleftrightarrow> distinct (map fst (alive k)) \<and> distinct (map snd (alive k))
     \<and> fst ` set (alive k) \<inter> fst ` set (zombies k) = {}
     \<and> (\<forall>(p, i) \<in> set (alive k). i < length (svcs k) \<and> i \<in> set (starts k) \<and>
          (doing k = Forked p \<and> here (place_of k) = i \<or> sv_pid (svcs k ! i) = p \<and> sv_state (svcs k ! i) = SVC_RUNNING))
     \<and> (\<forall>p. doing k \<in> {Forked p, Checking p} \<longrightarrow> (\<forall>q. (q, here (place_of k)) \<in> set (alive k) \<longrightarrow> q = p))
     \<and> (\<forall>n. place_of k = Initial n \<longrightarrow> (\<forall>j \<in> set (starts k). if doing k = Ready then j < n else j \<le> n))"

lemma procs_parts:
  assumes "procs_ok k"
  shows "distinct (map fst (alive k))" "distinct (map snd (alive k))" "fst ` set (alive k) \<inter> fst ` set (zombies k) = {}"
    "(p, i) \<in> set (alive k) \<Longrightarrow> i < length (svcs k) \<and> i \<in> set (starts k) \<and>
       (doing k = Forked p \<and> here (place_of k) = i \<or> sv_pid (svcs k ! i) = p \<and> sv_state (svcs k ! i) = SVC_RUNNING)"
    "doing k = Forked p \<or> doing k = Checking p \<Longrightarrow> (q, here (place_of k)) \<in> set (alive k) \<Longrightarrow> q = p"
    "place_of k = Initial n \<Longrightarrow> j \<in> set (starts k) \<Longrightarrow> if doing k = Ready then j < n else j \<le> n"
  using assms unfolding procs_ok_def by auto

lemma no_child_yet:
  assumes "procs_ok k" "doing k = Ready" "wants_start k"
  shows "(p, here (place_of k)) \<notin> set (alive k)"
proof
  assume a: "(p, here (place_of k)) \<in> set (alive k)"
  note al = procs_parts(4) [OF assms(1) a]
  show False
  proof (cases "place_of k")
    case (Initial n)
    with procs_parts(6) [OF assms(1) Initial, of n] al assms(2) show False by simp
  next
    case (Loop n)
    with al assms(2,3) show False by (auto simp: wants_start_def should_start_def)
  qed
qed

lemma initial_step: "place_of k = Initial n \<Longrightarrow> advance (place_of k) = Initial (Suc n)"
  by simp

lemma advance_Initial: "advance x = Initial n \<longleftrightarrow> (\<exists>m. x = Initial m \<and> n = Suc m)"
  by (cases x) auto

lemma procs_okI:
  assumes "distinct (map fst (alive k))" "distinct (map snd (alive k))" "fst ` set (alive k) \<inter> fst ` set (zombies k) = {}"
    "\<And>p i. (p, i) \<in> set (alive k) \<Longrightarrow> i < length (svcs k) \<and> i \<in> set (starts k) \<and>
       (doing k = Forked p \<and> here (place_of k) = i \<or> sv_pid (svcs k ! i) = p \<and> sv_state (svcs k ! i) = SVC_RUNNING)"
    "\<And>p q. doing k = Forked p \<or> doing k = Checking p \<Longrightarrow> (q, here (place_of k)) \<in> set (alive k) \<Longrightarrow> q = p"
    "\<And>n j. place_of k = Initial n \<Longrightarrow> j \<in> set (starts k) \<Longrightarrow> if doing k = Ready then j < n else j \<le> n"
  shows "procs_ok k"
  unfolding procs_ok_def
proof (intro conjI)
  show "\<forall>(p, i) \<in> set (alive k). i < length (svcs k) \<and> i \<in> set (starts k) \<and>
      (doing k = Forked p \<and> here (place_of k) = i \<or> sv_pid (svcs k ! i) = p \<and> sv_state (svcs k ! i) = SVC_RUNNING)"
    using assms(4) by (auto split: prod.splits)
  show "\<forall>p. doing k \<in> {Forked p, Checking p} \<longrightarrow> (\<forall>q. (q, here (place_of k)) \<in> set (alive k) \<longrightarrow> q = p)"
    using assms(5) by auto
  show "\<forall>n. place_of k = Initial n \<longrightarrow> (\<forall>j \<in> set (starts k). if doing k = Ready then j < n else j \<le> n)"
    using assms(6) by auto
qed (fact assms)+

text \<open>A step that ends the work on the current service.\<close>

lemma procs_advance:
  assumes "procs_ok k" "\<And>q. (q, here (place_of k)) \<in> set (alive k) \<Longrightarrow> sv = svcs k ! here (place_of k)"
    and "\<And>p. doing k \<noteq> Forked p" and "set zs \<subseteq> set (zombies k)"
  shows "procs_ok (k\<lparr>doing := Ready, zombies := zs, svcs := (svcs k)[here (place_of k) := sv], tags := t, place_of := advance (place_of k)\<rparr>)"
    (is "procs_ok ?k")
proof (rule procs_okI)
  note pp = procs_parts [OF assms(1)]
  show "distinct (map fst (alive ?k))" "distinct (map snd (alive ?k))" using pp(1,2) by simp_all
  show "fst ` set (alive ?k) \<inter> fst ` set (zombies ?k) = {}" using pp(3) assms(4) by fastforce
  show "i < length (svcs ?k) \<and> i \<in> set (starts ?k) \<and>
       (doing ?k = Forked p \<and> here (place_of ?k) = i \<or> sv_pid (svcs ?k ! i) = p \<and> sv_state (svcs ?k ! i) = SVC_RUNNING)"
    if a: "(p, i) \<in> set (alive ?k)" for p i
  proof -
    have a': "(p, i) \<in> set (alive k)" using a by simp
    show ?thesis
    proof (cases "i = here (place_of k)")
      case True
      then have "sv = svcs k ! i" using assms(2) a' by simp
      with True pp(4) [OF a'] assms(3) show ?thesis by simp
    next
      case False
      with pp(4) [OF a'] assms(3) show ?thesis by simp
    qed
  qed
  show "if doing ?k = Ready then j < n else j \<le> n" if "place_of ?k = Initial n" "j \<in> set (starts ?k)" for n j
    using that pp(6) [of "n - 1" j] by (auto simp: advance_Initial split: if_splits)
qed simp

lemma kstep_procs: "kstep k k' \<Longrightarrow> started_ok k \<Longrightarrow> procs_ok k \<Longrightarrow> procs_ok k'"
proof (induction rule: kstep.induct)
  case (skip k)
  have e: "k\<lparr>doing := Ready, zombies := zombies k, svcs := (svcs k)[here (place_of k) := svcs k ! here (place_of k)], tags := tags k,
      place_of := advance (place_of k)\<rparr> = k\<lparr>place_of := advance (place_of k)\<rparr>" using skip(1) by (cases k) simp
  show ?case unfolding e [symmetric] by (rule procs_advance [OF skip(5)]) (use skip(1) in auto)
next
  case (pass_done k)
  note pp = procs_parts [OF pass_done(4)]
  show ?case by (rule procs_okI) (use pp pass_done(1) in simp_all)
next
  case (fork_fails k)
  have e: "k\<lparr>doing := Ready, zombies := zombies k, svcs := (svcs k)[here (place_of k) := (svcs k ! here (place_of k))\<lparr>sv_state := SVC_FAILED\<rparr>],
        tags := (here (place_of k), Tag_fail) # tags k, place_of := advance (place_of k)\<rparr>
      = k\<lparr>svcs := (svcs k)[here (place_of k) := (svcs k ! here (place_of k))\<lparr>sv_state := SVC_FAILED\<rparr>],
        tags := (here (place_of k), Tag_fail) # tags k, place_of := advance (place_of k)\<rparr>" using fork_fails(1) by (cases k) simp
  show ?case unfolding e [symmetric]
    by (rule procs_advance [OF fork_fails(4)]) (use no_child_yet [OF fork_fails(4,1,2)] fork_fails(1) in auto)
next
  case (forks k p)
  note nc = no_child_yet [OF forks(6,1,2)] and pp = procs_parts [OF forks(6)]
  have new: "p \<notin> fst ` set (alive k)" "p \<notin> fst ` set (zombies k)" using forks(4) by (auto simp: used_pids_def)
  show ?case
  proof (rule procs_okI)
    show "distinct (map snd (alive (k\<lparr>doing := Forked p, alive := (p, here (place_of k)) # alive k, starts := starts k @ [here (place_of k)]\<rparr>)))"
      using pp(2) nc by auto
  qed (use pp new wants_here [OF forks(2)] forks(1) nc in \<open>auto intro: less_imp_le split: if_splits\<close>)
next
  case (records k p)
  note pp = procs_parts [OF records(3)]
  have lt: "here (place_of k) < length (svcs k)" using records(1,2) by (simp add: started_ok_def)
  have own: "q = p" if "(q, here (place_of k)) \<in> set (alive k)" for q
    using pp(5) [of p q] that records(1) by blast
  let ?svs = "(svcs k)[here (place_of k) := svc_started p (svcs k ! here (place_of k))]"
  have "j < length (svcs k) \<and> j \<in> set (starts k) \<and> sv_pid (?svs ! j) = q \<and> sv_state (?svs ! j) = SVC_RUNNING"
    if "(q, j) \<in> set (alive k)" for q j
    using pp(4) [OF that] own [of q] that lt records(1) by (cases "j = here (place_of k)") (auto simp: svc_started_def)
  then show ?case by (intro procs_okI) (use own pp(1-3,6) records(1) in auto)
next
  case (check_dead k p i code)
  have "(q, here (place_of k)) \<notin> set (alive k)" for q
  proof
    assume a: "(q, here (place_of k)) \<in> set (alive k)"
    then have "q = p" using procs_parts(5) [OF check_dead(4)] check_dead(1) by blast
    with a check_dead(2) procs_parts(3) [OF check_dead(4)] show False by force
  qed
  then show ?case by (intro procs_advance [OF check_dead(4)]) (use check_dead(1) in auto)
next
  case (check_alive k p)
  have e: "k\<lparr>doing := Ready, zombies := zombies k, svcs := (svcs k)[here (place_of k) := svcs k ! here (place_of k)],
        tags := (here (place_of k), Tag_ok) # tags k, place_of := advance (place_of k)\<rparr>
      = k\<lparr>doing := Ready, tags := (here (place_of k), Tag_ok) # tags k, place_of := advance (place_of k)\<rparr>" by simp
  show ?case unfolding e [symmetric] by (rule procs_advance [OF check_alive(4)]) (use check_alive(1) in auto)
next
  case (terminates p i k code)
  note pp = procs_parts [OF terminates(3)]
  show ?case by (rule procs_okI) (use pp in \<open>auto simp: distinct_map inj_on_def split: if_splits\<close>)
next
  case (handler p i code k)
  note pp = procs_parts [OF handler(3)]
  show ?case
  proof (rule procs_okI)
    fix q j assume "(q, j) \<in> set (alive (k\<lparr>zombies := filter (\<lambda>(q, _). q \<noteq> p) (zombies k), svcs := reap_service p code (svcs k)\<rparr>))"
    then have a: "(q, j) \<in> set (alive k)" by simp
    then have "q \<noteq> p" using pp(3) handler(1) by force
    then show "j < length (svcs (k\<lparr>zombies := filter (\<lambda>(q, _). q \<noteq> p) (zombies k), svcs := reap_service p code (svcs k)\<rparr>)) \<and>
        j \<in> set (starts (k\<lparr>zombies := filter (\<lambda>(q, _). q \<noteq> p) (zombies k), svcs := reap_service p code (svcs k)\<rparr>)) \<and>
       (doing (k\<lparr>zombies := filter (\<lambda>(q, _). q \<noteq> p) (zombies k), svcs := reap_service p code (svcs k)\<rparr>) = Forked q \<and>
          here (place_of (k\<lparr>zombies := filter (\<lambda>(q, _). q \<noteq> p) (zombies k), svcs := reap_service p code (svcs k)\<rparr>)) = j \<or>
        sv_pid (svcs (k\<lparr>zombies := filter (\<lambda>(q, _). q \<noteq> p) (zombies k), svcs := reap_service p code (svcs k)\<rparr>) ! j) = q \<and>
        sv_state (svcs (k\<lparr>zombies := filter (\<lambda>(q, _). q \<noteq> p) (zombies k), svcs := reap_service p code (svcs k)\<rparr>) ! j) = SVC_RUNNING)"
      using pp(4) [OF a] reap_service_nth(1) [of p code "svcs k"] reap_service_nth(2) [of j "svcs k" p code] by auto
  qed (use pp in auto)
qed

section \<open>Loaded services\<close>

text \<open>What the parser produces: a stopped service with bounded strings.\<close>

definition loaded :: "service \<Rightarrow> bool" where
  "loaded sv \<longleftrightarrow> length (sv_name sv) \<le> 63 \<and> length (sv_exec sv) \<le> 255 \<and> length (sv_depends sv) \<le> 8
     \<and> (\<forall>d \<in> set (sv_depends sv). length d \<le> 63) \<and> sv_pid sv = 0 \<and> sv_state sv = SVC_STOPPED \<and> sv_restarts sv = 0"

lemma loaded_key: "loaded sv \<Longrightarrow> loaded (apply_key key val sv)"
  by (auto simp: loaded_def apply_key_def kconst)

lemma loaded_lines: "loaded sv \<Longrightarrow> loaded (parse_lines cs sv)"
proof (induction cs sv rule: parse_lines.induct)
  case (1 cs sv)
  have "loaded (parse_line l sv)" for l using "1.prems" by (simp add: parse_line_def Let_def loaded_key)
  with 1 show ?case by (subst parse_lines.simps) (auto split: prod.splits)
qed

lemma loaded_file: "parse_svc_file t = Some sv \<Longrightarrow> loaded sv \<and> sv_name sv \<noteq> [] \<and> sv_exec sv \<noteq> []"
  using loaded_lines [of service_zero]
  by (auto simp: parse_svc_file_def Let_def loaded_def service_zero_def split: option.splits if_splits)

lemma load_services_ok:
  "\<forall>sv \<in> set svs. loaded sv \<and> sv_name sv \<noteq> [] \<and> sv_exec sv \<noteq> [] \<Longrightarrow> length svs \<le> MAX_SERVICES \<Longrightarrow>
   (\<forall>sv \<in> set (load_services des svs). loaded sv \<and> sv_name sv \<noteq> [] \<and> sv_exec sv \<noteq> []) \<and> length (load_services des svs) \<le> MAX_SERVICES"
proof (induction des svs rule: load_services.induct)
  case (2 fname cs des svs)
  then show ?case using loaded_file [of cs] by (auto split: option.splits)
qed simp

lemma kreach_inv:
  assumes "kreach svs k" and "\<forall>sv \<in> set svs. sv_state sv = SVC_STOPPED"
  shows "same_services svs (svcs k) \<and> started_ok k \<and> deps_first svs (starts k) \<and> procs_ok k"
  using assms(1)
proof (induction rule: kreach.induct)
  case start
  then show ?case using assms(2)
    by (auto simp: kindle_start_def same_services_def started_ok_def deps_first_def procs_ok_def)
next
  case (step k k')
  then show ?case using kstep_same kstep_started kstep_deps kstep_procs by blast
qed

section \<open>Properties\<close>


text \<open>
  C22: Dependency order and single instances: whatever the operating system does, and wherever the handler
  interrupts, every start of a service comes after a start of each service it depends on, and no
  service ever has two running processes.
\<close>

theorem kindle_order:
  assumes "kreach (load_services des []) k"
  shows "(\<forall>xs i ys. starts k = xs @ i # ys \<longrightarrow>
      (\<forall>d \<in> set (sv_depends (load_services des [] ! i)).
        \<exists>j \<in> set xs. j < length (load_services des []) \<and> sv_name (load_services des [] ! j) = d))
    \<and> distinct (map snd (alive k)) \<and> (\<forall>(p, i) \<in> set (alive k). i < length (load_services des []))"
proof -
  let ?svs = "load_services des []"
  have "\<forall>sv \<in> set ?svs. sv_state sv = SVC_STOPPED" using load_services_ok [of "[]" des] by (auto simp: loaded_def)
  note inv = kreach_inv [OF assms this]
  then have l: "length (svcs k) = length ?svs" and pk: "procs_ok k" and df: "deps_first ?svs (starts k)" using same_nth(1) by blast+
  have "\<forall>(p, i) \<in> set (alive k). i < length ?svs" using procs_parts(4) [OF pk] l by auto
  with procs_parts(2) [OF pk] df show ?thesis unfolding deps_first_def by blast
qed

text \<open>A directory with a logger and a service that needs it.\<close>

definition eol :: string where "eol = [CHR 0x0A]"

definition two_files :: "(string \<times> string option) list" where
  "two_files = [(''a.svc'', Some (''name=log'' @ eol @ ''exec=/l'' @ eol)), (''readme'', None),
     (''b.svc'', Some (''# web'' @ eol @ ''name=web'' @ eol @ ''exec= /w'' @ eol @ ''depends=log'' @ eol))]"

definition svc_log :: service where "svc_log = service_zero\<lparr>sv_name := ''log'', sv_exec := ''/l''\<rparr>"
definition svc_web :: service where "svc_web = service_zero\<lparr>sv_name := ''web'', sv_exec := ''/w'', sv_depends := [''log'']\<rparr>"

lemma two_services: "load_services two_files [] = [svc_log, svc_web]"
  by code_simp

lemma two_starts: "\<exists>k. kreach [svc_log, svc_web] k \<and> starts k = [0, 1]"
proof -
  let ?k0 = "kindle_start [svc_log, svc_web]"
  let ?k1 = "?k0\<lparr>doing := Forked 5, alive := [(5, 0)], starts := [0]\<rparr>"
  let ?k2 = "?k1\<lparr>doing := Checking 5, svcs := [svc_started 5 svc_log, svc_web]\<rparr>"
  let ?k3 = "?k2\<lparr>doing := Ready, tags := [(0, Tag_ok)], place_of := Initial 1\<rparr>"
  let ?k4 = "?k3\<lparr>place_of := Initial 2\<rparr>"
  let ?k5 = "?k4\<lparr>place_of := Loop 0\<rparr>"
  let ?k6 = "?k5\<lparr>place_of := Loop 1\<rparr>"
  let ?k7 = "?k6\<lparr>doing := Forked 6, alive := [(6, 1), (5, 0)], starts := [0, 1]\<rparr>"
  note d = kindle_start_def wants_start_def used_pids_def svc_log_def svc_web_def service_zero_def should_start_def
    deps_satisfied_def svc_started_def
  have "kreach [svc_log, svc_web] ?k0" by (rule kreach.start)
  moreover have "kstep ?k0 ?k1" using kstep.forks [of ?k0 5] by (simp add: d)
  moreover have "kstep ?k1 ?k2" using kstep.records [of ?k1 5] by (simp add: kindle_start_def)
  moreover have "kstep ?k2 ?k3" using kstep.check_alive [of ?k2 5] by (simp add: kindle_start_def)
  moreover have "kstep ?k3 ?k4" using kstep.skip [of ?k3] by (simp add: d numeral_2_eq_2)
  moreover have "kstep ?k4 ?k5" using kstep.pass_done [of ?k4] by (simp add: kindle_start_def)
  moreover have "kstep ?k5 ?k6" using kstep.skip [of ?k5] by (simp add: d)
  moreover have "kstep ?k6 ?k7" using kstep.forks [of ?k6 6] by (simp add: d)
  ultimately have "kreach [svc_log, svc_web] ?k7" by (meson kreach.step)
  moreover have "starts ?k7 = [0, 1]" by simp
  ultimately show ?thesis by blast
qed


theorem kindle_order_witness:
  "\<exists>k. kreach (load_services two_files []) k \<and> starts k = [0, 1] \<and> (\<exists>j \<in> set [0]. sv_name (load_services two_files [] ! j) = ''log'')"
proof -
  obtain k where k: "kreach (load_services two_files []) k" "starts k = [0] @ 1 # []" using two_starts unfolding two_services by auto
  have "''log'' \<in> set (sv_depends (load_services two_files [] ! 1))" by (simp add: two_services svc_web_def)
  with kindle_order [OF k(1)] k(2) have "\<exists>j \<in> set [0]. sv_name (load_services two_files [] ! j) = ''log''" by blast
  with k show ?thesis by auto
qed

text \<open>
  A service that fails at once is reported as started when the handler waits for it before the check
  does; and when it ends before its number is recorded, it counts as running for ever.
\<close>

theorem failure_shown_ok:
  "\<exists>k. kreach [svc_log] k \<and> tags k = [(0, Tag_ok)] \<and> sv_state (svcs k ! 0) = SVC_FAILED \<and> alive k = []"
proof -
  let ?k0 = "kindle_start [svc_log]"
  let ?k1 = "?k0\<lparr>doing := Forked 5, alive := [(5, 0)], starts := [0]\<rparr>"
  let ?k2 = "?k1\<lparr>doing := Checking 5, svcs := [svc_started 5 svc_log]\<rparr>"
  let ?k3 = "?k2\<lparr>alive := [], zombies := [(5, 0, 1)]\<rparr>"
  let ?k4 = "?k3\<lparr>zombies := [], svcs := [(svc_started 5 svc_log)\<lparr>sv_pid := 0, sv_state := SVC_FAILED\<rparr>]\<rparr>"
  let ?k5 = "?k4\<lparr>doing := Ready, tags := [(0, Tag_ok)], place_of := Initial 1\<rparr>"
  have "kreach [svc_log] ?k0" by (rule kreach.start)
  moreover have "kstep ?k0 ?k1"
    using kstep.forks [of ?k0 5] by (simp add: kindle_start_def wants_start_def used_pids_def svc_log_def service_zero_def)
  moreover have "kstep ?k1 ?k2" using kstep.records [of ?k1 5] by (simp add: kindle_start_def)
  moreover have "kstep ?k2 ?k3" using kstep.terminates [of 5 0 ?k2 1] by (simp add: kindle_start_def)
  moreover have "kstep ?k3 ?k4" using kstep.handler [of 5 0 1 ?k3] by (simp add: kindle_start_def svc_started_def)
  moreover have "kstep ?k4 ?k5" using kstep.check_alive [of ?k4 5] by (simp add: kindle_start_def)
  ultimately have "kreach [svc_log] ?k5" by (meson kreach.step)
  moreover have "tags ?k5 = [(0, Tag_ok)] \<and> sv_state (svcs ?k5 ! 0) = SVC_FAILED \<and> alive ?k5 = []" by simp
  ultimately show ?thesis by blast
qed

theorem running_without_process:
  "\<exists>k. kreach [svc_log] k \<and> doing k = Ready \<and> sv_state (svcs k ! 0) = SVC_RUNNING \<and> alive k = [] \<and> zombies k = []"
proof -
  let ?k0 = "kindle_start [svc_log]"
  let ?k1 = "?k0\<lparr>doing := Forked 5, alive := [(5, 0)], starts := [0]\<rparr>"
  let ?k2 = "?k1\<lparr>alive := [], zombies := [(5, 0, 1)]\<rparr>"
  let ?k3 = "?k2\<lparr>zombies := []\<rparr>"
  let ?k4 = "?k3\<lparr>doing := Checking 5, svcs := [svc_started 5 svc_log]\<rparr>"
  let ?k5 = "?k4\<lparr>doing := Ready, tags := [(0, Tag_ok)], place_of := Initial 1\<rparr>"
  have "kreach [svc_log] ?k0" by (rule kreach.start)
  moreover have "kstep ?k0 ?k1"
    using kstep.forks [of ?k0 5] by (simp add: kindle_start_def wants_start_def used_pids_def svc_log_def service_zero_def)
  moreover have "kstep ?k1 ?k2" using kstep.terminates [of 5 0 ?k1 1] by (simp add: kindle_start_def)
  moreover have "kstep ?k2 ?k3"
    using kstep.handler [of 5 0 1 ?k2] by (simp add: kindle_start_def svc_log_def service_zero_def)
  moreover have "kstep ?k3 ?k4" using kstep.records [of ?k3 5] by (simp add: kindle_start_def)
  moreover have "kstep ?k4 ?k5" using kstep.check_alive [of ?k4 5] by (simp add: kindle_start_def)
  ultimately have "kreach [svc_log] ?k5" by (meson kreach.step)
  moreover have "doing ?k5 = Ready \<and> sv_state (svcs ?k5 ! 0) = SVC_RUNNING \<and> alive ?k5 = [] \<and> zombies ?k5 = []"
    by (simp add: kindle_start_def svc_started_def)
  ultimately show ?thesis by blast
qed

text \<open>Blanks before the equals sign make a file invalid, and \<open>restart=always\<close> does not restart after a clean exit.\<close>

theorem blank_before_equals: "parse_svc_file (Some (''name = log'' @ eol @ ''exec = /l'' @ eol)) = None"
  by code_simp

theorem always_not_restarted:
  "sv_restart sv = RESTART_ALWAYS \<Longrightarrow> sv_restarts sv > 0 \<Longrightarrow>
    (\<forall>s \<in> set (reap_service (sv_pid sv) 0 [sv]). \<not> should_start s)"
  by (simp add: should_start_def)

end
