(* ===== verification/Pyre.thy ===== *)
theory Pyre
  imports Ember_Prelude
begin

text \<open>
  The command shell, \<^verbatim>\<open>src/userspace/shell/pyre.c\<close>: the history, the line editor, the tokenizer, the
  pipeline parser, the search for executables and the dispatch of built-in commands. The parsers work
  in place on the bytes of the line: the line is a list of characters whose last one
  is the terminating zero, a pointer into it is an offset, and what a pointer refers to is read from
  the bytes as they are in the end. Terminal set-up, processes and files are the
  operating system's.
\<close>

definition MAX_LINE :: nat where [kconst]: "MAX_LINE = 2048"
definition MAX_ARGS :: nat where [kconst]: "MAX_ARGS = 128"
definition MAX_HISTORY :: nat where [kconst]: "MAX_HISTORY = 50"

definition NUL :: char where "NUL = CHR 0x00"

definition blank_char :: "char \<Rightarrow> bool" where
  "blank_char c \<longleftrightarrow> c = CHR '' '' \<or> c = CHR 0x09"

section \<open>History\<close>

record hist =
  history :: "nat \<Rightarrow> string"
  hist_count :: nat
  hist_idx :: nat

definition hist_push :: "string \<Rightarrow> hist \<Rightarrow> hist" where
  "hist_push line h =
     (if line = [] then h
      else if hist_count h > 0 \<and> history h ((hist_idx h + MAX_HISTORY - 1) mod MAX_HISTORY) = line then h
      else h\<lparr>history := (history h)(hist_idx h := take (MAX_LINE - 1) line), hist_idx := (hist_idx h + 1) mod MAX_HISTORY,
             hist_count := (if hist_count h < MAX_HISTORY then hist_count h + 1 else hist_count h)\<rparr>)"

text \<open>
  The index is a C remainder, which is negative for a negative dividend; None stands for a read
  outside the array, \<open>Some None\<close> for the null pointer.
\<close>

definition hist_get :: "int \<Rightarrow> hist \<Rightarrow> string option option" where
  "hist_get offset h =
     (if hist_count h = 0 then Some None
      else
        (let n = int (hist_idx h) - 1 - offset + int MAX_HISTORY * 2;
             idx = (if 0 \<le> n then n mod int MAX_HISTORY else - ((- n) mod int MAX_HISTORY))
         in if idx < 0 then None else Some (Some (history h (nat idx)))))"

definition builtin_history :: "hist \<Rightarrow> (nat \<times> string) list" where
  "builtin_history h =
     map (\<lambda>i. (i + 1, history h ((hist_idx h + MAX_HISTORY * 2 + i - hist_count h) mod MAX_HISTORY))) [0 ..< hist_count h]"

section \<open>The line editor\<close>

text \<open>The buffer has \<open>maxlen\<close> bytes; \<open>echo\<close> are the characters sent to the terminal.\<close>

record editor =
  ebuf :: "char list"
  epos :: nat
  elen :: nat
  hist_offset :: int
  echo :: string

text \<open>\<open>memmove\<close> within the buffer.\<close>

definition buf_move :: "nat \<Rightarrow> nat \<Rightarrow> nat \<Rightarrow> char list \<Rightarrow> char list" where
  "buf_move dst src n b = take dst b @ take n (drop src b) @ drop (dst + n) b"

definition BS :: char where "BS = CHR 0x08"

datatype key = Plain char | Up | Down | Right | Left | Other_escape

datatype outcome = Continue editor | Line editor | Eof | Out_of_bounds

definition rubout :: "nat \<Rightarrow> string" where
  "rubout n = concat (replicate n [BS, CHR '' '', BS])"

text \<open>
  Show a line of the history: \<open>strncpy\<close> fills the rest of the buffer with zeros, but leaves its last
  byte alone, where \<open>strlen\<close> has to find the zero of a line that is as long as the buffer allows.
\<close>

definition load_line :: "string \<Rightarrow> editor \<Rightarrow> outcome" where
  "load_line l e =
     (let n = length (ebuf e) - 1; t = take n l; b = t @ replicate (n - length t) NUL @ drop n (ebuf e)
      in if length t = n \<and> b ! n \<noteq> NUL then Out_of_bounds
         else Continue (e\<lparr>ebuf := b, echo := echo e @ rubout (epos e) @ t, epos := length t, elen := length t\<rparr>))"

definition edit_key :: "hist \<Rightarrow> key \<Rightarrow> editor \<Rightarrow> outcome" where
  "edit_key h k e =
     (case k of
        Plain c \<Rightarrow>
          if c = CHR 0x0A \<or> c = CHR 0x0D then Line (e\<lparr>ebuf := (ebuf e)[elen e := NUL], echo := echo e @ [CHR 0x0A]\<rparr>)
          else if c = CHR 0x03 then Line (e\<lparr>ebuf := (ebuf e)[0 := NUL], elen := 0, epos := 0, echo := echo e @ ''^C'' @ [CHR 0x0A]\<rparr>)
          else if c = CHR 0x04 \<and> elen e = 0 then Eof
          else if c = BS \<or> c = CHR 0x7F then
            if epos e > 0 then
              Continue (e\<lparr>ebuf := (buf_move (epos e - 1) (epos e) (elen e - epos e) (ebuf e))[elen e - 1 := NUL],
                epos := epos e - 1, elen := elen e - 1, echo := echo e @ [BS, CHR '' '', BS]\<rparr>)
            else Continue e
          else if c = CHR 0x01 then Continue (e\<lparr>echo := echo e @ replicate (epos e) BS, epos := 0\<rparr>)
          else if c = CHR 0x05 then
            Continue (e\<lparr>echo := echo e @ take (elen e - epos e) (drop (epos e) (ebuf e)), epos := (if epos e < elen e then elen e else epos e)\<rparr>)
          else if (0x20 :: nat) \<le> of_char c \<and> of_char c < (0x7F :: nat) then
            if elen e < length (ebuf e) - 1 then
              Continue (e\<lparr>ebuf := (buf_move (epos e + 1) (epos e) (elen e - epos e) (ebuf e))[epos e := c, elen e + 1 := NUL],
                epos := epos e + 1, elen := elen e + 1, echo := echo e @ [c]\<rparr>)
            else Continue e
          else Continue e
      | Up \<Rightarrow>
          (case hist_get (hist_offset e + 1) h of
             None \<Rightarrow> Out_of_bounds
           | Some None \<Rightarrow> Continue e
           | Some (Some l) \<Rightarrow> load_line l (e\<lparr>hist_offset := hist_offset e + 1\<rparr>))
      | Down \<Rightarrow>
          if hist_offset e - 1 < 0 then
            Continue (e\<lparr>hist_offset := -1, echo := echo e @ rubout (epos e), epos := 0, elen := 0, ebuf := (ebuf e)[0 := NUL]\<rparr>)
          else
            (case hist_get (hist_offset e - 1) h of
               None \<Rightarrow> Out_of_bounds
             | Some None \<Rightarrow> Continue (e\<lparr>hist_offset := hist_offset e - 1\<rparr>)
             | Some (Some l) \<Rightarrow> load_line l (e\<lparr>hist_offset := hist_offset e - 1\<rparr>))
      | Right \<Rightarrow> if epos e < elen e then Continue (e\<lparr>echo := echo e @ [ebuf e ! epos e], epos := epos e + 1\<rparr>) else Continue e
      | Left \<Rightarrow> if epos e > 0 then Continue (e\<lparr>echo := echo e @ [BS], epos := epos e - 1\<rparr>) else Continue e
      | Other_escape \<Rightarrow> Continue e)"

text \<open>The loop over the input; the end of the input ends the line as it is.\<close>

fun edit_keys :: "hist \<Rightarrow> key list \<Rightarrow> editor \<Rightarrow> outcome" where
  "edit_keys h [] e = Line e"
| "edit_keys h (k # ks) e = (case edit_key h k e of Continue e' \<Rightarrow> edit_keys h ks e' | r \<Rightarrow> r)"

text \<open>An escape takes two more bytes; an escape that is cut short by the end of the input is nothing.\<close>

fun decode_keys :: "char list \<Rightarrow> key list" where
  "decode_keys [] = []"
| "decode_keys (c # cs) =
     (if c = CHR 0x1B then
        (case cs of
           a # b # rest \<Rightarrow>
             (if a = CHR ''['' then
                if b = CHR ''A'' then Up else if b = CHR ''B'' then Down else if b = CHR ''C'' then Right
                else if b = CHR ''D'' then Left else Other_escape
              else Other_escape) # decode_keys rest
         | _ \<Rightarrow> [])
      else Plain c # decode_keys cs)"

definition pyre_readline :: "hist \<Rightarrow> char list \<Rightarrow> char list \<Rightarrow> outcome" where
  "pyre_readline h input b = edit_keys h (decode_keys input) \<lparr>ebuf = b[0 := NUL], epos = 0, elen = 0, hist_offset = -1, echo = []\<rparr>"

section \<open>The tokenizer\<close>

definition at :: "char list \<Rightarrow> nat \<Rightarrow> char" where
  "at b i = (if i < length b then b ! i else NUL)"

definition cstr_at :: "char list \<Rightarrow> nat \<Rightarrow> string" where
  "cstr_at b i = takeWhile (\<lambda>c. c \<noteq> NUL) (drop i b)"

text \<open>The first position from \<open>i\<close> on that holds the zero or fails \<open>P\<close>.\<close>

definition skip_while :: "(char \<Rightarrow> bool) \<Rightarrow> char list \<Rightarrow> nat \<Rightarrow> nat" where
  "skip_while P b i = i + length (takeWhile (\<lambda>c. c \<noteq> NUL \<and> P c) (drop i b))"

definition word_char :: "char \<Rightarrow> bool" where
  "word_char c \<longleftrightarrow> \<not> blank_char c \<and> c \<noteq> CHR ''|'' \<and> c \<noteq> CHR ''>'' \<and> c \<noteq> CHR ''<''"

text \<open>One token from a position that is not blank: its start, the next position, the bytes; None when the scan stops.\<close>

definition token_at :: "char list \<Rightarrow> nat \<Rightarrow> (nat \<times> nat \<times> char list) option" where
  "token_at b p =
     (let q = at b p
      in if q = CHR 0x22 \<or> q = CHR 0x27 then
           (let e = skip_while (\<lambda>c. c \<noteq> q) b (p + 1)
            in Some (p + 1, if at b e \<noteq> NUL then (e + 1, b[e := NUL]) else (e, b)))
         else
           (let e = skip_while word_char b p
            in if blank_char (at b e) then Some (p, e + 1, b[e := NUL])
               else if at b e \<noteq> NUL then None
               else Some (p, e, b)))"

function tokenize :: "nat \<Rightarrow> nat \<Rightarrow> char list \<Rightarrow> nat list \<times> char list" where
  "tokenize maxargs p b =
     (let p' = skip_while blank_char b p
      in if maxargs \<le> 1 \<or> at b p = NUL \<or> at b p' = NUL then ([], b)
         else case token_at b p' of
             None \<Rightarrow> ([], b)
           | Some (st, nx, b') \<Rightarrow> (case tokenize (maxargs - 1) nx b' of (toks, b2) \<Rightarrow> (st # toks, b2)))"
  by pat_completeness auto
termination
  by (relation "measure (\<lambda>(maxargs, p, b). maxargs)") auto

declare tokenize.simps [simp del]

definition argv_strings :: "nat list \<times> char list \<Rightarrow> string list" where
  "argv_strings r = map (cstr_at (snd r)) (fst r)"

section \<open>Pipelines\<close>

definition strchr_at :: "char list \<Rightarrow> nat \<Rightarrow> char \<Rightarrow> nat option" where
  "strchr_at b i c =
     (let s = cstr_at b i; k = length (takeWhile (\<lambda>x. x \<noteq> c) s) in if k < length s then Some (i + k) else None)"

record cmd =
  c_argv :: "nat list"
  redir_in :: "nat option"
  redir_out :: "nat option"
  redir_append :: bool

text \<open>Cut the name at the first space; only the commands before the last one get this.\<close>

definition cut_name :: "bool \<Rightarrow> nat \<Rightarrow> char list \<Rightarrow> char list" where
  "cut_name trim i b = (if trim then b[skip_while (\<lambda>c. c \<noteq> CHR '' '') b i := NUL] else b)"

definition out_redirect :: "bool \<Rightarrow> nat option \<Rightarrow> char list \<Rightarrow> nat option \<times> bool \<times> char list" where
  "out_redirect trim pos b =
     (case pos of
        None \<Rightarrow> (None, False, b)
      | Some o1 \<Rightarrow>
          (let b1 = b[o1 := NUL]; app = (at b1 (o1 + 1) = CHR ''>'');
               i = skip_while (\<lambda>c. c = CHR '' '') b1 (if app then o1 + 2 else o1 + 1)
           in (Some i, app, cut_name trim i b1)))"

definition in_redirect :: "bool \<Rightarrow> nat option \<Rightarrow> char list \<Rightarrow> nat option \<times> char list" where
  "in_redirect trim pos b =
     (case pos of
        None \<Rightarrow> (None, b)
      | Some i1 \<Rightarrow>
          (let b1 = b[i1 := NUL]; i = skip_while (\<lambda>c. c = CHR '' '') b1 (i1 + 1)
           in (Some i, cut_name trim i b1)))"

definition parse_cmd :: "bool \<Rightarrow> nat \<Rightarrow> char list \<Rightarrow> cmd \<times> char list" where
  "parse_cmd trim seg b =
     (let o1 = strchr_at b seg (CHR ''>''); i1 = strchr_at b seg (CHR ''<'')
      in case out_redirect trim o1 b of (ro, app, b1) \<Rightarrow>
         case in_redirect trim i1 b1 of (ri, b2) \<Rightarrow>
         case tokenize MAX_ARGS seg b2 of (av, b3) \<Rightarrow>
           (\<lparr>c_argv = av, redir_in = ri, redir_out = ro, redir_append = app\<rparr>, b3))"

definition last_cmd :: "nat \<Rightarrow> char list \<Rightarrow> cmd list \<times> char list" where
  "last_cmd seg b = (case parse_cmd False seg b of (c, b1) \<Rightarrow> (if c_argv c = [] then [] else [c], b1))"

fun pipeline :: "nat \<Rightarrow> nat \<Rightarrow> char list \<Rightarrow> cmd list \<times> char list" where
  "pipeline 0 seg b = ([], b)"
| "pipeline (Suc n) seg b =
     (case strchr_at b seg (CHR ''|'') of
        None \<Rightarrow> last_cmd seg b
      | Some pp \<Rightarrow>
          (let b1 = b[pp := NUL]
           in if n = 0 then last_cmd seg b1
              else (case parse_cmd True seg b1 of (c, b2) \<Rightarrow>
                case pipeline n (pp + 1) b2 of (cs, b3) \<Rightarrow> (c # cs, b3))))"

text \<open>A command with its strings.\<close>

record command =
  args :: "string list"
  stdin_from :: "string option"
  stdout_to :: "string option"
  appending :: bool

definition resolve_cmd :: "char list \<Rightarrow> cmd \<Rightarrow> command" where
  "resolve_cmd b c = \<lparr>args = map (cstr_at b) (c_argv c), stdin_from = map_option (cstr_at b) (redir_in c),
     stdout_to = map_option (cstr_at b) (redir_out c), appending = redir_append c\<rparr>"

definition parse_pipeline :: "nat \<Rightarrow> string \<Rightarrow> command list" where
  "parse_pipeline max_cmds line = (case pipeline max_cmds 0 (line @ [NUL]) of (cs, b) \<Rightarrow> map (resolve_cmd b) cs)"

section \<open>Executing a line\<close>

datatype builtin = Cd | Pwd | Exit | Echo | Help | Env | Set | History | Install

definition builtin_of :: "string \<Rightarrow> builtin option" where
  "builtin_of w =
     (if w = ''cd'' then Some Cd else if w = ''pwd'' then Some Pwd else if w = ''exit'' then Some Exit
      else if w = ''echo'' then Some Echo else if w = ''help'' then Some Help else if w = ''env'' then Some Env
      else if w = ''set'' then Some Set else if w = ''history'' then Some History else if w = ''install'' then Some Install
      else None)"

datatype action = Nothing | Builtin builtin "string list" | Run "command list"

definition trim_line :: "string \<Rightarrow> string" where
  "trim_line l = rev (dropWhile blank_char (rev (dropWhile blank_char l)))"

definition execute_line :: "string \<Rightarrow> hist \<Rightarrow> action \<times> hist" where
  "execute_line line h =
     (let l = trim_line line
      in if l = [] then (Nothing, h)
         else if hd l = CHR ''#'' then (Nothing, h)
         else
           (let cs = parse_pipeline 16 l
            in (if cs = [] \<or> args (hd cs) = [] then Nothing
                else if length cs = 1 then
                  (case builtin_of (hd (args (hd cs))) of Some bi \<Rightarrow> Builtin bi (args (hd cs)) | None \<Rightarrow> Run cs)
                else Run cs, hist_push l h)))"

definition builtin_echo :: "string list \<Rightarrow> string" where
  "builtin_echo av = concat (map (\<lambda>i. (if i > 1 then [CHR '' ''] else []) @ av ! i) [1 ..< length av]) @ [CHR 0x0A]"

text \<open>The search path; \<open>access\<close> tells whether a file can be executed.\<close>

fun split_colon :: "string \<Rightarrow> string list" where
  "split_colon [] = [[]]"
| "split_colon (c # cs) = (if c = CHR '':'' then [] # split_colon cs else (c # hd (split_colon cs)) # tl (split_colon cs))"

definition find_executable :: "(string \<Rightarrow> bool) \<Rightarrow> string option \<Rightarrow> string \<Rightarrow> nat \<Rightarrow> string option" where
  "find_executable access path_env nm outlen =
     (if nm \<noteq> [] \<and> (hd nm = CHR ''/'' \<or> hd nm = CHR ''.'') then
        (let out = take (outlen - 1) nm in if access out then Some out else None)
      else
        (let path = take 4095 (case path_env of None \<Rightarrow> ''/bin:/usr/bin:/sbin'' | Some p \<Rightarrow> p);
             dirs = filter (\<lambda>d. d \<noteq> []) (split_colon path)
         in find access (map (\<lambda>d. take (outlen - 1) (d @ ''/'' @ nm)) dirs)))"

section \<open>Offsets\<close>

lemma at_mid [simp]: "at (pre @ c # r) (length pre) = c"
  by (simp add: at_def)

lemma takeWhile_mid: "\<forall>x \<in> set w. P x \<Longrightarrow> \<not> P c \<Longrightarrow> takeWhile P (w @ c # r) = w"
  by (induction w) auto

lemma cstr_at_mid: "NUL \<notin> set w \<Longrightarrow> cstr_at (pre @ w @ NUL # r) (length pre) = w"
proof -
  assume "NUL \<notin> set w"
  then have "\<forall>x \<in> set w. x \<noteq> NUL" by auto
  from takeWhile_mid [OF this, of NUL r] show ?thesis by (simp add: cstr_at_def)
qed

lemma skip_while_mid:
  "\<forall>x \<in> set w. x \<noteq> NUL \<and> P x \<Longrightarrow> c = NUL \<or> \<not> P c \<Longrightarrow> skip_while P (pre @ w @ c # r) (length pre) = length pre + length w"
  using takeWhile_mid [of w "\<lambda>c. c \<noteq> NUL \<and> P c" c r] by (auto simp: skip_while_def)

section \<open>Words\<close>

text \<open>A word that needs no quotes, and how a word is written.\<close>

definition plain_word :: "string \<Rightarrow> bool" where
  "plain_word w \<longleftrightarrow> w \<noteq> [] \<and> (\<forall>c \<in> set w. word_char c) \<and> hd w \<noteq> CHR 0x27"

definition show_word :: "string \<Rightarrow> string" where
  "show_word w = (if plain_word w then w else [CHR 0x22] @ w @ [CHR 0x22])"

fun show_words :: "string list \<Rightarrow> string" where
  "show_words [] = []"
| "show_words [w] = show_word w"
| "show_words (w # ws) = show_word w @ CHR '' '' # show_words ws"

definition storable :: "string \<Rightarrow> bool" where
  "storable w \<longleftrightarrow> NUL \<notin> set w \<and> CHR 0x22 \<notin> set w"

lemma char_facts [simp]:
  "NUL \<noteq> CHR 0x22" "NUL \<noteq> CHR 0x27" "NUL \<noteq> CHR '' ''" "\<not> blank_char NUL" "blank_char (CHR '' '')" "\<not> blank_char (CHR 0x22)"
  "CHR 0x22 \<noteq> NUL" "CHR '' '' \<noteq> NUL" "\<not> word_char (CHR '' '')"
  by (simp_all add: NUL_def blank_char_def word_char_def)

text \<open>One written word at the start of the rest of the line.\<close>

lemma token_at_plain:
  assumes w: "storable w" "plain_word w"
  shows "token_at (pre @ w @ NUL # r) (length pre) = Some (length pre, length pre + length w, pre @ w @ NUL # r)"
proof -
  obtain a w' where aw: "w = a # w'" using w(2) by (cases w) (auto simp: plain_word_def)
  have a: "a \<noteq> CHR 0x22" "a \<noteq> CHR 0x27" using w aw by (auto simp: storable_def plain_word_def)
  have at: "at (pre @ w @ NUL # r) (length pre) = a" using aw by simp
  have sk: "skip_while word_char (pre @ w @ NUL # r) (length pre) = length pre + length w"
    by (rule skip_while_mid) (use w in \<open>auto simp: plain_word_def storable_def\<close>)
  have e: "at (pre @ w @ NUL # r) (length pre + length w) = NUL" using at_mid [of "pre @ w" NUL r] by simp
  show ?thesis unfolding token_at_def Let_def at sk e using a by auto
qed

lemma token_at_blank:
  assumes w: "storable w" "plain_word w" and d: "blank_char c"
  shows "token_at (pre @ w @ c # r) (length pre) = Some (length pre, length pre + length w + 1, pre @ w @ NUL # r)"
proof -
  obtain a w' where aw: "w = a # w'" using w(2) by (cases w) (auto simp: plain_word_def)
  have a: "a \<noteq> CHR 0x22" "a \<noteq> CHR 0x27" using w aw by (auto simp: storable_def plain_word_def)
  have at: "at (pre @ w @ c # r) (length pre) = a" using aw by simp
  have sk: "skip_while word_char (pre @ w @ c # r) (length pre) = length pre + length w"
    by (rule skip_while_mid) (use w d in \<open>auto simp: plain_word_def storable_def word_char_def\<close>)
  have e: "at (pre @ w @ c # r) (length pre + length w) = c" using at_mid [of "pre @ w" c r] by simp
  have u: "(pre @ w @ c # r)[length pre + length w := NUL] = pre @ w @ NUL # r" by (simp add: list_update_append)
  show ?thesis unfolding token_at_def Let_def at sk e u using a d by auto
qed

lemma token_at_quoted:
  assumes w: "storable w"
  shows "token_at (pre @ CHR 0x22 # w @ CHR 0x22 # r) (length pre) =
    Some (length pre + 1, length pre + length w + 2, pre @ CHR 0x22 # w @ NUL # r)"
proof -
  let ?b = "pre @ CHR 0x22 # w @ CHR 0x22 # r"
  have at: "at ?b (length pre) = CHR 0x22" by simp
  have sk: "skip_while (\<lambda>c. c \<noteq> CHR 0x22) ?b (length pre + 1) = length pre + 1 + length w"
    using skip_while_mid [of w "\<lambda>c. c \<noteq> CHR 0x22" "CHR 0x22" "pre @ [CHR 0x22]" r] w by (auto simp: storable_def)
  have e: "at ?b (length pre + 1 + length w) = CHR 0x22" using at_mid [of "pre @ CHR 0x22 # w" "CHR 0x22" r] by simp
  have u: "?b[length pre + 1 + length w := NUL] = pre @ CHR 0x22 # w @ NUL # r" by (simp add: list_update_append)
  show ?thesis unfolding token_at_def Let_def at sk e u by simp
qed

definition blanks :: "string \<Rightarrow> bool" where
  "blanks sp \<longleftrightarrow> (\<forall>c \<in> set sp. blank_char c)"

lemma blank_facts: "blank_char c \<Longrightarrow> c \<noteq> NUL \<and> \<not> word_char c"
  by (auto simp: word_char_def)

lemma show_words_Cons:
  "show_words (w # ws) @ tl' @ NUL # suf = show_word w @ (if ws = [] then tl' @ NUL # suf else CHR '' '' # show_words ws @ tl' @ NUL # suf)"
  by (cases ws) auto

lemma tokenize_step:
  assumes sp: "blanks sp" and n: "1 < n" and c: "\<not> blank_char c" "c \<noteq> NUL"
    and t: "token_at (pre @ sp @ c # r) (length (pre @ sp)) = Some (st, nx, b')"
  shows "tokenize n (length pre) (pre @ sp @ c # r) = (case tokenize (n - 1) nx b' of (toks, b2) \<Rightarrow> (st # toks, b2))"
proof -
  have sk: "skip_while blank_char (pre @ sp @ c # r) (length pre) = length (pre @ sp)"
    using skip_while_mid [of sp blank_char c pre r] sp c by (auto simp: blanks_def blank_facts)
  have a: "at (pre @ sp @ c # r) (length (pre @ sp)) = c" using at_mid [of "pre @ sp" c r] by simp
  have "at (pre @ sp @ c # r) (length pre) \<noteq> NUL" using sp c by (cases sp) (auto simp: blanks_def blank_facts)
  then show ?thesis
    unfolding tokenize.simps [of n] Let_def sk a t using n c by simp
qed

lemma tokenize_end: "blanks sp \<Longrightarrow> tokenize n (length pre) (pre @ sp @ NUL # r) = ([], pre @ sp @ NUL # r)"
proof -
  assume sp: "blanks sp"
  have sk: "skip_while blank_char (pre @ sp @ NUL # r) (length pre) = length (pre @ sp)"
    using skip_while_mid [of sp blank_char NUL pre r] sp by (auto simp: blanks_def blank_facts)
  have a: "at (pre @ sp @ NUL # r) (length (pre @ sp)) = NUL" using at_mid [of "pre @ sp" NUL r] by simp
  show ?thesis unfolding tokenize.simps [of n] Let_def sk a by simp
qed

text \<open>The bytes behind the zero do not matter and are not touched.\<close>

lemma tokenize_shown:
  assumes "\<forall>w \<in> set ws. storable w" "length ws < n" "blanks sp" "blanks tl'"
  shows "\<exists>toks b2. tokenize n (length pre) (pre @ sp @ show_words ws @ tl' @ NUL # suf) = (toks, pre @ b2 @ NUL # suf)
    \<and> length b2 = length (sp @ show_words ws @ tl') \<and> length toks = length ws \<and> (\<forall>suf'. map (cstr_at (pre @ b2 @ NUL # suf')) toks = ws)"
  using assms
proof (induction ws arbitrary: n pre sp tl')
  case Nil
  then have "blanks (sp @ tl')" by (auto simp: blanks_def)
  from tokenize_end [OF this, of n pre suf] show ?case by (intro exI [of _ "[]"] exI [of _ "sp @ tl'"]) simp
next
  case (Cons w ws)
  let ?rest = "if ws = [] then tl' @ NUL # suf else CHR '' '' # show_words ws @ tl' @ NUL # suf" and ?p = "pre @ sp"
  have w: "storable w" and ws: "\<forall>w \<in> set ws. storable w" "length ws < n - 1" and n: "1 < n" using Cons.prems by auto
  show ?case
  proof (cases "plain_word w")
    case True
    then obtain a w' where aw: "w = a # w'" by (cases w) (auto simp: plain_word_def)
    have a: "\<not> blank_char a" "a \<noteq> NUL" using True w aw by (auto simp: plain_word_def word_char_def storable_def)
    have line: "pre @ sp @ show_words (w # ws) @ tl' @ NUL # suf = ?p @ w @ ?rest"
      unfolding show_words_Cons using True by (simp add: show_word_def)
    show ?thesis
    proof (cases "ws = [] \<and> tl' = []")
      case fin: True
      have tk: "token_at (?p @ w @ NUL # suf) (length ?p) = Some (length ?p, length (?p @ w), ?p @ w @ NUL # suf)"
        using token_at_plain [OF w True, of ?p suf] by simp
      have "tokenize (n - 1) (length (?p @ w)) ((?p @ w) @ [] @ NUL # suf) = ([], (?p @ w) @ [] @ NUL # suf)"
        by (rule tokenize_end) (simp add: blanks_def)
      then have "tokenize n (length pre) (pre @ sp @ a # w' @ NUL # suf) = ([length ?p], ?p @ w @ NUL # suf)"
        using tokenize_step [OF Cons.prems(3) n a, of pre "w' @ NUL # suf"] tk aw by simp
      moreover have "cstr_at (?p @ w @ NUL # suf') (length ?p) = w" for suf'
        using cstr_at_mid [of w ?p suf'] w by (simp add: storable_def)
      ultimately show ?thesis
        using fin aw True unfolding line by (intro exI [of _ "[length ?p]"] exI [of _ "sp @ w"]) (simp add: show_word_def)
    next
      case mr: False
      define t2 where "t2 = (if ws = [] then tl tl' else tl')"
      have t2: "blanks t2" using Cons.prems(4) by (cases tl') (auto simp: t2_def blanks_def)
      define c where "c = (if ws = [] then hd tl' else CHR '' '')"
      have c: "?rest = c # show_words ws @ t2 @ NUL # suf" "blank_char c"
        using mr Cons.prems(4) by (cases "ws = []"; cases tl'; simp add: c_def t2_def blanks_def)+
      let ?nx = "?p @ w @ [NUL]"
      obtain toks b2 where IH: "tokenize (n - 1) (length ?nx) (?nx @ [] @ show_words ws @ t2 @ NUL # suf) = (toks, ?nx @ b2 @ NUL # suf)"
        "length b2 = length ([] @ show_words ws @ t2)" "length toks = length ws" "\<forall>suf'. map (cstr_at (?nx @ b2 @ NUL # suf')) toks = ws"
        using Cons.IH [OF ws, of "[]" t2 ?nx] t2 by (auto simp: blanks_def)
      have tk: "token_at (?p @ w @ c # show_words ws @ t2 @ NUL # suf) (length ?p)
          = Some (length ?p, length ?nx, ?p @ w @ NUL # show_words ws @ t2 @ NUL # suf)"
        using token_at_blank [OF w True c(2), of ?p] by simp
      have "tokenize n (length pre) (pre @ sp @ a # w' @ c # show_words ws @ t2 @ NUL # suf) = (length ?p # toks, ?nx @ b2 @ NUL # suf)"
        using tokenize_step [OF Cons.prems(3) n a, of pre "w' @ c # show_words ws @ t2 @ NUL # suf"] tk aw IH(1) by simp
      moreover have "cstr_at (?nx @ b2 @ NUL # suf') (length ?p) = w" for suf'
        using cstr_at_mid [of w ?p "b2 @ NUL # suf'"] w by (simp add: storable_def)
      moreover have "length (sp @ w @ [NUL] @ b2) = length (sp @ show_words (w # ws) @ tl')"
        using IH(2) mr True by (cases ws; cases tl') (auto simp: t2_def show_word_def)
      ultimately show ?thesis
        using IH(3,4) aw unfolding line c(1) by (intro exI [of _ "length ?p # toks"] exI [of _ "sp @ w @ [NUL] @ b2"]) simp
    qed
  next
    case False
    let ?q = "CHR 0x22"
    have line: "pre @ sp @ show_words (w # ws) @ tl' @ NUL # suf = ?p @ ?q # w @ ?q # ?rest"
      unfolding show_words_Cons using False by (simp add: show_word_def)
    let ?nx = "?p @ ?q # w @ [NUL]" and ?sp = "if ws = [] then [] else [CHR '' '']"
    have sp2: "blanks ?sp" by (simp add: blanks_def)
    have b: "?p @ ?q # w @ NUL # ?rest = ?nx @ ?sp @ show_words ws @ tl' @ NUL # suf" by auto
    obtain toks b2 where IH: "tokenize (n - 1) (length ?nx) (?nx @ ?sp @ show_words ws @ tl' @ NUL # suf) = (toks, ?nx @ b2 @ NUL # suf)"
      "length b2 = length (?sp @ show_words ws @ tl')" "length toks = length ws" "\<forall>suf'. map (cstr_at (?nx @ b2 @ NUL # suf')) toks = ws"
      using Cons.IH [OF ws sp2 Cons.prems(4), of ?nx] by blast
    have "tokenize n (length pre) (pre @ sp @ ?q # w @ ?q # ?rest) = ((length ?p + 1) # toks, ?nx @ b2 @ NUL # suf)"
      using tokenize_step [OF Cons.prems(3) n, of ?q pre "w @ ?q # ?rest"] token_at_quoted [OF w, of ?p ?rest] IH(1)
      unfolding b by (simp add: add.commute add.left_commute)
    moreover have "cstr_at (?nx @ b2 @ NUL # suf') (length ?p + 1) = w" for suf'
      using cstr_at_mid [of w "?p @ [?q]" "b2 @ NUL # suf'"] w by (simp add: storable_def)
    moreover have "length (sp @ ?q # w @ [NUL] @ b2) = length (sp @ show_words (w # ws) @ tl')"
      using IH(2) False by (cases ws) (auto simp: show_word_def)
    ultimately show ?thesis
      using IH(3,4) unfolding line by (intro exI [of _ "(length ?p + 1) # toks"] exI [of _ "sp @ ?q # w @ [NUL] @ b2"]) simp
  qed
qed

section \<open>Printed pipelines\<close>

definition no_special :: "string \<Rightarrow> bool" where
  "no_special w \<longleftrightarrow> CHR ''|'' \<notin> set w \<and> CHR ''>'' \<notin> set w \<and> CHR ''<'' \<notin> set w"

definition printable_command :: "string list \<Rightarrow> bool" where
  "printable_command ws \<longleftrightarrow> ws \<noteq> [] \<and> length ws < MAX_ARGS \<and> (\<forall>w \<in> set ws. storable w \<and> no_special w)"

fun show_pipe :: "string list list \<Rightarrow> string" where
  "show_pipe [] = []"
| "show_pipe [ws] = show_words ws"
| "show_pipe (ws # wss) = show_words ws @ '' | '' @ show_pipe wss"

definition plain_command :: "string list \<Rightarrow> command" where
  "plain_command ws = \<lparr>args = ws, stdin_from = None, stdout_to = None, appending = False\<rparr>"

lemma show_words_chars:
  "\<lbrakk>\<forall>w \<in> set ws. \<forall>c \<in> set w. P c; P (CHR 0x22); P (CHR '' '')\<rbrakk> \<Longrightarrow> \<forall>c \<in> set (show_words ws). P c"
  by (induction ws rule: show_words.induct) (auto simp: show_word_def)

lemma command_text:
  assumes "printable_command ws" "blanks sp" "blanks tl'" "c \<in> set (sp @ show_words ws @ tl')"
  shows "c \<noteq> NUL" "c \<noteq> CHR ''|''" "c \<noteq> CHR ''>''" "c \<noteq> CHR ''<''"
proof -
  let ?P = "\<lambda>c. c \<noteq> NUL \<and> c \<noteq> CHR ''|'' \<and> c \<noteq> CHR ''>'' \<and> c \<noteq> CHR ''<''"
  have shown: "\<forall>c \<in> set (show_words ws). ?P c"
    by (rule show_words_chars) (use assms(1) in \<open>auto simp: printable_command_def storable_def no_special_def\<close>)
  have "c \<in> set (show_words ws) \<or> blank_char c" using assms(2-4) by (auto simp: blanks_def)
  then have "?P c" using bspec [OF shown, of c] by (elim disjE) (blast, auto simp: blank_char_def NUL_def)
  then show "c \<noteq> NUL" "c \<noteq> CHR ''|''" "c \<noteq> CHR ''>''" "c \<noteq> CHR ''<''" by blast+
qed

lemma strchr_at_none:
  assumes "NUL \<notin> set w" "c \<notin> set w"
  shows "strchr_at (pre @ w @ NUL # r) (length pre) c = None"
proof -
  have tw: "takeWhile (\<lambda>x. x \<noteq> c) w = w" using assms(2) by (simp add: takeWhile_eq_all_conv) blast
  show ?thesis unfolding strchr_at_def Let_def cstr_at_mid [OF assms(1)] tw by simp
qed

lemma strchr_at_found:
  assumes "NUL \<notin> set w" "c \<notin> set w" "c \<noteq> NUL" "NUL \<notin> set r"
  shows "strchr_at (pre @ w @ c # r @ NUL # r') (length pre) c = Some (length pre + length w)"
proof -
  have "cstr_at (pre @ (w @ c # r) @ NUL # r') (length pre) = w @ c # r" by (rule cstr_at_mid) (use assms in auto)
  moreover have "takeWhile (\<lambda>x. x \<noteq> c) (w @ c # r) = w" by (rule takeWhile_mid) (use assms in auto)
  ultimately show ?thesis by (simp add: strchr_at_def)
qed

lemma parse_cmd_shown:
  assumes ws: "printable_command ws" and bl: "blanks sp" "blanks tl'"
  shows "\<exists>av b2. parse_cmd trim (length pre) (pre @ sp @ show_words ws @ tl' @ NUL # suf)
      = (\<lparr>c_argv = av, redir_in = None, redir_out = None, redir_append = False\<rparr>, pre @ b2 @ NUL # suf)
    \<and> length b2 = length (sp @ show_words ws @ tl') \<and> av \<noteq> [] \<and> (\<forall>suf'. map (cstr_at (pre @ b2 @ NUL # suf')) av = ws)"
proof -
  let ?t = "sp @ show_words ws @ tl'"
  have t: "NUL \<notin> set ?t" "CHR ''>'' \<notin> set ?t" "CHR ''<'' \<notin> set ?t" using command_text [OF ws bl] by blast+
  have sc: "strchr_at (pre @ sp @ show_words ws @ tl' @ NUL # suf) (length pre) (CHR ''>'') = None"
    "strchr_at (pre @ sp @ show_words ws @ tl' @ NUL # suf) (length pre) (CHR ''<'') = None"
    using strchr_at_none [OF t(1,2), of pre suf] strchr_at_none [OF t(1,3), of pre suf] by simp_all
  have ok: "\<forall>w \<in> set ws. storable w" "length ws < MAX_ARGS" and ne: "ws \<noteq> []" using ws by (auto simp: printable_command_def)
  obtain av b2 where tk: "tokenize MAX_ARGS (length pre) (pre @ sp @ show_words ws @ tl' @ NUL # suf) = (av, pre @ b2 @ NUL # suf)"
    "length b2 = length ?t" "length av = length ws" "\<forall>suf'. map (cstr_at (pre @ b2 @ NUL # suf')) av = ws"
    using tokenize_shown [OF ok bl, of pre suf] by blast
  have "av \<noteq> []" using tk(3) ne by auto
  with tk show ?thesis by (intro exI [of _ av] exI [of _ b2]) (simp add: parse_cmd_def sc out_redirect_def in_redirect_def)
qed

lemma show_pipe_chars: "\<forall>ws \<in> set wss. printable_command ws \<Longrightarrow> NUL \<notin> set (show_pipe wss)"
proof (induction wss rule: show_pipe.induct)
  case (2 ws)
  then show ?case using command_text(1) [of ws "[]" "[]"] by (auto simp: blanks_def)
next
  case (3 ws v va)
  then show ?case using command_text(1) [of ws "[]" "[]"] by (auto simp: blanks_def NUL_def)
qed simp

lemma resolve_plain:
  "map (cstr_at b) av = ws \<Longrightarrow> resolve_cmd b \<lparr>c_argv = av, redir_in = None, redir_out = None, redir_append = False\<rparr> = plain_command ws"
  by (simp add: resolve_cmd_def plain_command_def)

lemma pipeline_shown:
  assumes "\<forall>ws \<in> set wss. printable_command ws" "wss \<noteq> []" "length wss \<le> n" "blanks sp"
  shows "\<exists>cs b2. pipeline n (length pre) (pre @ sp @ show_pipe wss @ [NUL]) = (cs, pre @ b2 @ [NUL])
    \<and> map (resolve_cmd (pre @ b2 @ [NUL])) cs = map plain_command wss"
  using assms
proof (induction wss arbitrary: n pre sp rule: show_pipe.induct)
  case 1
  then show ?case by simp
next
  case (2 ws)
  then obtain n' where n: "n = Suc n'" by (cases n) auto
  have ws: "printable_command ws" and nb: "blanks []" using 2 by (auto simp: blanks_def)
  have "CHR ''|'' \<notin> set (sp @ show_words ws @ [])" "NUL \<notin> set (sp @ show_words ws @ [])"
    using command_text [OF ws 2(4) nb] by blast+
  then have sc: "strchr_at (pre @ sp @ show_words ws @ [NUL]) (length pre) (CHR ''|'') = None"
    using strchr_at_none [of "sp @ show_words ws @ []" _ pre "[]"] by simp
  obtain av b2 where p: "parse_cmd False (length pre) (pre @ sp @ show_words ws @ [] @ NUL # [])
      = (\<lparr>c_argv = av, redir_in = None, redir_out = None, redir_append = False\<rparr>, pre @ b2 @ NUL # [])"
    "av \<noteq> []" "\<forall>suf'. map (cstr_at (pre @ b2 @ NUL # suf')) av = ws"
    using parse_cmd_shown [OF ws 2(4) nb, of False pre "[]"] by blast
  show ?case using p sc
    by (intro exI [of _ "[\<lparr>c_argv = av, redir_in = None, redir_out = None, redir_append = False\<rparr>]"] exI [of _ b2])
      (simp add: n last_cmd_def resolve_plain)
next
  case (3 ws v va)
  let ?wss = "v # va" and ?bl = "[CHR '' '']"
  obtain n' where n: "n = Suc n'" "n' \<noteq> 0" "length ?wss \<le> n'" using 3(4) by (cases n) auto
  have ws: "printable_command ws" and rest: "\<forall>ws \<in> set ?wss. printable_command ws" and sb: "blanks ?bl" using 3 by (auto simp: blanks_def)
  let ?t = "sp @ show_words ws @ ?bl" and ?r = "?bl @ show_pipe ?wss"
  have t: "CHR ''|'' \<notin> set ?t" "NUL \<notin> set ?t" using command_text [OF ws 3(5) sb] by blast+
  have "NUL \<notin> set ?r" using show_pipe_chars [OF rest] by simp
  then have sc: "strchr_at (pre @ ?t @ CHR ''|'' # ?r @ NUL # []) (length pre) (CHR ''|'') = Some (length pre + length ?t)"
    by (intro strchr_at_found t) (simp add: NUL_def)
  have line: "pre @ sp @ show_pipe (ws # v # va) @ [NUL] = pre @ ?t @ CHR ''|'' # ?r @ NUL # []" by simp
  have split: "(pre @ ?t @ CHR ''|'' # ?r @ NUL # [])[length pre + length ?t := NUL] = pre @ sp @ show_words ws @ ?bl @ NUL # ?r @ [NUL]"
    by (simp add: list_update_append)
  obtain av b1 where p: "parse_cmd True (length pre) (pre @ sp @ show_words ws @ ?bl @ NUL # ?r @ [NUL])
      = (\<lparr>c_argv = av, redir_in = None, redir_out = None, redir_append = False\<rparr>, pre @ b1 @ NUL # ?r @ [NUL])"
    "length b1 = length ?t" "\<forall>suf'. map (cstr_at (pre @ b1 @ NUL # suf')) av = ws"
    using parse_cmd_shown [OF ws 3(5) sb, of True pre "?r @ [NUL]"] by blast
  let ?pre = "pre @ b1 @ [NUL]"
  obtain cs b2 where IH: "pipeline n' (length ?pre) (?pre @ ?bl @ show_pipe ?wss @ [NUL]) = (cs, ?pre @ b2 @ [NUL])"
    "map (resolve_cmd (?pre @ b2 @ [NUL])) cs = map plain_command ?wss"
    using 3(1) [OF rest _ n(3) sb, of ?pre] by blast
  have "length pre + length ?t + 1 = length ?pre" using p(2) by simp
  then have "pipeline n (length pre) (pre @ ?t @ CHR ''|'' # ?r @ NUL # [])
      = (\<lparr>c_argv = av, redir_in = None, redir_out = None, redir_append = False\<rparr> # cs, pre @ (b1 @ NUL # b2) @ [NUL])"
    unfolding n(1) pipeline.simps sc option.case Let_def split p(1) prod.case using n(2) IH(1) by simp
  moreover have "map (cstr_at (pre @ (b1 @ NUL # b2) @ [NUL])) av = ws" using p(3) by simp
  ultimately show ?case using IH(2) unfolding line
    by (intro exI [of _ "_ # cs"] exI [of _ "b1 @ NUL # b2"] conjI) (assumption, simp add: resolve_plain)
qed

text \<open>
  C23: a pipeline of at most sixteen commands, each of 1 to 127 words and printed with double quotes
  around the words that are empty, contain a blank or start with a single quote, is parsed
  back into exactly its commands, without redirections. No word may hold a double quote, a zero or
  one of the characters \<open>|\<close>, \<open><\<close> and \<open>>\<close>: the parser looks for these in the raw text, quoted or not.
\<close>

theorem parse_pipeline_shown:
  assumes "\<forall>ws \<in> set wss. printable_command ws" "wss \<noteq> []" "length wss \<le> max_cmds"
  shows "parse_pipeline max_cmds (show_pipe wss) = map plain_command wss"
proof -
  have nb: "blanks []" by (simp add: blanks_def)
  obtain cs b2 where "pipeline max_cmds 0 (show_pipe wss @ [NUL]) = (cs, b2 @ [NUL])"
    "map (resolve_cmd (b2 @ [NUL])) cs = map plain_command wss"
    using pipeline_shown [OF assms nb, of "[]"] by auto
  then show ?thesis by (simp add: parse_pipeline_def)
qed

theorem parse_pipeline_shown_witness:
  "parse_pipeline 16 ''cat \"my file\" | sort -r | \"\"'' = map plain_command [[''cat'', ''my file''], [''sort'', ''-r''], [[]]]"
proof -
  have "show_pipe [[''cat'', ''my file''], [''sort'', ''-r''], [[]]] = ''cat \"my file\" | sort -r | \"\"''" by code_simp
  then show ?thesis
    using parse_pipeline_shown [of "[[''cat'', ''my file''], [''sort'', ''-r''], [[]]]" 16]
    by (simp add: printable_command_def storable_def no_special_def NUL_def MAX_ARGS_def)
qed

section \<open>The history as a list\<close>

text \<open>The lines, the most recent one first, and what remembering a line means for them.\<close>

definition hist_ok :: "hist \<Rightarrow> bool" where
  "hist_ok h \<longleftrightarrow> hist_idx h < MAX_HISTORY \<and> hist_count h \<le> MAX_HISTORY"

definition hist_list :: "hist \<Rightarrow> string list" where
  "hist_list h = map (\<lambda>k. history h ((hist_idx h + (MAX_HISTORY * 2 - 1) - k) mod MAX_HISTORY)) [0 ..< hist_count h]"

definition remember :: "string \<Rightarrow> string list \<Rightarrow> string list" where
  "remember l hs = (if l = [] \<or> hs \<noteq> [] \<and> hd hs = l then hs else take MAX_HISTORY (take (MAX_LINE - 1) l # hs))"

lemma hist_list_nth: "k < hist_count h \<Longrightarrow> hist_list h ! k = history h ((hist_idx h + 99 - k) mod 50)"
  by (simp add: hist_list_def kconst)

lemma hist_list_hd: "hist_list h \<noteq> [] \<Longrightarrow> hd (hist_list h) = history h ((hist_idx h + MAX_HISTORY - 1) mod MAX_HISTORY)"
proof -
  assume "hist_list h \<noteq> []"
  then have "0 < hist_count h" by (auto simp: hist_list_def)
  moreover have "(hist_idx h + 49 + 50) mod 50 = (hist_idx h + 49) mod 50" by (rule mod_add_self2)
  ultimately show ?thesis by (simp add: hist_list_def hd_map kconst add.commute)
qed

lemma ring_slots:
  fixes i k :: nat
  assumes "i < 50" "k < 49"
  shows "((i + 1) mod 50 + 99 - Suc k) mod 50 = (i + 99 - k) mod 50" "(i + 99 - k) mod 50 \<noteq> i"
proof -
  show "((i + 1) mod 50 + 99 - Suc k) mod 50 = (i + 99 - k) mod 50"
  proof (cases "i = 49")
    case True
    have "148 - k = (98 - k) + 50" using assms(2) by simp
    then have "(148 - k) mod 50 = (98 - k) mod 50" by (simp only: mod_add_self2)
    then show ?thesis using True by simp
  next
    case False
    then have "(i + 1) mod 50 = i + 1" using assms(1) by simp
    then show ?thesis using assms(2) by (simp add: add.commute)
  qed
  show "(i + 99 - k) mod 50 \<noteq> i"
  proof
    assume eq: "(i + 99 - k) mod 50 = i"
    then have "(i + 99 - k) mod 50 = i mod 50" using assms(1) by simp
    then have "50 dvd (i + 99 - k) - i" using mod_eq_dvd_iff_nat [of i "i + 99 - k" 50] assms(2) by simp
    moreover have "(i + 99 - k) - i = 99 - k" using assms(2) by simp
    ultimately obtain q where q: "99 - k = 50 * q" by (auto simp: dvd_def)
    then show False using assms(2) by (cases "q \<le> 1") auto
  qed
qed

lemma hist_push_list:
  assumes ok: "hist_ok h"
  shows "hist_list (hist_push l h) = remember l (hist_list h)" "hist_ok (hist_push l h)"
proof -
  let ?same = "hist_count h > 0 \<and> history h ((hist_idx h + MAX_HISTORY - 1) mod MAX_HISTORY) = l"
  have i: "hist_idx h < 50" "hist_count h \<le> 50" using ok by (auto simp: hist_ok_def kconst)
  have len: "length (hist_list h) = hist_count h" by (simp add: hist_list_def)
  have "hist_list h \<noteq> [] \<longleftrightarrow> 0 < hist_count h" using len by (metis length_greater_0_conv)
  then have same: "?same \<longleftrightarrow> hist_list h \<noteq> [] \<and> hd (hist_list h) = l" using hist_list_hd [of h] by (cases "hist_list h = []") auto
  show "hist_list (hist_push l h) = remember l (hist_list h)"
  proof (cases "l = [] \<or> ?same")
    case True
    then have "hist_push l h = h" by (auto simp: hist_push_def)
    then show ?thesis using True same by (auto simp: remember_def)
  next
    case False
    then have p: "hist_push l h = h\<lparr>history := (history h)(hist_idx h := take (MAX_LINE - 1) l), hist_idx := (hist_idx h + 1) mod MAX_HISTORY,
        hist_count := min MAX_HISTORY (hist_count h + 1)\<rparr>" and r: "remember l (hist_list h) = take MAX_HISTORY (take (MAX_LINE - 1) l # hist_list h)"
      using same i by (auto simp: hist_push_def remember_def kconst)
    show ?thesis unfolding p r
    proof (rule nth_equalityI)
      fix k assume "k < length (hist_list (h\<lparr>history := (history h)(hist_idx h := take (MAX_LINE - 1) l), hist_idx := (hist_idx h + 1) mod MAX_HISTORY,
        hist_count := min MAX_HISTORY (hist_count h + 1)\<rparr>))"
      then have k: "k < min 50 (hist_count h + 1)" by (simp add: hist_list_def kconst)
      show "hist_list (h\<lparr>history := (history h)(hist_idx h := take (MAX_LINE - 1) l), hist_idx := (hist_idx h + 1) mod MAX_HISTORY,
        hist_count := min MAX_HISTORY (hist_count h + 1)\<rparr>) ! k = take MAX_HISTORY (take (MAX_LINE - 1) l # hist_list h) ! k"
      proof (cases k)
        case 0
        have "((hist_idx h + 1) mod 50 + 99) mod 50 = (hist_idx h + 2 * 50) mod 50" by (simp add: mod_simps add.commute)
        also have "\<dots> = hist_idx h" unfolding mod_mult_self1 using i by (simp only: mod_less)
        finally have "((hist_idx h + 1) mod 50 + 99) mod 50 = hist_idx h" .
        then show ?thesis using 0 k by (simp add: hist_list_nth kconst)
      next
        case (Suc j)
        with k have "j < 49" "j < hist_count h" by auto
        then show ?thesis using ring_slots [OF i(1), of j] k Suc by (simp add: hist_list_nth kconst)
      qed
    qed (simp add: hist_list_def kconst)
  qed
  show "hist_ok (hist_push l h)" using ok by (auto simp: hist_ok_def hist_push_def kconst)
qed

lemma hist_get_list:
  assumes ok: "hist_ok h" and k: "k < hist_count h"
  shows "hist_get (int k) h = Some (Some (hist_list h ! k))"
proof -
  have i: "hist_idx h < 50" "k < 50" using ok k by (auto simp: hist_ok_def kconst)
  let ?n = "int (hist_idx h) - 1 - int k + 100"
  have n: "?n = int (hist_idx h + 99 - k)" using i by auto
  have "hist_get (int k) h = Some (Some (history h (nat (?n mod 50))))"
    using k i by (simp add: hist_get_def Let_def kconst)
  also have "nat (?n mod 50) = (hist_idx h + 99 - k) mod 50" unfolding n by (simp add: nat_mod_distrib)
  finally show ?thesis using k by (simp add: hist_list_def kconst)
qed

definition hist_empty :: hist where
  "hist_empty = \<lparr>history = (\<lambda>_. []), hist_count = 0, hist_idx = 0\<rparr>"

lemma fold_push: "hist_ok h \<Longrightarrow> hist_ok (fold hist_push ls h) \<and> hist_list (fold hist_push ls h) = fold remember ls (hist_list h)"
  by (induction ls arbitrary: h) (simp_all add: hist_push_list)

lemma builtin_history_list:
  assumes ok: "hist_ok h"
  shows "map snd (builtin_history h) = rev (hist_list h)"
proof (rule nth_equalityI)
  fix j assume "j < length (map snd (builtin_history h))"
  then have j: "j < hist_count h" by (simp add: builtin_history_def)
  have "hist_idx h + 100 + j - hist_count h = hist_idx h + 99 - (hist_count h - Suc j)" using j ok by (auto simp: hist_ok_def kconst)
  then show "map snd (builtin_history h) ! j = rev (hist_list h) ! j" using j by (simp add: builtin_history_def hist_list_def rev_nth kconst)
qed (simp add: builtin_history_def hist_list_def)

text \<open>
  after any sequence of entered lines the ring buffer of the history is the list of
  the 50 most recent lines, without empty ones and immediate repetitions and cut to
  2047 characters: the arrow keys find the line entered \<open>k\<close> lines ago at offset \<open>k\<close>, and
  \<open>history\<close> prints the lines in the order they were entered.
\<close>

theorem history_is_recent_lines:
  defines "h \<equiv> \<lambda>ls. fold hist_push ls hist_empty" and "recent \<equiv> \<lambda>ls. fold remember ls []"
  shows "length (recent ls) \<le> MAX_HISTORY \<and> map snd (builtin_history (h ls)) = rev (recent ls)
    \<and> (\<forall>k < length (recent ls). hist_get (int k) (h ls) = Some (Some (recent ls ! k)))"
proof -
  have "hist_ok hist_empty" "hist_list hist_empty = []" by (simp_all add: hist_ok_def hist_empty_def hist_list_def kconst)
  then have ok: "hist_ok (h ls)" and l: "hist_list (h ls) = recent ls" using fold_push [of hist_empty ls] by (simp_all add: h_def recent_def)
  have len: "length (recent ls) = hist_count (h ls)" unfolding l [symmetric] by (simp add: hist_list_def)
  then show ?thesis using ok builtin_history_list [OF ok] hist_get_list [OF ok] by (simp add: l hist_ok_def)
qed

theorem history_is_recent_lines_witness:
  "hist_get 1 (fold hist_push [''ls'', ''ls'', ''cd /'', [], ''pwd''] hist_empty) = Some (Some ''cd /'')"
proof -
  have r: "fold remember [''ls'', ''ls'', ''cd /'', [], ''pwd''] [] = [''pwd'', ''cd /'', ''ls'']" by (simp add: remember_def kconst)
  have "(1::nat) < length (fold remember [''ls'', ''ls'', ''cd /'', [], ''pwd''] [])" unfolding r by simp
  then have "hist_get (int 1) (fold hist_push [''ls'', ''ls'', ''cd /'', [], ''pwd''] hist_empty)
      = Some (Some (fold remember [''ls'', ''ls'', ''cd /'', [], ''pwd''] [] ! 1))"
    using history_is_recent_lines [of "[''ls'', ''ls'', ''cd /'', [], ''pwd'']"] by blast
  then show ?thesis unfolding r by simp
qed

section \<open>The line editor as a zipper\<close>

text \<open>The characters before and after the cursor, and the keys that edit them.\<close>

type_synonym zipper = "string \<times> string"

fun zip_key :: "nat \<Rightarrow> key \<Rightarrow> zipper \<Rightarrow> zipper" where
  "zip_key m (Plain c) (l, r) =
     (if c = BS \<or> c = CHR 0x7F then (butlast l, r)
      else if c = CHR 0x01 then ([], l @ r)
      else if c = CHR 0x05 then (l @ r, [])
      else if (0x20 :: nat) \<le> of_char c \<and> of_char c < (0x7F :: nat) \<and> length l + length r < m then (l @ [c], r)
      else (l, r))"
| "zip_key m Left (l, r) = (if l = [] then (l, r) else (butlast l, last l # r))"
| "zip_key m Right (l, r) = (if r = [] then (l, r) else (l @ [hd r], tl r))"
| "zip_key m _ z = z"

fun editing_key :: "key \<Rightarrow> bool" where
  "editing_key (Plain c) \<longleftrightarrow> c \<noteq> CHR 0x0A \<and> c \<noteq> CHR 0x0D \<and> c \<noteq> CHR 0x03 \<and> c \<noteq> CHR 0x04 \<and> c \<noteq> CHR 0x1B"
| "editing_key Left \<longleftrightarrow> True"
| "editing_key Right \<longleftrightarrow> True"
| "editing_key _ \<longleftrightarrow> False"

fun key_bytes :: "key \<Rightarrow> char list" where
  "key_bytes (Plain c) = [c]"
| "key_bytes Left = [CHR 0x1B, CHR ''['', CHR ''D'']"
| "key_bytes Right = [CHR 0x1B, CHR ''['', CHR ''C'']"
| "key_bytes Up = [CHR 0x1B, CHR ''['', CHR ''A'']"
| "key_bytes Down = [CHR 0x1B, CHR ''['', CHR ''B'']"
| "key_bytes Other_escape = [CHR 0x1B, CHR ''['', CHR ''Z'']"

text \<open>The buffer holds the text, its zero and rest.\<close>

definition shows_text :: "editor \<Rightarrow> zipper \<Rightarrow> bool" where
  "shows_text e lr \<longleftrightarrow> (case lr of (l, r) \<Rightarrow>
     (\<exists>z. ebuf e = l @ r @ NUL # z) \<and> epos e = length l \<and> elen e = length l + length r \<and> NUL \<notin> set (l @ r))"

lemma insert_bytes:
  assumes "z \<noteq> []"
  shows "(buf_move (length l + 1) (length l) (length r) (l @ r @ NUL # z))[length l := c, length l + length r + 1 := NUL]
    = l @ c # r @ NUL # tl z"
proof -
  obtain a z' where z: "z = a # z'" using assms by (cases z) auto
  have "buf_move (length l + 1) (length l) (length r) (l @ r @ NUL # z) = l @ hd (r @ [NUL]) # r @ z"
    by (cases r) (simp_all add: buf_move_def)
  then show ?thesis by (simp add: z list_update_append)
qed

lemma delete_bytes:
  "(buf_move (length l) (length l + 1) (length r) (l @ x # r @ NUL # z))[length l + length r := NUL] = l @ r @ NUL # NUL # z"
proof -
  have d: "drop (length r) (x # r) = [last (x # r)]" by (induction r arbitrary: x) simp_all
  have "drop (length l + length r) (l @ x # r @ NUL # z) = drop (length r) ((x # r) @ NUL # z)" by simp
  also have "\<dots> = last (x # r) # NUL # z" using d by (simp add: drop_append del: append_Cons)
  finally have "buf_move (length l) (length l + 1) (length r) (l @ x # r @ NUL # z) = l @ r @ last (x # r) # NUL # z"
    by (simp add: buf_move_def)
  then show ?thesis by (simp add: list_update_append)
qed

lemma edit_key_zipper:
  assumes st: "shows_text e lr" and k: "editing_key k"
  shows "\<exists>e'. edit_key h k e = Continue e' \<and> length (ebuf e') = length (ebuf e) \<and> shows_text e' (zip_key (length (ebuf e) - 1) k lr)"
proof -
  obtain l r z where lr: "lr = (l, r)" and b: "ebuf e = l @ r @ NUL # z" and p: "epos e = length l" "elen e = length l + length r"
    and nul: "NUL \<notin> set (l @ r)" using st by (cases lr) (auto simp: shows_text_def)
  show ?thesis
  proof (cases k)
    case (Plain c)
    then have c: "c \<noteq> CHR 0x0A" "c \<noteq> CHR 0x0D" "c \<noteq> CHR 0x03" "c \<noteq> CHR 0x04" using k by auto
    consider (bs) "c = BS \<or> c = CHR 0x7F" | (home) "c = CHR 0x01" | (eol) "c = CHR 0x05"
      | (ins) "\<not> (c = BS \<or> c = CHR 0x7F)" "c \<noteq> CHR 0x01" "c \<noteq> CHR 0x05" "(0x20 :: nat) \<le> of_char c" "of_char c < (0x7F :: nat)" "z \<noteq> []"
      | (no) "\<not> (c = BS \<or> c = CHR 0x7F)" "c \<noteq> CHR 0x01" "c \<noteq> CHR 0x05" "\<not> ((0x20 :: nat) \<le> of_char c \<and> of_char c < (0x7F :: nat) \<and> z \<noteq> [])"
      by blast
    then show ?thesis
    proof cases
      case bs
      show ?thesis
      proof (cases l rule: rev_cases)
        case Nil
        then show ?thesis using bs c b p nul by (auto simp: Plain lr edit_key_def shows_text_def)
      next
        case (snoc l' x)
        then show ?thesis using bs c b p nul delete_bytes [of l' r x z]
          by (auto simp: Plain lr edit_key_def shows_text_def)
      qed
    next
      case home
      then show ?thesis using c b p nul by (auto simp: Plain lr edit_key_def shows_text_def BS_def)
    next
      case eol
      then show ?thesis using c b p nul by (auto simp: Plain lr edit_key_def shows_text_def BS_def)
    next
      case ins
      then show ?thesis using c b p nul insert_bytes [of z l r c]
        by (auto simp: Plain lr edit_key_def shows_text_def NUL_def)
    next
      case no
      then show ?thesis using c b p nul by (auto simp: Plain lr edit_key_def shows_text_def)
    qed
  next
    case Left
    then show ?thesis using b p nul by (cases l rule: rev_cases) (auto simp: lr edit_key_def shows_text_def)
  next
    case Right
    then show ?thesis using b p nul by (cases r) (auto simp: lr edit_key_def shows_text_def)
  qed (use k in auto)
qed

lemma edit_keys_zipper:
  assumes "shows_text e lr" "\<forall>k \<in> set ks. editing_key k"
  shows "\<exists>e'. edit_keys h (ks @ ks') e = edit_keys h ks' e' \<and> length (ebuf e') = length (ebuf e)
    \<and> shows_text e' (fold (zip_key (length (ebuf e) - 1)) ks lr)"
  using assms
proof (induction ks arbitrary: e lr)
  case (Cons k ks)
  obtain e1 where e1: "edit_key h k e = Continue e1" "length (ebuf e1) = length (ebuf e)" "shows_text e1 (zip_key (length (ebuf e) - 1) k lr)"
    using edit_key_zipper [OF Cons.prems(1), of k h] Cons.prems(2) by auto
  with Cons.IH [OF e1(3)] Cons.prems(2) show ?case by auto
qed auto

lemma decode_encoded: "editing_key k \<Longrightarrow> decode_keys (key_bytes k @ cs) = k # decode_keys cs"
  by (cases k) auto

lemma decode_all_encoded: "\<forall>k \<in> set ks. editing_key k \<Longrightarrow> decode_keys (concat (map key_bytes ks) @ cs) = ks @ decode_keys cs"
  by (induction ks) (simp_all add: decode_encoded)

lemma shows_text_line: "shows_text e (l, r) \<Longrightarrow> cstr_at (ebuf e) 0 = l @ r \<and> elen e = length (l @ r) \<and> (ebuf e)[length l + length r := NUL] = ebuf e"
  using cstr_at_mid [of "l @ r" "[]"] by (auto simp: shows_text_def list_update_append)

text \<open>
  C24: typing printable characters, backspace, home, end and the left and right arrows, and then
  return, yields the text that these keys produce on a zipper (the characters before and after the
  cursor) that holds at most one character less than the buffer: the editor's two block moves
  and its terminating zeros implement insertion and deletion in the middle of the line, never leave the buffer, and need
  no assumption on what the buffer held before.
\<close>

theorem readline_edits_zipper:
  assumes "b \<noteq> []" "\<forall>k \<in> set ks. editing_key k" "fold (zip_key (length b - 1)) ks ([], []) = (l, r)"
  shows "\<exists>e. pyre_readline h (concat (map key_bytes ks) @ [CHR 0x0A]) b = Line e \<and> cstr_at (ebuf e) 0 = l @ r
    \<and> elen e = length (l @ r) \<and> length (ebuf e) = length b"
proof -
  let ?e = "\<lparr>ebuf = b[0 := NUL], epos = 0, elen = 0, hist_offset = -1, echo = []\<rparr>"
  have "shows_text ?e ([], [])" using assms(1) by (cases b) (auto simp: shows_text_def)
  then obtain e where e: "edit_keys h (ks @ [Plain (CHR 0x0A)]) ?e = edit_keys h [Plain (CHR 0x0A)] e" "length (ebuf e) = length b" "shows_text e (l, r)"
    using edit_keys_zipper [of ?e "([], [])" ks h "[Plain (CHR 0x0A)]"] assms(2,3) by auto
  have "pyre_readline h (concat (map key_bytes ks) @ [CHR 0x0A]) b = edit_keys h [Plain (CHR 0x0A)] e"
    unfolding pyre_readline_def decode_all_encoded [OF assms(2)] using e(1) by simp
  then show ?thesis using shows_text_line [OF e(3)] e(2) by (simp add: edit_key_def)
qed

theorem readline_edits_zipper_witness:
  "\<exists>e. pyre_readline hist_empty (''lx'' @ [CHR 0x1B, CHR ''['', CHR ''D'', CHR ''s'', CHR 0x0A]) (replicate 8 (CHR ''?'')) = Line e
    \<and> cstr_at (ebuf e) 0 = ''lsx''"
proof -
  let ?ks = "[Plain (CHR ''l''), Plain (CHR ''x''), Left, Plain (CHR ''s'')]"
  have f: "fold (zip_key (length (replicate 8 (CHR ''?'')) - 1)) ?ks ([], []) = (''ls'', ''x'')" by (simp add: BS_def)
  have "\<forall>k \<in> set ?ks. editing_key k" by simp
  from readline_edits_zipper [OF _ this f, of hist_empty] show ?thesis by auto
qed

section \<open>Where the shell departs from what it says\<close>

text \<open>
  The names in the redirections of the last command are not cut at the first space, so an input
  redirection that is followed by an output redirection opens a file whose name ends in a blank.
\<close>

theorem redirect_name_keeps_blank:
  "parse_pipeline 16 ''sort < in > out'' = [\<lparr>args = [''sort''], stdin_from = Some ''in '', stdout_to = Some ''out'', appending = False\<rparr>]"
  by code_simp

text \<open>A vertical bar between quotes splits the pipeline.\<close>

theorem quoted_bar_splits:
  "map args (parse_pipeline 16 ''echo \"a|b\"'') = [[''echo'', ''a''], [''b\"'']]"
  by code_simp

text \<open>A built-in command prints on the terminal whatever its redirections say.\<close>

theorem builtin_drops_redirection:
  "fst (execute_line ''echo hello > f'' hist_empty) = Builtin Echo [''echo'', ''hello'']"
  by code_simp

text \<open>
  The end of the input is a line without characters, not the end of the session: the caller stops only on a negative result.
\<close>

theorem closed_input_is_empty_line:
  "b \<noteq> [] \<Longrightarrow> \<exists>e. pyre_readline h [] b = Line e \<and> elen e = 0"
  by (simp add: pyre_readline_def)

text \<open>With one line of history, the second press of the up arrow leaves the entries in use.\<close>

theorem up_arrow_leaves_history:
  "hist_get 1 (hist_push ''ls'' hist_empty) = Some (Some [])" "hist_get 101 (hist_push ''ls'' hist_empty) = None"
  by code_simp+

end
