(* ===== verification/Pmm.thy ===== *)
theory Pmm
  imports Ember_Prelude
begin

text \<open>
  The physical page allocator, \<^verbatim>\<open>src/kernel/mm/pmm.c\<close>. A page frame number (pfn) names
  a 4 KB frame; one bit of \<open>bitmap\<close> per frame, 1 for free. The state also carries the
  kernel's view of memory as 8-byte words indexed by kernel virtual address, because
  \<open>alloc_page\<close> zeroes the frame it hands out through \<open>PHYS_TO_VIRT\<close>.
  The invariant \<open>pmm_inv\<close> ties the counter \<open>free_pages\<close> to the number of set bits; the
  locale \<open>page_allocator\<close> is the contract the paging code relies on and is interpreted
  on the definitions of this theory.
\<close>

section \<open>State\<close>

definition PMM_MAX_PAGES :: u64 where [kconst]: "PMM_MAX_PAGES = 1048576"

definition BITMAP_WORDS :: nat where [kconst]: "BITMAP_WORDS = 16384"

text \<open>The messages that \<open>free_page\<close> prints before it returns without effect.\<close>

datatype pmm_msg = Unaligned u64 | OutOfRange u64 | DoubleFree u64

record pmm =
  bitmap :: "nat \<Rightarrow> u64"
  total_pages :: u64
  free_pages :: u64
  kmem :: "u64 \<Rightarrow> u64"
  pmm_log :: "pmm_msg list"

record multiboot_mmap_entry =
  base_addr :: u64
  mlength :: u64
  mtype :: u32

section \<open>Bit helpers\<close>

definition bitmap_set :: "u64 \<Rightarrow> 'a pmm_scheme \<Rightarrow> 'a pmm_scheme" where
  "bitmap_set pfn s =
     (let idx = unat (pfn div 64); b = unat (pfn mod 64)
      in s\<lparr>bitmap := (bitmap s)(idx := bitmap s idx OR push_bit b 1)\<rparr>)"

definition bitmap_clear :: "u64 \<Rightarrow> 'a pmm_scheme \<Rightarrow> 'a pmm_scheme" where
  "bitmap_clear pfn s =
     (let idx = unat (pfn div 64); b = unat (pfn mod 64)
      in s\<lparr>bitmap := (bitmap s)(idx := bitmap s idx AND NOT (push_bit b 1))\<rparr>)"

definition bitmap_test :: "u64 \<Rightarrow> 'a pmm_scheme \<Rightarrow> bool" where
  "bitmap_test pfn s =
     (let idx = unat (pfn div 64); b = unat (pfn mod 64)
      in drop_bit b (bitmap s idx) AND 1 \<noteq> 0)"

section \<open>Initialisation\<close>

text \<open>The inner loop that makes a region of the memory map available.\<close>

function mark_available :: "u64 \<Rightarrow> u64 \<Rightarrow> 'a pmm_scheme \<Rightarrow> 'a pmm_scheme" where
  "mark_available pfn pfn_end s =
     (if pfn < pfn_end \<and> pfn < PMM_MAX_PAGES
      then mark_available (pfn + 1) pfn_end
             ((bitmap_set pfn s)\<lparr>total_pages := total_pages s + 1, free_pages := free_pages s + 1\<rparr>)
      else s)"
  by pat_completeness auto
termination
  by (relation "measure (\<lambda>(pfn, pfn_end, s). unat (pfn_end - pfn))") (auto intro: word_loop_measure)

text \<open>The loops that take frames out of use again.\<close>

function mark_used :: "u64 \<Rightarrow> u64 \<Rightarrow> 'a pmm_scheme \<Rightarrow> 'a pmm_scheme" where
  "mark_used pfn pfn_end s =
     (if pfn < pfn_end \<and> pfn < PMM_MAX_PAGES
      then mark_used (pfn + 1) pfn_end
             (if bitmap_test pfn s then (bitmap_clear pfn s)\<lparr>free_pages := free_pages s - 1\<rparr> else s)
      else s)"
  by pat_completeness auto
termination
  by (relation "measure (\<lambda>(pfn, pfn_end, s). unat (pfn_end - pfn))") (auto intro: word_loop_measure)

declare mark_available.simps [simp del] mark_used.simps [simp del]

definition region_base :: "multiboot_mmap_entry \<Rightarrow> u64" where
  "region_base e = ALIGN_UP (base_addr e) PAGE_SIZE"

definition region_end :: "multiboot_mmap_entry \<Rightarrow> u64" where
  "region_end e = ALIGN_DOWN (base_addr e + mlength e) PAGE_SIZE"

definition add_region :: "multiboot_mmap_entry \<Rightarrow> 'a pmm_scheme \<Rightarrow> 'a pmm_scheme" where
  "add_region e s =
     (if mtype e \<noteq> 1 then s
      else if region_end e \<le> region_base e then s
      else mark_available (region_base e div PAGE_SIZE) (region_end e div PAGE_SIZE) s)"

text \<open>
  \<open>kernel_end\<close> and the address of the bitmap are link-time addresses: arguments here.
  The bitmap occupies 131072 bytes (16384 words of 8 bytes).
\<close>

definition pmm_init ::
    "u64 \<Rightarrow> u64 \<Rightarrow> multiboot_mmap_entry list \<Rightarrow> 'a pmm_scheme \<Rightarrow> 'a pmm_scheme" where
  "pmm_init kernel_end bitmap_addr entries s =
     (let s0 = s\<lparr>bitmap := (\<lambda>i. if i < BITMAP_WORDS then 0 else bitmap s i)\<rparr>;
          s1 = fold add_region entries s0;
          s2 = mark_used 0 256 s1;
          kpfn_end = ALIGN_UP (VIRT_TO_PHYS kernel_end) PAGE_SIZE div PAGE_SIZE;
          s3 = mark_used (KERNEL_PHYS div PAGE_SIZE) kpfn_end s2;
          bm_start = VIRT_TO_PHYS bitmap_addr;
          bm_end = bm_start + 131072
      in mark_used (bm_start div PAGE_SIZE) (ALIGN_UP bm_end PAGE_SIZE div PAGE_SIZE) s3)"

section \<open>Allocation and release\<close>

text \<open>\<open>__builtin_ctzll\<close> on a word that is not zero: the index of its lowest set bit.\<close>

function ctzll :: "nat \<Rightarrow> u64 \<Rightarrow> nat" where
  "ctzll i w = (if i < 64 \<and> \<not> bit w i then ctzll (Suc i) w else i)"
  by pat_completeness auto
termination
  by (relation "measure (\<lambda>(i, w). 64 - i)") auto

function find_word :: "nat \<Rightarrow> (nat \<Rightarrow> u64) \<Rightarrow> nat option" where
  "find_word i bm =
     (if i < BITMAP_WORDS then (if bm i = 0 then find_word (Suc i) bm else Some i) else None)"
  by pat_completeness auto
termination
  by (relation "measure (\<lambda>(i, bm). BITMAP_WORDS - i)") auto

declare ctzll.simps [simp del] find_word.simps [simp del]

text \<open>Zeroing a page: 512 words from address \<open>p\<close> on.\<close>

primrec zero_words :: "nat \<Rightarrow> u64 \<Rightarrow> (u64 \<Rightarrow> u64) \<Rightarrow> (u64 \<Rightarrow> u64)" where
  "zero_words 0 p m = m"
| "zero_words (Suc n) p m = zero_words n (p + 8) (m(p := 0))"

definition alloc_page :: "'a pmm_scheme \<Rightarrow> kstop + (u64 \<times> 'a pmm_scheme)" where
  "alloc_page s =
     (case find_word 0 (bitmap s) of
        None \<Rightarrow> Inl OutOfPhysicalMemory
      | Some word \<Rightarrow>
          let pfn = of_nat word * 64 + of_nat (ctzll 0 (bitmap s word));
              s1 = bitmap_clear pfn s;
              addr = pfn * PAGE_SIZE
          in Inr (addr, s1\<lparr>free_pages := free_pages s - 1,
                            kmem := zero_words 512 (PHYS_TO_VIRT addr) (kmem s)\<rparr>))"

definition free_page :: "u64 \<Rightarrow> 'a pmm_scheme \<Rightarrow> 'a pmm_scheme" where
  "free_page addr s =
     (if \<not> IS_ALIGNED addr PAGE_SIZE then s\<lparr>pmm_log := Unaligned addr # pmm_log s\<rparr>
      else let pfn = addr div PAGE_SIZE
           in if PMM_MAX_PAGES \<le> pfn then s\<lparr>pmm_log := OutOfRange pfn # pmm_log s\<rparr>
              else if bitmap_test pfn s then s\<lparr>pmm_log := DoubleFree addr # pmm_log s\<rparr>
              else (bitmap_set pfn s)\<lparr>free_pages := free_pages s + 1\<rparr>)"

text \<open>The statistics printed by \<open>pmm_print_stats\<close>: megabytes free and in total.\<close>

definition pmm_stats_mb :: "'a pmm_scheme \<Rightarrow> u64 \<times> u64" where
  "pmm_stats_mb s = (free_pages s * PAGE_SIZE div 1048576, total_pages s * PAGE_SIZE div 1048576)"

section \<open>The set of free frames\<close>

definition free_pfns :: "'a pmm_scheme \<Rightarrow> u64 set" where
  "free_pfns s = {pfn. pfn < PMM_MAX_PAGES \<and> bitmap_test pfn s}"

definition pmm_inv :: "'a pmm_scheme \<Rightarrow> bool" where
  "pmm_inv s \<longleftrightarrow>
     unat (free_pages s) = card (free_pfns s) \<and> (\<forall>i \<ge> BITMAP_WORDS. bitmap s i = 0)"

subsection \<open>Single bits\<close>

lemma bitmap_test_bit: "bitmap_test p s \<longleftrightarrow> bit (bitmap s (unat (p div 64))) (unat (p mod 64))"
  by (simp add: bitmap_test_def Let_def bit_iff_odd_drop_bit and_one_eq odd_iff_mod_2_eq_one)

lemma bitmap_test_set [simp]: "bitmap_test q (bitmap_set p s) \<longleftrightarrow> q = p \<or> bitmap_test q s"
proof (cases "q = p")
  case True
  then show ?thesis by (simp add: bitmap_test_bit bitmap_set_def Let_def bit_simps)
next
  case False
  with div_mod_64_eq [of q p] have "unat (q div 64) \<noteq> unat (p div 64) \<or> unat (q mod 64) \<noteq> unat (p mod 64)"
    by (auto simp: word_unat_eq_iff)
  with False show ?thesis
    by (auto simp: bitmap_test_bit bitmap_set_def Let_def bit_simps)
qed

lemma bitmap_test_clear [simp]: "bitmap_test q (bitmap_clear p s) \<longleftrightarrow> q \<noteq> p \<and> bitmap_test q s"
proof (cases "q = p")
  case True
  then show ?thesis by (simp add: bitmap_test_bit bitmap_clear_def Let_def bit_simps)
next
  case False
  with div_mod_64_eq [of q p] have "unat (q div 64) \<noteq> unat (p div 64) \<or> unat (q mod 64) \<noteq> unat (p mod 64)"
    by (auto simp: word_unat_eq_iff)
  with False show ?thesis
    by (auto simp: bitmap_test_bit bitmap_clear_def Let_def bit_simps)
qed

lemma bitmap_test_frame [simp]:
  "bitmap_test p (s\<lparr>total_pages := x\<rparr>) = bitmap_test p s"
  "bitmap_test p (s\<lparr>free_pages := x\<rparr>) = bitmap_test p s"
  "bitmap_test p (s\<lparr>kmem := m\<rparr>) = bitmap_test p s"
  "bitmap_test p (s\<lparr>pmm_log := l\<rparr>) = bitmap_test p s"
  by (simp_all add: bitmap_test_def)

lemma bitmap_set_fields [simp]:
  "free_pages (bitmap_set p s) = free_pages s" "total_pages (bitmap_set p s) = total_pages s"
  "kmem (bitmap_set p s) = kmem s" "pmm_log (bitmap_set p s) = pmm_log s"
  "pmm.more (bitmap_set p s) = pmm.more s"
  by (simp_all add: bitmap_set_def Let_def)

lemma bitmap_clear_fields [simp]:
  "free_pages (bitmap_clear p s) = free_pages s" "total_pages (bitmap_clear p s) = total_pages s"
  "kmem (bitmap_clear p s) = kmem s" "pmm_log (bitmap_clear p s) = pmm_log s"
  "pmm.more (bitmap_clear p s) = pmm.more s"
  by (simp_all add: bitmap_clear_def Let_def)

lemma pfn_word_in_range: "p < PMM_MAX_PAGES \<Longrightarrow> unat (p div 64) < BITMAP_WORDS"
  by (simp add: kconst word_less_nat_alt unat_div_distrib)

lemma bitmap_set_frame: "p < PMM_MAX_PAGES \<Longrightarrow> BITMAP_WORDS \<le> i \<Longrightarrow> bitmap (bitmap_set p s) i = bitmap s i"
  using pfn_word_in_range [of p] by (simp add: bitmap_set_def Let_def)

lemma bitmap_clear_frame: "p < PMM_MAX_PAGES \<Longrightarrow> BITMAP_WORDS \<le> i \<Longrightarrow> bitmap (bitmap_clear p s) i = bitmap s i"
  using pfn_word_in_range [of p] by (simp add: bitmap_clear_def Let_def)

subsection \<open>Sets of free frames\<close>

lemma finite_free_pfns [simp]: "finite (free_pfns s)"
  by simp

lemma free_pfns_frame [simp]:
  "free_pfns (s\<lparr>total_pages := x\<rparr>) = free_pfns s" "free_pfns (s\<lparr>free_pages := x\<rparr>) = free_pfns s"
  "free_pfns (s\<lparr>kmem := m\<rparr>) = free_pfns s" "free_pfns (s\<lparr>pmm_log := l\<rparr>) = free_pfns s"
  by (simp_all add: free_pfns_def)

lemma free_pfns_set: "p < PMM_MAX_PAGES \<Longrightarrow> free_pfns (bitmap_set p s) = insert p (free_pfns s)"
  by (auto simp: free_pfns_def)

lemma free_pfns_clear: "free_pfns (bitmap_clear p s) = free_pfns s - {p}"
  by (auto simp: free_pfns_def)

lemma card_free_pfns_le: "card (free_pfns s) \<le> 1048576"
proof -
  have "free_pfns s \<subseteq> {p. 0 \<le> p \<and> p < PMM_MAX_PAGES}" by (auto simp: free_pfns_def)
  then have "card (free_pfns s) \<le> card {p. 0 \<le> p \<and> p < PMM_MAX_PAGES}"
    by (rule card_mono [rotated]) simp
  also have "\<dots> = 1048576" by (subst card_words_interval) (simp_all add: kconst)
  finally show ?thesis .
qed

lemma pmm_inv_set:
  assumes "pmm_inv s" "p < PMM_MAX_PAGES" "\<not> bitmap_test p s"
  shows "pmm_inv ((bitmap_set p s)\<lparr>total_pages := t, free_pages := free_pages s + 1\<rparr>)"
    and "pmm_inv ((bitmap_set p s)\<lparr>free_pages := free_pages s + 1\<rparr>)"
proof -
  have "p \<notin> free_pfns s" using assms(3) by (simp add: free_pfns_def)
  moreover have "unat (free_pages s + 1) = unat (free_pages s) + 1"
    using assms(1) card_free_pfns_le [of s] by (simp add: pmm_inv_def unat_word_ariths)
  ultimately show "pmm_inv ((bitmap_set p s)\<lparr>total_pages := t, free_pages := free_pages s + 1\<rparr>)"
    and "pmm_inv ((bitmap_set p s)\<lparr>free_pages := free_pages s + 1\<rparr>)"
    using assms by (simp_all add: pmm_inv_def free_pfns_set bitmap_set_frame)
qed

lemma pmm_inv_clear:
  assumes "pmm_inv s" "p < PMM_MAX_PAGES" "bitmap_test p s"
  shows "pmm_inv ((bitmap_clear p s)\<lparr>free_pages := free_pages s - 1\<rparr>)"
proof -
  have p: "p \<in> free_pfns s" using assms(2,3) by (simp add: free_pfns_def)
  then have pos: "0 < card (free_pfns s)" by (auto simp: card_gt_0_iff)
  with assms(1) have "unat (free_pages s - 1) = unat (free_pages s) - 1"
    by (intro unat_minus_one) (auto simp: pmm_inv_def)
  then show ?thesis
    using assms p by (simp add: pmm_inv_def free_pfns_clear bitmap_clear_frame)
qed

lemma pmm_inv_frame [simp]:
  "pmm_inv (s\<lparr>total_pages := x\<rparr>) = pmm_inv s" "pmm_inv (s\<lparr>kmem := m\<rparr>) = pmm_inv s"
  "pmm_inv (s\<lparr>pmm_log := l\<rparr>) = pmm_inv s"
  by (simp_all add: pmm_inv_def)


subsection \<open>The loops of the initialisation\<close>

lemma free_pfns_mark_available:
  "free_pfns (mark_available p e s) = free_pfns s \<union> {q. p \<le> q \<and> q < e \<and> q < PMM_MAX_PAGES}"
proof (induction p e s rule: mark_available.induct)
  case (1 p e s)
  show ?case
  proof (cases "p < e \<and> p < PMM_MAX_PAGES")
    case True
    have "{q. p \<le> q \<and> q < e \<and> q < PMM_MAX_PAGES} = insert p {q. p + 1 \<le> q \<and> q < e \<and> q < PMM_MAX_PAGES}"
      using True unat_inc_less [of p e] by (auto simp: word_le_nat_alt word_less_nat_alt word_unat_eq_iff)
    with 1 [OF True] True show ?thesis
      by (simp add: mark_available.simps [of p e s] free_pfns_set)
  next
    case False
    then show ?thesis by (subst mark_available.simps) auto
  qed
qed

lemma mark_available_frame:
  "kmem (mark_available p e s) = kmem s \<and> pmm_log (mark_available p e s) = pmm_log s
   \<and> pmm.more (mark_available p e s) = pmm.more s
   \<and> (\<forall>i \<ge> BITMAP_WORDS. bitmap (mark_available p e s) i = bitmap s i)"
proof (induction p e s rule: mark_available.induct)
  case (1 p e s)
  show ?case
  proof (cases "p < e \<and> p < PMM_MAX_PAGES")
    case True
    with 1 [OF True] show ?thesis by (simp add: mark_available.simps [of p e s] bitmap_set_frame)
  next
    case False
    then show ?thesis by (subst (1 2 3 4) mark_available.simps) auto
  qed
qed

lemma pmm_inv_mark_available:
  assumes "pmm_inv s" "\<And>q. p \<le> q \<Longrightarrow> q < e \<Longrightarrow> q < PMM_MAX_PAGES \<Longrightarrow> \<not> bitmap_test q s"
  shows "pmm_inv (mark_available p e s)"
  using assms
proof (induction p e s rule: mark_available.induct)
  case (1 p e s)
  show ?case
  proof (cases "p < e \<and> p < PMM_MAX_PAGES")
    case True
    have p: "\<not> bitmap_test p s" using 1(3) True by simp
    have "pmm_inv ((bitmap_set p s)\<lparr>total_pages := total_pages s + 1, free_pages := free_pages s + 1\<rparr>)"
      using pmm_inv_set(1) [OF 1(2) _ p] True by simp
    moreover have "\<not> bitmap_test q (bitmap_set p s)" if "p + 1 \<le> q" "q < e" "q < PMM_MAX_PAGES" for q
      using 1(3) [of q] that True unat_inc_less [of p e]
      by (auto simp: word_le_nat_alt word_less_nat_alt)
    ultimately show ?thesis
      using 1(1) [OF True] True by (simp add: mark_available.simps [of p e s])
  next
    case False
    with 1(2) show ?thesis by (subst mark_available.simps) auto
  qed
qed

lemma free_pfns_mark_used:
  "free_pfns (mark_used p e s) = free_pfns s - {q. p \<le> q \<and> q < e}"
proof (induction p e s rule: mark_used.induct)
  case (1 p e s)
  show ?case
  proof (cases "p < e \<and> p < PMM_MAX_PAGES")
    case True
    have "{q. p \<le> q \<and> q < e} = insert p {q. p + 1 \<le> q \<and> q < e}"
      using True unat_inc_less [of p e] by (auto simp: word_le_nat_alt word_less_nat_alt word_unat_eq_iff)
    moreover have "\<not> bitmap_test p s \<Longrightarrow> p \<notin> free_pfns s" by (simp add: free_pfns_def)
    ultimately show ?thesis
      using 1 [OF True] True by (auto simp: mark_used.simps [of p e s] free_pfns_clear split: if_splits)
  next
    case False
    then show ?thesis by (subst mark_used.simps) (auto simp: free_pfns_def)
  qed
qed

lemma pmm_inv_mark_used: "pmm_inv s \<Longrightarrow> pmm_inv (mark_used p e s)"
proof (induction p e s rule: mark_used.induct)
  case (1 p e s)
  show ?case
    using 1 pmm_inv_clear [of s p] by (subst mark_used.simps) (simp split: if_splits)
qed

section \<open>Initialisation\<close>

text \<open>The frames an entry of the memory map makes available.\<close>

definition region_pfns :: "multiboot_mmap_entry \<Rightarrow> u64 set" where
  "region_pfns e =
     (if mtype e \<noteq> 1 \<or> region_end e \<le> region_base e then {}
      else {q. region_base e div PAGE_SIZE \<le> q \<and> q < region_end e div PAGE_SIZE \<and> q < PMM_MAX_PAGES})"

definition disjoint_regions :: "multiboot_mmap_entry list \<Rightarrow> bool" where
  "disjoint_regions es \<longleftrightarrow>
     (\<forall>i < length es. \<forall>j < i. region_pfns (es ! i) \<inter> region_pfns (es ! j) = {})"

lemma free_pfns_add_region: "free_pfns (add_region e s) = free_pfns s \<union> region_pfns e"
  by (auto simp: add_region_def region_pfns_def free_pfns_mark_available)

lemma pmm_inv_add_region:
  "pmm_inv s \<Longrightarrow> free_pfns s \<inter> region_pfns e = {} \<Longrightarrow> pmm_inv (add_region e s)"
  by (auto simp: add_region_def region_pfns_def free_pfns_def intro!: pmm_inv_mark_available)

lemma free_pfns_fold_add_region:
  "free_pfns (fold add_region es s) = free_pfns s \<union> (\<Union>e \<in> set es. region_pfns e)"
  by (induction es arbitrary: s) (auto simp: free_pfns_add_region)

lemma disjoint_regions_Cons:
  "disjoint_regions (e # es) \<longleftrightarrow>
     disjoint_regions es \<and> (\<forall>f \<in> set es. region_pfns f \<inter> region_pfns e = {})"
  unfolding disjoint_regions_def
proof (intro iffI conjI ballI; (elim conjE)?)
  assume A: "\<forall>i < length (e # es). \<forall>j < i. region_pfns ((e # es) ! i) \<inter> region_pfns ((e # es) ! j) = {}"
  show "\<forall>i < length es. \<forall>j < i. region_pfns (es ! i) \<inter> region_pfns (es ! j) = {}"
    using A by (metis Suc_less_eq length_Cons nth_Cons_Suc)
  fix f assume "f \<in> set es"
  then obtain k where "k < length es" "es ! k = f" by (auto simp: in_set_conv_nth)
  then show "region_pfns f \<inter> region_pfns e = {}"
    using A [rule_format, of "Suc k" 0] by simp
next
  assume A: "\<forall>i < length es. \<forall>j < i. region_pfns (es ! i) \<inter> region_pfns (es ! j) = {}"
    and B: "\<forall>f \<in> set es. region_pfns f \<inter> region_pfns e = {}"
  show "\<forall>i < length (e # es). \<forall>j < i. region_pfns ((e # es) ! i) \<inter> region_pfns ((e # es) ! j) = {}"
  proof (intro allI impI)
    fix i j assume "i < length (e # es)" "j < i"
    then show "region_pfns ((e # es) ! i) \<inter> region_pfns ((e # es) ! j) = {}"
      using A B by (cases i; cases j) auto
  qed
qed

lemma pmm_inv_fold_add_region:
  "pmm_inv s \<Longrightarrow> disjoint_regions es \<Longrightarrow> \<forall>e \<in> set es. free_pfns s \<inter> region_pfns e = {} \<Longrightarrow>
     pmm_inv (fold add_region es s)"
proof (induction es arbitrary: s)
  case Nil
  then show ?case by simp
next
  case (Cons e es)
  have "pmm_inv (add_region e s)" using Cons.prems by (intro pmm_inv_add_region) auto
  moreover have "\<forall>f \<in> set es. free_pfns (add_region e s) \<inter> region_pfns f = {}"
    using Cons.prems by (auto simp: free_pfns_add_region disjoint_regions_Cons)
  ultimately show ?case using Cons.IH Cons.prems(2) by (simp add: disjoint_regions_Cons)
qed

text \<open>The frames that \<open>pmm_init\<close> reserves: the first megabyte, the kernel image, the bitmap.\<close>

definition reserved_pfns :: "u64 \<Rightarrow> u64 \<Rightarrow> u64 set" where
  "reserved_pfns kernel_end bitmap_addr =
     {q. q < 256}
     \<union> {q. 256 \<le> q \<and> q < ALIGN_UP (VIRT_TO_PHYS kernel_end) PAGE_SIZE div PAGE_SIZE}
     \<union> {q. VIRT_TO_PHYS bitmap_addr div PAGE_SIZE \<le> q
          \<and> q < ALIGN_UP (VIRT_TO_PHYS bitmap_addr + 131072) PAGE_SIZE div PAGE_SIZE}"

lemma free_pfns_reset: "free_pfns (s\<lparr>bitmap := (\<lambda>i. if i < BITMAP_WORDS then 0 else bitmap s i)\<rparr>) = {}"
  by (auto simp: free_pfns_def bitmap_test_bit pfn_word_in_range)

lemma free_pfns_pmm_init:
  "free_pfns (pmm_init kend bm es s) = (\<Union>e \<in> set es. region_pfns e) - reserved_pfns kend bm"
proof -
  have "KERNEL_PHYS div PAGE_SIZE = 256" by (simp add: kconst)
  then show ?thesis
    unfolding pmm_init_def Let_def reserved_pfns_def
    by (auto simp: free_pfns_mark_used free_pfns_fold_add_region free_pfns_reset)
qed

lemma pmm_inv_pmm_init:
  assumes "free_pages s = 0" "\<forall>i \<ge> BITMAP_WORDS. bitmap s i = 0" "disjoint_regions es"
  shows "pmm_inv (pmm_init kend bm es s)"
proof -
  have "pmm_inv (s\<lparr>bitmap := (\<lambda>i. if i < BITMAP_WORDS then 0 else bitmap s i)\<rparr>)"
    using assms(1,2) by (simp add: pmm_inv_def free_pfns_reset)
  then show ?thesis
    unfolding pmm_init_def Let_def using assms(3)
    by (intro pmm_inv_mark_used pmm_inv_fold_add_region) (auto simp: free_pfns_reset)
qed


section \<open>Allocation\<close>

lemma ctzll_least:
  assumes "bit w n" "i \<le> n" "n < 64"
  shows "bit w (ctzll i w) \<and> i \<le> ctzll i w \<and> ctzll i w < 64 \<and> (\<forall>m. i \<le> m \<and> m < ctzll i w \<longrightarrow> \<not> bit w m)"
  using assms
proof (induction i w rule: ctzll.induct)
  case (1 i w)
  show ?case
  proof (cases "bit w i")
    case True
    with 1 show ?thesis by (auto simp: ctzll.simps [of i w])
  next
    case False
    with "1.prems" have "i < n" by (metis le_neq_implies_less)
    with 1 False have "bit w (ctzll (Suc i) w) \<and> Suc i \<le> ctzll (Suc i) w \<and> ctzll (Suc i) w < 64
        \<and> (\<forall>m. Suc i \<le> m \<and> m < ctzll (Suc i) w \<longrightarrow> \<not> bit w m)" by simp
    with False show ?thesis
      by (simp add: ctzll.simps [of i w]) (metis Suc_leI le_neq_implies_less)
  qed
qed

lemma ctzll_nonzero:
  assumes "w \<noteq> 0"
  shows "bit w (ctzll 0 w)" "ctzll 0 w < 64" "\<And>m. m < ctzll 0 w \<Longrightarrow> \<not> bit w m"
proof -
  obtain n where n: "bit w n" using assms by (auto simp: bit_eq_iff)
  then have "n < 64" using bit_imp_le_length [of w n] by simp
  with ctzll_least [OF n, of 0] show "bit w (ctzll 0 w)" "ctzll 0 w < 64"
    "\<And>m. m < ctzll 0 w \<Longrightarrow> \<not> bit w m" by auto
qed

lemma find_word_None: "find_word i bm = None \<longleftrightarrow> (\<forall>j. i \<le> j \<and> j < BITMAP_WORDS \<longrightarrow> bm j = 0)"
proof (induction i bm rule: find_word.induct)
  case (1 i bm)
  show ?case
  proof (cases "i < BITMAP_WORDS \<and> bm i = 0")
    case True
    have "(\<forall>j. Suc i \<le> j \<and> j < BITMAP_WORDS \<longrightarrow> bm j = 0) = (\<forall>j. i \<le> j \<and> j < BITMAP_WORDS \<longrightarrow> bm j = 0)"
      using True by (metis Suc_leI le_neq_implies_less Suc_leD)
    with 1 True show ?thesis by (simp add: find_word.simps [of i bm])
  next
    case False
    then show ?thesis by (subst find_word.simps) auto
  qed
qed

lemma find_word_Some:
  "find_word i bm = Some w \<Longrightarrow>
     i \<le> w \<and> w < BITMAP_WORDS \<and> bm w \<noteq> 0 \<and> (\<forall>j. i \<le> j \<and> j < w \<longrightarrow> bm j = 0)"
proof (induction i bm rule: find_word.induct)
  case (1 i bm)
  show ?case
  proof (cases "i < BITMAP_WORDS \<and> bm i = 0")
    case True
    with 1 have "Suc i \<le> w \<and> w < BITMAP_WORDS \<and> bm w \<noteq> 0 \<and> (\<forall>j. Suc i \<le> j \<and> j < w \<longrightarrow> bm j = 0)"
      by (simp add: find_word.simps [of i bm])
    with True show ?thesis by (metis Suc_leD Suc_leI le_neq_implies_less)
  next
    case False
    with "1.prems" show ?thesis by (subst (asm) find_word.simps) (auto split: if_splits)
  qed
qed

text \<open>The frame number that the scan computes, as a natural number.\<close>

lemma unat_scan_pfn:
  assumes "w < BITMAP_WORDS" "b < 64"
  shows "unat (of_nat w * 64 + of_nat b :: u64) = w * 64 + b"
proof -
  have "(of_nat w * 64 + of_nat b :: u64) = of_nat (w * 64 + b)" by simp
  moreover have "w * 64 + b < 2 ^ 64" using assms by (simp add: kconst)
  ultimately show ?thesis by (simp only: unat_of_nat_small)
qed

lemma find_word_free_pfns:
  "find_word 0 (bitmap s) = None \<longleftrightarrow> free_pfns s = {}"
proof
  assume "find_word 0 (bitmap s) = None"
  then show "free_pfns s = {}"
    by (auto simp: find_word_None free_pfns_def bitmap_test_bit pfn_word_in_range)
next
  assume e: "free_pfns s = {}"
  have "bitmap s j = 0" if j: "j < BITMAP_WORDS" for j
  proof (rule ccontr)
    assume nz: "bitmap s j \<noteq> 0"
    define p where "p = (of_nat j * 64 + of_nat (ctzll 0 (bitmap s j)) :: u64)"
    have u: "unat p = j * 64 + ctzll 0 (bitmap s j)"
      unfolding p_def by (rule unat_scan_pfn [OF j ctzll_nonzero(2) [OF nz]])
    then have "bitmap_test p s"
      using ctzll_nonzero [OF nz] by (simp add: bitmap_test_bit unat_div_distrib unat_mod_distrib)
    moreover have "p < PMM_MAX_PAGES"
      using u j ctzll_nonzero(2) [OF nz] by (simp add: word_less_nat_alt kconst)
    ultimately show False using e by (auto simp: free_pfns_def)
  qed
  then show "find_word 0 (bitmap s) = None" by (simp add: find_word_None)
qed

lemma scan_Min:
  assumes w: "find_word 0 (bitmap s) = Some w"
  defines "p \<equiv> of_nat w * 64 + of_nat (ctzll 0 (bitmap s w)) :: u64"
  shows "p \<in> free_pfns s" "\<forall>q \<in> free_pfns s. p \<le> q"
proof -
  from find_word_Some [OF w] have wb: "w < BITMAP_WORDS" "bitmap s w \<noteq> 0" "\<forall>j < w. bitmap s j = 0"
    by auto
  note c = ctzll_nonzero [OF wb(2)]
  have u: "unat p = w * 64 + ctzll 0 (bitmap s w)"
    unfolding p_def by (rule unat_scan_pfn [OF wb(1) c(2)])
  show "p \<in> free_pfns s"
    using u c wb(1) by (simp add: free_pfns_def bitmap_test_bit unat_div_distrib unat_mod_distrib
        word_less_nat_alt kconst)
  show "\<forall>q \<in> free_pfns s. p \<le> q"
  proof
    fix q assume "q \<in> free_pfns s"
    then have b: "bit (bitmap s (unat q div 64)) (unat q mod 64)"
      by (simp add: free_pfns_def bitmap_test_bit unat_div_distrib unat_mod_distrib)
    then have "w \<le> unat q div 64" using wb(3) by (metis bit_0_eq bot_apply not_le_imp_less bot_bool_def)
    moreover have "unat q div 64 = w \<Longrightarrow> ctzll 0 (bitmap s w) \<le> unat q mod 64"
      using b c(3) not_le_imp_less by blast
    ultimately have "w * 64 + ctzll 0 (bitmap s w) \<le> unat q"
      using c(2) by (cases "unat q div 64 = w") (auto, arith+)
    then show "p \<le> q" by (simp add: word_le_nat_alt u)
  qed
qed

lemma zero_words_eq: "zero_words n p m a = (if \<exists>i < n. a = p + 8 * of_nat i then 0 else m a)"
proof (induction n arbitrary: p m)
  case (Suc n)
  have "(\<exists>i < Suc n. a = p + 8 * of_nat i) \<longleftrightarrow> a = p \<or> (\<exists>i < n. a = p + 8 + 8 * of_nat i)"
    by (auto simp: less_Suc_eq_0_disj algebra_simps)
  with Suc show ?case by auto
qed simp

lemma alloc_page_panics: "alloc_page s = Inl OutOfPhysicalMemory \<longleftrightarrow> free_pfns s = {}"
  using find_word_free_pfns [of s] by (cases "find_word 0 (bitmap s)") (simp_all add: alloc_page_def Let_def)

lemma alloc_page_eq:
  assumes "free_pfns s \<noteq> {}"
  shows "alloc_page s = Inr (Min (free_pfns s) * PAGE_SIZE,
     (bitmap_clear (Min (free_pfns s)) s)\<lparr>free_pages := free_pages s - 1,
        kmem := zero_words 512 (PHYS_TO_VIRT (Min (free_pfns s) * PAGE_SIZE)) (kmem s)\<rparr>)"
proof -
  from assms obtain w where w: "find_word 0 (bitmap s) = Some w"
    using find_word_free_pfns by fastforce
  have "Min (free_pfns s) = of_nat w * 64 + of_nat (ctzll 0 (bitmap s w))"
    using scan_Min [OF w] by (intro Min_eqI) auto
  with w show ?thesis by (simp add: alloc_page_def Let_def)
qed

lemma Min_free_pfns: "free_pfns s \<noteq> {} \<Longrightarrow> Min (free_pfns s) \<in> free_pfns s"
  by (rule Min_in) simp_all

lemma pmm_inv_alloc_page: "pmm_inv s \<Longrightarrow> alloc_page s = Inr (a, s') \<Longrightarrow> pmm_inv s'"
proof -
  assume inv: "pmm_inv s" and a: "alloc_page s = Inr (a, s')"
  from a have "alloc_page s \<noteq> Inl OutOfPhysicalMemory" by simp
  then have ne: "free_pfns s \<noteq> {}" by (simp add: alloc_page_panics)
  have "pmm_inv ((bitmap_clear (Min (free_pfns s)) s)\<lparr>free_pages := free_pages s - 1\<rparr>)"
    using Min_free_pfns [OF ne] inv by (intro pmm_inv_clear) (auto simp: free_pfns_def)
  with a show ?thesis by (auto simp: alloc_page_eq [OF ne])
qed

lemma pfn_page_div: "p < PMM_MAX_PAGES \<Longrightarrow> p * PAGE_SIZE div PAGE_SIZE = p"
  by (simp add: word_unat_eq_iff unat_div_distrib unat_word_ariths word_less_nat_alt kconst)

lemma pfn_page_mod: "p < PMM_MAX_PAGES \<Longrightarrow> p * PAGE_SIZE mod 4096 = 0"
  by (simp add: word_unat_eq_iff unat_mod_distrib unat_word_ariths word_less_nat_alt kconst)

lemma pfn_page_inj:
  "p < PMM_MAX_PAGES \<Longrightarrow> q < PMM_MAX_PAGES \<Longrightarrow> p * PAGE_SIZE = q * PAGE_SIZE \<longleftrightarrow> p = q"
  using pfn_page_div by metis

section \<open>Release\<close>

lemma pmm_inv_free_page: "pmm_inv s \<Longrightarrow> pmm_inv (free_page a s)"
  using pmm_inv_set(2) [of s "a div PAGE_SIZE"] by (auto simp: free_page_def Let_def not_le)

lemma free_page_pfn:
  "p < PMM_MAX_PAGES \<Longrightarrow> p \<notin> free_pfns s \<Longrightarrow>
     free_page (p * PAGE_SIZE) s = (bitmap_set p s)\<lparr>free_pages := free_pages s + 1\<rparr>"
  by (simp add: free_page_def IS_ALIGNED_page pfn_page_mod pfn_page_div free_pfns_def not_le Let_def)

lemma bitmap_set_clear:
  "p \<in> free_pfns s \<Longrightarrow> bitmap (bitmap_set p (bitmap_clear p s)) = bitmap s"
proof -
  assume "p \<in> free_pfns s"
  then have "bit (bitmap s (unat (p div 64))) (unat (p mod 64))"
    by (simp add: free_pfns_def bitmap_test_bit)
  then have "bitmap s (unat (p div 64)) AND NOT (push_bit (unat (p mod 64)) 1) OR push_bit (unat (p mod 64)) 1
      = bitmap s (unat (p div 64))"
    by (intro bit_eqI) (auto simp: bit_simps)
  then show ?thesis by (simp add: bitmap_set_def bitmap_clear_def Let_def fun_eq_iff)
qed


section \<open>The contract of a page allocator\<close>

text \<open>The physical addresses of the free frames, and of all frames.\<close>

definition free_addrs :: "'a pmm_scheme \<Rightarrow> u64 set" where
  "free_addrs s = (\<lambda>p. p * PAGE_SIZE) ` free_pfns s"

definition frame_addr :: "u64 \<Rightarrow> bool" where
  "frame_addr a \<longleftrightarrow> a mod 4096 = 0 \<and> a div PAGE_SIZE < PMM_MAX_PAGES"

text \<open>Allocating \<open>n\<close> pages one after the other, as \<open>heap_expand\<close> and \<open>sys_mmap\<close> do.\<close>

fun alloc_n :: "('s \<Rightarrow> kstop + (u64 \<times> 's)) \<Rightarrow> nat \<Rightarrow> 's \<Rightarrow> kstop + (u64 list \<times> 's)" where
  "alloc_n alloc 0 s = Inr ([], s)"
| "alloc_n alloc (Suc n) s =
     kbind (alloc s) (\<lambda>(a, s1). kbind (alloc_n alloc n s1) (\<lambda>(as, s2). Inr (a # as, s2)))"

locale page_allocator =
  fixes alloc :: "'s \<Rightarrow> kstop + (u64 \<times> 's)"
    and release :: "u64 \<Rightarrow> 's \<Rightarrow> 's"
    and avail :: "'s \<Rightarrow> u64 set"
    and inv :: "'s \<Rightarrow> bool"
  assumes alloc_avail: "inv s \<Longrightarrow> avail s \<noteq> {} \<Longrightarrow>
      \<exists>a s'. alloc s = Inr (a, s') \<and> a \<in> avail s \<and> avail s' = avail s - {a} \<and> inv s'"
    and alloc_exhausted: "inv s \<Longrightarrow> avail s = {} \<Longrightarrow> alloc s = Inl OutOfPhysicalMemory"
    and release_avail: "inv s \<Longrightarrow> frame_addr a \<Longrightarrow> avail (release a s) = insert a (avail s)"
    and release_inv: "inv s \<Longrightarrow> inv (release a s)"
begin

lemma alloc_n_enough:
  "inv s \<Longrightarrow> n \<le> card (avail s) \<Longrightarrow>
     \<exists>as s'. alloc_n alloc n s = Inr (as, s') \<and> length as = n \<and> distinct as
       \<and> set as \<subseteq> avail s \<and> avail s' = avail s - set as \<and> inv s'"
proof (induction n arbitrary: s)
  case 0
  then show ?case by simp
next
  case (Suc n)
  then have "avail s \<noteq> {}" by auto
  then obtain a s1 where a: "alloc s = Inr (a, s1)" "a \<in> avail s" "avail s1 = avail s - {a}" "inv s1"
    using alloc_avail [OF Suc.prems(1)] by blast
  then have "n \<le> card (avail s1)" using Suc.prems(2) by simp
  then obtain as s2 where "alloc_n alloc n s1 = Inr (as, s2)" "length as = n" "distinct as"
    "set as \<subseteq> avail s1" "avail s2 = avail s1 - set as" "inv s2"
    using Suc.IH [OF a(4)] by blast
  with a show ?case by auto
qed

lemma alloc_n_too_many:
  "inv s \<Longrightarrow> card (avail s) < n \<Longrightarrow> alloc_n alloc n s = Inl OutOfPhysicalMemory"
proof (induction n arbitrary: s)
  case (Suc n)
  show ?case
  proof (cases "avail s = {}")
    case True
    with alloc_exhausted Suc.prems show ?thesis by simp
  next
    case False
    then obtain a s1 where a: "alloc s = Inr (a, s1)" "a \<in> avail s" "avail s1 = avail s - {a}" "inv s1"
      using alloc_avail [OF Suc.prems(1)] by blast
    then have "card (avail s1) < n" using Suc.prems(2) by (simp add: card_Diff_singleton_if) (metis Suc_pred card_gt_0_iff empty_iff finite not_less_eq)
    with Suc.IH a show ?thesis by simp
  qed
qed simp

end

lemma free_addrs_alloc:
  assumes "free_pfns s \<noteq> {}"
  shows "\<exists>a s'. alloc_page s = Inr (a, s') \<and> a \<in> free_addrs s \<and> free_addrs s' = free_addrs s - {a}"
proof -
  let ?p = "Min (free_pfns s)"
  have p: "?p \<in> free_pfns s" by (rule Min_free_pfns [OF assms])
  have inj: "inj_on (\<lambda>p. p * PAGE_SIZE) (free_pfns s)"
    by (auto simp: inj_on_def free_pfns_def pfn_page_inj)
  have "(\<lambda>p. p * PAGE_SIZE) ` (free_pfns s - {?p}) = (\<lambda>p. p * PAGE_SIZE) ` free_pfns s - {?p * PAGE_SIZE}"
    using inj_on_image_set_diff [OF inj, of "free_pfns s" "{?p}"] p by auto
  with p show ?thesis
    by (auto simp: alloc_page_eq [OF assms] free_addrs_def free_pfns_clear)
qed

lemma free_addrs_release:
  assumes "frame_addr a"
  shows "free_addrs (free_page a s) = insert a (free_addrs s)"
proof -
  from assms have p: "a div PAGE_SIZE < PMM_MAX_PAGES" and m: "a mod 4096 = 0"
    by (auto simp: frame_addr_def)
  have a: "a div PAGE_SIZE * PAGE_SIZE = a"
    using m div_mult_mod_eq [of a PAGE_SIZE] by (simp add: kconst)
  show ?thesis
  proof (cases "a div PAGE_SIZE \<in> free_pfns s")
    case True
    then have "a \<in> free_addrs s" using a by (metis free_addrs_def imageI)
    moreover have "free_pfns (free_page a s) = free_pfns s"
      using True p m by (simp add: free_page_def IS_ALIGNED_page free_pfns_def Let_def)
    ultimately show ?thesis by (simp add: free_addrs_def insert_absorb)
  next
    case False
    with p a have "free_page a s = (bitmap_set (a div PAGE_SIZE) s)\<lparr>free_pages := free_pages s + 1\<rparr>"
      using free_page_pfn [of "a div PAGE_SIZE" s] by simp
    with p a show ?thesis by (simp add: free_addrs_def free_pfns_set)
  qed
qed

interpretation pm: page_allocator alloc_page free_page free_addrs pmm_inv
proof unfold_locales
  fix s :: "'a pmm_scheme" and a
  show "pmm_inv s \<Longrightarrow> free_addrs s \<noteq> {} \<Longrightarrow>
      \<exists>a s'. alloc_page s = Inr (a, s') \<and> a \<in> free_addrs s \<and> free_addrs s' = free_addrs s - {a} \<and> pmm_inv s'"
    using free_addrs_alloc [of s] pmm_inv_alloc_page [of s] by (fastforce simp: free_addrs_def)
  show "pmm_inv s \<Longrightarrow> free_addrs s = {} \<Longrightarrow> alloc_page s = Inl OutOfPhysicalMemory"
    by (simp add: alloc_page_panics free_addrs_def)
  show "frame_addr a \<Longrightarrow> free_addrs (free_page a s) = insert a (free_addrs s)"
    by (rule free_addrs_release)
  show "pmm_inv s \<Longrightarrow> pmm_inv (free_page a s)"
    by (rule pmm_inv_free_page)
qed

lemma card_free_addrs: "card (free_addrs s) = card (free_pfns s)"
  by (simp add: free_addrs_def card_image inj_on_def free_pfns_def pfn_page_inj)


section \<open>Runs of the allocator\<close>

text \<open>The initial contents of the static data: everything zero.\<close>

definition pmm_bss :: pmm where
  "pmm_bss = \<lparr>bitmap = (\<lambda>_. 0), total_pages = 0, free_pages = 0, kmem = (\<lambda>_. 0), pmm_log = []\<rparr>"

inductive pmm_step :: "pmm \<Rightarrow> pmm \<Rightarrow> bool" where
  step_alloc: "alloc_page s = Inr (a, s') \<Longrightarrow> pmm_step s s'"
| step_free: "pmm_step s (free_page a s)"

inductive pmm_reachable :: "multiboot_mmap_entry list \<Rightarrow> pmm \<Rightarrow> bool" for es where
  reach_init: "pmm_reachable es (pmm_init kend bm es pmm_bss)"
| reach_step: "pmm_reachable es s \<Longrightarrow> pmm_step s s' \<Longrightarrow> pmm_reachable es s'"

lemma pmm_step_inv: "pmm_step s s' \<Longrightarrow> pmm_inv s \<Longrightarrow> pmm_inv s'"
  by (induction rule: pmm_step.induct) (auto intro: pmm_inv_alloc_page pmm_inv_free_page)

lemma mark_used_nothing:
  "free_pfns s \<inter> {q. p \<le> q \<and> q < e} = {} \<Longrightarrow> mark_used p e s = s"
proof (induction p e s rule: mark_used.induct)
  case (1 p e s)
  show ?case
  proof (cases "p < e \<and> p < PMM_MAX_PAGES")
    case True
    then have nt: "\<not> bitmap_test p s" using 1(2) by (auto simp: free_pfns_def)
    have "{q. p + 1 \<le> q \<and> q < e} \<subseteq> {q. p \<le> q \<and> q < e}"
      using True unat_inc_less [of p e] by (auto simp: word_le_nat_alt word_less_nat_alt)
    with 1(2) have "free_pfns s \<inter> {q. p + 1 \<le> q \<and> q < e} = {}" by blast
    with 1(1) [OF True] nt True show ?thesis by (simp add: mark_used.simps [of p e s])
  next
    case False
    then show ?thesis by (subst mark_used.simps) auto
  qed
qed

definition one_frame :: multiboot_mmap_entry where
  "one_frame = \<lparr>base_addr = 0x200000, mlength = 0x1000, mtype = 1\<rparr>"

lemma region_pfns_one_frame: "region_pfns one_frame = {512}"
proof -
  have "region_pfns one_frame = {q. 512 \<le> q \<and> q < 513}"
    by (auto simp: region_pfns_def region_base_def region_end_def one_frame_def ALIGN_UP_def
        ALIGN_DOWN_def kconst word_le_nat_alt word_less_nat_alt)
  also have "\<dots> = {512}"
    by (auto simp: word_le_nat_alt word_less_nat_alt word_unat_eq_iff)
  finally show ?thesis .
qed

lemma add_one_frame:
  "add_region one_frame s = (bitmap_set 512 s)\<lparr>total_pages := total_pages s + 1, free_pages := free_pages s + 1\<rparr>"
  by (simp add: add_region_def region_base_def region_end_def one_frame_def ALIGN_UP_def
      ALIGN_DOWN_def kconst mark_available.simps)

section \<open>Properties\<close>

text \<open>
  C1: With a free frame, \<open>alloc_page\<close> returns the physical address of the lowest free
  frame, removes exactly that frame from the free set, decrements the free counter,
  hands the page out zeroed, writes no other word of memory and keeps the invariant.
\<close>

theorem alloc_page_lowest_zeroed:
  assumes "pmm_inv s" and "free_pfns s \<noteq> {}"
  shows "\<exists>s'. alloc_page s = Inr (Min (free_pfns s) * PAGE_SIZE, s')
     \<and> free_pfns s' = free_pfns s - {Min (free_pfns s)}
     \<and> unat (free_pages s') = unat (free_pages s) - 1 \<and> pmm_inv s'
     \<and> (\<forall>v. kmem s' v =
          (if \<exists>i < 512. v = PHYS_TO_VIRT (Min (free_pfns s) * PAGE_SIZE) + 8 * of_nat i then 0 else kmem s v))"
proof -
  from alloc_page_eq [OF assms(2)] obtain s' where
    eq: "alloc_page s = Inr (Min (free_pfns s) * PAGE_SIZE, s')"
    and s': "s' = (bitmap_clear (Min (free_pfns s)) s)\<lparr>free_pages := free_pages s - 1,
        kmem := zero_words 512 (PHYS_TO_VIRT (Min (free_pfns s) * PAGE_SIZE)) (kmem s)\<rparr>" by blast
  have inv': "pmm_inv s'" by (rule pmm_inv_alloc_page [OF assms(1) eq])
  have f: "free_pfns s' = free_pfns s - {Min (free_pfns s)}" by (simp add: s' free_pfns_clear)
  have "unat (free_pages s') = unat (free_pages s) - 1"
    using assms(1) inv' f Min_free_pfns [OF assms(2)] by (simp add: pmm_inv_def)
  with eq f inv' show ?thesis by (auto simp: s' zero_words_eq)
qed

definition one_free :: pmm where
  "one_free = (bitmap_set 323 pmm_bss)\<lparr>free_pages := 1\<rparr>"

lemma free_pfns_bss: "free_pfns pmm_bss = {}"
  by (simp add: free_pfns_def bitmap_test_bit pmm_bss_def)

lemma free_pfns_one_free: "free_pfns one_free = {323}"
  by (simp add: one_free_def free_pfns_set free_pfns_bss kconst)

lemma pmm_inv_one_free: "pmm_inv one_free"
  using pmm_inv_set(2) [of pmm_bss 323] free_pfns_bss
  by (simp add: pmm_inv_def one_free_def pmm_bss_def kconst bitmap_test_bit)

theorem alloc_page_lowest_zeroed_witness:
  "pmm_inv one_free \<and> free_pfns one_free \<noteq> {} \<and>
   (\<exists>s'. alloc_page one_free = Inr (0x143000, s') \<and> free_pfns s' = {})"
  using alloc_page_lowest_zeroed [OF pmm_inv_one_free] pmm_inv_one_free
  by (auto simp: free_pfns_one_free kconst)

text \<open>
  Freeing a page right after allocating it gives back the free set, the bitmap and the
  counters of the state before the allocation.
\<close>

theorem alloc_free_roundtrip:
  assumes "alloc_page s = Inr (a, s')"
  shows "bitmap (free_page a s') = bitmap s \<and> free_pages (free_page a s') = free_pages s
       \<and> total_pages (free_page a s') = total_pages s \<and> pmm_log (free_page a s') = pmm_log s"
proof -
  from assms have "alloc_page s \<noteq> Inl OutOfPhysicalMemory" by simp
  then have ne: "free_pfns s \<noteq> {}" by (simp add: alloc_page_panics)
  let ?p = "Min (free_pfns s)"
  have p: "?p \<in> free_pfns s" "?p < PMM_MAX_PAGES"
    using Min_free_pfns [OF ne] by (auto simp: free_pfns_def)
  from assms have a: "a = ?p * PAGE_SIZE" and s': "s' = (bitmap_clear ?p s)\<lparr>free_pages := free_pages s - 1,
      kmem := zero_words 512 (PHYS_TO_VIRT (?p * PAGE_SIZE)) (kmem s)\<rparr>"
    by (auto simp: alloc_page_eq [OF ne])
  have "free_page a s' = (bitmap_set ?p s')\<lparr>free_pages := free_pages s' + 1\<rparr>"
    using p(2) by (simp add: a free_page_pfn s' free_pfns_clear)
  moreover have "bitmap (bitmap_set ?p s') = bitmap s"
    using bitmap_set_clear [OF p(1)] by (simp add: s' bitmap_set_def Let_def)
  ultimately show ?thesis by (simp add: s')
qed

theorem alloc_free_roundtrip_witness:
  "\<exists>s'. alloc_page one_free = Inr (0x143000, s') \<and> bitmap (free_page 0x143000 s') = bitmap one_free
      \<and> free_pages (free_page 0x143000 s') = 1"
proof -
  have "alloc_page one_free \<noteq> Inl OutOfPhysicalMemory"
    by (simp add: alloc_page_panics free_pfns_one_free)
  have ne: "free_pfns one_free \<noteq> {}" by (simp add: free_pfns_one_free)
  obtain s' where "alloc_page one_free = Inr (0x143000, s')"
    using alloc_page_eq [OF ne] by (simp add: free_pfns_one_free kconst)
  with alloc_free_roundtrip [OF this] show ?thesis by (auto simp: one_free_def pmm_bss_def)
qed

text \<open>
  After \<open>pmm_init\<close> on the zeroed static data the free frames are exactly those of the
  available regions below the 4 GB limit that are neither in the first megabyte nor in the
  kernel image nor in the bitmap; if the regions do not overlap, the free counter equals
  the number of free frames.
\<close>

theorem pmm_init_free_frames:
  "free_pfns (pmm_init kend bm es pmm_bss) = (\<Union>e \<in> set es. region_pfns e) - reserved_pfns kend bm
   \<and> (disjoint_regions es \<longrightarrow> pmm_inv (pmm_init kend bm es pmm_bss))"
  by (simp add: free_pfns_pmm_init pmm_inv_pmm_init pmm_bss_def)

theorem pmm_init_free_frames_witness:
  "disjoint_regions [one_frame] \<and>
   free_pfns (pmm_init (KERNEL_BASE + 0x100000) (KERNEL_BASE + 0x100000) [one_frame] pmm_bss) = {512} \<and>
   pmm_inv (pmm_init (KERNEL_BASE + 0x100000) (KERNEL_BASE + 0x100000) [one_frame] pmm_bss)"
proof -
  have d: "disjoint_regions [one_frame]" by (simp add: disjoint_regions_def)
  have "512 \<notin> reserved_pfns (KERNEL_BASE + 0x100000) (KERNEL_BASE + 0x100000)"
    by (simp add: reserved_pfns_def VIRT_TO_PHYS_def ALIGN_UP_def kconst)
  then show ?thesis
    using pmm_init_free_frames [of "KERNEL_BASE + 0x100000" "KERNEL_BASE + 0x100000" "[one_frame]"] d
    by (auto simp: region_pfns_one_frame)
qed



text \<open>
  \<open>free_page\<close> on every branch: an unaligned address, a frame beyond 4 GB and a frame
  that is already free are logged and change nothing else; a frame in use becomes free and
  the counter goes up by one.
\<close>

theorem free_page_branches:
  "free_page a s =
     (if a mod 4096 \<noteq> 0 then s\<lparr>pmm_log := Unaligned a # pmm_log s\<rparr>
      else if PMM_MAX_PAGES \<le> a div 4096 then s\<lparr>pmm_log := OutOfRange (a div 4096) # pmm_log s\<rparr>
      else if a div 4096 \<in> free_pfns s then s\<lparr>pmm_log := DoubleFree a # pmm_log s\<rparr>
      else (bitmap_set (a div 4096) s)\<lparr>free_pages := free_pages s + 1\<rparr>)
   \<and> (a mod 4096 = 0 \<and> a div 4096 < PMM_MAX_PAGES \<longrightarrow>
        free_pfns (free_page a s) = insert (a div 4096) (free_pfns s))"
proof -
  have 4: "PAGE_SIZE = 4096" by (simp add: kconst)
  show ?thesis
    unfolding free_page_def Let_def IS_ALIGNED_page unfolding 4
    by (auto simp: free_pfns_def not_le free_pfns_set)
qed

theorem free_page_branches_witness:
  "free_pfns (free_page 0x200000 pmm_bss) = {512}"
  using free_page_branches [of "0x200000" pmm_bss, THEN conjunct2] by (simp add: kconst free_pfns_bss)

text \<open>
  Repeated allocation hands out pairwise different pages, all of them free before, as
  long as enough frames are free; asking for one more than there are panics.
\<close>

theorem alloc_n_distinct:
  assumes "pmm_inv s"
  shows "(n \<le> card (free_pfns s) \<longrightarrow>
           (\<exists>as s'. alloc_n alloc_page n s = Inr (as, s') \<and> length as = n \<and> distinct as
              \<and> set as \<subseteq> free_addrs s \<and> free_addrs s' = free_addrs s - set as))
       \<and> (card (free_pfns s) < n \<longrightarrow> alloc_n alloc_page n s = Inl OutOfPhysicalMemory)"
  using pm.alloc_n_enough [OF assms, of n] pm.alloc_n_too_many [OF assms, of n]
  by (auto simp: card_free_addrs)

theorem alloc_n_distinct_witness:
  "pmm_inv one_free \<and> alloc_n alloc_page 2 one_free = Inl OutOfPhysicalMemory \<and>
   (\<exists>as s'. alloc_n alloc_page 1 one_free = Inr (as, s') \<and> length as = 1 \<and> set as \<subseteq> free_addrs one_free)"
  using alloc_n_distinct [OF pmm_inv_one_free, of 2] alloc_n_distinct [OF pmm_inv_one_free, of 1]
    pmm_inv_one_free
  by (auto simp: free_pfns_one_free)

text \<open>
  A memory map that names the same frame twice is miscounted: the frame is free once
  and counted twice, so the free counter no longer equals the number of free frames.
\<close>

theorem pmm_init_overlap_miscounts:
  defines "k \<equiv> KERNEL_BASE + 0x100000"
  shows "card (free_pfns (pmm_init k k [one_frame, one_frame] pmm_bss)) = 1
       \<and> free_pages (pmm_init k k [one_frame, one_frame] pmm_bss) = 2
       \<and> \<not> pmm_inv (pmm_init k k [one_frame, one_frame] pmm_bss)"
proof -
  let ?s = "fold add_region [one_frame, one_frame] (pmm_bss\<lparr>bitmap := \<lambda>i. if i < BITMAP_WORDS then 0 else bitmap pmm_bss i\<rparr>)"
  have f: "free_pfns ?s = {512}"
    by (simp only: free_pfns_fold_add_region free_pfns_reset) (simp add: region_pfns_one_frame)
  have c: "ALIGN_UP (VIRT_TO_PHYS k) PAGE_SIZE div PAGE_SIZE = 256" "KERNEL_PHYS div PAGE_SIZE = 256"
    "VIRT_TO_PHYS k div PAGE_SIZE = 256" "ALIGN_UP (VIRT_TO_PHYS k + 131072) PAGE_SIZE div PAGE_SIZE = 288"
    by (simp_all add: k_def VIRT_TO_PHYS_def ALIGN_UP_def kconst)
  have m: "mark_used 0 256 ?s = ?s" "mark_used 256 256 ?s = ?s" "mark_used 256 288 ?s = ?s"
    by (rule mark_used_nothing; simp only: f; simp)+
  have "pmm_init k k [one_frame, one_frame] pmm_bss = ?s"
    unfolding pmm_init_def Let_def c m ..
  with f show ?thesis by (simp add: pmm_inv_def add_one_frame pmm_bss_def)
qed

end
