(* ===== verification/Vmm.thy ===== *)
theory Vmm
  imports Pmm
begin

text \<open>
  Four-level paging, the first half of \<^verbatim>\<open>src/kernel/mm/vmm.c\<close>: \<open>get_or_alloc_table\<close>,
  \<open>map_page\<close>, \<open>unmap_page\<close> and \<open>vmm_init\<close>. Page tables are arrays of 512 words in the
  kernel memory \<open>kmem\<close> of the page allocator's state; a table is named by its kernel
  virtual address, as in the code. The translation of the processor is the specification
  function \<open>walk\<close>; \<open>vmm_inv\<close> says that every table reachable without crossing a huge
  page is a frame in use with a fixed level.
\<close>

section \<open>State, flags and indices\<close>

record vmm = pmm +
  kernel_pml4 :: u64
  cr3 :: u64
  tlb_log :: "u64 list"   \<comment> \<open>addresses flushed by invlpg, latest first\<close>

definition PF_PRESENT :: u64 where "PF_PRESENT = 1"
definition PF_WRITE :: u64 where "PF_WRITE = push_bit 1 1"
definition PF_USER :: u64 where "PF_USER = push_bit 2 1"
definition PF_HUGE :: u64 where "PF_HUGE = push_bit 7 1"
definition PF_NX :: u64 where "PF_NX = push_bit 63 1"
definition VM_EXEC :: u64 where "VM_EXEC = push_bit 2 1"

definition PHYS_MASK :: u64 where "PHYS_MASK = 0x000FFFFFFFFFF000"

definition PML4_IDX :: "u64 \<Rightarrow> u64" where "PML4_IDX v = drop_bit 39 v AND 0x1FF"
definition PDPT_IDX :: "u64 \<Rightarrow> u64" where "PDPT_IDX v = drop_bit 30 v AND 0x1FF"
definition PD_IDX :: "u64 \<Rightarrow> u64" where "PD_IDX v = drop_bit 21 v AND 0x1FF"
definition PT_IDX :: "u64 \<Rightarrow> u64" where "PT_IDX v = drop_bit 12 v AND 0x1FF"

section \<open>Operations\<close>

definition get_or_alloc_table ::
    "u64 \<Rightarrow> u64 \<Rightarrow> u32 \<Rightarrow> 'a vmm_scheme \<Rightarrow> kstop + (u64 \<times> 'a vmm_scheme)" where
  "get_or_alloc_table parent idx flags s =
     kbind
       (if kmem s (parent + 8 * idx) AND PF_PRESENT = 0
        then kbind (alloc_page s) (\<lambda>(page, s1).
               Inr (s1\<lparr>kmem := (kmem s1)(parent + 8 * idx :=
                 page OR PF_PRESENT OR PF_WRITE OR (ucast flags AND PF_USER))\<rparr>))
        else Inr s)
       (\<lambda>s2. Inr (PHYS_TO_VIRT (kmem s2 (parent + 8 * idx) AND PHYS_MASK), s2))"

definition pt_entry :: "u64 \<Rightarrow> u32 \<Rightarrow> u64" where
  "pt_entry phys flags =
     (phys AND PHYS_MASK) OR PF_PRESENT
       OR (if ucast flags AND PF_WRITE \<noteq> 0 then PF_WRITE else 0)
       OR (if ucast flags AND PF_USER \<noteq> 0 then PF_USER else 0)
       OR (if ucast flags AND VM_EXEC = 0 then PF_NX else 0)"

definition map_page :: "u64 \<Rightarrow> u64 \<Rightarrow> u32 \<Rightarrow> 'a vmm_scheme \<Rightarrow> kstop + (int \<times> 'a vmm_scheme)" where
  "map_page phys virt flags s =
     kbind (get_or_alloc_table (kernel_pml4 s) (PML4_IDX virt) flags s) (\<lambda>(pdpt, s1).
     kbind (get_or_alloc_table pdpt (PDPT_IDX virt) flags s1) (\<lambda>(pd, s2).
     kbind (get_or_alloc_table pd (PD_IDX virt) flags s2) (\<lambda>(pt, s3).
       Inr (0, s3\<lparr>kmem := (kmem s3)(pt + 8 * PT_IDX virt := pt_entry phys flags),
                   tlb_log := virt # tlb_log s3\<rparr>))))"

definition unmap_page :: "u64 \<Rightarrow> 'a vmm_scheme \<Rightarrow> 'a vmm_scheme" where
  "unmap_page virt s =
     (let pml4e = kmem s (kernel_pml4 s + 8 * PML4_IDX virt) in
      if pml4e AND PF_PRESENT = 0 then s else
      let pdpte = kmem s (PHYS_TO_VIRT (pml4e AND PHYS_MASK) + 8 * PDPT_IDX virt) in
      if pdpte AND PF_PRESENT = 0 then s else
      let pde = kmem s (PHYS_TO_VIRT (pdpte AND PHYS_MASK) + 8 * PD_IDX virt) in
      if pde AND PF_PRESENT = 0 then s else
      let pt = PHYS_TO_VIRT (pde AND PHYS_MASK) in
      s\<lparr>kmem := (kmem s)(pt + 8 * PT_IDX virt := 0), tlb_log := virt # tlb_log s\<rparr>)"

definition get_pml4 :: "'a vmm_scheme \<Rightarrow> u64" where
  "get_pml4 s = kernel_pml4 s"

text \<open>The loop of \<open>vmm_init\<close> that copies entries \<open>i\<close> to 511.\<close>

function copy_entries :: "u64 \<Rightarrow> u64 \<Rightarrow> nat \<Rightarrow> (u64 \<Rightarrow> u64) \<Rightarrow> (u64 \<Rightarrow> u64)" where
  "copy_entries dst src i m =
     (if i < 512 then copy_entries dst src (Suc i) (m(dst + 8 * of_nat i := m (src + 8 * of_nat i)))
      else m)"
  by pat_completeness auto
termination
  by (relation "measure (\<lambda>(dst, src, i, m). 512 - i)") auto

declare copy_entries.simps [simp del]

definition vmm_init :: "'a vmm_scheme \<Rightarrow> kstop + 'a vmm_scheme" where
  "vmm_init s =
     kbind (alloc_page s) (\<lambda>(pml4_phys, s1).
       let pml4 = PHYS_TO_VIRT pml4_phys;
           boot_pml4 = PHYS_TO_VIRT (cr3 s1 AND PHYS_MASK)
       in Inr (s1\<lparr>kernel_pml4 := pml4, kmem := copy_entries pml4 boot_pml4 256 (kmem s1),
                   cr3 := pml4_phys\<rparr>))"

section \<open>The processor's view\<close>

definition present :: "u64 \<Rightarrow> bool" where "present e \<longleftrightarrow> bit e 0"
definition huge :: "u64 \<Rightarrow> bool" where "huge e \<longleftrightarrow> bit e 7"

definition child :: "u64 \<Rightarrow> u64" where "child e = PHYS_TO_VIRT (e AND PHYS_MASK)"

text \<open>
  The slot that decides the translation: follow the indices from a table until the last
  level, an entry that is not present, or a huge page.
\<close>

fun leaf_slot :: "(u64 \<Rightarrow> u64) \<Rightarrow> u64 \<Rightarrow> u64 list \<Rightarrow> u64 option" where
  "leaf_slot m t [] = None"
| "leaf_slot m t [i] = Some (t + 8 * i)"
| "leaf_slot m t (i # is) =
     (let e = m (t + 8 * i) in
      if \<not> present e then None else if huge e then Some (t + 8 * i) else leaf_slot m (child e) is)"

definition indices :: "u64 \<Rightarrow> u64 list" where
  "indices v = [PML4_IDX v, PDPT_IDX v, PD_IDX v, PT_IDX v]"

definition slot :: "'a vmm_scheme \<Rightarrow> u64 \<Rightarrow> u64 option" where
  "slot s v = leaf_slot (kmem s) (kernel_pml4 s) (indices v)"

definition walk :: "'a vmm_scheme \<Rightarrow> u64 \<Rightarrow> u64 option" where
  "walk s v = (case slot s v of None \<Rightarrow> None
     | Some a \<Rightarrow> if present (kmem s a) then Some (kmem s a) else None)"

text \<open>Whether the indices run into a huge page.\<close>

fun huge_on_path :: "(u64 \<Rightarrow> u64) \<Rightarrow> u64 \<Rightarrow> u64 list \<Rightarrow> bool" where
  "huge_on_path m t [] = False"
| "huge_on_path m t [i] = False"
| "huge_on_path m t (i # is) =
     (let e = m (t + 8 * i) in present e \<and> (huge e \<or> huge_on_path m (child e) is))"

text \<open>Every table has a level, lies in a frame in use, and its entries lead one level down.\<close>

definition pt_ok :: "(u64 \<rightharpoonup> nat) \<Rightarrow> 'a vmm_scheme \<Rightarrow> bool" where
  "pt_ok lev s \<longleftrightarrow>
     (\<forall>t n. lev t = Some n \<longrightarrow> 1 \<le> n \<and> n \<le> 4
        \<and> (\<exists>a. t = PHYS_TO_VIRT a \<and> frame_addr a \<and> a \<notin> free_addrs s))
   \<and> (\<forall>t n i. lev t = Some (Suc n) \<longrightarrow> 1 \<le> n \<longrightarrow> i < 512 \<longrightarrow>
        present (kmem s (t + 8 * i)) \<longrightarrow> \<not> huge (kmem s (t + 8 * i)) \<longrightarrow>
        lev (child (kmem s (t + 8 * i))) = Some n)"

definition vmm_inv :: "'a vmm_scheme \<Rightarrow> bool" where
  "vmm_inv s \<longleftrightarrow> pmm_inv s \<and> (\<exists>lev. pt_ok lev s \<and> lev (kernel_pml4 s) = Some 4)"

section \<open>Bits of entries\<close>

lemma present_iff: "e AND PF_PRESENT = 0 \<longleftrightarrow> \<not> present e"
  by (simp add: PF_PRESENT_def present_def and_one_eq mod_2_eq_odd bit_0)

lemma bit_PF: "bit PF_PRESENT n \<longleftrightarrow> n = 0" "bit PF_WRITE n \<longleftrightarrow> n = 1" "bit PF_USER n \<longleftrightarrow> n = 2"
  "bit PF_HUGE n \<longleftrightarrow> n = 7" "bit PF_NX n \<longleftrightarrow> n = 63" "bit VM_EXEC n \<longleftrightarrow> n = 2"
  unfolding PF_PRESENT_def PF_WRITE_def PF_USER_def PF_HUGE_def PF_NX_def VM_EXEC_def
    bit_push_bit_iff bit_1_iff by auto

lemma PHYS_MASK_eq: "PHYS_MASK = mask 52 AND NOT (mask 12)"
  by (simp add: PHYS_MASK_def mask_eq_exp_minus_1)

lemma bit_PHYS_MASK: "bit PHYS_MASK n \<longleftrightarrow> 12 \<le> n \<and> n < 52"
  unfolding PHYS_MASK_eq by (auto simp: bit_simps)

lemma idx_less: "PML4_IDX v < 512" "PDPT_IDX v < 512" "PD_IDX v < 512" "PT_IDX v < 512"
proof -
  have *: "(x :: u64) AND 0x1FF < 512" for x
    using word_and_le1 [of x "0x1FF"] by (simp add: word_le_nat_alt word_less_nat_alt)
  show "PML4_IDX v < 512" "PDPT_IDX v < 512" "PD_IDX v < 512" "PT_IDX v < 512"
    unfolding PML4_IDX_def PDPT_IDX_def PD_IDX_def PT_IDX_def by (rule *)+
qed

section \<open>Tables do not overlap\<close>

definition table_base :: "u64 \<Rightarrow> bool" where
  "table_base t \<longleftrightarrow> (\<exists>a. t = PHYS_TO_VIRT a \<and> frame_addr a)"

lemma table_base_mult: "table_base t \<Longrightarrow> \<exists>k. unat t = 4096 * k"
proof -
  assume "table_base t"
  then obtain a where a: "t = a + KERNEL_BASE" "frame_addr a"
    by (auto simp: table_base_def PHYS_TO_VIRT_def)
  have "4096 dvd unat a"
    using a(2) unfolding frame_addr_def by (simp add: word_unat_eq_iff unat_mod_distrib mod_eq_0_iff_dvd)
  moreover have "4096 dvd unat KERNEL_BASE" by (simp add: kconst)
  ultimately have "4096 dvd (unat a + unat KERNEL_BASE) mod 2 ^ 64"
    by (simp add: dvd_mod)
  then have "4096 dvd unat t" unfolding a(1) by (simp add: unat_word_ariths)
  then show ?thesis by (auto elim: dvdE)
qed

lemma unat_slot: "table_base t \<Longrightarrow> i < 512 \<Longrightarrow> unat (t + 8 * i) = unat t + 8 * unat i"
proof -
  assume t: "table_base t" and i: "i < 512"
  obtain k where k: "unat t = 4096 * k" using table_base_mult [OF t] ..
  have i': "unat i < 512" using i by (simp add: word_less_nat_alt)
  have "4096 * k < 18446744073709551616" using unat_lt_64 [of t] unfolding k .
  then have "k \<le> 4503599627370495" by simp
  with i' show ?thesis by (simp add: unat_word_ariths k)
qed

lemma slot_inj:
  assumes "table_base t" "table_base u" "i < 512" "j < 512"
  shows "t + 8 * i = u + 8 * j \<longleftrightarrow> t = u \<and> i = j"
proof
  assume eq: "t + 8 * i = u + 8 * j"
  obtain k l where kl: "unat t = 4096 * k" "unat u = 4096 * l"
    using table_base_mult assms(1,2) by metis
  have e: "4096 * k + 8 * unat i = 4096 * l + 8 * unat j"
    using arg_cong [OF eq, of unat] unat_slot [OF assms(1,3)] unat_slot [OF assms(2,4)] kl by simp
  have b: "unat i < 512" "unat j < 512" using assms by (simp_all add: word_less_nat_alt)
  have "k = l" using e b by (cases k l rule: linorder_cases) auto
  with e kl show "t = u \<and> i = j" by (simp add: word_unat_eq_iff)
qed simp

lemma pt_ok_base: "pt_ok lev s \<Longrightarrow> lev t = Some n \<Longrightarrow> table_base t"
  unfolding pt_ok_def table_base_def by blast

lemma pt_ok_child:
  "pt_ok lev s \<Longrightarrow> lev t = Some (Suc n) \<Longrightarrow> 1 \<le> n \<Longrightarrow> i < 512 \<Longrightarrow> present (kmem s (t + 8 * i)) \<Longrightarrow>
   \<not> huge (kmem s (t + 8 * i)) \<Longrightarrow> lev (child (kmem s (t + 8 * i))) = Some n"
  unfolding pt_ok_def by blast

section \<open>Entries made by the paging code\<close>

lemma frame_addr_bits: "frame_addr a \<Longrightarrow> bit a n \<Longrightarrow> 12 \<le> n \<and> n < 32"
proof -
  assume f: "frame_addr a" and b: "bit a n"
  have "take_bit 12 a = 0" using f by (simp add: frame_addr_def take_bit_eq_mod)
  then have "\<not> n < 12" using b by (metis bit_take_bit_iff bit_0_eq bot_apply bot_bool_def)
  moreover have "unat a div 4096 < 1048576"
    using f by (simp add: frame_addr_def kconst word_less_nat_alt unat_div_distrib)
  then have "unat a < 2 ^ 32" by (simp add: div_less_iff_less_mult)
  then have "take_bit 32 a = a" by (simp add: take_bit_eq_mod word_unat_eq_iff unat_mod_distrib)
  then have "n < 32" using b by (metis bit_take_bit_iff)
  ultimately show ?thesis by simp
qed

definition table_entry :: "u64 \<Rightarrow> u32 \<Rightarrow> u64" where
  "table_entry page flags = page OR PF_PRESENT OR PF_WRITE OR (ucast flags AND PF_USER)"

lemma table_entry:
  assumes "frame_addr a"
  shows "present (table_entry a f)" "\<not> huge (table_entry a f)" "child (table_entry a f) = PHYS_TO_VIRT a"
proof -
  show "present (table_entry a f)" by (simp add: present_def table_entry_def bit_or_iff bit_PF)
  show "\<not> huge (table_entry a f)"
    using frame_addr_bits [OF assms, of 7] by (auto simp: huge_def table_entry_def bit_or_iff bit_and_iff bit_PF)
  have "table_entry a f AND PHYS_MASK = a"
    using frame_addr_bits [OF assms]
    by (intro bit_eqI) (fastforce simp: table_entry_def bit_or_iff bit_and_iff bit_PF bit_PHYS_MASK)
  then show "child (table_entry a f) = PHYS_TO_VIRT a" by (simp add: child_def)
qed

lemma present_pt_entry: "present (pt_entry p f)"
  by (simp add: present_def pt_entry_def bit_or_iff bit_PF)

lemma not_present_0 [simp]: "\<not> present 0"
  by (simp add: present_def)

section \<open>Looking an address up\<close>

definition lookup :: "(u64 \<Rightarrow> u64) \<Rightarrow> u64 \<Rightarrow> u64 list \<Rightarrow> u64 option" where
  "lookup m t is = (case leaf_slot m t is of None \<Rightarrow> None
     | Some a \<Rightarrow> if present (m a) then Some (m a) else None)"

lemma walk_lookup: "walk s v = lookup (kmem s) (kernel_pml4 s) (indices v)"
  by (simp add: walk_def lookup_def slot_def)

lemma lookup_last: "lookup m t [i] = (if present (m (t + 8 * i)) then Some (m (t + 8 * i)) else None)"
  by (simp add: lookup_def)

lemma lookup_step:
  "is \<noteq> [] \<Longrightarrow> lookup m t (i # is) =
     (let e = m (t + 8 * i) in if \<not> present e then None else if huge e then Some e else lookup m (child e) is)"
  by (cases "is") (simp_all add: lookup_def Let_def)

lemma leaf_slot_step:
  "is \<noteq> [] \<Longrightarrow> leaf_slot m t (i # is) =
     (let e = m (t + 8 * i) in if \<not> present e then None else if huge e then Some (t + 8 * i) else leaf_slot m (child e) is)"
  by (cases "is") (simp_all add: Let_def)

lemma huge_on_path_step:
  "is \<noteq> [] \<Longrightarrow> huge_on_path m t (i # is) =
     (let e = m (t + 8 * i) in present e \<and> (huge e \<or> huge_on_path m (child e) is))"
  by (cases "is") (simp_all add: Let_def)

lemma lookup_zero_table:
  "\<forall>j < 512. m (t + 8 * j) = 0 \<Longrightarrow> \<forall>i \<in> set is. i < 512 \<Longrightarrow> lookup m t is = None"
proof (cases "is")
  case (Cons i js)
  assume "\<forall>j < 512. m (t + 8 * j) = 0" "\<forall>i \<in> set is. i < 512"
  with Cons show ?thesis by (cases "js = []") (simp_all add: lookup_last lookup_step Let_def)
qed (simp add: lookup_def)

lemma huge_zero_table:
  "\<forall>j < 512. m (t + 8 * j) = 0 \<Longrightarrow> \<forall>i \<in> set is. i < 512 \<Longrightarrow> \<not> huge_on_path m t is"
proof (cases "is")
  case (Cons i js)
  assume "\<forall>j < 512. m (t + 8 * j) = 0" "\<forall>i \<in> set is. i < 512"
  with Cons show ?thesis by (cases "js = []") (simp_all add: huge_on_path_step Let_def)
qed simp

text \<open>A write that leaves the interior entries alone leaves the slots alone.\<close>

lemma leaf_slot_cong:
  assumes "pt_ok lev s"
    and same: "\<And>u n i. lev u = Some (Suc n) \<Longrightarrow> 1 \<le> n \<Longrightarrow> i < 512 \<Longrightarrow> m (u + 8 * i) = kmem s (u + 8 * i)"
  shows "lev t = Some (length is) \<Longrightarrow> \<forall>i \<in> set is. i < 512 \<Longrightarrow>
    leaf_slot m t is = leaf_slot (kmem s) t is \<and> huge_on_path m t is = huge_on_path (kmem s) t is"
proof (induction "is" arbitrary: t)
  case (Cons i js)
  show ?case
  proof (cases "js = []")
    case False
    then have n: "1 \<le> length js" by (cases js) auto
    have e: "m (t + 8 * i) = kmem s (t + 8 * i)" using same [of t "length js" i] Cons.prems n by simp
    show ?thesis
      using Cons.IH [OF pt_ok_child [OF assms(1)], of t i] Cons.prems n False
      by (simp add: leaf_slot_step huge_on_path_step e Let_def)
  qed simp
qed simp

text \<open>A slot is an entry of a table: of level 1, or a huge entry further up.\<close>

lemma leaf_slot_table:
  assumes "pt_ok lev s"
  shows "lev t = Some (length is) \<Longrightarrow> \<forall>i \<in> set is. i < 512 \<Longrightarrow> leaf_slot (kmem s) t is = Some a \<Longrightarrow>
    \<exists>u n i. lev u = Some n \<and> i < 512 \<and> a = u + 8 * i"
proof (induction "is" arbitrary: t)
  case (Cons i js)
  show ?case
  proof (cases "js = []")
    case False
    then have n: "1 \<le> length js" by (cases js) auto
    show ?thesis
      using Cons.IH [OF pt_ok_child [OF assms(1)], of t i] Cons.prems n False
      by (auto simp: leaf_slot_step Let_def split: if_splits)
  qed (use Cons.prems in auto)
qed simp

section \<open>A fresh table changes no translation\<close>

lemma frame_addr_free: "a \<in> free_addrs s \<Longrightarrow> frame_addr a"
  by (auto simp: free_addrs_def frame_addr_def free_pfns_def pfn_page_div pfn_page_mod)

lemma alloc_page_frame:
  fixes s :: "'a vmm_scheme"
  assumes "alloc_page s = Inr (a, s')"
  shows "a \<in> free_addrs s" "free_addrs s' = free_addrs s - {a}"
    "kernel_pml4 s' = kernel_pml4 s" "cr3 s' = cr3 s" "tlb_log s' = tlb_log s"
    "vmm.more s' = vmm.more s"
    "kmem s' = zero_words 512 (PHYS_TO_VIRT a) (kmem s)"
proof -
  from assms have "alloc_page s \<noteq> Inl OutOfPhysicalMemory" by simp
  then have ne: "free_pfns s \<noteq> {}" by (simp add: alloc_page_panics)
  show "a \<in> free_addrs s" "free_addrs s' = free_addrs s - {a}"
    using free_addrs_alloc [OF ne] assms by auto
  show "kernel_pml4 s' = kernel_pml4 s" "cr3 s' = cr3 s" "tlb_log s' = tlb_log s"
    "vmm.more s' = vmm.more s"
    "kmem s' = zero_words 512 (PHYS_TO_VIRT a) (kmem s)"
    using assms by (auto simp: alloc_page_eq [OF ne] bitmap_clear_def Let_def)
qed

lemma alloc_page_slots:
  fixes s :: "'a vmm_scheme"
  assumes "alloc_page s = Inr (a, s')" "table_base u" "j < 512"
  shows "kmem s' (u + 8 * j) = (if u = PHYS_TO_VIRT a then 0 else kmem s (u + 8 * j))"
proof -
  have b: "table_base (PHYS_TO_VIRT a)"
    using frame_addr_free [OF alloc_page_frame(1) [OF assms(1)]] by (auto simp: table_base_def)
  have "(\<exists>i < 512. u + 8 * j = PHYS_TO_VIRT a + 8 * of_nat i) \<longleftrightarrow> u = PHYS_TO_VIRT a"
  proof
    assume "\<exists>i < 512. u + 8 * j = PHYS_TO_VIRT a + 8 * of_nat i"
    then obtain i :: nat where i: "i < 512" "u + 8 * j = PHYS_TO_VIRT a + 8 * of_nat i" by blast
    have "(of_nat i :: u64) < 512" using i(1) by (simp add: word_less_nat_alt unat_of_nat)
    with slot_inj [OF assms(2) b assms(3)] i(2) show "u = PHYS_TO_VIRT a" by blast
  next
    assume "u = PHYS_TO_VIRT a"
    moreover have "unat j < 512" "j = of_nat (unat j)" using assms(3) by (simp_all add: word_less_nat_alt)
    ultimately show "\<exists>i < 512. u + 8 * j = PHYS_TO_VIRT a + 8 * of_nat i" by metis
  qed
  then show ?thesis by (simp add: alloc_page_frame(7) [OF assms(1)] zero_words_eq)
qed

lemma free_addrs_frame [simp]:
  "free_addrs (s\<lparr>kmem := m\<rparr>) = free_addrs s"
  "free_addrs ((s :: 'a vmm_scheme)\<lparr>tlb_log := l\<rparr>) = free_addrs s"
  "free_addrs ((s :: 'a vmm_scheme)\<lparr>cr3 := c\<rparr>) = free_addrs s"
  "free_addrs ((s :: 'a vmm_scheme)\<lparr>kernel_pml4 := p\<rparr>) = free_addrs s"
  by (simp_all add: free_addrs_def free_pfns_def bitmap_test_def)

lemma vmm_fields_pmm [simp]:
  "pmm_inv ((s :: 'a vmm_scheme)\<lparr>tlb_log := l\<rparr>) = pmm_inv s"
  "pmm_inv ((s :: 'a vmm_scheme)\<lparr>cr3 := c\<rparr>) = pmm_inv s"
  "pmm_inv ((s :: 'a vmm_scheme)\<lparr>kernel_pml4 := p\<rparr>) = pmm_inv s"
  by (simp_all add: pmm_inv_def free_pfns_def bitmap_test_def)

text \<open>
  What \<open>get_or_alloc_table\<close> may do to the tables: new levels, old present entries kept, and
  every lookup from an old table with the same outcome.
\<close>

definition extends :: "(u64 \<rightharpoonup> nat) \<Rightarrow> 'a vmm_scheme \<Rightarrow> (u64 \<rightharpoonup> nat) \<Rightarrow> 'a vmm_scheme \<Rightarrow> bool" where
  "extends lev s lev' s' \<longleftrightarrow>
     pmm_inv s' \<and> pt_ok lev' s' \<and> lev \<subseteq>\<^sub>m lev' \<and> kernel_pml4 s' = kernel_pml4 s
   \<and> cr3 s' = cr3 s \<and> tlb_log s' = tlb_log s \<and> vmm.more s' = vmm.more s \<and> free_addrs s' \<subseteq> free_addrs s
   \<and> (\<forall>u n j. lev u = Some n \<longrightarrow> j < 512 \<longrightarrow> present (kmem s (u + 8 * j)) \<longrightarrow>
        kmem s' (u + 8 * j) = kmem s (u + 8 * j))
   \<and> (\<forall>u is. lev u = Some (length is) \<longrightarrow> (\<forall>i \<in> set is. i < 512) \<longrightarrow>
        lookup (kmem s') u is = lookup (kmem s) u is
        \<and> huge_on_path (kmem s') u is = huge_on_path (kmem s) u is)"

lemma extends_refl: "pmm_inv s \<Longrightarrow> pt_ok lev s \<Longrightarrow> extends lev s lev s"
  by (simp add: extends_def)

lemma extends_trans:
  assumes "extends lev s lev1 s1" "extends lev1 s1 lev2 s2"
  shows "extends lev s lev2 s2"
proof -
  have m: "lev1 u = Some n" if "lev u = Some n" for u n
    using assms(1) that unfolding extends_def map_le_def dom_def by (metis (mono_tags, lifting) CollectI option.distinct(1))
  show ?thesis
    using assms m unfolding extends_def by (auto intro: map_le_trans)
qed

lemma lookup_new_table:
  assumes ok: "pt_ok lev s" and t: "lev t = Some (Suc n)" "i < 512"
    and np: "\<not> present (kmem s (t + 8 * i))"
    and new: "present e" "\<not> huge e" "m (t + 8 * i) = e" "\<forall>j < 512. m (child e + 8 * j) = 0"
    and same: "\<And>u n j. lev u = Some n \<Longrightarrow> j < 512 \<Longrightarrow> u + 8 * j \<noteq> t + 8 * i \<Longrightarrow> m (u + 8 * j) = kmem s (u + 8 * j)"
    and nn: "1 \<le> n"
  shows "lev u = Some (length is) \<Longrightarrow> \<forall>i \<in> set is. i < 512 \<Longrightarrow>
    lookup m u is = lookup (kmem s) u is \<and> huge_on_path m u is = huge_on_path (kmem s) u is"
proof (induction "is" arbitrary: u)
  case (Cons k js)
  show ?case
  proof (cases "u + 8 * k = t + 8 * i")
    case True
    then have "u = t" using slot_inj pt_ok_base [OF ok] Cons.prems t by (metis list.set_intros(1))
    then have ne: "js \<noteq> []" using Cons.prems t(1) nn by auto
    have "lookup m (child e) js = None" "\<not> huge_on_path m (child e) js"
      using Cons.prems lookup_zero_table [OF new(4), of js] huge_zero_table [OF new(4), of js] by auto
    with ne True np new(1-3) show ?thesis by (simp add: lookup_step huge_on_path_step Let_def)
  next
    case False
    have e: "m (u + 8 * k) = kmem s (u + 8 * k)" using same [OF Cons.prems(1) _ False] Cons.prems by simp
    show ?thesis
    proof (cases "js = []")
      case True
      then show ?thesis by (simp add: lookup_last e)
    next
      case False
      then have n: "1 \<le> length js" by (cases js) auto
      show ?thesis
        using Cons.IH [OF pt_ok_child [OF ok], of u k] Cons.prems n False
        by (simp add: lookup_step huge_on_path_step e Let_def)
    qed
  qed
qed (simp add: lookup_def)

lemma pt_ok_new_table:
  assumes ok: "pt_ok lev s" and t: "lev t = Some (Suc n)" "1 \<le> n" "i < 512"
    and a: "alloc_page s = Inr (a, s1)"
  shows "pt_ok (lev(PHYS_TO_VIRT a \<mapsto> n)) (s1\<lparr>kmem := (kmem s1)(t + 8 * i := table_entry a f)\<rparr>)"
    and "lev (PHYS_TO_VIRT a) = None"
proof -
  let ?T = "PHYS_TO_VIRT a" and ?s' = "s1\<lparr>kmem := (kmem s1)(t + 8 * i := table_entry a f)\<rparr>"
  have fa: "frame_addr a" by (rule frame_addr_free [OF alloc_page_frame(1) [OF a]])
  have bT: "table_base ?T" using fa by (auto simp: table_base_def)
  have used: "\<exists>b. u = PHYS_TO_VIRT b \<and> frame_addr b \<and> b \<notin> free_addrs s" if "lev u = Some m" for u m
    using ok that unfolding pt_ok_def by blast
  show new: "lev ?T = None"
  proof (rule ccontr)
    assume "lev ?T \<noteq> None"
    then obtain m where "lev ?T = Some m" by blast
    with used alloc_page_frame(1) [OF a] show False by fastforce
  qed
  have bt: "table_base t" by (rule pt_ok_base [OF ok t(1)])
  have "t \<noteq> ?T" using t(1) new by auto
  have kT: "kmem ?s' (?T + 8 * j) = 0" if "j < 512" for j
    using slot_inj [OF bT bt that t(3)] alloc_page_slots [OF a bT that] \<open>t \<noteq> ?T\<close> by auto
  have ku: "kmem ?s' (u + 8 * j) = (if u = t \<and> j = i then table_entry a f else kmem s (u + 8 * j))"
    if "lev u = Some m" "j < 512" for u m j
  proof -
    have "u \<noteq> ?T" using that new by auto
    then show ?thesis
      using slot_inj [OF pt_ok_base [OF ok that(1)] bt that(2) t(3)]
        alloc_page_slots [OF a pt_ok_base [OF ok that(1)] that(2)] by simp
  qed
  show "pt_ok (lev(?T \<mapsto> n)) ?s'"
    unfolding pt_ok_def
  proof (intro conjI allI impI)
    fix u m assume "(lev(?T \<mapsto> n)) u = Some m"
    then show "1 \<le> m" "m \<le> 4" "\<exists>b. u = PHYS_TO_VIRT b \<and> frame_addr b \<and> b \<notin> free_addrs ?s'"
      using ok t fa alloc_page_frame(2) [OF a] unfolding pt_ok_def
      by (force split: if_splits)+
  next
    fix u m j assume u: "(lev(?T \<mapsto> n)) u = Some (Suc m)" and m: "1 \<le> m" and j: "j < (512 :: u64)"
      and p: "present (kmem ?s' (u + 8 * j))" and h: "\<not> huge (kmem ?s' (u + 8 * j))"
    have "u \<noteq> ?T" using kT [OF j] p by auto
    with u have lu: "lev u = Some (Suc m)" by simp
    show "(lev(?T \<mapsto> n)) (child (kmem ?s' (u + 8 * j))) = Some m"
    proof (cases "u = t \<and> j = i")
      case True
      with lu t(1) have "m = n" by simp
      then show ?thesis unfolding ku [OF lu j] using True table_entry(3) [OF fa] by simp
    next
      case False
      have e: "kmem ?s' (u + 8 * j) = kmem s (u + 8 * j)" unfolding ku [OF lu j] using False by auto
      have "lev (child (kmem s (u + 8 * j))) = Some m"
        using pt_ok_child [OF ok lu m j] p h unfolding e by blast
      then show ?thesis unfolding e using new by auto
    qed
  qed
qed

lemma get_or_alloc_ok:
  assumes inv: "pmm_inv s" and ok: "pt_ok lev s" and t: "lev t = Some (Suc n)" "1 \<le> n" "i < 512"
    and free: "Suc k \<le> card (free_pfns s)"
    and path: "\<not> huge_on_path (kmem s) t (i # is)" and ne: "is \<noteq> []" and small: "\<forall>j \<in> set is. j < 512"
  shows "\<exists>t' s' lev'. get_or_alloc_table t i f s = Inr (t', s') \<and> extends lev s lev' s' \<and> lev' t' = Some n
    \<and> present (kmem s' (t + 8 * i)) \<and> \<not> huge (kmem s' (t + 8 * i)) \<and> child (kmem s' (t + 8 * i)) = t'
    \<and> \<not> huge_on_path (kmem s') t' is \<and> k \<le> card (free_pfns s')"
proof (cases "present (kmem s (t + 8 * i))")
  case True
  with path have h: "\<not> huge (kmem s (t + 8 * i))" "\<not> huge_on_path (kmem s) (child (kmem s (t + 8 * i))) is"
    by (auto simp: huge_on_path_step [OF ne] Let_def)
  have g: "get_or_alloc_table t i f s = Inr (child (kmem s (t + 8 * i)), s)"
    using True by (simp add: get_or_alloc_table_def present_iff child_def)
  show ?thesis
    using g True h extends_refl [OF inv ok] pt_ok_child [OF ok t True h(1)] free by auto
next
  case False
  from free have fne: "free_addrs s \<noteq> {}" by (auto simp: free_addrs_def)
  obtain a s1 where a: "alloc_page s = Inr (a, s1)" and inv1: "pmm_inv s1"
    using pm.alloc_avail [OF inv fne] by blast
  let ?T = "PHYS_TO_VIRT a" and ?e = "table_entry a f"
  let ?s' = "s1\<lparr>kmem := (kmem s1)(t + 8 * i := ?e)\<rparr>"
  have fa: "frame_addr a" by (rule frame_addr_free [OF alloc_page_frame(1) [OF a]])
  note te = table_entry [OF fa, of f] and new = pt_ok_new_table(1) [OF ok t a, of f] pt_ok_new_table(2) [OF ok t a]
  have bT: "table_base ?T" using fa by (auto simp: table_base_def)
  have bt: "table_base t" by (rule pt_ok_base [OF ok t(1)])
  have g: "get_or_alloc_table t i f s = Inr (?T, ?s')"
    using False te by (simp add: get_or_alloc_table_def present_iff a table_entry_def child_def)
  have "t \<noteq> ?T" using t(1) new(2) by auto
  then have kT: "\<forall>j < 512. kmem ?s' (?T + 8 * j) = 0"
    using slot_inj [OF bT bt _ t(3)] alloc_page_slots [OF a bT] by auto
  have ku: "kmem ?s' (u + 8 * j) = kmem s (u + 8 * j)"
    if u: "lev u = Some m" "j < 512" "u + 8 * j \<noteq> t + 8 * i" for u m j
  proof -
    have "u \<noteq> ?T" using u(1) new(2) by auto
    then show ?thesis using alloc_page_slots [OF a pt_ok_base [OF ok u(1)] u(2)] u(3) by simp
  qed
  have kid: "\<forall>j < 512. kmem ?s' (child ?e + 8 * j) = 0" using kT te(3) by simp
  have look: "lookup (kmem ?s') u js = lookup (kmem s) u js
      \<and> huge_on_path (kmem ?s') u js = huge_on_path (kmem s) u js"
    if "lev u = Some (length js)" "\<forall>i \<in> set js. i < 512" for u js
    by (rule lookup_new_table [OF ok t(1,3) False te(1,2) _ kid ku t(2) that]) simp_all
  have "lev \<subseteq>\<^sub>m lev(?T \<mapsto> n)" using new(2) by (auto simp: map_le_def)
  then have ext: "extends lev s (lev(?T \<mapsto> n)) ?s'"
    unfolding extends_def using inv1 new alloc_page_frame [OF a] ku look False
    by (auto simp del: fun_upd_apply) (metis ku)
  have path': "\<not> huge_on_path (kmem ?s') ?T is" by (rule huge_zero_table [OF kT small])
  have "card (free_addrs s1) = card (free_addrs s) - 1"
    using alloc_page_frame(1,2) [OF a] by simp
  then have "k \<le> card (free_pfns ?s')" using free by (simp add: card_free_addrs)
  with g ext te path' show ?thesis by (auto simp: fun_upd_same)
qed

section \<open>Mapping and unmapping\<close>

lemma indices_less: "\<forall>i \<in> set (indices v). i < 512"
  by (simp add: indices_def idx_less)

lemma length_indices: "length (indices v) = 4"
  by (simp add: indices_def)

lemma extends_level: "extends lev s lev' s' \<Longrightarrow> lev u = Some n \<Longrightarrow> lev' u = Some n"
  unfolding extends_def map_le_def dom_def by (metis (mono_tags, lifting) CollectI option.distinct(1))

lemma extends_entry:
  "extends lev s lev' s' \<Longrightarrow> lev u = Some n \<Longrightarrow> j < 512 \<Longrightarrow> present (kmem s (u + 8 * j)) \<Longrightarrow>
     kmem s' (u + 8 * j) = kmem s (u + 8 * j)"
  unfolding extends_def by blast

lemma pt_ok_leaf_write:
  assumes ok: "pt_ok lev s" and t: "lev t = Some (Suc 0)" "i < 512"
  shows "pt_ok lev (s\<lparr>kmem := (kmem s)(t + 8 * i := e), tlb_log := l\<rparr>)"
    and "lev u = Some (Suc n) \<Longrightarrow> 1 \<le> n \<Longrightarrow> j < 512 \<Longrightarrow> u + 8 * j \<noteq> t + 8 * i"
proof -
  show ne: "u + 8 * j \<noteq> t + 8 * i" if "lev u = Some (Suc n)" "1 \<le> n" "j < 512" for u n j
    using slot_inj [OF pt_ok_base [OF ok that(1)] pt_ok_base [OF ok t(1)] that(3) t(2)] that t(1) by auto
  show "pt_ok lev (s\<lparr>kmem := (kmem s)(t + 8 * i := e), tlb_log := l\<rparr>)"
    using ok ne unfolding pt_ok_def by simp
qed

text \<open>The effect of a write to an entry of a last-level table.\<close>

lemma leaf_write:
  fixes e :: u64 and l :: "u64 list"
  assumes ok: "pt_ok lev s" and root: "lev (kernel_pml4 s) = Some 4" and t: "lev t = Some (Suc 0)" "i < 512"
  defines "s' \<equiv> s\<lparr>kmem := (kmem s)(t + 8 * i := e), tlb_log := l\<rparr>"
  shows "slot s' v = slot s v"
    and "walk s' v = (if slot s v = Some (t + 8 * i) then if present e then Some e else None else walk s v)"
    and "huge_on_path (kmem s') (kernel_pml4 s') (indices v) = huge_on_path (kmem s) (kernel_pml4 s) (indices v)"
proof -
  have c: "leaf_slot (kmem s') (kernel_pml4 s) (indices v) = leaf_slot (kmem s) (kernel_pml4 s) (indices v)
    \<and> huge_on_path (kmem s') (kernel_pml4 s) (indices v) = huge_on_path (kmem s) (kernel_pml4 s) (indices v)"
    by (rule leaf_slot_cong [OF ok]) (auto simp: s'_def pt_ok_leaf_write(2) [OF ok t] root length_indices indices_less)
  then show sl: "slot s' v = slot s v"
    and "huge_on_path (kmem s') (kernel_pml4 s') (indices v) = huge_on_path (kmem s) (kernel_pml4 s) (indices v)"
    by (simp_all add: slot_def s'_def)
  show "walk s' v = (if slot s v = Some (t + 8 * i) then if present e then Some e else None else walk s v)"
    unfolding walk_def sl by (auto simp: s'_def split: option.splits)
qed

definition no_huge :: "'a vmm_scheme \<Rightarrow> u64 \<Rightarrow> bool" where
  "no_huge s v \<longleftrightarrow> \<not> huge_on_path (kmem s) (kernel_pml4 s) (indices v)"

lemma map_page_ok:
  assumes inv: "vmm_inv s" and free: "3 \<le> card (free_pfns s)" and path: "no_huge s virt"
  shows "\<exists>s'. map_page phys virt f s = Inr (0, s') \<and> vmm_inv s' \<and> slot s' virt \<noteq> None
    \<and> (\<forall>v. walk s' v = (if slot s' v = slot s' virt then Some (pt_entry phys f) else walk s v))
    \<and> (\<forall>v. no_huge s' v = no_huge s v) \<and> tlb_log s' = virt # tlb_log s
    \<and> cr3 s' = cr3 s \<and> kernel_pml4 s' = kernel_pml4 s \<and> vmm.more s' = vmm.more s
    \<and> free_addrs s' \<subseteq> free_addrs s \<and> card (free_pfns s) \<le> card (free_pfns s') + 3"
proof -
  from inv obtain lev where pi: "pmm_inv s" and ok: "pt_ok lev s" and root: "lev (kernel_pml4 s) = Some 4"
    by (auto simp: vmm_inv_def)
  have root': "lev (kernel_pml4 s) = Some (Suc 3)" using root by simp
  note idx = idx_less [of virt]
  let ?i = "PML4_IDX virt" and ?j = "PDPT_IDX virt" and ?k = "PD_IDX virt" and ?l = "PT_IDX virt"
  have sm: "\<forall>j \<in> set [?l]. j < 512" "\<forall>j \<in> set [?k, ?l]. j < 512" "\<forall>j \<in> set [?j, ?k, ?l]. j < 512"
    and le: "1 \<le> (1 :: nat)" "1 \<le> (2 :: nat)" "1 \<le> (3 :: nat)" using idx by simp_all
  define c where "c = card (free_pfns s) - 3"
  have c: "Suc (c + 2) \<le> card (free_pfns s)" using free by (simp add: c_def)
  have p0: "\<not> huge_on_path (kmem s) (kernel_pml4 s) (?i # [?j, ?k, ?l])"
    using path by (simp add: no_huge_def indices_def)
  obtain t1 s1 lev1 where g1: "get_or_alloc_table (kernel_pml4 s) ?i f s = Inr (t1, s1)"
    and e1: "extends lev s lev1 s1" and l1: "lev1 t1 = Some 3"
    and n1: "present (kmem s1 (kernel_pml4 s + 8 * ?i))" "\<not> huge (kmem s1 (kernel_pml4 s + 8 * ?i))"
      "child (kmem s1 (kernel_pml4 s + 8 * ?i)) = t1"
    and p1: "\<not> huge_on_path (kmem s1) t1 [?j, ?k, ?l]" and c1: "c + 2 \<le> card (free_pfns s1)"
    using get_or_alloc_ok [OF pi ok root' le(3) idx(1) c p0 list.distinct(2) sm(3), of f] by blast
  have l1': "lev1 t1 = Some (Suc 2)" and c1': "Suc (c + 1) \<le> card (free_pfns s1)" using l1 c1 by simp_all
  have s1: "pmm_inv s1" "pt_ok lev1 s1" using e1 by (auto simp: extends_def)
  obtain t2 s2 lev2 where g2: "get_or_alloc_table t1 ?j f s1 = Inr (t2, s2)"
    and e2: "extends lev1 s1 lev2 s2" and l2: "lev2 t2 = Some 2"
    and n2: "present (kmem s2 (t1 + 8 * ?j))" "\<not> huge (kmem s2 (t1 + 8 * ?j))" "child (kmem s2 (t1 + 8 * ?j)) = t2"
    and p2: "\<not> huge_on_path (kmem s2) t2 [?k, ?l]" and c2: "c + 1 \<le> card (free_pfns s2)"
    using get_or_alloc_ok [OF s1 l1' le(2) idx(2) c1' p1 list.distinct(2) sm(2), of f] by blast
  have l2': "lev2 t2 = Some (Suc 1)" and c2': "Suc c \<le> card (free_pfns s2)" using l2 c2 by simp_all
  have s2: "pmm_inv s2" "pt_ok lev2 s2" using e2 by (auto simp: extends_def)
  obtain t3 s3 lev3 where g3: "get_or_alloc_table t2 ?k f s2 = Inr (t3, s3)"
    and e3: "extends lev2 s2 lev3 s3" and l3: "lev3 t3 = Some (Suc 0)"
    and n3: "present (kmem s3 (t2 + 8 * ?k))" "\<not> huge (kmem s3 (t2 + 8 * ?k))" "child (kmem s3 (t2 + 8 * ?k)) = t3"
    and c3: "c \<le> card (free_pfns s3)"
    using get_or_alloc_ok [OF s2 l2' le(1) idx(3) c2' p2 list.distinct(2) sm(1), of f]
    unfolding One_nat_def by blast
  have e: "extends lev s lev3 s3" by (rule extends_trans [OF extends_trans [OF e1 e2] e3])
  then have s3: "pmm_inv s3" "pt_ok lev3 s3" "kernel_pml4 s3 = kernel_pml4 s" "tlb_log s3 = tlb_log s"
    "cr3 s3 = cr3 s" "vmm.more s3 = vmm.more s" "free_addrs s3 \<subseteq> free_addrs s"
    by (auto simp: extends_def)
  have root3: "lev3 (kernel_pml4 s3) = Some 4" using extends_level [OF e root] s3(3) by simp
  have k1: "kmem s3 (kernel_pml4 s + 8 * ?i) = kmem s1 (kernel_pml4 s + 8 * ?i)"
    by (rule extends_entry [OF extends_trans [OF e2 e3] extends_level [OF e1 root] idx(1) n1(1)])
  have k2: "kmem s3 (t1 + 8 * ?j) = kmem s2 (t1 + 8 * ?j)"
    by (rule extends_entry [OF e3 extends_level [OF e2 l1] idx(2) n2(1)])
  have sl: "slot s3 virt = Some (t3 + 8 * ?l)"
    by (simp add: slot_def indices_def s3(3) k1 k2 n1 n2 n3 Let_def)
  have w3: "walk s3 v = walk s v" and h3: "no_huge s3 v = no_huge s v" for v
    using e root indices_less [of v] unfolding extends_def
    by (auto simp: walk_lookup no_huge_def length_indices)
  let ?s' = "s3\<lparr>kmem := (kmem s3)(t3 + 8 * ?l := pt_entry phys f), tlb_log := virt # tlb_log s3\<rparr>"
  note lw = leaf_write [OF s3(2) root3 l3 idx(4), where e = "pt_entry phys f" and l = "virt # tlb_log s3"]
  have "map_page phys virt f s = Inr (0, ?s')" by (simp add: map_page_def g1 g2 g3)
  moreover have "vmm_inv ?s'"
    unfolding vmm_inv_def using pt_ok_leaf_write(1) [OF s3(2) l3 idx(4)] s3(1) root3 by auto
  moreover have "slot ?s' virt \<noteq> None" unfolding lw(1) sl by simp
  moreover have "walk ?s' v = (if slot ?s' v = slot ?s' virt then Some (pt_entry phys f) else walk s v)" for v
    unfolding lw(1,2) sl by (simp add: present_pt_entry w3)
  moreover have "no_huge ?s' v = no_huge s v" for v
    using h3 [of v] lw(3) [of v] by (simp add: no_huge_def)
  moreover have "free_pfns ?s' = free_pfns s3" by (simp add: free_pfns_def bitmap_test_def)
  then have "card (free_pfns s) \<le> card (free_pfns ?s') + 3" using c3 unfolding c_def by simp
  ultimately show ?thesis using s3 by auto
qed

lemma slot_unfold:
  "slot s v =
     (let e1 = kmem s (kernel_pml4 s + 8 * PML4_IDX v) in
      if \<not> present e1 then None else if huge e1 then Some (kernel_pml4 s + 8 * PML4_IDX v) else
      let e2 = kmem s (child e1 + 8 * PDPT_IDX v) in
      if \<not> present e2 then None else if huge e2 then Some (child e1 + 8 * PDPT_IDX v) else
      let e3 = kmem s (child e2 + 8 * PD_IDX v) in
      if \<not> present e3 then None else if huge e3 then Some (child e2 + 8 * PD_IDX v) else
      Some (child e3 + 8 * PT_IDX v))"
  by (simp add: slot_def indices_def Let_def)

lemma slot_huge:
  assumes "kmem s (kernel_pml4 s + 8 * PML4_IDX v) = e1" "present e1" "\<not> huge e1"
    "kmem s (child e1 + 8 * PDPT_IDX v) = e2" "present e2" "\<not> huge e2"
    "kmem s (child e2 + 8 * PD_IDX v) = e3" "present e3" "huge e3"
  shows "slot s v = Some (child e2 + 8 * PD_IDX v)"
  using assms by (simp add: slot_unfold Let_def)

lemma no_huge_unfold:
  "no_huge s v \<longleftrightarrow>
     (let e1 = kmem s (kernel_pml4 s + 8 * PML4_IDX v); e2 = kmem s (child e1 + 8 * PDPT_IDX v);
          e3 = kmem s (child e2 + 8 * PD_IDX v)
      in present e1 \<longrightarrow> \<not> huge e1 \<and> (present e2 \<longrightarrow> \<not> huge e2 \<and> (present e3 \<longrightarrow> \<not> huge e3)))"
  by (simp add: no_huge_def indices_def Let_def)

lemma unmap_page_slot:
  "no_huge s v \<Longrightarrow> unmap_page v s =
     (case slot s v of None \<Rightarrow> s
      | Some a \<Rightarrow> s\<lparr>kmem := (kmem s)(a := 0), tlb_log := v # tlb_log s\<rparr>)"
  unfolding unmap_page_def slot_unfold no_huge_unfold Let_def present_iff child_def by simp

lemma slot_level1:
  assumes ok: "pt_ok lev s" and root: "lev (kernel_pml4 s) = Some 4" and nh: "no_huge s v"
    and a: "slot s v = Some a"
  shows "\<exists>t. lev t = Some (Suc 0) \<and> a = t + 8 * PT_IDX v"
proof -
  note idx = idx_less [of v]
  let ?e1 = "kmem s (kernel_pml4 s + 8 * PML4_IDX v)"
  let ?e2 = "kmem s (child ?e1 + 8 * PDPT_IDX v)"
  let ?e3 = "kmem s (child ?e2 + 8 * PD_IDX v)"
  have p: "present ?e1" "\<not> huge ?e1" "present ?e2" "\<not> huge ?e2" "present ?e3" "\<not> huge ?e3"
    and a': "a = child ?e3 + 8 * PT_IDX v"
    using nh a unfolding no_huge_unfold slot_unfold Let_def by (auto split: if_splits)
  have "lev (child ?e1) = Some (Suc 2)" using pt_ok_child [OF ok, of _ 3, OF _ _ idx(1) p(1,2)] root by simp
  from pt_ok_child [OF ok this _ idx(2) p(3,4)] have "lev (child ?e2) = Some (Suc 1)" by simp
  from pt_ok_child [OF ok this _ idx(3) p(5,6)] have "lev (child ?e3) = Some (Suc 0)" by simp
  with a' show ?thesis by blast
qed

lemma unmap_page_ok:
  assumes inv: "vmm_inv s" and nh: "no_huge s virt"
  shows "vmm_inv (unmap_page virt s)"
    and "walk (unmap_page virt s) v = (if slot s v = slot s virt then None else walk s v)"
    and "slot (unmap_page virt s) v = slot s v" and "no_huge (unmap_page virt s) v = no_huge s v"
proof -
  from inv obtain lev where pi: "pmm_inv s" and ok: "pt_ok lev s" and root: "lev (kernel_pml4 s) = Some 4"
    by (auto simp: vmm_inv_def)
  have "vmm_inv (unmap_page virt s)
    \<and> walk (unmap_page virt s) v = (if slot s v = slot s virt then None else walk s v)
    \<and> slot (unmap_page virt s) v = slot s v \<and> no_huge (unmap_page virt s) v = no_huge s v"
  proof (cases "slot s virt")
    case None
    then show ?thesis using inv unmap_page_slot [OF nh] by (auto simp: walk_def)
  next
    case (Some a)
    then obtain t where t: "lev t = Some (Suc 0)" and a: "a = t + 8 * PT_IDX virt"
      using slot_level1 [OF ok root nh] by blast
    have u: "unmap_page virt s = s\<lparr>kmem := (kmem s)(t + 8 * PT_IDX virt := 0), tlb_log := virt # tlb_log s\<rparr>"
      using unmap_page_slot [OF nh] Some a by simp
    note lw = leaf_write [OF ok root t idx_less(4) [of virt], where e = 0 and l = "virt # tlb_log s"]
    have "vmm_inv (unmap_page virt s)"
      unfolding vmm_inv_def u using pt_ok_leaf_write(1) [OF ok t idx_less(4)] pi root by auto
    then show ?thesis unfolding u lw(1,2) no_huge_def lw(3) using Some a by simp
  qed
  then show "vmm_inv (unmap_page virt s)"
    "walk (unmap_page virt s) v = (if slot s v = slot s virt then None else walk s v)"
    "slot (unmap_page virt s) v = slot s v" "no_huge (unmap_page virt s) v = no_huge s v" by blast+
qed

section \<open>Initialisation\<close>

lemma copy_entries_slots:
  assumes "table_base d" "table_base b" "d \<noteq> b" "table_base u" "j < 512" "i \<le> 512"
  shows "copy_entries d b i m (u + 8 * j) =
     (if u = d \<and> i \<le> unat j then m (b + 8 * j) else m (u + 8 * j))"
  using assms
proof (induction d b i m rule: copy_entries.induct)
  case (1 d b i m)
  show ?case
  proof (cases "i < 512")
    case True
    let ?i = "word_of_nat i :: u64"
    have i: "?i < 512" "unat ?i = i" using True by (simp_all add: word_less_nat_alt unat_of_nat)
    have e: "u + 8 * j = d + 8 * ?i \<longleftrightarrow> u = d \<and> j = ?i" "b + 8 * j \<noteq> d + 8 * ?i"
      using slot_inj [OF "1.prems"(4,1,5) i(1)] slot_inj [OF "1.prems"(2,1,5) i(1)] "1.prems"(3) by auto
    have j: "unat j = i \<longleftrightarrow> j = ?i" using i(2) by (auto simp: word_unat_eq_iff)
    have "copy_entries d b i m (u + 8 * j) =
      (if u = d \<and> Suc i \<le> unat j then (m(d + 8 * ?i := m (b + 8 * ?i))) (b + 8 * j)
       else (m(d + 8 * ?i := m (b + 8 * ?i))) (u + 8 * j))"
      using "1.IH" [OF True] "1.prems" True by (simp add: copy_entries.simps [of d b i m] del: fun_upd_apply)
    then show ?thesis using e j i(2) by (auto simp: le_less Suc_le_eq)
  next
    case False
    then have "unat j < i" using "1.prems"(5) by (simp add: word_less_nat_alt)
    with False show ?thesis by (simp add: copy_entries.simps [of d b i m])
  qed
qed

lemma lookup_cong:
  assumes ok: "pt_ok lev s"
    and same: "\<And>u n i. lev u = Some n \<Longrightarrow> i < 512 \<Longrightarrow> m (u + 8 * i) = kmem s (u + 8 * i)"
    and u: "lev u = Some (length is)" "\<forall>i \<in> set is. i < 512"
  shows "lookup m u is = lookup (kmem s) u is"
proof -
  have "leaf_slot m u is = leaf_slot (kmem s) u is"
    using leaf_slot_cong [OF ok _ u, of m] same by blast
  moreover have "m a = kmem s a" if "leaf_slot (kmem s) u is = Some a" for a
    using leaf_slot_table [OF ok u that] same by blast
  ultimately show ?thesis by (auto simp: lookup_def split: option.splits)
qed

text \<open>The state when \<open>vmm_init\<close> runs: tables of the boot loader under \<open>cr3\<close>.\<close>

definition boot_inv :: "'a vmm_scheme \<Rightarrow> bool" where
  "boot_inv s \<longleftrightarrow> pmm_inv s \<and> (\<exists>lev. pt_ok lev s \<and> lev (PHYS_TO_VIRT (cr3 s AND PHYS_MASK)) = Some 4)"

lemma vmm_init_ok:
  assumes inv: "boot_inv s" and free: "free_pfns s \<noteq> {}"
  shows "\<exists>s'. vmm_init s = Inr s' \<and> vmm_inv s' \<and> cr3 s' \<in> free_addrs s \<and> kernel_pml4 s' = PHYS_TO_VIRT (cr3 s')
    \<and> (\<forall>v. walk s' v = (if 256 \<le> PML4_IDX v
          then lookup (kmem s) (PHYS_TO_VIRT (cr3 s AND PHYS_MASK)) (indices v) else None))"
proof -
  let ?b = "PHYS_TO_VIRT (cr3 s AND PHYS_MASK)"
  from inv obtain lev where pi: "pmm_inv s" and ok: "pt_ok lev s" and root: "lev ?b = Some 4"
    by (auto simp: boot_inv_def)
  obtain a s1 where a: "alloc_page s = Inr (a, s1)" and pi1: "pmm_inv s1"
    using pm.alloc_avail [OF pi] free by (auto simp: free_addrs_def)
  note fr = alloc_page_frame [OF a]
  have fa: "frame_addr a" by (rule frame_addr_free [OF fr(1)])
  let ?T = "PHYS_TO_VIRT a"
  have bT: "table_base ?T" using fa by (auto simp: table_base_def)
  have bb: "table_base ?b" by (rule pt_ok_base [OF ok root])
  have new: "lev ?T = None"
  proof (rule ccontr)
    assume "lev ?T \<noteq> None"
    then obtain m where "lev ?T = Some m" by blast
    then obtain b where "?T = PHYS_TO_VIRT b" "b \<notin> free_addrs s" using ok unfolding pt_ok_def by blast
    with fr(1) show False by simp
  qed
  then have ne: "?T \<noteq> ?b" using root by auto
  define s' where "s' = s1\<lparr>kernel_pml4 := ?T, kmem := copy_entries ?T ?b 256 (kmem s1), cr3 := a\<rparr>"
  have run: "vmm_init s = Inr s'" by (simp add: vmm_init_def a fr s'_def Let_def)
  have kT: "kmem s' (?T + 8 * j) = (if 256 \<le> j then kmem s (?b + 8 * j) else 0)" if "j < 512" for j
    using copy_entries_slots [OF bT bb ne bT that, of 256] alloc_page_slots [OF a bb that]
      alloc_page_slots [OF a bT that] ne by (simp add: s'_def word_le_nat_alt)
  have ku: "kmem s' (u + 8 * j) = kmem s (u + 8 * j)" if "lev u = Some n" "j < 512" for u n j
    using copy_entries_slots [OF bT bb ne pt_ok_base [OF ok that(1)] that(2), of 256] that new
      alloc_page_slots [OF a pt_ok_base [OF ok that(1)] that(2)] by (auto simp: s'_def)
  have kid: "lev (child (kmem s (u + 8 * j))) = Some n"
    if "lev u = Some (Suc n)" "1 \<le> n" "j < 512" "present (kmem s (u + 8 * j))" "\<not> huge (kmem s (u + 8 * j))" for u n j
    using pt_ok_child [OF ok that] .
  have "pt_ok (lev(?T \<mapsto> 4)) s'"
    unfolding pt_ok_def
  proof (intro conjI allI impI)
    fix u m assume "(lev(?T \<mapsto> 4)) u = Some m"
    then show "1 \<le> m" "m \<le> 4" "\<exists>b. u = PHYS_TO_VIRT b \<and> frame_addr b \<and> b \<notin> free_addrs s'"
      using ok fa fr(2) unfolding pt_ok_def s'_def by (force split: if_splits)+
  next
    fix u m j assume u: "(lev(?T \<mapsto> 4)) u = Some (Suc m)" and m: "1 \<le> m" and j: "j < (512 :: u64)"
      and p: "present (kmem s' (u + 8 * j))" and h: "\<not> huge (kmem s' (u + 8 * j))"
    show "(lev(?T \<mapsto> 4)) (child (kmem s' (u + 8 * j))) = Some m"
    proof (cases "u = ?T")
      case True
      then have "m = 3" and g: "kmem s' (u + 8 * j) = kmem s (?b + 8 * j)"
        using u p kT [OF j] by (auto split: if_splits)
      then have "lev (child (kmem s' (u + 8 * j))) = Some m"
        using kid [of ?b m j] root m j p h by simp
      then show ?thesis using new by auto
    next
      case False
      then have "lev (child (kmem s' (u + 8 * j))) = Some m"
        using kid [of u m j] u m j p h by (simp add: ku)
      then show ?thesis using new by auto
    qed
  qed
  then have "vmm_inv s'" using pi1 by (auto simp: vmm_inv_def s'_def)
  moreover have "walk s' v = (if 256 \<le> PML4_IDX v then lookup (kmem s) ?b (indices v) else None)" for v
  proof -
    note idx = idx_less [of v]
    let ?e = "kmem s (?b + 8 * PML4_IDX v)" and ?is = "[PDPT_IDX v, PD_IDX v, PT_IDX v]"
    have "lookup (kmem s') (child ?e) ?is = lookup (kmem s) (child ?e) ?is" if "present ?e" "\<not> huge ?e"
      using kid [of ?b 3, OF _ _ idx(1) that] root idx
      by (intro lookup_cong [OF ok ku]) auto
    moreover have "kernel_pml4 s' = ?T" by (simp add: s'_def)
    ultimately show ?thesis
      unfolding walk_lookup indices_def using kT [OF idx(1)] by (simp add: lookup_step Let_def)
  qed
  ultimately show ?thesis using run fr by (auto simp: s'_def)
qed

section \<open>A concrete state\<close>

text \<open>Eight free frames from 2 MB on and one empty root table at 4 KB.\<close>

definition vmm_bss :: vmm where
  "vmm_bss = \<lparr>bitmap = (\<lambda>_. 0), total_pages = 0, free_pages = 0, kmem = (\<lambda>_. 0), pmm_log = [],
     kernel_pml4 = PHYS_TO_VIRT 0x1000, cr3 = 0x1000, tlb_log = []\<rparr>"

definition vmm_small :: vmm where
  "vmm_small = (fold bitmap_set [512, 513, 514, 515, 516, 517, 518, 519] vmm_bss)\<lparr>free_pages := 8\<rparr>"

lemma vmm_small_fields:
  "kmem vmm_small = (\<lambda>_. 0)" "kernel_pml4 vmm_small = PHYS_TO_VIRT 0x1000" "cr3 vmm_small = 0x1000"
  "tlb_log vmm_small = []"
  by (simp_all add: vmm_small_def vmm_bss_def bitmap_set_def Let_def)

lemma free_pfns_vmm_small: "free_pfns vmm_small = {512, 513, 514, 515, 516, 517, 518, 519}"
proof -
  have "free_pfns vmm_bss = {}" by (simp add: free_pfns_def bitmap_test_bit vmm_bss_def)
  then show ?thesis by (auto simp: vmm_small_def free_pfns_set kconst)
qed

lemma pmm_inv_vmm_small: "pmm_inv vmm_small"
proof -
  have "unat (free_pages vmm_small) = 8" by (simp add: vmm_small_def)
  moreover have "card (free_pfns vmm_small) = 8" by (simp add: free_pfns_vmm_small)
  moreover have "bitmap vmm_small i = 0" if "BITMAP_WORDS \<le> i" for i
    using that by (simp add: vmm_small_def vmm_bss_def bitmap_set_def Let_def kconst)
  ultimately show ?thesis by (simp add: pmm_inv_def)
qed

lemma vmm_small_inv: "vmm_inv vmm_small" "boot_inv vmm_small"
proof -
  have f: "0x1000 \<notin> free_addrs vmm_small" "frame_addr 0x1000"
    by (auto simp: free_addrs_def free_pfns_vmm_small kconst frame_addr_def)
  then have p: "pt_ok [PHYS_TO_VIRT 0x1000 \<mapsto> 4] vmm_small"
    by (auto simp: pt_ok_def vmm_small_fields split: if_splits)
  with pmm_inv_vmm_small show "vmm_inv vmm_small"
    by (auto simp: vmm_inv_def vmm_small_fields)
  have "(0x1000 :: u64) AND PHYS_MASK = 0x1000" by (simp add: PHYS_MASK_def)
  with p pmm_inv_vmm_small show "boot_inv vmm_small"
    by (auto simp: boot_inv_def vmm_small_fields)
qed

lemma vmm_small_no_huge: "no_huge vmm_small v"
  by (simp add: no_huge_unfold vmm_small_fields Let_def)

section \<open>The contract of an address space\<close>

text \<open>
  \<open>trans\<close> is the translation, \<open>shares\<close> says that two addresses are decided by the same
  table slot (always so for two addresses of one page; for others only where tables are
  shared), and \<open>room\<close> that a mapping of the address cannot fail.
\<close>

locale address_space =
  fixes amap :: "u64 \<Rightarrow> u64 \<Rightarrow> u32 \<Rightarrow> 's \<Rightarrow> kstop + (int \<times> 's)"
    and aunmap :: "u64 \<Rightarrow> 's \<Rightarrow> 's"
    and trans :: "'s \<Rightarrow> u64 \<Rightarrow> u64 option"
    and shares :: "'s \<Rightarrow> u64 \<Rightarrow> u64 \<Rightarrow> bool"
    and inv :: "'s \<Rightarrow> bool"
    and small :: "'s \<Rightarrow> u64 \<Rightarrow> bool"
    and room :: "'s \<Rightarrow> bool"
  assumes map_ok: "inv s \<Longrightarrow> small s v \<Longrightarrow> room s \<Longrightarrow>
      \<exists>s'. amap p v f s = Inr (0, s') \<and> inv s' \<and> small s' v \<and> shares s' v v
        \<and> (\<forall>w. trans s' w = (if shares s' w v then Some (pt_entry p f) else trans s w))"
    and unmap_ok: "inv s \<Longrightarrow> small s v \<Longrightarrow>
      inv (aunmap v s) \<and> (\<forall>w. trans (aunmap v s) w = (if shares s w v then None else trans s w))"
begin

lemma map_unmap:
  assumes "inv s" "small s v" "room s"
  shows "\<exists>s'. amap p v f s = Inr (0, s') \<and> trans s' v = Some (pt_entry p f) \<and> trans (aunmap v s') v = None
    \<and> (\<forall>w. \<not> shares s' w v \<longrightarrow> trans (aunmap v s') w = trans s w) \<and> inv (aunmap v s')"
proof -
  obtain s' where s': "amap p v f s = Inr (0, s')" "inv s'" "small s' v" "shares s' v v"
    "\<forall>w. trans s' w = (if shares s' w v then Some (pt_entry p f) else trans s w)"
    using map_ok [OF assms, of p f] by blast
  with unmap_ok [OF s'(2,3)] show ?thesis by simp
qed

end

interpretation vm: address_space map_page unmap_page walk "\<lambda>s v w. slot s v = slot s w" vmm_inv no_huge
  "\<lambda>s. 3 \<le> card (free_pfns s)"
proof unfold_locales
  fix s :: "'a vmm_scheme" and v p f
  assume s: "vmm_inv s" "no_huge s v"
  show "\<exists>s'. map_page p v f s = Inr (0, s') \<and> vmm_inv s' \<and> no_huge s' v \<and> slot s' v = slot s' v
      \<and> (\<forall>w. walk s' w = (if slot s' w = slot s' v then Some (pt_entry p f) else walk s w))"
    if "3 \<le> card (free_pfns s)"
    using map_page_ok [OF s(1) that s(2), of p f] s(2) by auto
  show "vmm_inv (unmap_page v s) \<and> (\<forall>w. walk (unmap_page v s) w = (if slot s w = slot s v then None else walk s w))"
    using unmap_page_ok [OF s] by blast
qed

section \<open>Properties\<close>

text \<open>
  C3: With three free frames and no huge page on the way, \<open>map_page\<close> returns 0, afterwards
  the processor translates \<open>virt\<close> to the entry built from \<open>phys\<close> and the flags, every
  address decided by another table slot keeps its translation, the address is flushed from
  the TLB and the page-table and allocator invariants hold again.
\<close>

theorem map_page_translates:
  assumes "vmm_inv s" and "3 \<le> card (free_pfns s)" and "no_huge s virt"
  shows "\<exists>s'. map_page phys virt f s = Inr (0, s') \<and> walk s' virt = Some (pt_entry phys f)
    \<and> (\<forall>v. slot s' v \<noteq> slot s' virt \<longrightarrow> walk s' v = walk s v)
    \<and> tlb_log s' = virt # tlb_log s \<and> vmm_inv s'"
  using map_page_ok [OF assms, of phys f] by fastforce

theorem map_page_translates_witness:
  "vmm_inv vmm_small \<and> no_huge vmm_small 0x400000 \<and>
   (\<exists>s'. map_page 0x300000 0x400000 3 vmm_small = Inr (0, s') \<and> walk s' 0x400000 = Some (pt_entry 0x300000 3))"
  using map_page_translates [OF vmm_small_inv(1) _ vmm_small_no_huge, of "0x300000" "0x400000" 3]
    vmm_small_inv vmm_small_no_huge
  by (auto simp: free_pfns_vmm_small)

text \<open>
  C4: Mapping a page and unmapping it again leaves the address untranslated and every
  address of another slot as it was before the two calls.
\<close>

theorem map_unmap_page:
  assumes "vmm_inv s" and "3 \<le> card (free_pfns s)" and "no_huge s virt"
  shows "\<exists>s'. map_page phys virt f s = Inr (0, s') \<and> walk (unmap_page virt s') virt = None
    \<and> (\<forall>v. slot s' v \<noteq> slot s' virt \<longrightarrow> walk (unmap_page virt s') v = walk s v)
    \<and> vmm_inv (unmap_page virt s')"
  using vm.map_unmap [OF assms(1,3,2), of phys f] by blast

theorem map_unmap_page_witness:
  "\<exists>s'. map_page 0x300000 0x400000 3 vmm_small = Inr (0, s') \<and> walk (unmap_page 0x400000 s') 0x400000 = None"
  using map_unmap_page [OF vmm_small_inv(1) _ vmm_small_no_huge, of "0x300000" "0x400000" 3]
  by (auto simp: free_pfns_vmm_small)

text \<open>
  \<open>vmm_init\<close> installs a root table in a fresh frame that translates the upper half of
  the address space as the boot tables did and nothing of the lower half, loads it into
  \<open>cr3\<close> and establishes the invariant.
\<close>

theorem vmm_init_upper_half:
  assumes "boot_inv s" and "free_pfns s \<noteq> {}"
  shows "\<exists>s'. vmm_init s = Inr s' \<and> vmm_inv s' \<and> cr3 s' \<in> free_addrs s \<and> kernel_pml4 s' = PHYS_TO_VIRT (cr3 s')
    \<and> (\<forall>v. walk s' v = (if 256 \<le> PML4_IDX v
          then lookup (kmem s) (PHYS_TO_VIRT (cr3 s AND PHYS_MASK)) (indices v) else None))"
  by (rule vmm_init_ok [OF assms])

theorem vmm_init_upper_half_witness:
  "boot_inv vmm_small \<and> (\<exists>s'. vmm_init vmm_small = Inr s' \<and> vmm_inv s' \<and> walk s' 0x400000 = None)"
proof -
  have "\<not> 256 \<le> PML4_IDX 0x400000" by (simp add: PML4_IDX_def)
  then show ?thesis
    using vmm_init_upper_half [OF vmm_small_inv(2)] vmm_small_inv(2)
    by (auto simp: free_pfns_vmm_small)
qed

text \<open>
  The entry of a mapping carries the masked physical address, is present, writable as
  asked, and its user and no-execute bits are opposites: since \<open>VM_EXEC\<close> and \<open>PF_USER\<close> are
  the same bit, every executable mapping is open to user mode.
\<close>

theorem pt_entry_user_is_exec:
  "pt_entry phys f AND PHYS_MASK = phys AND PHYS_MASK \<and> bit (pt_entry phys f) 0
   \<and> bit (pt_entry phys f) 1 = bit f 1 \<and> bit (pt_entry phys f) 2 = bit f 2
   \<and> bit (pt_entry phys f) 63 = (\<not> bit (pt_entry phys f) 2)"
proof -
  have t: "ucast f AND (push_bit n 1 :: u64) \<noteq> 0 \<longleftrightarrow> bit f n" if n: "n < 32" for n
  proof -
    have b: "bit (ucast f AND (push_bit n 1 :: u64)) m \<longleftrightarrow> m = n \<and> bit f n" for m
      using n unfolding bit_and_iff bit_push_bit_iff bit_1_iff bit_ucast_iff
      by auto
    show ?thesis
    proof (cases "bit f n")
      case True
      then have "bit (ucast f AND (push_bit n 1 :: u64)) n" unfolding b by simp
      then have "ucast f AND (push_bit n 1 :: u64) \<noteq> 0" by (metis bit_0_eq bot_apply bot_bool_def)
      with True show ?thesis by blast
    next
      case False
      then have "ucast f AND (push_bit n 1 :: u64) = 0" unfolding bit_eq_iff b by simp
      with False show ?thesis by blast
    qed
  qed
  have f: "ucast f AND PF_WRITE \<noteq> 0 \<longleftrightarrow> bit f 1" "ucast f AND PF_USER \<noteq> 0 \<longleftrightarrow> bit f 2"
    "ucast f AND VM_EXEC = 0 \<longleftrightarrow> \<not> bit f 2"
    unfolding PF_WRITE_def PF_USER_def VM_EXEC_def using t [of 1] t [of 2] by auto
  have "pt_entry phys f AND PHYS_MASK = phys AND PHYS_MASK"
    by (intro bit_eqI) (auto simp: pt_entry_def bit_or_iff bit_and_iff bit_PF bit_PHYS_MASK)
  moreover have "bit (pt_entry phys f) 0" "bit (pt_entry phys f) 1 = bit f 1" "bit (pt_entry phys f) 2 = bit f 2"
    "bit (pt_entry phys f) 63 = (\<not> bit f 2)"
    unfolding pt_entry_def f bit_or_iff bit_and_iff bit_PF bit_PHYS_MASK by (auto simp: bit_PF)
  ultimately show ?thesis by blast
qed

text \<open>
  \<open>map_page\<close> does not look at the huge-page bit: on an address inside a 2 MB page it
  reports success, overwrites a word of that page's data and leaves the translation of the
  address as it was.
\<close>

theorem map_page_over_huge:
  fixes s :: "'a vmm_scheme" and virt :: u64
  defines "a1 \<equiv> kernel_pml4 s + 8 * PML4_IDX virt"
  defines "a2 \<equiv> child (kmem s a1) + 8 * PDPT_IDX virt"
  defines "a3 \<equiv> child (kmem s a2) + 8 * PD_IDX virt"
  defines "d \<equiv> child (kmem s a3) + 8 * PT_IDX virt"
  assumes "present (kmem s a1)" "\<not> huge (kmem s a1)" "present (kmem s a2)" "\<not> huge (kmem s a2)"
    and "present (kmem s a3)" "huge (kmem s a3)" and "d \<notin> {a1, a2, a3}"
  shows "\<exists>s'. map_page phys virt f s = Inr (0, s') \<and> kmem s' = (kmem s)(d := pt_entry phys f)
    \<and> walk s virt = Some (kmem s a3) \<and> walk s' virt = walk s virt"
proof -
  have g: "get_or_alloc_table t i f s = Inr (child (kmem s (t + 8 * i)), s)" if "present (kmem s (t + 8 * i))" for t i
    using that by (simp add: get_or_alloc_table_def present_iff child_def)
  let ?s' = "s\<lparr>kmem := (kmem s)(d := pt_entry phys f), tlb_log := virt # tlb_log s\<rparr>"
  have "map_page phys virt f s = Inr (0, ?s')"
    using assms(5,7,9) unfolding map_page_def d_def a3_def a2_def a1_def by (simp add: g)
  moreover have s0: "slot s virt = Some a3"
  proof -
    have "kmem s (kernel_pml4 s + 8 * PML4_IDX virt) = kmem s a1"
      "kmem s (child (kmem s a1) + 8 * PDPT_IDX virt) = kmem s a2"
      "kmem s (child (kmem s a2) + 8 * PD_IDX virt) = kmem s a3"
      by (simp_all add: a1_def a2_def a3_def)
    from slot_huge [OF this(1) assms(5,6) this(2) assms(7,8) this(3) assms(9,10)] show ?thesis
      by (simp add: a3_def)
  qed
  moreover have s1: "slot ?s' virt = Some a3"
  proof -
    have e: "kmem ?s' a = kmem s a" if "a \<in> {a1, a2, a3}" for a using that assms(11) by auto
    have "kmem ?s' (kernel_pml4 ?s' + 8 * PML4_IDX virt) = kmem s a1"
      "kmem ?s' (child (kmem s a1) + 8 * PDPT_IDX virt) = kmem s a2"
      "kmem ?s' (child (kmem s a2) + 8 * PD_IDX virt) = kmem s a3"
      using e [of a1] e [of a2] e [of a3] by (simp_all add: a1_def a2_def a3_def)
    from slot_huge [OF this(1) assms(5,6) this(2) assms(7,8) this(3) assms(9,10)] show ?thesis
      by (simp add: a3_def)
  qed
  moreover have "walk s virt = Some (kmem s a3)" "walk ?s' virt = Some (kmem s a3)"
    unfolding walk_def s0 s1 using assms(9,11) by auto
  ultimately show ?thesis by simp
qed

definition vmm_huge :: vmm where
  "vmm_huge = vmm_small\<lparr>kmem := (\<lambda>_. 0)(KERNEL_BASE + 0x1000 := 0x2003, KERNEL_BASE + 0x2000 := 0x3003,
      KERNEL_BASE + 0x3000 := 0x83)\<rparr>"

theorem map_page_over_huge_witness:
  "\<exists>s'. map_page 0x300000 0x8000 3 vmm_huge = Inr (0, s') \<and> walk s' 0x8000 = Some 0x83
      \<and> kmem s' (KERNEL_BASE + 0x40) = pt_entry 0x300000 3"
proof -
  have p: "present 0x2003" "\<not> huge 0x2003" "present 0x3003" "\<not> huge 0x3003" "present 0x83" "huge 0x83"
    "child 0x2003 = KERNEL_BASE + 0x2000" "child 0x3003 = KERNEL_BASE + 0x3000" "child 0x83 = KERNEL_BASE"
    by (simp_all add: present_def huge_def bit_iff_odd_drop_bit child_def PHYS_MASK_def PHYS_TO_VIRT_def)
  have i: "PML4_IDX 0x8000 = 0" "PDPT_IDX 0x8000 = 0" "PD_IDX 0x8000 = 0" "PT_IDX 0x8000 = 8"
    by (simp_all add: PML4_IDX_def PDPT_IDX_def PD_IDX_def PT_IDX_def)
  have k: "kernel_pml4 vmm_huge = KERNEL_BASE + 0x1000" "kmem vmm_huge (KERNEL_BASE + 0x1000) = 0x2003"
    "kmem vmm_huge (KERNEL_BASE + 0x2000) = 0x3003" "kmem vmm_huge (KERNEL_BASE + 0x3000) = 0x83"
    by (simp_all add: vmm_huge_def vmm_small_fields PHYS_TO_VIRT_def kconst)
  show ?thesis
    using map_page_over_huge [of vmm_huge "0x8000" "0x300000" 3] by (auto simp: p i k)
qed

end
