(* ===== verification/Kheap.thy ===== *)
theory Kheap
  imports Vmm
begin

text \<open>
  The kernel heap, second half of \<^verbatim>\<open>src/kernel/mm/vmm.c\<close>: a doubly linked list of
  headers, first-fit allocation with splitting, release with coalescing. Headers live in a
  store from addresses to \<open>heap_block\<close> records and are never removed from it: a header
  absorbed by its neighbour stays readable, as in memory. The bytes between headers are
  \<open>heap_data\<close>. Addresses and sizes are natural numbers; the truncation to 32 bits of the
  field \<open>size\<close> and the wrap-around of \<open>usize\<close> are written out. Walks along the list take a
  bound on the number of steps (a list can be cyclic); the theorems show which bound is
  enough.
\<close>

section \<open>State\<close>

record heap_block =
  b_magic :: u32
  b_size :: nat        \<comment> \<open>usable size, 32 bits\<close>
  b_free :: bool
  b_next :: nat        \<comment> \<open>0 is the null pointer\<close>
  b_prev :: nat

record kheap = vmm +
  heap_head :: nat
  heap_brk :: nat
  heap :: "nat \<rightharpoonup> heap_block"
  heap_data :: "nat \<Rightarrow> u8"
  heap_log :: "nat list"   \<comment> \<open>pointers reported as corrupt by kfree\<close>

definition HEAP_START :: nat where [kconst]: "HEAP_START = 0xFFFFFFFF90000000"
definition HEAP_MAX :: nat where [kconst]: "HEAP_MAX = 64 * 1024 * 1024"
definition HEAP_MAGIC :: u32 where [kconst]: "HEAP_MAGIC = 0xDEADBEEF"
definition HDR :: nat where [kconst]: "HDR = 32"    \<comment> \<open>size of the header struct\<close>

text \<open>\<open>ALIGN_UP\<close> on 64-bit values represented as naturals.\<close>

definition align_up :: "nat \<Rightarrow> nat \<Rightarrow> nat" where
  "align_up x a = (x + (a - 1)) mod 2 ^ 64 div a * a"

section \<open>Growing the heap\<close>

text \<open>The flags \<open>PF_WRITE | VM_EXEC\<close>.\<close>

definition heap_flags :: u32 where "heap_flags = 6"

fun heap_expand_loop :: "nat \<Rightarrow> 'a kheap_scheme \<Rightarrow> kstop + 'a kheap_scheme" where
  "heap_expand_loop 0 s = Inr s"
| "heap_expand_loop (Suc n) s =
     kbind (alloc_page s) (\<lambda>(p, s1).
     kbind (map_page p (of_nat (heap_brk s1)) heap_flags s1) (\<lambda>(r, s2).
       let s3 = s2\<lparr>heap_brk := heap_brk s2 + 4096\<rparr>
       in if heap_brk s3 - HEAP_START > HEAP_MAX then Inl HeapExhausted
          else heap_expand_loop n s3))"

definition heap_expand :: "nat \<Rightarrow> 'a kheap_scheme \<Rightarrow> kstop + 'a kheap_scheme" where
  "heap_expand bytes s = heap_expand_loop (align_up bytes 4096 div 4096) s"

section \<open>Access to headers\<close>

definition get_block :: "'a kheap_scheme \<Rightarrow> nat \<Rightarrow> kstop + heap_block" where
  "get_block s a = (if a = 0 then Inl NullDeref else
     case heap s a of None \<Rightarrow> Inl WildDeref | Some b \<Rightarrow> Inr b)"

definition put_block :: "nat \<Rightarrow> heap_block \<Rightarrow> 'a kheap_scheme \<Rightarrow> 'a kheap_scheme" where
  "put_block a b s = s\<lparr>heap := (heap s)(a \<mapsto> b)\<rparr>"

definition upd_block ::
    "nat \<Rightarrow> (heap_block \<Rightarrow> heap_block) \<Rightarrow> 'a kheap_scheme \<Rightarrow> kstop + 'a kheap_scheme" where
  "upd_block a f s = kbind (get_block s a) (\<lambda>b. Inr (put_block a (f b) s))"

section \<open>Allocation\<close>

text \<open>The walk to the first free block that is large enough; 0 when the list ends.\<close>

fun find_block :: "nat \<Rightarrow> nat \<Rightarrow> nat \<Rightarrow> 'a kheap_scheme \<Rightarrow> kstop + nat" where
  "find_block 0 sz blk s = Inl NoProgress"
| "find_block (Suc n) sz blk s =
     (if blk = 0 then Inr 0
      else kbind (get_block s blk) (\<lambda>b.
        if b_free b \<and> sz \<le> b_size b then Inr blk else find_block n sz (b_next b) s))"

fun find_last :: "nat \<Rightarrow> nat \<Rightarrow> 'a kheap_scheme \<Rightarrow> kstop + nat" where
  "find_last 0 lst s = Inl NoProgress"
| "find_last (Suc n) lst s =
     kbind (get_block s lst) (\<lambda>b. if b_next b = 0 then Inr lst else find_last n (b_next b) s)"

text \<open>The body of the search loop for the block that was found: split it and take it.\<close>

definition take_block :: "nat \<Rightarrow> nat \<Rightarrow> 'a kheap_scheme \<Rightarrow> kstop + (nat \<times> 'a kheap_scheme)" where
  "take_block sz blk s =
     kbind (get_block s blk) (\<lambda>b.
     kbind
       (if (sz + HDR + 32) mod 2 ^ 64 \<le> b_size b then
          let new_blk = blk + HDR + sz;
              s1 = put_block new_blk \<lparr>b_magic = HEAP_MAGIC, b_size = (b_size b - sz - HDR) mod 2 ^ 32, b_free = True,
                     b_next = b_next b, b_prev = blk\<rparr> s
          in kbind (if b_next b \<noteq> 0 then upd_block (b_next b) (\<lambda>x. x\<lparr>b_prev := new_blk\<rparr>) s1 else Inr s1) (\<lambda>s2.
             upd_block blk (\<lambda>x. x\<lparr>b_next := new_blk, b_size := sz mod 2 ^ 32\<rparr>) s2)
        else Inr s)
       (\<lambda>s3. kbind (upd_block blk (\<lambda>x. x\<lparr>b_free := False\<rparr>) s3) (\<lambda>s4. Inr (blk + HDR, s4))))"

text \<open>The list is created by the first call.\<close>

definition heap_first :: "'a kheap_scheme \<Rightarrow> kstop + 'a kheap_scheme" where
  "heap_first s =
     (if heap_head s = 0 then
        kbind (heap_expand 4096 s) (\<lambda>s1.
          Inr (put_block HEAP_START \<lparr>b_magic = HEAP_MAGIC, b_size = 4096 - HDR, b_free = True, b_next = 0, b_prev = 0\<rparr>
                 (s1\<lparr>heap_head := HEAP_START\<rparr>)))
      else Inr s)"

text \<open>A new block at the old end of the heap, linked behind the last one.\<close>

definition append_block :: "nat \<Rightarrow> nat \<Rightarrow> 'a kheap_scheme \<Rightarrow> kstop + 'a kheap_scheme" where
  "append_block n sz s =
     (let expand = align_up ((sz + HDR) mod 2 ^ 64) 4096;
          old_brk = heap_brk s
      in kbind (heap_expand expand s) (\<lambda>s1.
         let s2 = put_block old_brk \<lparr>b_magic = HEAP_MAGIC, b_size = (expand - HDR) mod 2 ^ 32, b_free = True,
                    b_next = 0, b_prev = 0\<rparr> s1
         in kbind (find_last n (heap_head s2) s2) (\<lambda>lst.
            kbind (upd_block lst (\<lambda>x. x\<lparr>b_next := old_brk\<rparr>) s2) (\<lambda>s3.
            upd_block old_brk (\<lambda>x. x\<lparr>b_prev := lst\<rparr>) s3))))"

text \<open>
  \<open>kmalloc\<close> calls itself after the heap has grown; \<open>tries\<close> bounds these calls and \<open>n\<close> the
  length of the walks.
\<close>

fun kmalloc :: "nat \<Rightarrow> nat \<Rightarrow> nat \<Rightarrow> 'a kheap_scheme \<Rightarrow> kstop + (nat \<times> 'a kheap_scheme)" where
  "kmalloc 0 n sz0 s = Inl NoProgress"
| "kmalloc (Suc tries) n sz0 s =
     (if sz0 = 0 then Inr (0, s)
      else let sz = align_up sz0 16 in
        kbind (heap_first s) (\<lambda>s1.
        kbind (find_block n sz (heap_head s1) s1) (\<lambda>blk.
        if blk \<noteq> 0 then take_block sz blk s1
        else kbind (append_block n sz s1) (kmalloc tries n sz))))"

text \<open>Byte stores to the data area; they hit no header of a live block.\<close>

definition kzmalloc :: "nat \<Rightarrow> nat \<Rightarrow> nat \<Rightarrow> 'a kheap_scheme \<Rightarrow> kstop + (nat \<times> 'a kheap_scheme)" where
  "kzmalloc tries n sz s =
     kbind (kmalloc tries n sz s) (\<lambda>(ptr, s1).
       if ptr \<noteq> 0 then
         Inr (ptr, s1\<lparr>heap_data := (\<lambda>a. if ptr \<le> a \<and> a < ptr + sz then 0 else heap_data s1 a)\<rparr>)
       else Inr (ptr, s1))"

section \<open>Release\<close>

definition kfree :: "nat \<Rightarrow> 'a kheap_scheme \<Rightarrow> kstop + 'a kheap_scheme" where
  "kfree ptr s =
     (if ptr = 0 then Inr s
      else let blk = ptr - HDR in
        kbind (get_block s blk) (\<lambda>b.
        if b_magic b \<noteq> HEAP_MAGIC then Inr (s\<lparr>heap_log := ptr # heap_log s\<rparr>)
        else
          kbind (upd_block blk (\<lambda>x. x\<lparr>b_free := True\<rparr>) s) (\<lambda>s1.
          \<comment> \<open>coalesce with next\<close>
          kbind
            (if b_next b \<noteq> 0 then
               kbind (get_block s1 (b_next b)) (\<lambda>nb.
                 if b_free nb then
                   kbind (upd_block blk (\<lambda>x. x\<lparr>b_size := (b_size x + HDR + b_size nb) mod 2 ^ 32, b_next := b_next nb\<rparr>) s1) (\<lambda>s2.
                     if b_next nb \<noteq> 0 then upd_block (b_next nb) (\<lambda>x. x\<lparr>b_prev := blk\<rparr>) s2 else Inr s2)
                 else Inr s1)
             else Inr s1) (\<lambda>s3.
          \<comment> \<open>coalesce with prev\<close>
          kbind (get_block s3 blk) (\<lambda>b3.
            if b_prev b3 \<noteq> 0 then
              kbind (get_block s3 (b_prev b3)) (\<lambda>pb.
                if b_free pb then
                  kbind (upd_block (b_prev b3) (\<lambda>x. x\<lparr>b_size := (b_size x + HDR + b_size b3) mod 2 ^ 32, b_next := b_next b3\<rparr>) s3) (\<lambda>s4.
                    if b_next b3 \<noteq> 0 then upd_block (b_next b3) (\<lambda>x. x\<lparr>b_prev := b_prev b3\<rparr>) s4 else Inr s4)
                else Inr s3)
            else Inr s3)))))"

definition krealloc ::
    "nat \<Rightarrow> nat \<Rightarrow> nat \<Rightarrow> nat \<Rightarrow> 'a kheap_scheme \<Rightarrow> kstop + (nat \<times> 'a kheap_scheme)" where
  "krealloc tries n ptr new_size s =
     (if ptr = 0 then kmalloc tries n new_size s
      else if new_size = 0 then kbind (kfree ptr s) (\<lambda>s1. Inr (0, s1))
      else kbind (get_block s (ptr - HDR)) (\<lambda>b.
        if new_size \<le> b_size b then Inr (ptr, s)
        else kbind (kmalloc tries n new_size s) (\<lambda>(new_ptr, s1).
          if new_ptr = 0 then Inr (0, s1)
          else kbind (get_block s1 (ptr - HDR)) (\<lambda>b1.
            let copy = (if b_size b1 < new_size then b_size b1 else new_size);
                s2 = s1\<lparr>heap_data := (\<lambda>a. if new_ptr \<le> a \<and> a < new_ptr + copy
                                          then heap_data s1 (ptr + (a - new_ptr)) else heap_data s1 a)\<rparr>
            in kbind (kfree ptr s2) (\<lambda>s3. Inr (new_ptr, s3))))))"

section \<open>The list of blocks\<close>

text \<open>Address, usable size and free flag of the blocks, in the order of the list.\<close>

type_synonym blk = "nat \<times> nat \<times> bool"

fun first :: "blk list \<Rightarrow> nat \<Rightarrow> nat" where
  "first [] nx = nx"
| "first ((a, sz, fr) # bs) nx = a"

fun final :: "nat \<Rightarrow> blk list \<Rightarrow> nat" where
  "final p [] = p"
| "final p ((a, sz, fr) # bs) = final a bs"

fun lseg :: "(nat \<rightharpoonup> heap_block) \<Rightarrow> nat \<Rightarrow> blk list \<Rightarrow> nat \<Rightarrow> bool" where
  "lseg h p [] nx \<longleftrightarrow> True"
| "lseg h p ((a, sz, fr) # bs) nx \<longleftrightarrow>
     h a = Some \<lparr>b_magic = HEAP_MAGIC, b_size = sz, b_free = fr, b_next = first bs nx, b_prev = p\<rparr>
     \<and> lseg h a bs nx"

text \<open>The blocks fill the addresses from \<open>a\<close> to \<open>e\<close> without gap.\<close>

fun contig :: "nat \<Rightarrow> blk list \<Rightarrow> nat \<Rightarrow> bool" where
  "contig a [] e \<longleftrightarrow> a = e"
| "contig a ((b, sz, fr) # bs) e \<longleftrightarrow> b = a \<and> contig (a + HDR + sz) bs e"

definition heap_list :: "'a kheap_scheme \<Rightarrow> blk list \<Rightarrow> bool" where
  "heap_list s bs \<longleftrightarrow>
     heap_head s = first bs 0 \<and> lseg (heap s) 0 bs 0 \<and> contig HEAP_START bs (heap_brk s)
   \<and> heap_brk s \<le> HEAP_START + HEAP_MAX \<and> (\<forall>(a, sz, fr) \<in> set bs. sz mod 16 = 0)"

text \<open>Pointer and size of the blocks in use.\<close>

definition in_use :: "blk list \<Rightarrow> (nat \<times> nat) set" where
  "in_use bs = {(a + HDR, sz) | a sz. (a, sz, False) \<in> set bs}"

abbreviation addrs :: "blk list \<Rightarrow> nat list" where
  "addrs bs \<equiv> map fst bs"

subsection \<open>Segments\<close>

lemma first_append [simp]: "first (xs @ ys) nx = first xs (first ys nx)"
  by (induction xs) auto

lemma final_append [simp]: "final p (xs @ ys) = final (final p xs) ys"
  by (induction xs arbitrary: p) auto

lemma lseg_append: "lseg h p (xs @ ys) nx \<longleftrightarrow> lseg h p xs (first ys nx) \<and> lseg h (final p xs) ys nx"
  by (induction xs arbitrary: p) auto

lemma contig_append: "contig a (xs @ ys) e \<longleftrightarrow> (\<exists>m. contig a xs m \<and> contig m ys e)"
  by (induction xs arbitrary: a) auto

lemma lseg_other: "a \<notin> set (addrs bs) \<Longrightarrow> lseg (h(a := v)) p bs nx = lseg h p bs nx"
  by (induction bs arbitrary: p) auto

lemma lseg_reprev:
  assumes "lseg h p ys nx" "distinct (addrs ys)" "ys \<noteq> []" "h (first ys 0) = Some b"
  shows "lseg (h(first ys 0 \<mapsto> b\<lparr>b_prev := p'\<rparr>)) p' ys nx"
  using assms by (cases ys) (auto simp: lseg_other)

lemma final_in: "xs \<noteq> [] \<Longrightarrow> final p xs \<in> set (addrs xs)"
proof (induction xs arbitrary: p)
  case (Cons x xs)
  then show ?case by (cases x; cases "xs = []") auto
qed simp

lemma lseg_renext:
  "lseg h p xs nx \<Longrightarrow> distinct (addrs xs) \<Longrightarrow> xs \<noteq> [] \<Longrightarrow> h (final p xs) = Some b \<Longrightarrow>
   lseg (h(final p xs \<mapsto> b\<lparr>b_next := nx'\<rparr>)) p xs nx'"
proof (induction xs arbitrary: p)
  case (Cons x xs)
  obtain a sz fr where x: "x = (a, sz, fr)" by (cases x) auto
  show ?case
  proof (cases "xs = []")
    case False
    then have "final a xs \<noteq> a"
      using final_in [OF False, of a] Cons.prems(2) unfolding x by (metis distinct.simps(2) fst_conv list.map(2))
    moreover have "first xs nx = first xs nx'" using False by (cases xs) auto
    ultimately show ?thesis using Cons.IH [of a] Cons.prems False x by simp
  qed (use Cons.prems x in auto)
qed simp

lemma contig_bounds:
  "contig a bs e \<Longrightarrow> a \<le> e \<and> (\<forall>(b, sz, fr) \<in> set bs. a \<le> b \<and> b + HDR + sz \<le> e)"
proof (induction bs arbitrary: a)
  case (Cons x bs)
  obtain b sz fr where x: "x = (b, sz, fr)" by (cases x) auto
  with Cons.prems have "b = a" "contig (a + HDR + sz) bs e" by auto
  with Cons.IH [OF this(2)] x show ?case by fastforce
qed simp

lemma contig_distinct: "contig a bs e \<Longrightarrow> distinct (addrs bs)"
proof (induction bs arbitrary: a)
  case (Cons x bs)
  obtain b sz fr where x: "x = (b, sz, fr)" by (cases x) auto
  with Cons.prems have c: "b = a" "contig (a + HDR + sz) bs e" by auto
  have "a \<notin> set (addrs bs)" using contig_bounds [OF c(2)] by (fastforce simp: kconst)
  with Cons.IH [OF c(2)] c(1) x show ?case by simp
qed simp

lemma contig_disjoint:
  "contig a bs e \<Longrightarrow> (b, sz, fr) \<in> set bs \<Longrightarrow> (c, sz', fr') \<in> set bs \<Longrightarrow>
     b = c \<and> sz = sz' \<and> fr = fr' \<or> b + HDR + sz \<le> c \<or> c + HDR + sz' \<le> b"
proof (induction bs arbitrary: a)
  case (Cons x bs)
  obtain d zz ff where x: "x = (d, zz, ff)" by (cases x) auto
  with Cons.prems have c: "d = a" "contig (a + HDR + zz) bs e" by auto
  with Cons.IH [OF c(2)] contig_bounds [OF c(2)] Cons.prems x show ?case by fastforce
qed simp

lemma lseg_lookup: "lseg h p bs nx \<Longrightarrow> (a, sz, fr) \<in> set bs \<Longrightarrow>
    \<exists>b. h a = Some b \<and> b_magic b = HEAP_MAGIC \<and> b_size b = sz \<and> b_free b = fr"
  by (induction bs arbitrary: p) auto

lemma heap_list_parts:
  assumes "heap_list s (xs @ (a, sz, fr) # ys)"
  shows "lseg (heap s) 0 xs a" "lseg (heap s) a ys 0"
    "heap s a = Some \<lparr>b_magic = HEAP_MAGIC, b_size = sz, b_free = fr, b_next = first ys 0, b_prev = final 0 xs\<rparr>"
    "contig HEAP_START xs a" "contig (a + HDR + sz) ys (heap_brk s)"
    "a \<notin> set (addrs xs)" "a \<notin> set (addrs ys)" "set (addrs xs) \<inter> set (addrs ys) = {}"
    "distinct (addrs xs)" "distinct (addrs ys)" "sz < 2 ^ 32" "0 < a" "sz mod 16 = 0"
    "HEAP_START \<le> a" "a + HDR + sz \<le> heap_brk s" "\<forall>b \<in> set (addrs xs). b < a" "\<forall>b \<in> set (addrs ys). a + HDR + sz \<le> b"
proof -
  let ?bs = "xs @ (a, sz, fr) # ys"
  have c: "contig HEAP_START ?bs (heap_brk s)" and b: "heap_brk s \<le> HEAP_START + HEAP_MAX"
    and l: "lseg (heap s) 0 ?bs 0" using assms by (auto simp: heap_list_def)
  then show cx: "contig HEAP_START xs a" and cy: "contig (a + HDR + sz) ys (heap_brk s)"
    by (auto simp: contig_append)
  show "lseg (heap s) 0 xs a" "lseg (heap s) a ys 0"
    "heap s a = Some \<lparr>b_magic = HEAP_MAGIC, b_size = sz, b_free = fr, b_next = first ys 0, b_prev = final 0 xs\<rparr>"
    using l by (auto simp: lseg_append)
  from contig_distinct [OF c] show "a \<notin> set (addrs xs)" "a \<notin> set (addrs ys)"
    "set (addrs xs) \<inter> set (addrs ys) = {}" "distinct (addrs xs)" "distinct (addrs ys)" by auto
  have "HEAP_START \<le> a \<and> a + HDR + sz \<le> heap_brk s" using contig_bounds [OF c] by auto
  then show "sz < 2 ^ 32" "0 < a" "HEAP_START \<le> a" "a + HDR + sz \<le> heap_brk s"
    using b by (auto simp: kconst)
  show "sz mod 16 = 0" using assms by (auto simp: heap_list_def)
  show "\<forall>b \<in> set (addrs xs). b < a" using contig_bounds [OF cx] by (fastforce simp: kconst)
  show "\<forall>b \<in> set (addrs ys). a + HDR + sz \<le> b" using contig_bounds [OF cy] by fastforce
qed

subsection \<open>Operations on the list\<close>

lemma get_block_Some: "0 < a \<Longrightarrow> heap s a = Some b \<Longrightarrow> get_block s a = Inr b"
  by (simp add: get_block_def)

lemma upd_block_Some: "0 < a \<Longrightarrow> heap s a = Some b \<Longrightarrow> upd_block a f s = Inr (s\<lparr>heap := (heap s)(a \<mapsto> f b)\<rparr>)"
  by (simp add: upd_block_def get_block_def put_block_def)

text \<open>A block with its header changed in the free flag only.\<close>

lemma heap_list_flag:
  assumes hl: "heap_list s (xs @ (a, sz, fr) # ys)" and b: "heap s a = Some b"
  shows "heap_list (s\<lparr>heap := (heap s)(a \<mapsto> b\<lparr>b_free := fr'\<rparr>)\<rparr>) (xs @ (a, sz, fr') # ys)"
  using hl heap_list_parts [OF hl] b unfolding heap_list_def
  by (auto simp: lseg_append lseg_other contig_append)

text \<open>The back pointer of the first block of a segment replaced, if there is one.\<close>

lemma relink:
  assumes "lseg (heap s) q ys 0" "distinct (addrs ys)" "0 \<notin> set (addrs ys)"
  shows "\<exists>h. (if first ys 0 \<noteq> 0 then upd_block (first ys 0) (\<lambda>x. x\<lparr>b_prev := p\<rparr>) s else Inr s) = Inr (s\<lparr>heap := h\<rparr>)
    \<and> lseg h p ys 0 \<and> (\<forall>c. c \<notin> set (addrs ys) \<longrightarrow> h c = heap s c)"
proof (cases ys)
  case Nil
  then show ?thesis by (intro exI [of _ "heap s"]) simp
next
  case (Cons y zs)
  obtain c z f where y: "y = (c, z, f)" by (cases y) auto
  obtain b where b: "heap s c = Some b" using assms(1) Cons y by auto
  have c: "0 < c" using assms(3) Cons y by auto
  show ?thesis
    using upd_block_Some [OF c b] lseg_reprev [OF assms(1,2), of b p] b c Cons y
    by (intro exI [of _ "(heap s)(c \<mapsto> b\<lparr>b_prev := p\<rparr>)"]) auto
qed

lemma lseg_cong: "(\<And>a. a \<in> set (addrs bs) \<Longrightarrow> h a = h' a) \<Longrightarrow> lseg h p bs nx = lseg h' p bs nx"
  by (induction bs arbitrary: p) auto

lemma take_block_ok:
  assumes hl: "heap_list s (xs @ (a, sz, True) # ys)" and req: "req \<le> sz" "req mod 16 = 0"
  defines "bs' \<equiv> (if req + 64 \<le> sz then xs @ (a, req, False) # (a + HDR + req, sz - req - HDR, True) # ys
                  else xs @ (a, sz, False) # ys)"
  shows "\<exists>h. take_block req a s = Inr (a + HDR, s\<lparr>heap := h\<rparr>) \<and> heap_list (s\<lparr>heap := h\<rparr>) bs'"
proof -
  note pp = heap_list_parts [OF hl]
  have m64: "(req + HDR + 32) mod 2 ^ 64 = req + 64" using req pp(11) by (simp add: kconst)
  show ?thesis
  proof (cases "req + 64 \<le> sz")
    case False
    then show ?thesis
      using get_block_Some [OF pp(12,3)] upd_block_Some [OF pp(12,3)] heap_list_flag [OF hl pp(3), of False] m64
      by (auto simp: take_block_def bs'_def)
  next
    case True
    let ?n = "a + HDR + req"
    let ?nb = "\<lparr>b_magic = HEAP_MAGIC, b_size = sz - req - HDR, b_free = True, b_next = first ys 0, b_prev = a\<rparr>"
    let ?s1 = "put_block ?n ?nb s"
    have nx: "?n \<notin> set (addrs xs)" "?n \<notin> set (addrs ys)" "?n \<noteq> a"
      using pp(16,17) True by (auto simp: kconst)
    have l1: "lseg (heap ?s1) a ys 0" using pp(2) nx(2) by (simp add: put_block_def lseg_other)
    have z: "0 \<notin> set (addrs ys)" using pp(12,17) by fastforce
    obtain h where h: "(if first ys 0 \<noteq> 0 then upd_block (first ys 0) (\<lambda>x. x\<lparr>b_prev := ?n\<rparr>) ?s1 else Inr ?s1)
        = Inr (?s1\<lparr>heap := h\<rparr>)" "lseg h ?n ys 0" "\<forall>c. c \<notin> set (addrs ys) \<longrightarrow> h c = heap ?s1 c"
      using relink [OF l1 pp(10) z] by blast
    have ha: "h a = heap s a" "h ?n = Some ?nb" using h(3) pp(7) nx by (auto simp: put_block_def)
    define h' where "h' = h(a \<mapsto> \<lparr>b_magic = HEAP_MAGIC, b_size = req, b_free = False, b_next = ?n, b_prev = final 0 xs\<rparr>)"
    have m: "(sz - req - HDR) mod 2 ^ 32 = sz - req - HDR" "req mod 2 ^ 32 = req"
      using pp(11) req by (auto intro!: mod_less simp: kconst)
    have run: "take_block req a s = Inr (a + HDR, s\<lparr>heap := h'\<rparr>)"
      unfolding take_block_def get_block_Some [OF pp(12,3)] kbind_simps Let_def heap_block.select_convs
        m64 m(1) if_P [OF True] h(1)
      using ha(1) pp(3,12) m(2) by (simp add: upd_block_Some h'_def put_block_def)
    have "h' c = heap s c" if "c \<in> set (addrs xs)" for c
    proof -
      have "c \<notin> set (addrs ys)" "c \<noteq> a" "c \<noteq> ?n" using that pp(6,8) nx(1) by blast+
      then show ?thesis using h(3) by (simp add: h'_def put_block_def)
    qed
    then have lx: "lseg h' 0 xs a" using pp(1) lseg_cong [of xs h' "heap s"] by simp
    have ly: "lseg h' ?n ys 0" using h(2) pp(7) by (simp add: h'_def lseg_other)
    have "(sz - req - HDR) mod 16 = 0"
      using pp(13) req True by (auto simp: kconst)
    then have "heap_list (s\<lparr>heap := h'\<rparr>) (xs @ (a, req, False) # (?n, sz - req - HDR, True) # ys)"
      using hl lx ly ha nx(3) pp True req(2) unfolding heap_list_def
      by (auto simp: lseg_append contig_append h'_def kconst add.assoc)
    with run True show ?thesis by (auto simp: bs'_def)
  qed
qed

lemma merge_next:
  assumes hl: "heap_list s (xs @ (a, sz, f) # (b, szb, g) # ys)"
    and nb: "b_size nb = szb" "b_next nb = first ys 0"
  shows "\<exists>h. kbind (upd_block a (\<lambda>x. x\<lparr>b_size := (b_size x + HDR + b_size nb) mod 2 ^ 32, b_next := b_next nb\<rparr>) s) (\<lambda>s2.
        if b_next nb \<noteq> 0 then upd_block (b_next nb) (\<lambda>x. x\<lparr>b_prev := a\<rparr>) s2 else Inr s2) = Inr (s\<lparr>heap := h\<rparr>)
      \<and> heap_list (s\<lparr>heap := h\<rparr>) (xs @ (a, sz + HDR + szb, f) # ys)"
proof -
  note pp = heap_list_parts [OF hl]
  have hlb: "heap_list s ((xs @ [(a, sz, f)]) @ (b, szb, g) # ys)" using hl by simp
  note pb = heap_list_parts [OF hlb]
  have bd: "b = a + HDR + sz" using pp(5) by simp
  have m: "(sz + HDR + szb) mod 2 ^ 32 = sz + HDR + szb"
    using pb(15) pp(14) bd hl by (intro mod_less) (auto simp: heap_list_def kconst)
  let ?h1 = "(heap s)(a \<mapsto> \<lparr>b_magic = HEAP_MAGIC, b_size = sz + HDR + szb, b_free = f, b_next = first ys 0, b_prev = final 0 xs\<rparr>)"
  let ?s1 = "s\<lparr>heap := ?h1\<rparr>"
  have u: "upd_block a (\<lambda>x. x\<lparr>b_size := (b_size x + HDR + b_size nb) mod 2 ^ 32, b_next := b_next nb\<rparr>) s = Inr ?s1"
    using upd_block_Some [OF pp(12,3)] m nb by simp
  have ay: "a \<notin> set (addrs ys)" "a \<notin> set (addrs xs)" using pp(6,7) by auto
  have 0: "(sz + HDR + szb) mod 16 = 0" using pp(13) pb(13) by (simp add: kconst mod_eq_0_iff_dvd)
  have "lseg (heap ?s1) b ys 0" using pb(2) ay by (simp add: lseg_other)
  moreover have "0 \<notin> set (addrs ys)" using pb(12,17) by fastforce
  ultimately have "\<exists>h. (if first ys 0 \<noteq> 0 then upd_block (first ys 0) (\<lambda>x. x\<lparr>b_prev := a\<rparr>) ?s1 else Inr ?s1)
      = Inr (?s1\<lparr>heap := h\<rparr>) \<and> lseg h a ys 0 \<and> (\<forall>c. c \<notin> set (addrs ys) \<longrightarrow> h c = heap ?s1 c)"
    using relink pb(10) by blast
  then obtain h where h: "(if first ys 0 \<noteq> 0 then upd_block (first ys 0) (\<lambda>x. x\<lparr>b_prev := a\<rparr>) ?s1 else Inr ?s1) = Inr (s\<lparr>heap := h\<rparr>)"
    "lseg h a ys 0" "\<forall>c. c \<notin> set (addrs ys) \<longrightarrow> h c = ?h1 c" by auto
  have "h c = heap s c" if "c \<in> set (addrs xs)" for c
  proof -
    have "c \<notin> set (addrs ys)" "c \<noteq> a" using that pb(8) ay by auto
    then show ?thesis using h(3) by simp
  qed
  then have "lseg h 0 xs a" using pp(1) lseg_cong [of xs h "heap s"] by simp
  then have "heap_list (s\<lparr>heap := h\<rparr>) (xs @ (a, sz + HDR + szb, f) # ys)"
    using hl h(2,3) ay 0 unfolding heap_list_def by (auto simp: lseg_append contig_append add.assoc)
  with u h(1) nb show ?thesis by auto
qed

lemma in_use_simps [simp]:
  "in_use [] = {}" "in_use (xs @ ys) = in_use xs \<union> in_use ys"
  "in_use ((a, sz, True) # ys) = in_use ys" "in_use ((a, sz, False) # ys) = insert (a + HDR, sz) (in_use ys)"
  by (auto simp: in_use_def)

lemma coalesce_next:
  assumes hl: "heap_list s (xs @ (a, sz, True) # ys)" and n: "n = first ys 0"
  shows "\<exists>h sz' ys'.
     (if n \<noteq> 0 then
        kbind (get_block s n) (\<lambda>nb.
          if b_free nb then
            kbind (upd_block a (\<lambda>x. x\<lparr>b_size := (b_size x + HDR + b_size nb) mod 2 ^ 32, b_next := b_next nb\<rparr>) s) (\<lambda>s2.
              if b_next nb \<noteq> 0 then upd_block (b_next nb) (\<lambda>x. x\<lparr>b_prev := a\<rparr>) s2 else Inr s2)
          else Inr s)
      else Inr s) = Inr (s\<lparr>heap := h\<rparr>)
     \<and> heap_list (s\<lparr>heap := h\<rparr>) (xs @ (a, sz', True) # ys') \<and> in_use ys' = in_use ys"
proof (cases ys)
  case Nil
  with hl n show ?thesis by (intro exI [of _ "heap s"] exI [of _ sz] exI [of _ ys]) simp
next
  case (Cons y zs)
  obtain b szb g where y: "y = (b, szb, g)" by (cases y) auto
  have hlb: "heap_list s ((xs @ [(a, sz, True)]) @ (b, szb, g) # zs)" using hl Cons y by simp
  note pb = heap_list_parts [OF hlb]
  show ?thesis
  proof (cases g)
    case False
    with hl n Cons y get_block_Some [OF pb(12,3)] show ?thesis
      by (intro exI [of _ "heap s"] exI [of _ sz] exI [of _ ys]) simp
  next
    case True
    have hl': "heap_list s (xs @ (a, sz, True) # (b, szb, True) # zs)" using hl Cons y True by simp
    show ?thesis
      using merge_next [OF hl', of "the (heap s b)"] get_block_Some [OF pb(12,3)] pb(3) pb(12) n Cons y True
      by (fastforce simp: in_use_def)
  qed
qed

lemma coalesce_prev:
  assumes hl: "heap_list s (xs @ (a, sz, True) # ys)"
    and b3: "b_prev b3 = final 0 xs" "b_size b3 = sz" "b_next b3 = first ys 0"
  shows "\<exists>h bs'.
     (if b_prev b3 \<noteq> 0 then
        kbind (get_block s (b_prev b3)) (\<lambda>pb.
          if b_free pb then
            kbind (upd_block (b_prev b3) (\<lambda>x. x\<lparr>b_size := (b_size x + HDR + b_size b3) mod 2 ^ 32, b_next := b_next b3\<rparr>) s) (\<lambda>s4.
              if b_next b3 \<noteq> 0 then upd_block (b_next b3) (\<lambda>x. x\<lparr>b_prev := b_prev b3\<rparr>) s4 else Inr s4)
          else Inr s)
      else Inr s) = Inr (s\<lparr>heap := h\<rparr>)
     \<and> heap_list (s\<lparr>heap := h\<rparr>) bs' \<and> in_use bs' = in_use (xs @ ys)"
proof (cases xs rule: rev_cases)
  case Nil
  with hl b3 show ?thesis by (intro exI [of _ "heap s"] exI [of _ "xs @ (a, sz, True) # ys"]) simp
next
  case (snoc ws w)
  obtain c szc g where w: "w = (c, szc, g)" by (cases w) auto
  have hlc: "heap_list s (ws @ (c, szc, g) # (a, sz, True) # ys)" using hl snoc w by simp
  note pc = heap_list_parts [OF hlc]
  show ?thesis
  proof (cases g)
    case False
    with hl b3 snoc w get_block_Some [OF pc(12,3)] show ?thesis
      by (intro exI [of _ "heap s"] exI [of _ "xs @ (a, sz, True) # ys"]) simp
  next
    case True
    obtain h where "kbind (upd_block c (\<lambda>x. x\<lparr>b_size := (b_size x + HDR + b_size b3) mod 2 ^ 32, b_next := b_next b3\<rparr>) s) (\<lambda>s4.
              if b_next b3 \<noteq> 0 then upd_block (b_next b3) (\<lambda>x. x\<lparr>b_prev := c\<rparr>) s4 else Inr s4) = Inr (s\<lparr>heap := h\<rparr>)"
      "heap_list (s\<lparr>heap := h\<rparr>) (ws @ (c, szc + HDR + sz, g) # ys)"
      using merge_next [OF hlc b3(2,3)] by blast
    with get_block_Some [OF pc(12,3)] pc(12) snoc w True b3(1) show ?thesis
      by (intro exI [of _ h] exI [of _ "ws @ (c, szc + HDR + sz, g) # ys"]) (simp del: kbind_eq_Inr cong: if_cong)
  qed
qed

lemma kfree_ok:
  assumes hl: "heap_list s bs" and p: "(p, sz) \<in> in_use bs"
  shows "\<exists>h bs'. kfree p s = Inr (s\<lparr>heap := h\<rparr>) \<and> heap_list (s\<lparr>heap := h\<rparr>) bs' \<and> in_use bs' = in_use bs - {(p, sz)}"
proof -
  from p obtain a where a: "p = a + HDR" "(a, sz, False) \<in> set bs" by (auto simp: in_use_def)
  then obtain xs ys where bs: "bs = xs @ (a, sz, False) # ys" by (auto dest: split_list)
  note hl0 = hl [unfolded bs]
  note pp = heap_list_parts [OF hl0]
  let ?b = "\<lparr>b_magic = HEAP_MAGIC, b_size = sz, b_free = False, b_next = first ys 0, b_prev = final 0 xs\<rparr>"
  let ?s1 = "s\<lparr>heap := (heap s)(a \<mapsto> ?b\<lparr>b_free := True\<rparr>)\<rparr>"
  have hl1: "heap_list ?s1 (xs @ (a, sz, True) # ys)" by (rule heap_list_flag [OF hl0 pp(3)])
  obtain h sz' ys' where n: "(if first ys 0 \<noteq> 0 then
        kbind (get_block ?s1 (first ys 0)) (\<lambda>nb.
          if b_free nb then
            kbind (upd_block a (\<lambda>x. x\<lparr>b_size := (b_size x + HDR + b_size nb) mod 2 ^ 32, b_next := b_next nb\<rparr>) ?s1) (\<lambda>s2.
              if b_next nb \<noteq> 0 then upd_block (b_next nb) (\<lambda>x. x\<lparr>b_prev := a\<rparr>) s2 else Inr s2)
          else Inr ?s1)
      else Inr ?s1) = Inr (?s1\<lparr>heap := h\<rparr>)"
    and hl3: "heap_list (?s1\<lparr>heap := h\<rparr>) (xs @ (a, sz', True) # ys')" and u3: "in_use ys' = in_use ys"
    using coalesce_next [OF hl1 refl] by blast
  note p3 = heap_list_parts [OF hl3]
  let ?s3 = "?s1\<lparr>heap := h\<rparr>" and ?b3 = "\<lparr>b_magic = HEAP_MAGIC, b_size = sz', b_free = True, b_next = first ys' 0, b_prev = final 0 xs\<rparr>"
  obtain h' bs' where m: "(if b_prev ?b3 \<noteq> 0 then
        kbind (get_block ?s3 (b_prev ?b3)) (\<lambda>pb.
          if b_free pb then
            kbind (upd_block (b_prev ?b3) (\<lambda>x. x\<lparr>b_size := (b_size x + HDR + b_size ?b3) mod 2 ^ 32, b_next := b_next ?b3\<rparr>) ?s3) (\<lambda>s4.
              if b_next ?b3 \<noteq> 0 then upd_block (b_next ?b3) (\<lambda>x. x\<lparr>b_prev := b_prev ?b3\<rparr>) s4 else Inr s4)
          else Inr ?s3)
      else Inr ?s3) = Inr (?s3\<lparr>heap := h'\<rparr>)"
    and hl4: "heap_list (?s3\<lparr>heap := h'\<rparr>) bs'" and u4: "in_use bs' = in_use (xs @ ys')"
    using coalesce_prev [OF hl3, of ?b3] by auto
  have "kfree p s = Inr (?s3\<lparr>heap := h'\<rparr>)"
    unfolding kfree_def a(1) Let_def add_diff_cancel_right' get_block_Some [OF pp(12,3)] kbind_simps
      upd_block_Some [OF pp(12,3)] heap_block.select_convs n get_block_Some [OF p3(12,3)]
      m [unfolded heap_block.select_convs]
    using pp(12) by simp
  moreover have "(p, sz) \<notin> in_use (xs @ ys)"
    using pp(6,7) by (auto simp: in_use_def a(1) rev_image_eqI)
  ultimately show ?thesis using hl4 u3 u4 by (auto simp: bs a(1))
qed

section \<open>Growing the heap\<close>

text \<open>The page allocator and the paging code leave the heap's own fields alone.\<close>

lemma kheap_more:
  fixes s s' :: "'a kheap_scheme"
  assumes "vmm.more s' = vmm.more s"
  shows "heap_head s' = heap_head s" "heap_brk s' = heap_brk s" "heap s' = heap s"
    "heap_data s' = heap_data s" "heap_log s' = heap_log s"
  using assms by (cases s; cases s'; simp)+

lemma alloc_page_Inl: "alloc_page s = Inl e \<Longrightarrow> e = OutOfPhysicalMemory"
  by (auto simp: alloc_page_def Let_def split: option.splits)

lemma get_or_alloc_more:
  "get_or_alloc_table t i f s = Inr (t', s') \<Longrightarrow> vmm.more s' = vmm.more s"
  "get_or_alloc_table t i f s = Inl e \<Longrightarrow> e = OutOfPhysicalMemory"
  by (auto simp: get_or_alloc_table_def alloc_page_frame kbind_eq_Inl split: if_splits dest: alloc_page_Inl)

lemma map_page_more:
  "map_page p v f s = Inr (r, s') \<Longrightarrow> vmm.more s' = vmm.more s"
  "map_page p v f s = Inl e \<Longrightarrow> e = OutOfPhysicalMemory"
  by (auto simp: map_page_def kbind_eq_Inl get_or_alloc_more dest: get_or_alloc_more)

lemma heap_expand_loop_cases:
  "heap_brk s \<le> HEAP_START + HEAP_MAX \<Longrightarrow> HEAP_START \<le> heap_brk s \<Longrightarrow>
   (case heap_expand_loop n s of Inl e \<Rightarrow> e = OutOfPhysicalMemory \<or> e = HeapExhausted
    | Inr s' \<Rightarrow> heap_brk s' = heap_brk s + 4096 * n \<and> heap_brk s' \<le> HEAP_START + HEAP_MAX
        \<and> heap_head s' = heap_head s \<and> heap s' = heap s \<and> heap_data s' = heap_data s \<and> heap_log s' = heap_log s)"
proof (induction n arbitrary: s)
  case (Suc n)
  show ?case
  proof (cases "alloc_page s")
    case (Inl e)
    then show ?thesis by (auto dest: alloc_page_Inl)
  next
    case (Inr ps)
    obtain p s1 where a: "alloc_page s = Inr (p, s1)" using Inr by (cases ps) auto
    note m1 = kheap_more [OF alloc_page_frame(6) [OF a]]
    show ?thesis
    proof (cases "map_page p (of_nat (heap_brk s1)) heap_flags s1")
      case (Inl e)
      with a show ?thesis by (auto dest: map_page_more)
    next
      case (Inr rs)
      obtain r s2 where m: "map_page p (of_nat (heap_brk s1)) heap_flags s1 = Inr (r, s2)"
        using Inr by (cases rs) auto
      note m2 = kheap_more [OF map_page_more(1) [OF m]]
      let ?s3 = "s2\<lparr>heap_brk := heap_brk s2 + 4096\<rparr>"
      have "HEAP_MAX < heap_brk s + 4096 - HEAP_START \<longleftrightarrow> HEAP_START + HEAP_MAX < heap_brk s + 4096"
        using Suc.prems by arith
      then show ?thesis
        using Suc.IH [of ?s3] Suc.prems a m m1 m2 by (auto split: sum.splits)
    qed
  qed
qed simp

lemma align_up_eq: "0 < a \<Longrightarrow> x + a \<le> 2 ^ 64 \<Longrightarrow> align_up x a = (x + (a - 1)) div a * a"
  by (simp add: align_up_def)

lemma align_up_bounds:
  assumes "0 < a" "x + a \<le> 2 ^ 64"
  shows "x \<le> align_up x a" "align_up x a < x + a" "align_up x a mod a = 0"
proof -
  have e: "align_up x a = (x + (a - 1)) div a * a" by (rule align_up_eq [OF assms])
  have m: "(x + (a - 1)) div a * a + (x + (a - 1)) mod a = x + (a - 1)" by simp
  have "(x + (a - 1)) mod a < a" using assms(1) by simp
  with m assms(1) show "x \<le> align_up x a" "align_up x a < x + a" unfolding e by linarith+
  show "align_up x a mod a = 0" by (simp add: e)
qed

section \<open>Searching the list\<close>

definition fits :: "nat \<Rightarrow> blk \<Rightarrow> bool" where
  "fits sz = (\<lambda>(a, z, f). f \<and> sz \<le> z)"

lemma find_block_list:
  "lseg (heap s) p bs 0 \<Longrightarrow> 0 \<notin> set (addrs bs) \<Longrightarrow> length bs < n \<Longrightarrow>
   find_block n sz (first bs 0) s = Inr (case List.find (fits sz) bs of None \<Rightarrow> 0 | Some (a, z, f) \<Rightarrow> a)"
proof (induction bs arbitrary: p n)
  case Nil
  then show ?case by (cases n) auto
next
  case (Cons x bs)
  obtain a z f where x: "x = (a, z, f)" by (cases x) auto
  obtain m where n: "n = Suc m" using Cons.prems(3) by (cases n) auto
  have "get_block s a = Inr \<lparr>b_magic = HEAP_MAGIC, b_size = z, b_free = f, b_next = first bs 0, b_prev = p\<rparr>"
    using Cons.prems(1,2) x by (intro get_block_Some) auto
  with Cons x n show ?case by (auto simp: fits_def)
qed

lemma find_last_list:
  "lseg (heap s) p bs 0 \<Longrightarrow> 0 \<notin> set (addrs bs) \<Longrightarrow> length bs \<le> n \<Longrightarrow> bs \<noteq> [] \<Longrightarrow>
   find_last n (first bs 0) s = Inr (final p bs)"
proof (induction bs arbitrary: p n)
  case (Cons x bs)
  obtain a z f where x: "x = (a, z, f)" by (cases x) auto
  obtain m where n: "n = Suc m" using Cons.prems(3) by (cases n) auto
  have g: "get_block s a = Inr \<lparr>b_magic = HEAP_MAGIC, b_size = z, b_free = f, b_next = first bs 0, b_prev = p\<rparr>"
    using Cons.prems(1,2) x by (intro get_block_Some) auto
  show ?case
  proof (cases "bs = []")
    case False
    then have "first bs 0 \<noteq> 0" using Cons.prems(2) by (cases bs) auto
    with Cons g x n False show ?thesis by auto
  qed (use g x n in auto)
qed simp

lemma heap_list_nonzero: "heap_list s bs \<Longrightarrow> 0 \<notin> set (addrs bs)"
  using contig_bounds [of HEAP_START bs "heap_brk s"] by (fastforce simp: heap_list_def kconst)

lemma heap_list_brk: "heap_list s bs \<Longrightarrow> HEAP_START \<le> heap_brk s \<and> heap_brk s \<le> HEAP_START + HEAP_MAX"
  using contig_bounds [of HEAP_START bs "heap_brk s"] by (auto simp: heap_list_def)

lemma heap_list_cong:
  "heap_list s bs \<Longrightarrow> heap_head s' = heap_head s \<Longrightarrow> heap s' = heap s \<Longrightarrow> heap_brk s' = heap_brk s \<Longrightarrow>
   heap_list s' bs"
  by (simp add: heap_list_def)

section \<open>Allocation\<close>

abbreviation (input) exhausted :: "kstop \<Rightarrow> bool" where
  "exhausted e \<equiv> e = OutOfPhysicalMemory \<or> e = HeapExhausted"

lemma heap_first_cases:
  assumes "heap_list s bs"
  shows "case heap_first s of Inl e \<Rightarrow> bs = [] \<and> exhausted e
    | Inr s' \<Rightarrow> heap_list s' (if bs = [] then [(HEAP_START, 4096 - HDR, True)] else bs) \<and> heap_data s' = heap_data s
        \<and> (bs \<noteq> [] \<longrightarrow> s' = s)"
proof (cases "bs = []")
  case False
  then have "heap_head s \<noteq> 0" using assms heap_list_nonzero [OF assms] by (cases bs) (auto simp: heap_list_def)
  then show ?thesis using False assms by (simp add: heap_first_def)
next
  case True
  then have s: "heap_head s = 0" "heap_brk s = HEAP_START" using assms by (auto simp: heap_list_def)
  have al: "align_up 4096 4096 div 4096 = Suc 0" by (simp add: align_up_def)
  show ?thesis
    using heap_expand_loop_cases [of s "Suc 0"] s True
    by (auto simp: heap_first_def heap_expand_def al put_block_def heap_list_def kconst simp del: heap_expand_loop.simps split: sum.splits)
qed

lemma append_block_cases:
  assumes hl: "heap_list s bs" and ne: "bs \<noteq> []" and n: "length bs \<le> n" and sz: "sz < 2 ^ 63" "sz mod 16 = 0"
  shows "case append_block n sz s of
      Inl e \<Rightarrow> exhausted e \<and> heap_expand_loop (align_up (sz + HDR) 4096 div 4096) s = Inl e
    | Inr s' \<Rightarrow> (\<exists>z. sz \<le> z \<and> heap_list s' (bs @ [(heap_brk s, z, True)])) \<and> heap_data s' = heap_data s"
proof -
  let ?e = "align_up (sz + HDR) 4096"
  have w: "(sz + HDR) mod 2 ^ 64 = sz + HDR" using sz(1) by (simp add: kconst)
  have eb: "sz + HDR \<le> ?e" "?e mod 4096 = 0" "?e < sz + HDR + 4096"
    using align_up_bounds [of 4096 "sz + HDR"] sz(1) by (auto simp: kconst)
  have "align_up ?e 4096 = ?e"
    using eb(2,3) sz(1) by (simp add: align_up_def kconst)
  then have he: "heap_expand ?e s = heap_expand_loop (?e div 4096) s" by (simp add: heap_expand_def)
  note brk = heap_list_brk [OF hl]
  show ?thesis
  proof (cases "heap_expand_loop (?e div 4096) s")
    case (Inl x)
    with heap_expand_loop_cases [of s "?e div 4096"] brk w he show ?thesis
      by (auto simp: append_block_def Let_def)
  next
    case (Inr s1)
    have "4096 * (?e div 4096) = ?e" using eb(2) by (simp add: mod_eq_0_iff_dvd)
    with heap_expand_loop_cases [of s "?e div 4096"] brk Inr
    have s1: "heap_brk s1 = heap_brk s + ?e" "heap_brk s1 \<le> HEAP_START + HEAP_MAX"
      "heap_head s1 = heap_head s" "heap s1 = heap s" "heap_data s1 = heap_data s" by auto
    let ?b = "heap_brk s" and ?z = "?e - HDR"
    have z: "?z mod 2 ^ 32 = ?z" using s1(1,2) brk by (intro mod_less) (simp add: kconst)
    let ?s2 = "put_block ?b \<lparr>b_magic = HEAP_MAGIC, b_size = ?z, b_free = True, b_next = 0, b_prev = 0\<rparr> s1"
    have c: "contig HEAP_START bs ?b" and l: "lseg (heap s) 0 bs 0" using hl by (auto simp: heap_list_def)
    have nb: "?b \<notin> set (addrs bs)" using contig_bounds [OF c] by (fastforce simp: kconst)
    have l2: "lseg (heap ?s2) 0 bs 0" using l nb s1(4) by (simp add: put_block_def lseg_other)
    have hd: "heap_head ?s2 = first bs 0" using hl s1(3) by (simp add: put_block_def heap_list_def)
    have fl: "find_last n (heap_head ?s2) ?s2 = Inr (final 0 bs)"
      unfolding hd by (rule find_last_list [OF l2 heap_list_nonzero [OF hl] n ne])
    have fin: "final 0 bs \<in> set (addrs bs)" by (rule final_in [OF ne])
    then obtain q z f where qz: "(final 0 bs, z, f) \<in> set bs" by auto
    then obtain x where x: "heap ?s2 (final 0 bs) = Some x" using lseg_lookup [OF l2 qz] by blast
    have fpos: "0 < final 0 bs" using fin heap_list_nonzero [OF hl] by (metis gr0I)
    have bpos: "0 < ?b" using brk by (auto simp: kconst)
    have fb: "final 0 bs \<noteq> ?b" using fin nb by metis
    let ?h = "(heap ?s2)(final 0 bs \<mapsto> x\<lparr>b_next := ?b\<rparr>)"
    let ?h' = "?h(?b \<mapsto> \<lparr>b_magic = HEAP_MAGIC, b_size = ?z, b_free = True, b_next = 0, b_prev = final 0 bs\<rparr>)"
    have run: "append_block n sz s = Inr (?s2\<lparr>heap := ?h'\<rparr>)"
      unfolding append_block_def Let_def w he Inr kbind_simps z fl upd_block_Some [OF fpos x]
      by (subst upd_block_Some [OF bpos, of _ "\<lparr>b_magic = HEAP_MAGIC, b_size = ?z, b_free = True, b_next = 0, b_prev = 0\<rparr>"])
         (use fb in \<open>simp_all add: put_block_def\<close>)
    have l3: "lseg ?h' 0 bs ?b"
      using lseg_renext [OF l2 contig_distinct [OF c] ne x] nb by (simp add: lseg_other)
    have "16 dvd ?e" by (rule dvd_trans [of _ 4096]) (use eb(2) in \<open>simp_all add: mod_eq_0_iff_dvd\<close>)
    then have "?z mod 16 = 0" using eb(1) by (simp add: kconst)
    then have "heap_list (?s2\<lparr>heap := ?h'\<rparr>) (bs @ [(?b, ?z, True)])"
      using hl l3 c s1 eb(1) hd ne unfolding heap_list_def
      by (cases bs) (auto simp: lseg_append contig_append put_block_def)
    moreover have "heap_data (?s2\<lparr>heap := ?h'\<rparr>) = heap_data s" using s1 by (simp add: put_block_def)
    moreover have "sz \<le> ?z" using eb(1) by simp
    ultimately show ?thesis unfolding run by auto
  qed
qed

text \<open>What a successful allocation of \<open>sz\<close> bytes gives: a block that was not in use.\<close>

definition allocated :: "nat \<Rightarrow> 'a kheap_scheme \<Rightarrow> blk list \<Rightarrow> nat \<Rightarrow> 'a kheap_scheme \<Rightarrow> bool" where
  "allocated sz s bs p s' \<longleftrightarrow> (\<exists>bs' z. heap_list s' bs' \<and> sz \<le> z \<and> p mod 16 = 0 \<and> 0 < p \<and> p \<notin> fst ` in_use bs
     \<and> in_use bs' = insert (p, z) (in_use bs) \<and> heap_data s' = heap_data s)"

lemma in_use_mono:
  assumes "heap_list s (xs @ (a, sz, True) # ys)"
  shows "a + HDR \<notin> fst ` in_use (xs @ (a, sz, True) # ys)"
  using heap_list_parts(6,7) [OF assms] by (auto simp: in_use_def rev_image_eqI)

lemma contig_aligned:
  "contig a bs e \<Longrightarrow> a mod 16 = 0 \<Longrightarrow> \<forall>(b, sz, f) \<in> set bs. sz mod 16 = 0 \<Longrightarrow> \<forall>(b, sz, f) \<in> set bs. b mod 16 = 0"
proof (induction bs arbitrary: a)
  case (Cons x bs)
  obtain b z f where x: "x = (b, z, f)" by (cases x) auto
  have "(a + HDR + z) mod 16 = 0" using Cons.prems x by (auto simp: kconst mod_eq_0_iff_dvd)
  with Cons.IH [of "a + HDR + z"] Cons.prems x show ?case by simp
qed simp

lemma kmalloc_hit:
  assumes hl: "heap_list s bs" and sz: "0 < sz0" "sz0 < 2 ^ 63"
    and hit: "List.find (fits (align_up sz0 16)) bs \<noteq> None" and n: "length bs < n"
  shows "\<exists>p s'. kmalloc (Suc t) n sz0 s = Inr (p, s') \<and> allocated sz0 s bs p s'"
proof -
  let ?sz = "align_up sz0 16"
  note al = align_up_bounds [of 16 sz0]
  obtain a z f where fd: "List.find (fits ?sz) bs = Some (a, z, f)" using hit by auto
  then have az: "(a, z, f) \<in> set bs" "fits ?sz (a, z, f)"
    using find_Some_iff [of "fits ?sz" bs "(a, z, f)"] by auto
  then have f: "f" "?sz \<le> z" by (auto simp: fits_def)
  obtain xs ys where bs: "bs = xs @ (a, z, True) # ys" using az(1) f(1) by (auto dest: split_list)
  have hl0: "heap_list s (xs @ (a, z, True) # ys)" using hl bs by simp
  note pp = heap_list_parts [OF hl0]
  have hf: "heap_first s = Inr s" using heap_first_cases [OF hl] bs by (auto split: sum.splits)
  have fb: "find_block n ?sz (heap_head s) s = Inr a"
    using find_block_list [of s 0 bs n ?sz] hl heap_list_nonzero [OF hl] n fd by (simp add: heap_list_def)
  have "?sz mod 16 = 0" using al sz by simp
  from take_block_ok [OF hl0 f(2) this] obtain h where h: "take_block ?sz a s = Inr (a + HDR, s\<lparr>heap := h\<rparr>)"
    "heap_list (s\<lparr>heap := h\<rparr>) (if ?sz + 64 \<le> z then xs @ (a, ?sz, False) # (a + HDR + ?sz, z - ?sz - HDR, True) # ys
                  else xs @ (a, z, False) # ys)" by blast
  have run: "kmalloc (Suc t) n sz0 s = Inr (a + HDR, s\<lparr>heap := h\<rparr>)"
    using sz(1) hf fb pp(12) h(1) by simp
  have "\<forall>(b, sz, f) \<in> set bs. b mod 16 = 0"
    using hl by (intro contig_aligned [of HEAP_START bs "heap_brk s"]) (auto simp: heap_list_def kconst)
  then have "(a + HDR) mod 16 = 0" using bs by (auto simp: kconst mod_eq_0_iff_dvd)
  moreover have "sz0 \<le> ?sz" using al sz by simp
  ultimately have ok: "allocated sz0 s bs (a + HDR) (s\<lparr>heap := h\<rparr>)"
    if "heap_list (s\<lparr>heap := h\<rparr>) bs'" "in_use bs' = insert (a + HDR, z') (in_use bs)" "?sz \<le> z'" for bs' z'
    unfolding allocated_def using in_use_mono [OF hl0] pp(12) bs that
    by (intro exI [of _ bs'] exI [of _ z']) simp
  have "allocated sz0 s bs (a + HDR) (s\<lparr>heap := h\<rparr>)"
    by (cases "?sz + 64 \<le> z"; rule ok [OF h(2)]) (use bs f(2) in auto)
  with run show ?thesis by blast
qed

lemma kmalloc_first:
  assumes "heap_list s bs" "0 < sz0"
  shows "kmalloc (Suc t) n sz0 s = kbind (heap_first s) (kmalloc (Suc t) n sz0)"
proof (cases "heap_first s")
  case (Inr s1)
  let ?bs = "if bs = [] then [(HEAP_START, 4096 - HDR, True)] else bs"
  have "heap_list s1 ?bs" using heap_first_cases [OF assms(1)] Inr by simp
  then have "heap_first s1 = Inr s1" using heap_first_cases [of s1 ?bs] by (auto split: sum.splits if_splits)
  with Inr assms(2) show ?thesis by (simp add: Let_def)
qed (use assms(2) in simp)

lemma kmalloc_cases:
  assumes hl: "heap_list s bs" and sz: "0 < sz0" "sz0 < 2 ^ 62" and n: "length bs + 2 < n"
  shows "case kmalloc (Suc (Suc t)) n sz0 s of Inl e \<Rightarrow> exhausted e | Inr (p, s') \<Rightarrow> allocated sz0 s bs p s'"
proof (cases "heap_first s")
  case (Inl e)
  with heap_first_cases [OF hl] sz(1) show ?thesis by simp
next
  case (Inr s1)
  let ?bs = "if bs = [] then [(HEAP_START, 4096 - HDR, True)] else bs"
  let ?sz = "align_up sz0 16"
  have hl1: "heap_list s1 ?bs" and d1: "heap_data s1 = heap_data s"
    using heap_first_cases [OF hl] Inr by simp_all
  have u: "in_use ?bs = in_use bs" by simp
  have al: "sz0 \<le> ?sz" "?sz < 2 ^ 63" "?sz mod 16 = 0" "0 < ?sz" using align_up_bounds [of 16 sz0] sz by auto
  have run: "kmalloc (Suc (Suc t)) n sz0 s = kmalloc (Suc (Suc t)) n sz0 s1"
    using kmalloc_first [OF hl sz(1)] Inr by simp
  have len: "length ?bs + 1 < n" using n by simp
  show ?thesis
  proof (cases "List.find (fits ?sz) ?bs = None")
    case False
    have sz': "sz0 < 2 ^ 63" and len': "length ?bs < n" using sz(2) len by simp_all
    from kmalloc_hit [OF hl1 sz(1) sz' False len', of "Suc t"] obtain p s' where
      p: "kmalloc (Suc (Suc t)) n sz0 s1 = Inr (p, s')" "allocated sz0 s1 ?bs p s'" by blast
    from p(2) have "allocated sz0 s bs p s'" unfolding allocated_def u d1 .
    with p(1) show ?thesis unfolding run by simp
  next
    case True
    have hf: "heap_first s1 = Inr s1" using heap_first_cases [OF hl1] by (auto split: sum.splits if_splits)
    have fb: "find_block n ?sz (heap_head s1) s1 = Inr 0"
      using find_block_list [of s1 0 ?bs n ?sz] hl1 heap_list_nonzero [OF hl1] len True by (simp add: heap_list_def)
    have k: "kmalloc (Suc (Suc t)) n sz0 s1 = kbind (append_block n ?sz s1) (kmalloc (Suc t) n ?sz)"
      unfolding kmalloc.simps(2) [of "Suc t"] Let_def hf kbind_simps fb using sz(1) by simp
    have ne: "?bs \<noteq> []" and ln: "length ?bs \<le> n" using len by auto
    show ?thesis
    proof (cases "append_block n ?sz s1")
      case (Inl e)
      with append_block_cases [OF hl1 ne ln al(2,3)] show ?thesis unfolding run k by simp
    next
      case (Inr s2)
      with append_block_cases [OF hl1 ne ln al(2,3)] obtain z where z: "?sz \<le> z"
        "heap_list s2 (?bs @ [(heap_brk s1, z, True)])" "heap_data s2 = heap_data s1" by auto
      have "align_up ?sz 16 = ?sz" using al(2,3) by (simp add: align_up_def)
      then have "List.find (fits (align_up ?sz 16)) (?bs @ [(heap_brk s1, z, True)]) \<noteq> None"
        using z(1) by (auto simp: find_None_iff fits_def)
      moreover have "length (?bs @ [(heap_brk s1, z, True)]) < n" using len by simp
      ultimately obtain p s' where
        p: "kmalloc (Suc t) n ?sz s2 = Inr (p, s')" "allocated ?sz s2 (?bs @ [(heap_brk s1, z, True)]) p s'"
        using kmalloc_hit [OF z(2) al(4,2), of n t] by blast
      have u2: "in_use (?bs @ [(heap_brk s1, z, True)]) = in_use bs" by simp
      from p(2) have "allocated sz0 s bs p s'"
        unfolding allocated_def u2 z(3) d1 using al(1) by (meson le_trans)
      with p(1) Inr show ?thesis unfolding run k by simp
    qed
  qed
qed

section \<open>The contract of a block allocator\<close>

text \<open>\<open>used s U\<close>: in state \<open>s\<close> the blocks handed out are those of \<open>U\<close> (pointer, size).\<close>

locale block_allocator =
  fixes alloc :: "nat \<Rightarrow> 's \<Rightarrow> kstop + (nat \<times> 's)"
    and release :: "nat \<Rightarrow> 's \<Rightarrow> kstop + 's"
    and used :: "'s \<Rightarrow> (nat \<times> nat) set \<Rightarrow> bool"
    and valid :: "nat \<Rightarrow> bool"
  assumes alloc_used: "used s U \<Longrightarrow> valid sz \<Longrightarrow>
      (case alloc sz s of Inl e \<Rightarrow> exhausted e
       | Inr (p, s') \<Rightarrow> (\<exists>z \<ge> sz. p \<notin> fst ` U \<and> used s' (insert (p, z) U)))"
    and release_used: "used s U \<Longrightarrow> (p, z) \<in> U \<Longrightarrow> \<exists>s'. release p s = Inr s' \<and> used s' (U - {(p, z)})"
    and used_disjoint: "used s U \<Longrightarrow> (p, z) \<in> U \<Longrightarrow> (q, y) \<in> U \<Longrightarrow> p = q \<and> z = y \<or> p + z \<le> q \<or> q + y \<le> p"
begin

lemma alloc_apart:
  assumes "used s U" "valid sz" "alloc sz s = Inr (p, s')" "(q, y) \<in> U"
  shows "p + sz \<le> q \<or> q + y \<le> p"
proof -
  obtain z where z: "sz \<le> z" "p \<notin> fst ` U" "used s' (insert (p, z) U)"
    using alloc_used [OF assms(1,2)] assms(3) by auto
  then have "p = q \<and> z = y \<or> p + z \<le> q \<or> q + y \<le> p"
    using used_disjoint [OF z(3), of p z q y] assms(4) by blast
  then show ?thesis
  proof (elim disjE)
    assume "p = q \<and> z = y"
    then show ?thesis using z(2) assms(4) by (metis fst_conv imageI)
  qed (use z(1) in auto)
qed

lemma alloc_release:
  assumes "used s U" "valid sz" "alloc sz s = Inr (p, s')"
  shows "\<exists>s''. release p s' = Inr s'' \<and> used s'' U"
proof -
  obtain z where z: "p \<notin> fst ` U" "used s' (insert (p, z) U)"
    using alloc_used [OF assms(1,2)] assms(3) by auto
  have "insert (p, z) U - {(p, z)} = U" using z(1) by (force simp: image_iff)
  with release_used [OF z(2), of p z] show ?thesis by simp
qed

end

text \<open>64 MB hold at most \<open>2 ^ 21\<close> headers of 32 bytes, so this many steps are enough for every walk.\<close>

definition HEAP_STEPS :: nat where "HEAP_STEPS = 2097155"

lemma contig_length: "contig a bs e \<Longrightarrow> a + HDR * length bs \<le> e"
proof (induction bs arbitrary: a)
  case (Cons x bs)
  obtain b z f where x: "x = (b, z, f)" by (cases x) auto
  from Cons.IH [of "a + HDR + z"] Cons.prems x show ?case by simp
qed simp

lemma heap_steps_enough: "heap_list s bs \<Longrightarrow> length bs + 2 < HEAP_STEPS"
  using contig_length [of HEAP_START bs "heap_brk s"]
  by (auto simp: heap_list_def kconst HEAP_STEPS_def)

definition heap_used :: "'a kheap_scheme \<Rightarrow> (nat \<times> nat) set \<Rightarrow> bool" where
  "heap_used s U \<longleftrightarrow> (\<exists>bs. heap_list s bs \<and> U = in_use bs)"

lemma kmalloc_used:
  assumes "heap_used s U" "0 < sz" "sz < 2 ^ 62"
  shows "case kmalloc 2 HEAP_STEPS sz s of Inl e \<Rightarrow> exhausted e
    | Inr (p, s') \<Rightarrow> (\<exists>z \<ge> sz. p \<notin> fst ` U \<and> heap_used s' (insert (p, z) U)) \<and> p mod 16 = 0 \<and> 0 < p \<and> heap_data s' = heap_data s"
proof -
  obtain bs where bs: "heap_list s bs" "U = in_use bs" using assms(1) by (auto simp: heap_used_def)
  have 2: "(2 :: nat) = Suc (Suc 0)" by simp
  from kmalloc_cases [OF bs(1) assms(2,3) heap_steps_enough [OF bs(1)], of 0] show ?thesis
    unfolding 2 bs(2) heap_used_def allocated_def by (auto split: sum.splits simp del: kmalloc.simps)
qed

lemma kfree_used:
  assumes "heap_used s U" "(p, z) \<in> U"
  shows "\<exists>h. kfree p s = Inr (s\<lparr>heap := h\<rparr>) \<and> heap_used (s\<lparr>heap := h\<rparr>) (U - {(p, z)})"
  using assms kfree_ok unfolding heap_used_def by metis

lemma heap_used_disjoint:
  assumes "heap_used s U" "(p, z) \<in> U" "(q, y) \<in> U"
  shows "p = q \<and> z = y \<or> p + z \<le> q \<or> q + y \<le> p"
proof -
  obtain bs where bs: "heap_list s bs" "U = in_use bs" using assms(1) by (auto simp: heap_used_def)
  have c: "contig HEAP_START bs (heap_brk s)" using bs(1) by (simp add: heap_list_def)
  obtain a b where "p = a + HDR" "q = b + HDR" "(a, z, False) \<in> set bs" "(b, y, False) \<in> set bs"
    using assms(2,3) bs(2) by (auto simp: in_use_def)
  with contig_disjoint [OF c this(3,4)] show ?thesis by auto
qed

interpretation kh: block_allocator "kmalloc 2 HEAP_STEPS" kfree heap_used "\<lambda>sz. 0 < sz \<and> sz < 2 ^ 62"
proof unfold_locales
  fix s :: "'a kheap_scheme" and U sz p z q y
  show "heap_used s U \<Longrightarrow> 0 < sz \<and> sz < 2 ^ 62 \<Longrightarrow>
      (case kmalloc 2 HEAP_STEPS sz s of Inl e \<Rightarrow> exhausted e
       | Inr (p, s') \<Rightarrow> (\<exists>z \<ge> sz. p \<notin> fst ` U \<and> heap_used s' (insert (p, z) U)))"
    using kmalloc_used [of s U sz] by (auto split: sum.splits)
  show "heap_used s U \<Longrightarrow> (p, z) \<in> U \<Longrightarrow> \<exists>s'. kfree p s = Inr s' \<and> heap_used s' (U - {(p, z)})"
    using kfree_used [of s U p z] by blast
  show "heap_used s U \<Longrightarrow> (p, z) \<in> U \<Longrightarrow> (q, y) \<in> U \<Longrightarrow> p = q \<and> z = y \<or> p + z \<le> q \<or> q + y \<le> p"
    by (rule heap_used_disjoint)
qed

section \<open>When the heap can grow\<close>

lemma heap_expand_loop_ok:
  "vmm_inv s \<Longrightarrow> \<forall>v. no_huge s v \<Longrightarrow> 4 * n \<le> card (free_pfns s) \<Longrightarrow>
   heap_brk s + 4096 * n \<le> HEAP_START + HEAP_MAX \<Longrightarrow>
   \<exists>s'. heap_expand_loop n s = Inr s' \<and> vmm_inv s' \<and> (\<forall>v. no_huge s' v) \<and> card (free_pfns s) \<le> card (free_pfns s') + 4 * n
     \<and> heap_brk s' = heap_brk s + 4096 * n"
proof (induction n arbitrary: s)
  case (Suc n)
  from Suc.prems(1) obtain lev where pi: "pmm_inv s" and ok: "pt_ok lev s" and root: "lev (kernel_pml4 s) = Some 4"
    by (auto simp: vmm_inv_def)
  have ne: "free_addrs s \<noteq> {}" using Suc.prems(3) by (auto simp: free_addrs_def)
  obtain p s1 where a: "alloc_page s = Inr (p, s1)" and pi1: "pmm_inv s1"
    using pm.alloc_avail [OF pi ne] by blast
  note fr = alloc_page_frame [OF a]
  have "p \<noteq> b" if "PHYS_TO_VIRT b = t" "b \<notin> free_addrs s" for b t using fr(1) that by auto
  then have same: "kmem s1 (u + 8 * j) = kmem s (u + 8 * j)" if "lev u = Some m" "j < 512" for u m j
    using alloc_page_slots [OF a pt_ok_base [OF ok that(1)] that(2)] ok that(1) unfolding pt_ok_def by fastforce
  have ok1: "pt_ok lev s1" using ok same fr(2) unfolding pt_ok_def by fastforce
  then have v1: "vmm_inv s1" using pi1 root fr(3) by (auto simp: vmm_inv_def)
  have "huge_on_path (kmem s1) (kernel_pml4 s) (indices v) = huge_on_path (kmem s) (kernel_pml4 s) (indices v)" for v
    using leaf_slot_cong [OF ok, of "kmem s1"] same root by (metis indices_less length_indices)
  then have h1: "\<forall>v. no_huge s1 v" using Suc.prems(2) fr(3) by (simp add: no_huge_def)
  have c1: "card (free_pfns s) = card (free_pfns s1) + 1"
    using fr(1,2) card_free_addrs [of s] card_free_addrs [of s1] by (metis Suc_eq_plus1 card_Suc_Diff1 finite)
  then have 3: "3 \<le> card (free_pfns s1)" using Suc.prems(3) by simp
  let ?v = "of_nat (heap_brk s1) :: u64"
  obtain s2 where m: "map_page p ?v heap_flags s1 = Inr (0, s2)" "vmm_inv s2" "\<forall>v. no_huge s2 v = no_huge s1 v"
    "vmm.more s2 = vmm.more s1" "card (free_pfns s1) \<le> card (free_pfns s2) + 3"
    using map_page_ok [OF v1 3, of ?v p heap_flags] h1 by blast
  have b: "heap_brk s2 = heap_brk s" using kheap_more [OF m(4)] kheap_more [OF fr(6)] by simp
  let ?s3 = "s2\<lparr>heap_brk := heap_brk s2 + 4096\<rparr>"
  have f3: "free_pfns ?s3 = free_pfns s2" by (simp add: free_pfns_def bitmap_test_def)
  have v3: "vmm_inv ?s3" "\<forall>v. no_huge ?s3 v"
  proof -
    show "\<forall>v. no_huge ?s3 v" using m(3) h1 by (simp add: no_huge_def)
    have "pmm_inv ?s3 = pmm_inv s2" by (simp add: pmm_inv_def f3)
    moreover have "pt_ok l ?s3 = pt_ok l s2" for l by (simp add: pt_ok_def free_addrs_def f3)
    ultimately show "vmm_inv ?s3" using m(2) by (simp add: vmm_inv_def)
  qed
  have "4 * n \<le> card (free_pfns ?s3)" "heap_brk ?s3 + 4096 * n \<le> HEAP_START + HEAP_MAX"
    using Suc.prems(3,4) c1 m(5) b f3 by simp_all
  from Suc.IH [OF v3 this] obtain s' where
    "heap_expand_loop n ?s3 = Inr s'" "vmm_inv s'" "\<forall>v. no_huge s' v" "card (free_pfns ?s3) \<le> card (free_pfns s') + 4 * n"
    "heap_brk s' = heap_brk ?s3 + 4096 * n" by blast
  moreover have "\<not> HEAP_MAX < heap_brk s + 4096 - HEAP_START" using Suc.prems(4) by simp
  ultimately show ?case using a m(1,5) b c1 f3 by auto
qed simp

text \<open>Pages and frames that a call of \<open>kmalloc\<close> may need: one for the first list, the rest for the block.\<close>

definition pages_needed :: "nat \<Rightarrow> nat" where
  "pages_needed sz = align_up (align_up sz 16 + HDR) 4096 div 4096"

lemma heap_first_ok:
  assumes "vmm_inv s" "\<forall>v. no_huge s v" "4 * (k + 1) \<le> card (free_pfns s)"
    "heap_brk s + 4096 * (k + 1) \<le> HEAP_START + HEAP_MAX"
  shows "\<exists>s'. heap_first s = Inr s' \<and> vmm_inv s' \<and> (\<forall>v. no_huge s' v) \<and> 4 * k \<le> card (free_pfns s')
    \<and> heap_brk s' + 4096 * k \<le> HEAP_START + HEAP_MAX"
proof (cases "heap_head s = 0")
  case True
  have al: "align_up 4096 4096 div 4096 = Suc 0" by (simp add: align_up_def)
  obtain s1 where s1: "heap_expand_loop (Suc 0) s = Inr s1" "vmm_inv s1" "\<forall>v. no_huge s1 v"
    "card (free_pfns s) \<le> card (free_pfns s1) + 4 * Suc 0" "heap_brk s1 = heap_brk s + 4096 * Suc 0"
    using heap_expand_loop_ok [of s "Suc 0"] assms by auto
  let ?s' = "put_block HEAP_START \<lparr>b_magic = HEAP_MAGIC, b_size = 4096 - HDR, b_free = True, b_next = 0, b_prev = 0\<rparr>
    (s1\<lparr>heap_head := HEAP_START\<rparr>)"
  have f: "free_pfns ?s' = free_pfns s1" by (simp add: free_pfns_def bitmap_test_def put_block_def)
  have "pmm_inv ?s' = pmm_inv s1" "pt_ok l ?s' = pt_ok l s1" "kernel_pml4 ?s' = kernel_pml4 s1" "kmem ?s' = kmem s1" for l
    by (simp_all add: pmm_inv_def f pt_ok_def free_addrs_def) (simp_all add: put_block_def)
  then have "vmm_inv ?s'" "\<forall>v. no_huge ?s' v" using s1 by (simp_all add: vmm_inv_def no_huge_def)
  moreover have "heap_brk ?s' = heap_brk s1" by (simp add: put_block_def)
  moreover have "heap_first s = Inr ?s'" using True s1(1) by (simp only: heap_first_def heap_expand_def al) simp
  ultimately show ?thesis using s1 assms f by auto
next
  case False
  with assms show ?thesis by (simp add: heap_first_def)
qed

lemma kmalloc_succeeds:
  assumes hl: "heap_list s bs" and sz: "0 < sz0" "sz0 < 2 ^ 62" and n: "length bs + 2 < n"
    and vm: "vmm_inv s" "\<forall>v. no_huge s v" and fr: "4 * (pages_needed sz0 + 1) \<le> card (free_pfns s)"
    and brk: "heap_brk s + 4096 * (pages_needed sz0 + 1) \<le> HEAP_START + HEAP_MAX"
  shows "\<exists>p s'. kmalloc (Suc (Suc t)) n sz0 s = Inr (p, s')"
proof -
  let ?sz = "align_up sz0 16"
  let ?bs = "if bs = [] then [(HEAP_START, 4096 - HDR, True)] else bs"
  obtain s1 where s1: "heap_first s = Inr s1" "vmm_inv s1" "\<forall>v. no_huge s1 v"
    "4 * pages_needed sz0 \<le> card (free_pfns s1)" "heap_brk s1 + 4096 * pages_needed sz0 \<le> HEAP_START + HEAP_MAX"
    using heap_first_ok [OF vm fr brk] by blast
  have hl1: "heap_list s1 ?bs" using heap_first_cases [OF hl] s1(1) by simp
  have run: "kmalloc (Suc (Suc t)) n sz0 s = kmalloc (Suc (Suc t)) n sz0 s1"
    using kmalloc_first [OF hl sz(1)] s1(1) by simp
  have al: "?sz < 2 ^ 63" "?sz mod 16 = 0" "0 < ?sz" using align_up_bounds [of 16 sz0] sz by auto
  have len: "length ?bs + 1 < n" using n by simp
  show ?thesis
  proof (cases "List.find (fits ?sz) ?bs = None")
    case False
    have "sz0 < 2 ^ 63" "length ?bs < n" using sz(2) len by simp_all
    from kmalloc_hit [OF hl1 sz(1) this(1) False this(2), of "Suc t"] show ?thesis unfolding run by blast
  next
    case True
    have hf: "heap_first s1 = Inr s1" using heap_first_cases [OF hl1] by (auto split: sum.splits if_splits)
    have fb: "find_block n ?sz (heap_head s1) s1 = Inr 0"
      using find_block_list [of s1 0 ?bs n ?sz] hl1 heap_list_nonzero [OF hl1] len True by (simp add: heap_list_def)
    have k: "kmalloc (Suc (Suc t)) n sz0 s1 = kbind (append_block n ?sz s1) (kmalloc (Suc t) n ?sz)"
      unfolding kmalloc.simps(2) [of "Suc t"] Let_def hf kbind_simps fb using sz(1) by simp
    have ne: "?bs \<noteq> []" and ln: "length ?bs \<le> n" using len by auto
    have "heap_expand_loop (pages_needed sz0) s1 \<noteq> Inl e" for e
      using heap_expand_loop_ok [OF s1(2-5)] by auto
    then obtain s2 where s2: "append_block n ?sz s1 = Inr s2"
      using append_block_cases [OF hl1 ne ln al(1,2)]
      by (cases "append_block n ?sz s1") (auto simp: pages_needed_def)
    then obtain z where z: "?sz \<le> z" "heap_list s2 (?bs @ [(heap_brk s1, z, True)])"
      using append_block_cases [OF hl1 ne ln al(1,2)] by auto
    have "align_up ?sz 16 = ?sz" using al(1,2) by (simp add: align_up_def)
    then have "List.find (fits (align_up ?sz 16)) (?bs @ [(heap_brk s1, z, True)]) \<noteq> None"
      using z(1) by (auto simp: find_None_iff fits_def)
    moreover have "length (?bs @ [(heap_brk s1, z, True)]) < n" using len by simp
    ultimately show ?thesis
      unfolding run k s2 kbind_simps using kmalloc_hit [OF z(2) al(3,1), of n t] by blast
  qed
qed

section \<open>Reallocation\<close>

lemma get_block_used:
  assumes "heap_used s U" "(p, z) \<in> U"
  shows "\<exists>b. get_block s (p - HDR) = Inr b \<and> b_size b = z \<and> b_magic b = HEAP_MAGIC"
proof -
  obtain bs where bs: "heap_list s bs" "U = in_use bs" using assms(1) by (auto simp: heap_used_def)
  obtain a where a: "p = a + HDR" "(a, z, False) \<in> set bs" using assms(2) bs(2) by (auto simp: in_use_def)
  have "0 < a" using heap_list_nonzero [OF bs(1)] a(2) by (metis fst_conv gr0I image_eqI list.set_map)
  with lseg_lookup [of "heap s" 0 bs 0, OF _ a(2)] bs(1) a(1) show ?thesis
    by (auto simp: heap_list_def get_block_def)
qed

lemma heap_used_data: "heap_used (s\<lparr>heap_data := d\<rparr>) U = heap_used s U"
  by (simp add: heap_used_def heap_list_def)

lemma krealloc_grow:
  assumes u: "heap_used s U" and p: "(p, z) \<in> U" "0 < p" and sz: "z < new_size" "new_size < 2 ^ 62"
  shows "case krealloc 2 HEAP_STEPS p new_size s of Inl e \<Rightarrow> exhausted e
    | Inr (q, s') \<Rightarrow> (\<exists>y \<ge> new_size. heap_used s' (insert (q, y) (U - {(p, z)}))) \<and> q \<notin> fst ` U
        \<and> (\<forall>i < z. heap_data s' (q + i) = heap_data s (p + i))
        \<and> (\<forall>a. a < q \<or> q + z \<le> a \<longrightarrow> heap_data s' a = heap_data s a)"
proof -
  obtain b where b: "get_block s (p - HDR) = Inr b" "b_size b = z" using get_block_used [OF u p(1)] by blast
  have n0: "p \<noteq> 0" "new_size \<noteq> 0" "\<not> new_size \<le> z" using p(2) sz(1) by auto
  have r: "krealloc 2 HEAP_STEPS p new_size s = kbind (kmalloc 2 HEAP_STEPS new_size s) (\<lambda>(new_ptr, s1).
      if new_ptr = 0 then Inr (0, s1)
      else kbind (get_block s1 (p - HDR)) (\<lambda>b1.
        let copy = (if b_size b1 < new_size then b_size b1 else new_size);
            s2 = s1\<lparr>heap_data := (\<lambda>a. if new_ptr \<le> a \<and> a < new_ptr + copy
                                      then heap_data s1 (p + (a - new_ptr)) else heap_data s1 a)\<rparr>
        in kbind (kfree p s2) (\<lambda>s3. Inr (new_ptr, s3))))"
    unfolding krealloc_def b(1) kbind_simps b(2) using n0 by simp
  show ?thesis
  proof (cases "kmalloc 2 HEAP_STEPS new_size s")
    case (Inl e)
    with kmalloc_used [OF u, of new_size] sz r show ?thesis by simp
  next
    case (Inr qs)
    obtain q s1 where q: "kmalloc 2 HEAP_STEPS new_size s = Inr (q, s1)" using Inr by (cases qs) auto
    then obtain y where y: "new_size \<le> y" "q \<notin> fst ` U" "heap_used s1 (insert (q, y) U)" "0 < q" "heap_data s1 = heap_data s"
      using kmalloc_used [OF u, of new_size] sz by auto
    obtain b1 where b1: "get_block s1 (p - HDR) = Inr b1" "b_size b1 = z"
      using get_block_used [OF y(3), of p z] p(1) by auto
    let ?d = "\<lambda>a. if q \<le> a \<and> a < q + z then heap_data s (p + (a - q)) else heap_data s a"
    let ?s2 = "s1\<lparr>heap_data := ?d\<rparr>"
    have "heap_used ?s2 (insert (q, y) U)" using y(3) by (simp add: heap_used_data)
    from kfree_used [OF this, of p z] p(1) obtain h where
      h: "kfree p ?s2 = Inr (?s2\<lparr>heap := h\<rparr>)" "heap_used (?s2\<lparr>heap := h\<rparr>) (insert (q, y) U - {(p, z)})" by auto
    have run: "krealloc 2 HEAP_STEPS p new_size s = Inr (q, ?s2\<lparr>heap := h\<rparr>)"
      unfolding r q using y(4,5) b1 sz(1) h(1) by (simp add: Let_def cong: if_cong)
    have "insert (q, y) U - {(p, z)} = insert (q, y) (U - {(p, z)})"
      using y(2) p(1) by (force simp: image_iff)
    with h(2) y(1,2) show ?thesis unfolding run by auto
  qed
qed

section \<open>Concrete heaps\<close>

definition kheap_small :: kheap where
  "kheap_small = \<lparr>bitmap = bitmap vmm_small, total_pages = total_pages vmm_small, free_pages = free_pages vmm_small,
     kmem = kmem vmm_small, pmm_log = [], kernel_pml4 = kernel_pml4 vmm_small, cr3 = cr3 vmm_small, tlb_log = [],
     heap_head = 0, heap_brk = HEAP_START, heap = Map.empty, heap_data = (\<lambda>_. 0), heap_log = []\<rparr>"

lemma kheap_small_vmm: "free_pfns kheap_small = free_pfns vmm_small" "vmm_inv kheap_small" "no_huge kheap_small v"
proof -
  show f: "free_pfns kheap_small = free_pfns vmm_small"
    by (simp add: free_pfns_def bitmap_test_def kheap_small_def)
  have "pmm_inv kheap_small = pmm_inv vmm_small" by (simp add: pmm_inv_def f) (simp add: kheap_small_def)
  moreover have "pt_ok l kheap_small = pt_ok l vmm_small" for l
    by (simp add: pt_ok_def free_addrs_def f) (simp add: kheap_small_def)
  moreover have "kernel_pml4 kheap_small = kernel_pml4 vmm_small" by (simp add: kheap_small_def)
  ultimately show "vmm_inv kheap_small" using vmm_small_inv(1) by (simp add: vmm_inv_def)
  show "no_huge kheap_small v" using vmm_small_no_huge [of v] by (simp add: no_huge_def kheap_small_def)
qed

lemma heap_list_small: "heap_list kheap_small []"
  by (simp add: heap_list_def kheap_small_def)

text \<open>Three blocks in use, of 32, 32 and 3936 bytes, in one page.\<close>

definition kheap_three :: kheap where
  "kheap_three = kheap_small\<lparr>heap_head := HEAP_START, heap_brk := HEAP_START + 4096,
     heap := [HEAP_START \<mapsto> \<lparr>b_magic = HEAP_MAGIC, b_size = 32, b_free = False, b_next = HEAP_START + 64, b_prev = 0\<rparr>,
              HEAP_START + 64 \<mapsto> \<lparr>b_magic = HEAP_MAGIC, b_size = 32, b_free = False, b_next = HEAP_START + 128, b_prev = HEAP_START\<rparr>,
              HEAP_START + 128 \<mapsto> \<lparr>b_magic = HEAP_MAGIC, b_size = 3936, b_free = False, b_next = 0, b_prev = HEAP_START + 64\<rparr>]\<rparr>"

definition three_blocks :: "blk list" where
  "three_blocks = [(HEAP_START, 32, False), (HEAP_START + 64, 32, False), (HEAP_START + 128, 3936, False)]"

lemma heap_list_three: "heap_list kheap_three three_blocks"
  by (simp add: heap_list_def kheap_three_def three_blocks_def kconst)

lemma heap_used_three: "heap_used kheap_three (in_use three_blocks)"
  using heap_list_three by (auto simp: heap_used_def)

section \<open>Properties\<close>

text \<open>
  C5: \<open>kmalloc\<close> of a non-zero size either stops because physical memory or the heap window
  is exhausted, or returns a 16-byte aligned block of at least that size that does not
  overlap any block in use; the blocks in use become the old ones and the new one. Two
  nested calls and \<open>HEAP_STEPS\<close> steps per walk are always enough.
\<close>

theorem kmalloc_fresh_block:
  assumes "heap_used s U" and "0 < sz" and "sz < 2 ^ 62"
  shows "kmalloc 2 HEAP_STEPS sz s \<in> {Inl OutOfPhysicalMemory, Inl HeapExhausted} \<or>
    (\<exists>p s' z. kmalloc 2 HEAP_STEPS sz s = Inr (p, s') \<and> p \<noteq> 0 \<and> p mod 16 = 0 \<and> sz \<le> z
       \<and> (\<forall>(q, y) \<in> U. p + sz \<le> q \<or> q + y \<le> p) \<and> heap_used s' (insert (p, z) U))"
proof (cases "kmalloc 2 HEAP_STEPS sz s")
  case (Inl e)
  then show ?thesis using kmalloc_used [OF assms] by auto
next
  case (Inr ps)
  obtain p s' where k: "kmalloc 2 HEAP_STEPS sz s = Inr (p, s')" using Inr by (cases ps) auto
  have "\<forall>(q, y) \<in> U. p + sz \<le> q \<or> q + y \<le> p"
    using kh.alloc_apart [OF assms(1) _ k] assms(2,3) by auto
  with k kmalloc_used [OF assms] show ?thesis by auto
qed

theorem kmalloc_fresh_block_witness:
  "heap_used kheap_three (in_use three_blocks) \<and>
   (kmalloc 2 HEAP_STEPS 100 kheap_three \<in> {Inl OutOfPhysicalMemory, Inl HeapExhausted} \<or>
    (\<exists>p s'. kmalloc 2 HEAP_STEPS 100 kheap_three = Inr (p, s') \<and> p mod 16 = 0
      \<and> (\<forall>(q, y) \<in> in_use three_blocks. p + 100 \<le> q \<or> q + y \<le> p)))"
proof -
  have "0 < (100 :: nat)" "(100 :: nat) < 2 ^ 62" by simp_all
  from kmalloc_fresh_block [OF heap_used_three this] heap_used_three show ?thesis by auto
qed





text \<open>
  \<open>krealloc\<close> to a larger size that does not stop returns a new block that carries the
  bytes of the old one, changes no byte outside the copied range, and the old block is no
  longer in use.
\<close>

theorem krealloc_keeps_contents:
  assumes "heap_used s U" and "(p, z) \<in> U" and "0 < p" and "z < new_size" and "new_size < 2 ^ 62"
  shows "krealloc 2 HEAP_STEPS p new_size s \<in> {Inl OutOfPhysicalMemory, Inl HeapExhausted} \<or>
    (\<exists>q s' y. krealloc 2 HEAP_STEPS p new_size s = Inr (q, s') \<and> new_size \<le> y \<and> q \<notin> fst ` U
       \<and> heap_used s' (insert (q, y) (U - {(p, z)}))
       \<and> (\<forall>i < z. heap_data s' (q + i) = heap_data s (p + i))
       \<and> (\<forall>a. a < q \<or> q + z \<le> a \<longrightarrow> heap_data s' a = heap_data s a))"
  using krealloc_grow [OF assms] by (cases "krealloc 2 HEAP_STEPS p new_size s") auto

theorem krealloc_keeps_contents_witness:
  "(HEAP_START + 32, 32) \<in> in_use three_blocks \<and>
   (krealloc 2 HEAP_STEPS (HEAP_START + 32) 64 kheap_three \<in> {Inl OutOfPhysicalMemory, Inl HeapExhausted} \<or>
    (\<exists>q s'. krealloc 2 HEAP_STEPS (HEAP_START + 32) 64 kheap_three = Inr (q, s') \<and>
       (\<forall>i < 32. heap_data s' (q + i) = heap_data kheap_three (HEAP_START + 32 + i))))"
proof -
  have u: "(HEAP_START + 32, 32) \<in> in_use three_blocks" by (simp add: three_blocks_def kconst)
  have "0 < HEAP_START + 32" "32 < (64 :: nat)" "(64 :: nat) < 2 ^ 62" by simp_all
  from krealloc_keeps_contents [OF heap_used_three u this] u show ?thesis by auto
qed

text \<open>
  A second \<open>kfree\<close> of a block that was merged into its predecessor is not detected
  (its old header still carries the magic number) and makes the predecessor grow over a
  block in use: the next \<open>kmalloc\<close> returns memory that overlaps it.
\<close>

theorem double_kfree_overlaps:
  "\<exists>s1 s2 s3 s4 b. kfree (HEAP_START + 32) kheap_three = Inr s1 \<and> kfree (HEAP_START + 96) s1 = Inr s2
     \<and> kfree (HEAP_START + 96) s2 = Inr s3 \<and> heap_log s3 = []
     \<and> kmalloc (Suc 0) (Suc 0) 160 s3 = Inr (HEAP_START + 32, s4)
     \<and> heap s4 (HEAP_START + 128) = Some b \<and> \<not> b_free b
     \<and> HEAP_START + 32 \<le> HEAP_START + 128 \<and> HEAP_START + 128 < HEAP_START + 32 + 160"
proof -
  define H where "H = HEAP_START"
  have pos: "0 < H" by (simp add: H_def kconst)
  let ?blk = "\<lambda>sz f n p. \<lparr>b_magic = HEAP_MAGIC, b_size = sz, b_free = f, b_next = n, b_prev = p\<rparr>"
  let ?s = "\<lambda>a b c. kheap_three\<lparr>heap := [H \<mapsto> a, H + 64 \<mapsto> b, H + 128 \<mapsto> c]\<rparr>"
  have k: "kheap_three = ?s (?blk 32 False (H + 64) 0) (?blk 32 False (H + 128) H) (?blk 3936 False 0 (H + 64))"
    by (simp add: kheap_three_def H_def)
  have d: "64 + H = H + 64" by simp
  note ev = kfree_def get_block_def upd_block_def put_block_def HDR_def Let_def
  have 1: "kfree (H + 32) (?s (?blk 32 False (H + 64) 0) (?blk 32 False (H + 128) H) (?blk 3936 False 0 (H + 64)))
      = Inr (?s (?blk 32 True (H + 64) 0) (?blk 32 False (H + 128) H) (?blk 3936 False 0 (H + 64)))"
    using pos by (simp add: ev d fun_upd_twist del: kbind_eq_Inr)
  have 2: "kfree (H + 96) (?s (?blk 32 True (H + 64) 0) (?blk 32 False (H + 128) H) (?blk 3936 False 0 (H + 64)))
      = Inr (?s (?blk 96 True (H + 128) 0) (?blk 32 True (H + 128) H) (?blk 3936 False 0 H))"
    using pos by (simp add: ev d fun_upd_twist del: kbind_eq_Inr)
  have 3: "kfree (H + 96) (?s (?blk 96 True (H + 128) 0) (?blk 32 True (H + 128) H) (?blk 3936 False 0 H))
      = Inr (?s (?blk 160 True (H + 128) 0) (?blk 32 True (H + 128) H) (?blk 3936 False 0 H))"
    using pos by (simp add: ev d fun_upd_twist del: kbind_eq_Inr)
  have 4: "kmalloc (Suc 0) (Suc 0) 160 (?s (?blk 160 True (H + 128) 0) (?blk 32 True (H + 128) H) (?blk 3936 False 0 H))
      = Inr (H + 32, ?s (?blk 160 False (H + 128) 0) (?blk 32 True (H + 128) H) (?blk 3936 False 0 H))"
    using pos by (simp add: ev heap_first_def align_up_def take_block_def kheap_three_def H_def [symmetric]
        fun_upd_twist del: kbind_eq_Inr)
  have l: "heap_log (?s a b c) = []" for a b c by (simp add: kheap_three_def kheap_small_def)
  show ?thesis
    unfolding H_def [symmetric] using 1 [folded k] 2 3 4 l pos
    by (intro exI [of _ "?s (?blk 32 True (H + 64) 0) (?blk 32 False (H + 128) H) (?blk 3936 False 0 (H + 64))"]
        exI [of _ "?s (?blk 96 True (H + 128) 0) (?blk 32 True (H + 128) H) (?blk 3936 False 0 H)"]
        exI [of _ "?s (?blk 160 True (H + 128) 0) (?blk 32 True (H + 128) H) (?blk 3936 False 0 H)"]
        exI [of _ "?s (?blk 160 False (H + 128) 0) (?blk 32 True (H + 128) H) (?blk 3936 False 0 H)"]
        exI [of _ "?blk 3936 False 0 H"]) (simp del: kmalloc.simps)
qed

end
