(* ===== verification/Sched.thy ===== *)
theory Sched
  imports Kheap
begin

text \<open>
  The scheduler, \<^verbatim>\<open>src/kernel/sched/scheduler.c\<close>, and the timer that drives it,
  \<^verbatim>\<open>src/kernel/drivers/timer/pit.c\<close>. Tasks are slots of a pool; a pointer to a task is
  the index of its slot, the null pointer is \<open>None\<close> and a dereference of it stops the run
  with \<open>NullDeref\<close>. The ready queue is a circular doubly linked list through the slots;
  \<open>ring\<close> relates it to a list. A context switch is recorded, not followed: the state
  returned is the one at the switch.
\<close>

section \<open>State\<close>

datatype task_state = TASK_READY | TASK_RUNNING | TASK_SLEEPING | TASK_BLOCKED | TASK_ZOMBIE | TASK_DEAD

record task_struct =
  pid :: u32
  ppid :: u32
  name :: string
  state :: task_state
  priority :: u8
  exit_code :: u32
  kernel_rsp :: u64
  task_cr3 :: u64
  kernel_stack :: u64
  wake_tick :: u64
  time_slice :: u32
  fd_table :: "nat \<Rightarrow> nat option"    \<comment> \<open>open files, by their heap pointer\<close>
  t_next :: "nat option"
  t_prev :: "nat option"

text \<open>A slot with every byte zero: the state 0 is \<open>TASK_READY\<close>.\<close>

definition task_zero :: task_struct where
  "task_zero = \<lparr>pid = 0, ppid = 0, name = [], state = TASK_READY, priority = 0, exit_code = 0, kernel_rsp = 0,
     task_cr3 = 0, kernel_stack = 0, wake_tick = 0, time_slice = 0, fd_table = (\<lambda>_. None), t_next = None, t_prev = None\<rparr>"

record sched = kheap +
  task_pool :: "nat \<Rightarrow> task_struct"
  next_pid :: u32
  current_task :: "nat option"
  ready_head :: "nat option"
  timer_ticks :: u64
  ticks_per_ms :: u32
  stack_mem :: "u64 \<Rightarrow> u64"                    \<comment> \<open>words of the kernel stacks\<close>
  switch_log :: "(nat option \<times> u64) list"      \<comment> \<open>context switches: old task, new stack pointer\<close>
  if_flag :: bool                               \<comment> \<open>interrupts enabled\<close>
  ports :: "(nat \<times> u32) list"                  \<comment> \<open>port writes, latest first\<close>

definition MAX_TASKS :: nat where [kconst]: "MAX_TASKS = 256"
definition TASK_NAME_LEN :: nat where [kconst]: "TASK_NAME_LEN = 64"
definition KERNEL_STACK_SZ :: nat where [kconst]: "KERNEL_STACK_SZ = 8192"

section \<open>Access through pointers\<close>

definition tget :: "nat option \<Rightarrow> 'a sched_scheme \<Rightarrow> kstop + task_struct" where
  "tget p s = (case p of None \<Rightarrow> Inl NullDeref | Some i \<Rightarrow> Inr (task_pool s i))"

definition tupd :: "nat option \<Rightarrow> (task_struct \<Rightarrow> task_struct) \<Rightarrow> 'a sched_scheme \<Rightarrow> kstop + 'a sched_scheme" where
  "tupd p f s = (case p of None \<Rightarrow> Inl NullDeref
     | Some i \<Rightarrow> Inr (s\<lparr>task_pool := (task_pool s)(i := f (task_pool s i))\<rparr>))"

section \<open>Slots and the ready queue\<close>

fun alloc_task_from :: "nat \<Rightarrow> nat \<Rightarrow> 'a sched_scheme \<Rightarrow> nat option" where
  "alloc_task_from 0 i s = None"
| "alloc_task_from (Suc n) i s =
     (if state (task_pool s i) = TASK_DEAD \<or> pid (task_pool s i) = 0 then Some i
      else alloc_task_from n (Suc i) s)"

definition alloc_task :: "'a sched_scheme \<Rightarrow> nat option \<times> 'a sched_scheme" where
  "alloc_task s = (case alloc_task_from MAX_TASKS 0 s of None \<Rightarrow> (None, s)
     | Some i \<Rightarrow> (Some i, s\<lparr>task_pool := (task_pool s)(i := task_zero)\<rparr>))"

definition enqueue_task :: "nat option \<Rightarrow> 'a sched_scheme \<Rightarrow> kstop + 'a sched_scheme" where
  "enqueue_task t s =
     (if ready_head s = None then
        tupd t (\<lambda>x. x\<lparr>t_next := t, t_prev := t\<rparr>) (s\<lparr>ready_head := t\<rparr>)
      else
        kbind (tget (ready_head s) s) (\<lambda>h.
          let tail = t_prev h in
          kbind (tupd tail (\<lambda>x. x\<lparr>t_next := t\<rparr>) s) (\<lambda>s1.
          kbind (tupd t (\<lambda>x. x\<lparr>t_prev := tail, t_next := ready_head s1\<rparr>) s1) (\<lambda>s2.
          tupd (ready_head s2) (\<lambda>x. x\<lparr>t_prev := t\<rparr>) s2))))"

definition dequeue_task :: "nat option \<Rightarrow> 'a sched_scheme \<Rightarrow> kstop + 'a sched_scheme" where
  "dequeue_task t s =
     kbind (tget t s) (\<lambda>x.
     kbind
       (if t_next x = t then Inr (s\<lparr>ready_head := None\<rparr>)
        else
          let s1 = (if ready_head s = t then s\<lparr>ready_head := t_next x\<rparr> else s) in
          kbind (tupd (t_prev x) (\<lambda>y. y\<lparr>t_next := t_next x\<rparr>) s1) (\<lambda>s2.
          kbind (tget t s2) (\<lambda>x2.
          tupd (t_next x2) (\<lambda>y. y\<lparr>t_prev := t_prev x2\<rparr>) s2)))
       (\<lambda>s3. tupd t (\<lambda>y. y\<lparr>t_next := None, t_prev := None\<rparr>) s3))"

section \<open>Creating tasks\<close>

text \<open>Push a word on a stack that grows downwards.\<close>

definition push :: "u64 \<Rightarrow> u64 \<times> (u64 \<Rightarrow> u64) \<Rightarrow> u64 \<times> (u64 \<Rightarrow> u64)" where
  "push v = (\<lambda>(sp, m). (sp - 8, m(sp - 8 := v)))"

text \<open>The frame that \<open>task_create\<close> and \<open>sched_init\<close> build, from the top of the stack down.\<close>

definition task_frame :: "u64 \<Rightarrow> u64 \<Rightarrow> u64 \<Rightarrow> u64 \<Rightarrow> (u64 \<Rightarrow> u64) \<Rightarrow> u64 \<times> (u64 \<Rightarrow> u64)" where
  "task_frame trampoline entry arg stack_top m =
     fold push [arg, entry, 0, 0, 0, 0, 0, 0, trampoline] (stack_top, m)"

definition tput :: "nat \<Rightarrow> (task_struct \<Rightarrow> task_struct) \<Rightarrow> 'a sched_scheme \<Rightarrow> 'a sched_scheme" where
  "tput i f s = s\<lparr>task_pool := (task_pool s)(i := f (task_pool s i))\<rparr>"

text \<open>
  \<open>trampoline\<close> is the address of \<open>task_trampoline\<close>; \<open>nm\<close> is the C string \<open>name\<close> without its
  terminating zero.
\<close>

definition task_create ::
    "u64 \<Rightarrow> string \<Rightarrow> u64 \<Rightarrow> u64 \<Rightarrow> u8 \<Rightarrow> 'a sched_scheme \<Rightarrow> kstop + (nat option \<times> 'a sched_scheme)" where
  "task_create trampoline nm entry arg prio s =
     (case alloc_task s of (None, s0) \<Rightarrow> Inr (None, s0)
      | (Some t, s0) \<Rightarrow>
        let s1 = s0\<lparr>next_pid := next_pid s0 + 1\<rparr>;
            s2 = tput t (\<lambda>x. x\<lparr>pid := next_pid s1\<rparr>) s1;
            parent = (case current_task s2 of None \<Rightarrow> 0 | Some c \<Rightarrow> pid (task_pool s2 c));
            s3 = tput t (\<lambda>x. x\<lparr>ppid := parent, priority := prio, state := TASK_READY,
                   time_slice := 10 + ucast prio, name := take (TASK_NAME_LEN - 1) nm\<rparr>) s2
        in kbind (kmalloc 2 HEAP_STEPS KERNEL_STACK_SZ s3) (\<lambda>(stk, s4).
           if stk = 0 then Inr (None, tput t (\<lambda>x. x\<lparr>kernel_stack := 0, pid := 0\<rparr>) s4)
           else let base = of_nat stk;
                    (sp, m) = task_frame trampoline entry arg (base + of_nat KERNEL_STACK_SZ) (stack_mem s4);
                    s5 = tput t (\<lambda>x. x\<lparr>kernel_stack := base, kernel_rsp := sp, task_cr3 := get_pml4 s4\<rparr>)
                           (s4\<lparr>stack_mem := m\<rparr>)
                in kbind (enqueue_task (Some t) s5) (\<lambda>s6. Inr (Some t, s6))))"

text \<open>What \<open>switch_context\<close> (in startup.asm) restores from a saved stack pointer.\<close>

record cpu_context =
  r15 :: u64
  r14 :: u64
  r13 :: u64
  r12 :: u64
  rbx :: u64
  rbp :: u64
  rip :: u64
  rsp :: u64

definition restore_context :: "(u64 \<Rightarrow> u64) \<Rightarrow> u64 \<Rightarrow> cpu_context" where
  "restore_context m sp = \<lparr>r15 = m sp, r14 = m (sp + 8), r13 = m (sp + 16), r12 = m (sp + 24),
     rbx = m (sp + 32), rbp = m (sp + 40), rip = m (sp + 48), rsp = sp + 56\<rparr>"

section \<open>Scheduling\<close>

fun find_next :: "nat \<Rightarrow> nat option \<Rightarrow> nat option \<Rightarrow> nat option \<Rightarrow> 'a sched_scheme \<Rightarrow> kstop + nat option" where
  "find_next 0 nx start pv s = Inl NoProgress"
| "find_next (Suc n) nx start pv s =
     kbind (tget nx s) (\<lambda>x.
       if state x = TASK_READY \<and> nx \<noteq> pv then Inr nx
       else if t_next x \<noteq> start then find_next n (t_next x) start pv s
       else Inr (t_next x))"

definition schedule :: "'a sched_scheme \<Rightarrow> kstop + 'a sched_scheme" where
  "schedule s =
     (if ready_head s = None then Inr s
      else
        kbind (find_next MAX_TASKS (ready_head s) (ready_head s) (current_task s) s) (\<lambda>nx.
        kbind (tget nx s) (\<lambda>x.
        if nx = current_task s \<or> state x \<noteq> TASK_READY then Inr s
        else
          let pv = current_task s;
              s1 = s\<lparr>ready_head := t_next x, current_task := nx\<rparr> in
          kbind (tupd nx (\<lambda>y. y\<lparr>state := TASK_RUNNING\<rparr>) s1) (\<lambda>s2.
          let s3 = (case pv of None \<Rightarrow> s2
                    | Some i \<Rightarrow> if state (task_pool s2 i) = TASK_RUNNING
                               then tput i (\<lambda>y. y\<lparr>state := TASK_READY\<rparr>) s2 else s2)
          in Inr (s3\<lparr>switch_log := (pv, kernel_rsp x) # switch_log s3\<rparr>)))))"

definition wake :: "u64 \<Rightarrow> task_struct \<Rightarrow> task_struct" where
  "wake now t = (if state t = TASK_SLEEPING \<and> wake_tick t \<le> now then t\<lparr>state := TASK_READY\<rparr> else t)"

definition sched_tick :: "'a sched_scheme \<Rightarrow> kstop + 'a sched_scheme" where
  "sched_tick s =
     (let s1 = s\<lparr>task_pool := (\<lambda>i. if i < MAX_TASKS then wake (timer_ticks s) (task_pool s i) else task_pool s i)\<rparr>
      in case current_task s1 of None \<Rightarrow> Inr s1
         | Some c \<Rightarrow>
           let s2 = (if time_slice (task_pool s1 c) > 0
                     then tput c (\<lambda>x. x\<lparr>time_slice := time_slice x - 1\<rparr>) s1 else s1)
           in if time_slice (task_pool s2 c) = 0
              then schedule (tput c (\<lambda>x. x\<lparr>time_slice := 10 + ucast (priority x)\<rparr>) s2)
              else Inr s2)"

section \<open>Ending, sleeping, yielding\<close>

text \<open>After \<open>schedule\<close> the processor either runs another task or stays in the final \<open>hlt\<close> loop.\<close>

definition task_exit :: "u32 \<Rightarrow> 'a sched_scheme \<Rightarrow> kstop + 'a sched_scheme" where
  "task_exit code s =
     kbind (tupd (current_task s) (\<lambda>x. x\<lparr>exit_code := code, state := TASK_ZOMBIE\<rparr>) (s\<lparr>if_flag := False\<rparr>)) (\<lambda>s1.
     kbind (dequeue_task (current_task s1) s1) schedule)"

definition task_sleep :: "u32 \<Rightarrow> 'a sched_scheme \<Rightarrow> kstop + 'a sched_scheme" where
  "task_sleep ms s =
     (case current_task s of None \<Rightarrow> Inr s
      | Some c \<Rightarrow> schedule (tput c (\<lambda>x. x\<lparr>wake_tick := timer_ticks s + ucast ms * ucast (ticks_per_ms s),
                                         state := TASK_SLEEPING\<rparr>) s))"

definition task_yield :: "'a sched_scheme \<Rightarrow> kstop + 'a sched_scheme" where
  "task_yield s = kbind (tupd (current_task s) (\<lambda>x. x\<lparr>time_slice := 0\<rparr>) s) schedule"

definition sched_init :: "u64 \<Rightarrow> u64 \<Rightarrow> 'a sched_scheme \<Rightarrow> kstop + 'a sched_scheme" where
  "sched_init trampoline idle_fn s =
     (let s0 = s\<lparr>task_pool := (\<lambda>i. if i < MAX_TASKS then (task_pool s i)\<lparr>state := TASK_DEAD, pid := 0\<rparr> else task_pool s i)\<rparr>
      in case alloc_task s0 of (None, s1) \<Rightarrow> Inl NullDeref
         | (Some t, s1) \<Rightarrow>
           let s2 = tput t (\<lambda>x. x\<lparr>pid := 0, ppid := 0, priority := 0, state := TASK_READY, name := ''idle''\<rparr>) s1
           in kbind (kmalloc 2 HEAP_STEPS KERNEL_STACK_SZ s2) (\<lambda>(stk, s3).
              let base = of_nat stk;
                  (sp, m) = task_frame trampoline idle_fn 0 (base + of_nat KERNEL_STACK_SZ) (stack_mem s3);
                  s4 = tput t (\<lambda>x. x\<lparr>kernel_stack := base, kernel_rsp := sp\<rparr>) (s3\<lparr>stack_mem := m\<rparr>)
              in kbind (enqueue_task (Some t) s4) (\<lambda>s5. Inr (s5\<lparr>current_task := Some t\<rparr>))))"

definition task_get_current :: "'a sched_scheme \<Rightarrow> nat option" where
  "task_get_current s = current_task s"

fun find_pid_from :: "nat \<Rightarrow> nat \<Rightarrow> u32 \<Rightarrow> 'a sched_scheme \<Rightarrow> nat option" where
  "find_pid_from 0 i q s = None"
| "find_pid_from (Suc n) i q s =
     (if pid (task_pool s i) = q \<and> state (task_pool s i) \<noteq> TASK_DEAD then Some i
      else find_pid_from n (Suc i) q s)"

definition task_find_by_pid :: "u32 \<Rightarrow> 'a sched_scheme \<Rightarrow> nat option" where
  "task_find_by_pid q s = find_pid_from MAX_TASKS 0 q s"

definition task_kill :: "u32 \<Rightarrow> 'a sched_scheme \<Rightarrow> kstop + 'a sched_scheme" where
  "task_kill q s =
     (case task_find_by_pid q s of None \<Rightarrow> Inr s
      | Some t \<Rightarrow> if Some t = current_task s then Inr s
                 else dequeue_task (Some t) (tput t (\<lambda>x. x\<lparr>state := TASK_ZOMBIE\<rparr>) s))"

section \<open>The timer\<close>

definition PIT_BASE_HZ :: u64 where "PIT_BASE_HZ = 1193182"

definition timer_irq_handler :: "'a sched_scheme \<Rightarrow> kstop + 'a sched_scheme" where
  "timer_irq_handler s = sched_tick (s\<lparr>timer_ticks := timer_ticks s + 1\<rparr>)"

definition pit_divisor :: "u32 \<Rightarrow> u32" where
  "pit_divisor frequency =
     (let d = (ucast (PIT_BASE_HZ div ucast frequency) :: u32);
          d1 = (if d > 0xFFFF then 0xFFFF else d)
      in if d1 < 2 then 2 else d1)"

definition pit_init :: "u32 \<Rightarrow> 'a sched_scheme \<Rightarrow> 'a sched_scheme" where
  "pit_init frequency0 s =
     (let frequency = (if frequency0 = 0 then 100 else frequency0);
          divisor = pit_divisor frequency;
          t = frequency div 1000
      in s\<lparr>ticks_per_ms := (if t = 0 then 1 else t),
           ports := (0x40, drop_bit 8 divisor AND 0xFF) # (0x40, divisor AND 0xFF) # (0x43, 0x36) # ports s\<rparr>)"

definition get_ticks :: "'a sched_scheme \<Rightarrow> u64" where
  "get_ticks s = timer_ticks s"

text \<open>\<open>sleep_ms\<close> waits until the tick counter reaches this value.\<close>

definition sleep_ms_end :: "u32 \<Rightarrow> 'a sched_scheme \<Rightarrow> u64" where
  "sleep_ms_end ms s = timer_ticks s + ucast ms * ucast (ticks_per_ms s)"

section \<open>The ready queue as a list\<close>

fun tseg :: "(nat \<Rightarrow> task_struct) \<Rightarrow> nat \<Rightarrow> nat list \<Rightarrow> nat \<Rightarrow> bool" where
  "tseg tp p [] q \<longleftrightarrow> True"
| "tseg tp p (x # xs) q \<longleftrightarrow> t_prev (tp x) = Some p \<and> t_next (tp x) = Some (hd (xs @ [q])) \<and> tseg tp x xs q"

definition cyc :: "(nat \<Rightarrow> task_struct) \<Rightarrow> nat list \<Rightarrow> bool" where
  "cyc tp xs \<longleftrightarrow> xs \<noteq> [] \<longrightarrow> tseg tp (last xs) xs (hd xs)"

definition ring :: "'a sched_scheme \<Rightarrow> nat list \<Rightarrow> bool" where
  "ring s xs \<longleftrightarrow> ready_head s = (if xs = [] then None else Some (hd xs)) \<and> distinct xs \<and> cyc (task_pool s) xs"

text \<open>A task without its links.\<close>

definition unlinked :: "task_struct \<Rightarrow> task_struct" where
  "unlinked x = x\<lparr>t_next := None, t_prev := None\<rparr>"

lemma unlinked_simps [simp]:
  "unlinked (x\<lparr>t_next := n\<rparr>) = unlinked x" "unlinked (x\<lparr>t_prev := n\<rparr>) = unlinked x"
  by (simp_all add: unlinked_def)

lemma unlinked_eq:
  "unlinked x = unlinked y \<Longrightarrow> state x = state y \<and> pid x = pid y \<and> kernel_rsp x = kernel_rsp y \<and> priority x = priority y"
  by (cases x; cases y) (simp add: unlinked_def)

lemma tseg_append:
  "tseg tp p (xs @ ys) q \<longleftrightarrow> tseg tp p xs (hd (ys @ [q])) \<and> tseg tp (last (p # xs)) ys q"
  by (induction xs arbitrary: p) auto

lemma tseg_other: "i \<notin> set xs \<Longrightarrow> tseg (tp(i := v)) p xs q = tseg tp p xs q"
  by (induction xs arbitrary: p) auto

lemma tseg_reprev:
  "tseg tp p xs q \<Longrightarrow> distinct xs \<Longrightarrow> xs \<noteq> [] \<Longrightarrow> tseg (tp(hd xs := (tp (hd xs))\<lparr>t_prev := Some p'\<rparr>)) p' xs q"
  by (cases xs) (auto simp: tseg_other)

lemma tseg_renext:
  "tseg tp p xs q \<Longrightarrow> distinct xs \<Longrightarrow> xs \<noteq> [] \<Longrightarrow> tseg (tp(last xs := (tp (last xs))\<lparr>t_next := Some q'\<rparr>)) p xs q'"
proof (induction xs arbitrary: p)
  case (Cons x xs)
  show ?case
  proof (cases "xs = []")
    case False
    then have "last xs \<noteq> x" using Cons.prems(2) last_in_set by (metis distinct.simps(2))
    with Cons False show ?thesis by auto
  qed (use Cons.prems in auto)
qed simp

lemma cyc_rotate: "cyc tp (xs @ ys) = cyc tp (ys @ xs)"
  unfolding cyc_def by (cases "xs = []"; cases "ys = []") (auto simp: tseg_append hd_append)

lemma cyc_Cons: "xs \<noteq> [] \<Longrightarrow> cyc tp (t # xs) \<longleftrightarrow>
    t_prev (tp t) = Some (last xs) \<and> t_next (tp t) = Some (hd xs) \<and> tseg tp t xs t"
  by (auto simp: cyc_def)

lemma tupd_Some [simp]: "tupd (Some i) f s = Inr (tput i f s)"
  by (simp add: tupd_def tput_def)

lemma tget_Some [simp]: "tget (Some i) s = Inr (task_pool s i)"
  by (simp add: tget_def)

lemma tget_None [simp]: "tget None s = Inl NullDeref" "tupd None f s = Inl NullDeref"
  by (simp_all add: tget_def tupd_def)

lemma tput_fields [simp]:
  "task_pool (tput i f s) = (task_pool s)(i := f (task_pool s i))" "ready_head (tput i f s) = ready_head s"
  "current_task (tput i f s) = current_task s" "switch_log (tput i f s) = switch_log s"
  "timer_ticks (tput i f s) = timer_ticks s" "ticks_per_ms (tput i f s) = ticks_per_ms s"
  by (simp_all add: tput_def)

lemma enqueue_ok:
  assumes r: "ring s xs" and t: "t \<notin> set xs"
  shows "\<exists>s'. enqueue_task (Some t) s = Inr s' \<and> ring s' (xs @ [t])
    \<and> (\<forall>i. unlinked (task_pool s' i) = unlinked (task_pool s i)) \<and> current_task s' = current_task s"
proof (cases "xs = []")
  case True
  with r show ?thesis
    by (auto simp: enqueue_task_def ring_def cyc_def)
next
  case False
  let ?h = "hd xs" and ?l = "last xs" and ?tp = "task_pool s"
  have h: "ready_head s = Some ?h" and d: "distinct xs" and c: "tseg ?tp ?l xs ?h"
    using r False by (auto simp: ring_def cyc_def)
  have tn: "t \<noteq> ?h" "t \<noteq> ?l" using t False by auto
  have hp: "t_prev (?tp ?h) = Some ?l" using c False by (cases xs) auto
  let ?s1 = "tput ?l (\<lambda>x. x\<lparr>t_next := Some t\<rparr>) s"
  let ?s2 = "tput t (\<lambda>x. x\<lparr>t_prev := Some ?l, t_next := Some ?h\<rparr>) ?s1"
  let ?s3 = "tput ?h (\<lambda>x. x\<lparr>t_prev := Some t\<rparr>) ?s2"
  have run: "enqueue_task (Some t) s = Inr ?s3"
    using h hp by (simp add: enqueue_task_def Let_def)
  have "tseg (task_pool ?s1) ?l xs t" using tseg_renext [OF c d False] by simp
  then have "tseg (task_pool ?s2) ?l xs t" using t by (simp add: tseg_other)
  from tseg_reprev [OF this d False] have "tseg (task_pool ?s3) t xs t" by simp
  moreover have "t_prev (task_pool ?s3 t) = Some ?l" "t_next (task_pool ?s3 t) = Some ?h" using tn by simp_all
  ultimately have "cyc (task_pool ?s3) (t # xs)" using cyc_Cons [OF False] by blast
  then have "ring ?s3 (xs @ [t])"
    using h d t False cyc_rotate [of _ "[t]" xs] by (simp add: ring_def)
  moreover have "unlinked (task_pool ?s3 i) = unlinked (?tp i)" for i by simp
  ultimately show ?thesis using run by (auto simp del: tput_fields) (simp)
qed

lemma dequeue_ok:
  assumes r: "ring s (as @ t # bs)"
  shows "\<exists>s'. dequeue_task (Some t) s = Inr s' \<and> ring s' (as @ bs)
    \<and> t_next (task_pool s' t) = None \<and> t_prev (task_pool s' t) = None
    \<and> (\<forall>i. unlinked (task_pool s' i) = unlinked (task_pool s i)) \<and> current_task s' = current_task s"
proof -
  let ?tp = "task_pool s" and ?cs = "bs @ as"
  have d: "distinct (as @ t # bs)" and c: "cyc ?tp (t # ?cs)"
    using r cyc_rotate [of ?tp as "t # bs"] by (auto simp: ring_def)
  show ?thesis
  proof (cases "?cs = []")
    case True
    then have "t_next (?tp t) = Some t" using c by (simp add: cyc_def)
    with True show ?thesis
      by (auto simp: dequeue_task_def ring_def cyc_def)
  next
    case False
    let ?h = "hd ?cs" and ?l = "last ?cs"
    have tn: "t_prev (?tp t) = Some ?l" "t_next (?tp t) = Some ?h" and seg: "tseg ?tp t ?cs t"
      using c cyc_Cons [OF False] by auto
    have nin: "t \<notin> set ?cs" and dc: "distinct ?cs" using d by auto
    have ne: "?h \<noteq> t" "?l \<noteq> t" using nin False by (metis hd_in_set, metis last_in_set)
    let ?s1 = "if ready_head s = Some t then s\<lparr>ready_head := Some ?h\<rparr> else s"
    let ?s2 = "tput ?l (\<lambda>y. y\<lparr>t_next := Some ?h\<rparr>) ?s1"
    let ?s3 = "tput ?h (\<lambda>y. y\<lparr>t_prev := Some ?l\<rparr>) ?s2"
    let ?s4 = "tput t (\<lambda>y. y\<lparr>t_next := None, t_prev := None\<rparr>) ?s3"
    have tp1: "task_pool ?s1 = ?tp" by simp
    have run: "dequeue_task (Some t) s = Inr ?s4"
      using tn ne by (simp add: dequeue_task_def Let_def)
    have "tseg (task_pool ?s2) t ?cs ?h" using tseg_renext [OF seg dc False, of ?h] by simp
    from tseg_reprev [OF this dc False, of ?l] have "tseg (task_pool ?s3) ?l ?cs ?h" by simp
    then have "tseg (task_pool ?s4) ?l ?cs ?h" using nin by (simp add: tseg_other)
    then have "cyc (task_pool ?s4) (as @ bs)" using False cyc_rotate [of _ as bs] by (simp add: cyc_def)
    moreover have "ready_head ?s4 = Some (hd (as @ bs))"
    proof (cases "as = []")
      case True
      then have "ready_head s = Some t" using r by (simp add: ring_def)
      with True show ?thesis by simp
    next
      case False
      then have "ready_head s = Some (hd as)" "hd as \<noteq> t" using r d by (auto simp: ring_def)
      with False show ?thesis by simp
    qed
    ultimately have "ring ?s4 (as @ bs)" using d False by (auto simp: ring_def)
    moreover have "unlinked (task_pool ?s4 i) = unlinked (?tp i)" for i by simp
    moreover have "current_task ?s4 = current_task s" "t_next (task_pool ?s4 t) = None" "t_prev (task_pool ?s4 t) = None"
      by simp_all
    ultimately show ?thesis using run by blast
  qed
qed

section \<open>Choosing the next task\<close>

definition runnable :: "'a sched_scheme \<Rightarrow> nat \<Rightarrow> bool" where
  "runnable s i \<longleftrightarrow> state (task_pool s i) = TASK_READY \<and> Some i \<noteq> current_task s"

lemma find_next_ring:
  "tseg (task_pool s) p ys h \<Longrightarrow> ys \<noteq> [] \<Longrightarrow> h \<notin> set (tl ys) \<Longrightarrow> length ys \<le> n \<Longrightarrow>
   find_next n (Some (hd ys)) (Some h) (current_task s) s =
     Inr (Some (case List.find (runnable s) ys of None \<Rightarrow> h | Some y \<Rightarrow> y))"
proof (induction ys arbitrary: p n)
  case (Cons y ys)
  obtain m where n: "n = Suc m" using Cons.prems(4) by (cases n) auto
  show ?case
  proof (cases "ys = []")
    case True
    with Cons.prems n show ?thesis by (auto simp: runnable_def)
  next
    case False
    then have "hd ys \<noteq> h" using Cons.prems(3) by (cases ys) auto
    moreover have "h \<notin> set (tl ys)" using Cons.prems(3) by (cases ys) auto
    ultimately show ?thesis
      using Cons.IH [of y m] Cons.prems n False by (auto simp: runnable_def)
  qed
qed simp

lemma schedule_none:
  assumes r: "ring s xs" and len: "length xs \<le> MAX_TASKS" and none: "List.find (runnable s) xs = None"
  shows "schedule s = Inr s"
proof (cases "xs = []")
  case True
  with r show ?thesis by (simp add: schedule_def ring_def)
next
  case False
  have seg: "tseg (task_pool s) (last xs) xs (hd xs)" and h: "ready_head s = Some (hd xs)" and d: "distinct xs"
    using r False by (auto simp: ring_def cyc_def)
  have "hd xs \<notin> set (tl xs)" using d by (cases xs) auto
  from find_next_ring [OF seg False this len] none
  have "find_next MAX_TASKS (Some (hd xs)) (Some (hd xs)) (current_task s) s = Inr (Some (hd xs))" by simp
  moreover have "\<not> runnable s (hd xs)" using none False by (auto simp: find_None_iff)
  ultimately show ?thesis using h by (auto simp: schedule_def runnable_def)
qed

text \<open>The effect of a switch on the states of the tasks.\<close>

definition switch_states :: "nat option \<Rightarrow> nat \<Rightarrow> (nat \<Rightarrow> task_struct) \<Rightarrow> nat \<Rightarrow> task_state" where
  "switch_states pv y tp i =
     (if i = y then TASK_RUNNING
      else if Some i = pv \<and> state (tp i) = TASK_RUNNING then TASK_READY
      else state (tp i))"

lemma tseg_cong:
  "(\<And>i. t_next (tp' i) = t_next (tp i) \<and> t_prev (tp' i) = t_prev (tp i)) \<Longrightarrow> tseg tp' p xs q = tseg tp p xs q"
  by (induction xs arbitrary: p) auto

lemma schedule_some:
  assumes r: "ring s (as @ y # bs)" and len: "length (as @ y # bs) \<le> MAX_TASKS"
    and none: "\<forall>i \<in> set as. \<not> runnable s i" and y: "runnable s y"
  shows "\<exists>s'. schedule s = Inr s' \<and> current_task s' = Some y \<and> ring s' (bs @ as @ [y])
    \<and> (\<forall>i. state (task_pool s' i) = switch_states (current_task s) y (task_pool s) i)
    \<and> switch_log s' = (current_task s, kernel_rsp (task_pool s y)) # switch_log s"
proof -
  let ?xs = "as @ y # bs" and ?pv = "current_task s"
  have seg: "tseg (task_pool s) (last ?xs) ?xs (hd ?xs)" and h: "ready_head s = Some (hd ?xs)" and d: "distinct ?xs"
    using r by (auto simp: ring_def cyc_def)
  have "List.find (runnable s) ?xs = Some y"
    using none y by (induction as) auto
  moreover have "hd ?xs \<notin> set (tl ?xs)" using d by (cases as) auto
  ultimately have f: "find_next MAX_TASKS (Some (hd ?xs)) (Some (hd ?xs)) ?pv s = Inr (Some y)"
    using find_next_ring [OF seg _ _ len] by simp
  have nx: "t_next (task_pool s y) = Some (hd (bs @ as @ [y]))"
    using seg by (cases as; cases bs) (auto simp: tseg_append)
  let ?s1 = "s\<lparr>ready_head := Some (hd (bs @ as @ [y])), current_task := Some y\<rparr>"
  let ?s2 = "tput y (\<lambda>x. x\<lparr>state := TASK_RUNNING\<rparr>) ?s1"
  let ?s3 = "case ?pv of None \<Rightarrow> ?s2 | Some i \<Rightarrow> if state (task_pool ?s2 i) = TASK_RUNNING
      then tput i (\<lambda>y. y\<lparr>state := TASK_READY\<rparr>) ?s2 else ?s2"
  let ?s' = "?s3\<lparr>switch_log := (?pv, kernel_rsp (task_pool s y)) # switch_log ?s3\<rparr>"
  have yr: "state (task_pool s y) = TASK_READY" "Some y \<noteq> ?pv" using y by (auto simp: runnable_def)
  have run: "schedule s = Inr ?s'"
    using h f nx yr by (simp add: schedule_def Let_def)
  have links: "t_next (task_pool ?s' i) = t_next (task_pool s i) \<and> t_prev (task_pool ?s' i) = t_prev (task_pool s i)" for i
    by (auto split: option.splits)
  have st: "state (task_pool ?s' i) = switch_states ?pv y (task_pool s) i" for i
    using yr by (auto simp: switch_states_def split: option.splits)
  have "cyc (task_pool s) ((bs @ as) @ [y])"
    using r cyc_rotate [of "task_pool s" as "y # bs"] cyc_rotate [of "task_pool s" "[y]" "bs @ as"] by (simp add: ring_def)
  then have "cyc (task_pool ?s') (bs @ as @ [y])" unfolding cyc_def using tseg_cong [of "task_pool ?s'", OF links] by simp
  moreover have "ready_head ?s' = Some (hd (bs @ as @ [y]))" "current_task ?s' = Some y" "switch_log ?s3 = switch_log s"
    by (auto split: option.splits)
  ultimately show ?thesis using run st d by (auto simp: ring_def)
qed

section \<open>The heap leaves the scheduler alone\<close>

lemma kheap_more_vmm:
  fixes s s' :: "'a kheap_scheme"
  shows "vmm.more s' = vmm.more s \<Longrightarrow> kheap.more s' = kheap.more s"
  by (cases s; cases s') simp

lemma upd_block_more: "upd_block a f s = Inr s' \<Longrightarrow> kheap.more s' = kheap.more s"
  by (auto simp: upd_block_def put_block_def)

lemma heap_expand_loop_more: "heap_expand_loop n s = Inr s' \<Longrightarrow> kheap.more s' = kheap.more s"
proof (induction n arbitrary: s)
  case (Suc n)
  then show ?case
    by (fastforce simp: Let_def split: if_splits dest: alloc_page_frame(6) map_page_more(1) kheap_more_vmm)
qed simp

lemma heap_first_more: "heap_first s = Inr s' \<Longrightarrow> kheap.more s' = kheap.more s"
  by (auto simp: heap_first_def heap_expand_def put_block_def dest: heap_expand_loop_more split: if_splits)

lemma take_block_more: "take_block sz a s = Inr (p, s') \<Longrightarrow> kheap.more s' = kheap.more s"
  by (auto simp: take_block_def Let_def put_block_def split: if_splits dest!: upd_block_more)

lemma append_block_more: "append_block n sz s = Inr s' \<Longrightarrow> kheap.more s' = kheap.more s"
  by (auto simp: append_block_def heap_expand_def Let_def put_block_def dest!: upd_block_more heap_expand_loop_more)

lemma kmalloc_more: "kmalloc t n sz s = Inr (p, s') \<Longrightarrow> kheap.more s' = kheap.more s"
proof (induction t n sz s rule: kmalloc.induct)
  case (2 t n sz s)
  then show ?case
    by (fastforce simp: Let_def split: if_splits dest!: heap_first_more take_block_more append_block_more)
qed simp

lemma sched_more:
  fixes s s' :: "'a sched_scheme"
  assumes "kheap.more s' = kheap.more s"
  shows "task_pool s' = task_pool s" "ready_head s' = ready_head s" "current_task s' = current_task s"
    "next_pid s' = next_pid s" "stack_mem s' = stack_mem s" "switch_log s' = switch_log s"
  using assms by (cases s; cases s'; simp)+

section \<open>The contract of a run queue\<close>

text \<open>Entering several tasks one after the other.\<close>

fun enq_all :: "(nat \<Rightarrow> 's \<Rightarrow> kstop + 's) \<Rightarrow> nat list \<Rightarrow> 's \<Rightarrow> kstop + 's" where
  "enq_all enq [] s = Inr s"
| "enq_all enq (t # ts) s = kbind (enq t s) (enq_all enq ts)"

locale run_queue =
  fixes enq :: "nat \<Rightarrow> 's \<Rightarrow> kstop + 's"
    and deq :: "nat \<Rightarrow> 's \<Rightarrow> kstop + 's"
    and rep :: "'s \<Rightarrow> nat list \<Rightarrow> bool"
  assumes enq_rep: "rep s xs \<Longrightarrow> t \<notin> set xs \<Longrightarrow> \<exists>s'. enq t s = Inr s' \<and> rep s' (xs @ [t])"
    and deq_rep: "rep s (as @ t # bs) \<Longrightarrow> \<exists>s'. deq t s = Inr s' \<and> rep s' (as @ bs)"
begin

lemma enq_all_rep:
  "rep s xs \<Longrightarrow> distinct (xs @ ts) \<Longrightarrow> \<exists>s'. enq_all enq ts s = Inr s' \<and> rep s' (xs @ ts)"
proof (induction ts arbitrary: s xs)
  case (Cons t ts)
  then obtain s1 where s1: "enq t s = Inr s1" "rep s1 (xs @ [t])" using enq_rep [of s xs t] by auto
  with Cons.IH [of s1 "xs @ [t]"] Cons.prems show ?case by auto
qed simp

lemma enq_deq:
  assumes "rep s xs" "t \<notin> set xs"
  shows "\<exists>s1 s2. enq t s = Inr s1 \<and> deq t s1 = Inr s2 \<and> rep s2 xs"
proof -
  obtain s1 where s1: "enq t s = Inr s1" "rep s1 (xs @ [t])" using enq_rep [OF assms] by blast
  with deq_rep [of s1 xs t "[]"] show ?thesis by auto
qed

end

interpretation rq: run_queue "\<lambda>t. enqueue_task (Some t)" "\<lambda>t. dequeue_task (Some t)" ring
proof unfold_locales
  show "\<exists>s'. enqueue_task (Some t) s = Inr s' \<and> ring s' (xs @ [t])"
    if "ring s xs" "t \<notin> set xs" for s :: "'a sched_scheme" and xs t
    using enqueue_ok [OF that] by blast
  show "\<exists>s'. dequeue_task (Some t) s = Inr s' \<and> ring s' (as @ bs)"
    if "ring s (as @ t # bs)" for s :: "'a sched_scheme" and as t bs
    using dequeue_ok [OF that] by blast
qed

section \<open>Concrete states\<close>

definition sched_of :: "kheap \<Rightarrow> (nat \<Rightarrow> task_struct) \<Rightarrow> nat option \<Rightarrow> nat option \<Rightarrow> sched" where
  "sched_of h tp cur rh = \<lparr>bitmap = bitmap h, total_pages = total_pages h, free_pages = free_pages h,
     kmem = kmem h, pmm_log = pmm_log h, kernel_pml4 = kernel_pml4 h, cr3 = cr3 h, tlb_log = tlb_log h,
     heap_head = heap_head h, heap_brk = heap_brk h, heap = heap h, heap_data = heap_data h, heap_log = heap_log h,
     task_pool = tp, next_pid = 0, current_task = cur, ready_head = rh, timer_ticks = 0, ticks_per_ms = 1,
     stack_mem = (\<lambda>_. 0), switch_log = [], if_flag = True, ports = []\<rparr>"

text \<open>A heap with one large free block.\<close>

definition kheap_big :: kheap where
  "kheap_big = kheap_small\<lparr>heap_head := HEAP_START, heap_brk := HEAP_START + 65536,
     heap := [HEAP_START \<mapsto> \<lparr>b_magic = HEAP_MAGIC, b_size = 65504, b_free = True, b_next = 0, b_prev = 0\<rparr>]\<rparr>"

definition sched_bss :: sched where
  "sched_bss = sched_of kheap_big (\<lambda>_. task_zero) None None"

lemma heap_list_bss: "heap_list sched_bss [(HEAP_START, 65504, True)]"
  by (simp add: heap_list_def sched_bss_def sched_of_def kheap_big_def kconst)

text \<open>Two tasks in the ring, the first one running.\<close>

definition sched_two :: sched where
  "sched_two = sched_of kheap_big
     ((\<lambda>_. task_zero\<lparr>state := TASK_DEAD\<rparr>)
        (0 := task_zero\<lparr>pid := 1, state := TASK_RUNNING, t_next := Some 1, t_prev := Some 1\<rparr>,
         1 := task_zero\<lparr>pid := 2, t_next := Some 0, t_prev := Some 0\<rparr>)) (Some 0) (Some 0)"

lemma ring_two: "ring sched_two [0, 1]"
  by (simp add: ring_def cyc_def sched_two_def sched_of_def)

section \<open>Properties\<close>

text \<open>
  C8: The circular ready queue implements a list: \<open>enqueue_task\<close> appends a task that is not
  in the queue, \<open>dequeue_task\<close> removes a task from wherever it stands and clears its links,
  neither faults, and no other field of any task changes.
\<close>

theorem ready_queue_is_list:
  "(ring s xs \<and> t \<notin> set xs \<longrightarrow>
      (\<exists>s'. enqueue_task (Some t) s = Inr s' \<and> ring s' (xs @ [t])
         \<and> (\<forall>i. unlinked (task_pool s' i) = unlinked (task_pool s i))))
   \<and> (ring s (as @ t # bs) \<longrightarrow>
      (\<exists>s'. dequeue_task (Some t) s = Inr s' \<and> ring s' (as @ bs) \<and> t_next (task_pool s' t) = None
         \<and> t_prev (task_pool s' t) = None \<and> (\<forall>i. unlinked (task_pool s' i) = unlinked (task_pool s i))))
   \<and> (ring s xs \<and> distinct (xs @ ts) \<longrightarrow> 
      (\<exists>s'. enq_all (\<lambda>t. enqueue_task (Some t)) ts s = Inr s' \<and> ring s' (xs @ ts)))"
  using enqueue_ok [of s xs t] dequeue_ok [of s as t bs] rq.enq_all_rep [of s xs ts] by blast

theorem ready_queue_is_list_witness:
  "ring sched_two [0, 1] \<and> (\<exists>s'. enqueue_task (Some 5) sched_two = Inr s' \<and> ring s' [0, 1, 5])
   \<and> (\<exists>s'. dequeue_task (Some 0) sched_two = Inr s' \<and> ring s' [1])"
  using ready_queue_is_list [of sched_two "[0, 1]" 5 "[]" "[]" "[]"]
    ready_queue_is_list [of sched_two "[]" 0 "[]" "[1]" "[]"] ring_two
  by auto



lemma alloc_task_slot0:
  assumes "pid (task_pool s 0) = 0"
  shows "alloc_task s = (Some 0, s\<lparr>task_pool := (task_pool s)(0 := task_zero)\<rparr>)"
proof -
  have m: "MAX_TASKS = Suc 255" by (simp add: kconst)
  show ?thesis unfolding alloc_task_def m alloc_task_from.simps using assms by simp
qed

text \<open>What \<open>sched_init\<close> leaves behind: the idle task, with pid 0, at the head of the queue.\<close>

lemma sched_init_idle:
  assumes "ready_head s = None" and "sched_init tr idle s = Inr s'"
  shows "ready_head s' = Some 0" "pid (task_pool s' 0) = 0"
    "heap_used s U \<Longrightarrow> \<exists>stk z. heap_used s' (insert (stk, z) U)"
proof -
  let ?s0 = "s\<lparr>task_pool := (\<lambda>i. if i < MAX_TASKS then (task_pool s i)\<lparr>state := TASK_DEAD, pid := 0\<rparr> else task_pool s i)\<rparr>"
  have al: "alloc_task ?s0 = (Some 0, ?s0\<lparr>task_pool := (task_pool ?s0)(0 := task_zero)\<rparr>)"
    by (rule alloc_task_slot0) (simp add: kconst)
  let ?s2 = "tput 0 (\<lambda>x. x\<lparr>pid := 0, ppid := 0, priority := 0, state := TASK_READY, name := ''idle''\<rparr>)
      (?s0\<lparr>task_pool := (task_pool ?s0)(0 := task_zero)\<rparr>)"
  obtain stk s3 where k: "kmalloc 2 HEAP_STEPS KERNEL_STACK_SZ ?s2 = Inr (stk, s3)"
    using assms(2) unfolding sched_init_def Let_def al by (auto simp del: kmalloc.simps tput_fields)
  note f3 = sched_more [OF kmalloc_more [OF k]]
  show "ready_head s' = Some 0" "pid (task_pool s' 0) = 0"
    using assms(2) f3 assms(1) unfolding sched_init_def Let_def al prod.case option.case k kbind_simps
    by (auto simp: enqueue_task_def split_def task_zero_def)
  have h: "heap_head s' = heap_head s3" "heap s' = heap s3" "heap_brk s' = heap_brk s3"
    using assms(2) f3 assms(1) unfolding sched_init_def Let_def al prod.case option.case k kbind_simps
    by (auto simp: enqueue_task_def split_def tput_def)
  assume "heap_used s U"
  then have "heap_used ?s2 U" by (simp add: heap_used_def heap_list_def tput_def)
  from kmalloc_used [OF this, of KERNEL_STACK_SZ] k obtain z where "heap_used s3 (insert (stk, z) U)" by (auto simp: kconst)
  with h show "\<exists>stk z. heap_used s' (insert (stk, z) U)" by (auto simp: heap_used_def heap_list_def)
qed

text \<open>\<open>task_create\<close> with the idle task in the slot that it takes for a free one.\<close>

lemma task_create_over_idle:
  assumes "ready_head s = Some 0" "pid (task_pool s 0) = 0"
  obtains t where "heap_used s U \<longrightarrow> heap_used t U"
    "task_create tr nm entry arg prio s =
      (case kmalloc 2 HEAP_STEPS KERNEL_STACK_SZ t of Inl e \<Rightarrow> Inl e
       | Inr (stk, s4) \<Rightarrow> if stk = 0 then Inr (None, tput 0 (\<lambda>x. x\<lparr>kernel_stack := 0, pid := 0\<rparr>) s4) else Inl NullDeref)"
proof -
  let ?t0 = "s\<lparr>task_pool := (task_pool s)(0 := task_zero)\<rparr>"
  have al: "alloc_task s = (Some 0, ?t0)" by (rule alloc_task_slot0 [OF assms(2)])
  define t1 where "t1 = ?t0\<lparr>next_pid := next_pid ?t0 + 1\<rparr>"
  define t2 where "t2 = tput 0 (\<lambda>x. x\<lparr>pid := next_pid t1\<rparr>) t1"
  define t3 where "t3 = tput 0 (\<lambda>x. x\<lparr>ppid := (case current_task t2 of None \<Rightarrow> 0 | Some c \<Rightarrow> pid (task_pool t2 c)),
      priority := prio, state := TASK_READY, time_slice := 10 + ucast prio, name := take (TASK_NAME_LEN - 1) nm\<rparr>) t2"
  have t3: "ready_head t3 = Some 0" "t_prev (task_pool t3 0) = None"
    using assms by (simp_all add: t3_def t2_def t1_def task_zero_def)
  have u: "heap_used s U \<longrightarrow> heap_used t3 U" by (simp add: t3_def t2_def t1_def heap_used_def heap_list_def tput_def)
  have run: "task_create tr nm entry arg prio s = kbind (kmalloc 2 HEAP_STEPS KERNEL_STACK_SZ t3) (\<lambda>(stk, s4).
      if stk = 0 then Inr (None, tput 0 (\<lambda>x. x\<lparr>kernel_stack := 0, pid := 0\<rparr>) s4)
      else let base = of_nat stk;
               (sp, m) = task_frame tr entry arg (base + of_nat KERNEL_STACK_SZ) (stack_mem s4);
               s5 = tput 0 (\<lambda>x. x\<lparr>kernel_stack := base, kernel_rsp := sp, task_cr3 := get_pml4 s4\<rparr>) (s4\<lparr>stack_mem := m\<rparr>)
           in kbind (enqueue_task (Some 0) s5) (\<lambda>s6. Inr (Some 0, s6)))"
    unfolding task_create_def al prod.case option.case Let_def t3_def t2_def t1_def ..
  have "task_create tr nm entry arg prio s =
      (case kmalloc 2 HEAP_STEPS KERNEL_STACK_SZ t3 of Inl e \<Rightarrow> Inl e
       | Inr (stk, s4) \<Rightarrow> if stk = 0 then Inr (None, tput 0 (\<lambda>x. x\<lparr>kernel_stack := 0, pid := 0\<rparr>) s4) else Inl NullDeref)"
  proof (cases "kmalloc 2 HEAP_STEPS KERNEL_STACK_SZ t3")
    case (Inr ps)
    obtain p s4 where p: "kmalloc 2 HEAP_STEPS KERNEL_STACK_SZ t3 = Inr (p, s4)" using Inr by (cases ps) auto
    with sched_more [OF kmalloc_more [OF p]] t3 show ?thesis
      unfolding run p by (auto simp: enqueue_task_def Let_def split: prod.splits)
  qed (simp add: run)
  with u that show ?thesis by blast
qed

text \<open>
  After \<open>sched_init\<close> the idle task has pid 0, so \<open>task_create\<close> takes its slot for a
  free one, zeroes it while it is the head of the ready queue, and faults on the null link
  when it enqueues: the first task can never be created.
\<close>

theorem first_task_create_faults:
  assumes "heap_used s U" and "ready_head s = None" and "sched_init tr idle s = Inr s'"
  shows "task_create tr' nm entry arg prio s' \<in> {Inl NullDeref, Inl OutOfPhysicalMemory, Inl HeapExhausted}"
proof -
  obtain stk z where u: "heap_used s' (insert (stk, z) U)" using sched_init_idle(3) [OF assms(2,3,1)] by blast
  obtain t where t: "heap_used s' (insert (stk, z) U) \<longrightarrow> heap_used t (insert (stk, z) U)"
    "task_create tr' nm entry arg prio s' = (case kmalloc 2 HEAP_STEPS KERNEL_STACK_SZ t of Inl e \<Rightarrow> Inl e
       | Inr (stk, s4) \<Rightarrow> if stk = 0 then Inr (None, tput 0 (\<lambda>x. x\<lparr>kernel_stack := 0, pid := 0\<rparr>) s4) else Inl NullDeref)"
    by (rule task_create_over_idle [OF sched_init_idle(1,2) [OF assms(2,3)],
      where U = "insert (stk, z) U" and tr = tr' and nm = nm and entry = entry and arg = arg and prio = prio])
  from kmalloc_used [OF t(1) [rule_format, OF u], of KERNEL_STACK_SZ] show ?thesis unfolding t(2) by (auto simp: kconst split: sum.splits)
qed

theorem first_task_create_faults_witness:
  "\<exists>s'. sched_init 7 9 sched_bss = Inr s' \<and>
     task_create 7 ''kindle'' 9 0 8 s' \<in> {Inl NullDeref, Inl OutOfPhysicalMemory, Inl HeapExhausted}"
proof -
  let ?s0 = "sched_bss\<lparr>task_pool := (\<lambda>i. if i < MAX_TASKS then (task_pool sched_bss i)\<lparr>state := TASK_DEAD, pid := 0\<rparr> else task_pool sched_bss i)\<rparr>"
  let ?s2 = "tput 0 (\<lambda>x. x\<lparr>pid := 0, ppid := 0, priority := 0, state := TASK_READY, name := ''idle''\<rparr>)
      (?s0\<lparr>task_pool := (task_pool ?s0)(0 := task_zero)\<rparr>)"
  have al: "alloc_task ?s0 = (Some 0, ?s0\<lparr>task_pool := (task_pool ?s0)(0 := task_zero)\<rparr>)"
    by (rule alloc_task_slot0) (simp add: kconst)
  have rh: "ready_head sched_bss = None" by (simp add: sched_bss_def sched_of_def)
  have u: "heap_used sched_bss {}" using heap_list_bss by (auto simp: heap_used_def)
  have hl: "heap_list ?s2 [(HEAP_START, 65504, True)]" using heap_list_bss by (simp add: heap_list_def tput_def)
  have fit: "List.find (fits (align_up KERNEL_STACK_SZ 16)) [(HEAP_START, 65504, True)] \<noteq> None"
    by (simp add: fits_def align_up_def kconst)
  have sz: "0 < KERNEL_STACK_SZ" "KERNEL_STACK_SZ < 2 ^ 63" "length [(HEAP_START, 65504 :: nat, True)] < HEAP_STEPS"
    by (simp_all add: kconst HEAP_STEPS_def)
  have 2: "(2 :: nat) = Suc 1" by simp
  obtain p s3 where k: "kmalloc 2 HEAP_STEPS KERNEL_STACK_SZ ?s2 = Inr (p, s3)"
    using kmalloc_hit [OF hl sz(1,2) fit sz(3), of 1] unfolding 2 by blast
  have "ready_head s3 = None" using sched_more [OF kmalloc_more [OF k]] rh by simp
  then obtain s' where s': "sched_init 7 9 sched_bss = Inr s'"
    unfolding sched_init_def Let_def al prod.case option.case k kbind_simps
    by (auto simp: enqueue_task_def split_def)
  from first_task_create_faults [OF u rh s'] s' show ?thesis by blast
qed

text \<open>
  The frame that \<open>task_create\<close> builds does not start the task: when \<open>switch_context\<close>
  restores it, the trampoline's address goes to \<open>r15\<close> and the return address is 0.
\<close>

theorem task_frame_returns_to_zero:
  assumes "task_frame tr entry arg stack_top m = (sp, m')"
  shows "r15 (restore_context m' sp) = tr \<and> rip (restore_context m' sp) = 0 \<and> sp = stack_top - 72"
proof -
  have 1: "stack_top - 72 + 48 = stack_top - 24" by simp
  show ?thesis
    using assms by (auto simp: task_frame_def push_def restore_context_def 1 diff_diff_eq)
qed

theorem task_frame_returns_to_zero_witness:
  "rip (restore_context (snd (task_frame 5 7 9 0x10000 (\<lambda>_. 1))) (fst (task_frame 5 7 9 0x10000 (\<lambda>_. 1)))) = 0"
  using task_frame_returns_to_zero [of 5 7 9 "0x10000" "\<lambda>_. 1"] by (metis prod.collapse)

lemma find_pid_cong:
  "(\<And>j. pid (task_pool s' j) = pid (task_pool s j)) \<Longrightarrow>
   (\<And>j. (state (task_pool s' j) = TASK_DEAD) = (state (task_pool s j) = TASK_DEAD)) \<Longrightarrow>
   find_pid_from n i q s' = find_pid_from n i q s"
  by (induction n arbitrary: i) auto

lemma find_pid_from_Some:
  "find_pid_from n i q s = Some t \<Longrightarrow> pid (task_pool s t) = q \<and> state (task_pool s t) \<noteq> TASK_DEAD"
  by (induction n arbitrary: i) (auto split: if_splits)

text \<open>
  \<open>task_kill\<close> of a task in the queue makes it a zombie and takes it out of the queue;
  a second \<open>task_kill\<close> with the same pid finds the zombie again and faults on its null links.
\<close>

theorem task_kill_twice_faults:
  assumes "ring s (as @ t # bs)" and "task_find_by_pid q s = Some t" and "current_task s \<noteq> Some t"
  shows "\<exists>s'. task_kill q s = Inr s' \<and> ring s' (as @ bs) \<and> state (task_pool s' t) = TASK_ZOMBIE
    \<and> task_kill q s' = Inl NullDeref"
proof -
  let ?s1 = "tput t (\<lambda>x. x\<lparr>state := TASK_ZOMBIE\<rparr>) s"
  have "ring ?s1 (as @ t # bs)"
    using assms(1) tseg_cong [of "task_pool ?s1" "task_pool s"] by (auto simp: ring_def cyc_def)
  then obtain s' where s': "dequeue_task (Some t) ?s1 = Inr s'" "ring s' (as @ bs)"
    "t_next (task_pool s' t) = None" "t_prev (task_pool s' t) = None"
    "\<forall>i. unlinked (task_pool s' i) = unlinked (task_pool ?s1 i)" "current_task s' = current_task ?s1"
    using dequeue_ok [of ?s1 as t bs] by blast
  have st: "state (task_pool s' i) = state (task_pool ?s1 i)" "pid (task_pool s' i) = pid (task_pool ?s1 i)" for i
    using unlinked_eq s'(5) by blast+
  have nd: "state (task_pool s t) \<noteq> TASK_DEAD"
    using assms(2) find_pid_from_Some unfolding task_find_by_pid_def by blast
  have "task_find_by_pid q s' = task_find_by_pid q s"
    unfolding task_find_by_pid_def by (rule find_pid_cong) (auto simp: st nd)
  then have f: "task_find_by_pid q s' = Some t" using assms(2) by simp
  have c: "current_task s' \<noteq> Some t" using s'(6) assms(3) by simp
  have k1: "task_kill q s = Inr s'" using assms(2,3) s'(1) by (simp add: task_kill_def)
  have k2: "task_kill q s' = Inl NullDeref"
    using f c s'(3,4) by (simp add: task_kill_def dequeue_task_def Let_def)
  have "state (task_pool s' t) = TASK_ZOMBIE" by (simp add: st)
  with k1 k2 s'(2) show ?thesis by blast
qed

theorem task_kill_twice_faults_witness:
  "\<exists>s'. task_kill 2 sched_two = Inr s' \<and> ring s' [0] \<and> task_kill 2 s' = Inl NullDeref"
proof -
  have m: "MAX_TASKS = Suc (Suc 254)" by (simp add: kconst)
  have "task_find_by_pid 2 sched_two = Some 1" "current_task sched_two \<noteq> Some 1"
    unfolding task_find_by_pid_def m find_pid_from.simps
    by (simp_all add: sched_two_def sched_of_def task_zero_def)
  with task_kill_twice_faults [of sched_two "[0]" 1 "[]" 2] ring_two show ?thesis by auto
qed

text \<open>
  With the boot frequency of 100 Hz (and every frequency below 1000 Hz) one millisecond
  counts as one tick, so a sleep of \<open>ms\<close> milliseconds ends \<open>ms\<close> ticks of 10 ms later; the
  divisor written to the timer is within the range of the 16-bit counter.
\<close>

theorem sleep_counts_ticks:
  assumes "0 < f" and "f < 1000"
  shows "ticks_per_ms (pit_init f s) = 1
    \<and> sleep_ms_end ms (pit_init f s) = timer_ticks s + ucast ms
    \<and> 2 \<le> pit_divisor f \<and> pit_divisor f \<le> 0xFFFF"
proof -
  have "f div 1000 = 0" using assms(2) by (simp add: word_unat_eq_iff unat_div_distrib word_less_nat_alt)
  then have "ticks_per_ms (pit_init f s) = 1" "timer_ticks (pit_init f s) = timer_ticks s"
    by (simp_all add: pit_init_def Let_def)
  moreover have "2 \<le> pit_divisor f \<and> pit_divisor f \<le> 0xFFFF"
    by (auto simp: pit_divisor_def Let_def not_less)
  ultimately show ?thesis by (simp add: sleep_ms_end_def)
qed

theorem sleep_counts_ticks_witness:
  "sleep_ms_end 1000 (pit_init 100 sched_bss) = 1000"
  using sleep_counts_ticks [of 100 sched_bss 1000] by (simp add: sched_bss_def sched_of_def)

end
