(* ===== verification/Pipe.thy ===== *)
theory Pipe
  imports Kqueue
begin

text \<open>
  Pipes, \<^verbatim>\<open>src/kernel/ipc/pipe.c\<close>: the ring buffer and the loops of \<open>pipe_read\<close> and
  \<open>pipe_write\<close>. An iteration of a loop is a function; where the code calls \<open>task_yield\<close> the
  iteration reports that it waits. \<open>pipe_read\<close> and \<open>pipe_write\<close> run until the loop ends or
  waits; \<open>pipe_step\<close> interleaves the iterations of a reader and a writer and the two close
  operations arbitrarily, as the scheduler may. Creating a pipe is part of the file system
  theory, which has the file descriptors.
\<close>

section \<open>State and operations\<close>

definition PIPE_BUF_SIZE :: nat where [kconst]: "PIPE_BUF_SIZE = 4096"

record pipe =
  buf :: "nat \<Rightarrow> u8"
  read_pos :: nat
  write_pos :: nat
  used :: nat
  read_closed :: bool
  write_closed :: bool

text \<open>How an iteration ends: the loop goes on, waits in \<open>task_yield\<close>, or is left.\<close>

datatype 'a iter = Continue 'a | Wait | Done

definition pipe_read_iter :: "nat \<Rightarrow> u8 list \<Rightarrow> pipe \<Rightarrow> (u8 list \<times> pipe) iter" where
  "pipe_read_iter len dst p =
     (if length dst < len then
        if used p = 0 then (if write_closed p then Done else Wait)
        else Continue (dst @ [buf p (read_pos p)],
               p\<lparr>read_pos := (read_pos p + 1) mod PIPE_BUF_SIZE, used := used p - 1\<rparr>)
      else Done)"

definition pipe_write_iter :: "u8 list \<Rightarrow> nat \<Rightarrow> pipe \<Rightarrow> (nat \<times> pipe) iter" where
  "pipe_write_iter src written p =
     (if written < length src then
        if used p = PIPE_BUF_SIZE then Wait
        else Continue (written + 1,
               p\<lparr>buf := (buf p)(write_pos p := src ! written),
                 write_pos := (write_pos p + 1) mod PIPE_BUF_SIZE, used := used p + 1\<rparr>)
      else Done)"

text \<open>The loops, run until they end (\<open>True\<close>) or wait (\<open>False\<close>).\<close>

function read_loop :: "nat \<Rightarrow> u8 list \<Rightarrow> pipe \<Rightarrow> bool \<times> u8 list \<times> pipe" where
  "read_loop len dst p = (case pipe_read_iter len dst p of
      Continue (dst', p') \<Rightarrow> read_loop len dst' p' | Wait \<Rightarrow> (False, dst, p) | Done \<Rightarrow> (True, dst, p))"
  by pat_completeness auto
termination
  by (relation "measure (\<lambda>(len, dst, p). len - length dst)") (auto simp: pipe_read_iter_def split: if_splits)

function write_loop :: "u8 list \<Rightarrow> nat \<Rightarrow> pipe \<Rightarrow> bool \<times> nat \<times> pipe" where
  "write_loop src w p = (case pipe_write_iter src w p of
      Continue (w', p') \<Rightarrow> write_loop src w' p' | Wait \<Rightarrow> (False, w, p) | Done \<Rightarrow> (True, w, p))"
  by pat_completeness auto
termination
  by (relation "measure (\<lambda>(src, w, p). length src - w)") (auto simp: pipe_write_iter_def split: if_splits)

declare read_loop.simps [simp del] write_loop.simps [simp del]

text \<open>A call: the null test on the pipe pointer, the test for a closed reader, the loop.\<close>

datatype io_result = Returned int | Waiting

definition pipe_read :: "pipe option \<Rightarrow> nat \<Rightarrow> io_result \<times> u8 list \<times> pipe option" where
  "pipe_read po len = (case po of None \<Rightarrow> (Returned (- EBADF), [], None)
     | Some p \<Rightarrow> (case read_loop len [] p of
         (True, dst, p') \<Rightarrow> (Returned (int (length dst)), dst, Some p')
       | (False, dst, p') \<Rightarrow> (Waiting, dst, Some p')))"

definition pipe_write :: "pipe option \<Rightarrow> u8 list \<Rightarrow> io_result \<times> pipe option" where
  "pipe_write po src = (case po of None \<Rightarrow> (Returned (- EBADF), None)
     | Some p \<Rightarrow>
       if read_closed p then (Returned (- EPERM), Some p)
       else (case write_loop src 0 p of
         (True, w, p') \<Rightarrow> (Returned (int w), Some p')
       | (False, w, p') \<Rightarrow> (Waiting, Some p')))"

definition pipe_close_read :: "pipe option \<Rightarrow> int \<times> pipe option" where
  "pipe_close_read po = (0, map_option (\<lambda>p. p\<lparr>read_closed := True\<rparr>) po)"

definition pipe_close_write :: "pipe option \<Rightarrow> int \<times> pipe option" where
  "pipe_close_write po = (0, map_option (\<lambda>p. p\<lparr>write_closed := True\<rparr>) po)"

definition pipe_zero :: pipe where
  "pipe_zero = \<lparr>buf = (\<lambda>_. 0), read_pos = 0, write_pos = 0, used = 0, read_closed = False, write_closed = False\<rparr>"

section \<open>The buffer is a bounded queue\<close>

definition pipe_inv :: "pipe \<Rightarrow> bool" where
  "pipe_inv p \<longleftrightarrow> read_pos p < PIPE_BUF_SIZE \<and> used p \<le> PIPE_BUF_SIZE
     \<and> write_pos p = (read_pos p + used p) mod PIPE_BUF_SIZE"

definition pipe_bytes :: "pipe \<Rightarrow> u8 list" where
  "pipe_bytes p = ring_elems PIPE_BUF_SIZE (buf p) (read_pos p) (used p)"

definition pipe_put :: "u8 \<Rightarrow> pipe \<Rightarrow> pipe" where
  "pipe_put b p = (case pipe_write_iter [b] 0 p of Continue (w, p') \<Rightarrow> p' | _ \<Rightarrow> p)"

definition pipe_get :: "pipe \<Rightarrow> (u8 \<times> pipe) option" where
  "pipe_get p = (case pipe_read_iter 1 [] p of Continue (d, p') \<Rightarrow> Some (hd d, p') | _ \<Rightarrow> None)"

lemma pipe_put_ok:
  fixes b :: u8
  assumes "pipe_inv p" "used p < PIPE_BUF_SIZE"
  defines "p' \<equiv> p\<lparr>buf := (buf p)(write_pos p := b), write_pos := (write_pos p + 1) mod PIPE_BUF_SIZE, used := used p + 1\<rparr>"
  shows "pipe_inv p'" "pipe_bytes p' = pipe_bytes p @ [b]"
proof -
  have "(write_pos p + 1) mod PIPE_BUF_SIZE = (read_pos p + (used p + 1)) mod PIPE_BUF_SIZE"
    using assms(1) by (simp add: pipe_inv_def mod_Suc_eq)
  then show "pipe_inv p'" using assms(1,2) by (simp add: pipe_inv_def p'_def)
  show "pipe_bytes p' = pipe_bytes p @ [b]"
    using ring_elems_put [OF assms(2), of "buf p" "read_pos p" b] assms(1)
    by (simp add: pipe_bytes_def p'_def pipe_inv_def)
qed

lemma pipe_get_ok:
  assumes "pipe_inv p" "used p \<noteq> 0"
  defines "p' \<equiv> p\<lparr>read_pos := (read_pos p + 1) mod PIPE_BUF_SIZE, used := used p - 1\<rparr>"
  shows "pipe_inv p'" "pipe_bytes p = buf p (read_pos p) # pipe_bytes p'"
proof -
  have "(read_pos p + 1) mod PIPE_BUF_SIZE < PIPE_BUF_SIZE" by (simp add: kconst)
  moreover have "((read_pos p + 1) mod PIPE_BUF_SIZE + (used p - 1)) mod PIPE_BUF_SIZE = (read_pos p + used p) mod PIPE_BUF_SIZE"
    unfolding mod_add_left_eq using assms(2) by simp
  ultimately show "pipe_inv p'" using assms(1) by (auto simp: pipe_inv_def p'_def)
  show "pipe_bytes p = buf p (read_pos p) # pipe_bytes p'"
    using ring_elems_get [of "used p" PIPE_BUF_SIZE "buf p" "read_pos p"] assms(1,2)
    by (simp add: pipe_bytes_def p'_def pipe_inv_def)
qed

lemma pipe_used: "length (pipe_bytes p) = used p"
  by (simp add: pipe_bytes_def)

interpretation pp: bounded_queue pipe_put pipe_get pipe_bytes PIPE_BUF_SIZE pipe_inv
proof unfold_locales
  fix p b assume i: "pipe_inv p"
  then have u: "used p \<le> PIPE_BUF_SIZE" by (simp add: pipe_inv_def)
  show "pipe_inv (pipe_put b p)"
    using pipe_put_ok(1) [OF i] i u by (auto simp: pipe_put_def pipe_write_iter_def)
  show "pipe_bytes (pipe_put b p) = (if length (pipe_bytes p) < PIPE_BUF_SIZE then pipe_bytes p @ [b] else pipe_bytes p)"
    using pipe_put_ok(2) [OF i] u by (auto simp: pipe_put_def pipe_write_iter_def pipe_used)
  show "case pipe_get p of None \<Rightarrow> pipe_bytes p = [] | Some (b, p') \<Rightarrow> pipe_bytes p = b # pipe_bytes p' \<and> pipe_inv p'"
    using pipe_get_ok [OF i] by (auto simp: pipe_get_def pipe_read_iter_def pipe_bytes_def)
  show "length (pipe_bytes p) \<le> PIPE_BUF_SIZE" using u by (simp add: pipe_used)
qed

section \<open>Uninterrupted calls\<close>

lemma read_loop_ok:
  "pipe_inv p \<Longrightarrow> length dst \<le> len \<Longrightarrow>
   \<exists>p'. read_loop len dst p =
      (length dst + used p \<ge> len \<or> write_closed p, dst @ take (len - length dst) (pipe_bytes p), p')
     \<and> pipe_inv p' \<and> pipe_bytes p' = drop (len - length dst) (pipe_bytes p)
     \<and> read_closed p' = read_closed p \<and> write_closed p' = write_closed p"
proof (induction len dst p rule: read_loop.induct)
  case (1 len dst p)
  show ?case
  proof (cases "length dst < len \<and> used p \<noteq> 0")
    case True
    let ?p' = "p\<lparr>read_pos := (read_pos p + 1) mod PIPE_BUF_SIZE, used := used p - 1\<rparr>"
    let ?d = "dst @ [buf p (read_pos p)]"
    have it: "pipe_read_iter len dst p = Continue (?d, ?p')" using True by (simp add: pipe_read_iter_def)
    have g: "pipe_inv ?p'" "pipe_bytes p = buf p (read_pos p) # pipe_bytes ?p'"
      using pipe_get_ok [OF "1.prems"(1)] True by auto
    have le: "length ?d \<le> len" using True by simp
    have "len - length dst = Suc (len - length ?d)" using True by (simp add: Suc_diff_Suc)
    with "1.IH" [OF it refl g(1) le] it g(2) True show ?thesis
      by (auto simp: read_loop.simps [of len dst p])
  next
    case False
    then have "read_loop len dst p = (length dst + used p \<ge> len \<or> write_closed p, dst, p)"
      using "1.prems"(2) by (auto simp: read_loop.simps [of len dst p] pipe_read_iter_def)
    moreover have "used p = 0 \<longrightarrow> pipe_bytes p = []" by (simp add: pipe_bytes_def)
    ultimately show ?thesis using False "1.prems" by auto
  qed
qed

lemma write_loop_ok:
  "pipe_inv p \<Longrightarrow> w \<le> length src \<Longrightarrow>
   \<exists>n p'. write_loop src w p = (w + n = length src, w + n, p') \<and> pipe_inv p'
     \<and> n = min (length src - w) (PIPE_BUF_SIZE - used p)
     \<and> pipe_bytes p' = pipe_bytes p @ take n (drop w src)
     \<and> read_closed p' = read_closed p \<and> write_closed p' = write_closed p"
proof (induction src w p rule: write_loop.induct)
  case (1 src w p)
  show ?case
  proof (cases "w < length src \<and> used p \<noteq> PIPE_BUF_SIZE")
    case True
    let ?p' = "p\<lparr>buf := (buf p)(write_pos p := src ! w), write_pos := (write_pos p + 1) mod PIPE_BUF_SIZE, used := used p + 1\<rparr>"
    have it: "pipe_write_iter src w p = Continue (w + 1, ?p')" using True by (simp add: pipe_write_iter_def)
    have u: "used p < PIPE_BUF_SIZE" using True "1.prems"(1) by (simp add: pipe_inv_def)
    note g = pipe_put_ok [OF "1.prems"(1) u, of "src ! w"]
    have le: "w + 1 \<le> length src" using True by simp
    obtain n p2 where n: "write_loop src (w + 1) ?p' = (w + 1 + n = length src, w + 1 + n, p2)" "pipe_inv p2"
      "n = min (length src - (w + 1)) (PIPE_BUF_SIZE - used ?p')"
      "pipe_bytes p2 = pipe_bytes ?p' @ take n (drop (w + 1) src)"
      "read_closed p2 = read_closed ?p'" "write_closed p2 = write_closed ?p'"
      using "1.IH" [OF it refl g(1) le] by blast
    have d: "drop w src = src ! w # drop (w + 1) src" using True by (simp add: Cons_nth_drop_Suc)
    have m: "Suc n = min (length src - w) (PIPE_BUF_SIZE - used p)" using n(3) u True by simp
    have run: "write_loop src w p = (w + Suc n = length src, w + Suc n, p2)"
      unfolding write_loop.simps [of src w p] it iter.case prod.case n(1) by simp
    have bytes: "pipe_bytes p2 = pipe_bytes p @ take (Suc n) (drop w src)"
      unfolding n(4) g(2) d by simp
    show ?thesis
      using run bytes n(2,5,6) m by (intro exI [of _ "Suc n"] exI [of _ p2]) simp
  next
    case False
    then have "write_loop src w p = (w = length src, w, p)"
      using "1.prems"(2) by (auto simp: write_loop.simps [of src w p] pipe_write_iter_def)
    then show ?thesis using False "1.prems" by (intro exI [of _ 0] exI [of _ p]) auto
  qed
qed

section \<open>A reader and a writer\<close>

text \<open>
  \<open>sent\<close> collects the bytes stored so far, \<open>got\<close> the bytes delivered; the writer has
  \<open>wsrc\<close> to send and stands at \<open>written\<close>. The two loops and the close operations take turns
  in any order; a waiting iteration changes nothing.
\<close>

record pipe_run =
  the_pipe :: pipe
  got :: "u8 list"
  rlen :: nat
  wsrc :: "u8 list"
  written :: nat

inductive pipe_step :: "pipe_run \<Rightarrow> pipe_run \<Rightarrow> bool" where
  reads: "pipe_read_iter (rlen r) (got r) (the_pipe r) = Continue (d, p) \<Longrightarrow>
    pipe_step r (r\<lparr>the_pipe := p, got := d\<rparr>)"
| reader_waits: "pipe_read_iter (rlen r) (got r) (the_pipe r) = Wait \<Longrightarrow> pipe_step r r"
| writes: "pipe_write_iter (wsrc r) (written r) (the_pipe r) = Continue (w, p) \<Longrightarrow>
    pipe_step r (r\<lparr>the_pipe := p, written := w\<rparr>)"
| writer_waits: "pipe_write_iter (wsrc r) (written r) (the_pipe r) = Wait \<Longrightarrow> pipe_step r r"
| closes_read: "pipe_step r (r\<lparr>the_pipe := (the_pipe r)\<lparr>read_closed := True\<rparr>\<rparr>)"
| closes_write: "written r = length (wsrc r) \<Longrightarrow>
    pipe_step r (r\<lparr>the_pipe := (the_pipe r)\<lparr>write_closed := True\<rparr>\<rparr>)"

definition run_start :: "u8 list \<Rightarrow> nat \<Rightarrow> pipe_run" where
  "run_start src len = \<lparr>the_pipe = pipe_zero, got = [], rlen = len, wsrc = src, written = 0\<rparr>"

inductive pipe_reach :: "u8 list \<Rightarrow> nat \<Rightarrow> pipe_run \<Rightarrow> bool" for src len where
  start: "pipe_reach src len (run_start src len)"
| step: "pipe_reach src len r \<Longrightarrow> pipe_step r r' \<Longrightarrow> pipe_reach src len r'"

definition run_inv :: "u8 list \<Rightarrow> nat \<Rightarrow> pipe_run \<Rightarrow> bool" where
  "run_inv src len r \<longleftrightarrow> pipe_inv (the_pipe r) \<and> wsrc r = src \<and> rlen r = len \<and> written r \<le> length src
     \<and> length (got r) \<le> len \<and> got r @ pipe_bytes (the_pipe r) = take (written r) src
     \<and> (write_closed (the_pipe r) \<longrightarrow> written r = length src)"

lemma pipe_bytes_closed [simp]:
  "pipe_bytes (p\<lparr>read_closed := b\<rparr>) = pipe_bytes p" "pipe_bytes (p\<lparr>write_closed := b\<rparr>) = pipe_bytes p"
  "pipe_inv (p\<lparr>read_closed := b\<rparr>) = pipe_inv p" "pipe_inv (p\<lparr>write_closed := b\<rparr>) = pipe_inv p"
  by (simp_all add: pipe_bytes_def pipe_inv_def)

lemma run_inv_step: "pipe_step r r' \<Longrightarrow> run_inv src len r \<Longrightarrow> run_inv src len r'"
proof (induction rule: pipe_step.induct)
  case (reads r d p)
  then have u: "used (the_pipe r) \<noteq> 0" "length (got r) < rlen r"
    and e: "d = got r @ [buf (the_pipe r) (read_pos (the_pipe r))]"
      "p = (the_pipe r)\<lparr>read_pos := (read_pos (the_pipe r) + 1) mod PIPE_BUF_SIZE, used := used (the_pipe r) - 1\<rparr>"
    by (auto simp: pipe_read_iter_def split: if_splits)
  show ?case
    using reads.prems pipe_get_ok [of "the_pipe r"] u unfolding e run_inv_def by auto
next
  case (writes r w p)
  then have u: "written r < length (wsrc r)" "used (the_pipe r) \<noteq> PIPE_BUF_SIZE" "w = written r + 1"
    and e: "p = (the_pipe r)\<lparr>buf := (buf (the_pipe r))(write_pos (the_pipe r) := wsrc r ! written r),
       write_pos := (write_pos (the_pipe r) + 1) mod PIPE_BUF_SIZE, used := used (the_pipe r) + 1\<rparr>"
    by (auto simp: pipe_write_iter_def split: if_splits)
  have i: "pipe_inv (the_pipe r)" "wsrc r = src" using writes.prems by (auto simp: run_inv_def)
  have "used (the_pipe r) < PIPE_BUF_SIZE" using u(2) i(1) by (simp add: pipe_inv_def)
  note g = pipe_put_ok [OF i(1) this, of "src ! written r"]
  have t: "take (Suc (written r)) src = take (written r) src @ [src ! written r]"
    using u(1) i(2) by (simp add: take_Suc_conv_app_nth)
  have "got r @ pipe_bytes (the_pipe r) @ [src ! written r] = take (Suc (written r)) src"
    using writes.prems t by (simp add: run_inv_def)
  then show ?case using writes.prems g u unfolding e run_inv_def by auto
qed (auto simp: run_inv_def)

lemma pipe_reach_inv: "pipe_reach src len r \<Longrightarrow> run_inv src len r"
proof (induction rule: pipe_reach.induct)
  case start
  then show ?case by (simp add: run_inv_def run_start_def pipe_inv_def pipe_bytes_def pipe_zero_def kconst)
qed (rule run_inv_step)

section \<open>Properties\<close>

text \<open>
  C11: Under every interleaving of a reader, a writer and the close operations the bytes
  delivered are a prefix of the bytes sent, nothing is lost or reordered (delivered bytes
  and buffered bytes make up what was written), at most 4096 bytes are buffered, and a
  reader that has reached the end of a closed pipe has received the whole message.
\<close>

theorem pipe_interleaving:
  assumes "pipe_reach src len r"
  shows "got r @ pipe_bytes (the_pipe r) = take (written r) src
    \<and> length (pipe_bytes (the_pipe r)) \<le> 4096
    \<and> (write_closed (the_pipe r) \<and> used (the_pipe r) = 0 \<longrightarrow> got r = src)"
proof -
  have i: "run_inv src len r" by (rule pipe_reach_inv [OF assms])
  moreover have "used (the_pipe r) = 0 \<longrightarrow> pipe_bytes (the_pipe r) = []" by (simp add: pipe_bytes_def)
  ultimately show ?thesis by (auto simp: run_inv_def pipe_used pipe_inv_def kconst)
qed

theorem pipe_interleaving_witness:
  "\<exists>r. pipe_reach [1, 2] 5 r \<and> got r = [1] \<and> got r @ pipe_bytes (the_pipe r) = take (written r) [1, 2]"
proof -
  let ?p1 = "pipe_zero\<lparr>buf := (\<lambda>_. 0)(0 := 1), write_pos := 1, used := 1\<rparr>"
  let ?p2 = "pipe_zero\<lparr>buf := (\<lambda>_. 0)(0 := 1), write_pos := 1, used := 0, read_pos := 1\<rparr>"
  have s1: "pipe_reach [1, 2] 5 ((run_start [1, 2] 5)\<lparr>the_pipe := ?p1, written := 1\<rparr>)"
    by (rule pipe_reach.step [OF pipe_reach.start pipe_step.writes])
       (simp add: pipe_write_iter_def run_start_def pipe_zero_def kconst)
  have s2: "pipe_reach [1, 2] 5 ((run_start [1, 2] 5)\<lparr>the_pipe := ?p1, written := 1, the_pipe := ?p2, got := [1]\<rparr>)"
    by (rule pipe_reach.step [OF s1 pipe_step.reads])
       (simp add: pipe_read_iter_def run_start_def pipe_zero_def kconst)
  have "got ((run_start [1, 2] 5)\<lparr>the_pipe := ?p1, written := 1, the_pipe := ?p2, got := [1]\<rparr>) = [1]" by simp
  with pipe_interleaving [OF s2] s2 show ?thesis by blast
qed

text \<open>
  Calls that are not interrupted: \<open>pipe_write\<close> stores as many bytes as there is room
  for and returns the full length if all fit; \<open>pipe_read\<close> delivers the oldest bytes and
  returns their number when enough are buffered or the writer has closed; the null and the
  broken-pipe cases return their error codes.
\<close>

theorem pipe_calls:
  assumes "pipe_inv p"
  shows "pipe_read None len = (Returned (- 9), [], None) \<and> pipe_write None src = (Returned (- 9), None)
    \<and> (read_closed p \<longrightarrow> pipe_write (Some p) src = (Returned (- 1), Some p))
    \<and> (\<not> read_closed p \<longrightarrow> (\<exists>p'. pipe_write (Some p) src =
         (if length src \<le> 4096 - used p then Returned (int (length src)) else Waiting, Some p')
         \<and> pipe_bytes p' = pipe_bytes p @ take (4096 - used p) src \<and> pipe_inv p'))
    \<and> (\<exists>p'. pipe_read (Some p) len =
         (if len \<le> used p \<or> write_closed p then Returned (int (min len (used p))) else Waiting,
          take len (pipe_bytes p), Some p') \<and> pipe_bytes p' = drop len (pipe_bytes p) \<and> pipe_inv p')"
proof -
  obtain n p1 where w: "write_loop src 0 p = (n = length src, n, p1)" "pipe_inv p1"
    "n = min (length src) (4096 - used p)" "pipe_bytes p1 = pipe_bytes p @ take n src"
    using write_loop_ok [OF assms, of 0 src] by (auto simp: kconst)
  have tk: "take n src = take (4096 - used p) src" using w(3) by (simp add: min_def)
  obtain p2 where r: "read_loop len [] p = (len \<le> used p \<or> write_closed p, take len (pipe_bytes p), p2)"
    "pipe_inv p2" "pipe_bytes p2 = drop len (pipe_bytes p)"
    using read_loop_ok [OF assms, of "[]" len] by auto
  have a: "\<not> read_closed p \<longrightarrow> (\<exists>p'. pipe_write (Some p) src =
         (if length src \<le> 4096 - used p then Returned (int (length src)) else Waiting, Some p')
         \<and> pipe_bytes p' = pipe_bytes p @ take (4096 - used p) src \<and> pipe_inv p')"
    using w tk by (auto simp: pipe_write_def split: bool.splits)
  have b: "\<exists>p'. pipe_read (Some p) len =
         (if len \<le> used p \<or> write_closed p then Returned (int (min len (used p))) else Waiting,
          take len (pipe_bytes p), Some p') \<and> pipe_bytes p' = drop len (pipe_bytes p) \<and> pipe_inv p'"
    using r by (auto simp: pipe_read_def pipe_used min.commute split: bool.splits)
  have c: "pipe_read None len = (Returned (- 9), [], None)" "pipe_write None src = (Returned (- 9), None)"
    "read_closed p \<longrightarrow> pipe_write (Some p) src = (Returned (- 1), Some p)"
    by (simp_all add: pipe_read_def pipe_write_def kconst)
  show ?thesis using a b c by blast
qed

theorem pipe_calls_witness:
  "pipe_inv pipe_zero \<and> (\<exists>p'. pipe_write (Some pipe_zero) [7, 8] = (Returned 2, Some p') \<and> pipe_bytes p' = [7, 8])"
proof -
  have i: "pipe_inv pipe_zero" by (simp add: pipe_inv_def pipe_zero_def kconst)
  from pipe_calls [OF i, of 0 "[7, 8]"] i show ?thesis
    by (auto simp: pipe_zero_def pipe_bytes_def)
qed



end
