(* ===== verification/Fs_Objects.thy ===== *)
theory Fs_Objects
  imports Sched Pipe Kstring
begin

text \<open>
  The objects of the file system, \<^verbatim>\<open>src/kernel/include/fs.h\<close>, and the state the file system
  components share. Objects live on the kernel heap or in static storage; every kind of object
  has a store indexed by its address, and 0 is the null pointer. The tables of function
  pointers (\<open>file_ops\<close>, \<open>inode_ops\<close>, the \<open>mount\<close> member of a file system) are the names of the
  static tables the sources define; the calls through them are written out in the theory of
  the virtual file system. \<open>disk_mem\<close> is the memory that holds disk images.
\<close>

section \<open>Constants\<close>

definition S_IFMT :: u32 where [kconst]: "S_IFMT = 0xF000"
definition S_IFREG :: u32 where [kconst]: "S_IFREG = 0x8000"
definition S_IFDIR :: u32 where [kconst]: "S_IFDIR = 0x4000"
definition S_IFIFO :: u32 where [kconst]: "S_IFIFO = 0x1000"

definition SEEK_SET :: int where [kconst]: "SEEK_SET = 0"
definition SEEK_CUR :: int where [kconst]: "SEEK_CUR = 1"
definition SEEK_END :: int where [kconst]: "SEEK_END = 2"

definition NAME_MAX :: nat where [kconst]: "NAME_MAX = 255"
definition PATH_MAX :: nat where [kconst]: "PATH_MAX = 4096"

section \<open>Objects\<close>

datatype file_ops = Pipe_read_ops | Pipe_write_ops | Ext2_file_ops | Procfs_fops
datatype inode_ops = Ext2_inode_ops | Procfs_inode_ops

record inode =
  ino :: u64
  mode :: u32
  uid :: u32
  gid :: u32
  i_size :: u64
  atime :: u64
  mtime :: u64
  ctime :: u64
  nlink :: u32
  fs_data :: nat
  i_sb :: nat
  i_ops :: "inode_ops option"
  i_fops :: "file_ops option"

definition inode_zero :: inode where
  "inode_zero = \<lparr>ino = 0, mode = 0, uid = 0, gid = 0, i_size = 0, atime = 0, mtime = 0, ctime = 0, nlink = 0,
     fs_data = 0, i_sb = 0, i_ops = None, i_fops = None\<rparr>"

text \<open>A name is the C string without its terminating zero.\<close>

record dentry =
  d_name :: string
  d_inode :: nat
  d_parent :: nat
  d_children :: nat
  d_next :: nat

definition dentry_zero :: dentry where
  "dentry_zero = \<lparr>d_name = [], d_inode = 0, d_parent = 0, d_children = 0, d_next = 0\<rparr>"

record kfile =
  f_inode :: nat
  f_dentry :: nat
  f_offset :: u64
  f_flags :: u32
  f_refs :: u32
  f_ops :: "file_ops option"

definition file_zero :: kfile where
  "file_zero = \<lparr>f_inode = 0, f_dentry = 0, f_offset = 0, f_flags = 0, f_refs = 0, f_ops = None\<rparr>"

record super_block =
  s_root :: nat
  s_fs_data :: nat
  s_block_size :: u32

record stat =
  st_ino :: u64
  st_mode :: u32
  st_nlink :: u32
  st_uid :: u32
  st_gid :: u32
  st_size :: u64
  st_atime :: u64
  st_mtime :: u64
  st_ctime :: u64
  st_blksize :: u32
  st_blocks :: u64

text \<open>The mount data of ext2 and the text of an open proc file.\<close>

record ext2_fs =
  e_disk :: u64
  e_block_size :: u32
  e_inodes_per_group :: u32
  e_inode_size :: u32
  e_sb :: "u8 list"

datatype filesystem = Ext2_fs | Procfs_fs

record mount_entry =
  m_path :: string
  m_sb :: nat
  m_used :: bool

record fs_state = sched +
  inode_at :: "nat \<Rightarrow> inode"
  dentry_at :: "nat \<Rightarrow> dentry"
  file_at :: "nat \<Rightarrow> kfile"
  pipe_at :: "nat \<Rightarrow> pipe"
  sb_at :: "nat \<Rightarrow> super_block"
  ext2_at :: "nat \<Rightarrow> ext2_fs"
  proc_at :: "nat \<Rightarrow> string"           \<comment> \<open>the filled part of \<open>procfs_file_data\<close>\<close>
  disk_mem :: "u64 \<Rightarrow> u8"
  fs_list :: "filesystem list"
  mount_table :: "nat \<Rightarrow> mount_entry"
  vfs_root :: nat

text \<open>The sizes of the structures.\<close>

definition SZ_INODE :: nat where "SZ_INODE = 96"
definition SZ_DENTRY :: nat where "SZ_DENTRY = 288"
definition SZ_FILE :: nat where "SZ_FILE = 40"
definition SZ_SB :: nat where "SZ_SB = 32"
definition SZ_PIPE :: nat where "SZ_PIPE = 4112"
definition SZ_EXT2_FS :: nat where "SZ_EXT2_FS = 128"
definition SZ_PROC_DATA :: nat where "SZ_PROC_DATA = 4104"

section \<open>Allocation and access\<close>

abbreviation kz :: "nat \<Rightarrow> 'a fs_state_scheme \<Rightarrow> kstop + (nat \<times> 'a fs_state_scheme)" where
  "kz \<equiv> kzmalloc 2 HEAP_STEPS"

text \<open>A store through a pointer; through the null pointer it traps.\<close>

definition set_inode :: "nat \<Rightarrow> (inode \<Rightarrow> inode) \<Rightarrow> 'a fs_state_scheme \<Rightarrow> kstop + 'a fs_state_scheme" where
  "set_inode p f s = (if p = 0 then Inl NullDeref else Inr (s\<lparr>inode_at := (inode_at s)(p := f (inode_at s p))\<rparr>))"

definition set_dentry :: "nat \<Rightarrow> (dentry \<Rightarrow> dentry) \<Rightarrow> 'a fs_state_scheme \<Rightarrow> kstop + 'a fs_state_scheme" where
  "set_dentry p f s = (if p = 0 then Inl NullDeref else Inr (s\<lparr>dentry_at := (dentry_at s)(p := f (dentry_at s p))\<rparr>))"

definition set_file :: "nat \<Rightarrow> (kfile \<Rightarrow> kfile) \<Rightarrow> 'a fs_state_scheme \<Rightarrow> kstop + 'a fs_state_scheme" where
  "set_file p f s = (if p = 0 then Inl NullDeref else Inr (s\<lparr>file_at := (file_at s)(p := f (file_at s p))\<rparr>))"

text \<open>A load through a pointer.\<close>

definition get_inode :: "nat \<Rightarrow> 'a fs_state_scheme \<Rightarrow> kstop + inode" where
  "get_inode p s = (if p = 0 then Inl NullDeref else Inr (inode_at s p))"

definition set_task_fd :: "nat \<Rightarrow> nat \<Rightarrow> nat option \<Rightarrow> 'a fs_state_scheme \<Rightarrow> 'a fs_state_scheme" where
  "set_task_fd t fd v s = tput t (\<lambda>x. x\<lparr>fd_table := (fd_table x)(fd := v)\<rparr>) s"

text \<open>The heap leaves the file system's stores alone.\<close>

lemma kz_more:
  assumes "kz sz s = Inr (p, s')"
  shows "kheap.more s' = kheap.more s"
  using assms kmalloc_more by (auto simp: kzmalloc_def split: if_splits)

lemma fs_of_more:
  fixes s s' :: "'a fs_state_scheme"
  assumes "kheap.more s' = kheap.more s"
  shows "inode_at s' = inode_at s \<and> dentry_at s' = dentry_at s \<and> file_at s' = file_at s \<and> pipe_at s' = pipe_at s
    \<and> sb_at s' = sb_at s \<and> ext2_at s' = ext2_at s \<and> proc_at s' = proc_at s \<and> disk_mem s' = disk_mem s
    \<and> vfs_root s' = vfs_root s \<and> mount_table s' = mount_table s \<and> fs_list s' = fs_list s
    \<and> task_pool s' = task_pool s \<and> current_task s' = current_task s \<and> timer_ticks s' = timer_ticks s"
  using assms by (cases s; cases s'; simp)

lemmas kz_fs = fs_of_more [OF kz_more]

end
