(* ===== verification/Ext2.thy ===== *)
theory Ext2
  imports Fs_Objects
begin

text \<open>
  The ext2 driver, \<^verbatim>\<open>src/kernel/fs/ext2.c\<close>: reading inodes and file data from a disk image in
  memory, looking a name up in a directory, mounting. A pointer into the image is a 64-bit
  address of \<open>disk_mem\<close>; the fields of the on-disk structures are read at their offsets,
  little endian. File offsets and lengths are natural numbers: the loop condition keeps them
  below the 32-bit size of the file. The buffer of \<open>ext2_lookup\<close> is the list of bytes that
  were read; an access behind them, or behind the name, is \<open>WildDeref\<close>.
\<close>

section \<open>Reading the image\<close>

type_synonym image = "u64 \<Rightarrow> u8"

definition rd16 :: "image \<Rightarrow> u64 \<Rightarrow> u16" where
  "rd16 m a = ucast (m a) OR push_bit 8 (ucast (m (a + 1)))"

definition rd32 :: "image \<Rightarrow> u64 \<Rightarrow> u32" where
  "rd32 m a = ucast (rd16 m a) OR push_bit 16 (ucast (rd16 m (a + 2)))"

definition EXT2_MAGIC :: u16 where [kconst]: "EXT2_MAGIC = 0xEF53"
definition EXT2_ROOT_INO :: u32 where [kconst]: "EXT2_ROOT_INO = 2"
definition EXT2_S_IFDIR :: u16 where [kconst]: "EXT2_S_IFDIR = 0x4000"

text \<open>Offsets in \<open>ext2_superblock\<close>, \<open>ext2_group_desc\<close> and \<open>ext2_inode\<close>.\<close>

definition s_inodes_count :: "image \<Rightarrow> u64 \<Rightarrow> u32" where "s_inodes_count m p = rd32 m p"
definition s_blocks_count :: "image \<Rightarrow> u64 \<Rightarrow> u32" where "s_blocks_count m p = rd32 m (p + 4)"
definition s_log_block_size :: "image \<Rightarrow> u64 \<Rightarrow> u32" where "s_log_block_size m p = rd32 m (p + 24)"
definition s_inodes_per_group :: "image \<Rightarrow> u64 \<Rightarrow> u32" where "s_inodes_per_group m p = rd32 m (p + 40)"
definition s_magic :: "image \<Rightarrow> u64 \<Rightarrow> u16" where "s_magic m p = rd16 m (p + 56)"
definition s_rev_level :: "image \<Rightarrow> u64 \<Rightarrow> u32" where "s_rev_level m p = rd32 m (p + 76)"
definition s_inode_size :: "image \<Rightarrow> u64 \<Rightarrow> u16" where "s_inode_size m p = rd16 m (p + 88)"

definition SZ_GROUP_DESC :: u64 where "SZ_GROUP_DESC = 32"
definition bg_inode_table :: "image \<Rightarrow> u64 \<Rightarrow> u32" where "bg_inode_table m p = rd32 m (p + 8)"

definition ei_mode :: "image \<Rightarrow> u64 \<Rightarrow> u16" where "ei_mode m p = rd16 m p"
definition ei_uid :: "image \<Rightarrow> u64 \<Rightarrow> u16" where "ei_uid m p = rd16 m (p + 2)"
definition ei_size :: "image \<Rightarrow> u64 \<Rightarrow> u32" where "ei_size m p = rd32 m (p + 4)"
definition ei_mtime :: "image \<Rightarrow> u64 \<Rightarrow> u32" where "ei_mtime m p = rd32 m (p + 16)"
definition ei_gid :: "image \<Rightarrow> u64 \<Rightarrow> u16" where "ei_gid m p = rd16 m (p + 24)"
definition ei_links :: "image \<Rightarrow> u64 \<Rightarrow> u16" where "ei_links m p = rd16 m (p + 26)"
definition ei_block :: "image \<Rightarrow> u64 \<Rightarrow> nat \<Rightarrow> u32" where "ei_block m p i = rd32 m (p + 40 + 4 * of_nat i)"

section \<open>Blocks and inodes\<close>

definition ext2_read_block :: "ext2_fs \<Rightarrow> u32 \<Rightarrow> u64" where
  "ext2_read_block fs block_no = e_disk fs + ucast block_no * ucast (e_block_size fs)"

text \<open>The null pointer for inode 0; a group size of 0 divides by zero.\<close>

definition ext2_get_inode :: "image \<Rightarrow> ext2_fs \<Rightarrow> u32 \<Rightarrow> kstop + u64" where
  "ext2_get_inode m fs n =
     (if n = 0 then Inr 0
      else if e_inodes_per_group fs = 0 then Inl DivideError
      else
        (let group = (n - 1) div e_inodes_per_group fs;
             index = (n - 1) mod e_inodes_per_group fs;
             gdt_block = (if e_block_size fs = 1024 then 2 else 1);
             gd = ext2_read_block fs gdt_block + SZ_GROUP_DESC * ucast group
         in Inr (ext2_read_block fs (bg_inode_table m gd) + ucast (index * e_inode_size fs))))"

text \<open>The number of the block that holds block \<open>i\<close> of a file.\<close>

definition block_of :: "image \<Rightarrow> ext2_fs \<Rightarrow> u64 \<Rightarrow> nat \<Rightarrow> u32" where
  "block_of m fs inp i =
     (if i < 12 then ei_block m inp i
      else rd32 m (ext2_read_block fs (ei_block m inp 12) + 4 * of_nat (i - 12)))"

text \<open>The copied bytes; the code's \<open>read\<close> is their number.\<close>

function ext2_read_inode_data :: "image \<Rightarrow> ext2_fs \<Rightarrow> u64 \<Rightarrow> nat \<Rightarrow> nat \<Rightarrow> kstop + u8 list" where
  "ext2_read_inode_data m fs inp offset len =
     (if 0 < len \<and> offset < unat (ei_size m inp) then
        (let bs = unat (e_block_size fs)
         in if bs = 0 then Inl DivideError
            else
              (let block_idx = offset div bs; block_off = offset mod bs;
                   block_no = block_of m fs inp block_idx
               in if block_no = 0 then Inr []
                  else
                    (let block = ext2_read_block fs block_no;
                         to_copy = min (min (bs - block_off) len) (unat (ei_size m inp) - offset);
                         bytes = map (\<lambda>i. m (block + of_nat (block_off + i))) [0..<to_copy]
                     in kbind (ext2_read_inode_data m fs inp (offset + to_copy) (len - to_copy))
                          (\<lambda>rest. Inr (bytes @ rest)))))
      else Inr [])"
  by pat_completeness auto
termination
  by (relation "measure (\<lambda>(m, fs, inp, offset, len). len)") (auto simp: min_def mod_less_divisor)

declare ext2_read_inode_data.simps [simp del]

section \<open>Directories\<close>

lemma rest_less: "p < (n :: nat) \<Longrightarrow> 0 < k \<Longrightarrow> n - (p + k) < n - p"
  by simp

definition buf_at :: "u8 list \<Rightarrow> nat \<Rightarrow> kstop + u8" where
  "buf_at b i = (if i < length b then Inr (b ! i) else Inl WildDeref)"

definition name_at :: "string \<Rightarrow> nat \<Rightarrow> kstop + char" where
  "name_at s i = (if i < length s then Inr (s ! i) else Inl WildDeref)"

definition buf16 :: "u8 list \<Rightarrow> nat \<Rightarrow> kstop + u16" where
  "buf16 b i = kbind (buf_at b i) (\<lambda>x. kbind (buf_at b (i + 1)) (\<lambda>y. Inr (ucast x OR push_bit 8 (ucast y))))"

definition buf32 :: "u8 list \<Rightarrow> nat \<Rightarrow> kstop + u32" where
  "buf32 b i = kbind (buf16 b i) (\<lambda>x. kbind (buf16 b (i + 2)) (\<lambda>y. Inr (ucast x OR push_bit 16 (ucast y))))"

definition char_u8 :: "char \<Rightarrow> u8" where
  "char_u8 c = of_nat (of_char c)"

text \<open>The comparison loop: the first \<open>k\<close> characters agree.\<close>

fun names_agree :: "u8 list \<Rightarrow> nat \<Rightarrow> string \<Rightarrow> nat \<Rightarrow> nat \<Rightarrow> kstop + bool" where
  "names_agree b p nm i 0 = Inr True"
| "names_agree b p nm i (Suc k) =
     kbind (buf_at b (p + i)) (\<lambda>x. kbind (name_at nm i) (\<lambda>c.
       if x \<noteq> char_u8 c then Inr False else names_agree b p nm (i + 1) k))"

text \<open>One directory buffer: the inode number of the matching entry.\<close>

function dir_scan :: "u8 list \<Rightarrow> nat \<Rightarrow> string \<Rightarrow> kstop + u32 option" where
  "dir_scan b p nm =
     (if p < length b then
        kbind (buf16 b (p + 4)) (\<lambda>rec_len.
        if rec_len = 0 then Inr None
        else
          kbind (buf32 b p) (\<lambda>inode_no.
          kbind (buf_at b (p + 6)) (\<lambda>name_len.
          let nl = unat name_len in
          if inode_no \<noteq> 0 \<and> 0 < nl then
            kbind (names_agree b (p + 8) nm 0 nl) (\<lambda>match.
            kbind (if match then name_at nm nl else Inr (CHR ''x'')) (\<lambda>c.
            if match \<and> c = NULc then Inr (Some inode_no)
            else dir_scan b (p + unat rec_len) nm))
          else dir_scan b (p + unat rec_len) nm)))
      else Inr None)"
  by pat_completeness auto
termination
  by (relation "measure (\<lambda>(b, p, nm). length b - p)") (auto simp: unat_gt_0 intro!: rest_less)

declare dir_scan.simps [simp del]

text \<open>All buffers of a directory. Every round reads at least one byte.\<close>

function dir_find :: "image \<Rightarrow> ext2_fs \<Rightarrow> u64 \<Rightarrow> nat \<Rightarrow> string \<Rightarrow> kstop + u32 option" where
  "dir_find m fs inp off nm =
     (if off < unat (ei_size m inp) then
        (case ext2_read_inode_data m fs inp off (min (unat (e_block_size fs)) 4096) of
           Inl e \<Rightarrow> Inl e
         | Inr b \<Rightarrow>
             if b = [] then Inr None
             else (case dir_scan b 0 nm of
                     Inl e \<Rightarrow> Inl e
                   | Inr (Some n) \<Rightarrow> Inr (Some n)
                   | Inr None \<Rightarrow> dir_find m fs inp (off + length b) nm))
      else Inr None)"
  by pat_completeness auto
termination
  by (relation "measure (\<lambda>(m, fs, inp, off, nm). unat (ei_size m inp) - off)") (auto intro: rest_less)

declare dir_find.simps [simp del]

text \<open>\<open>inode->fs_data\<close> holds the address of the on-disk inode.\<close>

definition ext2_lookup :: "nat \<Rightarrow> string \<Rightarrow> 'a fs_state_scheme \<Rightarrow> kstop + (nat \<times> 'a fs_state_scheme)" where
  "ext2_lookup dir nm s =
     kbind (get_inode dir s) (\<lambda>d.
     let fs = ext2_at s (s_fs_data (sb_at s (i_sb d))); inp = of_nat (fs_data d); m = disk_mem s
     in if inp = 0 \<or> ei_mode m inp AND EXT2_S_IFDIR = 0 then Inr (0, s)
        else
          kbind (dir_find m fs inp 0 nm) (\<lambda>r.
          case r of
            None \<Rightarrow> Inr (0, s)
          | Some n \<Rightarrow>
              kbind (ext2_get_inode m fs n) (\<lambda>ei.
              kbind (kz SZ_INODE s) (\<lambda>(v, s1).
              kbind (set_inode v (\<lambda>_. inode_zero\<lparr>ino := ucast n, mode := ucast (ei_mode m ei), i_size := ucast (ei_size m ei),
                   uid := ucast (ei_uid m ei), gid := ucast (ei_gid m ei), mtime := ucast (ei_mtime m ei),
                   nlink := ucast (ei_links m ei), i_sb := i_sb d, i_ops := i_ops d, i_fops := Some Ext2_file_ops,
                   fs_data := unat ei\<rparr>) s1) (\<lambda>s2.
              Inr (v, s2))))))"

section \<open>Reading an open file and mounting\<close>

definition ext2_file_read :: "nat \<Rightarrow> nat \<Rightarrow> 'a fs_state_scheme \<Rightarrow> kstop + (int \<times> u8 list \<times> 'a fs_state_scheme)" where
  "ext2_file_read f len s =
     kbind (get_inode (f_inode (file_at s f)) s) (\<lambda>i.
     let fs = ext2_at s (s_fs_data (sb_at s (i_sb i)))
     in kbind (ext2_read_inode_data (disk_mem s) fs (of_nat (fs_data i)) (unat (f_offset (file_at s f))) len) (\<lambda>b.
        kbind (set_file f (\<lambda>x. x\<lparr>f_offset := f_offset x + of_nat (length b)\<rparr>) s) (\<lambda>s1.
        Inr (int (length b), b, s1))))"

text \<open>A shift by 32 or more is undefined; on the x86 the count is taken modulo 32.\<close>

definition ext2_block_size :: "u32 \<Rightarrow> u32" where
  "ext2_block_size lg = push_bit (unat lg mod 32) 1024"

definition ext2_mount :: "u64 \<Rightarrow> 'a fs_state_scheme \<Rightarrow> kstop + (nat \<times> 'a fs_state_scheme)" where
  "ext2_mount disk s =
     (let m = disk_mem s; sbd = disk + 1024
      in if s_magic m sbd \<noteq> EXT2_MAGIC then Inr (0, s)
         else
           kbind (kz SZ_EXT2_FS s) (\<lambda>(fp, s1).
           let fs = \<lparr>e_disk = disk, e_block_size = ext2_block_size (s_log_block_size m sbd),
                     e_inodes_per_group = s_inodes_per_group m sbd,
                     e_inode_size = (if 1 \<le> s_rev_level m sbd then ucast (s_inode_size m sbd) else 128),
                     e_sb = map (\<lambda>i. m (sbd + of_nat i)) [0..<104]\<rparr>;
               s2 = s1\<lparr>ext2_at := (ext2_at s1)(fp := fs)\<rparr>
           in kbind (ext2_get_inode m fs EXT2_ROOT_INO) (\<lambda>rin.
              kbind (kz SZ_INODE s2) (\<lambda>(ri, s3).
              kbind (set_inode ri (\<lambda>_. inode_zero\<lparr>ino := ucast EXT2_ROOT_INO, mode := ucast (ei_mode m rin),
                   i_size := ucast (ei_size m rin), i_ops := Some Ext2_inode_ops, i_fops := Some Ext2_file_ops,
                   fs_data := unat rin\<rparr>) s3) (\<lambda>s4.
              kbind (kz SZ_DENTRY s4) (\<lambda>(rd, s5).
              kbind (set_dentry rd (\<lambda>_. dentry_zero\<lparr>d_name := ''/'', d_inode := ri\<rparr>) s5) (\<lambda>s6.
              kbind (kz SZ_SB s6) (\<lambda>(sp, s7).
              let s8 = s7\<lparr>sb_at := (sb_at s7)(sp := \<lparr>s_root = rd, s_fs_data = fp, s_block_size = e_block_size fs\<rparr>)\<rparr>
              in kbind (set_inode ri (\<lambda>i. i\<lparr>i_sb := sp\<rparr>) s8) (\<lambda>s9. Inr (sp, s9)))))))))) "

section \<open>What reading returns\<close>

definition byte_of :: "image \<Rightarrow> ext2_fs \<Rightarrow> u64 \<Rightarrow> nat \<Rightarrow> u8" where
  "byte_of m fs inp i =
     (let bs = unat (e_block_size fs)
      in m (ext2_read_block fs (block_of m fs inp (i div bs)) + of_nat (i mod bs)))"

text \<open>An offset with a block of its own; the others are holes.\<close>

definition has_block :: "image \<Rightarrow> ext2_fs \<Rightarrow> u64 \<Rightarrow> nat \<Rightarrow> bool" where
  "has_block m fs inp i \<longleftrightarrow> block_of m fs inp (i div unat (e_block_size fs)) \<noteq> 0"

lemma in_block:
  fixes off bs i :: nat
  assumes "off mod bs + i < bs"
  shows "(off + i) div bs = off div bs" "(off + i) mod bs = off mod bs + i"
proof -
  have e: "off + i = (off mod bs + i) + bs * (off div bs)"
    using div_mult_mod_eq [of off bs] by (simp add: algebra_simps)
  have bs: "0 < bs" using assms by simp
  show "(off + i) div bs = off div bs"
    unfolding e using div_mult_self2 [of bs "off mod bs + i" "off div bs"] bs assms by simp
  show "(off + i) mod bs = off mod bs + i"
    unfolding e using assms by (simp only: mod_mult_self2 mod_less)
qed

lemma upt_split: "a \<le> b \<Longrightarrow> b \<le> c \<Longrightarrow> [a..<c] = [a..<b] @ [b..<c]"
  using upt_add_eq_append [of a b "c - b"] by simp

lemma upt_shift: "[off..<off + n] = map (\<lambda>i. off + i) [0..<n]"
  by (simp add: map_add_upt add.commute)

lemma read_data_eq:
  assumes "e_block_size fs \<noteq> 0"
  shows "ext2_read_inode_data m fs inp off len =
    Inr (map (byte_of m fs inp) (takeWhile (has_block m fs inp) [off..<min (off + len) (unat (ei_size m inp))]))"
proof (induction len arbitrary: off rule: less_induct)
  case (less len)
  let ?bs = "unat (e_block_size fs)" and ?sz = "unat (ei_size m inp)"
  have bs: "0 < ?bs" using assms by (simp add: unat_gt_0)
  show ?case
  proof (cases "0 < len \<and> off < ?sz \<and> has_block m fs inp off")
    case False
    then consider "\<not> (0 < len \<and> off < ?sz)" | "0 < len" "off < ?sz" "\<not> has_block m fs inp off" by blast
    then show ?thesis
    proof cases
      case 1
      then show ?thesis by (subst ext2_read_inode_data.simps) auto
    next
      case 2
      then have "[off..<min (off + len) ?sz] = off # [Suc off..<min (off + len) ?sz]"
        by (simp add: upt_conv_Cons)
      with 2 bs show ?thesis
        by (subst ext2_read_inode_data.simps) (simp add: has_block_def Let_def)
    qed
  next
    case True
    let ?n = "min (min (?bs - off mod ?bs) len) (?sz - off)"
    have n: "0 < ?n" using True bs by (simp add: mod_less_divisor)
    have ib: "(off + i) div ?bs = off div ?bs \<and> (off + i) mod ?bs = off mod ?bs + i" if "i < ?n" for i
    proof -
      have "off mod ?bs + i < ?bs" using that by linarith
      then show ?thesis using in_block by blast
    qed
    let ?top = "min (off + len) ?sz"
    have top: "off + ?n \<le> ?top" using True by auto
    have hb: "has_block m fs inp i" if "i \<in> set [off..<off + ?n]" for i
    proof -
      have i: "off \<le> i" "i < off + ?n" using that by (simp_all only: set_upt atLeastLessThan_iff)
      then have "i - off < ?n" by linarith
      then show ?thesis using ib [of "i - off"] True i(1) by (simp add: has_block_def)
    qed
    have split: "[off..<?top] = [off..<off + ?n] @ [off + ?n..<?top]"
      by (rule upt_split [OF le_add1 top])
    have bm: "map (byte_of m fs inp) [off..<off + ?n] =
        map (\<lambda>i. m (ext2_read_block fs (block_of m fs inp (off div ?bs)) + of_nat (off mod ?bs + i))) [0..<?n]"
      using ib by (simp only: upt_shift map_map) (simp add: byte_of_def Let_def)
    have "min (off + ?n + (len - ?n)) ?sz = ?top" by simp
    then have IH: "ext2_read_inode_data m fs inp (off + ?n) (len - ?n) =
        Inr (map (byte_of m fs inp) (takeWhile (has_block m fs inp) [off + ?n..<?top]))"
      using less.IH [of "len - ?n" "off + ?n"] n True by simp
    have "ext2_read_inode_data m fs inp off len =
        kbind (ext2_read_inode_data m fs inp (off + ?n) (len - ?n)) (\<lambda>rest.
          Inr (map (\<lambda>i. m (ext2_read_block fs (block_of m fs inp (off div ?bs)) + of_nat (off mod ?bs + i))) [0..<?n] @ rest))"
      using True bs by (subst ext2_read_inode_data.simps) (simp add: Let_def has_block_def)
    also have "\<dots> = Inr (map (byte_of m fs inp) ([off..<off + ?n] @ takeWhile (has_block m fs inp) [off + ?n..<?top]))"
      unfolding IH by (simp only: kbind_simps map_append bm)
    also have "[off..<off + ?n] @ takeWhile (has_block m fs inp) [off + ?n..<?top] = takeWhile (has_block m fs inp) [off..<?top]"
      unfolding split by (rule takeWhile_append2 [symmetric]) (rule hb)
    finally show ?thesis .
  qed
qed

section \<open>Directory entries as the disk has them\<close>

record dir_entry =
  de_inode :: u32
  de_rec_len :: u16
  de_type :: u8
  de_name :: string
  de_pad :: "u8 list"      \<comment> \<open>up to the next entry\<close>

definition le16 :: "u16 \<Rightarrow> u8 list" where
  "le16 x = [ucast x, ucast (drop_bit 8 x)]"

definition le32 :: "u32 \<Rightarrow> u8 list" where
  "le32 x = le16 (ucast x) @ le16 (ucast (drop_bit 16 x))"

definition entry_bytes :: "dir_entry \<Rightarrow> u8 list" where
  "entry_bytes d = le32 (de_inode d) @ le16 (de_rec_len d) @ [of_nat (length (de_name d)), de_type d]
     @ map char_u8 (de_name d) @ de_pad d"

definition entry_ok :: "dir_entry \<Rightarrow> bool" where
  "entry_ok d \<longleftrightarrow> length (de_name d) \<le> 255 \<and> NULc \<notin> set (de_name d)
     \<and> unat (de_rec_len d) = 8 + length (de_name d) + length (de_pad d)"

lemma drop_eq_Cons:
  assumes "drop i xs = y # ys"
  shows "i < length xs" "xs ! i = y" "drop (Suc i) xs = ys"
proof -
  show "i < length xs" using assms by (cases "i < length xs") auto
  with assms show "xs ! i = y" "drop (Suc i) xs = ys" by (simp_all add: Cons_nth_drop_Suc [symmetric])
qed

lemma le16_join: "ucast (ucast x :: u8) OR push_bit 8 (ucast (ucast (drop_bit 8 x) :: u8)) = (x :: u16)"
  by (rule bit_eqI) (auto simp: bit_simps)

lemma le32_join: "ucast (ucast x :: u16) OR push_bit 16 (ucast (ucast (drop_bit 16 x) :: u16)) = (x :: u32)"
  by (rule bit_eqI) (auto simp: bit_simps)

lemma unat_char_u8: "unat (char_u8 c) = of_char c"
proof -
  have "(of_char c :: nat) < 256" by (cases c) simp
  then show ?thesis by (simp add: char_u8_def unat_of_nat)
qed

lemma char_u8_inj [simp]: "char_u8 c = char_u8 d \<longleftrightarrow> c = d"
  using unat_char_u8 [of c] unat_char_u8 [of d] by (metis of_char_eq_iff)

lemma names_agree_eq:
  assumes "drop (p + i) b = map char_u8 en @ r" "NULc \<notin> set en" "drop i nm = n' @ [NULc]"
  shows "names_agree b p nm i (length en) = Inr (take (length en) n' = en)"
  using assms
proof (induction en arbitrary: i n')
  case (Cons c en)
  have b: "p + i < length b" "b ! (p + i) = char_u8 c" "drop (p + Suc i) b = map char_u8 en @ r"
    using Cons.prems(1) by (auto simp: drop_eq_Cons)
  show ?case
  proof (cases n')
    case Nil
    then have "i < length nm" "nm ! i = NULc"
      using Cons.prems(3) by (auto simp: drop_eq_Cons)
    with b Nil Cons.prems(2) show ?thesis by (auto simp: buf_at_def name_at_def)
  next
    case (Cons d n'')
    then have n: "i < length nm" "nm ! i = d" "drop (Suc i) nm = n'' @ [NULc]"
      using Cons.prems(3) by (auto simp: drop_eq_Cons)
    have "names_agree b p nm (Suc i) (length en) = Inr (take (length en) n'' = en)"
      using Cons.IH [OF b(3) _ n(3)] Cons.prems(2) by simp
    with b n Cons show ?thesis by (auto simp: buf_at_def name_at_def)
  qed
qed simp

lemma buf_at_drop: "drop p b = xs @ r \<Longrightarrow> i < length xs \<Longrightarrow> buf_at b (p + i) = Inr (xs ! i)"
proof -
  assume d: "drop p b = xs @ r" and i: "i < length xs"
  then have "length xs \<le> length b - p" by (metis length_drop length_append le_add1)
  then have "p + i < length b" using i by linarith
  moreover have "b ! (p + i) = xs ! i"
    using d i calculation by (metis nth_append nth_drop order_less_imp_le add_leE)
  ultimately show ?thesis by (simp add: buf_at_def)
qed

lemma entry_fields:
  assumes "drop p b = entry_bytes d @ r" "entry_ok d"
  shows "buf32 b p = Inr (de_inode d)" "buf16 b (p + 4) = Inr (de_rec_len d)"
    "buf_at b (p + 6) = Inr (of_nat (length (de_name d)))"
    "drop (p + 8) b = map char_u8 (de_name d) @ de_pad d @ r"
    "drop (p + unat (de_rec_len d)) b = r" "p < length b"
proof -
  have e: "drop p b = [ucast (ucast (de_inode d) :: u16), ucast (drop_bit 8 (ucast (de_inode d) :: u16)),
      ucast (ucast (drop_bit 16 (de_inode d)) :: u16), ucast (drop_bit 8 (ucast (drop_bit 16 (de_inode d)) :: u16)),
      ucast (de_rec_len d), ucast (drop_bit 8 (de_rec_len d)), of_nat (length (de_name d)), de_type d]
      @ map char_u8 (de_name d) @ de_pad d @ r" (is "_ = ?h @ _")
    using assms(1) by (simp add: entry_bytes_def le32_def le16_def)
  have h: "i < 8 \<Longrightarrow> buf_at b (i + p) = Inr (?h ! i)" for i
    using buf_at_drop [OF e, of i] by (simp add: add.commute)
  show "buf16 b (p + 4) = Inr (de_rec_len d)"
    using h [of 4] h [of 5] by (simp add: buf16_def le16_join add.commute [of p])
  have lo: "buf16 b p = Inr (ucast (de_inode d))"
    using h [of 0] h [of 1] by (simp add: buf16_def le16_join)
  have "buf16 b (p + 2) = Inr (ucast (drop_bit 16 (de_inode d)))"
    using h [of 2] h [of 3] by (simp add: buf16_def le16_join numeral_3_eq_3)
  with lo show "buf32 b p = Inr (de_inode d)"
    by (simp add: buf32_def le32_join)
  show "buf_at b (p + 6) = Inr (of_nat (length (de_name d)))"
    using h [of 6] by (simp add: add.commute [of p])
  show "drop (p + 8) b = map char_u8 (de_name d) @ de_pad d @ r"
    using e by (simp add: add.commute [of p] drop_drop [symmetric] del: drop_drop)
  have "unat (de_rec_len d) = length (entry_bytes d)"
    using assms(2) by (simp add: entry_ok_def entry_bytes_def le32_def le16_def)
  then show "drop (p + unat (de_rec_len d)) b = r"
    using assms(1) by (simp add: add.commute [of p] drop_drop [symmetric] del: drop_drop)
  show "p < length b"
    using e by (cases "p < length b") auto
qed

lemma entry_scan:
  assumes d: "drop p b = entry_bytes d @ r" "entry_ok d" and nm: "NULc \<notin> set nm" "nm \<noteq> []"
  shows "dir_scan b p (nm @ [NULc]) =
    (if de_inode d \<noteq> 0 \<and> de_name d = nm then Inr (Some (de_inode d))
     else dir_scan b (p + unat (de_rec_len d)) (nm @ [NULc]))"
proof -
  let ?n = "de_name d"
  note f = entry_fields [OF d]
  have l: "length ?n \<le> 255" "NULc \<notin> set ?n" "de_rec_len d \<noteq> 0"
    using d(2) by (auto simp: entry_ok_def)
  have u: "unat (of_nat (length ?n) :: u8) = length ?n"
    using l(1) by (simp add: unat_of_nat)
  have a: "names_agree b (p + 8) (nm @ [NULc]) 0 (length ?n) = Inr (take (length ?n) nm = ?n)"
    using names_agree_eq [of "p + 8" 0 b ?n "de_pad d @ r" "nm @ [NULc]" nm] f(4) l(2) by simp
  have m: "(name_at (nm @ [NULc]) (length ?n) = Inr NULc \<longleftrightarrow> ?n = nm)
      \<and> (\<exists>c. name_at (nm @ [NULc]) (length ?n) = Inr c)" if "take (length ?n) nm = ?n"
  proof -
    have le: "length ?n \<le> length nm"
      using that by (metis length_take min.cobounded1)
    show ?thesis
    proof (cases "length ?n = length nm")
      case True
      then show ?thesis using that by (simp add: name_at_def nth_append)
    next
      case False
      then have lt: "length ?n < length nm" using le by simp
      then have "nm ! length ?n \<noteq> NULc" "?n \<noteq> nm" using nm(1) nth_mem by (metis, auto)
      with lt show ?thesis by (simp add: name_at_def nth_append)
    qed
  qed
  show ?thesis
  proof (cases "de_inode d \<noteq> 0 \<and> 0 < length ?n \<and> take (length ?n) nm = ?n")
    case True
    then obtain c where c: "name_at (nm @ [NULc]) (length ?n) = Inr c" "c = NULc \<longleftrightarrow> ?n = nm"
      using m by auto
    show ?thesis
      using True c a f(1,2,3,6) l u by (subst dir_scan.simps) (simp add: Let_def)
  next
    case False
    then have ne: "\<not> (de_inode d \<noteq> 0 \<and> ?n = nm)" using nm(2) by auto
    show ?thesis
      using False ne a f(1,2,3,6) l u by (subst dir_scan.simps) (auto simp: Let_def)
  qed
qed

lemma dir_scan_entries:
  assumes "drop p b = concat (map entry_bytes ds)" "\<forall>d \<in> set ds. entry_ok d" "NULc \<notin> set nm" "nm \<noteq> []"
  shows "dir_scan b p (nm @ [NULc]) = Inr (map_option de_inode (find (\<lambda>d. de_inode d \<noteq> 0 \<and> de_name d = nm) ds))"
  using assms
proof (induction ds arbitrary: p)
  case Nil
  then show ?case by (subst dir_scan.simps) simp
next
  case (Cons d ds)
  have d: "drop p b = entry_bytes d @ concat (map entry_bytes ds)" "entry_ok d"
    using Cons.prems by simp_all
  show ?case
    using entry_scan [OF d Cons.prems(3,4)] Cons.IH [OF entry_fields(5) [OF d]] Cons.prems by simp
qed

text \<open>The blocks of a directory: block \<open>k\<close> holds the entries \<open>ds ! k\<close>, and none is missing.\<close>

definition dir_blocks :: "image \<Rightarrow> ext2_fs \<Rightarrow> u64 \<Rightarrow> dir_entry list list \<Rightarrow> bool" where
  "dir_blocks m fs inp ds \<longleftrightarrow>
     (let bs = unat (e_block_size fs)
      in 0 < bs \<and> bs \<le> 4096 \<and> unat (ei_size m inp) = length ds * bs \<and>
         (\<forall>k < length ds. block_of m fs inp k \<noteq> 0 \<and> (\<forall>d \<in> set (ds ! k). entry_ok d) \<and>
            map (byte_of m fs inp) [k * bs..<k * bs + bs] = concat (map entry_bytes (ds ! k))))"

lemma dir_block_read:
  assumes "dir_blocks m fs inp ds" "k < length ds"
  defines "bs \<equiv> unat (e_block_size fs)"
  shows "ext2_read_inode_data m fs inp (k * bs) (min bs 4096) = Inr (concat (map entry_bytes (ds ! k)))"
    "length (concat (map entry_bytes (ds ! k))) = bs"
proof -
  have bs: "0 < bs" "bs \<le> 4096" "unat (ei_size m inp) = length ds * bs" "block_of m fs inp k \<noteq> 0"
    and b: "map (byte_of m fs inp) [k * bs..<k * bs + bs] = concat (map entry_bytes (ds ! k))"
    using assms by (auto simp: dir_blocks_def Let_def)
  have "Suc k * bs \<le> length ds * bs" using assms(2) by (intro mult_le_mono1) simp
  then have top: "min (k * bs + bs) (unat (ei_size m inp)) = k * bs + bs"
    using bs(3) by simp
  have "has_block m fs inp i" if "i \<in> set [k * bs..<k * bs + bs]" for i
  proof -
    have i: "k * bs \<le> i" "i < Suc k * bs" using that by auto
    then have "i div bs = k" by (intro div_nat_eqI) (simp_all add: mult.commute)
    then show ?thesis using bs(4) by (simp add: has_block_def bs_def)
  qed
  then have tw: "takeWhile (has_block m fs inp) [k * bs..<k * bs + bs] = [k * bs..<k * bs + bs]"
    by (simp add: takeWhile_eq_all_conv)
  have "e_block_size fs \<noteq> 0" using bs(1) by (auto simp: bs_def)
  from read_data_eq [OF this, of m inp "k * bs" bs]
  show "ext2_read_inode_data m fs inp (k * bs) (min bs 4096) = Inr (concat (map entry_bytes (ds ! k)))"
    unfolding top tw b min_absorb1 [OF bs(2)] .
  show "length (concat (map entry_bytes (ds ! k))) = bs"
    unfolding b [symmetric] by simp
qed

lemma find_append: "find P (xs @ ys) = (case find P xs of None \<Rightarrow> find P ys | Some x \<Rightarrow> Some x)"
  by (induction xs) auto

lemma dir_find_entries:
  assumes "dir_blocks m fs inp ds" "NULc \<notin> set nm" "nm \<noteq> []" "k \<le> length ds"
  shows "dir_find m fs inp (k * unat (e_block_size fs)) (nm @ [NULc]) =
    Inr (map_option de_inode (find (\<lambda>d. de_inode d \<noteq> 0 \<and> de_name d = nm) (concat (drop k ds))))"
  using assms(4)
proof (induction "length ds - k" arbitrary: k)
  case 0
  then have "unat (ei_size m inp) = k * unat (e_block_size fs)"
    using assms(1) by (simp add: dir_blocks_def Let_def)
  with 0 show ?case by (subst dir_find.simps) simp
next
  case (Suc n)
  let ?bs = "unat (e_block_size fs)" and ?P = "\<lambda>d. de_inode d \<noteq> 0 \<and> de_name d = nm"
  have k: "k < length ds" using Suc by simp
  let ?b = "concat (map entry_bytes (ds ! k))"
  have bs: "0 < ?bs" "unat (ei_size m inp) = length ds * ?bs" "\<forall>d \<in> set (ds ! k). entry_ok d"
    using assms(1) k by (auto simp: dir_blocks_def Let_def)
  note r = dir_block_read [OF assms(1) k]
  have lt: "k * ?bs < unat (ei_size m inp)" using bs k by simp
  have ne: "?b \<noteq> []" using r(2) bs(1) by (metis list.size(3) less_irrefl)
  have sc: "dir_scan ?b 0 (nm @ [NULc]) = Inr (map_option de_inode (find ?P (ds ! k)))"
    using dir_scan_entries [of 0 ?b "ds ! k" nm] bs(3) assms(2,3) by simp
  have IH: "dir_find m fs inp (k * ?bs + length ?b) (nm @ [NULc]) =
      Inr (map_option de_inode (find ?P (concat (drop (Suc k) ds))))"
    using Suc.hyps(1) [of "Suc k"] Suc.hyps(2) k r(2) by (simp add: add.commute)
  have dr: "concat (drop k ds) = ds ! k @ concat (drop (Suc k) ds)"
    using k by (simp add: Cons_nth_drop_Suc [symmetric])
  show ?case
    using lt ne sc IH r(1) dr
    by (subst dir_find.simps) (auto simp: find_append split: option.split)
qed

section \<open>Properties\<close>


text \<open>
  Looking a name up in an ext2 directory whose blocks are sequences of well-formed entries
  finds the first entry in use with exactly that name, in whatever block it stands: the inode
  built for it carries its number and the attributes stored for that number. If there is none,
  the result is the null pointer and the state is unchanged.
\<close>

theorem ext2_lookup_finds:
  fixes s :: "'a fs_state_scheme" and dir :: nat
  assumes "dir \<noteq> 0" "NULc \<notin> set nm" "nm \<noteq> []"
  defines "d \<equiv> inode_at s dir" and "m \<equiv> disk_mem s"
  defines "fs \<equiv> ext2_at s (s_fs_data (sb_at s (i_sb d)))" and "inp \<equiv> (of_nat (fs_data d) :: u64)"
  assumes "inp \<noteq> 0" "ei_mode m inp AND EXT2_S_IFDIR \<noteq> 0" "dir_blocks m fs inp ds"
  shows "case find (\<lambda>e. de_inode e \<noteq> 0 \<and> de_name e = nm) (concat ds) of
      None \<Rightarrow> ext2_lookup dir (nm @ [NULc]) s = Inr (0, s)
    | Some e \<Rightarrow> (\<forall>v s' ei. ext2_lookup dir (nm @ [NULc]) s = Inr (v, s') \<and> ext2_get_inode m fs (de_inode e) = Inr ei \<longrightarrow>
        v \<noteq> 0 \<and> inode_at s' = (inode_at s)(v := inode_at s' v) \<and> ino (inode_at s' v) = ucast (de_inode e)
        \<and> i_size (inode_at s' v) = ucast (ei_size m ei) \<and> mode (inode_at s' v) = ucast (ei_mode m ei)
        \<and> fs_data (inode_at s' v) = unat ei \<and> i_sb (inode_at s' v) = i_sb d)"
proof -
  have f: "dir_find m fs inp 0 (nm @ [NULc]) =
      Inr (map_option de_inode (find (\<lambda>e. de_inode e \<noteq> 0 \<and> de_name e = nm) (concat ds)))"
    using dir_find_entries [OF assms(10) assms(2,3), of 0] by simp
  show ?thesis
  proof (cases "find (\<lambda>e. de_inode e \<noteq> 0 \<and> de_name e = nm) (concat ds)")
    case None
    then show ?thesis
      using f assms(1,8,9) by (simp add: ext2_lookup_def get_inode_def Let_def d_def m_def fs_def inp_def)
  next
    case (Some e)
    have "inode_at s' = (inode_at s)(v := inode_at s' v) \<and> v \<noteq> 0 \<and> ino (inode_at s' v) = ucast (de_inode e)
        \<and> i_size (inode_at s' v) = ucast (ei_size m ei) \<and> mode (inode_at s' v) = ucast (ei_mode m ei)
        \<and> fs_data (inode_at s' v) = unat ei \<and> i_sb (inode_at s' v) = i_sb d"
      if l: "ext2_lookup dir (nm @ [NULc]) s = Inr (v, s')" and g: "ext2_get_inode m fs (de_inode e) = Inr ei" for v s' ei
    proof -
      obtain s1 where k: "kz SZ_INODE s = Inr (v, s1)" and s': "set_inode v (\<lambda>_. inode_zero\<lparr>ino := ucast (de_inode e),
          mode := ucast (ei_mode m ei), i_size := ucast (ei_size m ei), uid := ucast (ei_uid m ei), gid := ucast (ei_gid m ei),
          mtime := ucast (ei_mtime m ei), nlink := ucast (ei_links m ei), i_sb := i_sb d, i_ops := i_ops d,
          i_fops := Some Ext2_file_ops, fs_data := unat ei\<rparr>) s1 = Inr s'"
        using l g Some f assms(1,8,9)
        by (auto simp: ext2_lookup_def get_inode_def Let_def d_def m_def fs_def inp_def)
      show ?thesis
        using s' kz_fs [OF k] by (auto simp: set_inode_def inode_zero_def split: if_splits)
    qed
    with Some show ?thesis by auto
  qed
qed

section \<open>A small image\<close>

text \<open>
  A file system of 16-byte blocks at address 0: the inode at address 64 is a directory of one
  block, block 8, which holds one entry, the file \<open>a\<close> with inode number 3.
\<close>

definition tiny_image :: image where
  "tiny_image = (\<lambda>_. 0)(65 := 0x40, 68 := 16, 104 := 8, 128 := 3, 132 := 16, 134 := 1, 136 := 97)"

definition tiny_fs :: ext2_fs where
  "tiny_fs = \<lparr>e_disk = 0, e_block_size = 16, e_inodes_per_group = 8, e_inode_size = 128, e_sb = []\<rparr>"

definition tiny_entry :: dir_entry where
  "tiny_entry = \<lparr>de_inode = 3, de_rec_len = 16, de_type = 0, de_name = ''a'', de_pad = [0, 0, 0, 0, 0, 0, 0]\<rparr>"

definition no_task_fs :: "fs_state" where
  "no_task_fs = sched.extend sched_bss (fs_state.fields (\<lambda>_. inode_zero) (\<lambda>_. dentry_zero) (\<lambda>_. file_zero) (\<lambda>_. pipe_zero)
     (\<lambda>_. \<lparr>s_root = 0, s_fs_data = 0, s_block_size = 0\<rparr>) (\<lambda>_. tiny_fs) (\<lambda>_. []) (\<lambda>_. 0) []
     (\<lambda>_. \<lparr>m_path = [], m_sb = 0, m_used = False\<rparr>) 0)"

text \<open>The inode at 10 is the directory, and the file at 20 has it open at offset 6.\<close>

definition tiny_state :: "fs_state" where
  "tiny_state = no_task_fs\<lparr>disk_mem := tiny_image,
     inode_at := (\<lambda>_. inode_zero)(10 := inode_zero\<lparr>fs_data := 64\<rparr>),
     file_at := (\<lambda>_. file_zero)(20 := file_zero\<lparr>f_inode := 10, f_offset := 6\<rparr>)\<rparr>"

lemma tiny_simps [simp]:
  "disk_mem tiny_state = tiny_image" "inode_at tiny_state 10 = inode_zero\<lparr>fs_data := 64\<rparr>"
  "file_at tiny_state 20 = file_zero\<lparr>f_inode := 10, f_offset := 6\<rparr>" "ext2_at tiny_state p = tiny_fs"
  by (simp_all add: tiny_state_def no_task_fs_def sched.defs fs_state.defs)

lemma tiny_block: "block_of tiny_image tiny_fs 64 0 = 8"
  by (simp add: block_of_def ei_block_def rd32_def rd16_def tiny_image_def)

lemma tiny_size: "ei_size tiny_image 64 = 16" and tiny_mode: "ei_mode tiny_image 64 = 0x4000"
  by (simp_all add: ei_size_def ei_mode_def rd32_def rd16_def tiny_image_def push_bit_eq_mult)

lemma tiny_byte: "i < 16 \<Longrightarrow> byte_of tiny_image tiny_fs 64 i = tiny_image (128 + of_nat i)"
  using tiny_block by (simp add: byte_of_def ext2_read_block_def tiny_fs_def)

lemma tiny_has: "i < 16 \<Longrightarrow> has_block tiny_image tiny_fs 64 i"
  using tiny_block by (simp add: has_block_def tiny_fs_def)

lemma tiny_dir: "dir_blocks tiny_image tiny_fs 64 [[tiny_entry]]"
proof -
  have "map (byte_of tiny_image tiny_fs 64) [0..<16] = map (\<lambda>i. tiny_image (128 + of_nat i)) [0..<16]"
    using tiny_byte by simp
  also have "\<dots> = entry_bytes tiny_entry"
    by (simp add: upt_rec tiny_image_def entry_bytes_def tiny_entry_def le32_def le16_def char_u8_def)
  finally show ?thesis
    using tiny_block by (simp add: dir_blocks_def tiny_size entry_ok_def tiny_entry_def) (simp add: tiny_fs_def)
qed


theorem ext2_lookup_finds_witness:
  "ext2_lookup 10 (''b'' @ [NULc]) tiny_state = Inr (0, tiny_state)"
  using ext2_lookup_finds [of 10 "''b''" tiny_state "[[tiny_entry]]"] tiny_dir tiny_mode
  by (simp add: inode_zero_def EXT2_S_IFDIR_def) (simp add: tiny_entry_def)

lemma unat_ucast_u64: "unat (ucast (x :: u32) :: u64) = unat x"
proof -
  have "unat x < 2 ^ 32" using unsigned_less [of x] by simp
  then have "unat x < 2 ^ 64" by simp
  then show ?thesis
    by (simp only: unsigned_ucast_eq len_num0 len_bit0 len_num1 mult_2) (simp add: take_bit_nat_eq_self)
qed

lemma unat_add_small_1: "unat (y :: u64) + 1 < 2 ^ 64 \<Longrightarrow> unat (y + 1) = unat y + 1"
  by (simp add: unat_word_ariths)

lemma ucast_inc: "(x :: u32) + 1 \<noteq> 0 \<Longrightarrow> ucast (x + 1) = (ucast x + 1 :: u64)"
proof (rule word_unat_eq_iff [THEN iffD2])
  assume "x + 1 \<noteq> 0"
  then have "unat (x + 1) = unat x + 1"
    using unatSuc [of x] by (simp add: add.commute)
  moreover have "unat (ucast x + 1 :: u64) = unat x + 1"
  proof -
    have "unat x < 2 ^ 32" using unsigned_less [of x] by simp
    then have "unat (ucast x :: u64) + 1 < 2 ^ 64" unfolding unat_ucast_u64 by simp
    then have "unat (ucast x + 1 :: u64) = unat (ucast x :: u64) + 1"
      by (intro unat_add_small_1) simp
    then show ?thesis by (simp only: unat_ucast_u64)
  qed
  ultimately show "unat (ucast (x + 1) :: u64) = unat (ucast x + 1 :: u64)"
    by (simp only: unat_ucast_u64)
qed

text \<open>
  A file of more than 12 blocks plus one indirect block (268 blocks of 1024 bytes): the next
  block number is read from behind the indirect block, as the first word of the block that
  happens to follow it on the disk.
\<close>

theorem ext2_no_double_indirect:
  assumes "e_block_size fs = 1024" "ei_block m inp 12 + 1 \<noteq> 0"
  shows "block_of m fs inp 268 = rd32 m (ext2_read_block fs (ei_block m inp 12 + 1))"
proof -
  have "ucast (ei_block m inp 12 + 1) * (1024 :: u64) = ucast (ei_block m inp 12) * 1024 + 1024"
    unfolding ucast_inc [OF assms(2)] by (simp add: distrib_right)
  then show ?thesis
    using assms(1) by (simp add: block_of_def ext2_read_block_def add.assoc)
qed

end
