(* ===== verification/Procfs.thy ===== *)
theory Procfs
  imports Fs_Objects
begin

text \<open>
  The proc file system, \<^verbatim>\<open>src/kernel/fs/procfs.c\<close>. Each entry is a text that is built when the
  entry is looked up; the filled part of the 4096-byte buffer is a string, and appending to the
  buffer appends to the string. The objects of the mount are static: their addresses are
  constants below the heap. The interface \<open>sequential_file\<close> says what a reader of such a file
  relies on.
\<close>

section \<open>Building the texts\<close>

function u64_digits :: "u64 \<Rightarrow> string" where
  "u64_digits v = (if v \<noteq> 0 then char_of (48 + unat (v mod 10)) # u64_digits (v div 10) else [])"
  by pat_completeness auto
termination
  by (relation "measure unat") (auto simp: unat_div_distrib unat_gt_0)

declare u64_digits.simps [simp del]

definition u64_to_str :: "u64 \<Rightarrow> string" where
  "u64_to_str v = (if v = 0 then ''0'' else rev (u64_digits v))"

definition append_str :: "string \<Rightarrow> string \<Rightarrow> string" where
  "append_str b t = b @ t"

definition append_u64 :: "string \<Rightarrow> u64 \<Rightarrow> string" where
  "append_u64 b v = b @ u64_to_str v"

definition nl :: char where "nl = CHR 0x0A"
definition tab :: char where "tab = CHR 0x09"

definition fill_version :: "'a fs_state_scheme \<Rightarrow> string" where
  "fill_version s = ''EmberKernel 0.1.0 (PhoenixOS 0.0.2) (x86_64-elf-gcc) #1 SMP'' @ [nl]"

definition fill_meminfo :: "'a fs_state_scheme \<Rightarrow> string" where
  "fill_meminfo s =
     (let total = total_pages s; free = free_pages s; in_use_pages = total - free; page_kb = PAGE_SIZE div 1024;
          p = append_str [] ''MemTotal:       '';
          p = append_u64 p (total * page_kb);
          p = append_str p ('' kB'' @ [nl]);
          p = append_str p ''MemFree:        '';
          p = append_u64 p (free * page_kb);
          p = append_str p ('' kB'' @ [nl]);
          p = append_str p ''MemUsed:        '';
          p = append_u64 p (in_use_pages * page_kb);
          p = append_str p ('' kB'' @ [nl]);
          p = append_str p ''PageSize:       '';
          p = append_u64 p PAGE_SIZE
      in append_str p ('' B'' @ [nl]))"

definition fill_uptime :: "'a fs_state_scheme \<Rightarrow> string" where
  "fill_uptime s =
     (let secs = timer_ticks s div 100;
          p = append_u64 [] secs;
          p = append_str p ''.00 '';
          p = append_u64 p secs
      in append_str p (''.00'' @ [nl]))"

definition fill_cpuinfo :: "'a fs_state_scheme \<Rightarrow> string" where
  "fill_cpuinfo s =
     (let p = append_str [] (''processor'' @ [tab] @ '': 0'' @ [nl]);
          p = append_str p (''vendor_id'' @ [tab] @ '': PhoenixOS x86_64'' @ [nl]);
          p = append_str p (''model name'' @ [tab] @ '': EmberKernel Virtual CPU'' @ [nl]);
          p = append_str p (''arch'' @ [tab, tab] @ '': x86_64'' @ [nl])
      in append_str p (''bogomips'' @ [tab] @ '': 1000.00'' @ [nl]))"

definition fill_mounts :: "'a fs_state_scheme \<Rightarrow> string" where
  "fill_mounts s =
     (let p = append_str [] (''proc /proc procfs rw 0 0'' @ [nl])
      in append_str p (''ext2 / ext2 rw 0 1'' @ [nl]))"

definition PROC_BUF_SZ :: nat where [kconst]: "PROC_BUF_SZ = 4096"

definition proc_entries :: "(string \<times> ('a fs_state_scheme \<Rightarrow> string)) list" where
  "proc_entries = [(''version'', fill_version), (''meminfo'', fill_meminfo), (''uptime'', fill_uptime),
     (''cpuinfo'', fill_cpuinfo), (''mounts'', fill_mounts)]"

section \<open>Files\<close>

definition str_bytes :: "string \<Rightarrow> u8 list" where
  "str_bytes t = map (\<lambda>c. of_nat (of_char c)) t"

definition procfs_read :: "nat \<Rightarrow> nat \<Rightarrow> 'a fs_state_scheme \<Rightarrow> kstop + (int \<times> u8 list \<times> 'a fs_state_scheme)" where
  "procfs_read f len s =
     kbind (get_inode (f_inode (file_at s f)) s) (\<lambda>i.
     if fs_data i = 0 then Inr (- EBADF, [], s)
     else
       (let t = proc_at s (fs_data i); off = unat (f_offset (file_at s f))
        in if off \<ge> length t then Inr (0, [], s)
           else
             (let avail = length t - off; n = (if avail < len then avail else len)
              in kbind (set_file f (\<lambda>x. x\<lparr>f_offset := f_offset x + of_nat n\<rparr>) s) (\<lambda>s1.
                 Inr (int n, str_bytes (take n (drop off t)), s1)))))"

text \<open>The C string in an array: up to its terminating zero.\<close>

definition cstr :: "string \<Rightarrow> string" where
  "cstr s = takeWhile (\<lambda>c. c \<noteq> NULc) s"

fun proc_index :: "nat \<Rightarrow> (string \<times> 'b) list \<Rightarrow> string \<Rightarrow> (nat \<times> 'b) option" where
  "proc_index i [] nm = None"
| "proc_index i ((n, f) # es) nm = (if n = cstr nm then Some (i, f) else proc_index (i + 1) es nm)"

definition procfs_lookup :: "nat \<Rightarrow> string \<Rightarrow> 'a fs_state_scheme \<Rightarrow> kstop + (nat \<times> 'a fs_state_scheme)" where
  "procfs_lookup dir nm s =
     (case proc_index 0 proc_entries nm of
        None \<Rightarrow> Inr (0, s)
      | Some (i, fill) \<Rightarrow>
          kbind (kz SZ_INODE s) (\<lambda>(p, s1).
          if p = 0 then Inr (0, s1)
          else
            kbind (set_inode p (\<lambda>_. inode_zero\<lparr>ino := of_nat (i + 1), mode := S_IFREG OR 0x124, i_fops := Some Procfs_fops\<rparr>) s1) (\<lambda>s2.
            kbind (kz SZ_PROC_DATA s2) (\<lambda>(fd, s3).
            if fd = 0 then kbind (kfree p s3) (\<lambda>s4. Inr (0, s4))
            else
              (let t = fill s3; s4 = s3\<lparr>proc_at := (proc_at s3)(fd := t)\<rparr>
               in kbind (set_inode p (\<lambda>x. x\<lparr>i_size := of_nat (length t), fs_data := fd\<rparr>) s4) (\<lambda>s5. Inr (p, s5)))))))"

section \<open>Mounting\<close>

definition PROCFS_ROOT_INODE :: nat where [kconst]: "PROCFS_ROOT_INODE = 16"
definition PROCFS_ROOT_DENTRY :: nat where [kconst]: "PROCFS_ROOT_DENTRY = 32"
definition PROCFS_SB :: nat where [kconst]: "PROCFS_SB = 48"

definition procfs_mount :: "'a fs_state_scheme \<Rightarrow> nat \<times> 'a fs_state_scheme" where
  "procfs_mount s =
     (let ri = PROCFS_ROOT_INODE; rd = PROCFS_ROOT_DENTRY; sp = PROCFS_SB
      in (sp, s\<lparr>inode_at := (inode_at s)(ri := (inode_at s ri)\<lparr>ino := 0, mode := S_IFDIR OR 0x16D,
                   i_ops := Some Procfs_inode_ops, i_fops := None\<rparr>),
                dentry_at := (dentry_at s)(rd := \<lparr>d_name = ''/'', d_inode = ri, d_parent = 0, d_children = 0, d_next = 0\<rparr>),
                sb_at := (sb_at s)(sp := \<lparr>s_root = rd, s_fs_data = 0, s_block_size = ucast PAGE_SIZE\<rparr>)\<rparr>))"

section \<open>Files read in sequence\<close>

text \<open>
  What a reader relies on: the contents do not change, a read returns what is left at the
  position, at most what was asked for, and moves the position by as much.
\<close>

locale sequential_file =
  fixes rd :: "nat \<Rightarrow> 's \<Rightarrow> kstop + (int \<times> u8 list \<times> 's)"
    and content :: "'s \<Rightarrow> u8 list"
    and pos :: "'s \<Rightarrow> nat"
    and ok :: "'s \<Rightarrow> bool"
  assumes rd_ok: "ok s \<Longrightarrow> \<exists>s'. rd len s = Inr (int (length (take len (drop (pos s) (content s)))),
        take len (drop (pos s) (content s)), s')
      \<and> ok s' \<and> content s' = content s \<and> pos s' = pos s + length (take len (drop (pos s) (content s)))"
begin

text \<open>Reads of the given sizes, one after the other.\<close>

fun reads :: "nat list \<Rightarrow> 's \<Rightarrow> kstop + (u8 list \<times> 's)" where
  "reads [] s = Inr ([], s)"
| "reads (n # ns) s = kbind (rd n s) (\<lambda>(r, d, s1). kbind (reads ns s1) (\<lambda>(ds, s2). Inr (d @ ds, s2)))"

lemma reads_content:
  "ok s \<Longrightarrow> \<exists>s'. reads ns s = Inr (take (sum_list ns) (drop (pos s) (content s)), s') \<and> ok s' \<and> content s' = content s"
proof (induction ns arbitrary: s)
  case (Cons n ns)
  let ?d = "take n (drop (pos s) (content s))"
  obtain s1 where r: "rd n s = Inr (int (length ?d), ?d, s1)" "ok s1" "content s1 = content s" "pos s1 = pos s + length ?d"
    using rd_ok [OF Cons.prems, of n] by blast
  obtain s' where i: "reads ns s1 = Inr (take (sum_list ns) (drop (pos s1) (content s1)), s')" "ok s'" "content s' = content s1"
    using Cons.IH [OF r(2)] by blast
  have "?d @ take (sum_list ns) (drop (pos s1) (content s1)) = take (n + sum_list ns) (drop (pos s) (content s))"
    using r(3,4) by (cases "n \<le> length (drop (pos s) (content s))") (auto simp: take_add add.commute min_def)
  with r i show ?case by (auto simp: split_def)
qed simp

end

text \<open>An open proc file.\<close>

definition proc_file :: "nat \<Rightarrow> 'a fs_state_scheme \<Rightarrow> bool" where
  "proc_file f s \<longleftrightarrow> f \<noteq> 0 \<and> f_inode (file_at s f) \<noteq> 0 \<and> fs_data (inode_at s (f_inode (file_at s f))) \<noteq> 0
     \<and> unat (f_offset (file_at s f)) \<le> length (proc_at s (fs_data (inode_at s (f_inode (file_at s f)))))
     \<and> length (proc_at s (fs_data (inode_at s (f_inode (file_at s f))))) \<le> PROC_BUF_SZ"

definition proc_content :: "nat \<Rightarrow> 'a fs_state_scheme \<Rightarrow> u8 list" where
  "proc_content f s = str_bytes (proc_at s (fs_data (inode_at s (f_inode (file_at s f)))))"

definition file_pos :: "nat \<Rightarrow> 'a fs_state_scheme \<Rightarrow> nat" where
  "file_pos f s = unat (f_offset (file_at s f))"

interpretation pf: sequential_file "procfs_read f" "proc_content f" "file_pos f" "proc_file f" for f
proof unfold_locales
  fix s :: "'a fs_state_scheme" and len
  assume ok: "proc_file f s"
  let ?i = "f_inode (file_at s f)" and ?o = "unat (f_offset (file_at s f))"
  let ?t = "proc_at s (fs_data (inode_at s ?i))"
  let ?n = "min len (length ?t - ?o)"
  have f: "f \<noteq> 0" "?i \<noteq> 0" "fs_data (inode_at s ?i) \<noteq> 0" "?o \<le> length ?t" "length ?t \<le> 4096"
    using ok by (simp_all add: proc_file_def kconst)
  let ?s1 = "s\<lparr>file_at := (file_at s)(f := (file_at s f)\<lparr>f_offset := f_offset (file_at s f) + of_nat ?n\<rparr>)\<rparr>"
  have d: "take len (drop (file_pos f s) (proc_content f s)) = str_bytes (take ?n (drop ?o ?t))"
    by (simp add: file_pos_def proc_content_def str_bytes_def drop_map take_map min_def)
  have o: "unat (f_offset (file_at s f) + of_nat ?n) = ?o + ?n"
  proof -
    have "?o + ?n < 2 ^ 64" using f(4,5) by simp
    then show ?thesis by (simp add: unat_word_ariths unat_of_nat)
  qed
  show "\<exists>s'. procfs_read f len s = Inr (int (length (take len (drop (file_pos f s) (proc_content f s)))),
        take len (drop (file_pos f s) (proc_content f s)), s')
      \<and> proc_file f s' \<and> proc_content f s' = proc_content f s
      \<and> file_pos f s' = file_pos f s + length (take len (drop (file_pos f s) (proc_content f s)))"
  proof (cases "?o < length ?t")
    case True
    have "procfs_read f len s = Inr (int ?n, str_bytes (take ?n (drop ?o ?t)), ?s1)"
      using True f by (simp add: procfs_read_def get_inode_def set_file_def Let_def min_def)
    moreover have "length (str_bytes (take ?n (drop ?o ?t))) = ?n"
      by (simp add: str_bytes_def)
    moreover have "proc_file f ?s1" "proc_content f ?s1 = proc_content f s" "file_pos f ?s1 = file_pos f s + ?n"
      using f o True by (simp_all add: proc_file_def proc_content_def file_pos_def kconst)
    ultimately show ?thesis unfolding d by auto
  next
    case False
    then have "procfs_read f len s = Inr (0, [], s)"
      using f by (simp add: procfs_read_def get_inode_def Let_def)
    with False ok d show ?thesis by (auto simp: str_bytes_def)
  qed
qed

section \<open>The texts fit their buffers\<close>

lemma u64_digits_length: "unat v < 10 ^ k \<Longrightarrow> length (u64_digits v) \<le> k"
proof (induction k arbitrary: v)
  case 0
  then have "v = 0" by (simp add: unat_eq_zero)
  then show ?case by (subst u64_digits.simps) simp
next
  case (Suc k)
  have "unat (v div 10) < 10 ^ k"
    using Suc.prems by (simp add: unat_div_distrib less_mult_imp_div_less mult.commute)
  then have "length (u64_digits (v div 10)) \<le> k" by (rule Suc.IH)
  then show ?case by (subst u64_digits.simps) simp
qed

text \<open>At most 20 digits, for the 24 cells of \<open>tmp\<close>.\<close>

lemma u64_to_str_length: "length (u64_to_str v) \<le> 20"
proof -
  have "unat v < 10 ^ 20"
    using unsigned_less [of v] by (rule order.strict_trans) simp
  then show ?thesis
    using u64_digits_length [of v 20] by (simp add: u64_to_str_def)
qed

lemma proc_texts_fit: "(n, fill) \<in> set proc_entries \<Longrightarrow> length (fill s) \<le> PROC_BUF_SZ"
  using u64_to_str_length [of "total_pages s * (PAGE_SIZE div 1024)"] u64_to_str_length [of "free_pages s * (PAGE_SIZE div 1024)"]
    u64_to_str_length [of "(total_pages s - free_pages s) * (PAGE_SIZE div 1024)"] u64_to_str_length [of PAGE_SIZE]
    u64_to_str_length [of "timer_ticks s div 100"]
  by (auto simp: proc_entries_def fill_version_def fill_meminfo_def fill_uptime_def fill_cpuinfo_def fill_mounts_def
      append_str_def append_u64_def Let_def PROC_BUF_SZ_def)

lemma proc_index_mem: "proc_index i es nm = Some (j, f) \<Longrightarrow> (cstr nm, f) \<in> set es"
  by (induction i es nm rule: proc_index.induct) (auto split: if_splits)

text \<open>The digits are those of the number.\<close>

lemma u64_digits_itoa: "u64_digits v = itoa_digits 10 (unat v)"
proof (induction v rule: u64_digits.induct)
  case (1 v)
  have "digit_char (unat v mod 10) = char_of (48 + unat (v mod 10))"
    by (simp add: digit_char_def unat_mod_distrib)
  then show ?case
    using 1 by (subst u64_digits.simps, subst itoa_digits.simps) (auto simp: unat_div_distrib unat_gt_0)
qed

lemma u64_to_str_udigits: "u64_to_str v = udigits 10 (unat v)"
  by (simp add: u64_to_str_def udigits_def u64_digits_itoa unat_eq_zero)

section \<open>Properties\<close>

text \<open>
  A proc file shows the text built for its entry: looking the entry up makes an inode of
  that size on a text that fits the 4096-byte buffer; reading a file on it from the start, in
  pieces of any sizes, returns the text piece by piece without loss or repetition, and the
  empty read at the end; and the decimal numbers in the texts read back as the values printed.
\<close>

theorem proc_file_shows_text:
  fixes s s' :: "'a fs_state_scheme" and t :: "'b fs_state_scheme"
  shows
  "(procfs_lookup dir nm s = Inr (p, s') \<and> p \<noteq> 0 \<longrightarrow>
      (\<exists>i fill (s1 :: 'a fs_state_scheme). proc_index 0 proc_entries nm = Some (i, fill) \<and> timer_ticks s1 = timer_ticks s
         \<and> proc_at s' (fs_data (inode_at s' p)) = fill s1 \<and> fs_data (inode_at s' p) \<noteq> 0
         \<and> i_size (inode_at s' p) = of_nat (length (fill s1)) \<and> length (fill s1) \<le> PROC_BUF_SZ
         \<and> i_fops (inode_at s' p) = Some Procfs_fops))
   \<and> (proc_file f t \<and> file_pos f t = 0 \<longrightarrow>
      (\<exists>t'. sequential_file.reads (procfs_read f) ns t = Inr (take (sum_list ns) (proc_content f t), t')))
   \<and> strtol (u64_to_str v @ NULc # r) 10 = (int (unat v), NULc # r)"
proof (intro conjI impI)
  assume l: "procfs_lookup dir nm s = Inr (p, s') \<and> p \<noteq> 0"
  then obtain i and fill :: "'a fs_state_scheme \<Rightarrow> string" where pi: "proc_index 0 proc_entries nm = Some (i, fill)"
    by (auto simp: procfs_lookup_def split: option.splits)
  with l obtain s1 s2 fd s3 where k1: "kz SZ_INODE s = Inr (p, s1)"
    and s2: "s2 = s1\<lparr>inode_at := (inode_at s1)(p := inode_zero\<lparr>ino := of_nat (i + 1), mode := S_IFREG OR 0x124, i_fops := Some Procfs_fops\<rparr>)\<rparr>"
    and k2: "kz SZ_PROC_DATA s2 = Inr (fd, s3)" and fd: "fd \<noteq> 0"
    and s': "s' = s3\<lparr>proc_at := (proc_at s3)(fd := fill s3),
         inode_at := (inode_at s3)(p := (inode_at s3 p)\<lparr>i_size := of_nat (length (fill s3)), fs_data := fd\<rparr>)\<rparr>"
    by (auto simp: procfs_lookup_def set_inode_def Let_def split: if_splits)
  have "timer_ticks s3 = timer_ticks s"
    using kz_fs [OF k1] kz_fs [OF k2] by (simp add: s2)
  moreover have "inode_at s3 p = inode_zero\<lparr>ino := of_nat (i + 1), mode := S_IFREG OR 0x124, i_fops := Some Procfs_fops\<rparr>"
    using kz_fs [OF k2] by (simp add: s2)
  ultimately show "\<exists>i fill (s1 :: 'a fs_state_scheme). proc_index 0 proc_entries nm = Some (i, fill) \<and> timer_ticks s1 = timer_ticks s
         \<and> proc_at s' (fs_data (inode_at s' p)) = fill s1 \<and> fs_data (inode_at s' p) \<noteq> 0
         \<and> i_size (inode_at s' p) = of_nat (length (fill s1)) \<and> length (fill s1) \<le> PROC_BUF_SZ
         \<and> i_fops (inode_at s' p) = Some Procfs_fops"
    using pi fd proc_texts_fit [OF proc_index_mem [OF pi], of s3]
    by (intro exI [of _ i] exI [of _ fill] exI [of _ s3]) (simp add: s')
next
  assume "proc_file f t \<and> file_pos f t = 0"
  then show "\<exists>t'. sequential_file.reads (procfs_read f) ns t = Inr (take (sum_list ns) (proc_content f t), t')"
    using pf.reads_content [of f t ns] by auto
next
  show "strtol (u64_to_str v @ NULc # r) 10 = (int (unat v), NULc # r)"
    using strtol_udigits(1) [of 10 "unat v" r] by (simp add: u64_to_str_udigits)
qed

definition proc_state :: "fs_state" where
  "proc_state = sched.extend sched_bss (fs_state.fields ((\<lambda>_. inode_zero)(10 := inode_zero\<lparr>fs_data := 30\<rparr>)) (\<lambda>_. dentry_zero)
     ((\<lambda>_. file_zero)(20 := file_zero\<lparr>f_inode := 10\<rparr>)) (\<lambda>_. pipe_zero)
     (\<lambda>_. \<lparr>s_root = 0, s_fs_data = 0, s_block_size = 0\<rparr>)
     (\<lambda>_. \<lparr>e_disk = 0, e_block_size = 0, e_inodes_per_group = 0, e_inode_size = 0, e_sb = []\<rparr>)
     ((\<lambda>_. [])(30 := ''42.00'')) (\<lambda>_. 0) [] (\<lambda>_. \<lparr>m_path = [], m_sb = 0, m_used = False\<rparr>) 0)"

theorem proc_file_shows_text_witness:
  "\<exists>t'. sequential_file.reads (procfs_read 20) [2, 2] proc_state = Inr ([52, 50, 46, 48], t')"
proof -
  have s: "file_at proc_state 20 = file_zero\<lparr>f_inode := 10\<rparr>" "inode_at proc_state 10 = inode_zero\<lparr>fs_data := 30\<rparr>"
    "proc_at proc_state 30 = ''42.00''"
    by (simp_all add: proc_state_def sched.defs fs_state.defs)
  have "proc_file 20 proc_state \<and> file_pos 20 proc_state = 0" "proc_content 20 proc_state = [52, 50, 46, 48, 48]"
    by (simp_all add: proc_file_def file_pos_def proc_content_def s file_zero_def inode_zero_def kconst str_bytes_def)
  then show ?thesis
    using proc_file_shows_text [of 0 "[]" proc_state 0 proc_state 20 proc_state "[2, 2]" 0 "[]"] by simp
qed

end
