(* ===== verification/Vfs.thy ===== *)
theory Vfs
  imports Ext2 Procfs
begin

text \<open>
  The virtual file system, \<^verbatim>\<open>src/kernel/fs/vfs.c\<close>, and the creation of pipes, the second half of
  \<^verbatim>\<open>src/kernel/ipc/pipe.c\<close>. A path is a C string without its terminating zero, \<open>None\<close> the null
  pointer. The calls through \<open>file_ops\<close> and \<open>inode_ops\<close> are dispatched to the drivers' functions.
  A read or write that waits in a pipe is reported as \<open>Waiting\<close>. The walk along the children of a
  directory entry takes a bound on the number of steps.
\<close>

section \<open>Calls through the tables of the drivers\<close>

definition fs_name :: "filesystem \<Rightarrow> string" where
  "fs_name fs = (case fs of Ext2_fs \<Rightarrow> ''ext2'' | Procfs_fs \<Rightarrow> ''procfs'')"

definition fs_mount :: "filesystem \<Rightarrow> u64 \<Rightarrow> 'a fs_state_scheme \<Rightarrow> kstop + (nat \<times> 'a fs_state_scheme)" where
  "fs_mount fs device s = (case fs of Ext2_fs \<Rightarrow> ext2_mount device s | Procfs_fs \<Rightarrow> Inr (procfs_mount s))"

definition ops_lookup :: "inode_ops \<Rightarrow> nat \<Rightarrow> string \<Rightarrow> 'a fs_state_scheme \<Rightarrow> kstop + (nat \<times> 'a fs_state_scheme)" where
  "ops_lookup ops dir nm s = (case ops of Ext2_inode_ops \<Rightarrow> ext2_lookup dir nm s | Procfs_inode_ops \<Rightarrow> procfs_lookup dir nm s)"

text \<open>The pipe of a file: \<open>f->inode->fs_data\<close>.\<close>

definition file_pipe :: "nat \<Rightarrow> 'a fs_state_scheme \<Rightarrow> kstop + nat" where
  "file_pipe f s = kbind (get_inode (f_inode (file_at s f)) s) (\<lambda>i. Inr (fs_data i))"

definition pipe_ref :: "nat \<Rightarrow> 'a fs_state_scheme \<Rightarrow> pipe option" where
  "pipe_ref p s = (if p = 0 then None else Some (pipe_at s p))"

definition pipe_store :: "nat \<Rightarrow> pipe option \<Rightarrow> 'a fs_state_scheme \<Rightarrow> 'a fs_state_scheme" where
  "pipe_store p po s = (case po of None \<Rightarrow> s | Some x \<Rightarrow> s\<lparr>pipe_at := (pipe_at s)(p := x)\<rparr>)"

text \<open>The \<open>read\<close> member, where the table has one.\<close>

definition ops_read ::
    "file_ops \<Rightarrow> (nat \<Rightarrow> nat \<Rightarrow> 'a fs_state_scheme \<Rightarrow> kstop + (io_result \<times> u8 list \<times> 'a fs_state_scheme)) option" where
  "ops_read ops =
     (case ops of
        Pipe_read_ops \<Rightarrow> Some (\<lambda>f len s. kbind (file_pipe f s) (\<lambda>p.
          case pipe_read (pipe_ref p s) len of (r, d, po) \<Rightarrow> Inr (r, d, pipe_store p po s)))
      | Pipe_write_ops \<Rightarrow> None
      | Ext2_file_ops \<Rightarrow> Some (\<lambda>f len s. kbind (ext2_file_read f len s) (\<lambda>(n, d, s'). Inr (Returned n, d, s')))
      | Procfs_fops \<Rightarrow> Some (\<lambda>f len s. kbind (procfs_read f len s) (\<lambda>(n, d, s'). Inr (Returned n, d, s'))))"

definition ops_write ::
    "file_ops \<Rightarrow> (nat \<Rightarrow> u8 list \<Rightarrow> 'a fs_state_scheme \<Rightarrow> kstop + (io_result \<times> 'a fs_state_scheme)) option" where
  "ops_write ops =
     (case ops of
        Pipe_write_ops \<Rightarrow> Some (\<lambda>f d s. kbind (file_pipe f s) (\<lambda>p.
          case pipe_write (pipe_ref p s) d of (r, po) \<Rightarrow> Inr (r, pipe_store p po s)))
      | _ \<Rightarrow> None)"

definition ops_close :: "file_ops \<Rightarrow> (nat \<Rightarrow> 'a fs_state_scheme \<Rightarrow> kstop + 'a fs_state_scheme) option" where
  "ops_close ops =
     (case ops of
        Pipe_read_ops \<Rightarrow> Some (\<lambda>f s. kbind (file_pipe f s) (\<lambda>p. Inr (pipe_store p (snd (pipe_close_read (pipe_ref p s))) s)))
      | Pipe_write_ops \<Rightarrow> Some (\<lambda>f s. kbind (file_pipe f s) (\<lambda>p. Inr (pipe_store p (snd (pipe_close_write (pipe_ref p s))) s)))
      | _ \<Rightarrow> None)"

section \<open>Registering and mounting\<close>

definition MAX_MOUNTS :: nat where [kconst]: "MAX_MOUNTS = 16"

definition vfs_init :: "'a fs_state_scheme \<Rightarrow> 'a fs_state_scheme" where
  "vfs_init s = s\<lparr>mount_table := (\<lambda>i. if i < MAX_MOUNTS then (mount_table s i)\<lparr>m_used := False\<rparr> else mount_table s i)\<rparr>"

definition vfs_register_fs :: "filesystem \<Rightarrow> 'a fs_state_scheme \<Rightarrow> int \<times> 'a fs_state_scheme" where
  "vfs_register_fs fs s = (0, s\<lparr>fs_list := fs # fs_list s\<rparr>)"

text \<open>The comparison loop: the strings agree up to their ends.\<close>

fun names_equal :: "string \<Rightarrow> string \<Rightarrow> bool" where
  "names_equal [] [] = True"
| "names_equal (a # as) (b # bs) = (a = b \<and> names_equal as bs)"
| "names_equal _ _ = False"

fun free_slot :: "nat \<Rightarrow> nat \<Rightarrow> (nat \<Rightarrow> mount_entry) \<Rightarrow> nat option" where
  "free_slot 0 i m = None"
| "free_slot (Suc n) i m = (if \<not> m_used (m i) then Some i else free_slot n (Suc i) m)"

definition vfs_mount :: "string \<Rightarrow> string \<Rightarrow> u64 \<Rightarrow> 'a fs_state_scheme \<Rightarrow> kstop + (int \<times> 'a fs_state_scheme)" where
  "vfs_mount path fsname device s =
     (case find (\<lambda>fs. names_equal (fs_name fs) fsname) (fs_list s) of
        None \<Rightarrow> Inr (- ENODEV, s)
      | Some fs \<Rightarrow>
          (case free_slot MAX_MOUNTS 0 (mount_table s) of
             None \<Rightarrow> Inr (- ENOMEM, s)
           | Some i \<Rightarrow>
               kbind (fs_mount fs device s) (\<lambda>(sb, s1).
               if sb = 0 then Inr (- ENOMEM, s1)
               else
                 (let s2 = s1\<lparr>mount_table := (mount_table s1)(i := \<lparr>m_path = take (PATH_MAX - 1) path, m_sb = sb, m_used = True\<rparr>)\<rparr>
                  in Inr (0, if path = ''/'' then s2\<lparr>vfs_root := s_root (sb_at s2 sb)\<rparr> else s2)))))"

section \<open>Path resolution\<close>

fun find_child :: "nat \<Rightarrow> string \<Rightarrow> nat \<Rightarrow> 'a fs_state_scheme \<Rightarrow> kstop + nat" where
  "find_child 0 nm chd s = Inl NoProgress"
| "find_child (Suc n) nm chd s =
     (if chd = 0 then Inr 0
      else if names_equal (d_name (dentry_at s chd)) nm then Inr chd
      else find_child n nm (d_next (dentry_at s chd)) s)"

text \<open>Ask the file system for the inode and hang a new entry below \<open>cur\<close>; 0 when there is none.\<close>

definition instantiate :: "string \<Rightarrow> nat \<Rightarrow> 'a fs_state_scheme \<Rightarrow> kstop + (nat \<times> 'a fs_state_scheme)" where
  "instantiate cmp cur s =
     (let i = d_inode (dentry_at s cur)
      in if i = 0 then Inr (0, s)
         else case i_ops (inode_at s i) of
             None \<Rightarrow> Inr (0, s)
           | Some ops \<Rightarrow>
               kbind (ops_lookup ops i (cmp @ [NULc]) s) (\<lambda>(inp, s1).
               if inp = 0 then Inr (0, s1)
               else
                 kbind (kz SZ_DENTRY s1) (\<lambda>(de, s2).
                 kbind (set_dentry de (\<lambda>_. dentry_zero\<lparr>d_name := take NAME_MAX cmp, d_inode := inp, d_parent := cur,
                          d_next := d_children (dentry_at s2 cur)\<rparr>) s2) (\<lambda>s3.
                 kbind (set_dentry cur (\<lambda>d. d\<lparr>d_children := de\<rparr>) s3) (\<lambda>s4. Inr (de, s4))))))"

text \<open>One component: an existing child or a new one. A name above 255 characters overruns \<open>component\<close>.\<close>

definition lookup_component :: "nat \<Rightarrow> string \<Rightarrow> nat \<Rightarrow> 'a fs_state_scheme \<Rightarrow> kstop + (nat \<times> 'a fs_state_scheme)" where
  "lookup_component n cmp cur s =
     (if NAME_MAX < length cmp then Inl WildDeref
      else
        kbind (find_child n cmp (d_children (dentry_at s cur)) s) (\<lambda>chd.
        if chd \<noteq> 0 then Inr (chd, s) else instantiate cmp cur s))"

function lookup_walk :: "nat \<Rightarrow> nat \<Rightarrow> string \<Rightarrow> 'a fs_state_scheme \<Rightarrow> kstop + (nat \<times> 'a fs_state_scheme)" where
  "lookup_walk n cur p s =
     (if p = [] then Inr (cur, s)
      else
        (let cmp = takeWhile (\<lambda>c. c \<noteq> CHR ''/'') p;
             rest = dropWhile (\<lambda>c. c \<noteq> CHR ''/'') p
         in if cmp = [] then lookup_walk n cur (tl rest) s
            else case lookup_component n cmp cur s of
                Inl e \<Rightarrow> Inl e
              | Inr (c, s1) \<Rightarrow> if c = 0 then Inr (0, s1) else lookup_walk n c (tl rest) s1))"
  by pat_completeness auto
termination
proof (relation "measure (\<lambda>(n, cur, p, s). length p)")
  have shorter: "length (tl (dropWhile P p)) < length p" if "p \<noteq> []" for P :: "char \<Rightarrow> bool" and p :: string
  proof -
    have "0 < length p" using that by simp
    moreover have "length (tl (dropWhile P p)) \<le> length p - 1"
      using length_dropWhile_le [of P p] by (simp add: diff_le_mono)
    ultimately show ?thesis by linarith
  qed
  fix n cur p and s :: "'a fs_state_scheme" and x y c s1 a
  assume "p \<noteq> []" "y = dropWhile (\<lambda>c. c \<noteq> CHR ''/'') p"
  then show "((n, cur, tl y, s), n, cur, p, s) \<in> measure (\<lambda>(n, cur, p, s). length p)"
    "((n, c, tl y, s1), n, cur, p, s) \<in> measure (\<lambda>(n, cur, p, s). length p)"
    using shorter by auto
qed simp

declare lookup_walk.simps [simp del]

definition lookup_path :: "nat \<Rightarrow> string option \<Rightarrow> 'a fs_state_scheme \<Rightarrow> kstop + (nat \<times> 'a fs_state_scheme)" where
  "lookup_path n path s =
     (case path of
        None \<Rightarrow> Inr (0, s)
      | Some [] \<Rightarrow> Inr (0, s)
      | Some (c # p) \<Rightarrow>
          if c \<noteq> CHR ''/'' then Inr (0, s)
          else if vfs_root s = 0 then Inr (0, s)
          else if p = [] then Inr (vfs_root s, s)
          else lookup_walk n (vfs_root s) p s)"

section \<open>File descriptors\<close>

definition NR_FDS :: nat where [kconst]: "NR_FDS = 256"

fun free_fd :: "nat \<Rightarrow> nat \<Rightarrow> (nat \<Rightarrow> nat option) \<Rightarrow> nat option" where
  "free_fd 0 i t = None"
| "free_fd (Suc n) i t = (if t i = None then Some i else free_fd n (Suc i) t)"

definition alloc_fd :: "nat \<Rightarrow> nat \<Rightarrow> 'a fs_state_scheme \<Rightarrow> int \<times> 'a fs_state_scheme" where
  "alloc_fd t f s =
     (case free_fd NR_FDS 0 (fd_table (task_pool s t)) of
        None \<Rightarrow> (- ENOMEM, s)
      | Some i \<Rightarrow> (int i, set_task_fd t i (Some f) s))"

definition vfs_open :: "nat \<Rightarrow> string option \<Rightarrow> u32 \<Rightarrow> 'a fs_state_scheme \<Rightarrow> kstop + (int \<times> 'a fs_state_scheme)" where
  "vfs_open n path flags s =
     kbind (lookup_path n path s) (\<lambda>(de, s1).
     if de = 0 then Inr (- ENOENT, s1)
     else if d_inode (dentry_at s1 de) = 0 then Inr (- ENOENT, s1)
     else
       kbind (kz SZ_FILE s1) (\<lambda>(f, s2).
       if f = 0 then Inr (- ENOMEM, s2)
       else
         (let i = d_inode (dentry_at s2 de)
          in kbind (set_file f (\<lambda>_. \<lparr>f_inode = i, f_dentry = de, f_offset = 0, f_flags = flags, f_refs = 1,
                       f_ops = i_fops (inode_at s2 i)\<rparr>) s2) (\<lambda>s3.
             case task_get_current s3 of
               None \<Rightarrow> kbind (kfree f s3) (\<lambda>s4. Inr (- EINVAL, s4))
             | Some t \<Rightarrow> Inr (alloc_fd t f s3)))))"

text \<open>The test at the head of every call on a descriptor: the task and the file.\<close>

definition fd_file :: "int \<Rightarrow> 'a fs_state_scheme \<Rightarrow> (nat \<times> nat) option" where
  "fd_file fd s =
     (case task_get_current s of
        None \<Rightarrow> None
      | Some t \<Rightarrow>
          if fd < 0 \<or> fd \<ge> int NR_FDS then None
          else map_option (\<lambda>f. (t, f)) (fd_table (task_pool s t) (nat fd)))"

definition vfs_read :: "int \<Rightarrow> nat \<Rightarrow> 'a fs_state_scheme \<Rightarrow> kstop + (io_result \<times> u8 list \<times> 'a fs_state_scheme)" where
  "vfs_read fd len s =
     (case fd_file fd s of
        None \<Rightarrow> Inr (Returned (- EBADF), [], s)
      | Some (t, f) \<Rightarrow>
          (case Option.bind (f_ops (file_at s f)) ops_read of
             None \<Rightarrow> Inr (Returned (- EBADF), [], s)
           | Some rd \<Rightarrow> rd f len s))"

definition vfs_write :: "int \<Rightarrow> u8 list \<Rightarrow> 'a fs_state_scheme \<Rightarrow> kstop + (io_result \<times> 'a fs_state_scheme)" where
  "vfs_write fd d s =
     (case fd_file fd s of
        None \<Rightarrow> Inr (Returned (- EBADF), s)
      | Some (t, f) \<Rightarrow>
          (case Option.bind (f_ops (file_at s f)) ops_write of
             None \<Rightarrow> Inr (Returned (- EBADF), s)
           | Some wr \<Rightarrow> wr f d s))"

definition vfs_close :: "int \<Rightarrow> 'a fs_state_scheme \<Rightarrow> kstop + (int \<times> 'a fs_state_scheme)" where
  "vfs_close fd s =
     (case fd_file fd s of
        None \<Rightarrow> Inr (- EBADF, s)
      | Some (t, f) \<Rightarrow>
          kbind (set_file f (\<lambda>x. x\<lparr>f_refs := f_refs x - 1\<rparr>) s) (\<lambda>s1.
          kbind
            (if f_refs (file_at s1 f) = 0 then
               kbind (case Option.bind (f_ops (file_at s1 f)) ops_close of None \<Rightarrow> Inr s1 | Some cl \<Rightarrow> cl f s1) (kfree f)
             else Inr s1) (\<lambda>s2.
          Inr (0, set_task_fd t (nat fd) None s2))))"

definition stat_of :: "inode \<Rightarrow> stat \<Rightarrow> stat" where
  "stat_of i st = st\<lparr>st_ino := ino i, st_mode := mode i, st_nlink := nlink i, st_uid := uid i, st_gid := gid i,
     st_size := i_size i, st_mtime := mtime i\<rparr>"

definition vfs_stat :: "nat \<Rightarrow> string option \<Rightarrow> stat \<Rightarrow> 'a fs_state_scheme \<Rightarrow> kstop + (int \<times> stat \<times> 'a fs_state_scheme)" where
  "vfs_stat n path st s =
     kbind (lookup_path n path s) (\<lambda>(de, s1).
     if de = 0 \<or> d_inode (dentry_at s1 de) = 0 then Inr (- ENOENT, st, s1)
     else Inr (0, stat_of (inode_at s1 (d_inode (dentry_at s1 de))) st, s1))"

text \<open>\<open>vfs_fstat\<close> fills three fields of the caller's structure.\<close>

definition vfs_fstat :: "int \<Rightarrow> stat \<Rightarrow> 'a fs_state_scheme \<Rightarrow> int \<times> stat" where
  "vfs_fstat fd st s =
     (case fd_file fd s of
        None \<Rightarrow> (- EBADF, st)
      | Some (t, f) \<Rightarrow>
          (let i = f_inode (file_at s f)
           in if i = 0 then (- EBADF, st)
              else (0, st\<lparr>st_ino := ino (inode_at s i), st_mode := mode (inode_at s i), st_size := i_size (inode_at s i)\<rparr>)))"

text \<open>The \<open>readdir\<close> and \<open>seek\<close> members: no table of the sources has one.\<close>

definition ops_readdir :: "file_ops \<Rightarrow> (nat \<Rightarrow> 'a fs_state_scheme \<Rightarrow> int) option" where
  "ops_readdir ops = None"

definition ops_seek :: "file_ops \<Rightarrow> (nat \<Rightarrow> u64 \<Rightarrow> int \<Rightarrow> 'a fs_state_scheme \<Rightarrow> kstop + (int \<times> 'a fs_state_scheme)) option" where
  "ops_seek ops = None"

definition vfs_readdir :: "int \<Rightarrow> 'a fs_state_scheme \<Rightarrow> int" where
  "vfs_readdir fd s =
     (case fd_file fd s of
        None \<Rightarrow> - EBADF
      | Some (t, f) \<Rightarrow> (case Option.bind (f_ops (file_at s f)) ops_readdir of None \<Rightarrow> - EBADF | Some rd \<Rightarrow> rd f s))"

definition vfs_seek :: "int \<Rightarrow> u64 \<Rightarrow> int \<Rightarrow> 'a fs_state_scheme \<Rightarrow> kstop + (int \<times> 'a fs_state_scheme)" where
  "vfs_seek fd offset whence s =
     (case fd_file fd s of
        None \<Rightarrow> Inr (- EBADF, s)
      | Some (t, f) \<Rightarrow>
          (case Option.bind (f_ops (file_at s f)) ops_seek of
             Some sk \<Rightarrow> sk f offset whence s
           | None \<Rightarrow>
               kbind (set_file f (\<lambda>x.
                 if whence = SEEK_SET then x\<lparr>f_offset := offset\<rparr>
                 else if whence = SEEK_CUR then x\<lparr>f_offset := f_offset x + offset\<rparr>
                 else if whence = SEEK_END \<and> f_inode x \<noteq> 0 then x\<lparr>f_offset := i_size (inode_at s (f_inode x)) + offset\<rparr>
                 else x) s) (\<lambda>s1. Inr (0, s1))))"

section \<open>Creating a pipe\<close>

text \<open>The loop over the descriptors from 3 on: the two that were filled so far.\<close>

fun pipe_fds :: "nat \<Rightarrow> nat \<Rightarrow> nat \<Rightarrow> nat \<Rightarrow> nat \<Rightarrow> int \<Rightarrow> 'a fs_state_scheme \<Rightarrow> int \<times> int \<times> 'a fs_state_scheme" where
  "pipe_fds 0 i t rf wrf fd_read s = (fd_read, -1, s)"
| "pipe_fds (Suc n) i t rf wrf fd_read s =
     (if fd_table (task_pool s t) i = None then
        if fd_read < 0 then pipe_fds n (Suc i) t rf wrf (int i) (set_task_fd t i (Some rf) s)
        else (fd_read, int i, set_task_fd t i (Some wrf) s)
      else pipe_fds n (Suc i) t rf wrf fd_read s)"

text \<open>The pair is \<open>fds\<close>, written only on success.\<close>

definition pipe_create :: "'a fs_state_scheme \<Rightarrow> kstop + (int \<times> (int \<times> int) option \<times> 'a fs_state_scheme)" where
  "pipe_create s =
     kbind (kmalloc 2 HEAP_STEPS SZ_PIPE s) (\<lambda>(p, s1).
     if p = 0 then Inr (- ENOMEM, None, s1)
     else
       (let s2 = s1\<lparr>pipe_at := (pipe_at s1)(p := pipe_zero)\<rparr>
        in kbind (kz SZ_INODE s2) (\<lambda>(ri, s3). kbind (kz SZ_INODE s3) (\<lambda>(wi, s4).
           if ri = 0 \<or> wi = 0 then kbind (kfree p s4) (\<lambda>s5. Inr (- ENOMEM, None, s5))
           else
             kbind (set_inode ri (\<lambda>_. inode_zero\<lparr>mode := S_IFIFO OR 0x1B6, fs_data := p\<rparr>) s4) (\<lambda>s5.
             kbind (set_inode wi (\<lambda>_. inode_zero\<lparr>mode := S_IFIFO OR 0x1B6, fs_data := p\<rparr>) s5) (\<lambda>s6.
             kbind (kz SZ_FILE s6) (\<lambda>(rf, s7). kbind (kz SZ_FILE s7) (\<lambda>(wrf, s8).
             if rf = 0 \<or> wrf = 0 then
               kbind (kfree p s8) (\<lambda>s9. kbind (kfree ri s9) (\<lambda>s10. kbind (kfree wi s10) (\<lambda>s11. Inr (- ENOMEM, None, s11))))
             else
               kbind (set_file rf (\<lambda>_. file_zero\<lparr>f_inode := ri, f_flags := 0, f_refs := 1, f_ops := Some Pipe_read_ops\<rparr>) s8) (\<lambda>s9.
               kbind (set_file wrf (\<lambda>_. file_zero\<lparr>f_inode := wi, f_flags := 1, f_refs := 1, f_ops := Some Pipe_write_ops\<rparr>) s9) (\<lambda>s10.
               case task_get_current s10 of
                 None \<Rightarrow>
                   kbind (kfree p s10) (\<lambda>s11. kbind (kfree ri s11) (\<lambda>s12. kbind (kfree wi s12) (\<lambda>s13.
                   kbind (kfree rf s13) (\<lambda>s14. kbind (kfree wrf s14) (\<lambda>s15. Inr (- EINVAL, None, s15))))))
               | Some t \<Rightarrow>
                   (case pipe_fds (NR_FDS - 3) 3 t rf wrf (-1) s10 of
                      (fd_read, fd_write, s11) \<Rightarrow>
                        if fd_read < 0 \<or> fd_write < 0 then Inr (- ENOMEM, None, s11)
                        else Inr (0, Some (fd_read, fd_write), s11))))))))))))"

section \<open>Registration at boot\<close>

definition ext2_register :: "'a fs_state_scheme \<Rightarrow> 'a fs_state_scheme" where
  "ext2_register s = snd (vfs_register_fs Ext2_fs s)"

definition procfs_register :: "'a fs_state_scheme \<Rightarrow> kstop + 'a fs_state_scheme" where
  "procfs_register s = kbind (vfs_mount ''/proc'' ''procfs'' 0 (snd (vfs_register_fs Procfs_fs s))) (\<lambda>(r, s'). Inr s')"

section \<open>Paths are lists of components\<close>

fun split_path :: "string \<Rightarrow> string list" where
  "split_path [] = [[]]"
| "split_path (c # p) =
     (if c = CHR ''/'' then [] # split_path p else (c # hd (split_path p)) # tl (split_path p))"

definition components :: "string \<Rightarrow> string list" where
  "components p = filter (\<lambda>c. c \<noteq> []) (split_path p)"

fun resolve :: "nat \<Rightarrow> nat \<Rightarrow> string list \<Rightarrow> 'a fs_state_scheme \<Rightarrow> kstop + (nat \<times> 'a fs_state_scheme)" where
  "resolve n cur [] s = Inr (cur, s)"
| "resolve n cur (c # cs) s =
     kbind (lookup_component n c cur s) (\<lambda>(d, s1). if d = 0 then Inr (0, s1) else resolve n d cs s1)"

lemma split_path_ne: "split_path p \<noteq> []"
  by (cases p) auto

lemma split_path_unfold:
  "split_path p = takeWhile (\<lambda>c. c \<noteq> CHR ''/'') p #
     (if dropWhile (\<lambda>c. c \<noteq> CHR ''/'') p = [] then [] else split_path (tl (dropWhile (\<lambda>c. c \<noteq> CHR ''/'') p)))"
  by (induction p) (auto simp: split_path_ne)

lemma walk_resolve: "lookup_walk n cur p s = resolve n cur (components p) s"
proof (induction n cur p s rule: lookup_walk.induct)
  case (1 n cur p s)
  let ?c = "takeWhile (\<lambda>c. c \<noteq> CHR ''/'') p" and ?r = "dropWhile (\<lambda>c. c \<noteq> CHR ''/'') p"
  show ?case
  proof (cases "p = []")
    case True
    then show ?thesis by (subst lookup_walk.simps) (simp add: components_def)
  next
    case False
    have cs: "components p = (if ?c = [] then [] else [?c]) @ components (tl ?r)"
    proof (cases "?r = []")
      case True
      then have "split_path p = [?c]" using split_path_unfold [of p] by (simp only: simp_thms if_True)
      then show ?thesis unfolding components_def True by (simp only: filter.simps) simp
    next
      case False
      then have "split_path p = ?c # split_path (tl ?r)" using split_path_unfold [of p] by (simp only: simp_thms if_False)
      then show ?thesis unfolding components_def by (simp only: filter.simps) simp
    qed
    show ?thesis
    proof (cases "?c = []")
      case True
      with False "1.IH"(1) cs show ?thesis by (subst lookup_walk.simps) (simp add: Let_def)
    next
      case ne: False
      show ?thesis
      proof (cases "lookup_component n ?c cur s")
        case (Inl e)
        with False ne cs show ?thesis by (subst lookup_walk.simps) (simp add: Let_def)
      next
        case (Inr r)
        then obtain d s1 where r: "lookup_component n ?c cur s = Inr (d, s1)" by (cases r) auto
        have "d \<noteq> 0 \<Longrightarrow> lookup_walk n d (tl ?r) s1 = resolve n d (components (tl ?r)) s1"
          using "1.IH"(2) [OF False refl refl ne r] by simp
        with False ne cs r show ?thesis by (subst lookup_walk.simps) (simp add: Let_def)
      qed
    qed
  qed
qed

section \<open>What the operations leave alone\<close>

text \<open>A computation on the heap keeps the rest of the state.\<close>

definition keeps :: "'a kheap_scheme \<Rightarrow> kstop + 'a kheap_scheme \<Rightarrow> bool" where
  "keeps s r \<longleftrightarrow> (\<forall>s'. r = Inr s' \<longrightarrow> kheap.more s' = kheap.more s)"

lemma keeps_Inr: "kheap.more x = kheap.more s \<Longrightarrow> keeps s (Inr x)"
  by (simp add: keeps_def)

lemma keeps_upd: "kheap.more x = kheap.more s \<Longrightarrow> keeps s (upd_block a f x)"
  using upd_block_more [of a f x] by (auto simp: keeps_def)

lemma keeps_get: "(\<And>b. keeps s (f b)) \<Longrightarrow> keeps s (kbind (get_block x a) f)"
  by (auto simp: keeps_def)

lemma keeps_bind:
  assumes r: "keeps s r" and f: "\<And>x. kheap.more x = kheap.more s \<Longrightarrow> keeps s (f x)"
  shows "keeps s (kbind r f)"
proof (cases r)
  case (Inl e)
  then show ?thesis by (simp add: keeps_def)
next
  case (Inr x)
  from r Inr have "kheap.more x = kheap.more s" by (simp add: keeps_def)
  from f [OF this] Inr show ?thesis by simp
qed

lemma keeps_if: "keeps s a \<Longrightarrow> keeps s b \<Longrightarrow> keeps s (if c then a else b)"
  by simp

lemma kfree_more: "kfree p s = Inr s' \<Longrightarrow> kheap.more s' = kheap.more s"
proof -
  assume f: "kfree p s = Inr s'"
  have "keeps s (kfree p s)"
    unfolding kfree_def Let_def
    by (intro keeps_if keeps_get keeps_bind keeps_upd keeps_Inr) simp_all
  with f show ?thesis by (simp add: keeps_def)
qed

lemmas kfree_fs = fs_of_more [OF kfree_more]

definition same_tasks :: "'a fs_state_scheme \<Rightarrow> 'a fs_state_scheme \<Rightarrow> bool" where
  "same_tasks s s' \<longleftrightarrow> task_pool s' = task_pool s \<and> current_task s' = current_task s"

lemma same_refl [simp]: "same_tasks s s"
  by (simp add: same_tasks_def)

lemma same_trans: "same_tasks a b \<Longrightarrow> same_tasks b c \<Longrightarrow> same_tasks a c"
  by (simp add: same_tasks_def)

lemma same_kz: "kz sz s = Inr (p, s') \<Longrightarrow> same_tasks s s'"
  using kz_fs by (auto simp: same_tasks_def)

lemma same_kfree: "kfree p s = Inr s' \<Longrightarrow> same_tasks s s'"
  using kfree_fs by (auto simp: same_tasks_def)

lemma same_set:
  "set_inode p g s = Inr s' \<Longrightarrow> same_tasks s s'" "set_dentry p h s = Inr s' \<Longrightarrow> same_tasks s s'"
  "set_file p k s = Inr s' \<Longrightarrow> same_tasks s s'"
  by (auto simp: set_inode_def set_dentry_def set_file_def same_tasks_def split: if_splits)

lemma same_ext2_lookup: "ext2_lookup d nm s = Inr (v, s') \<Longrightarrow> same_tasks s s'"
  by (auto simp: ext2_lookup_def Let_def split: if_splits option.splits intro: same_trans [OF same_kz same_set(1)])

lemma same_procfs_lookup: "procfs_lookup d nm s = Inr (v, s') \<Longrightarrow> same_tasks s s'"
proof -
  assume l: "procfs_lookup d nm s = Inr (v, s')"
  show ?thesis
    using l unfolding procfs_lookup_def Let_def
    by (auto split: option.splits if_splits dest!: same_kz same_set same_kfree simp: same_tasks_def)
qed

lemma same_instantiate: "instantiate c cur s = Inr (v, s') \<Longrightarrow> same_tasks s s'"
proof -
  assume "instantiate c cur s = Inr (v, s')"
  moreover have "ops_lookup ops i nm s = Inr (w, s1) \<Longrightarrow> same_tasks s s1" for ops i nm w s1
    using same_ext2_lookup same_procfs_lookup by (cases ops) (auto simp: ops_lookup_def)
  ultimately show ?thesis
    unfolding instantiate_def Let_def
    by (fastforce split: if_splits option.splits dest!: same_kz same_set(2) simp: same_tasks_def)
qed

lemma same_component: "lookup_component n c cur s = Inr (v, s') \<Longrightarrow> same_tasks s s'"
  by (auto simp: lookup_component_def split: if_splits dest: same_instantiate)

lemma same_resolve: "resolve n cur cs s = Inr (v, s') \<Longrightarrow> same_tasks s s'"
proof (induction cs arbitrary: cur s)
  case (Cons c cs)
  then show ?case by (auto split: if_splits dest!: same_component intro: same_trans)
qed simp

lemma lookup_path_resolve:
  "lookup_path n path s =
     (case path of
        Some (c # p) \<Rightarrow> if c = CHR ''/'' \<and> vfs_root s \<noteq> 0 then resolve n (vfs_root s) (components p) s else Inr (0, s)
      | _ \<Rightarrow> Inr (0, s))"
  by (auto simp: lookup_path_def walk_resolve components_def split: option.split list.split)

lemma same_lookup_path: "lookup_path n path s = Inr (v, s') \<Longrightarrow> same_tasks s s'"
  by (auto simp: lookup_path_resolve split: option.splits list.splits if_splits dest: same_resolve)

section \<open>Descriptors\<close>

lemma free_fd_Some:
  "free_fd n i t = Some k \<Longrightarrow> i \<le> k \<and> k < i + n \<and> t k = None \<and> (\<forall>j. i \<le> j \<and> j < k \<longrightarrow> t j \<noteq> None)"
proof (induction n arbitrary: i)
  case (Suc n)
  show ?case
  proof (cases "t i = None")
    case False
    then have "free_fd n (Suc i) t = Some k" using Suc.prems by auto
    then have IH: "Suc i \<le> k \<and> k < Suc i + n \<and> t k = None \<and> (\<forall>j. Suc i \<le> j \<and> j < k \<longrightarrow> t j \<noteq> None)"
      by (rule Suc.IH)
    moreover have "t j \<noteq> None" if "i \<le> j" "j < k" for j
      using that IH False by (cases "j = i") auto
    ultimately show ?thesis by auto
  qed (use Suc.prems in auto)
qed simp

lemma task_set_fd:
  "task_pool (set_task_fd t k v s) = (task_pool s)(t := (task_pool s t)\<lparr>fd_table := (fd_table (task_pool s t))(k := v)\<rparr>)"
  "current_task (set_task_fd t k v s) = current_task s" "file_at (set_task_fd t k v s) = file_at s"
  "inode_at (set_task_fd t k v s) = inode_at s" "pipe_at (set_task_fd t k v s) = pipe_at s"
  by (simp_all add: set_task_fd_def tput_def)

lemma vfs_open_effect:
  assumes o: "vfs_open n path flags s = Inr (fd, s')"
  shows "(0 \<le> fd \<longrightarrow> (\<exists>t f. current_task s = Some t \<and> fd < int NR_FDS \<and> fd_table (task_pool s t) (nat fd) = None
        \<and> (\<forall>j < nat fd. fd_table (task_pool s t) j \<noteq> None) \<and> f \<noteq> 0 \<and> fd_file fd s' = Some (t, f)
        \<and> task_pool s' = (task_pool s)(t := (task_pool s t)\<lparr>fd_table := (fd_table (task_pool s t))(nat fd \<mapsto> f)\<rparr>)
        \<and> f_offset (file_at s' f) = 0 \<and> f_flags (file_at s' f) = flags \<and> f_refs (file_at s' f) = 1))
     \<and> (fd < 0 \<longrightarrow> fd \<in> {- ENOENT, - ENOMEM, - EINVAL} \<and> task_pool s' = task_pool s)"
proof -
  from o obtain de s1 where l: "lookup_path n path s = Inr (de, s1)" by (auto simp: vfs_open_def)
  have t1: "task_pool s1 = task_pool s" "current_task s1 = current_task s"
    using same_lookup_path [OF l] by (simp_all add: same_tasks_def)
  show ?thesis
  proof (cases "de = 0 \<or> d_inode (dentry_at s1 de) = 0")
    case True
    with o l t1 show ?thesis by (auto simp: vfs_open_def kconst split: if_splits)
  next
    case False
    with o l obtain f s2 where k: "kz SZ_FILE s1 = Inr (f, s2)" by (auto simp: vfs_open_def)
    have t2: "task_pool s2 = task_pool s" "current_task s2 = current_task s"
      using same_kz [OF k] t1 by (simp_all add: same_tasks_def)
    show ?thesis
    proof (cases "f = 0")
      case True
      with o l k False t2 show ?thesis by (auto simp: vfs_open_def kconst)
    next
      case f: False
      define i where "i = d_inode (dentry_at s2 de)"
      define s3 where "s3 = s2\<lparr>file_at := (file_at s2)(f := \<lparr>f_inode = i, f_dentry = de, f_offset = 0, f_flags = flags,
          f_refs = 1, f_ops = i_fops (inode_at s2 i)\<rparr>)\<rparr>"
      have t3: "task_pool s3 = task_pool s" "current_task s3 = current_task s"
        using t2 by (simp_all add: s3_def)
      show ?thesis
      proof (cases "current_task s")
        case None
        then have "kbind (kfree f s3) (\<lambda>s4. Inr (- EINVAL, s4)) = Inr (fd, s')"
          using o l k False f t2 by (simp add: vfs_open_def set_file_def Let_def i_def s3_def
              task_get_current_def del: kbind_eq_Inr)
        then show ?thesis
          using same_kfree [of f s3 s'] t3 by (auto simp: kconst same_tasks_def)
      next
        case (Some t)
        then have a: "alloc_fd t f s3 = (fd, s')"
          using o l k False f t2 by (simp add: vfs_open_def set_file_def Let_def i_def s3_def
              task_get_current_def)
        show ?thesis
        proof (cases "free_fd NR_FDS 0 (fd_table (task_pool s t))")
          case None
          with a t3 show ?thesis by (auto simp: alloc_fd_def kconst)
        next
          case (Some k)
          then have "fd = int k" "s' = set_task_fd t k (Some f) s3"
            using a t3 by (simp_all add: alloc_fd_def)
          then show ?thesis
            using free_fd_Some [OF Some] \<open>current_task s = Some t\<close> t3 f
            by (auto simp: task_set_fd fd_file_def task_get_current_def s3_def)
        qed
      qed
    qed
  qed
qed

lemma vfs_close_effect:
  assumes c: "vfs_close fd s = Inr (r, s')" and f: "fd_file fd s = Some (t, f)"
  shows "r = 0 \<and> current_task s' = current_task s
    \<and> task_pool s' = (task_pool s)(t := (task_pool s t)\<lparr>fd_table := (fd_table (task_pool s t))(nat fd := None)\<rparr>)"
proof -
  obtain s1 s2 where s1: "set_file f (\<lambda>x. x\<lparr>f_refs := f_refs x - 1\<rparr>) s = Inr s1"
    and s2: "(if f_refs (file_at s1 f) = 0 then
               kbind (case Option.bind (f_ops (file_at s1 f)) ops_close of None \<Rightarrow> Inr s1 | Some cl \<Rightarrow> cl f s1) (kfree f)
             else Inr s1) = Inr s2"
    and s': "r = 0" "s' = set_task_fd t (nat fd) None s2"
    using c f by (auto simp: vfs_close_def)
  have cl: "same_tasks s1 x" if "(case Option.bind (f_ops (file_at s1 f)) ops_close of None \<Rightarrow> Inr s1 | Some cl \<Rightarrow> cl f s1) = Inr x" for x
  proof (cases "f_ops (file_at s1 f)")
    case (Some ops)
    have "same_tasks s1 (pipe_store p po s1)" for p po
      by (cases po) (simp_all add: pipe_store_def same_tasks_def)
    with that Some show ?thesis by (cases ops) (auto simp: ops_close_def)
  qed (use that in simp)
  have "same_tasks s1 s2"
  proof (cases "f_refs (file_at s1 f) = 0")
    case True
    then obtain x where "(case Option.bind (f_ops (file_at s1 f)) ops_close of None \<Rightarrow> Inr s1 | Some cl \<Rightarrow> cl f s1) = Inr x"
      "kfree f x = Inr s2" using s2 by auto
    with cl same_kfree same_trans show ?thesis by blast
  qed (use s2 in simp)
  then show ?thesis
    using s' same_set(3) [OF s1] by (simp add: task_set_fd same_tasks_def)
qed

lemma fd_file_closed:
  "fd_file fd s = Some (t, f) \<Longrightarrow> current_task s' = current_task s \<Longrightarrow> fd_table (task_pool s' t) (nat fd) = None \<Longrightarrow>
    fd_file fd s' = None"
  by (auto simp: fd_file_def task_get_current_def split: option.splits if_splits)

section \<open>The two ends of a pipe\<close>

lemma heap_used_fs [simp]:
  "heap_used (s\<lparr>inode_at := a\<rparr>) U = heap_used s U" "heap_used (s\<lparr>file_at := b\<rparr>) U = heap_used s U"
  "heap_used (s\<lparr>pipe_at := c\<rparr>) U = heap_used s U"
  by (simp_all add: heap_used_def heap_list_def)

lemma kz_used:
  assumes k: "kz sz s = Inr (p, s')" and u: "heap_used s U" and z: "0 < sz" "sz < 2 ^ 62"
  shows "p \<notin> fst ` U \<and> p \<noteq> 0 \<and> (\<exists>z. heap_used s' (insert (p, z) U))"
proof -
  from k obtain p1 s1 where k1: "kmalloc 2 HEAP_STEPS sz s = Inr (p1, s1)" by (auto simp: kzmalloc_def split: if_splits)
  with kmalloc_used [OF u z] obtain y where y: "p1 \<notin> fst ` U" "heap_used s1 (insert (p1, y) U)" "0 < p1" by auto
  with k k1 show ?thesis by (auto simp: kzmalloc_def heap_used_data)
qed

lemma pipe_fds_second:
  assumes "pipe_fds n i t rf wrf (int a) s = (r, w, s')" "0 \<le> w"
  shows "\<exists>k. i \<le> k \<and> k < i + n \<and> fd_table (task_pool s t) k = None \<and> r = int a \<and> w = int k
    \<and> s' = set_task_fd t k (Some wrf) s"
  using assms
proof (induction n arbitrary: i)
  case (Suc n)
  show ?case
  proof (cases "fd_table (task_pool s t) i = None")
    case False
    with Suc.prems have "pipe_fds n (Suc i) t rf wrf (int a) s = (r, w, s')" by simp
    from Suc.IH [OF this Suc.prems(2)] show ?thesis by (metis Suc_leD add_Suc add_Suc_right)
  qed (use Suc.prems in auto)
qed simp

lemma pipe_fds_first:
  assumes "pipe_fds n i t rf wrf (-1) s = (r, w, s')" "0 \<le> r" "0 \<le> w"
  shows "\<exists>j k. i \<le> j \<and> j < k \<and> k < i + n \<and> fd_table (task_pool s t) j = None \<and> fd_table (task_pool s t) k = None
    \<and> r = int j \<and> w = int k \<and> s' = set_task_fd t k (Some wrf) (set_task_fd t j (Some rf) s)"
  using assms
proof (induction n arbitrary: i)
  case (Suc n)
  show ?case
  proof (cases "fd_table (task_pool s t) i = None")
    case True
    with Suc.prems have "pipe_fds n (Suc i) t rf wrf (int i) (set_task_fd t i (Some rf) s) = (r, w, s')" by simp
    from pipe_fds_second [OF this Suc.prems(3)] obtain k where k: "Suc i \<le> k" "k < Suc i + n"
      "fd_table (task_pool (set_task_fd t i (Some rf) s) t) k = None" "r = int i" "w = int k"
      "s' = set_task_fd t k (Some wrf) (set_task_fd t i (Some rf) s)" by blast
    have "fd_table (task_pool s t) k = None" using k(1,3) by (simp add: task_set_fd split: if_splits)
    with k True show ?thesis by (intro exI [of _ i] exI [of _ k]) auto
  next
    case False
    with Suc.prems have "pipe_fds n (Suc i) t rf wrf (-1) s = (r, w, s')" by simp
    from Suc.IH [OF this Suc.prems(2,3)] show ?thesis by (metis Suc_leD add_Suc add_Suc_right)
  qed
qed simp

text \<open>What a successful \<open>pipe_create\<close> leaves behind.\<close>

definition pipe_ends :: "nat \<Rightarrow> int \<Rightarrow> int \<Rightarrow> nat \<Rightarrow> 'a fs_state_scheme \<Rightarrow> bool" where
  "pipe_ends t a b p s \<longleftrightarrow> p \<noteq> 0 \<and> (\<exists>rf wrf. fd_file a s = Some (t, rf) \<and> fd_file b s = Some (t, wrf)
     \<and> f_ops (file_at s rf) = Some Pipe_read_ops \<and> f_ops (file_at s wrf) = Some Pipe_write_ops
     \<and> file_pipe rf s = Inr p \<and> file_pipe wrf s = Inr p)"

lemma pipe_create_ends:
  assumes u: "heap_used s U" and c: "pipe_create s = Inr (0, Some (a, b), s')"
  shows "\<exists>t p j k. current_task s = Some t \<and> pipe_ends t a b p s' \<and> pipe_at s' p = pipe_zero
    \<and> a = int j \<and> b = int k \<and> 3 \<le> j \<and> j < k \<and> k < NR_FDS
    \<and> fd_table (task_pool s t) j = None \<and> fd_table (task_pool s t) k = None"
proof -
  from c obtain p s1 where p: "kmalloc 2 HEAP_STEPS SZ_PIPE s = Inr (p, s1)" "p \<noteq> 0"
    by (auto simp: pipe_create_def split: if_splits)
  define s2 where "s2 = s1\<lparr>pipe_at := (pipe_at s1)(p := pipe_zero)\<rparr>"
  from c p obtain ri s3 wi s4 where i: "kz SZ_INODE s2 = Inr (ri, s3)" "kz SZ_INODE s3 = Inr (wi, s4)" "ri \<noteq> 0" "wi \<noteq> 0"
    unfolding s2_def by (auto simp: pipe_create_def Let_def split: if_splits)
  let ?n = "inode_zero\<lparr>mode := S_IFIFO OR 0x1B6, fs_data := p\<rparr>"
  define s6 where "s6 = s4\<lparr>inode_at := (inode_at s4)(ri := ?n, wi := ?n)\<rparr>"
  have s6': "kbind (set_inode ri (\<lambda>_. ?n) s4) (set_inode wi (\<lambda>_. ?n)) = Inr s6"
    using i by (simp add: set_inode_def s6_def)
  from c p i s6' obtain rf s7 wrf s8 where f: "kz SZ_FILE s6 = Inr (rf, s7)" "kz SZ_FILE s7 = Inr (wrf, s8)" "rf \<noteq> 0" "wrf \<noteq> 0"
    by (auto simp: pipe_create_def Let_def s2_def [symmetric] split: if_splits)
  let ?r = "file_zero\<lparr>f_inode := ri, f_flags := 0, f_refs := 1, f_ops := Some Pipe_read_ops\<rparr>"
  let ?w = "file_zero\<lparr>f_inode := wi, f_flags := 1, f_refs := 1, f_ops := Some Pipe_write_ops\<rparr>"
  define s10 where "s10 = s8\<lparr>file_at := (file_at s8)(rf := ?r, wrf := ?w)\<rparr>"
  have s10': "kbind (set_file rf (\<lambda>_. ?r) s8) (set_file wrf (\<lambda>_. ?w)) = Inr s10"
    using f by (simp add: set_file_def s10_def)
  have t0: "current_task s10 \<noteq> None"
  proof
    assume "current_task s10 = None"
    with c p i f s6' s10' show False by (auto simp: pipe_create_def Let_def s2_def [symmetric] task_get_current_def)
  qed
  then obtain t x y s11 where t1: "current_task s10 = Some t" "pipe_fds (NR_FDS - 3) 3 t rf wrf (-1) s10 = (x, y, s11)"
    by (meson not_Some_eq prod_cases3)
  with c p i f s6' s10' have t: "current_task s10 = Some t" "pipe_fds (NR_FDS - 3) 3 t rf wrf (-1) s10 = (a, b, s')" "0 \<le> a" "0 \<le> b"
    by (auto simp: pipe_create_def Let_def s2_def [symmetric] task_get_current_def split: if_splits)
  obtain y where y: "heap_used s1 (insert (p, y) U)"
    using kmalloc_used [OF u, of SZ_PIPE] p by (auto simp: SZ_PIPE_def)
  then have "heap_used s2 (insert (p, y) U)" by (simp add: s2_def)
  from kz_used [OF i(1) this] obtain y3 where "heap_used s3 (insert (ri, y3) (insert (p, y) U))" by (auto simp: SZ_INODE_def)
  from kz_used [OF i(2) this] obtain y4 where "heap_used s4 (insert (wi, y4) (insert (ri, y3) (insert (p, y) U)))"
    by (auto simp: SZ_INODE_def)
  then have "heap_used s6 (insert (wi, y4) (insert (ri, y3) (insert (p, y) U)))" by (simp add: s6_def)
  from kz_used [OF f(1) this] obtain y7 where "heap_used s7 (insert (rf, y7) (insert (wi, y4) (insert (ri, y3) (insert (p, y) U))))"
    by (auto simp: SZ_FILE_def)
  from kz_used [OF f(2) this] have ne: "wrf \<noteq> rf" by (auto simp: SZ_FILE_def)
  have fs: "task_pool s10 = task_pool s \<and> current_task s10 = current_task s \<and> inode_at s10 = inode_at s6 \<and> pipe_at s10 = pipe_at s2"
    using fs_of_more [OF kmalloc_more [OF p(1)]] kz_fs [OF i(1)] kz_fs [OF i(2)] kz_fs [OF f(1)] kz_fs [OF f(2)]
    by (simp add: s10_def s6_def s2_def)
  from pipe_fds_first [OF t(2-4)] obtain j k where jk: "3 \<le> j" "j < k" "k < NR_FDS" "fd_table (task_pool s10 t) j = None"
      "fd_table (task_pool s10 t) k = None" "a = int j" "b = int k"
      and s': "s' = set_task_fd t k (Some wrf) (set_task_fd t j (Some rf) s10)" by (auto simp: kconst)
  have "fd_file a s' = Some (t, rf)" "fd_file b s' = Some (t, wrf)"
    using jk t(1) by (simp_all add: fd_file_def task_get_current_def s' task_set_fd kconst)
  moreover have "file_at s' rf = ?r" "file_at s' wrf = ?w" using ne by (simp_all add: s' task_set_fd s10_def)
  moreover have "inode_at s' ri = ?n" "inode_at s' wi = ?n" "pipe_at s' p = pipe_zero"
    using fs by (simp_all add: s' task_set_fd s6_def s2_def)
  ultimately have "pipe_ends t a b p s'" "pipe_at s' p = pipe_zero"
    using p(2) i(3,4) by (simp_all add: pipe_ends_def file_pipe_def get_inode_def)
  moreover have "current_task s = Some t" "fd_table (task_pool s t) j = None" "fd_table (task_pool s t) k = None"
    using fs jk t(1) by simp_all
  ultimately show ?thesis using jk by blast
qed

lemma vfs_pipe_write:
  assumes e: "pipe_ends t a b p s" and i: "pipe_inv (pipe_at s p)" and o: "\<not> read_closed (pipe_at s p)"
    and l: "used (pipe_at s p) + length d \<le> PIPE_BUF_SIZE"
  shows "\<exists>q. vfs_write b d s = Inr (Returned (int (length d)), s\<lparr>pipe_at := (pipe_at s)(p := q)\<rparr>)
    \<and> pipe_inv q \<and> pipe_bytes q = pipe_bytes (pipe_at s p) @ d"
proof -
  from e obtain wrf where w: "fd_file b s = Some (t, wrf)" "f_ops (file_at s wrf) = Some Pipe_write_ops" "file_pipe wrf s = Inr p" "p \<noteq> 0"
    by (auto simp: pipe_ends_def)
  obtain q where q: "write_loop d 0 (pipe_at s p) = (True, length d, q)" "pipe_inv q" "pipe_bytes q = pipe_bytes (pipe_at s p) @ d"
  proof -
    have "min (length d) (PIPE_BUF_SIZE - used (pipe_at s p)) = length d" using l by simp
    with write_loop_ok [OF i, of 0 d] that show thesis by auto
  qed
  with w o show ?thesis
    by (auto simp: vfs_write_def ops_write_def pipe_ref_def pipe_write_def pipe_store_def)
qed

lemma vfs_pipe_read:
  assumes e: "pipe_ends t a b p s" and i: "pipe_inv (pipe_at s p)" and l: "len \<le> used (pipe_at s p)"
  shows "\<exists>q. vfs_read a len s = Inr (Returned (int len), take len (pipe_bytes (pipe_at s p)), s\<lparr>pipe_at := (pipe_at s)(p := q)\<rparr>)
    \<and> pipe_inv q \<and> pipe_bytes q = drop len (pipe_bytes (pipe_at s p))"
proof -
  from e obtain rf where w: "fd_file a s = Some (t, rf)" "f_ops (file_at s rf) = Some Pipe_read_ops" "file_pipe rf s = Inr p" "p \<noteq> 0"
    by (auto simp: pipe_ends_def)
  obtain q where q: "read_loop len [] (pipe_at s p) = (True, take len (pipe_bytes (pipe_at s p)), q)" "pipe_inv q"
      "pipe_bytes q = drop len (pipe_bytes (pipe_at s p))"
    using read_loop_ok [OF i, of "[]" len] l by auto
  have "length (take len (pipe_bytes (pipe_at s p))) = len" using l by (simp add: pipe_used)
  with w q show ?thesis
    by (auto simp: vfs_read_def ops_read_def pipe_ref_def pipe_read_def pipe_store_def)
qed

lemma pipe_ends_pipe [simp]: "pipe_ends t a b p (s\<lparr>pipe_at := x\<rparr>) = pipe_ends t a b p s"
proof -
  have "fd_file fd (s\<lparr>pipe_at := x\<rparr>) = fd_file fd s" for fd
    by (cases "current_task s") (simp_all add: fd_file_def task_get_current_def)
  moreover have "file_pipe f (s\<lparr>pipe_at := x\<rparr>) = file_pipe f s" for f
    by (simp add: file_pipe_def get_inode_def)
  ultimately show ?thesis by (simp add: pipe_ends_def)
qed

text \<open>Calls on a descriptor that is not open.\<close>

lemma not_open_calls:
  assumes "fd_file fd s = None"
  shows "vfs_read fd len s = Inr (Returned (- 9), [], s)" "vfs_write fd d s = Inr (Returned (- 9), s)"
    "vfs_close fd s = Inr (- 9, s)" "vfs_seek fd off wh s = Inr (- 9, s)"
  using assms by (simp_all add: vfs_read_def vfs_write_def vfs_close_def vfs_seek_def kconst)

section \<open>A heap with room at its end\<close>

definition roomy :: "nat \<Rightarrow> 'a kheap_scheme \<Rightarrow> bool" where
  "roomy z s \<longleftrightarrow> (\<exists>us a. heap_list s (us @ [(a, z, True)]) \<and> (\<forall>(b, y, f) \<in> set us. \<not> f))"

lemma kmalloc_roomy:
  assumes r: "roomy z s" and sz: "0 < sz" "align_up sz 16 + 64 \<le> z"
  shows "\<exists>p h. kmalloc 2 HEAP_STEPS sz s = Inr (p, s\<lparr>heap := h\<rparr>) \<and> 0 < p \<and> roomy (z - align_up sz 16 - HDR) (s\<lparr>heap := h\<rparr>)"
proof -
  obtain us a where hl: "heap_list s (us @ [(a, z, True)])" and us: "\<forall>(b, y, f) \<in> set us. \<not> f" using r by (auto simp: roomy_def)
  let ?bs = "us @ [(a, z, True)]" and ?sz = "align_up sz 16"
  have nf: "\<forall>x \<in> set us. \<not> fits ?sz x" using us by (auto simp: fits_def)
  then have "List.find (fits ?sz) us = None" by (simp add: find_None_iff)
  then have fd: "List.find (fits ?sz) ?bs = Some (a, z, True)"
    using sz nf by (simp add: find_append fits_def)
  have n: "length ?bs < HEAP_STEPS" using heap_steps_enough [OF hl] by simp
  have hf: "heap_first s = Inr s" using heap_first_cases [OF hl] by (auto split: sum.splits)
  have fb: "find_block HEAP_STEPS ?sz (heap_head s) s = Inr a"
    using find_block_list [of s 0 ?bs HEAP_STEPS ?sz] hl heap_list_nonzero [OF hl] n fd by (simp add: heap_list_def)
  have le: "?sz \<le> z" and m: "?sz mod 16 = 0" using sz by (simp_all add: align_up_def)
  have a0: "0 < a" using heap_list_nonzero [OF hl] by simp
  from take_block_ok [of s us a z "[]", OF _ le m] hl sz obtain h where h: "take_block ?sz a s = Inr (a + HDR, s\<lparr>heap := h\<rparr>)"
    "heap_list (s\<lparr>heap := h\<rparr>) ((us @ [(a, ?sz, False)]) @ [(a + HDR + ?sz, z - ?sz - HDR, True)])" by auto
  have "kmalloc 2 HEAP_STEPS sz s = Inr (a + HDR, s\<lparr>heap := h\<rparr>)"
    using sz(1) hf fb a0 h(1) by (simp add: numeral_2_eq_2)
  moreover have "roomy (z - ?sz - HDR) (s\<lparr>heap := h\<rparr>)"
    unfolding roomy_def using h(2) us by (intro exI [of _ "us @ [(a, ?sz, False)]"] exI [of _ "a + HDR + ?sz"]) auto
  ultimately show ?thesis using a0 by auto
qed

lemma kz_roomy:
  assumes r: "roomy z s" and sz: "0 < sz" "align_up sz 16 + 64 \<le> z"
  shows "\<exists>p h d. kz sz s = Inr (p, s\<lparr>heap := h, heap_data := d\<rparr>) \<and> 0 < p
    \<and> roomy (z - align_up sz 16 - HDR) (s\<lparr>heap := h, heap_data := d\<rparr>)"
  using kmalloc_roomy [OF assms] by (fastforce simp: kzmalloc_def roomy_def heap_list_def)

text \<open>One running task with an empty table, and a root directory with an inode.\<close>

definition one_task_fs :: "fs_state" where
  "one_task_fs = no_task_fs\<lparr>current_task := Some 10, vfs_root := 10, dentry_at := (\<lambda>_. dentry_zero\<lparr>d_inode := 20\<rparr>)\<rparr>"

lemma one_task_simps [simp]:
  "current_task one_task_fs = Some 10" "task_pool one_task_fs t = task_zero" "vfs_root one_task_fs = 10"
  "dentry_at one_task_fs p = dentry_zero\<lparr>d_inode := 20\<rparr>"
  by (simp_all add: one_task_fs_def no_task_fs_def sched_bss_def sched_of_def sched.defs fs_state.defs)

lemma one_task_heap: "heap_list one_task_fs [(HEAP_START, 65504, True)]"
  using heap_list_bss by (simp add: heap_list_def one_task_fs_def no_task_fs_def sched.defs fs_state.defs)

lemma one_task_roomy: "roomy 65504 one_task_fs"
  unfolding roomy_def using one_task_heap by (intro exI [of _ "[]"] exI [of _ HEAP_START]) simp

lemma one_task_open: "\<exists>s1. vfs_open 1 (Some ''/'') 0 one_task_fs = Inr (0, s1)"
proof -
  obtain f h d where k: "kz SZ_FILE one_task_fs = Inr (f, one_task_fs\<lparr>heap := h, heap_data := d\<rparr>)" "0 < f"
    using kz_roomy [OF one_task_roomy, of SZ_FILE] by (auto simp: SZ_FILE_def align_up_def)
  have n: "NR_FDS = Suc 255" by (simp add: kconst)
  have fd: "free_fd NR_FDS 0 (\<lambda>_. None) = Some 0" unfolding n free_fd.simps by simp
  from k show ?thesis
    by (simp add: vfs_open_def lookup_path_def Let_def set_file_def alloc_fd_def fd task_get_current_def task_zero_def
        dentry_zero_def)
qed

lemma one_task_pipe: "\<exists>s1. pipe_create one_task_fs = Inr (0, Some (3, 4), s1)"
proof -
  let ?s = one_task_fs
  obtain p h1 where 1: "kmalloc 2 HEAP_STEPS SZ_PIPE ?s = Inr (p, ?s\<lparr>heap := h1\<rparr>)" "0 < p" "roomy 61360 (?s\<lparr>heap := h1\<rparr>)"
    using kmalloc_roomy [OF one_task_roomy, of SZ_PIPE] by (auto simp: SZ_PIPE_def align_up_def kconst)
  define s2 where "s2 = ?s\<lparr>heap := h1, pipe_at := (pipe_at (?s\<lparr>heap := h1\<rparr>))(p := pipe_zero)\<rparr>"
  have r2: "roomy 61360 s2" using 1(3) by (simp add: roomy_def heap_list_def s2_def)
  obtain ri h2 d2 where 2: "kz SZ_INODE s2 = Inr (ri, s2\<lparr>heap := h2, heap_data := d2\<rparr>)" "0 < ri" "roomy 61232 (s2\<lparr>heap := h2, heap_data := d2\<rparr>)"
    using kz_roomy [OF r2, of SZ_INODE] by (auto simp: SZ_INODE_def align_up_def kconst)
  define s3 where "s3 = s2\<lparr>heap := h2, heap_data := d2\<rparr>"
  obtain wi h3 d3 where 3: "kz SZ_INODE s3 = Inr (wi, s3\<lparr>heap := h3, heap_data := d3\<rparr>)" "0 < wi" "roomy 61104 (s3\<lparr>heap := h3, heap_data := d3\<rparr>)"
    using kz_roomy [OF 2(3) [folded s3_def], of SZ_INODE] by (auto simp: SZ_INODE_def align_up_def kconst)
  let ?n = "inode_zero\<lparr>mode := S_IFIFO OR 0x1B6, fs_data := p\<rparr>"
  define s6 where "s6 = s3\<lparr>heap := h3, heap_data := d3, inode_at := (inode_at s3)(ri := ?n, wi := ?n)\<rparr>"
  have r6: "roomy 61104 s6" using 3(3) by (simp add: roomy_def heap_list_def s6_def)
  obtain rf h7 d7 where 7: "kz SZ_FILE s6 = Inr (rf, s6\<lparr>heap := h7, heap_data := d7\<rparr>)" "0 < rf" "roomy 61024 (s6\<lparr>heap := h7, heap_data := d7\<rparr>)"
    using kz_roomy [OF r6, of SZ_FILE] by (auto simp: SZ_FILE_def align_up_def kconst)
  define s7 where "s7 = s6\<lparr>heap := h7, heap_data := d7\<rparr>"
  obtain wrf h8 d8 where 8: "kz SZ_FILE s7 = Inr (wrf, s7\<lparr>heap := h8, heap_data := d8\<rparr>)" "0 < wrf"
    using kz_roomy [OF 7(3) [folded s7_def], of SZ_FILE] by (auto simp: SZ_FILE_def align_up_def kconst)
  have t: "current_task s7 = Some 10" "task_pool s7 = (\<lambda>_. task_zero)"
    by (simp_all add: s7_def s6_def s3_def s2_def fun_eq_iff)
  have n: "NR_FDS - 3 = Suc (Suc 251)" by (simp add: kconst)
  let ?r = "file_zero\<lparr>f_inode := ri, f_flags := 0, f_refs := 1, f_ops := Some Pipe_read_ops\<rparr>"
  let ?w = "file_zero\<lparr>f_inode := wi, f_flags := 1, f_refs := 1, f_ops := Some Pipe_write_ops\<rparr>"
  define s10 where "s10 = s7\<lparr>heap := h8, heap_data := d8, file_at := (file_at s7)(rf := ?r, wrf := ?w)\<rparr>"
  have 5: "kbind (set_inode ri (\<lambda>_. ?n) (s3\<lparr>heap := h3, heap_data := d3\<rparr>)) (\<lambda>s5. kbind (set_inode wi (\<lambda>_. ?n) s5) k) = k s6" for k :: "fs_state \<Rightarrow> kstop + 'b"
    using 2(2) 3(2) by (simp add: set_inode_def s6_def)
  have 9: "kbind (set_file rf (\<lambda>_. ?r) (s7\<lparr>heap := h8, heap_data := d8\<rparr>)) (\<lambda>s9. kbind (set_file wrf (\<lambda>_. ?w) s9) k) = k s10" for k :: "fs_state \<Rightarrow> kstop + 'b"
    using 7(2) 8(2) by (simp add: set_file_def s10_def)
  have t10: "task_get_current s10 = Some 10" "task_pool s10 = (\<lambda>_. task_zero)" using t by (simp_all add: s10_def task_get_current_def)
  have fds: "pipe_fds (NR_FDS - 3) 3 10 rf wrf (-1) s10 = (3, 4, set_task_fd 10 4 (Some wrf) (set_task_fd 10 3 (Some rf) s10))"
    unfolding n pipe_fds.simps by (simp add: t10 task_set_fd task_zero_def)
  have e2: "?s\<lparr>heap := h1\<rparr>\<lparr>pipe_at := (pipe_at (?s\<lparr>heap := h1\<rparr>))(p := pipe_zero)\<rparr> = s2" by (simp add: s2_def)
  have nz: "(p = 0) = False" "(ri = 0) = False" "(wi = 0) = False" "(rf = 0) = False" "(wrf = 0) = False"
    using 1(2) 2(2) 3(2) 7(2) 8(2) by simp_all
  have "pipe_create ?s = Inr (0, Some (3, 4), set_task_fd 10 4 (Some wrf) (set_task_fd 10 3 (Some rf) s10))"
    unfolding pipe_create_def Let_def 1(1) kbind_simps prod.case nz if_False simp_thms e2 2(1) s3_def [symmetric] 3(1) 5 7(1)
      s7_def [symmetric] 8(1) 9 t10 option.case fds by simp
  then show ?thesis by blast
qed

section \<open>Properties\<close>

text \<open>
  C17: A path is resolved by its components alone: the null path, a path that does not start with a
  slash and every path before a root is mounted resolve to nothing; any other path is the fold
  of the per-component step over the non-empty pieces between the slashes, so repeated and
  trailing slashes make no difference.
\<close>

theorem lookup_path_by_components:
  "lookup_path n path s =
     (case path of
        Some (c # p) \<Rightarrow> if c = CHR ''/'' \<and> vfs_root s \<noteq> 0 then resolve n (vfs_root s) (components p) s else Inr (0, s)
      | _ \<Rightarrow> Inr (0, s))
   \<and> components (x @ ''//'' @ y) = components (x @ ''/'' @ y) \<and> components (x @ ''/'') = components x"
proof -
  have sp: "split_path (x @ CHR ''/'' # y) = split_path x @ split_path y" for x y
    by (induction x) (auto simp: split_path_ne)
  show ?thesis using lookup_path_resolve [of n path s] by (simp add: components_def sp)
qed

text \<open>
  C18: The life of a descriptor: a successful \<open>vfs_open\<close> fills the lowest free slot of the calling
  task's table with a fresh file at offset 0 and touches no other task; a failed one changes no
  table. A \<open>vfs_close\<close> that returns empties exactly that slot, after which every call on the
  descriptor reports \<open>EBADF\<close>.
\<close>

theorem descriptor_life:
  assumes o: "vfs_open n path flags s = Inr (fd, s1)"
  shows "(fd < 0 \<longrightarrow> fd \<in> {- ENOENT, - ENOMEM, - EINVAL} \<and> task_pool s1 = task_pool s)
    \<and> (0 \<le> fd \<longrightarrow>
        (\<exists>t f. current_task s = Some t \<and> fd < 256 \<and> fd_file fd s1 = Some (t, f)
          \<and> fd_table (task_pool s t) (nat fd) = None \<and> (\<forall>j < nat fd. fd_table (task_pool s t) j \<noteq> None)
          \<and> (\<forall>u. u \<noteq> t \<longrightarrow> task_pool s1 u = task_pool s u) \<and> f_offset (file_at s1 f) = 0)
        \<and> (\<forall>r s2. vfs_close fd s1 = Inr (r, s2) \<longrightarrow>
            r = 0 \<and> (\<forall>t k. fd_table (task_pool s2 t) k = fd_table (task_pool s t) k)
            \<and> vfs_read fd len s2 = Inr (Returned (- 9), [], s2) \<and> vfs_write fd d s2 = Inr (Returned (- 9), s2)
            \<and> vfs_close fd s2 = Inr (- 9, s2) \<and> vfs_seek fd off wh s2 = Inr (- 9, s2)))"
proof (cases "0 \<le> fd")
  case False
  then show ?thesis using vfs_open_effect [OF o] by auto
next
  case True
  then obtain t f where t: "current_task s = Some t" "fd < int NR_FDS" "fd_table (task_pool s t) (nat fd) = None"
    "\<forall>j < nat fd. fd_table (task_pool s t) j \<noteq> None" "fd_file fd s1 = Some (t, f)"
    "task_pool s1 = (task_pool s)(t := (task_pool s t)\<lparr>fd_table := (fd_table (task_pool s t))(nat fd \<mapsto> f)\<rparr>)"
    "f_offset (file_at s1 f) = 0"
    using vfs_open_effect [OF o] by blast
  have cl: "r = 0 \<and> (\<forall>t k. fd_table (task_pool s2 t) k = fd_table (task_pool s t) k) \<and> fd_file fd s2 = None"
    if c: "vfs_close fd s1 = Inr (r, s2)" for r s2
    using vfs_close_effect [OF c t(5)] fd_file_closed [OF t(5), of s2] t(3,6) by auto
  have op: "current_task s = Some t \<and> fd < 256 \<and> fd_file fd s1 = Some (t, f)
      \<and> fd_table (task_pool s t) (nat fd) = None \<and> (\<forall>j < nat fd. fd_table (task_pool s t) j \<noteq> None)
      \<and> (\<forall>u. u \<noteq> t \<longrightarrow> task_pool s1 u = task_pool s u) \<and> f_offset (file_at s1 f) = 0"
    using t by (simp add: kconst)
  have "\<forall>r s2. vfs_close fd s1 = Inr (r, s2) \<longrightarrow>
      r = 0 \<and> (\<forall>t k. fd_table (task_pool s2 t) k = fd_table (task_pool s t) k)
      \<and> vfs_read fd len s2 = Inr (Returned (- 9), [], s2) \<and> vfs_write fd d s2 = Inr (Returned (- 9), s2)
      \<and> vfs_close fd s2 = Inr (- 9, s2) \<and> vfs_seek fd off wh s2 = Inr (- 9, s2)"
    using cl not_open_calls by blast
  moreover have "\<not> fd < 0" using True by simp
  ultimately show ?thesis using op by blast
qed

theorem descriptor_life_witness:
  "\<exists>s1. vfs_open 1 (Some ''/'') 0 one_task_fs = Inr (0, s1) \<and> (\<exists>f. fd_file 0 s1 = Some (10, f) \<and> f_offset (file_at s1 f) = 0)"
proof -
  obtain s1 where o: "vfs_open 1 (Some ''/'') 0 one_task_fs = Inr (0, s1)" using one_task_open by blast
  from descriptor_life [OF o, of 0 "[]" 0 0] o show ?thesis by auto
qed

text \<open>
  Pipes end to end: when \<open>pipe_create\<close> succeeds on a well-formed heap, it has filled two free
  descriptors of the calling task above 2, and what is written to the second comes out of the first,
  byte for byte and in order, for every length the buffer holds; the wrong direction is refused.
\<close>

theorem pipe_create_connects:
  assumes u: "heap_used s U" and c: "pipe_create s = Inr (0, Some (a, b), s1)"
    and l: "length d \<le> PIPE_BUF_SIZE" and k: "k \<le> length d"
  shows "3 \<le> a \<and> a < b \<and> b < 256
    \<and> (\<exists>s2 s3 s4. vfs_write b d s1 = Inr (Returned (int (length d)), s2)
        \<and> vfs_read a k s2 = Inr (Returned (int k), take k d, s3)
        \<and> vfs_read a (length d - k) s3 = Inr (Returned (int (length d - k)), drop k d, s4))
    \<and> vfs_read b len s1 = Inr (Returned (- 9), [], s1) \<and> vfs_write a d s1 = Inr (Returned (- 9), s1)"
proof -
  from pipe_create_ends [OF u c] obtain t p where e: "pipe_ends t a b p s1" "pipe_at s1 p = pipe_zero"
    and ab: "3 \<le> a" "a < b" "b < 256" by (auto simp: kconst)
  have z: "pipe_inv pipe_zero" "used pipe_zero = 0" "pipe_bytes pipe_zero = []" "\<not> read_closed pipe_zero"
    by (simp_all add: pipe_inv_def pipe_zero_def pipe_bytes_def kconst)
  obtain q where q: "vfs_write b d s1 = Inr (Returned (int (length d)), s1\<lparr>pipe_at := (pipe_at s1)(p := q)\<rparr>)"
      "pipe_inv q" "pipe_bytes q = d"
    using vfs_pipe_write [OF e(1), of d] e(2) z l by auto
  let ?s2 = "s1\<lparr>pipe_at := (pipe_at s1)(p := q)\<rparr>"
  have uq: "used q = length d" using pipe_used [of q] q(3) by simp
  obtain r where r: "vfs_read a k ?s2 = Inr (Returned (int k), take k d, ?s2\<lparr>pipe_at := (pipe_at ?s2)(p := r)\<rparr>)"
      "pipe_inv r" "pipe_bytes r = drop k d"
    using vfs_pipe_read [of t a b p ?s2 k] e(1) q uq k by auto
  let ?s3 = "?s2\<lparr>pipe_at := (pipe_at ?s2)(p := r)\<rparr>"
  have ur: "used r = length d - k" using pipe_used [of r] r(3) by simp
  have "\<exists>s4. vfs_read a (length d - k) ?s3 = Inr (Returned (int (length d - k)), drop k d, s4)"
    using vfs_pipe_read [of t a b p ?s3 "length d - k"] e(1) r ur by auto
  moreover have "vfs_read b len s1 = Inr (Returned (- 9), [], s1)" "vfs_write a d s1 = Inr (Returned (- 9), s1)"
    using e(1) by (auto simp: pipe_ends_def vfs_read_def vfs_write_def ops_read_def ops_write_def kconst)
  ultimately show ?thesis using ab q(1) r(1) by blast
qed

theorem pipe_create_connects_witness:
  "\<exists>s1 s2 s3. pipe_create one_task_fs = Inr (0, Some (3, 4), s1) \<and> vfs_write 4 [7, 8, 9] s1 = Inr (Returned 3, s2)
     \<and> vfs_read 3 2 s2 = Inr (Returned 2, [7, 8], s3)"
proof -
  obtain s1 where c: "pipe_create one_task_fs = Inr (0, Some (3, 4), s1)" using one_task_pipe by blast
  have u: "heap_used one_task_fs {}" using one_task_heap by (auto simp: heap_used_def)
  have "\<exists>s2 s3. vfs_write 4 [7, 8, 9] s1 = Inr (Returned 3, s2) \<and> vfs_read 3 2 s2 = Inr (Returned 2, [7, 8], s3)"
    using pipe_create_connects [OF u c, of "[7, 8, 9]" 2 0] by (auto simp: kconst)
  with c show ?thesis by blast
qed

text \<open>
  What boot leaves: the registration sequence of \<open>kernel_main\<close> mounts the process file system in
  the first slot, but nothing at the root, so \<open>vfs_root\<close> stays null and every path, those
  below \<open>/proc\<close> included, is reported as missing.
\<close>

theorem boot_has_no_root:
  assumes "vfs_root s = 0" and "mount_table s 0 = \<lparr>m_path = [], m_sb = 0, m_used = False\<rparr>"
  shows "\<exists>s1. procfs_register (ext2_register (vfs_init s)) = Inr s1
    \<and> m_used (mount_table s1 0) \<and> m_path (mount_table s1 0) = ''/proc'' \<and> vfs_root s1 = 0
    \<and> vfs_open n path flags s1 = Inr (- 2, s1) \<and> vfs_stat n path st s1 = Inr (- 2, st, s1)"
proof -
  have m: "MAX_MOUNTS = Suc 15" by (simp add: kconst)
  have fr: "free_slot MAX_MOUNTS 0 (mount_table (snd (vfs_register_fs Procfs_fs (ext2_register (vfs_init s))))) = Some 0"
    unfolding m free_slot.simps by (simp add: vfs_register_fs_def ext2_register_def vfs_init_def m)
  obtain sb s2 where pm: "procfs_mount (snd (vfs_register_fs Procfs_fs (ext2_register (vfs_init s)))) = (sb, s2)" "sb \<noteq> 0" "vfs_root s2 = 0"
    using assms(1) by (auto simp: procfs_mount_def Let_def vfs_register_fs_def ext2_register_def vfs_init_def PROCFS_SB_def)
  have nr: "lookup_path n path x = Inr (0, x)" if "vfs_root x = 0" for x :: "'a fs_state_scheme"
    using that by (simp add: lookup_path_def split: option.split list.split)
  define s3 where "s3 = s2\<lparr>mount_table := (mount_table s2)(0 := \<lparr>m_path = take (PATH_MAX - 1) ''/proc'', m_sb = sb, m_used = True\<rparr>)\<rparr>"
  have "procfs_register (ext2_register (vfs_init s)) = Inr s3"
    unfolding procfs_register_def vfs_mount_def fr using pm
    by (simp add: vfs_register_fs_def fs_name_def fs_mount_def s3_def)
  moreover have "vfs_root s3 = 0" using pm(3) by (simp add: s3_def)
  ultimately show ?thesis
    using nr [of s3] by (simp add: vfs_open_def vfs_stat_def kconst) (simp add: s3_def kconst)
qed

theorem boot_has_no_root_witness:
  "\<exists>s1. procfs_register (ext2_register (vfs_init no_task_fs)) = Inr s1 \<and> vfs_open 1 (Some ''/proc/version'') 0 s1 = Inr (- 2, s1)"
  using boot_has_no_root [of no_task_fs 1 "Some ''/proc/version''" 0 undefined]
  by (auto simp: no_task_fs_def sched.defs fs_state.defs)

end
