(* ===== verification/Framebuffer.thy ===== *)
theory Framebuffer
  imports Ember_Prelude
begin

text \<open>
  The linear framebuffer, \<^verbatim>\<open>src/kernel/drivers/fb/framebuffer.c\<close>. The pixels are the 32-bit cells behind
  \<open>fb_addr\<close>, indexed from 0; coordinates and products keep their 32 bits, the sums in pointer
  arithmetic do not wrap. The section on pixels states what every drawing operation does to
  the picture, pixel by pixel.
\<close>

section \<open>State\<close>

record fb =
  fb_mem :: "nat \<Rightarrow> u32"
  fb_addr :: u64
  fb_width :: u32
  fb_height :: u32
  fb_pitch :: u32
  fb_bpp :: u32
  fb_ready :: bool

section \<open>The font\<close>

text \<open>The rows the initialiser lists; the rest of the 96 rows is zero.\<close>

definition font_rows :: "u8 list list" where
  "font_rows =
    [[0, 0, 0, 0, 0, 0, 0, 0, 0, 0, 0, 0, 0, 0, 0, 0],
     [0, 0x18, 0x18, 0x18, 0x18, 0x18, 0x18, 0x18, 0, 0x18, 0x18, 0, 0, 0, 0, 0],
     [0, 0x66, 0x66, 0x66, 0, 0, 0, 0, 0, 0, 0, 0, 0, 0, 0, 0],
     [0, 0x36, 0x36, 0x7F, 0x36, 0x36, 0x36, 0x7F, 0x36, 0x36, 0, 0, 0, 0, 0, 0],
     [0, 0x3C, 0x42, 0x42, 0x42, 0x42, 0x42, 0x42, 0x42, 0x3C, 0, 0, 0, 0, 0, 0],
     [0, 0x3C, 0x42, 0x42, 0x42, 0x42, 0x42, 0x42, 0x42, 0x3C, 0, 0, 0, 0, 0, 0],
     [0, 0x3C, 0x42, 0x42, 0x42, 0x42, 0x42, 0x42, 0x42, 0x3C, 0, 0, 0, 0, 0, 0],
     [0, 0x3C, 0x42, 0x42, 0x42, 0x42, 0x42, 0x42, 0x42, 0x3C, 0, 0, 0, 0, 0, 0],
     [0, 0x3C, 0x42, 0x42, 0x42, 0x42, 0x42, 0x42, 0x42, 0x3C, 0, 0, 0, 0, 0, 0],
     [0, 0x3C, 0x42, 0x42, 0x42, 0x42, 0x42, 0x42, 0x42, 0x3C, 0, 0, 0, 0, 0, 0],
     [0, 0x3C, 0x42, 0x42, 0x42, 0x42, 0x42, 0x42, 0x42, 0x3C, 0, 0, 0, 0, 0, 0],
     [0, 0x3C, 0x42, 0x42, 0x42, 0x42, 0x42, 0x42, 0x42, 0x3C, 0, 0, 0, 0, 0, 0],
     [0, 0x3C, 0x42, 0x42, 0x42, 0x42, 0x42, 0x42, 0x42, 0x3C, 0, 0, 0, 0, 0, 0],
     [0, 0x3C, 0x42, 0x42, 0x42, 0x42, 0x42, 0x42, 0x42, 0x3C, 0, 0, 0, 0, 0, 0],
     [0, 0x3C, 0x42, 0x42, 0x42, 0x42, 0x42, 0x42, 0x42, 0x3C, 0, 0, 0, 0, 0, 0],
     [0, 0x3C, 0x66, 0x6E, 0x76, 0x66, 0x66, 0x66, 0x66, 0x3C, 0, 0, 0, 0, 0, 0],
     [0, 0x18, 0x38, 0x18, 0x18, 0x18, 0x18, 0x18, 0x18, 0x7E, 0, 0, 0, 0, 0, 0],
     [0, 0x3C, 0x66, 0x06, 0x0C, 0x18, 0x30, 0x60, 0x66, 0x7E, 0, 0, 0, 0, 0, 0],
     [0, 0x3C, 0x66, 0x06, 0x06, 0x1C, 0x06, 0x06, 0x66, 0x3C, 0, 0, 0, 0, 0, 0],
     [0, 0x0C, 0x1C, 0x2C, 0x4C, 0x7E, 0x0C, 0x0C, 0x0C, 0x0C, 0, 0, 0, 0, 0, 0],
     [0, 0x7E, 0x60, 0x60, 0x7C, 0x06, 0x06, 0x06, 0x66, 0x3C, 0, 0, 0, 0, 0, 0],
     [0, 0x1C, 0x30, 0x60, 0x60, 0x7C, 0x66, 0x66, 0x66, 0x3C, 0, 0, 0, 0, 0, 0],
     [0, 0x7E, 0x06, 0x06, 0x0C, 0x18, 0x30, 0x30, 0x30, 0x30, 0, 0, 0, 0, 0, 0],
     [0, 0x3C, 0x66, 0x66, 0x66, 0x3C, 0x66, 0x66, 0x66, 0x3C, 0, 0, 0, 0, 0, 0],
     [0, 0x3C, 0x66, 0x66, 0x66, 0x3E, 0x06, 0x06, 0x0C, 0x38, 0, 0, 0, 0, 0, 0],
     [0, 0x3C, 0x42, 0x42, 0x42, 0x42, 0x42, 0x42, 0x42, 0x3C, 0, 0, 0, 0, 0, 0],
     [0, 0x3C, 0x42, 0x42, 0x42, 0x42, 0x42, 0x42, 0x42, 0x3C, 0, 0, 0, 0, 0, 0],
     [0, 0x3C, 0x42, 0x42, 0x42, 0x42, 0x42, 0x42, 0x42, 0x3C, 0, 0, 0, 0, 0, 0],
     [0, 0x3C, 0x42, 0x42, 0x42, 0x42, 0x42, 0x42, 0x42, 0x3C, 0, 0, 0, 0, 0, 0],
     [0, 0x3C, 0x42, 0x42, 0x42, 0x42, 0x42, 0x42, 0x42, 0x3C, 0, 0, 0, 0, 0, 0],
     [0, 0x3C, 0x42, 0x42, 0x42, 0x42, 0x42, 0x42, 0x42, 0x3C, 0, 0, 0, 0, 0, 0],
     [0, 0x3C, 0x42, 0x42, 0x42, 0x42, 0x42, 0x42, 0x42, 0x3C, 0, 0, 0, 0, 0, 0],
     [0, 0x18, 0x3C, 0x66, 0x66, 0x7E, 0x66, 0x66, 0x66, 0x66, 0, 0, 0, 0, 0, 0],
     [0, 0x7C, 0x66, 0x66, 0x66, 0x7C, 0x66, 0x66, 0x66, 0x7C, 0, 0, 0, 0, 0, 0],
     [0, 0x3C, 0x66, 0x60, 0x60, 0x60, 0x60, 0x60, 0x66, 0x3C, 0, 0, 0, 0, 0, 0],
     [0, 0x78, 0x6C, 0x66, 0x66, 0x66, 0x66, 0x66, 0x6C, 0x78, 0, 0, 0, 0, 0, 0],
     [0, 0x7E, 0x60, 0x60, 0x60, 0x7C, 0x60, 0x60, 0x60, 0x7E, 0, 0, 0, 0, 0, 0],
     [0, 0x7E, 0x60, 0x60, 0x60, 0x7C, 0x60, 0x60, 0x60, 0x60, 0, 0, 0, 0, 0, 0],
     [0, 0x3C, 0x66, 0x60, 0x60, 0x6E, 0x66, 0x66, 0x66, 0x3C, 0, 0, 0, 0, 0, 0],
     [0, 0x66, 0x66, 0x66, 0x66, 0x7E, 0x66, 0x66, 0x66, 0x66, 0, 0, 0, 0, 0, 0],
     [0, 0x3C, 0x18, 0x18, 0x18, 0x18, 0x18, 0x18, 0x18, 0x3C, 0, 0, 0, 0, 0, 0],
     [0, 0x0E, 0x06, 0x06, 0x06, 0x06, 0x06, 0x66, 0x66, 0x3C, 0, 0, 0, 0, 0, 0],
     [0, 0x66, 0x6C, 0x78, 0x70, 0x78, 0x6C, 0x66, 0x66, 0x66, 0, 0, 0, 0, 0, 0],
     [0, 0x60, 0x60, 0x60, 0x60, 0x60, 0x60, 0x60, 0x60, 0x7E, 0, 0, 0, 0, 0, 0],
     [0, 0x63, 0x77, 0x7F, 0x6B, 0x63, 0x63, 0x63, 0x63, 0x63, 0, 0, 0, 0, 0, 0],
     [0, 0x66, 0x76, 0x7E, 0x7E, 0x6E, 0x66, 0x66, 0x66, 0x66, 0, 0, 0, 0, 0, 0],
     [0, 0x3C, 0x66, 0x66, 0x66, 0x66, 0x66, 0x66, 0x66, 0x3C, 0, 0, 0, 0, 0, 0],
     [0, 0x7C, 0x66, 0x66, 0x66, 0x7C, 0x60, 0x60, 0x60, 0x60, 0, 0, 0, 0, 0, 0],
     [0, 0x3C, 0x66, 0x66, 0x66, 0x66, 0x66, 0x6E, 0x6C, 0x36, 0, 0, 0, 0, 0, 0],
     [0, 0x7C, 0x66, 0x66, 0x66, 0x7C, 0x78, 0x6C, 0x66, 0x66, 0, 0, 0, 0, 0, 0],
     [0, 0x3C, 0x66, 0x60, 0x60, 0x3C, 0x06, 0x06, 0x66, 0x3C, 0, 0, 0, 0, 0, 0],
     [0, 0x7E, 0x18, 0x18, 0x18, 0x18, 0x18, 0x18, 0x18, 0x18, 0, 0, 0, 0, 0, 0],
     [0, 0x66, 0x66, 0x66, 0x66, 0x66, 0x66, 0x66, 0x66, 0x3C, 0, 0, 0, 0, 0, 0],
     [0, 0x66, 0x66, 0x66, 0x66, 0x66, 0x66, 0x66, 0x3C, 0x18, 0, 0, 0, 0, 0, 0],
     [0, 0x63, 0x63, 0x63, 0x63, 0x6B, 0x7F, 0x77, 0x63, 0x63, 0, 0, 0, 0, 0, 0],
     [0, 0x66, 0x66, 0x6C, 0x78, 0x30, 0x78, 0x6C, 0x66, 0x66, 0, 0, 0, 0, 0, 0],
     [0, 0x66, 0x66, 0x66, 0x3C, 0x18, 0x18, 0x18, 0x18, 0x18, 0, 0, 0, 0, 0, 0],
     [0, 0x7E, 0x06, 0x0C, 0x18, 0x30, 0x60, 0x60, 0x60, 0x7E, 0, 0, 0, 0, 0, 0],
     [0, 0x3C, 0x42, 0x42, 0x42, 0x42, 0x42, 0x42, 0x42, 0x3C, 0, 0, 0, 0, 0, 0],
     [0, 0x3C, 0x42, 0x42, 0x42, 0x42, 0x42, 0x42, 0x42, 0x3C, 0, 0, 0, 0, 0, 0],
     [0, 0x3C, 0x42, 0x42, 0x42, 0x42, 0x42, 0x42, 0x42, 0x3C, 0, 0, 0, 0, 0, 0],
     [0, 0x3C, 0x42, 0x42, 0x42, 0x42, 0x42, 0x42, 0x42, 0x3C, 0, 0, 0, 0, 0, 0]]"

definition font8x16 :: "u8 list list" where
  "font8x16 = font_rows @ replicate (96 - length font_rows) (replicate 16 0)"

definition box_char :: "u8 list" where
  "box_char = [0, 0x3C, 0x42, 0x42, 0x42, 0x42, 0x42, 0x42, 0x42, 0x3C, 0, 0, 0, 0, 0, 0]"

definition glyph_of :: "char \<Rightarrow> u8 list" where
  "glyph_of c =
     (let idx = of_char c :: nat
      in if 0x20 \<le> idx \<and> idx < 0x80 \<and> idx - 0x20 < 96 then font8x16 ! (idx - 0x20) else box_char)"

section \<open>Operations\<close>

definition fb_init :: "u64 \<Rightarrow> u32 \<Rightarrow> u32 \<Rightarrow> u32 \<Rightarrow> u32 \<Rightarrow> 'a fb_scheme \<Rightarrow> 'a fb_scheme" where
  "fb_init addr width height pitch bpp s =
     s\<lparr>fb_addr := addr, fb_width := width, fb_height := height, fb_pitch := pitch, fb_bpp := bpp, fb_ready := True\<rparr>"

abbreviation stride :: "'a fb_scheme \<Rightarrow> u32" where
  "stride s \<equiv> fb_pitch s div 4"

definition fb_draw_pixel :: "u32 \<Rightarrow> u32 \<Rightarrow> u32 \<Rightarrow> 'a fb_scheme \<Rightarrow> 'a fb_scheme" where
  "fb_draw_pixel x y color s =
     (if \<not> fb_ready s \<or> x \<ge> fb_width s \<or> y \<ge> fb_height s then s
      else s\<lparr>fb_mem := (fb_mem s)(unat (y * stride s + x) := color)\<rparr>)"

definition fb_fill_rect :: "u32 \<Rightarrow> u32 \<Rightarrow> u32 \<Rightarrow> u32 \<Rightarrow> u32 \<Rightarrow> 'a fb_scheme \<Rightarrow> 'a fb_scheme" where
  "fb_fill_rect x y w h color s =
     (if \<not> fb_ready s then s
      else
        (let x_end = min (x + w) (fb_width s); y_end = min (y + h) (fb_height s)
         in s\<lparr>fb_mem :=
              fold (\<lambda>row. fold (\<lambda>col m. m(unat (of_nat row * stride s) + unat x + (col - unat x) := color)) [unat x ..< unat x_end])
                [unat y ..< unat y_end] (fb_mem s)\<rparr>))"

text \<open>The source of a blit is a function of the index.\<close>

definition fb_blit :: "u32 \<Rightarrow> u32 \<Rightarrow> (nat \<Rightarrow> u32) \<Rightarrow> u32 \<Rightarrow> u32 \<Rightarrow> 'a fb_scheme \<Rightarrow> 'a fb_scheme" where
  "fb_blit dst_x dst_y src w h s =
     (if \<not> fb_ready s then s
      else s\<lparr>fb_mem :=
        fold (\<lambda>row. fold (\<lambda>col m. m(unat ((dst_y + of_nat row) * stride s) + unat dst_x + col := src (unat (of_nat row * w) + col)))
                (takeWhile (\<lambda>col. dst_x + of_nat col < fb_width s) [0 ..< unat w]))
          (takeWhile (\<lambda>row. dst_y + of_nat row < fb_height s) [0 ..< unat h]) (fb_mem s)\<rparr>)"

text \<open>Rows are moved from the top down, then the last ones are cleared.\<close>

definition fb_scroll_up :: "u32 \<Rightarrow> 'a fb_scheme \<Rightarrow> 'a fb_scheme" where
  "fb_scroll_up lines s =
     (if \<not> fb_ready s \<or> lines \<ge> fb_height s then s
      else
        (let n = unat (stride s); copy_rows = unat (fb_height s - lines); src = unat (lines * stride s);
             moved = fold (\<lambda>r. fold (\<lambda>c m. m(r * n + c := m (src + r * n + c))) [0 ..< n]) [0 ..< copy_rows] (fb_mem s)
         in s\<lparr>fb_mem := fold (\<lambda>r. fold (\<lambda>c m. m((copy_rows + r) * n + c := 0)) [0 ..< n]) [0 ..< unat lines] moved\<rparr>))"

definition fb_clear :: "u32 \<Rightarrow> 'a fb_scheme \<Rightarrow> 'a fb_scheme" where
  "fb_clear color s = fb_fill_rect 0 0 (fb_width s) (fb_height s) color s"

definition fb_draw_char_bitmap :: "u32 \<Rightarrow> u32 \<Rightarrow> char \<Rightarrow> u32 \<Rightarrow> u32 \<Rightarrow> 'a fb_scheme \<Rightarrow> 'a fb_scheme" where
  "fb_draw_char_bitmap x y c fg bg s =
     (if \<not> fb_ready s then s
      else
        (let glyph = glyph_of c
         in s\<lparr>fb_mem :=
           fold (\<lambda>row. fold (\<lambda>col m. m(unat ((y + of_nat row) * stride s) + unat x + col :=
                     (if glyph ! row AND drop_bit col 0x80 \<noteq> 0 then fg else bg)))
                   (takeWhile (\<lambda>col. x + of_nat col < fb_width s) [0 ..< 8]))
             (takeWhile (\<lambda>row. y + of_nat row < fb_height s) [0 ..< 16]) (fb_mem s)\<rparr>))"

section \<open>Loops that store\<close>

lemma fold_nested: "fold (\<lambda>r. fold (h r) cs) rs m = fold (\<lambda>(r, c). h r c) (List.product rs cs) m"
proof (induction rs arbitrary: m)
  case (Cons r rs)
  have "fold (\<lambda>(r, c). h r c) (map (Pair r) cs) x = fold (h r) cs x" for x
    by (induction cs arbitrary: x) simp_all
  with Cons show ?case by (simp add: fold_append)
qed simp

lemma fold_store_out: "a \<notin> f ` set xs \<Longrightarrow> fold (\<lambda>i m. m(f i := g i)) xs m a = m a"
  by (induction xs arbitrary: m) auto

lemma fold_store_in: "inj_on f (set xs) \<Longrightarrow> i \<in> set xs \<Longrightarrow> fold (\<lambda>i m. m(f i := g i)) xs m (f i) = g i"
proof (induction xs arbitrary: m)
  case (Cons x xs)
  show ?case
  proof (cases "i \<in> set xs")
    case True
    with Cons show ?thesis by auto
  next
    case False
    then have "i = x" using Cons.prems by simp
    moreover have "f x \<notin> f ` set xs" using Cons.prems(1) False \<open>i = x\<close> by (auto simp: inj_on_def)
    ultimately have "fold (\<lambda>i m. m(f i := g i)) xs (m(f x := g x)) (f i) = (m(f x := g x)) (f i)"
      using fold_store_out [of "f x" f xs g "m(f x := g x)"] by simp
    then show ?thesis using \<open>i = x\<close> by (simp only: fold_simps fun_upd_same)
  qed
qed simp

lemma grid_index_eq:
  fixes n :: nat
  assumes "c < n" "c' < n"
  shows "r * n + c = r' * n + c' \<longleftrightarrow> r = r' \<and> c = c'"
proof
  assume e: "r * n + c = r' * n + c'"
  have "(r * n + c) div n = r" "(r' * n + c') div n = r'" using assms by simp_all
  with e show "r = r' \<and> c = c'" by simp
qed simp

text \<open>
  A double loop that stores into the cells of a rectangle of a picture with rows of \<open>n\<close> cells.
\<close>

lemma fold_rect:
  fixes n :: nat
  assumes w: "w = 0 \<or> x + w \<le> n" and px: "px < n"
  shows "fold (\<lambda>r. fold (\<lambda>c m. m((y + r) * n + x + c := g r c)) [0 ..< w]) [0 ..< h] m (py * n + px) =
    (if x \<le> px \<and> px < x + w \<and> y \<le> py \<and> py < y + h then g (py - y) (px - x) else m (py * n + px))"
proof -
  let ?f = "\<lambda>(r, c). (y + r) * n + x + c" and ?L = "List.product [0 ..< h] [0 ..< w]"
  have fold: "fold (\<lambda>r. fold (\<lambda>c m. m((y + r) * n + x + c := g r c)) [0 ..< w]) [0 ..< h] m
      = fold (\<lambda>i m. m(?f i := case_prod g i)) ?L m"
    unfolding fold_nested by (rule arg_cong [of _ _ "\<lambda>f. fold f ?L m"]) (simp add: fun_eq_iff split_beta)
  have eq: "(y + r) * n + x + c = py * n + px \<longleftrightarrow> y + r = py \<and> x + c = px" if "c < w" for r c
    using grid_index_eq [of "x + c" n px "y + r" py] that w px by (auto simp: add.assoc)
  have inj: "inj_on ?f (set ?L)"
  proof (rule inj_onI)
    fix p q assume p: "p \<in> set ?L" and q: "q \<in> set ?L" and e: "?f p = ?f q"
    obtain r c r' c' where pq: "p = (r, c)" "q = (r', c')" by (cases p; cases q)
    then have "c < w" "c' < w" using p q by auto
    with e pq show "p = q"
      using grid_index_eq [of "x + c" n "x + c'" "y + r" "y + r'"] w by (auto simp: add.assoc)
  qed
  show ?thesis
  proof (cases "x \<le> px \<and> px < x + w \<and> y \<le> py \<and> py < y + h")
    case True
    then have "(py - y, px - x) \<in> set ?L" by auto
    from fold_store_in [OF inj this, of "case_prod g" m] True show ?thesis by (simp add: fold)
  next
    case False
    have "py * n + px \<notin> ?f ` set ?L"
    proof
      assume "py * n + px \<in> ?f ` set ?L"
      then obtain r c where "r < h" "c < w" "py * n + px = (y + r) * n + x + c" by auto
      with eq [of c r] False show False by auto
    qed
    from fold_store_out [OF this] False show ?thesis by (auto simp: fold)
  qed
qed

text \<open>Moving the rows up reads every cell before it is overwritten.\<close>

lemma fold_shift_row:
  "fold (\<lambda>c m. m(b + c := m (k + b + c))) [0 ..< n] m a = (if b \<le> a \<and> a < b + n then m (k + a) else m a)" if "0 < k" for k :: nat
proof (induction n arbitrary: a)
  case (Suc n)
  then show ?case using that by (auto simp: less_Suc_eq add.assoc)
qed auto

lemma fold_shift:
  fixes n :: nat
  assumes k: "0 < k"
  shows "fold (\<lambda>r. fold (\<lambda>c m. m(r * n + c := m (k + r * n + c))) [0 ..< n]) [0 ..< h] m a = (if a < h * n then m (k + a) else m a)"
proof (induction h arbitrary: a)
  case (Suc h)
  define m' where "m' = fold (\<lambda>r. fold (\<lambda>c m. m(r * n + c := m (k + r * n + c))) [0 ..< n]) [0 ..< h] m"
  have "fold (\<lambda>r. fold (\<lambda>c m. m(r * n + c := m (k + r * n + c))) [0 ..< n]) [0 ..< Suc h] m a
      = fold (\<lambda>c m. m(h * n + c := m (k + h * n + c))) [0 ..< n] m' a"
    unfolding m'_def upt_Suc by (simp only: fold_append comp_apply fold_simps le0 if_True)
  also have "\<dots> = (if h * n \<le> a \<and> a < h * n + n then m' (k + a) else m' a)"
    by (rule fold_shift_row [OF k])
  also have "\<dots> = (if a < Suc h * n then m (k + a) else m a)"
    using Suc k unfolding m'_def [symmetric] by auto
  finally show ?case .
qed simp

section \<open>Pictures\<close>

text \<open>The geometry the drawing code relies on: a row holds the visible columns, and an offset fits 32 bits.\<close>

definition fb_ok :: "'a fb_scheme \<Rightarrow> bool" where
  "fb_ok s \<longleftrightarrow> fb_ready s \<and> unat (fb_width s) \<le> unat (stride s) \<and> unat (fb_height s) * unat (stride s) < 2 ^ 32"

definition pixel :: "'a fb_scheme \<Rightarrow> nat \<Rightarrow> nat \<Rightarrow> u32" where
  "pixel s px py = fb_mem s (py * unat (stride s) + px)"

lemma unat_lt_32: "unat (x :: u32) < 2 ^ 32"
  using unsigned_less [of x] by simp

lemma unat_add_small: "unat (x :: u32) + n < 2 ^ 32 \<Longrightarrow> unat (x + of_nat n) = unat x + n"
  by (simp add: unat_word_ariths unat_of_nat take_bit_nat_eq_self)

lemma row_offset:
  assumes "fb_ok s" "unat y < unat (fb_height s)"
  shows "unat (y * stride s) = unat y * unat (stride s)"
proof -
  have "unat y * unat (stride s) \<le> unat (fb_height s) * unat (stride s)" using assms(2) by (intro mult_right_mono) simp_all
  also have "\<dots> < 2 ^ 32" using assms(1) by (simp add: fb_ok_def)
  finally have "unat y * unat (stride s) < 2 ^ 32" .
  then show ?thesis by (simp add: unat_word_ariths)
qed

lemma takeWhile_upt: "(\<And>i. i < n \<Longrightarrow> P i \<longleftrightarrow> i < k) \<Longrightarrow> takeWhile P [0 ..< n] = [0 ..< min n k]"
proof (induction n)
  case (Suc n)
  then have IH: "takeWhile P [0 ..< n] = [0 ..< min n k]" by simp
  show ?case
  proof (cases "n < k")
    case True
    then have "\<forall>i \<in> set [0 ..< n]. P i" using Suc.prems by auto
    then show ?thesis using True Suc.prems [of n] by (simp add: takeWhile_append)
  next
    case False
    then show ?thesis
      using IH Suc.prems by (cases "k < n") (auto simp: takeWhile_append min_def)
  qed
qed simp

text \<open>A double loop with offsets computed in 32 bits is one over a rectangle.\<close>

lemma fold_rect_words:
  assumes ok: "fb_ok s" and px: "px < unat (stride s)"
    and w: "w = 0 \<or> unat x + w \<le> unat (fb_width s)" and h: "h = 0 \<or> unat y + h \<le> unat (fb_height s)"
  shows "fold (\<lambda>r. fold (\<lambda>c m. m(unat ((y + of_nat r) * stride s) + unat x + c := g r c)) [0 ..< w]) [0 ..< h] m
      (py * unat (stride s) + px) =
    (if unat x \<le> px \<and> px < unat x + w \<and> unat y \<le> py \<and> py < unat y + h then g (py - unat y) (px - unat x)
     else m (py * unat (stride s) + px))"
proof -
  let ?n = "unat (stride s)"
  have row: "unat ((y + of_nat r) * stride s) = (unat y + r) * ?n" if r: "r < h" for r
  proof -
    have lt: "unat y + r < unat (fb_height s)" using h r by auto
    then have "unat y + r < 2 ^ 32" using unat_lt_32 [of "fb_height s"] by linarith
    then have "unat (y + of_nat r) = unat y + r" by (rule unat_add_small)
    with row_offset [OF ok, of "y + of_nat r"] lt show ?thesis by simp
  qed
  have "fold (\<lambda>r. fold (\<lambda>c m. m(unat ((y + of_nat r) * stride s) + unat x + c := g r c)) [0 ..< w]) [0 ..< h] m
      = fold (\<lambda>r. fold (\<lambda>c m. m((unat y + r) * ?n + unat x + c := g r c)) [0 ..< w]) [0 ..< h] m"
    by (rule fold_cong) (simp_all add: row)
  moreover have "w = 0 \<or> unat x + w \<le> ?n" using w ok by (auto simp: fb_ok_def)
  ultimately show ?thesis
    using fold_rect [OF _ px, of w "unat x" "unat y" g h m py] by (simp only:)
qed

lemma pixel_draw_char:
  assumes ok: "fb_ok s" and px: "px < unat (stride s)" and x: "unat x + 8 < 2 ^ 32" and y: "unat y + 16 < 2 ^ 32"
  shows "pixel (fb_draw_char_bitmap x y c fg bg s) px py =
    (if unat x \<le> px \<and> px < unat x + 8 \<and> px < unat (fb_width s) \<and> unat y \<le> py \<and> py < unat y + 16 \<and> py < unat (fb_height s)
     then if glyph_of c ! (py - unat y) AND drop_bit (px - unat x) 0x80 \<noteq> 0 then fg else bg
     else pixel s px py)"
proof -
  have tx: "takeWhile (\<lambda>col. x + of_nat col < fb_width s) [0 ..< 8] = [0 ..< min 8 (unat (fb_width s) - unat x)]"
    by (rule takeWhile_upt) (use x unat_add_small [of x] in \<open>auto simp: word_less_nat_alt\<close>)
  have ty: "takeWhile (\<lambda>row. y + of_nat row < fb_height s) [0 ..< 16] = [0 ..< min 16 (unat (fb_height s) - unat y)]"
    by (rule takeWhile_upt) (use y unat_add_small [of y] in \<open>auto simp: word_less_nat_alt\<close>)
  let ?w = "min 8 (unat (fb_width s) - unat x)" and ?h = "min 16 (unat (fb_height s) - unat y)"
  let ?g = "\<lambda>row col. if glyph_of c ! row AND drop_bit col 0x80 \<noteq> 0 then fg else bg"
  have "fb_mem (fb_draw_char_bitmap x y c fg bg s) =
      fold (\<lambda>r. fold (\<lambda>c m. m(unat ((y + of_nat r) * stride s) + unat x + c := ?g r c)) [0 ..< ?w]) [0 ..< ?h] (fb_mem s)"
    using ok unfolding fb_draw_char_bitmap_def Let_def tx ty by (simp add: fb_ok_def)
  moreover have "?w = 0 \<or> unat x + ?w \<le> unat (fb_width s)" "?h = 0 \<or> unat y + ?h \<le> unat (fb_height s)" by auto
  moreover have "unat x \<le> px \<and> px < unat x + ?w \<and> unat y \<le> py \<and> py < unat y + ?h \<longleftrightarrow>
      unat x \<le> px \<and> px < unat x + 8 \<and> px < unat (fb_width s) \<and> unat y \<le> py \<and> py < unat y + 16 \<and> py < unat (fb_height s)"
    by auto
  moreover have "stride (fb_draw_char_bitmap x y c fg bg s) = stride s" by (simp add: fb_draw_char_bitmap_def Let_def)
  ultimately show ?thesis
    unfolding pixel_def using fold_rect_words [OF ok px, of ?w x ?h y ?g "fb_mem s" py] by (simp only:)
qed

lemma pixel_fill_rect:
  assumes ok: "fb_ok s" and px: "px < unat (stride s)" and x: "unat x + unat w < 2 ^ 32" and y: "unat y + unat h < 2 ^ 32"
  shows "pixel (fb_fill_rect x y w h color s) px py =
    (if unat x \<le> px \<and> px < unat x + unat w \<and> px < unat (fb_width s) \<and> unat y \<le> py \<and> py < unat y + unat h \<and> py < unat (fb_height s)
     then color else pixel s px py)"
proof -
  have e: "unat (min (x + w) (fb_width s)) = min (unat x + unat w) (unat (fb_width s))"
    "unat (min (y + h) (fb_height s)) = min (unat y + unat h) (unat (fb_height s))"
    using unat_add_small [of x "unat w"] unat_add_small [of y "unat h"] x y by (simp_all add: min_def word_le_nat_alt)
  have sh: "[a ..< b] = map ((+) a) [0 ..< b - a]" for a b :: nat
    by (induction b) (auto simp: Suc_diff_le not_less_eq_eq)
  let ?w = "min (unat x + unat w) (unat (fb_width s)) - unat x" and ?h = "min (unat y + unat h) (unat (fb_height s)) - unat y"
  have "fb_mem (fb_fill_rect x y w h color s) =
      fold (\<lambda>r. fold (\<lambda>c m. m(unat ((y + of_nat r) * stride s) + unat x + c := color)) [0 ..< ?w]) [0 ..< ?h] (fb_mem s)"
    using ok unfolding fb_fill_rect_def Let_def e
    by (simp add: fb_ok_def sh [of "unat y"] sh [of "unat x"] fold_map comp_def)
  moreover have "?w = 0 \<or> unat x + ?w \<le> unat (fb_width s)" "?h = 0 \<or> unat y + ?h \<le> unat (fb_height s)" by auto
  moreover have "unat x \<le> px \<and> px < unat x + ?w \<and> unat y \<le> py \<and> py < unat y + ?h \<longleftrightarrow>
      unat x \<le> px \<and> px < unat x + unat w \<and> px < unat (fb_width s) \<and> unat y \<le> py \<and> py < unat y + unat h \<and> py < unat (fb_height s)"
    by auto
  moreover have "stride (fb_fill_rect x y w h color s) = stride s" by (simp add: fb_fill_rect_def Let_def)
  ultimately show ?thesis
    unfolding pixel_def using fold_rect_words [OF ok px, of ?w x ?h y "\<lambda>_ _. color" "fb_mem s" py] by (simp only:)
qed

lemma pixel_scroll_up:
  assumes ok: "fb_ok s" and px: "px < unat (stride s)" and l: "0 < lines" "lines < fb_height s" and py: "py < unat (fb_height s)"
  shows "pixel (fb_scroll_up lines s) px py =
    (if py + unat lines < unat (fb_height s) then pixel s px (py + unat lines) else 0)"
proof -
  let ?n = "unat (stride s)" and ?k = "unat (lines * stride s)" and ?r = "unat (fb_height s - lines)"
  have n: "0 < ?n" using px by simp
  have k: "?k = unat lines * ?n" using row_offset [OF ok, of lines] l by (simp add: word_less_nat_alt)
  have k0: "0 < ?k" unfolding k using l(1) n by (simp add: unat_gt_0)
  have r: "?r = unat (fb_height s) - unat lines" using l by (simp add: unat_sub word_less_nat_alt word_le_nat_alt)
  define moved where "moved = fold (\<lambda>r. fold (\<lambda>c m. m(r * ?n + c := m (?k + r * ?n + c))) [0 ..< ?n]) [0 ..< ?r] (fb_mem s)"
  have mv: "moved a = (if a < ?r * ?n then fb_mem s (?k + a) else fb_mem s a)" for a
    unfolding moved_def by (rule fold_shift [OF k0])
  have st: "fb_mem (fb_scroll_up lines s) = fold (\<lambda>r. fold (\<lambda>c m. m((?r + r) * ?n + 0 + c := 0)) [0 ..< ?n]) [0 ..< unat lines] moved"
    using ok l unfolding fb_scroll_up_def Let_def moved_def by (simp add: fb_ok_def linorder_not_le)
  have row: "py * ?n + px < ?r * ?n \<longleftrightarrow> py < ?r"
  proof
    assume "py < ?r"
    then have "Suc py * ?n \<le> ?r * ?n" by (intro mult_right_mono) simp_all
    then show "py * ?n + px < ?r * ?n" using px by simp
  next
    assume "py * ?n + px < ?r * ?n"
    then have "py * ?n < ?r * ?n" by linarith
    then show "py < ?r" by simp
  qed
  have "stride (fb_scroll_up lines s) = stride s" by (simp add: fb_scroll_up_def Let_def)
  then have "pixel (fb_scroll_up lines s) px py = (if ?r \<le> py \<and> py < ?r + unat lines then 0 else moved (py * ?n + px))"
    unfolding pixel_def st using fold_rect [of ?n 0 ?n px ?r "\<lambda>_ _. 0" "unat lines" moved py] px by simp
  also have "\<dots> = (if py + unat lines < unat (fb_height s) then pixel s px (py + unat lines) else 0)"
    using r py l row mv [of "py * ?n + px"] k by (auto simp: pixel_def algebra_simps)
  finally show ?thesis .
qed

section \<open>The font table\<close>

text \<open>
  Eleven filler rows stand for the twelve characters from \<open>$\<close> to \<open>/\<close>, so every later row is one place too
  low: the row of the digit 0 is the glyph of \<open>/\<close>, a zero is drawn with the row of the digit 1, the
  letter A with that of B, and the rows the table leaves out are blank, not boxes.
\<close>

theorem font_rows_shifted:
  "font_rows ! 15 = [0, 0x3C, 0x66, 0x6E, 0x76, 0x66, 0x66, 0x66, 0x66, 0x3C, 0, 0, 0, 0, 0, 0] \<and> glyph_of (CHR ''/'') = font_rows ! 15
    \<and> glyph_of (CHR ''0'') = [0, 0x18, 0x38, 0x18, 0x18, 0x18, 0x18, 0x18, 0x18, 0x7E, 0, 0, 0, 0, 0, 0]
    \<and> glyph_of (CHR ''A'') = [0, 0x7C, 0x66, 0x66, 0x66, 0x7C, 0x66, 0x66, 0x66, 0x7C, 0, 0, 0, 0, 0, 0]
    \<and> glyph_of (CHR ''e'') = replicate 16 0"
  by (simp add: glyph_of_def font8x16_def font_rows_def nth_append)

end
