(* ===== verification/Console.thy ===== *)
theory Console
  imports Framebuffer
begin

text \<open>
  The text console, \<^verbatim>\<open>src/kernel/drivers/tty/console.c\<close>, and the transmit side of the serial port,
  \<^verbatim>\<open>src/kernel/drivers/tty/serial.c\<close>. The console draws on the framebuffer of the theory \<open>Framebuffer\<close>;
  its specification is a terminal of 25 rows and 80 columns of coloured characters, which the
  pixels show.
\<close>

section \<open>State\<close>

definition CONSOLE_COLS :: u32 where [kconst]: "CONSOLE_COLS = 80"
definition CONSOLE_ROWS :: u32 where [kconst]: "CONSOLE_ROWS = 25"
definition TAB_WIDTH :: u32 where [kconst]: "TAB_WIDTH = 8"
definition CHAR_W :: u32 where [kconst]: "CHAR_W = 8"
definition CHAR_H :: u32 where [kconst]: "CHAR_H = 16"

record con = fb +
  con_col :: u32
  con_row :: u32
  con_fg :: u8
  con_bg :: u8
  console_ready :: bool

definition vga_colors :: "u32 list" where
  "vga_colors = [0x000000, 0x0000AA, 0x00AA00, 0x00AAAA, 0xAA0000, 0xAA00AA, 0xAA5500, 0xAAAAAA,
     0x555555, 0x5555FF, 0x55FF55, 0x55FFFF, 0xFF5555, 0xFF55FF, 0xFFFF55, 0xFFFFFF]"

section \<open>Operations\<close>

definition console_scroll :: "'a con_scheme \<Rightarrow> 'a con_scheme" where
  "console_scroll s = (if fb_ready s then fb_scroll_up CHAR_H s else s)\<lparr>con_row := CONSOLE_ROWS - 1\<rparr>"

text \<open>The call of \<open>fb_draw_char_bitmap\<close> for the cell at the cursor.\<close>

definition con_draw :: "char \<Rightarrow> 'a con_scheme \<Rightarrow> 'a con_scheme" where
  "con_draw c s = fb_draw_char_bitmap (con_col s * CHAR_W) (con_row s * CHAR_H) c
     (vga_colors ! unat (con_fg s)) (vga_colors ! unat (con_bg s)) s"

lemma con_draw_cursor [simp]:
  "con_col (con_draw c s) = con_col s" "con_row (con_draw c s) = con_row s" "con_fg (con_draw c s) = con_fg s"
  "con_bg (con_draw c s) = con_bg s" "console_ready (con_draw c s) = console_ready s" "fb_ready (con_draw c s) = fb_ready s"
  "fb_width (con_draw c s) = fb_width s" "fb_height (con_draw c s) = fb_height s" "fb_pitch (con_draw c s) = fb_pitch s"
  by (simp_all add: con_draw_def fb_draw_char_bitmap_def Let_def)

function tab_loop :: "u32 \<Rightarrow> 'a con_scheme \<Rightarrow> 'a con_scheme" where
  "tab_loop nx s =
     (if con_col s < nx \<and> con_col s < CONSOLE_COLS then tab_loop nx ((con_draw (CHR '' '') s)\<lparr>con_col := con_col s + 1\<rparr>) else s)"
  by pat_completeness auto
termination
proof (relation "measure (\<lambda>(nx, s). unat (CONSOLE_COLS - con_col s))")
  fix nx and s :: "'a con_scheme"
  assume "con_col s < nx \<and> con_col s < CONSOLE_COLS"
  then have "CONSOLE_COLS - con_col s \<noteq> 0" by auto
  then have "unat (CONSOLE_COLS - con_col s - 1) < unat (CONSOLE_COLS - con_col s)"
    using unat_minus_one unat_gt_0 by (metis diff_less zero_less_one)
  then show "((nx, (con_draw (CHR '' '') s)\<lparr>con_col := con_col s + 1\<rparr>), nx, s) \<in> measure (\<lambda>(nx, s). unat (CONSOLE_COLS - con_col s))"
    by (simp add: diff_diff_eq)
qed simp

declare tab_loop.simps [simp del]

definition console_putc :: "char \<Rightarrow> 'a con_scheme \<Rightarrow> 'a con_scheme" where
  "console_putc c s =
     (if \<not> console_ready s \<or> \<not> fb_ready s then s
      else
        (let s1 =
           (if c = CHR 0x0A then s\<lparr>con_col := 0, con_row := con_row s + 1\<rparr>
            else if c = CHR 0x0D then s\<lparr>con_col := 0\<rparr>
            else if c = CHR 0x09 then tab_loop ((con_col s + TAB_WIDTH) AND NOT (TAB_WIDTH - 1)) s
            else if c = CHR 0x08 then if con_col s > 0 then con_draw (CHR '' '') (s\<lparr>con_col := con_col s - 1\<rparr>) else s
            else
              (let s2 = (con_draw c s)\<lparr>con_col := con_col s + 1\<rparr>
               in if con_col s2 \<ge> CONSOLE_COLS then s2\<lparr>con_col := 0, con_row := con_row s2 + 1\<rparr> else s2))
         in if con_row s1 \<ge> CONSOLE_ROWS then console_scroll s1 else s1))"

definition console_puts :: "string \<Rightarrow> 'a con_scheme \<Rightarrow> 'a con_scheme" where
  "console_puts str s = fold console_putc str s"

definition console_set_color :: "u8 \<Rightarrow> u8 \<Rightarrow> 'a con_scheme \<Rightarrow> 'a con_scheme" where
  "console_set_color fg bg s = s\<lparr>con_fg := fg AND 0x0F, con_bg := bg AND 0x0F\<rparr>"

definition console_clear :: "'a con_scheme \<Rightarrow> 'a con_scheme" where
  "console_clear s =
     (if fb_ready s then fb_fill_rect 0 0 (CONSOLE_COLS * CHAR_W) (CONSOLE_ROWS * CHAR_H) (vga_colors ! unat (con_bg s)) s else s)
       \<lparr>con_col := 0, con_row := 0\<rparr>"

definition console_init :: "'a con_scheme \<Rightarrow> 'a con_scheme" where
  "console_init s = console_clear (s\<lparr>console_ready := True\<rparr>)"

text \<open>What the serial port sends for a character, once the transmitter is free.\<close>

definition serial_putc :: "char \<Rightarrow> string" where
  "serial_putc c = (if c = CHR 0x0A then [CHR 0x0D, c] else [c])"

definition serial_puts :: "string \<Rightarrow> string" where
  "serial_puts str = concat (map serial_putc str)"

section \<open>The terminal\<close>

text \<open>
  A cell is one colour or a character on a background. The cursor may rest behind the last
  column, where a tab can leave it.
\<close>

datatype cell = Solid u32 | Glyph char u32 u32

record terminal =
  t_col :: nat
  t_row :: nat
  cells :: "nat \<Rightarrow> nat \<Rightarrow> cell"

definition put_cell :: "cell \<Rightarrow> terminal \<Rightarrow> terminal" where
  "put_cell x t = t\<lparr>cells := (cells t)(t_row t := (cells t (t_row t))(t_col t := x))\<rparr>"

definition term_scroll :: "terminal \<Rightarrow> terminal" where
  "term_scroll t =
     (if t_row t < 25 then t
      else t\<lparr>t_row := 24, cells := (\<lambda>r. if r < 24 then cells t (r + 1) else (\<lambda>_. Solid 0))\<rparr>)"

definition term_tab :: "u32 \<Rightarrow> u32 \<Rightarrow> terminal \<Rightarrow> terminal" where
  "term_tab fg bg t =
     (if t_col t < 80 then
        (let nx = 8 * (t_col t div 8 + 1)
         in t\<lparr>t_col := nx, cells := (cells t)(t_row t :=
              (\<lambda>c. if t_col t \<le> c \<and> c < nx then Glyph (CHR '' '') fg bg else cells t (t_row t) c))\<rparr>)
      else t)"

definition term_putc :: "u32 \<Rightarrow> u32 \<Rightarrow> char \<Rightarrow> terminal \<Rightarrow> terminal" where
  "term_putc fg bg c t = term_scroll
     (if c = CHR 0x0A then t\<lparr>t_col := 0, t_row := t_row t + 1\<rparr>
      else if c = CHR 0x0D then t\<lparr>t_col := 0\<rparr>
      else if c = CHR 0x09 then term_tab fg bg t
      else if c = CHR 0x08 then if 0 < t_col t then put_cell (Glyph (CHR '' '') fg bg) (t\<lparr>t_col := t_col t - 1\<rparr>) else t
      else if t_col t + 1 < 80 then (put_cell (Glyph c fg bg) t)\<lparr>t_col := t_col t + 1\<rparr>
      else (put_cell (Glyph c fg bg) t)\<lparr>t_col := 0, t_row := t_row t + 1\<rparr>)"

definition term_clear :: "u32 \<Rightarrow> terminal" where
  "term_clear bg = \<lparr>t_col = 0, t_row = 0, cells = (\<lambda>_ _. Solid bg)\<rparr>"

fun cell_pixel :: "cell \<Rightarrow> nat \<Rightarrow> nat \<Rightarrow> u32" where
  "cell_pixel (Solid color) x y = color"
| "cell_pixel (Glyph c fg bg) x y = (if glyph_of c ! y AND drop_bit x 0x80 \<noteq> 0 then fg else bg)"

section \<open>The pixels show the terminal\<close>

definition con_geom :: "'a con_scheme \<Rightarrow> bool" where
  "con_geom s \<longleftrightarrow> fb_ok s \<and> 640 \<le> unat (fb_width s) \<and> 400 \<le> unat (fb_height s)"

definition below_black :: "'a con_scheme \<Rightarrow> bool" where
  "below_black s \<longleftrightarrow> (\<forall>px py. px < 640 \<and> 400 \<le> py \<and> py < unat (fb_height s) \<longrightarrow> pixel s px py = 0)"

definition picture :: "'a con_scheme \<Rightarrow> terminal \<Rightarrow> bool" where
  "picture s t \<longleftrightarrow> con_geom s \<and> console_ready s \<and> below_black s
     \<and> (\<forall>r c x y. r < 25 \<and> c < 80 \<and> x < 8 \<and> y < 16 \<longrightarrow> pixel s (8 * c + x) (16 * r + y) = cell_pixel (cells t r c) x y)"

definition cursor :: "'a con_scheme \<Rightarrow> terminal \<Rightarrow> bool" where
  "cursor s t \<longleftrightarrow> unat (con_col s) = t_col t \<and> unat (con_row s) = t_row t \<and> t_col t \<le> 80"

definition displays :: "'a con_scheme \<Rightarrow> terminal \<Rightarrow> bool" where
  "displays s t \<longleftrightarrow> picture s t \<and> cursor s t \<and> t_row t < 25"

abbreviation fg_of :: "'a con_scheme \<Rightarrow> u32" where "fg_of s \<equiv> vga_colors ! unat (con_fg s)"
abbreviation bg_of :: "'a con_scheme \<Rightarrow> u32" where "bg_of s \<equiv> vga_colors ! unat (con_bg s)"

lemma cell_div:
  fixes c x k :: nat
  shows "x < 8 \<Longrightarrow> 8 * c \<le> 8 * k + x \<and> 8 * k + x < 8 * c + 8 \<longleftrightarrow> c = k"
    "x < 16 \<Longrightarrow> 16 * c \<le> 16 * k + x \<and> 16 * k + x < 16 * c + 16 \<longleftrightarrow> c = k"
  by auto

lemma pixel_update [simp]:
  "pixel (s\<lparr>con_col := a\<rparr>) = pixel s" "pixel (s\<lparr>con_row := b\<rparr>) = pixel s" "pixel (s\<lparr>console_ready := d\<rparr>) = pixel s"
  by (simp_all add: pixel_def fun_eq_iff)

lemma geom_update [simp]:
  "con_geom (s\<lparr>con_col := a\<rparr>) = con_geom s" "con_geom (s\<lparr>con_row := b\<rparr>) = con_geom s" "con_geom (con_draw c s) = con_geom s"
  "con_geom (s\<lparr>console_ready := d\<rparr>) = con_geom s"
  by (simp_all add: con_geom_def fb_ok_def)

lemma picture_cursor [simp]:
  "picture (s\<lparr>con_col := a\<rparr>) t = picture s t" "picture (s\<lparr>con_row := b\<rparr>) t = picture s t"
  "picture s (t\<lparr>t_col := m\<rparr>) = picture s t" "picture s (t\<lparr>t_row := n\<rparr>) = picture s t"
  by (simp_all add: picture_def below_black_def)

lemma pixel_con_draw:
  assumes g: "con_geom s" and px: "px < 640" and col: "unat (con_col s) \<le> 80" and row: "unat (con_row s) < 25"
  shows "pixel (con_draw ch s) px py =
    (if 8 * unat (con_col s) \<le> px \<and> px < 8 * unat (con_col s) + 8 \<and> 16 * unat (con_row s) \<le> py \<and> py < 16 * unat (con_row s) + 16
     then cell_pixel (Glyph ch (fg_of s) (bg_of s)) (px - 8 * unat (con_col s)) (py - 16 * unat (con_row s)) else pixel s px py)"
proof -
  have x: "unat (con_col s * CHAR_W) = 8 * unat (con_col s)" "unat (con_row s * CHAR_H) = 16 * unat (con_row s)"
    using col row by (simp_all add: kconst unat_word_ariths)
  have "px < unat (stride s)" using g px by (simp add: con_geom_def fb_ok_def)
  from pixel_draw_char [OF _ this, of "con_col s * CHAR_W" "con_row s * CHAR_H" ch "fg_of s" "bg_of s" py] g px col row
  show ?thesis unfolding con_draw_def x by (auto simp: con_geom_def)
qed

lemma picture_draw:
  assumes p: "picture s t" and c: "cursor s t" "t_row t < 25"
  shows "picture (con_draw ch s) (put_cell (Glyph ch (fg_of s) (bg_of s)) t)"
proof -
  have g: "con_geom s" and cu: "unat (con_col s) = t_col t" "unat (con_row s) = t_row t" "t_col t \<le> 80"
    using p c by (simp_all add: picture_def cursor_def)
  note d = pixel_con_draw [OF g, of _ ch, unfolded cu, OF _ cu(3) c(2)]
  have "pixel (con_draw ch s) px py = 0" if "px < 640" "400 \<le> py" "py < unat (fb_height s)" for px py
    using d [OF that(1), of py] p c(2) that by (auto simp: picture_def below_black_def)
  moreover have "pixel (con_draw ch s) (8 * k + x) (16 * r + y) = cell_pixel (cells (put_cell (Glyph ch (fg_of s) (bg_of s)) t) r k) x y"
    if b: "r < 25" "k < 80" "x < 8" "y < 16" for r k x y
  proof -
    have "8 * k + x < 640" using b by simp
    then have "pixel (con_draw ch s) (8 * k + x) (16 * r + y) =
        (if t_col t = k \<and> t_row t = r then cell_pixel (Glyph ch (fg_of s) (bg_of s)) (8 * k + x - 8 * t_col t) (16 * r + y - 16 * t_row t)
         else pixel s (8 * k + x) (16 * r + y))"
      using d [of "8 * k + x" "16 * r + y"] cell_div(1) [OF b(3), of "t_col t" k] cell_div(2) [OF b(4), of "t_row t" r] by presburger
    moreover have "pixel s (8 * k + x) (16 * r + y) = cell_pixel (cells t r k) x y" using p b by (simp add: picture_def)
    ultimately show ?thesis by (auto simp: put_cell_def)
  qed
  ultimately show ?thesis using p by (simp add: picture_def below_black_def)
qed

definition fill_to :: "u32 \<Rightarrow> u32 \<Rightarrow> nat \<Rightarrow> terminal \<Rightarrow> terminal" where
  "fill_to fg bg n t =
     (if t_col t < n then t\<lparr>t_col := n, cells := (cells t)(t_row t :=
        (\<lambda>c. if t_col t \<le> c \<and> c < n then Glyph (CHR '' '') fg bg else cells t (t_row t) c))\<rparr> else t)"

lemma fill_to_step:
  "t_col t < n \<Longrightarrow> fill_to fg bg n ((put_cell (Glyph (CHR '' '') fg bg) t)\<lparr>t_col := t_col t + 1\<rparr>) = fill_to fg bg n t"
  by (cases t) (auto simp: fill_to_def put_cell_def fun_eq_iff)

lemma tab_loop_ok:
  assumes "picture s t" "cursor s t" "t_row t < 25" "unat nx \<le> 80"
  shows "picture (tab_loop nx s) (fill_to (fg_of s) (bg_of s) (unat nx) t)
    \<and> cursor (tab_loop nx s) (fill_to (fg_of s) (bg_of s) (unat nx) t)
    \<and> con_fg (tab_loop nx s) = con_fg s \<and> con_bg (tab_loop nx s) = con_bg s"
  using assms
proof (induction nx s arbitrary: t rule: tab_loop.induct)
  case (1 nx s)
  have cu: "unat (con_col s) = t_col t" using "1.prems"(2) by (simp add: cursor_def)
  show ?case
  proof (cases "con_col s < nx")
    case True
    then have lt: "t_col t < unat nx" using cu by (simp add: word_less_nat_alt)
    then have both: "con_col s < nx \<and> con_col s < CONSOLE_COLS" using True "1.prems"(4) cu by (simp add: word_less_nat_alt kconst)
    let ?t = "(put_cell (Glyph (CHR '' '') (fg_of s) (bg_of s)) t)\<lparr>t_col := t_col t + 1\<rparr>"
    let ?s = "(con_draw (CHR '' '') s)\<lparr>con_col := con_col s + 1\<rparr>"
    have p: "picture ?s ?t" using picture_draw [OF "1.prems"(1-3)] by simp
    have "unat (con_col s + 1) = t_col t + 1"
      using unat_add_small [of "con_col s" 1] cu lt "1.prems"(4) by simp
    then have c: "cursor ?s ?t" using "1.prems"(2,4) lt by (simp add: cursor_def put_cell_def)
    have r: "t_row ?t < 25" using "1.prems"(3) by (simp add: put_cell_def)
    from "1.IH" [OF both p c r "1.prems"(4)] fill_to_step [OF lt] show ?thesis
      by (subst (1 2 3 4) tab_loop.simps) (simp add: both)
  next
    case False
    then have "\<not> t_col t < unat nx" using cu by (simp add: word_less_nat_alt)
    with False "1.prems" show ?thesis by (subst (1 2 3 4) tab_loop.simps) (simp add: fill_to_def)
  qed
qed

lemma tab_stop: "unat (x :: u32) < 80 \<Longrightarrow> unat ((x + TAB_WIDTH) AND NOT (TAB_WIDTH - 1)) = 8 * (unat x div 8 + 1)"
proof -
  assume x: "unat x < 80"
  have "(x + 8) AND NOT (mask 3) = push_bit 3 (drop_bit 3 (x + 8))"
    by (rule bit_eqI) (auto simp: bit_simps)
  then have e: "(x + TAB_WIDTH) AND NOT (TAB_WIDTH - 1) = (x + 8) div 8 * 8"
    by (simp add: kconst mask_eq_exp_minus_1 push_bit_eq_mult drop_bit_eq_div)
  have "unat (x + 8) = unat x + 8" using unat_add_small [of x 8] x by simp
  moreover have "(unat x + 8) div 8 * 8 = 8 * (unat x div 8 + 1)" by (simp add: div_add_self2 mult.commute)
  moreover have "(unat x + 8) div 8 * 8 \<le> unat x + 8" by simp
  ultimately show ?thesis using x unfolding e by (simp add: unat_word_ariths unat_div_distrib)
qed

lemma fill_tab: "t_col t < 80 \<Longrightarrow> fill_to fg bg (8 * (t_col t div 8 + 1)) t = term_tab fg bg t"
  by (auto simp: fill_to_def term_tab_def Let_def)

lemma picture_scroll:
  assumes p: "picture s t" and r: "t_row t = 25"
  shows "picture (console_scroll s) (term_scroll t)"
proof -
  have g: "con_geom s" using p by (simp add: picture_def)
  then have f: "fb_ready s" "unat (fb_width s) \<le> unat (stride s)" "640 \<le> unat (fb_width s)" "400 \<le> unat (fb_height s)" "fb_ok s"
    by (simp_all add: con_geom_def fb_ok_def)
  have h: "CHAR_H < fb_height s" using f(4) by (simp add: kconst word_less_nat_alt)
  have d: "pixel (fb_scroll_up CHAR_H s) px py = (if py + 16 < unat (fb_height s) then pixel s px (py + 16) else 0)"
    if "px < 640" "py < unat (fb_height s)" for px py
    using pixel_scroll_up [OF f(5) _ _ h, of px py] that f by (simp add: kconst)
  have keep: "con_geom (fb_scroll_up CHAR_H s) = con_geom s" "console_ready (fb_scroll_up CHAR_H s) = console_ready s"
    "fb_height (fb_scroll_up CHAR_H s) = fb_height s"
    by (simp_all add: con_geom_def fb_ok_def fb_scroll_up_def Let_def)
  have low: "pixel s px py = 0" if "px < 640" "400 \<le> py" "py < unat (fb_height s)" for px py
    using p that by (simp add: picture_def below_black_def)
  have "pixel (fb_scroll_up CHAR_H s) px py = 0" if "px < 640" "400 \<le> py" "py < unat (fb_height s)" for px py
    using d [OF that(1,3)] low [of px "py + 16"] that by simp
  moreover have "pixel (fb_scroll_up CHAR_H s) (8 * c + x) (16 * r + y) = cell_pixel (cells (term_scroll t) r c) x y"
    if b: "r < 25" "c < 80" "x < 8" "y < 16" for r c x y
  proof -
    have px: "8 * c + x < 640" and py: "16 * r + y < unat (fb_height s)" using b f(4) by simp_all
    show ?thesis
    proof (cases "r < 24")
      case True
      then have "r + 1 < 25" by simp
      with p b have "pixel s (8 * c + x) (16 * (r + 1) + y) = cell_pixel (cells t (r + 1) c) x y" unfolding picture_def by blast
      moreover have "16 * r + y + 16 < unat (fb_height s)" using True b f(4) by simp
      ultimately show ?thesis using d [OF px py] True assms(2) by (simp add: term_scroll_def algebra_simps)
    next
      case False
      then have "16 * r + y + 16 < unat (fb_height s) \<longrightarrow> pixel s (8 * c + x) (16 * r + y + 16) = 0" using low [OF px] by simp
      then show ?thesis using d [OF px py] False assms(2) by (simp add: term_scroll_def)
    qed
  qed
  ultimately show ?thesis using p f(1) by (simp add: picture_def below_black_def console_scroll_def keep)
qed

text \<open>The end of \<open>console_putc\<close>: scroll when the cursor has left the last row.\<close>

lemma displays_scroll:
  assumes "picture s t" "cursor s t" "t_row t \<le> 25"
  shows "displays (if con_row s \<ge> CONSOLE_ROWS then console_scroll s else s) (term_scroll t)"
proof (cases "t_row t = 25")
  case True
  then have "con_row s \<ge> CONSOLE_ROWS" using assms(2) by (simp add: cursor_def word_le_nat_alt kconst)
  moreover have "con_col (console_scroll s) = con_col s" "con_row (console_scroll s) = 24"
    by (simp_all add: console_scroll_def fb_scroll_up_def Let_def kconst)
  ultimately show ?thesis
    using picture_scroll [OF assms(1) True] assms(2) True by (simp add: displays_def cursor_def term_scroll_def)
next
  case False
  then have "\<not> con_row s \<ge> CONSOLE_ROWS" using assms(2,3) by (simp add: cursor_def word_le_nat_alt kconst)
  with False assms show ?thesis by (simp add: displays_def term_scroll_def)
qed

lemma displays_putc:
  assumes d: "displays s t"
  shows "displays (console_putc c s) (term_putc (fg_of s) (bg_of s) c t)"
proof -
  have p: "picture s t" and c: "cursor s t" and r: "t_row t < 25" using d by (simp_all add: displays_def)
  have rd: "console_ready s" "fb_ready s" using p by (simp_all add: picture_def con_geom_def fb_ok_def)
  have cu: "unat (con_col s) = t_col t" "unat (con_row s) = t_row t" "t_col t \<le> 80" using c by (simp_all add: cursor_def)
  have inc: "unat (con_row s + 1) = t_row t + 1" "unat (con_col s + 1) = t_col t + 1"
    using unat_add_small [of "con_row s" 1] unat_add_small [of "con_col s" 1] cu r by simp_all
  show ?thesis
  proof (cases "c \<in> {CHR 0x0A, CHR 0x0D, CHR 0x09, CHR 0x08}")
    case True
    then consider "c = CHR 0x0A" | "c = CHR 0x0D" | "c = CHR 0x09" | "c = CHR 0x08" by blast
    then show ?thesis
    proof cases
      case 1
      have "cursor (s\<lparr>con_col := 0, con_row := con_row s + 1\<rparr>) (t\<lparr>t_col := 0, t_row := t_row t + 1\<rparr>)"
        using inc by (simp add: cursor_def)
      from displays_scroll [OF _ this] p r rd 1 show ?thesis by (simp add: console_putc_def Let_def term_putc_def)
    next
      case 2
      have "cursor (s\<lparr>con_col := 0\<rparr>) (t\<lparr>t_col := 0\<rparr>)" using cu by (simp add: cursor_def)
      from displays_scroll [OF _ this] p r rd 2 show ?thesis by (simp add: console_putc_def Let_def term_putc_def)
    next
      case 3
      let ?nx = "(con_col s + TAB_WIDTH) AND NOT (TAB_WIDTH - 1)"
      have "picture (tab_loop ?nx s) (term_tab (fg_of s) (bg_of s) t) \<and> cursor (tab_loop ?nx s) (term_tab (fg_of s) (bg_of s) t)"
      proof (cases "t_col t < 80")
        case True
        then have n: "unat ?nx = 8 * (t_col t div 8 + 1)" using tab_stop [of "con_col s"] cu by simp
        moreover have "t_col t div 8 < 10" using True by (simp add: div_less_iff_less_mult)
        ultimately have "unat ?nx \<le> 80" by simp
        from tab_loop_ok [OF p c r this] show ?thesis unfolding n fill_tab [OF True] by blast
      next
        case False
        then have "\<not> con_col s < CONSOLE_COLS" using cu by (simp add: word_less_nat_alt kconst)
        then have "tab_loop ?nx s = s" by (subst tab_loop.simps) simp
        with p c False show ?thesis by (simp add: term_tab_def)
      qed
      moreover have "t_row (term_tab (fg_of s) (bg_of s) t) = t_row t" by (simp add: term_tab_def Let_def)
      ultimately show ?thesis
        using displays_scroll [of "tab_loop ?nx s"] r rd 3 by (simp add: console_putc_def Let_def term_putc_def)
    next
      case 4
      show ?thesis
      proof (cases "0 < t_col t")
        case True
        let ?s = "s\<lparr>con_col := con_col s - 1\<rparr>" and ?t = "t\<lparr>t_col := t_col t - 1\<rparr>"
        have nz: "con_col s \<noteq> 0" using True cu by (auto simp: unat_gt_0)
        then have "cursor ?s ?t" using cu unat_minus_one [OF nz] by (simp add: cursor_def)
        then have "picture (con_draw (CHR '' '') ?s) (put_cell (Glyph (CHR '' '') (fg_of s) (bg_of s)) ?t)"
          "cursor (con_draw (CHR '' '') ?s) (put_cell (Glyph (CHR '' '') (fg_of s) (bg_of s)) ?t)"
          using picture_draw [of ?s ?t "CHR '' ''"] p r by (simp_all add: cursor_def put_cell_def)
        from displays_scroll [OF this] r rd 4 True nz show ?thesis
          by (simp add: console_putc_def Let_def term_putc_def put_cell_def word_neq_0_conv)
      next
        case False
        then have "con_col s = 0" using cu by (simp add: unat_eq_0)
        with displays_scroll [OF p c] r rd 4 False show ?thesis by (simp add: console_putc_def Let_def term_putc_def)
      qed
    qed
  next
    case False
    let ?s = "(con_draw c s)\<lparr>con_col := con_col s + 1\<rparr>" and ?t = "put_cell (Glyph c (fg_of s) (bg_of s)) t"
    have pd: "picture ?s ?t" using picture_draw [OF p c r] by simp
    have ge: "con_col s + 1 \<ge> CONSOLE_COLS \<longleftrightarrow> \<not> t_col t + 1 < 80" using inc by (auto simp: word_le_nat_alt kconst)
    show ?thesis
    proof (cases "t_col t + 1 < 80")
      case True
      have "cursor ?s (?t\<lparr>t_col := t_col t + 1\<rparr>)" using cu inc True by (simp add: cursor_def put_cell_def)
      from displays_scroll [OF _ this] pd r rd False True ge show ?thesis by (simp add: console_putc_def Let_def term_putc_def put_cell_def)
    next
      case nw: False
      have "cursor (?s\<lparr>con_col := 0, con_row := con_row s + 1\<rparr>) (?t\<lparr>t_col := 0, t_row := t_row t + 1\<rparr>)"
        using cu inc by (simp add: cursor_def put_cell_def)
      from displays_scroll [OF _ this] pd r rd False nw ge show ?thesis
        by (simp add: console_putc_def Let_def term_putc_def put_cell_def split: if_splits)
    qed
  qed
qed

lemma tab_loop_colors: "con_fg (tab_loop nx s) = con_fg s \<and> con_bg (tab_loop nx s) = con_bg s"
proof (induction nx s rule: tab_loop.induct)
  case (1 nx s)
  then show ?case by (subst (1 2) tab_loop.simps) simp
qed

lemma putc_colors: "con_fg (console_putc c s) = con_fg s \<and> con_bg (console_putc c s) = con_bg s"
  by (simp add: console_putc_def Let_def console_scroll_def fb_scroll_up_def tab_loop_colors)

lemma displays_puts:
  "displays s t \<Longrightarrow> displays (console_puts str s) (fold (term_putc (fg_of s) (bg_of s)) str t)"
proof (induction str arbitrary: s t)
  case (Cons c str)
  from Cons.IH [OF displays_putc [OF Cons.prems]] show ?case by (simp add: console_puts_def putc_colors)
qed (simp add: console_puts_def)

lemma displays_init:
  assumes "con_geom s" "below_black s"
  shows "displays (console_init s) (term_clear (bg_of s))"
proof -
  let ?s = "s\<lparr>console_ready := True\<rparr>"
  have ok: "fb_ok ?s" "fb_ready ?s" "640 \<le> unat (fb_width ?s)" "400 \<le> unat (fb_height ?s)" "unat (fb_width ?s) \<le> unat (stride ?s)"
    using assms(1) by (simp_all add: con_geom_def fb_ok_def)
  let ?f = "fb_fill_rect 0 0 (CONSOLE_COLS * CHAR_W) (CONSOLE_ROWS * CHAR_H) (bg_of ?s) ?s"
  have d: "pixel ?f px py = (if py < 400 then bg_of s else pixel s px py)" if "px < 640" for px py
    using pixel_fill_rect [OF ok(1), of px 0 "CONSOLE_COLS * CHAR_W" 0 "CONSOLE_ROWS * CHAR_H" "bg_of ?s" py] that ok
    by (auto simp: kconst)
  have keep: "con_geom ?f = con_geom s" "console_ready ?f" "fb_height ?f = fb_height s"
    by (simp_all add: con_geom_def fb_ok_def fb_fill_rect_def Let_def)
  have "picture ?f (term_clear (bg_of s))"
    unfolding picture_def below_black_def keep
    using assms d keep(2) by (auto simp: term_clear_def below_black_def)
  then show ?thesis
    using ok(2) by (simp add: displays_def console_init_def console_clear_def cursor_def) (simp add: term_clear_def)
qed

section \<open>Properties\<close>

text \<open>
  C30: On a framebuffer of at least 640 by 400 pixels whose lines below the console are black, the
  pixels of the console area show, cell for cell, a terminal that interprets the same
  characters: line feed, carriage return, tab, backspace, wrapping after column 80 and scrolling by
  one row. The terminal and the console agree on the cursor, which stays within its bounds.
\<close>

theorem console_shows_terminal:
  fixes s :: "'a con_scheme" and str :: string
  assumes "con_geom s" and "below_black s"
  defines "t \<equiv> fold (term_putc (fg_of s) (bg_of s)) str (term_clear (bg_of s))"
    and "s' \<equiv> console_puts str (console_init s)"
  shows "unat (con_col s') = t_col t \<and> unat (con_row s') = t_row t \<and> t_col t \<le> 80 \<and> t_row t < 25
    \<and> (\<forall>r c x y. r < 25 \<and> c < 80 \<and> x < 8 \<and> y < 16 \<longrightarrow>
          pixel s' (8 * c + x) (16 * r + y) = cell_pixel (cells t r c) x y)"
proof -
  have "con_fg (console_init s) = con_fg s" "con_bg (console_init s) = con_bg s"
    by (simp_all add: console_init_def console_clear_def fb_fill_rect_def Let_def)
  with displays_puts [OF displays_init [OF assms(1,2)], of str] have "displays s' t" by (simp add: t_def s'_def)
  then show ?thesis by (simp add: displays_def picture_def cursor_def)
qed

text \<open>A black screen of 640 by 400.\<close>

definition con_small :: con where
  "con_small = \<lparr>fb_mem = (\<lambda>_. 0), fb_addr = 0xB8000, fb_width = 640, fb_height = 400, fb_pitch = 2560, fb_bpp = 32,
     fb_ready = True, con_col = 0, con_row = 0, con_fg = 7, con_bg = 0, console_ready = False\<rparr>"

theorem console_shows_terminal_witness:
  "pixel (console_puts ''!'' (console_init con_small)) 3 1 = 0xAAAAAA"
proof -
  have g: "con_geom con_small" "below_black con_small"
    by (auto simp: con_geom_def fb_ok_def below_black_def con_small_def pixel_def)
  let ?t = "fold (term_putc (fg_of con_small) (bg_of con_small)) ''!'' (term_clear (bg_of con_small))"
  have "\<forall>r c x y. r < 25 \<and> c < 80 \<and> x < 8 \<and> y < 16 \<longrightarrow>
      pixel (console_puts ''!'' (console_init con_small)) (8 * c + x) (16 * r + y) = cell_pixel (cells ?t r c) x y"
    using console_shows_terminal [OF g, of "''!''"] by blast
  from this [rule_format, of 0 0 3 1]
  have "pixel (console_puts ''!'' (console_init con_small)) 3 1 = cell_pixel (cells ?t 0 0) 3 1" by simp
  moreover have "cells ?t 0 0 = Glyph (CHR ''!'') 0xAAAAAA 0"
    by (simp add: term_putc_def term_scroll_def put_cell_def term_clear_def con_small_def vga_colors_def)
  ultimately show ?thesis by (simp add: glyph_of_def font8x16_def font_rows_def)
qed

text \<open>
  \<open>fb_scroll_up\<close> moves the picture: every visible row becomes the one \<open>lines\<close> below it, although source
  and destination overlap, and the rows that come in at the bottom are black.
\<close>

theorem fb_scroll_up_moves:
  assumes "fb_ok s" and "0 < lines" and "lines < fb_height s" and "px < unat (fb_width s)" and "py < unat (fb_height s)"
  shows "pixel (fb_scroll_up lines s) px py =
    (if py + unat lines < unat (fb_height s) then pixel s px (py + unat lines) else 0)"
  using pixel_scroll_up [of s px lines py] assms by (simp add: fb_ok_def)

theorem fb_scroll_up_moves_witness:
  "pixel (fb_scroll_up 16 (con_small\<lparr>fb_mem := (\<lambda>_. 0)(10245 := 7)\<rparr>)) 5 0 = 7"
  using fb_scroll_up_moves [of "con_small\<lparr>fb_mem := (\<lambda>_. 0)(10245 := 7)\<rparr>" 16 5 0]
  by (simp add: fb_ok_def con_small_def pixel_def)

text \<open>
  A tab from one of the last eight columns leaves the cursor behind the last one; the next
  character is drawn to the right of the console area, and no pixel of the area changes.
\<close>

theorem tab_hides_next_character:
  assumes d: "displays s t" and c: "72 \<le> t_col t" "t_col t < 80" and ch: "c \<notin> {CHR 0x0A, CHR 0x0D, CHR 0x09, CHR 0x08}"
    and px: "px < 640" and r: "t_row t < 24"
  shows "con_col (console_putc (CHR 0x09) s) = 80 \<and>
    pixel (console_putc c (console_putc (CHR 0x09) s)) px py = pixel (console_putc (CHR 0x09) s) px py"
proof -
  let ?s = "console_putc (CHR 0x09) s" and ?t = "term_putc (fg_of s) (bg_of s) (CHR 0x09) t"
  have d1: "displays ?s ?t" by (rule displays_putc [OF d])
  have "t_col t div 8 = 9" using c by auto
  then have col: "t_col ?t = 80" "t_row ?t = t_row t" using c r by (simp_all add: term_putc_def term_scroll_def term_tab_def Let_def)
  have g: "con_geom ?s" "console_ready ?s" "fb_ready ?s" "unat (con_col ?s) = 80" "unat (con_row ?s) = t_row t"
    using d1 col by (simp_all add: displays_def picture_def cursor_def con_geom_def fb_ok_def)
  then have c80: "con_col ?s = 80" by (simp add: word_unat_eq_iff)
  have dr: "pixel (con_draw c ?s) px py = pixel ?s px py"
    using pixel_con_draw [OF g(1) px, of c py] g(4,5) r px by auto
  have "unat (con_row ?s + 1) = t_row t + 1" using unat_add_small [of "con_row ?s" 1] g(5) r by simp
  then have row: "\<not> CONSOLE_ROWS \<le> con_row ?s + 1" using r by (simp add: word_le_nat_alt kconst)
  have "console_putc c ?s = (con_draw c ?s)\<lparr>con_col := 0, con_row := con_row ?s + 1\<rparr>"
    unfolding console_putc_def [of c] using g(2,3) ch c80 row by (simp add: Let_def kconst)
  with dr c80 show ?thesis by simp
qed

end
