(* ===== verification/Syscall.thy ===== *)
theory Syscall
  imports Vfs Console
begin

text \<open>
  The system call layer, \<^verbatim>\<open>src/kernel/syscall/syscall.c\<close>. The state joins the kernel state of the file
  system and scheduler, the console, the characters sent to the serial line, the user's break, user
  memory as bytes by virtual address, the dispatch table and the model-specific registers. A call
  returns a 64-bit value or, when a pipe makes it wait, \<open>Blocked\<close>. A C string of the
  user is read up to a bound on its length, which the calls take as \<open>n\<close> together with the bound of
  path resolution.
\<close>

section \<open>State\<close>

datatype syscall_fn =
  Sys_read | Sys_write | Sys_open | Sys_close | Sys_exit | Sys_getpid | Sys_getppid | Sys_yield | Sys_sleep
  | Sys_kill | Sys_brk | Sys_uname | Sys_gettimeofday | Sys_stat | Sys_fstat | Sys_mmap | Sys_enosys

record sys =
  kern :: fs_state
  screen :: con
  serial :: string
  user_brk :: u64
  umem :: "u64 \<Rightarrow> u8"
  syscall_table :: "nat \<Rightarrow> syscall_fn"
  msr :: "u32 \<Rightarrow> u64"

datatype sys_result = Ret u64 | Blocked

type_synonym sys_outcome = "kstop + (sys_result \<times> sys)"

section \<open>Arguments and user memory\<close>

text \<open>\<open>(int)fd\<close> keeps the low 32 bits, with sign.\<close>

definition arg_int :: "u64 \<Rightarrow> int" where
  "arg_int a = sint (ucast a :: u32)"

definition ret_int :: "int \<Rightarrow> sys_result" where
  "ret_int r = Ret (word_of_int r)"

fun ret_io :: "io_result \<Rightarrow> sys_result" where
  "ret_io (Returned r) = ret_int r"
| "ret_io Waiting = Blocked"

definition umem_bytes :: "u64 \<Rightarrow> nat \<Rightarrow> sys \<Rightarrow> u8 list" where
  "umem_bytes p n s = map (\<lambda>i. umem s (p + of_nat i)) [0 ..< n]"

fun store :: "u64 \<Rightarrow> u8 list \<Rightarrow> (u64 \<Rightarrow> u8) \<Rightarrow> u64 \<Rightarrow> u8" where
  "store p [] m = m"
| "store p (b # bs) m = store (p + 1) bs (m(p := b))"

definition u8_char :: "u8 \<Rightarrow> char" where
  "u8_char b = char_of (unat b)"

fun user_str :: "nat \<Rightarrow> u64 \<Rightarrow> (u64 \<Rightarrow> u8) \<Rightarrow> kstop + string" where
  "user_str 0 p m = Inl NoProgress"
| "user_str (Suc n) p m =
     (if m p = 0 then Inr [] else kbind (user_str n (p + 1) m) (\<lambda>t. Inr (u8_char (m p) # t)))"

definition user_path :: "nat \<Rightarrow> u64 \<Rightarrow> sys \<Rightarrow> kstop + string option" where
  "user_path n p s = (if p = 0 then Inr None else kbind (user_str n p (umem s)) (\<lambda>t. Inr (Some t)))"

text \<open>Little-endian bytes.\<close>

definition le_bytes :: "nat \<Rightarrow> 'a::len word \<Rightarrow> u8 list" where
  "le_bytes n w = map (\<lambda>i. ucast (drop_bit (8 * i) w)) [0 ..< n]"

section \<open>The calls\<close>

definition sys_read :: "u64 \<Rightarrow> u64 \<Rightarrow> u64 \<Rightarrow> sys \<Rightarrow> sys_outcome" where
  "sys_read fd p count s =
     kbind (vfs_read (arg_int fd) (unat count) (kern s)) (\<lambda>(r, d, k). Inr (ret_io r, s\<lparr>kern := k, umem := store p d (umem s)\<rparr>))"

definition put_char :: "char \<Rightarrow> sys \<Rightarrow> sys" where
  "put_char c s = s\<lparr>screen := console_putc c (screen s), serial := serial s @ serial_putc c\<rparr>"

definition sys_write :: "u64 \<Rightarrow> u64 \<Rightarrow> u64 \<Rightarrow> sys \<Rightarrow> sys_outcome" where
  "sys_write fd p count s =
     (if fd = 1 \<or> fd = 2 then Inr (Ret count, fold put_char (map u8_char (umem_bytes p (unat count) s)) s)
      else kbind (vfs_write (arg_int fd) (umem_bytes p (unat count) s) (kern s)) (\<lambda>(r, k). Inr (ret_io r, s\<lparr>kern := k\<rparr>)))"

definition sys_open :: "nat \<Rightarrow> u64 \<Rightarrow> u64 \<Rightarrow> sys \<Rightarrow> sys_outcome" where
  "sys_open n path flags s =
     kbind (user_path n path s) (\<lambda>pt.
     kbind (vfs_open n pt (ucast flags) (kern s)) (\<lambda>(r, k). Inr (ret_int r, s\<lparr>kern := k\<rparr>)))"

definition sys_close :: "u64 \<Rightarrow> sys \<Rightarrow> sys_outcome" where
  "sys_close fd s = kbind (vfs_close (arg_int fd) (kern s)) (\<lambda>(r, k). Inr (ret_int r, s\<lparr>kern := k\<rparr>))"

text \<open>\<open>task_exit\<close> does not come back to its caller; the value stands for the context it switches to.\<close>

definition sys_exit :: "u64 \<Rightarrow> sys \<Rightarrow> sys_outcome" where
  "sys_exit code s = kbind (task_exit (ucast code) (kern s)) (\<lambda>k. Inr (Ret 0, s\<lparr>kern := k\<rparr>))"

definition sys_getpid :: "sys \<Rightarrow> sys_outcome" where
  "sys_getpid s = Inr (Ret (case task_get_current (kern s) of None \<Rightarrow> 0 | Some t \<Rightarrow> ucast (pid (task_pool (kern s) t))), s)"

definition sys_getppid :: "sys \<Rightarrow> sys_outcome" where
  "sys_getppid s = Inr (Ret (case task_get_current (kern s) of None \<Rightarrow> 0 | Some t \<Rightarrow> ucast (ppid (task_pool (kern s) t))), s)"

definition sys_yield :: "sys \<Rightarrow> sys_outcome" where
  "sys_yield s = kbind (task_yield (kern s)) (\<lambda>k. Inr (Ret 0, s\<lparr>kern := k\<rparr>))"

definition sys_sleep :: "u64 \<Rightarrow> sys \<Rightarrow> sys_outcome" where
  "sys_sleep ms s = kbind (task_sleep (ucast ms) (kern s)) (\<lambda>k. Inr (Ret 0, s\<lparr>kern := k\<rparr>))"

definition sys_kill :: "u64 \<Rightarrow> sys \<Rightarrow> sys_outcome" where
  "sys_kill q s = kbind (task_kill (ucast q) (kern s)) (\<lambda>k. Inr (Ret 0, s\<lparr>kern := k\<rparr>))"

definition sys_enosys :: "sys \<Rightarrow> sys_outcome" where
  "sys_enosys s = Inr (ret_int (- ENOSYS), s)"

text \<open>
  The loops of \<open>sys_brk\<close> and \<open>sys_mmap\<close>: a fresh frame for each of \<open>n\<close> pages from \<open>va\<close> on.
  False when \<open>alloc_page\<close> returns 0.
\<close>

definition USER_FLAGS :: u32 where "USER_FLAGS = 6"    \<comment> \<open>\<open>PF_WRITE | PF_USER | VM_EXEC\<close>\<close>

fun map_user_pages :: "nat \<Rightarrow> u64 \<Rightarrow> fs_state \<Rightarrow> kstop + (bool \<times> fs_state)" where
  "map_user_pages 0 va k = Inr (True, k)"
| "map_user_pages (Suc n) va k =
     kbind (alloc_page k) (\<lambda>(pa, k1).
     if pa = 0 then Inr (False, k1)
     else kbind (map_page pa va USER_FLAGS k1) (\<lambda>(r, k2). map_user_pages n (va + PAGE_SIZE) k2))"

text \<open>The limit is relative to the current break.\<close>

definition USER_BRK_MAX :: "sys \<Rightarrow> u64" where
  "USER_BRK_MAX s = user_brk s + 64 * 1024 * 1024"

definition sys_brk :: "u64 \<Rightarrow> sys \<Rightarrow> sys_outcome" where
  "sys_brk new_brk s =
     (if new_brk = 0 \<or> new_brk < user_brk s \<or> new_brk > USER_BRK_MAX s then Inr (Ret (user_brk s), s)
      else
        (let cur = ALIGN_UP (user_brk s) PAGE_SIZE; nd = ALIGN_UP new_brk PAGE_SIZE
         in kbind (map_user_pages (if cur < nd then unat ((nd - cur) div PAGE_SIZE) else 0) cur (kern s)) (\<lambda>(ok, k).
            if ok then Inr (Ret new_brk, s\<lparr>kern := k, user_brk := new_brk\<rparr>) else Inr (Ret (user_brk s), s\<lparr>kern := k\<rparr>))))"

text \<open>A string and its terminating zero, cut to \<open>max\<close> bytes.\<close>

definition copy_str :: "u64 \<Rightarrow> string \<Rightarrow> nat \<Rightarrow> (u64 \<Rightarrow> u8) \<Rightarrow> u64 \<Rightarrow> u8" where
  "copy_str dst src mx m = store dst (map of_char (take (mx - 1) src) @ [0]) m"

definition sys_uname :: "u64 \<Rightarrow> sys \<Rightarrow> sys_outcome" where
  "sys_uname p s =
     (if p = 0 then Inr (ret_int (- EINVAL), s)
      else Inr (Ret 0, s\<lparr>umem := copy_str (p + 325) ''(none)'' 65 (copy_str (p + 260) ''x86_64'' 65
        (copy_str (p + 195) ''EmberKernel 0.1.0'' 65 (copy_str (p + 130) ''0.0.2'' 65
        (copy_str (p + 65) ''phoenix'' 65 (copy_str p ''PhoenixOS'' 65 (umem s))))))\<rparr>))"

definition sys_gettimeofday :: "u64 \<Rightarrow> sys \<Rightarrow> sys_outcome" where
  "sys_gettimeofday tv s =
     (if tv = 0 then Inr (ret_int (- EINVAL), s)
      else
        (let ticks = timer_ticks (kern s)
         in Inr (Ret 0, s\<lparr>umem := store (tv + 8) (le_bytes 8 ((ticks mod 100) * 10000)) (store tv (le_bytes 8 (ticks div 100)) (umem s))\<rparr>)))"

text \<open>The stores of the two stat calls into the structure at \<open>p\<close>.\<close>

definition stat_zero :: stat where
  "stat_zero = \<lparr>st_ino = 0, st_mode = 0, st_nlink = 0, st_uid = 0, st_gid = 0, st_size = 0, st_atime = 0, st_mtime = 0,
     st_ctime = 0, st_blksize = 0, st_blocks = 0\<rparr>"

definition sys_stat_impl :: "nat \<Rightarrow> u64 \<Rightarrow> u64 \<Rightarrow> sys \<Rightarrow> sys_outcome" where
  "sys_stat_impl n path p s =
     (if path = 0 \<or> p = 0 then Inr (ret_int (- EINVAL), s)
      else
        kbind (user_path n path s) (\<lambda>pt.
        kbind (vfs_stat n pt stat_zero (kern s)) (\<lambda>(r, st, k).
        if r < 0 then Inr (ret_int r, s\<lparr>kern := k\<rparr>)
        else Inr (Ret 0, s\<lparr>kern := k, umem := store (p + 40) (le_bytes 8 (st_mtime st)) (store (p + 24) (le_bytes 8 (st_size st))
          (store (p + 20) (le_bytes 4 (st_gid st)) (store (p + 16) (le_bytes 4 (st_uid st)) (store (p + 12) (le_bytes 4 (st_nlink st))
          (store (p + 8) (le_bytes 4 (st_mode st)) (store p (le_bytes 8 (st_ino st)) (umem s))))))) \<rparr>))))"

definition sys_mmap :: "u64 \<Rightarrow> u64 \<Rightarrow> sys \<Rightarrow> sys_outcome" where
  "sys_mmap addr len s =
     (if len = 0 then Inr (ret_int (- EINVAL), s)
      else
        (let pages = ALIGN_UP len PAGE_SIZE div PAGE_SIZE;
             va_start = ALIGN_UP (if addr \<noteq> 0 then addr else user_brk s) PAGE_SIZE
         in kbind (map_user_pages (unat pages) va_start (kern s)) (\<lambda>(ok, k).
            if ok then Inr (Ret va_start, s\<lparr>kern := k, user_brk := if addr = 0 then va_start + pages * PAGE_SIZE else user_brk s\<rparr>)
            else Inr (ret_int (- ENOMEM), s\<lparr>kern := k\<rparr>))))"

definition sys_fstat_impl :: "u64 \<Rightarrow> u64 \<Rightarrow> sys \<Rightarrow> sys_outcome" where
  "sys_fstat_impl fd p s =
     (if p = 0 then Inr (ret_int (- EINVAL), s)
      else
        (case vfs_fstat (arg_int fd) stat_zero (kern s) of (r, st) \<Rightarrow>
          if r < 0 then Inr (ret_int r, s)
          else Inr (Ret 0, s\<lparr>umem := store (p + 24) (le_bytes 8 (st_size st)) (store (p + 8) (le_bytes 4 (st_mode st))
            (store p (le_bytes 8 (st_ino st)) (umem s)))\<rparr>)))"

section \<open>Dispatch\<close>

definition SYSCALL_MAX :: nat where [kconst]: "SYSCALL_MAX = 256"

definition SYS_READ :: nat where [kconst]: "SYS_READ = 0"
definition SYS_WRITE :: nat where [kconst]: "SYS_WRITE = 1"
definition SYS_OPEN :: nat where [kconst]: "SYS_OPEN = 2"
definition SYS_CLOSE :: nat where [kconst]: "SYS_CLOSE = 3"
definition SYS_STAT :: nat where [kconst]: "SYS_STAT = 4"
definition SYS_FSTAT :: nat where [kconst]: "SYS_FSTAT = 5"
definition SYS_MMAP :: nat where [kconst]: "SYS_MMAP = 9"
definition SYS_BRK :: nat where [kconst]: "SYS_BRK = 12"
definition SYS_YIELD :: nat where [kconst]: "SYS_YIELD = 24"
definition SYS_SLEEP :: nat where [kconst]: "SYS_SLEEP = 35"
definition SYS_GETPID :: nat where [kconst]: "SYS_GETPID = 39"
definition SYS_EXIT :: nat where [kconst]: "SYS_EXIT = 60"
definition SYS_KILL :: nat where [kconst]: "SYS_KILL = 62"
definition SYS_UNAME :: nat where [kconst]: "SYS_UNAME = 63"
definition SYS_GETTIMEOFDAY :: nat where [kconst]: "SYS_GETTIMEOFDAY = 96"
definition SYS_GETPPID :: nat where [kconst]: "SYS_GETPPID = 110"

definition init_table :: "sys \<Rightarrow> sys" where
  "init_table s = s\<lparr>syscall_table :=
     (\<lambda>i. if i < SYSCALL_MAX then Sys_enosys else syscall_table s i)
       (SYS_READ := Sys_read, SYS_WRITE := Sys_write, SYS_OPEN := Sys_open, SYS_CLOSE := Sys_close, SYS_EXIT := Sys_exit,
        SYS_GETPID := Sys_getpid, SYS_GETPPID := Sys_getppid, SYS_YIELD := Sys_yield, SYS_SLEEP := Sys_sleep,
        SYS_KILL := Sys_kill, SYS_BRK := Sys_brk, SYS_UNAME := Sys_uname, SYS_GETTIMEOFDAY := Sys_gettimeofday,
        SYS_STAT := Sys_stat, SYS_FSTAT := Sys_fstat, SYS_MMAP := Sys_mmap)\<rparr>"

definition MSR_EFER :: u32 where "MSR_EFER = 0xC0000080"
definition MSR_STAR :: u32 where "MSR_STAR = 0xC0000081"
definition MSR_LSTAR :: u32 where "MSR_LSTAR = 0xC0000082"
definition MSR_SFMASK :: u32 where "MSR_SFMASK = 0xC0000084"
definition EFER_SCE :: u64 where "EFER_SCE = 1"

text \<open>\<open>entry\<close> is the address of \<open>syscall_entry\<close>, which the assembly defines.\<close>

definition syscall_init :: "u64 \<Rightarrow> sys \<Rightarrow> sys" where
  "syscall_init entry s =
     (let s1 = init_table s
      in s1\<lparr>msr := (msr s1)(MSR_EFER := msr s1 MSR_EFER OR EFER_SCE,
             MSR_STAR := push_bit 48 0x10 OR push_bit 32 0x08, MSR_LSTAR := entry, MSR_SFMASK := push_bit 9 1)\<rparr>)"

definition call_fn :: "nat \<Rightarrow> syscall_fn \<Rightarrow> u64 \<Rightarrow> u64 \<Rightarrow> u64 \<Rightarrow> sys \<Rightarrow> sys_outcome" where
  "call_fn n f a1 a2 a3 s =
     (case f of
        Sys_read \<Rightarrow> sys_read a1 a2 a3 s | Sys_write \<Rightarrow> sys_write a1 a2 a3 s | Sys_open \<Rightarrow> sys_open n a1 a2 s
      | Sys_close \<Rightarrow> sys_close a1 s | Sys_exit \<Rightarrow> sys_exit a1 s | Sys_getpid \<Rightarrow> sys_getpid s | Sys_getppid \<Rightarrow> sys_getppid s
      | Sys_yield \<Rightarrow> sys_yield s | Sys_sleep \<Rightarrow> sys_sleep a1 s | Sys_kill \<Rightarrow> sys_kill a1 s | Sys_brk \<Rightarrow> sys_brk a1 s
      | Sys_uname \<Rightarrow> sys_uname a1 s | Sys_gettimeofday \<Rightarrow> sys_gettimeofday a1 s | Sys_stat \<Rightarrow> sys_stat_impl n a1 a2 s
      | Sys_fstat \<Rightarrow> sys_fstat_impl a1 a2 s | Sys_mmap \<Rightarrow> sys_mmap a1 a2 s | Sys_enosys \<Rightarrow> sys_enosys s)"

text \<open>The fourth and fifth argument are read by no call.\<close>

definition syscall_handler :: "nat \<Rightarrow> u64 \<Rightarrow> u64 \<Rightarrow> u64 \<Rightarrow> u64 \<Rightarrow> sys \<Rightarrow> sys_outcome" where
  "syscall_handler n num a1 a2 a3 s =
     (if unat num \<ge> SYSCALL_MAX then sys_enosys s else call_fn n (syscall_table s (unat num)) a1 a2 a3 s)"

section \<open>Growing the user's memory\<close>

lemma alloc_page_vmm:
  assumes inv: "vmm_inv s" and ne: "free_pfns s \<noteq> {}"
  shows "\<exists>p s1. alloc_page s = Inr (p, s1) \<and> vmm_inv s1 \<and> (\<forall>v. no_huge s1 v = no_huge s v) \<and> (\<forall>v. walk s1 v = walk s v)
    \<and> p \<in> free_addrs s \<and> card (free_pfns s) = card (free_pfns s1) + 1"
proof -
  from inv obtain lev where pi: "pmm_inv s" and ok: "pt_ok lev s" and root: "lev (kernel_pml4 s) = Some 4"
    by (auto simp: vmm_inv_def)
  have ne': "free_addrs s \<noteq> {}" using ne by (auto simp: free_addrs_def)
  obtain p s1 where a: "alloc_page s = Inr (p, s1)" and pi1: "pmm_inv s1" using pm.alloc_avail [OF pi ne'] by blast
  note fr = alloc_page_frame [OF a]
  have "p \<noteq> b" if "PHYS_TO_VIRT b = t" "b \<notin> free_addrs s" for b t using fr(1) that by auto
  then have same: "kmem s1 (u + 8 * j) = kmem s (u + 8 * j)" if "lev u = Some m" "j < 512" for u m j
    using alloc_page_slots [OF a pt_ok_base [OF ok that(1)] that(2)] ok that(1) unfolding pt_ok_def by fastforce
  have ok1: "pt_ok lev s1" using ok same fr(2) unfolding pt_ok_def by fastforce
  then have v1: "vmm_inv s1" using pi1 root fr(3) by (auto simp: vmm_inv_def)
  have h: "huge_on_path (kmem s1) (kernel_pml4 s) (indices v) = huge_on_path (kmem s) (kernel_pml4 s) (indices v)" for v
    using leaf_slot_cong [OF ok, of "kmem s1"] same root by (metis indices_less length_indices)
  have c1: "card (free_pfns s) = card (free_pfns s1) + 1"
    using fr(1,2) card_free_addrs [of s] card_free_addrs [of s1] by (metis Suc_eq_plus1 card_Suc_Diff1 finite)
  have sl: "slot s1 v = slot s v" for v
    using leaf_slot_cong [OF ok, of "kmem s1"] same root fr(3) unfolding slot_def by (metis indices_less length_indices)
  have "kmem s1 b = kmem s b" if "slot s v = Some b" for v b
    using leaf_slot_table [OF ok _ indices_less, of "kernel_pml4 s" v b] that root same by (auto simp: slot_def length_indices)
  then have w: "walk s1 v = walk s v" for v unfolding walk_def sl by (auto split: option.split)
  show ?thesis using a v1 h fr(1,3) c1 w by (auto simp: no_huge_def)
qed

text \<open>Every page of the range ends up mapped for the user, and no other address loses its mapping.\<close>

lemma map_user_ok:
  "vmm_inv k \<Longrightarrow> \<forall>v. no_huge k v \<Longrightarrow> 4 * n \<le> card (free_pfns k) \<Longrightarrow> 0 \<notin> free_addrs k \<Longrightarrow>
   \<exists>k'. map_user_pages n va k = Inr (True, k') \<and> vmm_inv k' \<and> (\<forall>v. no_huge k' v)
     \<and> (\<forall>i < n. \<exists>pa. walk k' (va + PAGE_SIZE * of_nat i) = Some (pt_entry pa USER_FLAGS))
     \<and> (\<forall>v. walk k v = None \<or> walk k' v = walk k v \<or> (\<exists>pa. walk k' v = Some (pt_entry pa USER_FLAGS)))"
proof (induction n arbitrary: va k)
  case (Suc n)
  have "free_pfns k \<noteq> {}" using Suc.prems(3) by auto
  from alloc_page_vmm [OF Suc.prems(1) this] obtain pa k1 where a: "alloc_page k = Inr (pa, k1)" "vmm_inv k1"
      "\<forall>v. no_huge k1 v = no_huge k v" "\<forall>v. walk k1 v = walk k v" "pa \<in> free_addrs k" "card (free_pfns k) = card (free_pfns k1) + 1"
    by blast
  have fa: "free_addrs k1 \<subseteq> free_addrs k" using alloc_page_frame(2) [OF a(1)] by blast
  have "3 \<le> card (free_pfns k1)" using a(6) Suc.prems(3) by simp
  from map_page_ok [OF a(2) this, of va pa USER_FLAGS] obtain k2 where m: "map_page pa va USER_FLAGS k1 = Inr (0, k2)" "vmm_inv k2"
      "\<forall>v. walk k2 v = (if slot k2 v = slot k2 va then Some (pt_entry pa USER_FLAGS) else walk k1 v)"
      "\<forall>v. no_huge k2 v = no_huge k1 v" "free_addrs k2 \<subseteq> free_addrs k1" "card (free_pfns k1) \<le> card (free_pfns k2) + 3"
    using a(3) Suc.prems(2) by blast
  have "\<forall>v. no_huge k2 v" "4 * n \<le> card (free_pfns k2)" "0 \<notin> free_addrs k2"
    using Suc.prems a(3,6) m(4,5,6) fa by auto
  from Suc.IH [OF m(2) this, of "va + PAGE_SIZE"] obtain k' where k': "map_user_pages n (va + PAGE_SIZE) k2 = Inr (True, k')"
      "vmm_inv k'" "\<forall>v. no_huge k' v"
      "\<forall>i < n. \<exists>pa. walk k' (va + PAGE_SIZE + PAGE_SIZE * of_nat i) = Some (pt_entry pa USER_FLAGS)"
      "\<forall>v. walk k2 v = None \<or> walk k' v = walk k2 v \<or> (\<exists>pa. walk k' v = Some (pt_entry pa USER_FLAGS))"
    by blast
  have va: "walk k2 va = Some (pt_entry pa USER_FLAGS)" using m(3) by simp
  have "\<exists>pa. walk k' (va + PAGE_SIZE * of_nat i) = Some (pt_entry pa USER_FLAGS)" if "i < Suc n" for i
  proof (cases i)
    case 0
    have "walk k' va = walk k2 va \<or> (\<exists>pa. walk k' va = Some (pt_entry pa USER_FLAGS))" using k'(5) [rule_format, of va] va by simp
    with va 0 show ?thesis by auto
  next
    case (Suc j)
    then show ?thesis using k'(4) that by (auto simp: algebra_simps)
  qed
  moreover have "walk k v = None \<or> walk k' v = walk k v \<or> (\<exists>pa. walk k' v = Some (pt_entry pa USER_FLAGS))" for v
    using k'(5) [rule_format, of v] m(3) [rule_format, of v] a(4) by (auto split: if_splits)
  moreover have "pa \<noteq> 0" using a(5) Suc.prems(4) by auto
  ultimately show ?case using a(1) m(1) k'(1-3) by auto
qed simp

section \<open>Properties\<close>

lemma align_page_bounds:
  "unat (x :: u64) + 4095 < 2 ^ 64 \<Longrightarrow> unat (ALIGN_UP x PAGE_SIZE) = (unat x + 4095) div 4096 * 4096"
proof -
  assume x: "unat x + 4095 < 2 ^ 64"
  then have "unat (x + 4095) = unat x + 4095" by (simp add: unat_word_ariths)
  then show ?thesis by (simp add: ALIGN_UP_page unat_page_round)
qed

text \<open>The number of pages between two breaks.\<close>

definition brk_pages :: "u64 \<Rightarrow> u64 \<Rightarrow> nat" where
  "brk_pages old new = (unat new + 4095) div 4096 - (unat old + 4095) div 4096"

lemma brk_loop_count:
  assumes "unat old + 4095 < 2 ^ 64" "unat new + 4095 < 2 ^ 64"
  shows "(if ALIGN_UP old PAGE_SIZE < ALIGN_UP new PAGE_SIZE
      then unat ((ALIGN_UP new PAGE_SIZE - ALIGN_UP old PAGE_SIZE) div PAGE_SIZE) else 0) = brk_pages old new"
proof -
  let ?a = "ALIGN_UP old PAGE_SIZE" and ?b = "ALIGN_UP new PAGE_SIZE"
  have u: "unat ?a = (unat old + 4095) div 4096 * 4096" "unat ?b = (unat new + 4095) div 4096 * 4096"
    using assms align_page_bounds by auto
  show ?thesis
  proof (cases "?a < ?b")
    case True
    then have "unat (?b - ?a) = unat ?b - unat ?a" by (simp add: unat_sub word_less_nat_alt word_le_nat_alt)
    then have "unat ((?b - ?a) div PAGE_SIZE) = ((unat new + 4095) div 4096 * 4096 - (unat old + 4095) div 4096 * 4096) div 4096"
      unfolding u by (simp add: unat_div_distrib kconst)
    also have "\<dots> = brk_pages old new" by (simp add: brk_pages_def flip: diff_mult_distrib)
    finally show ?thesis using True by simp
  next
    case False
    then have "unat ?b \<le> unat ?a" by (simp add: word_less_nat_alt)
    then show ?thesis using False unfolding u by (simp add: brk_pages_def)
  qed
qed

text \<open>One task, a small screen and empty user memory.\<close>

definition sys_small :: sys where
  "sys_small = \<lparr>kern = one_task_fs, screen = con_small, serial = [], user_brk = 0x400000000, umem = (\<lambda>_. 0),
     syscall_table = (\<lambda>_. Sys_enosys), msr = (\<lambda>_. 0)\<rparr>"



lemma store_notin: "q \<notin> (\<lambda>i. p + of_nat i) ` {..< length d} \<Longrightarrow> store p d m q = m q"
proof (induction d arbitrary: p m)
  case (Cons b d)
  have "q \<noteq> p + of_nat i" if "i < Suc (length d)" for i using Cons.prems that by auto
  from this [of 0] this [of "Suc i" for i] have "q \<noteq> p" "q \<notin> (\<lambda>i. p + 1 + of_nat i) ` {..< length d}"
    by (auto simp: algebra_simps)
  with Cons.IH [of "p + 1" "m(p := b)"] show ?case by (simp only: store.simps fun_upd_other not_False_eq_True)
qed simp

lemma umem_store:
  assumes "length d < 2 ^ 64"
  shows "umem_bytes p (length d) (s\<lparr>umem := store p d m\<rparr>) = d"
proof -
  have "store p d m (p + of_nat i) = d ! i" if "length d < 2 ^ 64" "i < length d" for d p m i
    using that
  proof (induction d arbitrary: p m i)
    case (Cons b d)
    show ?case
    proof (cases i)
      case 0
      have "p \<notin> (\<lambda>i. p + 1 + of_nat i) ` {..< length d}"
      proof
        assume "p \<in> (\<lambda>i. p + 1 + of_nat i) ` {..< length d}"
        then obtain j where j: "j < length d" "p = p + 1 + of_nat j" by auto
        then have "(of_nat (Suc j) :: u64) = 0" by (simp add: algebra_simps)
        moreover have "Suc j < 2 ^ 64" using j(1) Cons.prems(1) by simp
        ultimately show False using unat_of_nat_small [of "Suc j"] by simp
      qed
      from store_notin [OF this, of "m(p := b)"] 0 show ?thesis by simp
    next
      case (Suc j)
      then show ?thesis using Cons.IH [of j "p + 1" "m(p := b)"] Cons.prems by (simp add: algebra_simps del: fun_upd_apply)
    qed
  qed simp
  then show ?thesis using assms by (auto simp: umem_bytes_def intro!: nth_equalityI)
qed

text \<open>
  C20: The path from user to user: writing a user buffer to the write end of a fresh pipe and reading as
  many bytes from its read end, both through the system calls, copies the buffer byte for byte; both
  calls return the length.
\<close>

theorem pipe_syscalls_copy:
  assumes e: "pipe_ends t (int a) (int b) p (kern s)" and z: "pipe_at (kern s) p = pipe_zero"
    and ab: "3 \<le> a" "a < 256" "3 \<le> b" "b < 256" and l: "len \<le> 4096"
  shows "\<exists>s1 s2. sys_write (of_nat b) src (of_nat len) s = Inr (Ret (of_nat len), s1)
    \<and> sys_read (of_nat a) dst (of_nat len) s1 = Inr (Ret (of_nat len), s2)
    \<and> umem_bytes dst len s2 = umem_bytes src len s"
proof -
  have arg: "arg_int (of_nat k) = int k" if "k < 256" for k
  proof -
    have u: "unat (ucast (of_nat k :: u64) :: u32) = k" using that by (simp add: unat_of_nat unsigned_ucast_eq take_bit_nat_eq_self)
    have "(of_nat (unat (ucast (of_nat k :: u64) :: u32)) :: u32) = ucast (of_nat k :: u64)" by simp
    then have "(ucast (of_nat k :: u64) :: u32) = of_nat k" unfolding u by (rule sym)
    moreover have "sint (of_nat k :: u32) = int k" using that by (simp add: signed_of_nat signed_take_bit_int_eq_self)
    ultimately show ?thesis by (simp add: arg_int_def)
  qed
  have un: "unat (of_nat len :: u64) = len" using l by (simp add: unat_of_nat_small)
  have fd: "(of_nat b :: u64) \<noteq> 1" "(of_nat b :: u64) \<noteq> 2"
    using unat_of_nat_small [of b] ab by auto
  let ?d = "umem_bytes src len s"
  have zi: "pipe_inv pipe_zero" "used pipe_zero = 0" "pipe_bytes pipe_zero = []" "\<not> read_closed pipe_zero"
    by (simp_all add: pipe_inv_def pipe_zero_def pipe_bytes_def kconst)
  have ld: "length ?d = len" by (simp add: umem_bytes_def)
  obtain q where q: "vfs_write (int b) ?d (kern s) = Inr (Returned (int len), (kern s)\<lparr>pipe_at := (pipe_at (kern s))(p := q)\<rparr>)"
      "pipe_inv q" "pipe_bytes q = ?d"
    using vfs_pipe_write [OF e, of ?d] z zi ld l by (auto simp: kconst)
  let ?k = "(kern s)\<lparr>pipe_at := (pipe_at (kern s))(p := q)\<rparr>"
  have uq: "used q = len" using pipe_used [of q] q(3) ld by simp
  obtain k2 where r: "vfs_read (int a) len ?k = Inr (Returned (int len), ?d, k2)"
    using vfs_pipe_read [of t "int a" "int b" p ?k len] e q uq ld by auto
  let ?s1 = "s\<lparr>kern := ?k\<rparr>" and ?s2 = "s\<lparr>kern := k2, umem := store dst ?d (umem s)\<rparr>"
  have "sys_write (of_nat b) src (of_nat len) s = Inr (Ret (of_nat len), ?s1)"
    using fd q(1) arg [OF ab(4)] un by (simp add: sys_write_def ret_int_def)
  moreover have "sys_read (of_nat a) dst (of_nat len) ?s1 = Inr (Ret (of_nat len), ?s2)"
    using r arg [OF ab(2)] un by (simp add: sys_read_def ret_int_def)
  moreover have "umem_bytes dst len ?s2 = ?d"
    using umem_store [where d = ?d and p = dst and s = "s\<lparr>kern := k2\<rparr>" and m = "umem s"] ld l by simp
  ultimately show ?thesis by blast
qed

text \<open>
  Writing to descriptor 1 or 2 shows the user's bytes on the screen as the terminal interprets
  them, sends them to the serial line with a carriage return before every line feed, touches no
  kernel state and returns the count.
\<close>

theorem sys_write_console:
  assumes d: "displays (screen s) t" and fd: "fd = 1 \<or> fd = 2"
  shows "\<exists>s'. sys_write fd p count s = Inr (Ret count, s')
    \<and> displays (screen s') (fold (term_putc (fg_of (screen s)) (bg_of (screen s))) (map u8_char (umem_bytes p (unat count) s)) t)
    \<and> serial s' = serial s @ serial_puts (map u8_char (umem_bytes p (unat count) s)) \<and> kern s' = kern s"
proof -
  have f: "screen (fold put_char cs x) = console_puts cs (screen x) \<and> serial (fold put_char cs x) = serial x @ serial_puts cs
      \<and> kern (fold put_char cs x) = kern x" for cs x
    by (induction cs arbitrary: x) (simp_all add: put_char_def console_puts_def serial_puts_def)
  show ?thesis
    using fd displays_puts [OF d] f [of "map u8_char (umem_bytes p (unat count) s)" s] by (auto simp: sys_write_def)
qed

text \<open>
  After \<open>syscall_init\<close> every number without a handler, those of the header that the table leaves
  out included, is answered with \<open>ENOSYS\<close> and changes nothing.
\<close>

theorem unknown_syscall:
  assumes "unat num \<notin> {0, 1, 2, 3, 4, 5, 9, 12, 24, 35, 39, 60, 62, 63, 96, 110}"
  shows "syscall_handler n num a1 a2 a3 (syscall_init entry s) = Inr (Ret (- 38), syscall_init entry s)"
  using assms by (simp add: syscall_handler_def syscall_init_def init_table_def Let_def sys_enosys_def call_fn_def ret_int_def kconst)

theorem unknown_syscall_witness:
  "syscall_handler 0 22 0 0 0 (syscall_init 0x1000 sys_small) = Inr (Ret (- 38), syscall_init 0x1000 sys_small)"
  using unknown_syscall [of 22 0 0 0 0 "0x1000" sys_small] by simp

theorem sys_write_console_witness:
  "\<exists>s'. sys_write 1 0 3 (sys_small\<lparr>screen := console_init con_small, umem := (\<lambda>_. 0x0A)\<rparr>) = Inr (Ret 3, s')
    \<and> serial s' = [CHR 0x0D, CHR 0x0A, CHR 0x0D, CHR 0x0A, CHR 0x0D, CHR 0x0A]"
proof -
  have g: "con_geom con_small" "below_black con_small"
    by (auto simp: con_geom_def fb_ok_def below_black_def con_small_def pixel_def)
  let ?s = "sys_small\<lparr>screen := console_init con_small, umem := (\<lambda>_. 0x0A)\<rparr>"
  have d: "displays (screen ?s) (term_clear (bg_of con_small))" using displays_init [OF g] by simp
  have u: "unat (3 :: u64) = 3" by simp
  have "map u8_char (umem_bytes 0 3 ?s) = [CHR 0x0A, CHR 0x0A, CHR 0x0A]"
    by (simp add: umem_bytes_def u8_char_def upt_rec char_of_def bit_0)
  with sys_write_console [OF d, of 1 0 3] show ?thesis
    unfolding u by (auto simp: sys_small_def serial_puts_def serial_putc_def)
qed

theorem pipe_syscalls_copy_witness:
  "\<exists>k s1 s2. pipe_create one_task_fs = Inr (0, Some (3, 4), k)
    \<and> sys_write 4 0x1000 5 (sys_small\<lparr>kern := k\<rparr>) = Inr (Ret 5, s1) \<and> sys_read 3 0x2000 5 s1 = Inr (Ret 5, s2)"
proof -
  obtain k where c: "pipe_create one_task_fs = Inr (0, Some (3, 4), k)" using one_task_pipe by blast
  have "heap_used one_task_fs {}" using one_task_heap by (auto simp: heap_used_def)
  from pipe_create_ends [OF this c] obtain t p where "pipe_ends t 3 4 p k" "pipe_at k p = pipe_zero" by blast
  then have "pipe_ends t (int 3) (int 4) p (kern (sys_small\<lparr>kern := k\<rparr>))" "pipe_at (kern (sys_small\<lparr>kern := k\<rparr>)) p = pipe_zero"
    by simp_all
  from pipe_syscalls_copy [OF this, of 5 "0x1000" "0x2000"] c show ?thesis by auto
qed

end
