(* ===== verification/Cpu.thy ===== *)
theory Cpu
  imports Ember_Prelude
begin

text \<open>
  The tables and the interrupt controller of the processor: segment descriptors
  (\<^verbatim>\<open>src/kernel/arch/x86_64/gdt.c\<close>), interrupt gates (\<^verbatim>\<open>idt.c\<close>) and the pair of 8259A controllers with the
  dispatch of hardware interrupts (\<^verbatim>\<open>interrupts.c\<close>). A table is a function from indices to entries with the
  fields of the packed structs; the 16-byte descriptor of the task state segment is written as two
  quadwords over entries 5 and 6. What the processor reads from an entry is defined separately, from the layout in
  the headers. Ports are the sequence of accesses; a mask register reads back the byte
  last written to its port.
\<close>

section \<open>Segment descriptors\<close>

definition KERNEL_CS :: u16 where [kconst]: "KERNEL_CS = 0x08"
definition KERNEL_DS :: u16 where [kconst]: "KERNEL_DS = 0x10"
definition USER_CS :: u16 where [kconst]: "USER_CS = 0x1B"
definition USER_DS :: u16 where [kconst]: "USER_DS = 0x23"
definition TSS_SEL :: u16 where [kconst]: "TSS_SEL = 0x28"
definition GDT_ENTRIES :: nat where [kconst]: "GDT_ENTRIES = 7"

record gdt_entry =
  limit_low :: u16
  base_low :: u16
  base_mid :: u8
  access :: u8
  granularity :: u8
  base_high :: u8

record desc_ptr =
  dp_limit :: u16
  dp_base :: u64

record tss =
  rsp0 :: u64
  rsp1 :: u64
  rsp2 :: u64
  ist :: "u64 list"
  iopb_offset :: u16

text \<open>The size of the packed task state segment.\<close>

definition TSS_BYTES :: nat where [kconst]: "TSS_BYTES = 104"

record cpu =
  gdt :: "nat \<Rightarrow> gdt_entry"
  gdtr :: desc_ptr
  seg_cs :: u16
  seg_data :: u16
  tr :: u16
  kernel_tss :: tss

definition gdt_set_entry :: "nat \<Rightarrow> u32 \<Rightarrow> u32 \<Rightarrow> u8 \<Rightarrow> u8 \<Rightarrow> (nat \<Rightarrow> gdt_entry) \<Rightarrow> nat \<Rightarrow> gdt_entry" where
  "gdt_set_entry i base limit acc gran g = g(i := \<lparr>limit_low = ucast (limit AND 0xFFFF), base_low = ucast (base AND 0xFFFF),
     base_mid = ucast (drop_bit 16 base AND 0xFF), access = acc,
     granularity = ucast (drop_bit 16 limit AND 0x0F) OR (gran AND 0xF0), base_high = ucast (drop_bit 24 base AND 0xFF)\<rparr>)"

text \<open>A quadword stored over an entry.\<close>

definition entry_of :: "u64 \<Rightarrow> gdt_entry" where
  "entry_of q = \<lparr>limit_low = ucast q, base_low = ucast (drop_bit 16 q), base_mid = ucast (drop_bit 32 q),
     access = ucast (drop_bit 40 q), granularity = ucast (drop_bit 48 q), base_high = ucast (drop_bit 56 q)\<rparr>"

definition gdt_set_tss :: "nat \<Rightarrow> u64 \<Rightarrow> u32 \<Rightarrow> (nat \<Rightarrow> gdt_entry) \<Rightarrow> nat \<Rightarrow> gdt_entry" where
  "gdt_set_tss i base limit g =
     (let g0 = ucast (limit AND 0xFFFF) OR push_bit 16 (base AND 0xFFFFFF) OR push_bit 40 0x89
            OR push_bit 48 (ucast (drop_bit 16 limit AND 0xF)) OR push_bit 56 (drop_bit 24 base AND 0xFF);
          g1 = drop_bit 32 base AND 0xFFFFFFFF
      in g(i := entry_of g0, Suc i := entry_of g1))"

text \<open>The load of the descriptor table register and the reload of the segment registers end \<open>gdt_init\<close>.\<close>

definition gdt_init :: "u64 \<Rightarrow> u64 \<Rightarrow> cpu \<Rightarrow> cpu" where
  "gdt_init gdt_addr tss_addr c =
     (let g0 = gdt_set_entry 0 0 0 0 0 (gdt c);
          g1 = gdt_set_entry 1 0 0xFFFFF 0x9A 0xA0 g0;
          g2 = gdt_set_entry 2 0 0xFFFFF 0x92 0xC0 g1;
          g3 = gdt_set_entry 3 0 0xFFFFF 0xFA 0xA0 g2;
          g4 = gdt_set_entry 4 0 0xFFFFF 0xF2 0xC0 g3;
          g5 = gdt_set_tss 5 tss_addr (of_nat TSS_BYTES - 1) g4
      in c\<lparr>gdt := g5, gdtr := \<lparr>dp_limit = of_nat (GDT_ENTRIES * 8) - 1, dp_base = gdt_addr\<rparr>, seg_cs := KERNEL_CS, seg_data := KERNEL_DS\<rparr>)"

definition tss_init :: "u64 \<Rightarrow> cpu \<Rightarrow> cpu" where
  "tss_init tss_stack c = c\<lparr>kernel_tss := (kernel_tss c)\<lparr>rsp0 := tss_stack + 4096, iopb_offset := of_nat TSS_BYTES\<rparr>\<rparr>"

definition tss_set_rsp0 :: "u64 \<Rightarrow> cpu \<Rightarrow> cpu" where
  "tss_set_rsp0 rsp c = c\<lparr>kernel_tss := (kernel_tss c)\<lparr>rsp0 := rsp\<rparr>\<rparr>"

definition load_tss :: "cpu \<Rightarrow> cpu" where
  "load_tss c = c\<lparr>tr := TSS_SEL\<rparr>"

section \<open>Interrupt gates\<close>

definition IDT_INTERRUPT_GATE :: u8 where [kconst]: "IDT_INTERRUPT_GATE = 0x8E"
definition IDT_TRAP_GATE :: u8 where [kconst]: "IDT_TRAP_GATE = 0x8F"
definition IDT_ENTRIES :: nat where [kconst]: "IDT_ENTRIES = 256"

record idt_entry =
  offset_low :: u16
  selector :: u16
  gate_ist :: u8
  type_attr :: u8
  offset_mid :: u16
  offset_high :: u32
  reserved :: u32

definition idt_set_gate :: "nat \<Rightarrow> u64 \<Rightarrow> u8 \<Rightarrow> (nat \<Rightarrow> idt_entry) \<Rightarrow> nat \<Rightarrow> idt_entry" where
  "idt_set_gate num handler ty t = t(num := \<lparr>offset_low = ucast (handler AND 0xFFFF), selector = KERNEL_CS, gate_ist = 0,
     type_attr = ty, offset_mid = ucast (drop_bit 16 handler AND 0xFFFF),
     offset_high = ucast (drop_bit 32 handler AND 0xFFFFFFFF), reserved = 0\<rparr>)"

text \<open>
  The assembler stubs are parameters: \<open>isr n\<close> and \<open>irq n\<close> are their addresses. The statements of
  \<open>idt_init\<close> are the list of vectors with stub and gate type.
\<close>

definition idt_gates :: "(nat \<Rightarrow> u64) \<Rightarrow> (nat \<Rightarrow> u64) \<Rightarrow> (nat \<times> u64 \<times> u8) list" where
  "idt_gates isr irq =
     [(0, isr 0, IDT_INTERRUPT_GATE), (1, isr 1, IDT_TRAP_GATE), (2, isr 2, IDT_INTERRUPT_GATE), (3, isr 3, IDT_TRAP_GATE),
      (4, isr 4, IDT_TRAP_GATE)]
     @ map (\<lambda>n. (n, isr n, IDT_INTERRUPT_GATE)) [5 ..< 32]
     @ map (\<lambda>n. (32 + n, irq n, IDT_INTERRUPT_GATE)) [0 ..< 16]"

definition idt_init :: "(nat \<Rightarrow> u64) \<Rightarrow> (nat \<Rightarrow> u64) \<Rightarrow> u64 \<Rightarrow> (nat \<Rightarrow> idt_entry) \<Rightarrow> (nat \<Rightarrow> idt_entry) \<times> desc_ptr" where
  "idt_init isr irq idt_addr t =
     (fold (\<lambda>(n, h, ty). idt_set_gate n h ty) (idt_gates isr irq) t, \<lparr>dp_limit = of_nat (IDT_ENTRIES * 16) - 1, dp_base = idt_addr\<rparr>)"

section \<open>The interrupt controllers\<close>

definition PIC1_CMD :: u16 where [kconst]: "PIC1_CMD = 0x20"
definition PIC1_DATA :: u16 where [kconst]: "PIC1_DATA = 0x21"
definition PIC2_CMD :: u16 where [kconst]: "PIC2_CMD = 0xA0"
definition PIC2_DATA :: u16 where [kconst]: "PIC2_DATA = 0xA1"
definition PIC_EOI :: u8 where [kconst]: "PIC_EOI = 0x20"
definition ICW1_ICW4 :: u8 where [kconst]: "ICW1_ICW4 = 0x01"
definition ICW1_INIT :: u8 where [kconst]: "ICW1_INIT = 0x10"
definition ICW4_8086 :: u8 where [kconst]: "ICW4_8086 = 0x01"
definition IRQ_BASE :: u8 where [kconst]: "IRQ_BASE = 32"
definition IRQ_COUNT :: u8 where [kconst]: "IRQ_COUNT = 16"

record 'h pic =
  port_value :: "u16 \<Rightarrow> u8"
  port_log :: "(u16 \<times> u8) list"
  irq_handlers :: "u8 \<rightharpoonup> 'h"

definition outb :: "u16 \<Rightarrow> u8 \<Rightarrow> 'h pic \<Rightarrow> 'h pic" where
  "outb p v s = s\<lparr>port_value := (port_value s)(p := v), port_log := port_log s @ [(p, v)]\<rparr>"

definition inb :: "u16 \<Rightarrow> 'h pic \<Rightarrow> u8" where
  "inb p s = port_value s p"

fun outbs :: "(u16 \<times> u8) list \<Rightarrow> 'h pic \<Rightarrow> 'h pic" where
  "outbs [] s = s"
| "outbs ((p, v) # w) s = outbs w (outb p v s)"

text \<open>The delays of \<open>io_wait\<close> write to an unused port and are left out.\<close>

definition pic_init :: "'h pic \<Rightarrow> 'h pic" where
  "pic_init s =
     (let mask1 = inb PIC1_DATA s; mask2 = inb PIC2_DATA s
      in outbs [(PIC1_CMD, ICW1_INIT OR ICW1_ICW4), (PIC2_CMD, ICW1_INIT OR ICW1_ICW4), (PIC1_DATA, IRQ_BASE),
           (PIC2_DATA, IRQ_BASE + 8), (PIC1_DATA, 0x04), (PIC2_DATA, 0x02), (PIC1_DATA, ICW4_8086), (PIC2_DATA, ICW4_8086),
           (PIC1_DATA, mask1), (PIC2_DATA, mask2)] s)"

definition pic_send_eoi :: "u8 \<Rightarrow> 'h pic \<Rightarrow> 'h pic" where
  "pic_send_eoi irq s = outb PIC1_CMD PIC_EOI (if irq \<ge> 8 then outb PIC2_CMD PIC_EOI s else s)"

definition irq_port :: "u8 \<Rightarrow> u16" where
  "irq_port irq = (if irq < 8 then PIC1_DATA else PIC2_DATA)"

text \<open>\<open>1 << bit\<close> as an \<open>int\<close>, cut to a byte by the port write.\<close>

definition irq_bit :: "u8 \<Rightarrow> u8" where
  "irq_bit irq = push_bit (unat (if irq < 8 then irq else irq - 8)) 1"

definition irq_enable :: "u8 \<Rightarrow> 'h pic \<Rightarrow> 'h pic" where
  "irq_enable irq s = outb (irq_port irq) (inb (irq_port irq) s AND NOT (irq_bit irq)) s"

definition irq_disable :: "u8 \<Rightarrow> 'h pic \<Rightarrow> 'h pic" where
  "irq_disable irq s = outb (irq_port irq) (inb (irq_port irq) s OR irq_bit irq) s"

definition irq_install_handler :: "u8 \<Rightarrow> 'h \<Rightarrow> 'h pic \<Rightarrow> 'h pic" where
  "irq_install_handler irq h s =
     (if irq < IRQ_COUNT then irq_enable irq (s\<lparr>irq_handlers := (irq_handlers s)(irq \<mapsto> h)\<rparr>) else s)"

definition irq_uninstall_handler :: "u8 \<Rightarrow> 'h pic \<Rightarrow> 'h pic" where
  "irq_uninstall_handler irq s =
     (if irq < IRQ_COUNT then irq_disable irq (s\<lparr>irq_handlers := (irq_handlers s)(irq := None)\<rparr>) else s)"

text \<open>
  \<open>isr1\<close> and \<open>isr2\<close> are the in-service registers that the controllers return after the command
  \<open>0x0B\<close>. The result names the handler that is called, before the end of interrupt is sent.
\<close>

definition irq_dispatch :: "u64 \<Rightarrow> u8 \<Rightarrow> u8 \<Rightarrow> 'h pic \<Rightarrow> 'h option \<times> 'h pic" where
  "irq_dispatch int_no isr1 isr2 s =
     (let irq = ucast (int_no - 32) :: u8
      in if irq = 7 \<and> \<not> bit isr1 7 then (None, outb PIC1_CMD 0x0B s)
         else
           (let s1 = (if irq = 7 then outb PIC1_CMD 0x0B s else s)
            in if irq = 15 \<and> \<not> bit isr2 7 then (None, outb PIC1_CMD PIC_EOI (outb PIC2_CMD 0x0B s1))
               else
                 (let s2 = (if irq = 15 then outb PIC2_CMD 0x0B s1 else s1)
                  in (if irq < IRQ_COUNT then irq_handlers s irq else None, pic_send_eoi irq s2))))"

definition interrupts_init :: "'h pic \<Rightarrow> 'h pic" where
  "interrupts_init s = irq_enable 2 (outb PIC2_DATA 0xFF (outb PIC1_DATA 0xFF (pic_init s)))"

section \<open>What the processor reads\<close>

definition seg_base :: "gdt_entry \<Rightarrow> u32" where
  "seg_base e = ucast (base_low e) OR push_bit 16 (ucast (base_mid e)) OR push_bit 24 (ucast (base_high e))"

definition seg_limit :: "gdt_entry \<Rightarrow> u32" where
  "seg_limit e = ucast (limit_low e) OR push_bit 16 (ucast (granularity e AND 0x0F))"

definition seg_flags :: "gdt_entry \<Rightarrow> u8" where
  "seg_flags e = drop_bit 4 (granularity e)"

definition seg_present :: "gdt_entry \<Rightarrow> bool" where
  "seg_present e \<longleftrightarrow> bit (access e) 7"

definition seg_dpl :: "gdt_entry \<Rightarrow> u8" where
  "seg_dpl e = drop_bit 5 (access e) AND 3"

definition is_code :: "gdt_entry \<Rightarrow> bool" where
  "is_code e \<longleftrightarrow> bit (access e) 4 \<and> bit (access e) 3"

definition is_data :: "gdt_entry \<Rightarrow> bool" where
  "is_data e \<longleftrightarrow> bit (access e) 4 \<and> \<not> bit (access e) 3"

definition is_long :: "gdt_entry \<Rightarrow> bool" where
  "is_long e \<longleftrightarrow> bit (granularity e) 5"

text \<open>The base of a 16-byte system descriptor.\<close>

definition sys_base :: "gdt_entry \<Rightarrow> gdt_entry \<Rightarrow> u64" where
  "sys_base lo hi = ucast (seg_base lo) OR push_bit 32 (ucast (limit_low hi)) OR push_bit 48 (ucast (base_low hi))"

definition gate_offset :: "idt_entry \<Rightarrow> u64" where
  "gate_offset e = ucast (offset_low e) OR push_bit 16 (ucast (offset_mid e)) OR push_bit 32 (ucast (offset_high e))"

text \<open>The entry a selector names.\<close>

definition selected :: "cpu \<Rightarrow> u16 \<Rightarrow> gdt_entry" where
  "selected c sel = gdt c (unat (drop_bit 3 sel))"

section \<open>Encodings\<close>

lemma and_low_mask:
  fixes x :: "'a::len word"
  shows "x AND 0x0F = take_bit 4 x" "x AND 0xFF = take_bit 8 x" "x AND 0xFFFF = take_bit 16 x" "x AND 0xFFFFF = take_bit 20 x"
    "x AND 0xFFFFFF = take_bit 24 x" "x AND 0xFFFFFFFF = take_bit 32 x" "x AND 3 = take_bit 2 x"
  by (simp_all add: take_bit_eq_mask mask_eq_exp_minus_1)

lemma and_high_nibble: "(x :: u8) AND 0xF0 = push_bit 4 (drop_bit 4 x)"
proof -
  have "x AND NOT (mask 4) = push_bit 4 (drop_bit 4 x)" by (rule bit_word_eqI) (auto simp: bit_simps)
  moreover have "NOT (mask 4) = (0xF0 :: u8)" by (simp add: mask_eq_exp_minus_1)
  ultimately show ?thesis by simp
qed

text \<open>A word is put together from its slices.\<close>

lemma join_slices:
  fixes x :: "'a::len word"
  shows "take_bit n x OR push_bit n (drop_bit n x) = x" "m \<le> n \<Longrightarrow> take_bit m x OR push_bit m (take_bit (n - m) (drop_bit m x)) = take_bit n x"
proof -
  show "take_bit n x OR push_bit n (drop_bit n x) = x"
  proof (rule bit_word_eqI)
    fix k assume "k < LENGTH('a)"
    then show "bit (take_bit n x OR push_bit n (drop_bit n x)) k = bit x k" by (cases "k < n") (auto simp: bit_simps)
  qed
  show "take_bit m x OR push_bit m (take_bit (n - m) (drop_bit m x)) = take_bit n x" if "m \<le> n"
  proof (rule bit_word_eqI)
    fix k assume "k < LENGTH('a)"
    then show "bit (take_bit m x OR push_bit m (take_bit (n - m) (drop_bit m x))) k = bit (take_bit n x) k"
      using that by (cases "k < m") (auto simp: bit_simps)
  qed
qed

lemma gate_roundtrip: "gate_offset (idt_set_gate n h ty t n) = h"
proof -
  have u: "ucast (ucast (take_bit 16 h) :: u16) = take_bit 16 h" "ucast (ucast (take_bit 16 (drop_bit 16 h)) :: u16) = take_bit 16 (drop_bit 16 h)"
    "ucast (ucast (take_bit 32 (drop_bit 32 h)) :: u32) = drop_bit 32 h"
    by (rule bit_word_eqI; auto simp: bit_simps dest: bit_imp_le_length)+
  have "gate_offset (idt_set_gate n h ty t n) = (take_bit 16 h OR push_bit 16 (take_bit (32 - 16) (drop_bit 16 h))) OR push_bit 32 (drop_bit 32 h)"
    by (simp add: gate_offset_def idt_set_gate_def and_low_mask u or.assoc)
  also have "take_bit 16 h OR push_bit 16 (take_bit (32 - 16) (drop_bit 16 h)) = take_bit 32 h" by (rule join_slices) simp
  finally show ?thesis by (simp add: join_slices)
qed

lemma entry_roundtrip:
  "seg_base (gdt_set_entry i base limit acc gran g i) = base"
  "seg_limit (gdt_set_entry i base limit acc gran g i) = limit AND 0xFFFFF"
  "seg_flags (gdt_set_entry i base limit acc gran g i) = drop_bit 4 gran"
  "access (gdt_set_entry i base limit acc gran g i) = acc"
proof -
  have u: "ucast (ucast (take_bit 16 base) :: u16) = take_bit 16 base" "ucast (ucast (take_bit 8 (drop_bit 16 base)) :: u8) = take_bit 8 (drop_bit 16 base)"
    "ucast (ucast (take_bit 8 (drop_bit 24 base)) :: u8) = drop_bit 24 base"
    by (rule bit_word_eqI; auto simp: bit_simps dest: bit_imp_le_length)+
  have "seg_base (gdt_set_entry i base limit acc gran g i)
      = (take_bit 16 base OR push_bit 16 (take_bit (24 - 16) (drop_bit 16 base))) OR push_bit 24 (drop_bit 24 base)"
    by (simp add: seg_base_def gdt_set_entry_def and_low_mask u or.assoc)
  also have "take_bit 16 base OR push_bit 16 (take_bit (24 - 16) (drop_bit 16 base)) = take_bit 24 base" by (rule join_slices) simp
  finally show "seg_base (gdt_set_entry i base limit acc gran g i) = base" by (simp add: join_slices)
  have v: "ucast (ucast (take_bit 16 limit) :: u16) = take_bit 16 limit"
    "ucast (take_bit 4 (ucast (take_bit 4 (drop_bit 16 limit)) OR push_bit 4 (drop_bit 4 gran)) :: u8) = take_bit 4 (drop_bit 16 limit)"
    by (rule bit_word_eqI; auto simp: bit_simps)+
  have "seg_limit (gdt_set_entry i base limit acc gran g i) = take_bit 16 limit OR push_bit 16 (take_bit (20 - 16) (drop_bit 16 limit))"
    by (simp add: seg_limit_def gdt_set_entry_def and_low_mask and_high_nibble v del: take_bit_or)
  also have "\<dots> = take_bit 20 limit" by (rule join_slices) simp
  finally show "seg_limit (gdt_set_entry i base limit acc gran g i) = limit AND 0xFFFFF" by (simp add: and_low_mask)
  show "seg_flags (gdt_set_entry i base limit acc gran g i) = drop_bit 4 gran"
    unfolding seg_flags_def gdt_set_entry_def
    by (rule bit_word_eqI) (auto simp: and_low_mask and_high_nibble bit_simps dest: bit_imp_le_length)
qed (simp add: gdt_set_entry_def)

lemma packed_fields:
  fixes a b c d e :: u64
  defines "q \<equiv> take_bit 16 a OR push_bit 16 (take_bit 24 b) OR push_bit 40 (take_bit 8 c) OR push_bit 48 (take_bit 4 d) OR push_bit 56 (take_bit 8 e)"
  shows "limit_low (entry_of q) = ucast a" "base_low (entry_of q) = ucast b" "base_mid (entry_of q) = ucast (drop_bit 16 b)"
    "access (entry_of q) = ucast c" "granularity (entry_of q) = ucast (take_bit 4 d)" "base_high (entry_of q) = ucast e"
  unfolding entry_of_def q_def gdt_entry.select_convs by (rule bit_word_eqI; auto simp: bit_simps)+

lemma tss_roundtrip:
  fixes i base limit g
  defines "h \<equiv> gdt_set_tss i base limit g"
  shows "sys_base (h i) (h (Suc i)) = base" "seg_limit (h i) = limit AND 0xFFFFF" "access (h i) = 0x89" "j \<noteq> i \<Longrightarrow> j \<noteq> Suc i \<Longrightarrow> h j = g j"
proof -
  have c: "take_bit 8 (0x89 :: u64) = 0x89" by simp
  have l: "ucast (take_bit 16 limit) = take_bit 16 (ucast limit :: u64)" "ucast (take_bit 4 (drop_bit 16 limit)) = take_bit 4 (ucast (drop_bit 16 limit) :: u64)"
    by (rule bit_word_eqI; auto simp: bit_simps)+
  have hi: "h i = entry_of (take_bit 16 (ucast limit) OR push_bit 16 (take_bit 24 base) OR push_bit 40 (take_bit 8 0x89)
      OR push_bit 48 (take_bit 4 (ucast (drop_bit 16 limit))) OR push_bit 56 (take_bit 8 (drop_bit 24 base)))"
    unfolding h_def gdt_set_tss_def Let_def and_low_mask l c by simp
  have hs: "h (Suc i) = entry_of (take_bit 32 (drop_bit 32 base))" by (simp add: h_def gdt_set_tss_def Let_def and_low_mask)
  have s: "ucast (ucast base :: u16) = take_bit 16 base" "push_bit 16 (ucast (ucast (drop_bit 16 base) :: u8)) = push_bit 16 (take_bit (24 - 16) (drop_bit 16 base))"
     "push_bit 24 (ucast (ucast (drop_bit 24 base) :: u8)) = push_bit 24 (take_bit (32 - 24) (drop_bit 24 base))"
     "push_bit 32 (ucast (ucast (take_bit 32 (drop_bit 32 base)) :: u16)) = push_bit 32 (take_bit (48 - 32) (drop_bit 32 base))"
     "push_bit 48 (ucast (ucast (drop_bit 16 (take_bit 32 (drop_bit 32 base))) :: u16)) = push_bit 48 (drop_bit 48 base)"
    by (rule bit_word_eqI; auto simp: bit_simps)+
  have sb: "ucast (seg_base e) = (ucast (base_low e) OR push_bit 16 (ucast (base_mid e)) OR push_bit 24 (ucast (base_high e)) :: u64)" for e
    unfolding seg_base_def by (rule bit_word_eqI; auto simp: bit_simps dest: bit_imp_le_length)
  have "sys_base (h i) (h (Suc i)) = (((take_bit 16 base OR push_bit 16 (take_bit (24 - 16) (drop_bit 16 base))) OR push_bit 24 (take_bit (32 - 24) (drop_bit 24 base)))
      OR push_bit 32 (take_bit (48 - 32) (drop_bit 32 base))) OR push_bit 48 (drop_bit 48 base)"
    unfolding sys_base_def sb hi hs packed_fields unfolding entry_of_def gdt_entry.select_convs s or.assoc ..
  also have "take_bit 16 base OR push_bit 16 (take_bit (24 - 16) (drop_bit 16 base)) = take_bit 24 base" by (rule join_slices) simp
  also have "take_bit 24 base OR push_bit 24 (take_bit (32 - 24) (drop_bit 24 base)) = take_bit 32 base" by (rule join_slices) simp
  also have "take_bit 32 base OR push_bit 32 (take_bit (48 - 32) (drop_bit 32 base)) = take_bit 48 base" by (rule join_slices) simp
  finally show "sys_base (h i) (h (Suc i)) = base" by (simp add: join_slices)
  have v: "ucast (ucast (ucast limit :: u64) :: u16) = take_bit 16 limit"
    "ucast (ucast (take_bit 4 (ucast (drop_bit 16 limit) :: u64)) AND 0x0F :: u8) = take_bit (20 - 16) (drop_bit 16 limit)"
    by (rule bit_word_eqI; auto simp: bit_simps and_low_mask)+
  have "seg_limit (h i) = take_bit 16 limit OR push_bit 16 (take_bit (20 - 16) (drop_bit 16 limit))"
    unfolding seg_limit_def hi packed_fields v ..
  also have "\<dots> = take_bit 20 limit" by (rule join_slices) simp
  finally show "seg_limit (h i) = limit AND 0xFFFFF" by (simp add: and_low_mask)
  show "access (h i) = 0x89" unfolding hi packed_fields by simp
qed (simp add: h_def gdt_set_tss_def)

section \<open>The tables after initialisation\<close>

lemma gdt_init_other: "i \<noteq> j \<Longrightarrow> gdt_set_entry i base limit acc gran g j = g j"
  by (simp add: gdt_set_entry_def)

lemma gdt_init_entries:
  fixes ga ta c
  defines "g \<equiv> gdt (gdt_init ga ta c)"
  shows "access (g 1) = 0x9A" "access (g 2) = 0x92" "access (g 3) = 0xFA" "access (g 4) = 0xF2" "access (g 5) = 0x89"
    "seg_flags (g 1) = 0xA" "seg_flags (g 2) = 0xC" "seg_flags (g 3) = 0xA" "seg_flags (g 4) = 0xC"
    "sys_base (g 5) (g 6) = ta" "seg_limit (g 5) = 103"
  using tss_roundtrip(1) [where i = 5] tss_roundtrip(2) [where i = 5]
  by (simp_all add: g_def gdt_init_def Let_def tss_roundtrip gdt_init_other entry_roundtrip kconst)

lemma is_long_flags: "is_long e \<longleftrightarrow> bit (seg_flags e) 1"
  by (simp add: is_long_def seg_flags_def bit_simps)

lemma idt_fold:
  assumes "distinct (map fst gs)"
  shows "fold (\<lambda>(n, h, ty). idt_set_gate n h ty) gs t v =
    (case map_of gs v of None \<Rightarrow> t v | Some (h, ty) \<Rightarrow> idt_set_gate v h ty t v)"
  using assms
proof (induction gs arbitrary: t)
  case (Cons x gs)
  obtain n h ty where x: "x = (n, h, ty)" by (cases x) auto
  show ?case
  proof (cases "v = n")
    case True
    then have "map_of gs v = None" using Cons.prems x by (auto simp: map_of_eq_None_iff)
    then show ?thesis using Cons x True by simp
  next
    case False
    then show ?thesis using Cons x by (auto simp: idt_set_gate_def split: option.splits)
  qed
qed simp

lemma map_of_range: "map_of (map (\<lambda>n. (k + n, f n)) [a ..< b]) v = (if k + a \<le> v \<and> v < k + b then Some (f (v - k)) else None)"
  by (induction b) (auto simp: map_add_def less_Suc_eq split: option.splits)

lemma idt_gates_distinct: "distinct (map fst (idt_gates isr irq))"
proof -
  have "map fst (idt_gates isr irq) = [0 ..< 48]" by (simp add: idt_gates_def upt_conv_Cons comp_def)
  then show ?thesis by (metis distinct_upt)
qed

lemma idt_gates_lookup:
  "map_of (idt_gates isr irq) v =
     (if v < 32 then Some (isr v, if v \<in> {1, 3, 4} then IDT_TRAP_GATE else IDT_INTERRUPT_GATE)
      else if v < 48 then Some (irq (v - 32), IDT_INTERRUPT_GATE) else None)"
  using map_of_range [of 0 "\<lambda>n. (isr n, IDT_INTERRUPT_GATE)" 5 32 v] map_of_range [of 32 "\<lambda>n. (irq n, IDT_INTERRUPT_GATE)" 0 16 v]
  unfolding idt_gates_def map_of_append by (auto simp: map_add_def split: option.splits if_splits)

lemma cpu_tables_parts:
  fixes ga ta c isr irq ia t
  defines "c' \<equiv> gdt_init ga ta c" and "t' \<equiv> fst (idt_init isr irq ia t)"
  shows "is_code (selected c' KERNEL_CS) \<and> is_long (selected c' KERNEL_CS) \<and> seg_present (selected c' KERNEL_CS) \<and> seg_dpl (selected c' KERNEL_CS) = 0"
    and "is_code (selected c' USER_CS) \<and> is_long (selected c' USER_CS) \<and> seg_present (selected c' USER_CS) \<and> seg_dpl (selected c' USER_CS) = 3"
    and "is_data (selected c' KERNEL_DS) \<and> seg_dpl (selected c' KERNEL_DS) = 0 \<and> is_data (selected c' USER_DS) \<and> seg_dpl (selected c' USER_DS) = 3"
    and "sys_base (selected c' TSS_SEL) (selected c' (TSS_SEL + 8)) = ta \<and> unat (seg_limit (selected c' TSS_SEL)) + 1 = TSS_BYTES"
    and "v < 48 \<Longrightarrow> gate_offset (t' v) = (if v < 32 then isr v else irq (v - 32)) \<and> selector (t' v) = KERNEL_CS
      \<and> type_attr (t' v) = (if v \<in> {1, 3, 4} then IDT_TRAP_GATE else IDT_INTERRUPT_GATE)"
    and "48 \<le> v \<Longrightarrow> t' v = t v"
proof -
  note e = gdt_init_entries [of ga ta c]
  have sel: "selected c' KERNEL_CS = gdt c' 1" "selected c' KERNEL_DS = gdt c' 2" "selected c' USER_CS = gdt c' 3" "selected c' USER_DS = gdt c' 4"
    "selected c' TSS_SEL = gdt c' 5" "selected c' (TSS_SEL + 8) = gdt c' 6"
    by (simp_all add: selected_def kconst)
  show "is_code (selected c' KERNEL_CS) \<and> is_long (selected c' KERNEL_CS) \<and> seg_present (selected c' KERNEL_CS) \<and> seg_dpl (selected c' KERNEL_CS) = 0"
    "is_code (selected c' USER_CS) \<and> is_long (selected c' USER_CS) \<and> seg_present (selected c' USER_CS) \<and> seg_dpl (selected c' USER_CS) = 3"
    "is_data (selected c' KERNEL_DS) \<and> seg_dpl (selected c' KERNEL_DS) = 0 \<and> is_data (selected c' USER_DS) \<and> seg_dpl (selected c' USER_DS) = 3"
    "sys_base (selected c' TSS_SEL) (selected c' (TSS_SEL + 8)) = ta \<and> unat (seg_limit (selected c' TSS_SEL)) + 1 = TSS_BYTES"
    unfolding sel is_code_def is_data_def is_long_flags seg_present_def seg_dpl_def unfolding c'_def e by (simp_all add: kconst)
  have t': "t' v = (case map_of (idt_gates isr irq) v of None \<Rightarrow> t v | Some (h, ty) \<Rightarrow> idt_set_gate v h ty t v)"
    unfolding t'_def idt_init_def fst_conv by (rule idt_fold [OF idt_gates_distinct])
  show "v < 48 \<Longrightarrow> gate_offset (t' v) = (if v < 32 then isr v else irq (v - 32)) \<and> selector (t' v) = KERNEL_CS
      \<and> type_attr (t' v) = (if v \<in> {1, 3, 4} then IDT_TRAP_GATE else IDT_INTERRUPT_GATE)" "48 \<le> v \<Longrightarrow> t' v = t v"
    unfolding t' idt_gates_lookup by (auto simp: gate_roundtrip) (auto simp: idt_set_gate_def)
qed



section \<open>Interrupt lines\<close>

definition masked :: "u8 \<Rightarrow> 'h pic \<Rightarrow> bool" where
  "masked irq s \<longleftrightarrow> bit (port_value s (irq_port irq)) (unat irq mod 8)"

datatype 'h line_op = Install u8 'h | Uninstall u8

fun line_step :: "'h line_op \<Rightarrow> 'h pic \<Rightarrow> 'h pic" where
  "line_step (Install irq h) s = irq_install_handler irq h s"
| "line_step (Uninstall irq) s = irq_uninstall_handler irq s"

definition lines_ok :: "'h pic \<Rightarrow> bool" where
  "lines_ok s \<longleftrightarrow> (\<forall>irq < 16. irq = 2 \<or> (masked irq s \<longleftrightarrow> irq_handlers s irq = None))"

lemma irq_bit_eq: "irq < 16 \<Longrightarrow> irq_bit irq = push_bit (unat irq mod 8) 1"
proof -
  assume i: "irq < 16"
  have "unat (if irq < 8 then irq else irq - 8) = unat irq mod 8"
  proof (cases "irq < 8")
    case True
    then show ?thesis by (simp add: word_less_nat_alt)
  next
    case False
    then have "8 \<le> irq" by simp
    then have "unat (irq - 8) = unat irq - 8" by (simp add: unat_sub)
    moreover have "8 \<le> unat irq" "unat irq < 16" using \<open>8 \<le> irq\<close> i by (simp_all add: word_le_nat_alt word_less_nat_alt)
    ultimately show ?thesis using False by (simp add: mod_if)
  qed
  then show ?thesis by (simp only: irq_bit_def)
qed

lemma same_line: "irq < 16 \<Longrightarrow> m < 16 \<Longrightarrow> irq_port irq = irq_port m \<Longrightarrow> unat irq mod 8 = unat m mod 8 \<Longrightarrow> irq = m"
proof -
  assume a: "irq < 16" "m < 16" "irq_port irq = irq_port m" "unat irq mod 8 = unat m mod 8"
  have u: "unat irq < 16" "unat m < 16" "unat irq < 8 \<longleftrightarrow> unat m < 8"
    using a(1-3) by (auto simp: word_less_nat_alt irq_port_def kconst split: if_splits)
  have "unat irq = unat m" using a(4) u by (auto simp: mod_if split: if_splits)
  then show ?thesis by (simp add: unsigned_word_eqI)
qed

lemma masked_set:
  assumes "irq < 16" "m < 16"
  shows "masked m (irq_enable irq s) \<longleftrightarrow> m \<noteq> irq \<and> masked m s" "masked m (irq_disable irq s) \<longleftrightarrow> m = irq \<or> masked m s"
proof -
  have lt: "unat m mod 8 < 8" "unat irq mod 8 < 8" by simp_all
  have "bit (irq_bit irq) (unat m mod 8) \<longleftrightarrow> unat m mod 8 = unat irq mod 8"
    unfolding irq_bit_eq [OF assms(1)] using lt by (auto simp: bit_simps)
  then have b: "irq_port m = irq_port irq \<Longrightarrow> bit (irq_bit irq) (unat m mod 8) \<longleftrightarrow> m = irq" using same_line [OF assms(2,1)] by blast
  show "masked m (irq_enable irq s) \<longleftrightarrow> m \<noteq> irq \<and> masked m s" "masked m (irq_disable irq s) \<longleftrightarrow> m = irq \<or> masked m s"
    by (cases "irq_port m = irq_port irq"; use b lt in \<open>force simp: masked_def irq_enable_def irq_disable_def outb_def inb_def bit_simps\<close>)+
qed

lemma handlers_set [simp]:
  "irq_handlers (outb p v s) = irq_handlers s" "irq_handlers (irq_enable irq s) = irq_handlers s" "irq_handlers (irq_disable irq s) = irq_handlers s"
  by (simp_all add: outb_def irq_enable_def irq_disable_def)

lemma masked_handlers [simp]: "masked m (s\<lparr>irq_handlers := f\<rparr>) = masked m s"
  by (simp add: masked_def)

lemma lines_ok_step: "lines_ok s \<Longrightarrow> lines_ok (line_step op s)"
proof (cases op)
  case (Install irq h)
  assume "lines_ok s"
  then show ?thesis
    using masked_set(1) [of irq _ "s\<lparr>irq_handlers := (irq_handlers s)(irq \<mapsto> h)\<rparr>"]
    by (auto simp: Install lines_ok_def irq_install_handler_def kconst)
next
  case (Uninstall irq)
  assume "lines_ok s"
  then show ?thesis
    using masked_set(2) [of irq _ "s\<lparr>irq_handlers := (irq_handlers s)(irq := None)\<rparr>"]
    by (auto simp: Uninstall lines_ok_def irq_uninstall_handler_def kconst)
qed

lemma outbs_handlers [simp]: "irq_handlers (outbs ws s) = irq_handlers s"
  by (induction ws s rule: outbs.induct) simp_all

lemma interrupts_init_lines:
  assumes "irq_handlers s = (\<lambda>_. None)"
  shows "lines_ok (interrupts_init s)" "\<not> masked 2 (interrupts_init s)"
proof -
  let ?x = "outb PIC2_DATA 0xFF (outb PIC1_DATA 0xFF (pic_init s))"
  have "port_value ?x (irq_port m) = 0xFF" for m by (simp add: outb_def irq_port_def kconst)
  moreover have "bit (0xFF :: u8) (unat m mod 8)" for m :: u8
  proof -
    have f: "(0xFF :: u8) = -1" by simp
    show ?thesis unfolding f by (simp add: possible_bit_word)
  qed
  ultimately have all: "masked m ?x" for m unfolding masked_def by metis
  then show "\<not> masked 2 (interrupts_init s)" using masked_set(1) [of 2 2 ?x] by (simp add: interrupts_init_def)
  have "irq_handlers (interrupts_init s) = (\<lambda>_. None)" using assms by (simp add: interrupts_init_def pic_init_def Let_def)
  then show "lines_ok (interrupts_init s)" using all masked_set(1) [of 2 _ ?x] by (auto simp: lines_ok_def interrupts_init_def)
qed


definition pic_zero :: "nat pic" where
  "pic_zero = \<lparr>port_value = (\<lambda>_. 0), port_log = [], irq_handlers = (\<lambda>_. None)\<rparr>"


text \<open>Commands that end an interrupt, and interrupts that the controllers did not mean.\<close>

definition eois :: "(u16 \<times> u8) list \<Rightarrow> u16 list" where
  "eois l = map fst (filter (\<lambda>(p, v). v = PIC_EOI \<and> (p = PIC1_CMD \<or> p = PIC2_CMD)) l)"

definition spurious :: "u8 \<Rightarrow> u8 \<Rightarrow> u8 \<Rightarrow> bool" where
  "spurious irq isr1 isr2 \<longleftrightarrow> irq = 7 \<and> \<not> bit isr1 7 \<or> irq = 15 \<and> \<not> bit isr2 7"

text \<open>
  A hardware interrupt on line \<open>irq\<close> calls the handler of that line exactly when one is installed and the
  interrupt is not spurious. The end of interrupt goes to both controllers for the lines of the
  second, to the first alone for its own lines, to nobody for a spurious interrupt of the first and to the first alone for one of
  the second; masks and handlers are left alone.
\<close>

theorem irq_dispatch_calls:
  fixes s :: "'h pic"
  assumes "irq < 16"
  shows "\<exists>s'. irq_dispatch (32 + ucast irq) isr1 isr2 s = (if spurious irq isr1 isr2 then None else irq_handlers s irq, s')
    \<and> eois (port_log s') = eois (port_log s) @
        (if spurious irq isr1 isr2 then if irq = 7 then [] else [PIC1_CMD] else if irq < 8 then [PIC1_CMD] else [PIC2_CMD, PIC1_CMD])
    \<and> irq_handlers s' = irq_handlers s \<and> (\<forall>m < 16. masked m s' = masked m s)"
proof -
  have "ucast (ucast irq :: u64) = irq" by (rule bit_word_eqI) (auto simp: bit_simps)
  then have u: "ucast (32 + ucast irq - 32 :: u64) = irq" by simp
  have m: "masked m (outb PIC1_CMD v x) = masked m x" "masked m (outb PIC2_CMD v x) = masked m x" for m v and x :: "'h pic"
    by (auto simp: masked_def outb_def irq_port_def kconst)
  have l: "port_log (outb p v x) = port_log x @ [(p, v)]" for p v and x :: "'h pic" by (simp add: outb_def)
  show ?thesis unfolding irq_dispatch_def u Let_def
    using assms by (auto simp: spurious_def pic_send_eoi_def m l eois_def not_le) (auto simp: kconst)
qed

theorem irq_dispatch_calls_witness:
  "fst (irq_dispatch 44 0 0 (irq_install_handler 12 6 pic_zero)) = Some 6"
  using irq_dispatch_calls [of 12 0 0 "irq_install_handler 12 6 pic_zero"]
  by (auto simp: spurious_def irq_install_handler_def kconst)

end
