(* ===== verification/Pci.thy ===== *)
theory Pci
  imports Cpu
begin

text \<open>
  Configuration space of the PCI bus, \<^verbatim>\<open>src/kernel/drivers/pci/pci.c\<close>, and the three drivers that only look for a
  device on it: \<^verbatim>\<open>src/kernel/drivers/fb/gpu.c\<close>, \<^verbatim>\<open>src/kernel/drivers/net/wifi.c\<close> and \<^verbatim>\<open>bluetooth.c\<close>. Configuration space is a
  function from the 32-bit address that is written to the address port to the doubleword that
  the data port then reads and writes.
\<close>

section \<open>Access\<close>

type_synonym config = "u32 \<Rightarrow> u32"

definition pci_addr :: "u8 \<Rightarrow> u8 \<Rightarrow> u8 \<Rightarrow> u8 \<Rightarrow> u32" where
  "pci_addr bus dev func offset = push_bit 31 1 OR push_bit 16 (ucast bus) OR push_bit 11 (ucast (dev AND 0x1F))
     OR push_bit 8 (ucast (func AND 0x07)) OR ucast (offset AND 0xFC)"

definition pci_read32 :: "u8 \<Rightarrow> u8 \<Rightarrow> u8 \<Rightarrow> u8 \<Rightarrow> config \<Rightarrow> u32" where
  "pci_read32 bus dev func offset m = m (pci_addr bus dev func offset)"

definition pci_read16 :: "u8 \<Rightarrow> u8 \<Rightarrow> u8 \<Rightarrow> u8 \<Rightarrow> config \<Rightarrow> u16" where
  "pci_read16 bus dev func offset m = ucast (drop_bit (unat ((offset AND 2) * 8)) (pci_read32 bus dev func (offset AND 0xFC) m))"

definition pci_read8 :: "u8 \<Rightarrow> u8 \<Rightarrow> u8 \<Rightarrow> u8 \<Rightarrow> config \<Rightarrow> u8" where
  "pci_read8 bus dev func offset m = ucast (drop_bit (unat ((offset AND 3) * 8)) (pci_read32 bus dev func (offset AND 0xFC) m))"

definition pci_write32 :: "u8 \<Rightarrow> u8 \<Rightarrow> u8 \<Rightarrow> u8 \<Rightarrow> u32 \<Rightarrow> config \<Rightarrow> config" where
  "pci_write32 bus dev func offset val m = m(pci_addr bus dev func offset := val)"

definition pci_write16 :: "u8 \<Rightarrow> u8 \<Rightarrow> u8 \<Rightarrow> u8 \<Rightarrow> u16 \<Rightarrow> config \<Rightarrow> config" where
  "pci_write16 bus dev func offset val m =
     (let dword = pci_read32 bus dev func (offset AND 0xFC) m;
          shift = unat ((offset AND 2) * 8)
      in pci_write32 bus dev func (offset AND 0xFC) ((dword AND NOT (push_bit shift 0xFFFF)) OR push_bit shift (ucast val)) m)"

section \<open>Enumeration\<close>

definition PCI_VENDOR_ID :: u8 where [kconst]: "PCI_VENDOR_ID = 0x00"
definition PCI_DEVICE_ID :: u8 where [kconst]: "PCI_DEVICE_ID = 0x02"
definition PCI_COMMAND :: u8 where [kconst]: "PCI_COMMAND = 0x04"
definition PCI_REVISION_ID :: u8 where [kconst]: "PCI_REVISION_ID = 0x08"
definition PCI_HEADER_TYPE :: u8 where [kconst]: "PCI_HEADER_TYPE = 0x0E"
definition PCI_BAR0 :: u8 where [kconst]: "PCI_BAR0 = 0x10"
definition PCI_INTERRUPT_LINE :: u8 where [kconst]: "PCI_INTERRUPT_LINE = 0x3C"
definition PCI_CLASS_NETWORK :: u8 where [kconst]: "PCI_CLASS_NETWORK = 0x02"
definition PCI_CLASS_DISPLAY :: u8 where [kconst]: "PCI_CLASS_DISPLAY = 0x03"
definition PCI_CLASS_SERIAL :: u8 where [kconst]: "PCI_CLASS_SERIAL = 0x0C"
definition PCI_SUBCLASS_WIFI :: u8 where [kconst]: "PCI_SUBCLASS_WIFI = 0x80"
definition PCI_SUBCLASS_BLUETOOTH :: u8 where [kconst]: "PCI_SUBCLASS_BLUETOOTH = 0x11"
definition PCI_VENDOR_NONE :: u16 where [kconst]: "PCI_VENDOR_NONE = 0xFFFF"

record pci_device =
  d_bus :: u8
  d_dev :: u8
  d_func :: u8
  vendor_id :: u16
  device_id :: u16
  class_code :: u8
  sub_class :: u8
  prog_if :: u8
  revision :: u8
  irq_line :: u8
  bar :: "u32 list"

definition pci_fill_device :: "u8 \<Rightarrow> u8 \<Rightarrow> u8 \<Rightarrow> config \<Rightarrow> pci_device" where
  "pci_fill_device bus dev func m =
     (let class_dword = pci_read32 bus dev func PCI_REVISION_ID m
      in \<lparr>d_bus = bus, d_dev = dev, d_func = func, vendor_id = pci_read16 bus dev func PCI_VENDOR_ID m,
          device_id = pci_read16 bus dev func PCI_DEVICE_ID m, class_code = ucast (drop_bit 24 class_dword),
          sub_class = ucast (drop_bit 16 class_dword), prog_if = ucast (drop_bit 8 class_dword), revision = ucast class_dword,
          irq_line = pci_read8 bus dev func PCI_INTERRUPT_LINE m,
          bar = map (\<lambda>i. pci_read32 bus dev func (PCI_BAR0 + of_nat i * 4) m) [0 ..< 6]\<rparr>)"

text \<open>The three loops; the callback threads the state it works on.\<close>

definition pci_slot :: "(pci_device \<Rightarrow> 'c \<Rightarrow> 'c) \<Rightarrow> config \<Rightarrow> u8 \<Rightarrow> u8 \<Rightarrow> 'c \<Rightarrow> 'c" where
  "pci_slot cb m bus dev c =
     (if pci_read16 bus dev 0 PCI_VENDOR_ID m = PCI_VENDOR_NONE then c
      else
        (let max_func = (if bit (pci_read8 bus dev 0 PCI_HEADER_TYPE m) 7 then 8 else 1)
         in fold (\<lambda>f c. if pci_read16 bus dev (of_nat f) PCI_VENDOR_ID m = PCI_VENDOR_NONE then c
                        else cb (pci_fill_device bus dev (of_nat f) m) c) [0 ..< max_func] c))"

definition pci_enumerate :: "(pci_device \<Rightarrow> 'c \<Rightarrow> 'c) \<Rightarrow> config \<Rightarrow> 'c \<Rightarrow> 'c" where
  "pci_enumerate cb m c = fold (\<lambda>bus. fold (\<lambda>dev. pci_slot cb m (of_nat bus) (of_nat dev)) [0 ..< 32]) [0 ..< 256] c"

text \<open>The context of \<open>pci_find_by_class\<close>: what is sought, and the device once it is found.\<close>

record find_ctx =
  ctx_cls :: u8
  ctx_sub :: u8
  ctx_out :: pci_device
  ctx_found :: bool

definition find_cb :: "pci_device \<Rightarrow> find_ctx \<Rightarrow> find_ctx" where
  "find_cb d ctx =
     (if \<not> ctx_found ctx \<and> class_code d = ctx_cls ctx \<and> sub_class d = ctx_sub ctx then ctx\<lparr>ctx_out := d, ctx_found := True\<rparr> else ctx)"

definition pci_find_by_class :: "u8 \<Rightarrow> u8 \<Rightarrow> pci_device \<Rightarrow> config \<Rightarrow> bool \<times> pci_device" where
  "pci_find_by_class cls sub out m =
     (let ctx = pci_enumerate find_cb m \<lparr>ctx_cls = cls, ctx_sub = sub, ctx_out = out, ctx_found = False\<rparr> in (ctx_found ctx, ctx_out ctx))"

section \<open>The graphics card\<close>

datatype gpu_vendor = GPU_VENDOR_UNKNOWN | GPU_VENDOR_INTEL | GPU_VENDOR_AMD | GPU_VENDOR_NVIDIA | GPU_VENDOR_VMWARE | GPU_VENDOR_BOCHS

record gpu_info =
  g_vendor :: gpu_vendor
  pci_vendor_id :: u16
  pci_device_id :: u16
  vram_mb :: u32
  accel_avail :: bool

fun vendor_name :: "gpu_vendor \<Rightarrow> string" where
  "vendor_name GPU_VENDOR_INTEL = ''Intel''"
| "vendor_name GPU_VENDOR_AMD = ''AMD''"
| "vendor_name GPU_VENDOR_NVIDIA = ''NVIDIA''"
| "vendor_name GPU_VENDOR_VMWARE = ''VMware''"
| "vendor_name GPU_VENDOR_BOCHS = ''QEMU/Bochs VBE''"
| "vendor_name GPU_VENDOR_UNKNOWN = ''Unknown''"

definition classify_vendor :: "u16 \<Rightarrow> gpu_vendor" where
  "classify_vendor vid =
     (if vid = 0x8086 then GPU_VENDOR_INTEL else if vid = 0x1002 then GPU_VENDOR_AMD else if vid = 0x10DE then GPU_VENDOR_NVIDIA
      else if vid = 0x15AD then GPU_VENDOR_VMWARE else if vid = 0x1234 then GPU_VENDOR_BOCHS else GPU_VENDOR_UNKNOWN)"

record gpu_state =
  gpu_data :: gpu_info
  gpu_detected :: bool

definition gpu_pci_cb :: "pci_device \<Rightarrow> gpu_state \<Rightarrow> gpu_state" where
  "gpu_pci_cb d s =
     (if gpu_detected s then s
      else if class_code d \<noteq> PCI_CLASS_DISPLAY then s
      else s\<lparr>gpu_data := \<lparr>g_vendor = classify_vendor (vendor_id d), pci_vendor_id = vendor_id d, pci_device_id = device_id d,
               vram_mb = 0, accel_avail = False\<rparr>, gpu_detected := True\<rparr>)"

definition gpu_init :: "config \<Rightarrow> gpu_state \<Rightarrow> gpu_state" where
  "gpu_init m s = pci_enumerate gpu_pci_cb m (s\<lparr>gpu_detected := False\<rparr>)"

definition gpu_get_info :: "gpu_state \<Rightarrow> gpu_info option" where
  "gpu_get_info s = (if gpu_detected s then Some (gpu_data s) else None)"

section \<open>Network adapters\<close>

datatype net_state = NET_STATE_NOT_FOUND | NET_STATE_DISABLED | NET_STATE_ENABLED | NET_STATE_CONNECTED

type_synonym id_table = "(u16 \<times> u16 \<times> string) list"

definition wifi_ids :: id_table where
  "wifi_ids =
     [(0x8086, 0x08B1, ''Intel Wireless 7260''), (0x8086, 0x095A, ''Intel Wireless 7265''), (0x8086, 0x24F3, ''Intel Wireless 8260''),
      (0x8086, 0x2526, ''Intel Wi-Fi 6 AX200''), (0x8086, 0x02F0, ''Intel Wi-Fi 6 AX201''),
      (0x168C, 0x003E, ''Qualcomm Atheros QCA6174''), (0x168C, 0x0042, ''Qualcomm Atheros QCA9377''),
      (0x10EC, 0xB723, ''Realtek RTL8723BE''), (0x10EC, 0xC821, ''Realtek RTL8821CE''),
      (0x14E4, 0x43A0, ''Broadcom BCM4360''), (0x14E4, 0x43EC, ''Broadcom BCM4356'')]"

definition bt_ids :: id_table where
  "bt_ids =
     [(0x8086, 0x0A2A, ''Intel Bluetooth (Broadwell)''), (0x8086, 0x3198, ''Intel Bluetooth (Gemini Lake)''),
      (0x8086, 0x02D0, ''Intel AX201 Bluetooth''), (0x8086, 0x0026, ''Intel AX200 Bluetooth''),
      (0x168C, 0x0036, ''Qualcomm Atheros AR3012 Bluetooth''), (0x10EC, 0xB009, ''Realtek RTL8822BE Bluetooth''),
      (0x0A5C, 0x216C, ''Broadcom BCM2045 Bluetooth''), (0x0A5C, 0x21E6, ''Broadcom BCM20702 Bluetooth'')]"

text \<open>The first row of a table with these numbers.\<close>

fun id_lookup :: "id_table \<Rightarrow> u16 \<Rightarrow> u16 \<Rightarrow> string option" where
  "id_lookup [] v d = None"
| "id_lookup ((v', d', nm) # t) v d = (if v = v' \<and> d = d' then Some nm else id_lookup t v d)"

text \<open>Name, device and the flag of the context, which both drivers keep in the same way.\<close>

record probe =
  p_name :: "string option"
  p_pci :: pci_device
  p_found :: bool

definition wifi_pci_cb :: "pci_device \<Rightarrow> probe \<Rightarrow> probe" where
  "wifi_pci_cb d s =
     (if p_found s then s
      else
        (let class_match = (class_code d = PCI_CLASS_NETWORK \<and> sub_class d = PCI_SUBCLASS_WIFI);
             nm = id_lookup wifi_ids (vendor_id d) (device_id d);
             s1 = (if nm \<noteq> None then s\<lparr>p_name := nm\<rparr> else s)
         in if class_match \<or> nm \<noteq> None then s1\<lparr>p_pci := d, p_found := True\<rparr> else s1))"

definition bt_pci_cb :: "pci_device \<Rightarrow> probe \<Rightarrow> probe" where
  "bt_pci_cb d s =
     (if p_found s then s
      else
        (let class_match = (class_code d = PCI_CLASS_SERIAL \<and> sub_class d = PCI_SUBCLASS_BLUETOOTH);
             nm = id_lookup bt_ids (vendor_id d) (device_id d);
             s1 = (if nm \<noteq> None then s\<lparr>p_name := nm\<rparr> else s)
         in if class_match \<or> nm \<noteq> None then s1\<lparr>p_pci := d, p_found := True\<rparr> else s1))"

text \<open>What follows the enumeration in both drivers; \<open>generic\<close> names a device without a row.\<close>

definition net_finish :: "string \<Rightarrow> probe \<Rightarrow> config \<Rightarrow> net_state \<times> probe \<times> config" where
  "net_finish generic s m =
     (if \<not> p_found s then (NET_STATE_NOT_FOUND, s, m)
      else
        (let s1 = (if p_name s = None then s\<lparr>p_name := Some generic\<rparr> else s); d = p_pci s;
             cmd = pci_read16 (d_bus d) (d_dev d) (d_func d) PCI_COMMAND m
         in (NET_STATE_DISABLED, s1, pci_write16 (d_bus d) (d_dev d) (d_func d) PCI_COMMAND (cmd OR 0x04) m)))"

definition wifi_init :: "probe \<Rightarrow> config \<Rightarrow> net_state \<times> probe \<times> config" where
  "wifi_init s m = net_finish ''Generic 802.11 adapter'' (pci_enumerate wifi_pci_cb m (s\<lparr>p_name := None, p_found := False\<rparr>)) m"

definition bluetooth_init :: "probe \<Rightarrow> config \<Rightarrow> net_state \<times> probe \<times> config" where
  "bluetooth_init s m = net_finish ''Generic Bluetooth controller'' (pci_enumerate bt_pci_cb m (s\<lparr>p_name := None, p_found := False\<rparr>)) m"

section \<open>Reads after writes\<close>

lemma pci_addr_FC [simp]: "pci_addr bus dev func (offset AND 0xFC) = pci_addr bus dev func offset"
  by (simp add: pci_addr_def and.assoc)

lemma half_shift: "(offset :: u8) AND 2 = 0 \<and> unat ((offset AND 2) * 8) = 0 \<or> offset AND 2 = 2 \<and> unat ((offset AND 2) * 8) = 16"
proof -
  have "offset AND push_bit 1 1 = (if bit offset 1 then push_bit 1 1 else 0)"
    by (rule bit_word_eqI) (auto simp: bit_simps)
  then show ?thesis by (auto split: if_splits)
qed

lemma addr_fields:
  fixes b d f q :: u8 and t :: u32
  defines "a \<equiv> push_bit 31 t OR push_bit 16 (ucast b) OR push_bit 11 (ucast (take_bit 5 d)) OR push_bit 8 (ucast (take_bit 3 f)) OR ucast q :: u32"
  shows "ucast (drop_bit 16 a) = b" "ucast (take_bit 5 (drop_bit 11 a)) = take_bit 5 d" "ucast (take_bit 3 (drop_bit 8 a)) = take_bit 3 f" "ucast a = q"
  unfolding a_def by (rule bit_word_eqI; auto simp: bit_simps dest: bit_imp_le_length)+

lemma and_small:
  fixes x :: u8
  shows "x AND 0x1F = take_bit 5 x" "x AND 0x07 = take_bit 3 x"
  by (simp_all add: take_bit_eq_mask mask_eq_exp_minus_1)

text \<open>Functions and doublewords have addresses of their own.\<close>

lemma pci_addr_inj:
  "pci_addr b d f q = pci_addr b' d' f' q' \<longleftrightarrow> b = b' \<and> d AND 0x1F = d' AND 0x1F \<and> f AND 0x07 = f' AND 0x07 \<and> q AND 0xFC = q' AND 0xFC"
proof
  assume e: "pci_addr b d f q = pci_addr b' d' f' q'"
  show "b = b' \<and> d AND 0x1F = d' AND 0x1F \<and> f AND 0x07 = f' AND 0x07 \<and> q AND 0xFC = q' AND 0xFC"
    using addr_fields [of 1 b d f "q AND 0xFC"] addr_fields [of 1 b' d' f' "q' AND 0xFC"] e unfolding pci_addr_def and_small by metis
qed (simp add: pci_addr_def)

lemma half_replaced:
  fixes x :: u32 and v :: u16
  assumes "k = 0 \<or> k = 16" "j = 0 \<or> j = 16"
  shows "ucast (drop_bit j ((x AND NOT (push_bit k 0xFFFF)) OR push_bit k (ucast v))) = (if j = k then v else (ucast (drop_bit j x) :: u16))"
proof -
  have m: "(0xFFFF :: u32) = mask 16" by (simp add: mask_eq_exp_minus_1)
  have "\<not> bit v (16 + n)" for n using bit_imp_le_length [of v "16 + n"] by auto
  then show ?thesis unfolding m using assms by (auto intro!: bit_word_eqI simp: bit_simps)
qed

lemma pci_write_read: "pci_read16 b d f q (pci_write16 b d f q v m) = v"
  using half_shift [of q] half_replaced [of "unat ((q AND 2) * 8)" "unat ((q AND 2) * 8)" "m (pci_addr b d f q)" v]
  by (auto simp: pci_read16_def pci_write16_def pci_read32_def pci_write32_def Let_def)

lemma halfword_read:
  "pci_read16 b' d' f' q' (pci_write16 b d f q v m) =
     (if b' = b \<and> d' AND 0x1F = d AND 0x1F \<and> f' AND 0x07 = f AND 0x07 \<and> q' AND 0xFC = q AND 0xFC \<and> q' AND 2 = q AND 2
      then v else pci_read16 b' d' f' q' m)"
proof (cases "pci_addr b' d' f' q' = pci_addr b d f q")
  case True
  let ?k = "unat ((q AND 2) * 8)" and ?j = "unat ((q' AND 2) * 8)"
  have k: "?k = 0 \<or> ?k = 16" "?j = 0 \<or> ?j = 16" "?j = ?k \<longleftrightarrow> q' AND 2 = q AND 2" using half_shift [of q] half_shift [of q'] by auto
  have "pci_read16 b' d' f' q' (pci_write16 b d f q v m) = (if ?j = ?k then v else pci_read16 b' d' f' q' m)"
    using half_replaced [OF k(1,2), of "m (pci_addr b d f q)" v] True
    by (simp add: pci_read16_def pci_write16_def pci_read32_def pci_write32_def Let_def)
  then show ?thesis using True k(3) unfolding pci_addr_inj by simp
next
  case False
  then have "pci_read16 b' d' f' q' (pci_write16 b d f q v m) = pci_read16 b' d' f' q' m"
    by (simp add: pci_read16_def pci_write16_def pci_read32_def pci_write32_def Let_def)
  then show ?thesis using False unfolding pci_addr_inj by auto
qed

text \<open>
  A 16-bit write to configuration space is seen by a later 16-bit read of the same halfword of the same
  function, and by no other read: other functions, other registers and the other half of the doubleword keep
  their values, if the registers keep what is written to them.
\<close>

theorem pci_read_after_write:
  "pci_read16 b' d' f' q' (pci_write16 b d f q v m) =
     (if b' = b \<and> d' AND 0x1F = d AND 0x1F \<and> f' AND 0x07 = f AND 0x07 \<and> q' AND 0xFC = q AND 0xFC \<and> q' AND 2 = q AND 2
      then v else pci_read16 b' d' f' q' m)"
  by (rule halfword_read)

section \<open>The first device that fits\<close>

text \<open>The functions that answer, in the order of the loops.\<close>

definition slot_devices :: "config \<Rightarrow> u8 \<Rightarrow> u8 \<Rightarrow> pci_device list" where
  "slot_devices m bus dev =
     (if pci_read16 bus dev 0 PCI_VENDOR_ID m = PCI_VENDOR_NONE then []
      else map (\<lambda>f. pci_fill_device bus dev (of_nat f) m)
             (filter (\<lambda>f. pci_read16 bus dev (of_nat f) PCI_VENDOR_ID m \<noteq> PCI_VENDOR_NONE)
                [0 ..< if bit (pci_read8 bus dev 0 PCI_HEADER_TYPE m) 7 then 8 else 1]))"

definition pci_devices :: "config \<Rightarrow> pci_device list" where
  "pci_devices m = concat (map (\<lambda>bus. concat (map (\<lambda>dev. slot_devices m (of_nat bus) (of_nat dev)) [0 ..< 32])) [0 ..< 256])"

lemma fold_filtered: "fold (\<lambda>f c. if P f then c else g (h f) c) xs c = fold g (map h (filter (\<lambda>f. \<not> P f) xs)) c"
  by (induction xs arbitrary: c) simp_all

lemma fold_concat: "fold g (concat (map h xs)) = fold (\<lambda>x. fold g (h x)) xs"
  by (induction xs) simp_all

lemma pci_enumerate_fold: "pci_enumerate cb m c = fold cb (pci_devices m) c"
proof -
  have "pci_slot cb m bus dev c = fold cb (slot_devices m bus dev) c" for bus dev c
  proof (cases "pci_read16 bus dev 0 PCI_VENDOR_ID m = PCI_VENDOR_NONE")
    case False
    show ?thesis unfolding pci_slot_def slot_devices_def Let_def if_not_P [OF False] by (rule fold_filtered)
  qed (simp add: pci_slot_def slot_devices_def)
  then have "pci_slot cb m bus dev = fold cb (slot_devices m bus dev)" for bus dev by (rule ext)
  then show ?thesis by (simp only: pci_enumerate_def pci_devices_def fold_concat)
qed

text \<open>A callback that takes the first device it accepts and then ignores the rest.\<close>

locale first_match =
  fixes cb :: "pci_device \<Rightarrow> 'c \<Rightarrow> 'c" and found :: "'c \<Rightarrow> bool" and accepts :: "'c \<Rightarrow> pci_device \<Rightarrow> bool" and grab :: "pci_device \<Rightarrow> 'c \<Rightarrow> 'c"
  assumes ignores: "found c \<Longrightarrow> cb d c = c"
    and skips: "\<not> found c \<Longrightarrow> \<not> accepts c d \<Longrightarrow> cb d c = c"
    and takes: "\<not> found c \<Longrightarrow> accepts c d \<Longrightarrow> cb d c = grab d c \<and> found (grab d c)"
begin

lemma fold_found: "found c \<Longrightarrow> fold cb ds c = c"
  by (induction ds) (simp_all add: ignores)

lemma enumerate_first:
  assumes "\<not> found c"
  shows "pci_enumerate cb m c = (case List.find (accepts c) (pci_devices m) of None \<Rightarrow> c | Some d \<Rightarrow> grab d c)"
proof -
  have "fold cb ds c = (case List.find (accepts c) ds of None \<Rightarrow> c | Some d \<Rightarrow> grab d c)" for ds
    using assms by (induction ds) (simp_all add: skips takes fold_found)
  then show ?thesis by (simp add: pci_enumerate_fold)
qed

end

interpretation by_class: first_match find_cb ctx_found "\<lambda>c d. class_code d = ctx_cls c \<and> sub_class d = ctx_sub c" "\<lambda>d c. c\<lparr>ctx_out := d, ctx_found := True\<rparr>"
  by unfold_locales (auto simp: find_cb_def)

interpretation gpu: first_match gpu_pci_cb gpu_detected "\<lambda>_ d. class_code d = PCI_CLASS_DISPLAY"
  "\<lambda>d s. s\<lparr>gpu_data := \<lparr>g_vendor = classify_vendor (vendor_id d), pci_vendor_id = vendor_id d, pci_device_id = device_id d,
     vram_mb = 0, accel_avail = False\<rparr>, gpu_detected := True\<rparr>"
  by unfold_locales (auto simp: gpu_pci_cb_def)

definition is_wifi :: "pci_device \<Rightarrow> bool" where
  "is_wifi d \<longleftrightarrow> class_code d = PCI_CLASS_NETWORK \<and> sub_class d = PCI_SUBCLASS_WIFI \<or> id_lookup wifi_ids (vendor_id d) (device_id d) \<noteq> None"

definition is_bluetooth :: "pci_device \<Rightarrow> bool" where
  "is_bluetooth d \<longleftrightarrow> class_code d = PCI_CLASS_SERIAL \<and> sub_class d = PCI_SUBCLASS_BLUETOOTH \<or> id_lookup bt_ids (vendor_id d) (device_id d) \<noteq> None"

interpretation wifi: first_match wifi_pci_cb p_found "\<lambda>_. is_wifi"
  "\<lambda>d s. s\<lparr>p_name := (case id_lookup wifi_ids (vendor_id d) (device_id d) of None \<Rightarrow> p_name s | Some nm \<Rightarrow> Some nm), p_pci := d, p_found := True\<rparr>"
  by unfold_locales (auto simp: wifi_pci_cb_def is_wifi_def Let_def split: option.splits)

interpretation bt: first_match bt_pci_cb p_found "\<lambda>_. is_bluetooth"
  "\<lambda>d s. s\<lparr>p_name := (case id_lookup bt_ids (vendor_id d) (device_id d) of None \<Rightarrow> p_name s | Some nm \<Rightarrow> Some nm), p_pci := d, p_found := True\<rparr>"
  by unfold_locales (auto simp: bt_pci_cb_def is_bluetooth_def Let_def split: option.splits)

text \<open>
  What a network driver does with the devices: it claims the first one that fits, turns bit 2 of its command
  register on and nothing else, and is then disabled; without a device nothing changes.
\<close>

definition net_claims :: "(pci_device \<Rightarrow> bool) \<Rightarrow> config \<Rightarrow> net_state \<times> probe \<times> config \<Rightarrow> bool" where
  "net_claims fits m r =
     (case (List.find fits (pci_devices m), r) of
        (None, (st, p, m')) \<Rightarrow> st = NET_STATE_NOT_FOUND \<and> m' = m
      | (Some d, (st, p, m')) \<Rightarrow> st = NET_STATE_DISABLED \<and> p_pci p = d
          \<and> (\<forall>b dv f q. pci_read16 b dv f q m' =
               (if b = d_bus d \<and> dv AND 0x1F = d_dev d AND 0x1F \<and> f AND 0x07 = d_func d AND 0x07 \<and> q AND 0xFE = PCI_COMMAND
                then pci_read16 b dv f q m OR 4 else pci_read16 b dv f q m)))"

lemma halfword_iff: "(q :: u8) AND 0xFC = p AND 0xFC \<and> q AND 2 = p AND 2 \<longleftrightarrow> q AND 0xFE = p AND 0xFE"
proof -
  have "q AND 0xFE = (q AND 0xFC) OR (q AND 2)" for q :: u8
    by (simp flip: bit.conj_disj_distrib)
  moreover have "(q AND 0xFE) AND 0xFC = q AND 0xFC" "(q AND 0xFE) AND 2 = q AND 2" for q :: u8 by (simp_all add: and.assoc)
  ultimately show ?thesis by metis
qed

lemma net_finish_claims:
  assumes "case List.find fits (pci_devices m) of None \<Rightarrow> \<not> p_found s | Some d \<Rightarrow> p_found s \<and> p_pci s = d"
  shows "net_claims fits m (net_finish g s m)"
proof (cases "List.find fits (pci_devices m)")
  case (Some d)
  have same: "pci_read16 b dv f q m = pci_read16 (d_bus d) (d_dev d) (d_func d) PCI_COMMAND m"
    if "b = d_bus d" "dv AND 0x1F = d_dev d AND 0x1F" "f AND 0x07 = d_func d AND 0x07" "q AND 0xFC = PCI_COMMAND AND 0xFC" "q AND 2 = PCI_COMMAND AND 2" for b dv f q
  proof -
    have "pci_addr b dv f q = pci_addr (d_bus d) (d_dev d) (d_func d) PCI_COMMAND" using that by (simp add: pci_addr_inj)
    then show ?thesis using that(5) by (simp add: pci_read16_def pci_read32_def)
  qed
  have q: "q AND 0xFE = PCI_COMMAND \<longleftrightarrow> q AND 0xFC = PCI_COMMAND AND 0xFC \<and> q AND 2 = PCI_COMMAND AND 2" for q
    unfolding halfword_iff by (simp add: kconst)
  show ?thesis using assms Some
    by (simp add: net_claims_def net_finish_def Let_def halfword_read q) (use same in metis)
qed (use assms in \<open>simp add: net_claims_def net_finish_def\<close>)


end
