(* ===== verification/Acpi.thy ===== *)
theory Acpi
  imports Ember_Prelude
begin

text \<open>
  Power management, \<^verbatim>\<open>src/kernel/drivers/acpi/acpi.c\<close>: the search for the root pointer, the walk through the root table and the
  port writes that turn the machine off or restart it. Memory is a function from virtual addresses to bytes; the fields of the
  packed structs of \<^verbatim>\<open>src/kernel/include/acpi.h\<close> are read at their offsets, least significant byte first. The
  physical addresses of the scan are natural numbers, all below one megabyte.
\<close>

section \<open>State and memory\<close>

record acpi =
  acpi_enabled :: bool
  pm1a_ctrl_port :: u16
  pm1b_ctrl_port :: u16
  slp_typa :: u16
  slp_typb :: u16

type_synonym memory = "u64 \<Rightarrow> u8"

definition le32 :: "memory \<Rightarrow> u64 \<Rightarrow> u32" where
  "le32 m p = ucast (m p) OR push_bit 8 (ucast (m (p + 1))) OR push_bit 16 (ucast (m (p + 2))) OR push_bit 24 (ucast (m (p + 3)))"

definition bytes_at :: "memory \<Rightarrow> u64 \<Rightarrow> nat \<Rightarrow> u8 list" where
  "bytes_at m p n = map (\<lambda>i. m (p + of_nat i)) [0 ..< n]"

definition text_at :: "memory \<Rightarrow> u64 \<Rightarrow> nat \<Rightarrow> string" where
  "text_at m p n = map (\<lambda>b. char_of (unat b)) (bytes_at m p n)"

definition EBDA_BASE :: nat where [kconst]: "EBDA_BASE = 0x9FC00"
definition BIOS_BASE :: nat where [kconst]: "BIOS_BASE = 0xE0000"
definition BIOS_END :: nat where [kconst]: "BIOS_END = 0xFFFFF"

section \<open>Tables\<close>

definition acpi_checksum :: "memory \<Rightarrow> u64 \<Rightarrow> nat \<Rightarrow> bool" where
  "acpi_checksum m p len \<longleftrightarrow> fold (\<lambda>b sum. sum + b) (bytes_at m p len) 0 = 0"

definition rsdp_here :: "memory \<Rightarrow> nat \<Rightarrow> bool" where
  "rsdp_here m addr \<longleftrightarrow>
     text_at m (PHYS_TO_VIRT (of_nat addr)) 8 = ''RSD PTR '' \<and> acpi_checksum m (PHYS_TO_VIRT (of_nat addr)) 20"

function find_rsdp :: "memory \<Rightarrow> nat \<Rightarrow> nat \<Rightarrow> u64 option" where
  "find_rsdp m addr stop =
     (if addr < stop then
        if rsdp_here m addr then Some (PHYS_TO_VIRT (of_nat addr)) else find_rsdp m (addr + 16) stop
      else None)"
  by pat_completeness auto
termination
  by (relation "measure (\<lambda>(m, addr, stop). stop - addr)") auto

declare find_rsdp.simps [simp del]

text \<open>The size of the header is subtracted at 64 bits, and the quotient cut to 32.\<close>

definition SDT_HEADER :: nat where [kconst]: "SDT_HEADER = 36"

definition rsdt_entries :: "memory \<Rightarrow> u64 \<Rightarrow> nat" where
  "rsdt_entries m rsdt = unat (ucast ((ucast (le32 m (rsdt + 4)) - of_nat SDT_HEADER :: u64) div 4) :: u32)"

definition rsdt_entry :: "memory \<Rightarrow> u64 \<Rightarrow> nat \<Rightarrow> u64" where
  "rsdt_entry m rsdt i = PHYS_TO_VIRT (ucast (le32 m (rsdt + of_nat SDT_HEADER + 4 * of_nat i)))"

definition table_here :: "memory \<Rightarrow> string \<Rightarrow> u64 \<Rightarrow> bool" where
  "table_here m sig hdr \<longleftrightarrow> text_at m hdr 4 = sig \<and> acpi_checksum m hdr (unat (le32 m (hdr + 4)))"

definition find_table :: "memory \<Rightarrow> u32 \<Rightarrow> string \<Rightarrow> u64 option" where
  "find_table m rsdt_phys sig =
     (let rsdt = PHYS_TO_VIRT (ucast rsdt_phys)
      in if \<not> acpi_checksum m rsdt (unat (le32 m (rsdt + 4))) then None
         else List.find (table_here m sig) (map (rsdt_entry m rsdt) [0 ..< rsdt_entries m rsdt]))"

definition acpi_init :: "memory \<Rightarrow> acpi \<Rightarrow> acpi" where
  "acpi_init m s =
     (case (case find_rsdp m EBDA_BASE (EBDA_BASE + 1024) of None \<Rightarrow> find_rsdp m BIOS_BASE BIOS_END | Some r \<Rightarrow> Some r) of
        None \<Rightarrow> s
      | Some rsdp \<Rightarrow>
          (case find_table m (le32 m (rsdp + 16)) ''FACP'' of
             None \<Rightarrow> s
           | Some fadt \<Rightarrow> s\<lparr>pm1a_ctrl_port := ucast (le32 m (fadt + 64)), pm1b_ctrl_port := ucast (le32 m (fadt + 68)),
               slp_typa := push_bit 10 0x1, slp_typb := 0, acpi_enabled := True\<rparr>))"

definition acpi_available :: "acpi \<Rightarrow> bool" where
  "acpi_available s = acpi_enabled s"

section \<open>Off and restart\<close>

datatype port_write = Outw u16 u16 | Outb u16 u8

definition acpi_shutdown :: "acpi \<Rightarrow> port_write list" where
  "acpi_shutdown s =
     (if acpi_enabled s \<and> pm1a_ctrl_port s \<noteq> 0 then
        Outw (pm1a_ctrl_port s) (slp_typa s OR push_bit 13 1)
        # (if pm1b_ctrl_port s \<noteq> 0 then [Outw (pm1b_ctrl_port s) (slp_typb s OR push_bit 13 1)] else [])
      else []) @ [Outw 0x604 0x2000, Outb 0xB2 0x00]"

text \<open>\<open>status\<close> are the values the keyboard controller's status port gives; None when they run out before its buffer is empty.\<close>

fun acpi_reboot :: "u8 list \<Rightarrow> acpi \<Rightarrow> port_write list option" where
  "acpi_reboot [] s = None"
| "acpi_reboot (v # status) s =
     (if bit v 1 then acpi_reboot status s else Some (Outb 0x64 0xFE # (if acpi_enabled s then [Outb 0xCF9 0x06] else [])))"

section \<open>What the search finds\<close>

lemma find_rsdp_Some:
  "find_rsdp m addr stop = Some r \<Longrightarrow>
     \<exists>k. addr + 16 * k < stop \<and> rsdp_here m (addr + 16 * k) \<and> r = PHYS_TO_VIRT (of_nat (addr + 16 * k)) \<and> (\<forall>j < k. \<not> rsdp_here m (addr + 16 * j))"
proof (induction m addr stop rule: find_rsdp.induct)
  case (1 m addr stop)
  have lt: "addr < stop" using "1.prems" by (subst (asm) find_rsdp.simps) (simp split: if_splits)
  show ?case
  proof (cases "rsdp_here m addr")
    case True
    then show ?thesis using "1.prems" lt by (intro exI [of _ 0]) (simp add: find_rsdp.simps [of m addr])
  next
    case False
    then have "find_rsdp m (addr + 16) stop = Some r" using "1.prems" lt by (simp add: find_rsdp.simps [of m addr])
    from "1.IH" [OF lt False this] obtain k where k: "addr + 16 + 16 * k < stop" "rsdp_here m (addr + 16 + 16 * k)"
      "r = PHYS_TO_VIRT (of_nat (addr + 16 + 16 * k))" "\<forall>j < k. \<not> rsdp_here m (addr + 16 + 16 * j)" by blast
    have "\<not> rsdp_here m (addr + 16 * j)" if "j < Suc k" for j using that k(4) False by (cases j) (auto simp: add.assoc)
    then show ?thesis using k(1-3) by (intro exI [of _ "Suc k"]) (auto simp: add.assoc)
  qed
qed

lemma find_rsdp_in:
  assumes "find_rsdp m addr stop = Some r" "addr mod 16 = 0"
  shows "\<exists>a. a mod 16 = 0 \<and> addr \<le> a \<and> a < stop \<and> rsdp_here m a \<and> r = PHYS_TO_VIRT (of_nat a)"
proof -
  obtain k where "addr + 16 * k < stop" "rsdp_here m (addr + 16 * k)" "r = PHYS_TO_VIRT (of_nat (addr + 16 * k))"
    using find_rsdp_Some [OF assms(1)] by blast
  with assms(2) show ?thesis by (intro exI [of _ "addr + 16 * k"]) simp
qed

lemma find_rsdp_None: "find_rsdp m addr stop = None \<Longrightarrow> addr + 16 * k < stop \<Longrightarrow> \<not> rsdp_here m (addr + 16 * k)"
proof (induction m addr stop arbitrary: k rule: find_rsdp.induct)
  case (1 m addr stop)
  have lt: "addr < stop" using "1.prems"(2) by simp
  then have n: "\<not> rsdp_here m addr" "find_rsdp m (addr + 16) stop = None" using "1.prems"(1) by (simp_all add: find_rsdp.simps [of m addr] split: if_splits)
  show ?case
  proof (cases k)
    case (Suc j)
    then show ?thesis using "1.IH" [OF lt n, of j] "1.prems"(2) by (simp add: add.assoc)
  qed (use n in simp)
qed

text \<open>Where the root pointer is looked for.\<close>

definition scanned :: "nat \<Rightarrow> bool" where
  "scanned a \<longleftrightarrow> a mod 16 = 0 \<and> (EBDA_BASE \<le> a \<and> a < EBDA_BASE + 1024 \<or> BIOS_BASE \<le> a \<and> a < BIOS_END)"

definition acpi_tables :: "memory \<Rightarrow> nat \<Rightarrow> u64 \<Rightarrow> bool" where
  "acpi_tables m a fadt \<longleftrightarrow> scanned a \<and> rsdp_here m a \<and>
     (let rsdt = PHYS_TO_VIRT (ucast (le32 m (PHYS_TO_VIRT (of_nat a) + 16)))
      in acpi_checksum m rsdt (unat (le32 m (rsdt + 4))) \<and> table_here m ''FACP'' fadt
         \<and> (\<exists>i < rsdt_entries m rsdt. fadt = rsdt_entry m rsdt i))"

text \<open>The root pointer that the initialisation works with.\<close>

definition root_pointer :: "memory \<Rightarrow> u64 option" where
  "root_pointer m = (case find_rsdp m EBDA_BASE (EBDA_BASE + 1024) of None \<Rightarrow> find_rsdp m BIOS_BASE BIOS_END | Some r \<Rightarrow> Some r)"

lemma root_pointer_Some: "root_pointer m = Some p \<Longrightarrow> \<exists>a. scanned a \<and> rsdp_here m a \<and> p = PHYS_TO_VIRT (of_nat a)"
proof -
  assume "root_pointer m = Some p"
  then consider "find_rsdp m EBDA_BASE (EBDA_BASE + 1024) = Some p" | "find_rsdp m BIOS_BASE BIOS_END = Some p"
    by (auto simp: root_pointer_def split: option.splits)
  then show ?thesis
  proof cases
    case 1
    have "EBDA_BASE mod 16 = 0" by (simp add: kconst)
    from find_rsdp_in [OF 1 this] show ?thesis
      unfolding scanned_def by (elim exE conjE) (rule exI, intro conjI, assumption, simp_all)
  next
    case 2
    have "BIOS_BASE mod 16 = 0" by (simp add: kconst)
    from find_rsdp_in [OF 2 this] show ?thesis
      unfolding scanned_def by (elim exE conjE) (rule exI, intro conjI, assumption, simp_all)
  qed
qed

lemma root_pointer_None: "root_pointer m = None \<Longrightarrow> scanned a \<Longrightarrow> \<not> rsdp_here m a"
proof -
  assume "root_pointer m = None" and sc: "scanned a"
  then have n: "find_rsdp m EBDA_BASE (EBDA_BASE + 1024) = None" "find_rsdp m BIOS_BASE BIOS_END = None"
    by (auto simp: root_pointer_def split: option.splits)
  from sc obtain q where q: "a = 16 * q" by (auto simp: scanned_def mod_eq_0_iff_dvd dvd_def)
  have "a = EBDA_BASE + 16 * (q - 0x9FC0) \<and> a < EBDA_BASE + 1024 \<or> a = BIOS_BASE + 16 * (q - 0xE000) \<and> a < BIOS_END"
    using sc q by (auto simp: scanned_def kconst)
  then show ?thesis using find_rsdp_None [OF n(1), of "q - 0x9FC0"] find_rsdp_None [OF n(2), of "q - 0xE000"] by auto
qed

lemma find_table_listed:
  "find_table m (le32 m (PHYS_TO_VIRT (of_nat a) + 16)) ''FACP'' = Some fadt \<Longrightarrow> scanned a \<Longrightarrow> rsdp_here m a \<Longrightarrow> acpi_tables m a fadt"
  by (fastforce simp: acpi_tables_def find_table_def Let_def find_Some_iff split: if_splits)

text \<open>
  Power management is enabled only on the word of tables with correct signature and checksum: the root pointer
  lies on a 16-byte boundary of the two areas that are searched, the root table has a correct checksum and lists
  the description table, whose port numbers are taken over. Conversely it is enabled when there is a correct root pointer and
  every correct root pointer leads to a description table; otherwise nothing changes.
\<close>

theorem acpi_init_checked:
  assumes "\<not> acpi_enabled s"
  shows "(acpi_enabled (acpi_init m s) \<longrightarrow>
      (\<exists>a fadt. acpi_tables m a fadt \<and> pm1a_ctrl_port (acpi_init m s) = ucast (le32 m (fadt + 64))
        \<and> pm1b_ctrl_port (acpi_init m s) = ucast (le32 m (fadt + 68))))
    \<and> (\<not> acpi_enabled (acpi_init m s) \<longrightarrow> acpi_init m s = s)
    \<and> ((\<forall>a. scanned a \<and> rsdp_here m a \<longrightarrow> find_table m (le32 m (PHYS_TO_VIRT (of_nat a) + 16)) ''FACP'' \<noteq> None) \<and> (\<exists>a. scanned a \<and> rsdp_here m a)
        \<longrightarrow> acpi_enabled (acpi_init m s))"
proof -
  have init: "acpi_init m s = (case root_pointer m of None \<Rightarrow> s | Some rsdp \<Rightarrow>
          (case find_table m (le32 m (rsdp + 16)) ''FACP'' of None \<Rightarrow> s
           | Some fadt \<Rightarrow> s\<lparr>pm1a_ctrl_port := ucast (le32 m (fadt + 64)), pm1b_ctrl_port := ucast (le32 m (fadt + 68)),
               slp_typa := push_bit 10 0x1, slp_typb := 0, acpi_enabled := True\<rparr>))"
    by (simp add: acpi_init_def root_pointer_def)
  show ?thesis
  proof (intro conjI impI)
    assume "acpi_enabled (acpi_init m s)"
    then obtain p fadt where p: "root_pointer m = Some p" "find_table m (le32 m (p + 16)) ''FACP'' = Some fadt"
      using assms unfolding init by (auto split: option.splits)
    from root_pointer_Some [OF p(1)] obtain a where a: "scanned a" "rsdp_here m a" "p = PHYS_TO_VIRT (of_nat a)" by blast
    from find_table_listed [of m a fadt] a p show "\<exists>a fadt. acpi_tables m a fadt \<and> pm1a_ctrl_port (acpi_init m s) = ucast (le32 m (fadt + 64))
        \<and> pm1b_ctrl_port (acpi_init m s) = ucast (le32 m (fadt + 68))" unfolding init by auto
  next
    assume "\<not> acpi_enabled (acpi_init m s)"
    then show "acpi_init m s = s" unfolding init by (auto split: option.splits)
  next
    assume h: "(\<forall>a. scanned a \<and> rsdp_here m a \<longrightarrow> find_table m (le32 m (PHYS_TO_VIRT (of_nat a) + 16)) ''FACP'' \<noteq> None) \<and> (\<exists>a. scanned a \<and> rsdp_here m a)"
    then obtain p where p: "root_pointer m = Some p" using root_pointer_None by (cases "root_pointer m") auto
    from root_pointer_Some [OF p] h show "acpi_enabled (acpi_init m s)" unfolding init p by (auto split: option.splits)
  qed
qed

text \<open>A machine with a root pointer at the start of the first area, a root table with one entry and a short description table.\<close>

definition acpi_bss :: acpi where
  "acpi_bss = \<lparr>acpi_enabled = False, pm1a_ctrl_port = 0, pm1b_ctrl_port = 0, slp_typa = 0, slp_typb = 0\<rparr>"

definition firmware :: "(u64 \<times> u8 list) list" where
  "firmware =
    [(KERNEL_BASE + 0x9FC00, [82, 83, 68, 32, 80, 84, 82, 32, 209, 0, 0, 0, 0, 0, 0, 0, 0, 16, 0, 0]),
     (KERNEL_BASE + 0x1000, [82, 83, 68, 84, 40, 0, 0, 0, 0, 123] @ replicate 26 0 @ [0, 32, 0, 0]),
     (KERNEL_BASE + 0x2000, [70, 65, 67, 80, 72, 0, 0, 0, 0, 148] @ replicate 54 0 @ [4, 6, 0, 0] @ [0, 0, 0, 0])]"

fun laid_out :: "(u64 \<times> u8 list) list \<Rightarrow> memory" where
  "laid_out [] p = 0"
| "laid_out ((b, bs) # r) p = (if unat (p - b) < length bs then bs ! unat (p - b) else laid_out r p)"

theorem acpi_init_checked_witness:
  "acpi_enabled (acpi_init (laid_out firmware) acpi_bss)
   \<and> (\<exists>a fadt. acpi_tables (laid_out firmware) a fadt \<and> pm1a_ctrl_port (acpi_init (laid_out firmware) acpi_bss) = ucast (le32 (laid_out firmware) (fadt + 64)))"
proof -
  let ?m = "laid_out firmware"
  have h: "rsdp_here ?m EBDA_BASE"
    by (simp add: rsdp_here_def text_at_def bytes_at_def acpi_checksum_def firmware_def PHYS_TO_VIRT_def kconst upt_conv_Cons char_of_def bit_0)
  have "PHYS_TO_VIRT (of_nat EBDA_BASE) = KERNEL_BASE + 0x9FC00" by (simp add: PHYS_TO_VIRT_def kconst)
  then have r: "root_pointer ?m = Some (KERNEL_BASE + 0x9FC00)"
    using h by (simp add: root_pointer_def find_rsdp.simps [of _ EBDA_BASE])
  have w: "le32 ?m (KERNEL_BASE + 0x9FC00 + 16) = 0x1000" "le32 ?m (KERNEL_BASE + 0x1000 + 4) = 40"
    "le32 ?m (KERNEL_BASE + 0x1000 + 36) = 0x2000" "le32 ?m (KERNEL_BASE + 0x2000 + 4) = 72"
    by (simp_all add: le32_def firmware_def kconst nth_append)
  have c: "acpi_checksum ?m (KERNEL_BASE + 0x1000) 40"
    by (simp add: acpi_checksum_def bytes_at_def firmware_def kconst upt_conv_Cons nth_append)
  have d: "acpi_checksum ?m (KERNEL_BASE + 0x2000) 72"
    by (simp add: acpi_checksum_def bytes_at_def firmware_def kconst upt_conv_Cons nth_append)
  have "text_at ?m (KERNEL_BASE + 0x2000) 4 = ''FACP''"
    by (simp add: text_at_def bytes_at_def firmware_def kconst upt_conv_Cons char_of_def bit_0)
  then have e: "table_here ?m ''FACP'' (KERNEL_BASE + 0x2000)" using d w(4) by (simp add: table_here_def)
  have "rsdt_entries ?m (KERNEL_BASE + 0x1000) = 1" unfolding rsdt_entries_def w(2) by (simp add: kconst)
  moreover have pv: "PHYS_TO_VIRT 0x1000 = KERNEL_BASE + 0x1000" "PHYS_TO_VIRT 0x2000 = KERNEL_BASE + 0x2000"
    by (simp_all add: PHYS_TO_VIRT_def)
  moreover have "rsdt_entry ?m (KERNEL_BASE + 0x1000) 0 = KERNEL_BASE + 0x2000"
    using w(3) pv(2) unfolding rsdt_entry_def SDT_HEADER_def by simp
  moreover have "PHYS_TO_VIRT (ucast (0x1000 :: u32)) = KERNEL_BASE + 0x1000" using pv(1) by simp
  ultimately have t: "find_table ?m (le32 ?m (KERNEL_BASE + 0x9FC00 + 16)) ''FACP'' = Some (KERNEL_BASE + 0x2000)"
    using c e w(2) unfolding find_table_def w(1) Let_def by (simp only: ) simp
  have "\<not> acpi_enabled acpi_bss" by (simp add: acpi_bss_def)
  moreover have "acpi_enabled (acpi_init ?m acpi_bss)" using r t by (simp add: acpi_init_def root_pointer_def split: option.splits)
  ultimately show ?thesis using acpi_init_checked [of acpi_bss ?m] by blast
qed

text \<open>The sleep type that is written for power-off is 1, where the comment beside it has 7.\<close>

theorem sleep_type_one: "\<not> acpi_enabled s \<Longrightarrow> acpi_enabled (acpi_init m s) \<Longrightarrow> slp_typa (acpi_init m s) = push_bit 10 1"
  by (auto simp: acpi_init_def split: option.splits)

end
