(* ===== verification/Boot.thy ===== *)
theory Boot
  imports Syscall Pci Acpi
begin

text \<open>
  The kernel's entry, \<^verbatim>\<open>src/kernel/main.c\<close>: the walk through the boot loader's tags and the order in which the components are
  initialised, composed from the models of the components. The boot information is memory as bytes by virtual
  address, and the walk takes a bound \<open>n\<close> on the number of tags and on the length of the command line. Link-time and
  stub addresses, the contents of configuration space and of the firmware's memory are the environment.
  The messages on the way are not part of the state.
\<close>

section \<open>Boot information\<close>

definition MB2_MAGIC :: u32 where [kconst]: "MB2_MAGIC = 0x36d76289"
definition MB2_TAG_END :: u32 where [kconst]: "MB2_TAG_END = 0"
definition MB2_TAG_CMDLINE :: u32 where [kconst]: "MB2_TAG_CMDLINE = 1"
definition MB2_TAG_MMAP :: u32 where [kconst]: "MB2_TAG_MMAP = 6"
definition MB2_TAG_FRAMEBUFFER :: u32 where [kconst]: "MB2_TAG_FRAMEBUFFER = 8"

definition le64 :: "memory \<Rightarrow> u64 \<Rightarrow> u64" where
  "le64 m p = ucast (le32 m p) OR push_bit 32 (ucast (le32 m (p + 4)))"

fun strstr_simple :: "string \<Rightarrow> string \<Rightarrow> bool" where
  "strstr_simple [] nd = False"
| "strstr_simple (c # cs) nd = (take (length nd) (c # cs) = nd \<or> strstr_simple cs nd)"

record boot_info =
  bi_mmap :: "(u64 \<times> u32) option"      \<comment> \<open>address and number of the entries\<close>
  bi_fb_addr :: u64
  bi_fb_width :: u32
  bi_fb_height :: u32
  bi_fb_pitch :: u32
  bi_fb_bpp :: u32
  boot_nodesktop :: bool

definition boot_info_zero :: boot_info where
  "boot_info_zero = \<lparr>bi_mmap = None, bi_fb_addr = 0, bi_fb_width = 0, bi_fb_height = 0, bi_fb_pitch = 0, bi_fb_bpp = 0, boot_nodesktop = False\<rparr>"

text \<open>One tag; a memory map with entries of size zero is a division by zero.\<close>

definition mb_tag :: "nat \<Rightarrow> memory \<Rightarrow> u64 \<Rightarrow> boot_info \<Rightarrow> kstop + boot_info" where
  "mb_tag n m p b =
     (let ty = le32 m p
      in if ty = MB2_TAG_MMAP then
           (if le32 m (p + 8) = 0 then Inl DivideError
            else Inr (b\<lparr>bi_mmap := Some (p + 16, ucast ((ucast (le32 m (p + 4)) - 16 :: u64) div ucast (le32 m (p + 8))))\<rparr>))
         else if ty = MB2_TAG_FRAMEBUFFER then
           Inr (b\<lparr>bi_fb_addr := le64 m (p + 8), bi_fb_width := le32 m (p + 20), bi_fb_height := le32 m (p + 24),
                  bi_fb_pitch := le32 m (p + 16), bi_fb_bpp := ucast (m (p + 28))\<rparr>)
         else if ty = MB2_TAG_CMDLINE then
           kbind (user_str n (p + 8) m) (\<lambda>t. Inr (if strstr_simple t ''nodesktop'' then b\<lparr>boot_nodesktop := True\<rparr> else b))
         else Inr b)"

fun mb_tags :: "nat \<Rightarrow> nat \<Rightarrow> memory \<Rightarrow> u64 \<Rightarrow> boot_info \<Rightarrow> kstop + boot_info" where
  "mb_tags n 0 m p b = Inl NoProgress"
| "mb_tags n (Suc k) m p b =
     (if le32 m p = MB2_TAG_END then Inr b
      else kbind (mb_tag n m p b) (mb_tags n k m (p + ucast (ALIGN_UP (le32 m (p + 4)) 8 :: u32))))"

text \<open>The entries as \<open>pmm_init\<close> indexes them: 24 bytes each, whatever the tag says.\<close>

definition mmap_entry :: "memory \<Rightarrow> u64 \<Rightarrow> multiboot_mmap_entry" where
  "mmap_entry m p = \<lparr>base_addr = le64 m p, mlength = le64 m (p + 8), mtype = le32 m (p + 16)\<rparr>"

definition mmap_list :: "memory \<Rightarrow> u64 \<Rightarrow> u32 \<Rightarrow> multiboot_mmap_entry list" where
  "mmap_list m p count = map (\<lambda>i. mmap_entry m (p + 24 * of_nat i)) [0 ..< unat count]"

section \<open>Initialisation\<close>

datatype irq_fn = Timer_irq | Keyboard_irq | Mouse_irq

record boot =
  b_sys :: sys
  b_cpu :: cpu
  b_idt :: "nat \<Rightarrow> idt_entry"
  b_idtr :: desc_ptr
  b_pic :: "irq_fn pic"
  b_gpu :: gpu_state
  b_wifi :: probe
  b_bt :: probe
  b_config :: config
  b_acpi :: acpi
  b_nodesktop :: bool

text \<open>Addresses fixed by the linker and the stubs of \<^verbatim>\<open>startup.asm\<close>.\<close>

record image =
  kernel_end :: u64
  bitmap_addr :: u64
  gdt_addr :: u64
  idt_addr :: u64
  tss_addr :: u64
  tss_stack :: u64
  isr_stub :: "nat \<Rightarrow> u64"
  irq_stub :: "nat \<Rightarrow> u64"
  syscall_entry :: u64
  trampoline :: u64
  idle_fn :: u64
  idle_task :: u64

definition on_kern :: "(fs_state \<Rightarrow> fs_state) \<Rightarrow> boot \<Rightarrow> boot" where
  "on_kern f b = b\<lparr>b_sys := (b_sys b)\<lparr>kern := f (kern (b_sys b))\<rparr>\<rparr>"

definition on_kernM :: "(fs_state \<Rightarrow> kstop + fs_state) \<Rightarrow> boot \<Rightarrow> kstop + boot" where
  "on_kernM f b = kbind (f (kern (b_sys b))) (\<lambda>k. Inr (b\<lparr>b_sys := (b_sys b)\<lparr>kern := k\<rparr>\<rparr>))"

text \<open>Tables, memory and screen.\<close>

definition boot_tables :: "image \<Rightarrow> boot \<Rightarrow> boot" where
  "boot_tables im b =
     (let c = tss_init (tss_stack im) (gdt_init (gdt_addr im) (tss_addr im) (b_cpu b));
          (t, r) = idt_init (isr_stub im) (irq_stub im) (idt_addr im) (b_idt b)
      in b\<lparr>b_cpu := c, b_idt := t, b_idtr := r\<rparr>)"

definition boot_memory :: "image \<Rightarrow> memory \<Rightarrow> boot_info \<Rightarrow> boot \<Rightarrow> kstop + boot" where
  "boot_memory im m bi b =
     (let b1 = (case bi_mmap bi of None \<Rightarrow> b
                | Some (p, count) \<Rightarrow> on_kern (pmm_init (kernel_end im) (bitmap_addr im) (mmap_list m p count)) b)
      in on_kernM vmm_init b1)"

definition boot_screen :: "boot_info \<Rightarrow> boot \<Rightarrow> boot" where
  "boot_screen bi b =
     (let s = screen (b_sys b);
          s1 = (if bi_fb_addr bi \<noteq> 0 \<and> bi_fb_bpp bi = 32
                then fb_init (PHYS_TO_VIRT (bi_fb_addr bi)) (bi_fb_width bi) (bi_fb_height bi) (bi_fb_pitch bi) (bi_fb_bpp bi) s else s)
      in b\<lparr>b_sys := (b_sys b)\<lparr>screen := console_init s1\<rparr>\<rparr>)"

text \<open>
  The drivers: timer, keyboard and mouse install their interrupt handlers; the port traffic of the mouse is in
  the theory of the input drivers.
\<close>

definition boot_drivers :: "boot \<Rightarrow> boot" where
  "boot_drivers b =
     (let b1 = on_kern (pit_init 100) b;
          p = irq_install_handler 12 Mouse_irq (irq_install_handler 1 Keyboard_irq (irq_install_handler 0 Timer_irq (b_pic b1)));
          b2 = b1\<lparr>b_pic := p, b_gpu := gpu_init (b_config b1) (b_gpu b1)\<rparr>;
          (_, w, c1) = wifi_init (b_wifi b2) (b_config b2);
          (_, t, c2) = bluetooth_init (b_bt b2) c1
      in b2\<lparr>b_wifi := w, b_bt := t, b_config := c2\<rparr>)"

definition boot_services :: "image \<Rightarrow> memory \<Rightarrow> boot \<Rightarrow> kstop + boot" where
  "boot_services im m b =
     (let b1 = b\<lparr>b_sys := syscall_init (syscall_entry im) (b_sys b)\<rparr>;
          b2 = on_kern (\<lambda>k. ext2_register (vfs_init k)) b1
      in kbind (on_kernM procfs_register b2) (\<lambda>b3.
         on_kernM (sched_init (trampoline im) (idle_fn im)) (b3\<lparr>b_acpi := acpi_init m (b_acpi b3)\<rparr>)))"

text \<open>
  The whole entry up to its last loop. \<open>panic\<close> for a missing init process halts.
\<close>

definition kernel_start :: "nat \<Rightarrow> nat \<Rightarrow> image \<Rightarrow> memory \<Rightarrow> u32 \<Rightarrow> u64 \<Rightarrow> boot \<Rightarrow> kstop + boot" where
  "kernel_start n k im m magic info b =
     (if magic \<noteq> MB2_MAGIC then Inl Halted
      else
        kbind (mb_tags n k m (PHYS_TO_VIRT (info + 8)) boot_info_zero) (\<lambda>bi.
        kbind (boot_memory im m bi (boot_tables im (b\<lparr>b_nodesktop := boot_nodesktop bi\<rparr>))) (\<lambda>b1.
        kbind (boot_services im m (boot_drivers (boot_screen bi b1))) (\<lambda>b2.
        kbind (task_create (trampoline im) ''kindle'' (idle_task im) 0 8 (kern (b_sys b2))) (\<lambda>(t, ks).
          case t of None \<Rightarrow> Inl Halted
          | Some i \<Rightarrow> Inr (on_kern (\<lambda>_. tput i (\<lambda>x. x\<lparr>pid := 1\<rparr>) ks) b2))))))"

section \<open>What the steps leave alone\<close>

text \<open>A kernel that has neither used its heap nor queued a task.\<close>

definition quiet :: "fs_state \<Rightarrow> bool" where
  "quiet k \<longleftrightarrow> heap_used k {} \<and> ready_head k = None"

lemma quiet_cong:
  "quiet k \<Longrightarrow> heap_head k' = heap_head k \<Longrightarrow> heap k' = heap k \<Longrightarrow> heap_brk k' = heap_brk k \<Longrightarrow> ready_head k' = ready_head k \<Longrightarrow> quiet k'"
  by (simp add: quiet_def heap_used_def heap_list_def)

lemma quiet_more:
  assumes "quiet k" "vmm.more k' = vmm.more k"
  shows "quiet k'"
proof -
  have "kheap.more k' = kheap.more k" using assms(2) by (cases k; cases k'; simp)
  from quiet_cong [OF assms(1)] kheap_more [OF assms(2)] sched_more(2) [OF this] show ?thesis by blast
qed

lemma mark_more [simp]: "pmm.more (mark_available a e s) = pmm.more s" "pmm.more (mark_used a e s) = pmm.more s"
proof -
  show "pmm.more (mark_available a e s) = pmm.more s"
    by (induction a e s rule: mark_available.induct) (subst mark_available.simps, simp add: bitmap_set_def Let_def)
  show "pmm.more (mark_used a e s) = pmm.more s"
    by (induction a e s rule: mark_used.induct) (subst mark_used.simps, simp add: bitmap_clear_def Let_def)
qed

lemma pmm_init_more: "pmm.more (pmm_init ke ba es s) = pmm.more s"
proof -
  have "pmm.more (fold add_region es s) = pmm.more s" for s :: "'a pmm_scheme"
    by (induction es arbitrary: s) (simp_all add: add_region_def)
  then show ?thesis by (simp add: pmm_init_def Let_def)
qed

lemma quiet_pmm: "quiet k \<Longrightarrow> quiet (pmm_init ke ba es k)"
proof (rule quiet_more)
  show "vmm.more (pmm_init ke ba es k) = vmm.more k"
    using pmm_init_more [of ke ba es k] by (cases k; cases "pmm_init ke ba es k"; simp)
qed

lemma quiet_vmm: "quiet k \<Longrightarrow> vmm_init k = Inr k' \<Longrightarrow> quiet k'"
proof -
  assume q: "quiet k" and "vmm_init k = Inr k'"
  then obtain p k1 where a: "alloc_page k = Inr (p, k1)" and k': "vmm.more k' = vmm.more k1" by (auto simp: vmm_init_def Let_def)
  from quiet_more [OF q] alloc_page_frame(6) [OF a] k' show ?thesis by simp
qed

lemma vmm_init_Inl: "vmm_init k = Inl e \<Longrightarrow> e = OutOfPhysicalMemory"
  using alloc_page_Inl by (auto simp: vmm_init_def kbind_eq_Inl Let_def)

lemma procfs_register_runs: "\<exists>k'. procfs_register k = Inr k' \<and> (quiet k \<longrightarrow> quiet k')"
proof (cases "free_slot MAX_MOUNTS 0 (mount_table k)")
  case None
  then show ?thesis by (auto simp: procfs_register_def vfs_mount_def vfs_register_fs_def fs_name_def intro: quiet_cong)
next
  case (Some i)
  then show ?thesis
    by (auto simp: procfs_register_def vfs_mount_def vfs_register_fs_def fs_name_def fs_mount_def procfs_mount_def Let_def kconst intro: quiet_cong)
qed

lemma sched_init_Inl: "quiet k \<Longrightarrow> sched_init tramp idle k = Inl e \<Longrightarrow> e = OutOfPhysicalMemory \<or> e = HeapExhausted"
proof -
  assume q: "quiet k" and e: "sched_init tramp idle k = Inl e"
  let ?s0 = "k\<lparr>task_pool := (\<lambda>i. if i < MAX_TASKS then (task_pool k i)\<lparr>state := TASK_DEAD, pid := 0\<rparr> else task_pool k i)\<rparr>"
  have al: "alloc_task ?s0 = (Some 0, ?s0\<lparr>task_pool := (task_pool ?s0)(0 := task_zero)\<rparr>)"
    by (rule alloc_task_slot0) (simp add: kconst)
  let ?s2 = "tput 0 (\<lambda>x. x\<lparr>pid := 0, ppid := 0, priority := 0, state := TASK_READY, name := ''idle''\<rparr>)
      (?s0\<lparr>task_pool := (task_pool ?s0)(0 := task_zero)\<rparr>)"
  have "heap_used ?s2 {}" using q by (simp add: quiet_def heap_used_def heap_list_def tput_def)
  note km = kmalloc_used [OF this, of KERNEL_STACK_SZ]
  show ?thesis
  proof (cases "kmalloc 2 HEAP_STEPS KERNEL_STACK_SZ ?s2")
    case (Inl e')
    with km e show ?thesis unfolding sched_init_def Let_def al prod.case option.case by (auto simp: kconst)
  next
    case (Inr ps)
    obtain p s3 where p: "kmalloc 2 HEAP_STEPS KERNEL_STACK_SZ ?s2 = Inr (p, s3)" using Inr by (cases ps) auto
    have "ready_head s3 = None" using sched_more(2) [OF kmalloc_more [OF p]] q by (simp add: quiet_def)
    then show ?thesis using e unfolding sched_init_def Let_def al prod.case option.case p kbind_simps
      by (auto simp: enqueue_task_def split_def)
  qed
qed

lemma user_str_Inl: "user_str n q m = Inl e \<Longrightarrow> e = NoProgress"
  by (induction n arbitrary: q) (auto simp: kbind_eq_Inl split: if_splits)

lemma mb_tag_Inl: "mb_tag n m p b = Inl e \<Longrightarrow> e = NoProgress \<or> e = DivideError"
  using user_str_Inl by (fastforce simp: mb_tag_def Let_def kbind_eq_Inl split: if_splits)

lemma mb_tags_Inl: "mb_tags n k m p b = Inl e \<Longrightarrow> e = NoProgress \<or> e = DivideError"
proof (induction k arbitrary: p b)
  case (Suc k)
  then show ?case using mb_tag_Inl [of n m p b e] by (auto simp: kbind_eq_Inl split: if_splits)
qed simp

section \<open>The boot never completes\<close>

lemma kern_steps [simp]:
  "kern (b_sys (boot_tables im b)) = kern (b_sys b)" "kern (b_sys (boot_screen bi b)) = kern (b_sys b)"
  "kern (b_sys (on_kern f b)) = f (kern (b_sys b))" "kern (b_sys (boot_drivers b)) = pit_init 100 (kern (b_sys b))"
  by (simp_all add: boot_tables_def boot_screen_def on_kern_def boot_drivers_def Let_def split_def)

lemma boot_memory_quiet:
  assumes "quiet (kern (b_sys b))"
  shows "case boot_memory im m bi b of Inl e \<Rightarrow> e = OutOfPhysicalMemory | Inr b' \<Rightarrow> quiet (kern (b_sys b'))"
proof -
  define b1 where "b1 = (case bi_mmap bi of None \<Rightarrow> b
                | Some (p, count) \<Rightarrow> on_kern (pmm_init (kernel_end im) (bitmap_addr im) (mmap_list m p count)) b)"
  have q: "quiet (kern (b_sys b1))" using assms quiet_pmm by (auto simp: b1_def split: option.splits)
  have "boot_memory im m bi b = on_kernM vmm_init b1" by (simp add: boot_memory_def b1_def)
  then show ?thesis using quiet_vmm [OF q] vmm_init_Inl by (cases "vmm_init (kern (b_sys b1))") (auto simp: on_kernM_def)
qed

text \<open>After the services are up, the idle task sits in the slot that the first \<open>task_create\<close> takes.\<close>

lemma boot_services_end:
  assumes "quiet (kern (b_sys b))"
  shows "case boot_services im m b of Inl e \<Rightarrow> e = OutOfPhysicalMemory \<or> e = HeapExhausted
    | Inr b' \<Rightarrow> \<exists>k. quiet k \<and> sched_init (trampoline im) (idle_fn im) k = Inr (kern (b_sys b'))"
proof -
  let ?b2 = "on_kern (\<lambda>k. ext2_register (vfs_init k)) (b\<lparr>b_sys := syscall_init (syscall_entry im) (b_sys b)\<rparr>)"
  have "kern (syscall_init se s) = kern s" for se s by (simp add: syscall_init_def init_table_def Let_def)
  then have "quiet (kern (b_sys ?b2))"
    using assms by (auto simp: ext2_register_def vfs_register_fs_def vfs_init_def intro: quiet_cong)
  then obtain k where k: "procfs_register (kern (b_sys ?b2)) = Inr k" "quiet k" using procfs_register_runs by blast
  show ?thesis
  proof (cases "sched_init (trampoline im) (idle_fn im) k")
    case (Inl e)
    then show ?thesis using sched_init_Inl [OF k(2)] k(1) by (simp add: boot_services_def Let_def on_kernM_def)
  next
    case (Inr k')
    then show ?thesis using k by (auto simp: boot_services_def Let_def on_kernM_def)
  qed
qed

definition boot_stops :: "kstop set" where
  "boot_stops = {Halted, NoProgress, DivideError, OutOfPhysicalMemory, HeapExhausted, NullDeref}"

lemma bind_stops:
  "(\<And>e. r = Inl e \<Longrightarrow> e \<in> boot_stops) \<Longrightarrow> (\<And>x. r = Inr x \<Longrightarrow> f x \<in> Inl ` boot_stops) \<Longrightarrow> kbind r f \<in> Inl ` boot_stops"
  by (cases r) simp_all

lemma init_process_stops:
  assumes "quiet k0" and si: "sched_init (trampoline im) (idle_fn im) k0 = Inr k1"
  shows "kbind (task_create (trampoline im) ''kindle'' (idle_task im) 0 8 k1) (\<lambda>(t, ks).
     case t of None \<Rightarrow> Inl Halted | Some i \<Rightarrow> Inr (on_kern (\<lambda>_. tput i (\<lambda>x. x\<lparr>pid := 1\<rparr>) ks) b2)) \<in> Inl ` boot_stops"
proof -
  have q: "heap_used k0 {}" "ready_head k0 = None" using assms(1) by (auto simp: quiet_def)
  obtain stk z where u: "heap_used k1 {(stk, z)}" using sched_init_idle(3) [OF q(2) si q(1)] by blast
  obtain t where t: "heap_used k1 {(stk, z)} \<longrightarrow> heap_used t {(stk, z)}"
    "task_create (trampoline im) ''kindle'' (idle_task im) 0 8 k1 = (case kmalloc 2 HEAP_STEPS KERNEL_STACK_SZ t of Inl e \<Rightarrow> Inl e
       | Inr (stk, s4) \<Rightarrow> if stk = 0 then Inr (None, tput 0 (\<lambda>x. x\<lparr>kernel_stack := 0, pid := 0\<rparr>) s4) else Inl NullDeref)"
    by (rule task_create_over_idle [OF sched_init_idle(1,2) [OF q(2) si], where U = "{(stk, z)}" and tr = "trampoline im"
        and nm = "''kindle''" and entry = "idle_task im" and arg = 0 and prio = 8])
  from kmalloc_used [OF t(1) [rule_format, OF u], of KERNEL_STACK_SZ] show ?thesis
    unfolding t(2) by (auto simp: kconst boot_stops_def split: sum.splits)
qed


section \<open>Boot information as the loader writes it\<close>

datatype mb2_tag =
    Mmap "multiboot_mmap_entry list"
  | Screen u64 u32 u32 u32 u8          \<comment> \<open>address, pitch, width, height, bits per pixel\<close>
  | Cmdline string
  | Other_tag u32 "u8 list"

definition entry_bytes :: "multiboot_mmap_entry \<Rightarrow> u8 list" where
  "entry_bytes e = le_bytes 8 (base_addr e) @ le_bytes 8 (mlength e) @ le_bytes 4 (mtype e) @ le_bytes 4 (0 :: u32)"

fun tag_head :: "mb2_tag \<Rightarrow> u32" where
  "tag_head (Mmap es) = 6"
| "tag_head (Screen a p w h d) = 8"
| "tag_head (Cmdline t) = 1"
| "tag_head (Other_tag ty bs) = ty"

fun tag_data :: "mb2_tag \<Rightarrow> u8 list" where
  "tag_data (Mmap es) = le_bytes 4 (24 :: u32) @ le_bytes 4 (0 :: u32) @ concat (map entry_bytes es)"
| "tag_data (Screen a p w h d) = le_bytes 8 a @ le_bytes 4 p @ le_bytes 4 w @ le_bytes 4 h @ [d, 1, 0, 0]"
| "tag_data (Cmdline t) = map char_u8 t @ [0]"
| "tag_data (Other_tag ty bs) = bs"

definition tag_bytes :: "mb2_tag \<Rightarrow> u8 list" where
  "tag_bytes t = (let b = tag_data t; len = 8 + length b
     in le_bytes 4 (tag_head t) @ le_bytes 4 (of_nat len :: u32) @ b @ replicate ((8 - len mod 8) mod 8) 0)"

definition info_bytes :: "mb2_tag list \<Rightarrow> u8 list" where
  "info_bytes ts = concat (map tag_bytes ts) @ le_bytes 4 (0 :: u32) @ le_bytes 4 (8 :: u32)"

fun tag_ok :: "nat \<Rightarrow> mb2_tag \<Rightarrow> bool" where
  "tag_ok n (Cmdline t) \<longleftrightarrow> CHR 0x00 \<notin> set t \<and> length t < n \<and> length t < 2 ^ 31"
| "tag_ok n (Other_tag ty bs) \<longleftrightarrow> ty \<notin> {0, 1, 6, 8} \<and> length bs < 2 ^ 31"
| "tag_ok n (Mmap es) \<longleftrightarrow> length es < 2 ^ 26"
| "tag_ok n (Screen a p w h d) \<longleftrightarrow> True"

text \<open>Bytes in memory.\<close>

definition holds :: "memory \<Rightarrow> u64 \<Rightarrow> u8 list \<Rightarrow> bool" where
  "holds m p bs \<longleftrightarrow> (\<forall>i < length bs. m (p + of_nat i) = bs ! i)"

lemma holds_append: "holds m p (xs @ ys) \<longleftrightarrow> holds m p xs \<and> holds m (p + of_nat (length xs)) ys"
proof
  assume h: "holds m p (xs @ ys)"
  have "m (p + of_nat (length xs) + of_nat i) = ys ! i" if "i < length ys" for i
    using h [unfolded holds_def, rule_format, of "length xs + i"] that by (simp add: nth_append add.assoc)
  moreover have "m (p + of_nat i) = xs ! i" if "i < length xs" for i
    using h [unfolded holds_def, rule_format, of i] that by (simp add: nth_append)
  ultimately show "holds m p xs \<and> holds m (p + of_nat (length xs)) ys" by (simp add: holds_def)
next
  assume h: "holds m p xs \<and> holds m (p + of_nat (length xs)) ys"
  show "holds m p (xs @ ys)" unfolding holds_def
  proof (intro allI impI)
    fix i assume i: "i < length (xs @ ys)"
    show "m (p + of_nat i) = (xs @ ys) ! i"
    proof (cases "i < length xs")
      case False
      then have "(of_nat (length xs + (i - length xs)) :: u64) = of_nat i" by simp
      then have e: "p + of_nat i = p + of_nat (length xs) + of_nat (i - length xs)" by (simp only: of_nat_add add.assoc)
      have "i - length xs < length ys" using False i by auto
      with h have "m (p + of_nat (length xs) + of_nat (i - length xs)) = ys ! (i - length xs)" unfolding holds_def by blast
      then show ?thesis unfolding e nth_append using False by (simp only: if_False)
    qed (use h in \<open>simp add: holds_def nth_append\<close>)
  qed
qed

lemma le_bytes_length [simp]: "length (le_bytes n w) = n"
  by (simp add: le_bytes_def)

lemma le32_holds: "holds m p (le_bytes 4 (w :: u32)) \<Longrightarrow> le32 m p = w"
proof -
  assume h: "holds m p (le_bytes 4 w)"
  have b: "m p = ucast w" "m (p + 1) = ucast (drop_bit 8 w)" "m (p + 2) = ucast (drop_bit 16 w)" "m (p + 3) = ucast (drop_bit 24 w)"
    using h [unfolded holds_def, rule_format, of 0] h [unfolded holds_def, rule_format, of 1]
      h [unfolded holds_def, rule_format, of 2] h [unfolded holds_def, rule_format, of 3]
    by (simp_all add: le_bytes_def)
  have s: "ucast (ucast w :: u8) = take_bit 8 w" "push_bit 8 (ucast (ucast (drop_bit 8 w) :: u8)) = push_bit 8 (take_bit (16 - 8) (drop_bit 8 w))"
     "push_bit 16 (ucast (ucast (drop_bit 16 w) :: u8)) = push_bit 16 (take_bit (24 - 16) (drop_bit 16 w))"
     "push_bit 24 (ucast (ucast (drop_bit 24 w) :: u8)) = push_bit 24 (drop_bit 24 w)"
    by (rule bit_word_eqI; auto simp: bit_simps)+
  have "le32 m p = ((take_bit 8 w OR push_bit 8 (take_bit (16 - 8) (drop_bit 8 w))) OR push_bit 16 (take_bit (24 - 16) (drop_bit 16 w))) OR push_bit 24 (drop_bit 24 w)"
    unfolding le32_def b s or.assoc ..
  also have "take_bit 8 w OR push_bit 8 (take_bit (16 - 8) (drop_bit 8 w)) = take_bit 16 w" by (rule join_slices) simp
  also have "take_bit 16 w OR push_bit 16 (take_bit (24 - 16) (drop_bit 16 w)) = take_bit 24 w" by (rule join_slices) simp
  finally show ?thesis by (simp add: join_slices)
qed

lemma le64_holds: "holds m p (le_bytes 8 (w :: u64)) \<Longrightarrow> le64 m p = w"
proof -
  assume h: "holds m p (le_bytes 8 w)"
  have "le_bytes 8 w = le_bytes 4 (ucast w :: u32) @ le_bytes 4 (ucast (drop_bit 32 w) :: u32)"
    by (simp add: le_bytes_def upt_conv_Cons) (auto intro!: bit_word_eqI simp: bit_simps)
  with h have l: "le32 m p = ucast w" "le32 m (p + 4) = ucast (drop_bit 32 w)" by (auto simp: holds_append intro!: le32_holds)
  have s: "ucast (ucast w :: u32) = take_bit 32 w" "push_bit 32 (ucast (ucast (drop_bit 32 w) :: u32)) = push_bit 32 (drop_bit 32 w)"
    by (rule bit_word_eqI; auto simp: bit_simps)+
  show ?thesis unfolding le64_def l s by (simp add: join_slices)
qed

lemma entry_length [simp]: "length (entry_bytes e) = 24"
  by (simp add: entry_bytes_def)

lemma mmap_entry_holds: "holds m p (entry_bytes e) \<Longrightarrow> mmap_entry m p = e"
  by (auto simp: entry_bytes_def holds_append mmap_entry_def le64_holds le32_holds add.assoc)

lemma mmap_list_holds:
  assumes "holds m p (concat (map entry_bytes es))" "length es < 2 ^ 32"
  shows "mmap_list m p (of_nat (length es)) = es"
proof -
  have u: "unat (of_nat (length es) :: u32) = length es" using assms(2) by (simp add: unat_of_nat)
  have "map (\<lambda>i. mmap_entry m (p + 24 * of_nat i)) [0 ..< length es] = es" using assms(1)
  proof (induction es arbitrary: p)
    case (Cons e es)
    have h: "holds m p (entry_bytes e)" "holds m (p + 24) (concat (map entry_bytes es))" using Cons.prems by (auto simp: holds_append)
    have "map (\<lambda>i. mmap_entry m (p + 24 * of_nat i)) [0 ..< length (e # es)]
        = mmap_entry m p # map (\<lambda>i. mmap_entry m (p + 24 + 24 * of_nat i)) [0 ..< length es]"
      by (simp add: upt_rec [of 0] map_Suc_upt [symmetric] algebra_simps del: upt_Suc)
    also have "\<dots> = e # es" using Cons.IH [OF h(2)] mmap_entry_holds [OF h(1)] by simp
    finally show ?case .
  qed simp
  then show ?thesis by (simp add: mmap_list_def u)
qed

lemma user_str_holds: "holds m p (map char_u8 t @ [0]) \<Longrightarrow> CHR 0x00 \<notin> set t \<Longrightarrow> length t < n \<Longrightarrow> user_str n p m = Inr t"
proof (induction t arbitrary: p n)
  case Nil
  then show ?case by (cases n) (auto simp: holds_def)
next
  case (Cons c t)
  obtain k where n: "n = Suc k" using Cons.prems(3) by (cases n) auto
  have h: "m p = char_u8 c" "holds m (p + 1) (map char_u8 t @ [0])"
    using Cons.prems(1) holds_append [of m p "[char_u8 c]" "map char_u8 t @ [0]"] by (auto simp: holds_def)
  have "c \<noteq> CHR 0x00" using Cons.prems(2) by auto
  then have "(of_char c :: nat) \<noteq> of_char (CHR 0x00)" unfolding of_char_eq_iff .
  then have "unat (char_u8 c) \<noteq> 0" by (simp add: unat_char_u8)
  then have nz: "char_u8 c \<noteq> 0" by auto
  have "u8_char (char_u8 c) = c" by (simp add: u8_char_def unat_char_u8)
  then show ?case using Cons h n nz by simp
qed

lemma strstr_simple_iff: "nd \<noteq> [] \<Longrightarrow> strstr_simple t nd \<longleftrightarrow> (\<exists>xs ys. t = xs @ nd @ ys)"
proof (induction t)
  case (Cons c t)
  show ?case
  proof
    assume "strstr_simple (c # t) nd"
    then consider "take (length nd) (c # t) = nd" | "strstr_simple t nd" by auto
    then show "\<exists>xs ys. c # t = xs @ nd @ ys"
    proof cases
      case 1
      then show ?thesis using append_take_drop_id [of "length nd" "c # t"] by (intro exI [of _ "[]"] exI [of _ "drop (length nd) (c # t)"]) simp
    next
      case 2
      then obtain xs ys where "t = xs @ nd @ ys" using Cons by auto
      then show ?thesis by (intro exI [of _ "c # xs"] exI [of _ ys]) simp
    qed
  next
    assume "\<exists>xs ys. c # t = xs @ nd @ ys"
    then obtain xs ys where e: "c # t = xs @ nd @ ys" by blast
    show "strstr_simple (c # t) nd"
    proof (cases xs)
      case Nil
      then have "take (length nd) (c # t) = nd" using e by simp
      then show ?thesis by simp
    next
      case (Cons x xs')
      then have "t = xs' @ nd @ ys" using e by simp
      then show ?thesis using Cons.IH Cons.prems by auto
    qed
  qed
qed simp

text \<open>What a tag at address \<open>p\<close> adds to the boot information.\<close>

fun tag_effect :: "u64 \<Rightarrow> mb2_tag \<Rightarrow> boot_info \<Rightarrow> boot_info" where
  "tag_effect p (Mmap es) b = b\<lparr>bi_mmap := Some (p + 16, of_nat (length es))\<rparr>"
| "tag_effect p (Screen a pt w h d) b = b\<lparr>bi_fb_addr := a, bi_fb_width := w, bi_fb_height := h, bi_fb_pitch := pt, bi_fb_bpp := ucast d\<rparr>"
| "tag_effect p (Cmdline t) b = (if strstr_simple t ''nodesktop'' then b\<lparr>boot_nodesktop := True\<rparr> else b)"
| "tag_effect p (Other_tag ty bs) b = b"

lemma tag_fields:
  assumes "holds m p (tag_bytes t)"
  shows "le32 m p = tag_head t" "le32 m (p + 4) = of_nat (8 + length (tag_data t))" "holds m (p + 8) (tag_data t)"
  using assms by (auto simp: tag_bytes_def Let_def holds_append le32_holds add.assoc)

lemma unat_of_nat_32: "k < 2 ^ 32 \<Longrightarrow> unat (of_nat k :: u32) = k"
  by (simp only: unat_of_nat mod_less len_num0 len_bit0 len_num1 mult_2) (simp add: unat_of_nat)

lemma mmap_count:
  assumes "k < 2 ^ 26"
  shows "(ucast ((ucast (of_nat (8 + (8 + 24 * k)) :: u32) - 16 :: u64) div 24) :: u32) = of_nat k"
proof -
  have "8 + (8 + 24 * k) < 2 ^ 32" using assms by simp
  from unat_of_nat_32 [OF this] have u32: "unat (of_nat (8 + (8 + 24 * k)) :: u32) = 16 + 24 * k" by simp
  then have "ucast (of_nat (8 + (8 + 24 * k)) :: u32) = (of_nat (16 + 24 * k) :: u64)" by (metis of_nat_unat)
  then have e: "(ucast (of_nat (8 + (8 + 24 * k)) :: u32) - 16 :: u64) = of_nat (24 * k)" by simp
  have "24 * k < 2 ^ 64" using assms by simp
  from unat_of_nat_small [OF this] have "unat ((of_nat (24 * k) :: u64) div 24) = 24 * k div 24" unfolding unat_div by simp
  then have "unat ((of_nat (24 * k) :: u64) div 24) = unat (of_nat k :: u64)" using unat_of_nat_small [of k] assms by simp
  then have "(of_nat (24 * k) :: u64) div 24 = of_nat k" by (rule unsigned_word_eqI)
  moreover have "(ucast (of_nat k :: u64) :: u32) = of_nat k"
  proof -
    have "k < 2 ^ 64" using assms by (rule order.strict_trans) simp
    from unat_of_nat_small [OF this] show ?thesis using of_nat_unat [of "of_nat k :: u64", where ?'a = "32 word"] by simp
  qed
  ultimately show ?thesis unfolding e by simp
qed

lemma mb_tag_holds:
  assumes "holds m p (tag_bytes t)" "tag_ok n t"
  shows "mb_tag n m p b = Inr (tag_effect p t b)"
proof -
  note f = tag_fields [OF assms(1)]
  show ?thesis
  proof (cases t)
    case (Mmap es)
    have d: "length (tag_data t) = 8 + 24 * length es" by (simp add: Mmap length_concat comp_def sum_list_triv)
    have "le32 m (p + 8) = 24" using f(3) Mmap by (auto simp: holds_append le32_holds)
    then show ?thesis using f(1) mmap_count [of "length es"] assms(2) unfolding mb_tag_def Let_def f(2) d by (simp add: Mmap kconst)
  next
    case (Screen a pt w h d)
    have "m (p + 28) = d" "le64 m (p + 8) = a" "le32 m (p + 16) = pt" "le32 m (p + 20) = w" "le32 m (p + 24) = h"
      using f(3) Screen by (auto simp: holds_append le32_holds le64_holds add.assoc) (force simp: holds_def)
    then show ?thesis using f(1) Screen by (simp add: mb_tag_def kconst)
  next
    case (Cmdline t')
    then have "user_str n (p + 8) m = Inr t'" using f(3) assms(2) by (intro user_str_holds) auto
    then show ?thesis using f(1) Cmdline by (simp add: mb_tag_def kconst)
  next
    case (Other_tag ty bs)
    then show ?thesis using f(1) assms(2) by (auto simp: mb_tag_def kconst)
  qed
qed

lemma tag_size:
  assumes "tag_ok n t"
  shows "ucast (ALIGN_UP (of_nat (8 + length (tag_data t)) :: u32) 8) = (of_nat (length (tag_bytes t)) :: u64)"
proof -
  let ?L = "8 + length (tag_data t)"
  have lt: "?L + 8 < 2 ^ 32"
    using assms by (cases t) (auto simp: length_concat comp_def sum_list_triv)
  have pad: "length (tag_bytes t) = (?L + 7) div 8 * 8"
  proof -
    have "length (tag_bytes t) = ?L + (8 - ?L mod 8) mod 8" by (simp add: tag_bytes_def Let_def)
    moreover have "L + (8 - L mod 8) mod 8 = (L + 7) div 8 * 8" for L :: nat
    proof (cases "L mod 8 = 0")
      case True
      then obtain q where "L = 8 * q" by (auto simp: mod_eq_0_iff_dvd dvd_def)
      then show ?thesis by simp
    next
      case False
      define q x where "q = L div 8" and "x = L mod 8"
      have L: "L = 8 * q + x" "0 < x" "x < 8" using False by (simp_all add: q_def x_def)
      have "(x + 7) div 8 = 1" using L(2,3) by (intro div_nat_eqI) auto
      then have "(L + 7) div 8 = q + 1" using div_mult_self4 [of 8 "x + 7" q] L(1) by (simp add: add.assoc)
      then show ?thesis using L by simp
    qed
    ultimately show ?thesis by metis
  qed
  have "(x :: u32) AND NOT (mask 3) = push_bit 3 (drop_bit 3 x)" for x
  proof (rule bit_word_eqI)
    fix i assume "i < LENGTH(32)"
    then show "bit (x AND NOT (mask 3)) i = bit (push_bit 3 (drop_bit 3 x)) i" by (cases "i < 3") (auto simp: bit_simps)
  qed
  then have a: "ALIGN_UP (x :: u32) 8 = (x + 7) div 8 * 8" for x
    unfolding ALIGN_UP_def by (simp add: mask_eq_exp_minus_1 push_bit_eq_mult drop_bit_eq_div add.commute)
  have "?L + 7 < 2 ^ 32" using lt by simp
  from unat_of_nat_32 [OF this] have y: "unat (of_nat ?L + 7 :: u32) = ?L + 7" by simp
  have "(?L + 7) div 8 * 8 < 2 ^ 32" using lt by (intro order.strict_trans1 [OF div_times_less_eq_dividend]) simp
  then have "unat (ALIGN_UP (of_nat ?L :: u32) 8) = (?L + 7) div 8 * 8"
    unfolding a by (simp add: unat_mult_lem [THEN iffD1] unat_div y del: of_nat_add)
  then show ?thesis unfolding pad by (metis of_nat_unat)
qed

fun tags_effect :: "u64 \<Rightarrow> mb2_tag list \<Rightarrow> boot_info \<Rightarrow> boot_info" where
  "tags_effect p [] b = b"
| "tags_effect p (t # ts) b = tags_effect (p + of_nat (length (tag_bytes t))) ts (tag_effect p t b)"

lemma mb_tags_holds:
  "holds m p (info_bytes ts) \<Longrightarrow> \<forall>t \<in> set ts. tag_ok n t \<Longrightarrow> length ts < k \<Longrightarrow> mb_tags n k m p b = Inr (tags_effect p ts b)"
proof (induction ts arbitrary: p b k)
  case Nil
  then have "le32 m p = 0" by (auto simp: info_bytes_def holds_append le32_holds)
  then show ?case using Nil.prems(3) by (cases k) (simp_all add: kconst)
next
  case (Cons t ts)
  obtain k' where k: "k = Suc k'" using Cons.prems(3) by (cases k) auto
  have t: "tag_ok n t" using Cons.prems(2) by simp
  have h: "holds m p (tag_bytes t)" "holds m (p + of_nat (length (tag_bytes t))) (info_bytes ts)"
    using Cons.prems(1) by (auto simp: info_bytes_def holds_append add.assoc)
  note f = tag_fields [OF h(1)]
  have "tag_head t \<noteq> MB2_TAG_END" using t by (cases t) (auto simp: kconst)
  then have "mb_tags n k m p b = mb_tags n k' m (p + of_nat (length (tag_bytes t))) (tag_effect p t b)"
    unfolding k mb_tags.simps f(1,2) mb_tag_holds [OF h(1) t] tag_size [OF t] by simp
  with Cons.IH [OF h(2), of k'] Cons.prems k show ?case by simp
qed

text \<open>The last tag of a kind counts.\<close>

fun last_mmap :: "mb2_tag list \<Rightarrow> multiboot_mmap_entry list option" where
  "last_mmap [] = None"
| "last_mmap (t # ts) = (case last_mmap ts of Some es \<Rightarrow> Some es | None \<Rightarrow> (case t of Mmap es \<Rightarrow> Some es | _ \<Rightarrow> None))"

fun last_screen :: "mb2_tag list \<Rightarrow> (u64 \<times> u32 \<times> u32 \<times> u32 \<times> u8) option" where
  "last_screen [] = None"
| "last_screen (t # ts) = (case last_screen ts of Some x \<Rightarrow> Some x | None \<Rightarrow> (case t of Screen a p w h d \<Rightarrow> Some (a, p, w, h, d) | _ \<Rightarrow> None))"

lemma tags_nodesktop:
  "boot_nodesktop (tags_effect p ts b) \<longleftrightarrow> boot_nodesktop b \<or> (\<exists>t. Cmdline t \<in> set ts \<and> strstr_simple t ''nodesktop'')"
proof (induction ts arbitrary: p b)
  case (Cons t ts)
  have "boot_nodesktop (tag_effect p t b) \<longleftrightarrow> boot_nodesktop b \<or> (\<exists>c. t = Cmdline c \<and> strstr_simple c ''nodesktop'')"
    by (cases t) auto
  then show ?case using Cons.IH by (auto simp del: strstr_simple.simps)
qed simp

definition screen_of :: "boot_info \<Rightarrow> u64 \<times> u32 \<times> u32 \<times> u32 \<times> u32" where
  "screen_of b = (bi_fb_addr b, bi_fb_pitch b, bi_fb_width b, bi_fb_height b, bi_fb_bpp b)"

lemma tags_screen:
  "screen_of (tags_effect p ts b) = (case last_screen ts of None \<Rightarrow> screen_of b | Some (a, pt, w, h, d) \<Rightarrow> (a, pt, w, h, ucast d))"
proof (induction ts arbitrary: p b)
  case (Cons t ts)
  have "screen_of (tag_effect p t b) = (case t of Screen a pt w h d \<Rightarrow> (a, pt, w, h, ucast d) | _ \<Rightarrow> screen_of b)"
    by (cases t) (simp_all add: screen_of_def)
  then show ?case using Cons.IH [of "p + of_nat (length (tag_bytes t))" "tag_effect p t b"]
    by (auto split: option.splits mb2_tag.splits)
qed simp

lemma tags_mmap:
  "holds m p (info_bytes ts) \<Longrightarrow> \<forall>t \<in> set ts. tag_ok n t \<Longrightarrow>
   (case last_mmap ts of None \<Rightarrow> bi_mmap (tags_effect p ts b) = bi_mmap b
    | Some es \<Rightarrow> \<exists>q c. bi_mmap (tags_effect p ts b) = Some (q, c) \<and> mmap_list m q c = es)"
proof (induction ts arbitrary: p b)
  case (Cons t ts)
  have h: "holds m p (tag_bytes t)" "holds m (p + of_nat (length (tag_bytes t))) (info_bytes ts)"
    using Cons.prems(1) by (auto simp: info_bytes_def holds_append add.assoc)
  note IH = Cons.IH [OF h(2), of "tag_effect p t b"]
  show ?case
  proof (cases t)
    case (Mmap es)
    have "holds m (p + 16) (concat (map entry_bytes es))" using tag_fields(3) [OF h(1)] Mmap by (auto simp: holds_append add.assoc)
    then have "mmap_list m (p + 16) (of_nat (length es)) = es" using Cons.prems(2) Mmap by (intro mmap_list_holds) auto
    then show ?thesis using IH Cons.prems(2) Mmap by (auto split: option.splits)
  qed (use IH Cons.prems(2) in \<open>auto split: option.splits\<close>)
qed simp


definition image_at_0 :: "u8 list \<Rightarrow> memory" where
  "image_at_0 bs a = (if unat a < length bs then bs ! unat a else 0)"

lemma holds_image: "length bs < 2 ^ 64 \<Longrightarrow> holds (image_at_0 bs) 0 bs"
  unfolding holds_def
proof (intro allI impI)
  fix i assume "length bs < 2 ^ 64" "i < length bs"
  then have "unat (of_nat i :: u64) = i" by (intro unat_of_nat_small) simp
  then show "image_at_0 bs (0 + of_nat i) = bs ! i" using \<open>i < length bs\<close> by (simp add: image_at_0_def)
qed

definition three_tags :: "mb2_tag list" where
  "three_tags = [Other_tag 2 [71, 0], Cmdline ''quiet nodesktop'', Mmap [\<lparr>base_addr = 0, mlength = 0x9FC00, mtype = 1\<rparr>]]"


definition boot_zero :: boot where
  "boot_zero = \<lparr>b_sys = sys_small\<lparr>kern := one_task_fs\<lparr>heap_head := 0, heap_brk := HEAP_START, ready_head := None\<rparr>\<rparr>,
     b_cpu = \<lparr>gdt = (\<lambda>_. entry_of 0), gdtr = \<lparr>dp_limit = 0, dp_base = 0\<rparr>, seg_cs = 0, seg_data = 0, tr = 0,
       kernel_tss = \<lparr>rsp0 = 0, rsp1 = 0, rsp2 = 0, ist = [], iopb_offset = 0\<rparr>\<rparr>,
     b_idt = (\<lambda>_. \<lparr>offset_low = 0, selector = 0, gate_ist = 0, type_attr = 0, offset_mid = 0, offset_high = 0, reserved = 0\<rparr>),
     b_idtr = \<lparr>dp_limit = 0, dp_base = 0\<rparr>, b_pic = \<lparr>port_value = (\<lambda>_. 0), port_log = [], irq_handlers = (\<lambda>_. None)\<rparr>,
     b_gpu = \<lparr>gpu_data = \<lparr>g_vendor = GPU_VENDOR_UNKNOWN, pci_vendor_id = 0, pci_device_id = 0, vram_mb = 0, accel_avail = False\<rparr>, gpu_detected = False\<rparr>,
     b_wifi = \<lparr>p_name = None, p_pci = pci_fill_device 0 0 0 (\<lambda>_. 0), p_found = False\<rparr>,
     b_bt = \<lparr>p_name = None, p_pci = pci_fill_device 0 0 0 (\<lambda>_. 0), p_found = False\<rparr>,
     b_config = (\<lambda>_. 0xFFFFFFFF), b_acpi = acpi_bss, b_nodesktop = False\<rparr>"

definition image_zero :: image where
  "image_zero = \<lparr>kernel_end = KERNEL_BASE, bitmap_addr = KERNEL_BASE, gdt_addr = 0, idt_addr = 0, tss_addr = 0, tss_stack = 0, isr_stub = of_nat,
     irq_stub = of_nat, syscall_entry = 0, trampoline = 0, idle_fn = 0, idle_task = 0\<rparr>"


section \<open>Returning to the user\<close>

text \<open>
  \<open>syscall_init\<close> gives 0x10 as the base for the return from a system call. The processor then loads the code segment from the base
  plus 16 and the stack segment from the base plus 8; in the table of \<open>gdt_init\<close> these are the user's data
  segment and the user's code segment, exchanged.
\<close>

definition sysret_cs :: "u64 \<Rightarrow> u16" where
  "sysret_cs star = ucast (drop_bit 48 star) + 16"

definition sysret_ss :: "u64 \<Rightarrow> u16" where
  "sysret_ss star = ucast (drop_bit 48 star) + 8"

theorem sysret_segments_exchanged:
  fixes ga ta c se s
  defines "c' \<equiv> gdt_init ga ta c" and "star \<equiv> msr (syscall_init se s) MSR_STAR"
  shows "is_data (selected c' (sysret_cs star)) \<and> is_code (selected c' (sysret_ss star))"
proof -
  have st: "star = push_bit 48 0x10 OR push_bit 32 0x08"
    by (simp add: star_def syscall_init_def Let_def kconst MSR_STAR_def MSR_LSTAR_def MSR_SFMASK_def MSR_EFER_def)
  have "drop_bit 48 star = 0x10" unfolding st by simp
  then have "sysret_cs star = 0x20" "sysret_ss star = 0x18" by (simp_all add: sysret_cs_def sysret_ss_def)
  then have "selected c' (sysret_cs star) = gdt c' 4" "selected c' (sysret_ss star) = gdt c' 3" by (simp_all add: selected_def)
  then show ?thesis using gdt_init_entries(3,4) [of ga ta c] by (simp add: c'_def is_data_def is_code_def)
qed

text \<open>A tag of size zero makes the walk through the boot information endless.\<close>

theorem empty_tag_loops:
  assumes "le32 m p \<notin> {0, 1, 6, 8}" "le32 m (p + 4) = 0"
  shows "mb_tags n k m p b = Inl NoProgress"
proof (induction k arbitrary: b)
  case (Suc k)
  have "mb_tag n m p b = Inr b" using assms(1) by (auto simp: mb_tag_def Let_def kconst)
  moreover have "(ucast (ALIGN_UP (0 :: u32) 8) :: u64) = 0" by (simp add: ALIGN_UP_def)
  ultimately show ?case using Suc assms by (simp add: kconst)
qed simp

text \<open>
  Nothing in the boot initialises the interrupt controllers: the handlers are installed on controllers that still deliver
  their first line as vector 8.
\<close>

theorem controllers_not_remapped:
  "\<forall>(p, v) \<in> set (drop (length (port_log (b_pic b))) (port_log (b_pic (boot_drivers b)))). p \<noteq> PIC1_CMD \<and> p \<noteq> PIC2_CMD"
  by (simp add: boot_drivers_def on_kern_def Let_def split_def irq_install_handler_def irq_enable_def outb_def irq_port_def kconst)

end
