(* ===== verification/Raster.thy ===== *)
theory Raster
  imports Ember_Prelude
begin

text \<open>
  What the drawing code of the desktop has in common: counting loops over signed coordinates, pictures as partial
  functions from coordinates to colours, and the locale \<open>canvas\<close>, the contract of a pixel buffer whose store operation is guarded.
  A routine \<open>paints\<close> a picture when it sets exactly the pixels of the picture; the calculus of the locale computes the picture of
  sequences and loops. The coordinates are the code's \<^verbatim>\<open>s32\<close>, modelled as integers: C leaves their
  overflow undefined.
\<close>

section \<open>Loops\<close>

text \<open>The loop \<^verbatim>\<open>for (s32 i = a; i < b; i++)\<close>, and the one with step 2.\<close>

definition for_range :: "int \<Rightarrow> int \<Rightarrow> (int \<Rightarrow> 's \<Rightarrow> 's) \<Rightarrow> 's \<Rightarrow> 's" where
  "for_range a b f s = fold f [a .. b - 1] s"

definition for_range2 :: "int \<Rightarrow> int \<Rightarrow> (int \<Rightarrow> 's \<Rightarrow> 's) \<Rightarrow> 's \<Rightarrow> 's" where
  "for_range2 a b f s = fold f (filter (\<lambda>i. even (i - a)) [a .. b - 1]) s"

lemma for_range_cong: "(\<And>i s. a \<le> i \<Longrightarrow> i < b \<Longrightarrow> f i s = g i s) \<Longrightarrow> for_range a b f s = for_range a b g s"
  unfolding for_range_def by (intro fold_cong) auto

lemma for_range_empty [simp]: "b \<le> a \<Longrightarrow> for_range a b f s = s"
  by (simp add: for_range_def)

lemma fold_skip [simp]: "fold (\<lambda>i t. t) xs s = s"
  by (induction xs) simp_all

lemma for_range_skip [simp]: "for_range a b (\<lambda>i t. t) s = s"
  by (simp add: for_range_def)

text \<open>A loop of rows that skips whole rows before it looks at their columns.\<close>

lemma for_range_guard:
  "(if p then s else for_range a b (\<lambda>i t. if q i then t else f i t) s) = for_range a b (\<lambda>i t. if p \<or> q i then t else f i t) s"
  by (cases p) simp_all

lemma for_range_inv: "(\<And>i s. h (f i s) = h s) \<Longrightarrow> h (for_range a b f s) = h s"
  unfolding for_range_def by (rule fold_invariant [where Q = "\<lambda>_. True" and P = "\<lambda>t. h t = h s"]) auto

lemma for_range2_inv: "(\<And>i s. h (f i s) = h s) \<Longrightarrow> h (for_range2 a b f s) = h s"
  unfolding for_range2_def by (rule fold_invariant [where Q = "\<lambda>_. True" and P = "\<lambda>t. h t = h s"]) auto

lemma for_range_commute: "(\<And>i s. h (f i s) = f i (h s)) \<Longrightarrow> h (for_range a b f s) = for_range a b f (h s)"
proof -
  assume c: "\<And>i s. h (f i s) = f i (h s)"
  have "h (fold f is s) = fold f is (h s)" for "is" by (induction "is" arbitrary: s) (simp_all add: c)
  then show ?thesis by (simp add: for_range_def)
qed

lemma for_range_sim:
  assumes "\<And>i s t. a \<le> i \<Longrightarrow> i < b \<Longrightarrow> R s t \<Longrightarrow> R (f i s) (g i t)" "R s t"
  shows "R (for_range a b f s) (for_range a b g t)"
proof -
  have "R (fold f is s) (fold g is t)" if "set is \<subseteq> {a ..< b}" for "is"
    using that assms(2) by (induction "is" arbitrary: s t) (auto intro: assms(1))
  moreover have "set [a .. b - 1] \<subseteq> {a ..< b}" by auto
  ultimately show ?thesis unfolding for_range_def by blast
qed

lemma upto_shift: "map ((+) k) [a .. b] = [k + a .. k + b :: int]"
proof (induction a b rule: upto.induct)
  case (1 a b)
  then show ?case by (cases "a \<le> b") (simp_all add: upto_rec1 add.assoc)
qed

lemma for_range_shift: "for_range 0 n (\<lambda>i. f (k + i)) s = for_range k (k + n) f s"
proof -
  have "[k .. k + n - 1] = map ((+) k) [0 .. n - 1]" using upto_shift [of k 0 "n - 1"] by (simp add: algebra_simps)
  then show ?thesis by (simp add: for_range_def fold_map comp_def)
qed

lemma for_range_none: "b \<le> a \<Longrightarrow> for_range a b f = (\<lambda>s. s)"
  by (simp add: fun_eq_iff)

section \<open>Pictures\<close>

type_synonym picture = "int \<Rightarrow> int \<Rightarrow> u32 option"

definition blank :: picture where
  "blank = (\<lambda>x y. None)"

definition over :: "picture \<Rightarrow> picture \<Rightarrow> picture" where
  "over p q = (\<lambda>x y. case p x y of None \<Rightarrow> q x y | Some c \<Rightarrow> Some c)"

definition box :: "int \<Rightarrow> int \<Rightarrow> int \<Rightarrow> int \<Rightarrow> u32 \<Rightarrow> picture" where
  "box x0 x1 y0 y1 c = (\<lambda>x y. if x0 \<le> x \<and> x < x1 \<and> y0 \<le> y \<and> y < y1 then Some c else None)"

text \<open>The last picture of the list is on top.\<close>

definition stacked :: "picture list \<Rightarrow> picture" where
  "stacked ps = fold over ps blank"

lemma over_blank [simp]: "over p blank = p" "over blank p = p"
  by (auto simp: over_def blank_def fun_eq_iff split: option.splits)

lemma over_assoc: "over (over p q) r = over p (over q r)"
  by (auto simp: over_def fun_eq_iff split: option.splits)

lemma fold_over: "fold over ps q = over (stacked ps) q"
proof (induction ps rule: rev_induct)
  case (snoc p ps)
  then show ?case by (simp add: stacked_def over_assoc)
qed (simp add: stacked_def)

lemma over_apply: "over p q x y = (case p x y of None \<Rightarrow> q x y | Some c \<Rightarrow> Some c)"
  by (simp add: over_def)

lemma stacked_Nil [simp]: "stacked [] = blank"
  by (simp add: stacked_def)

lemma stacked_append [simp]: "stacked (ps @ qs) = over (stacked qs) (stacked ps)"
  by (simp only: stacked_def [of "ps @ qs"] fold_append comp_def fold_over over_blank)

lemma stacked_Cons [simp]: "stacked (p # ps) = over (stacked ps) p"
  using fold_over [of ps p] by (simp add: stacked_def [of "p # ps"])

lemma stacked_None: "stacked ps x y = None \<longleftrightarrow> (\<forall>p \<in> set ps. p x y = None)"
  by (induction ps) (auto simp: blank_def over_apply split: option.splits)

lemma stacked_last:
  "stacked (map p ws) x y = (case List.find (\<lambda>w. p w x y \<noteq> None) (rev ws) of None \<Rightarrow> None | Some w \<Rightarrow> p w x y)"
proof (induction ws rule: rev_induct)
  case (snoc w ws)
  then show ?case by (cases "p w x y") (simp_all add: over_apply)
qed (simp add: blank_def)

text \<open>A family of pictures of one colour that cover a region together.\<close>

lemma stacked_uniform:
  assumes "\<And>i. i \<in> set is \<Longrightarrow> p i x y = None \<or> p i x y = Some c"
  shows "stacked (map p is) x y = (if \<exists>i \<in> set is. p i x y \<noteq> None then Some c else None)"
  using assms
proof (induction "is")
  case (Cons i "is")
  then have "p i x y = None \<or> p i x y = Some c"
    "stacked (map p is) x y = (if \<exists>i \<in> set is. p i x y \<noteq> None then Some c else None)" by auto
  then show ?case by (auto simp: over_apply)
qed (simp add: blank_def)

lemma stacked_cells:
  "stacked (map (\<lambda>i. stacked (map (\<lambda>j x y. if x = j \<and> y = i then g j i else None) [a .. b - 1])) [c .. d - 1]) =
   (\<lambda>x y. if a \<le> x \<and> x < b \<and> c \<le> y \<and> y < d then g x y else None)"
proof (intro ext)
  fix x y
  have row: "stacked (map (\<lambda>j x y. if x = j \<and> y = i then g j i else None) [a .. b - 1]) x y = (if a \<le> x \<and> x < b \<and> y = i then g x y else None)" for i x y
  proof (cases "g x y")
    case None
    then show ?thesis by (auto simp: stacked_None)
  next
    case (Some k)
    then show ?thesis by (subst stacked_uniform [where c = k]) auto
  qed
  show "stacked (map (\<lambda>i. stacked (map (\<lambda>j x y. if x = j \<and> y = i then g j i else None) [a .. b - 1])) [c .. d - 1]) x y =
     (if a \<le> x \<and> x < b \<and> c \<le> y \<and> y < d then g x y else None)"
  proof (cases "g x y")
    case None
    then show ?thesis by (auto simp: stacked_None row)
  next
    case (Some k)
    then show ?thesis by (subst stacked_uniform [where c = k]) (auto simp: row)
  qed
qed

section \<open>Canvases\<close>

text \<open>
  A buffer with a predicate for its well-formedness, the region that is visible in it, a read and a guarded store: after a store the
  pixel has the colour, if it is visible, and the rest is as before.
\<close>

locale canvas =
  fixes ok :: "'s \<Rightarrow> bool"
    and vis :: "'s \<Rightarrow> int \<Rightarrow> int \<Rightarrow> bool"
    and get :: "'s \<Rightarrow> int \<Rightarrow> int \<Rightarrow> u32"
    and put :: "int \<Rightarrow> int \<Rightarrow> u32 \<Rightarrow> 's \<Rightarrow> 's"
  assumes put_ok: "ok s \<Longrightarrow> ok (put x y c s)"
    and put_vis: "ok s \<Longrightarrow> vis (put x y c s) = vis s"
    and get_put: "ok s \<Longrightarrow> vis s x y \<Longrightarrow> get (put x' y' c s) x y = (if x' = x \<and> y' = y then c else get s x y)"
begin

definition paints :: "('s \<Rightarrow> 's) \<Rightarrow> picture \<Rightarrow> bool" where
  "paints f p \<longleftrightarrow> (\<forall>s. ok s \<longrightarrow> ok (f s) \<and> vis (f s) = vis s \<and>
     (\<forall>x y. vis s x y \<longrightarrow> get (f s) x y = (case p x y of None \<Rightarrow> get s x y | Some c \<Rightarrow> c)))"

lemma paints_put: "paints (put x' y' c) (\<lambda>x y. if x = x' \<and> y = y' then Some c else None)"
  by (auto simp: paints_def put_ok put_vis get_put)

lemma paints_skip: "paints (\<lambda>s. s) blank"
  by (simp add: paints_def blank_def)

lemma paints_comp: "paints f p \<Longrightarrow> paints g q \<Longrightarrow> paints (\<lambda>s. g (f s)) (over q p)"
  unfolding paints_def over_def by (auto split: option.splits)

lemma paints_if: "(b \<Longrightarrow> paints f p) \<Longrightarrow> (\<not> b \<Longrightarrow> paints g q) \<Longrightarrow> paints (if b then f else g) (if b then p else q)"
  by simp

lemma paints_fold: "(\<And>i. i \<in> set is \<Longrightarrow> paints (f i) (p i)) \<Longrightarrow> paints (fold f is) (stacked (map p is))"
proof (induction "is" rule: rev_induct)
  case (snoc i "is")
  then have "paints (fold f is) (stacked (map p is))" "paints (f i) (p i)" by auto
  from paints_comp [OF this] show ?case by (simp add: comp_def)
qed (simp add: paints_skip id_def)

lemma paints_range: "(\<And>i. a \<le> i \<Longrightarrow> i < b \<Longrightarrow> paints (f i) (p i)) \<Longrightarrow> paints (for_range a b f) (stacked (map p [a .. b - 1]))"
  unfolding for_range_def by (rule paints_fold) auto

lemma paints_cells:
  "paints (for_range c d (\<lambda>i. for_range a b (\<lambda>j. put j i (g j i)))) (\<lambda>x y. if a \<le> x \<and> x < b \<and> c \<le> y \<and> y < d then Some (g x y) else None)"
proof -
  have "paints (for_range c d (\<lambda>i. for_range a b (\<lambda>j. put j i (g j i))))
     (stacked (map (\<lambda>i. stacked (map (\<lambda>j x y. if x = j \<and> y = i then Some (g j i) else None) [a .. b - 1])) [c .. d - 1]))"
    by (intro paints_range paints_put)
  then show ?thesis by (simp only: stacked_cells)
qed

lemma paints_cells_at:
  "paints (for_range 0 h (\<lambda>i. for_range 0 w (\<lambda>j. put (x0 + j) (y0 + i) (g j i))))
     (\<lambda>x y. if x0 \<le> x \<and> x < x0 + w \<and> y0 \<le> y \<and> y < y0 + h then Some (g (x - x0) (y - y0)) else None)"
proof -
  have "for_range 0 w (\<lambda>j. put (x0 + j) (y0 + i) (g j i)) s = for_range x0 (x0 + w) (\<lambda>x. put x (y0 + i) (g (x - x0) (y0 + i - y0))) s" for i s
    using for_range_shift [of w "\<lambda>x. put x (y0 + i) (g (x - x0) (y0 + i - y0))" x0 s] by simp
  then have "for_range 0 h (\<lambda>i. for_range 0 w (\<lambda>j. put (x0 + j) (y0 + i) (g j i))) =
      for_range y0 (y0 + h) (\<lambda>y. for_range x0 (x0 + w) (\<lambda>x. put x y (g (x - x0) (y - y0))))"
    using for_range_shift [of h "\<lambda>y. for_range x0 (x0 + w) (\<lambda>x. put x y (g (x - x0) (y - y0)))" y0] by (auto simp: fun_eq_iff cong: for_range_cong)
  then show ?thesis using paints_cells [of y0 "y0 + h" x0 "x0 + w" "\<lambda>x y. g (x - x0) (y - y0)"] by simp
qed

lemma paints_box: "paints (for_range c d (\<lambda>i. for_range a b (\<lambda>j. put j i k))) (box a b c d k)"
  using paints_cells [of c d a b "\<lambda>_ _. k"] by (simp add: box_def)

lemma paints_row: "paints (for_range a b (\<lambda>j. put j y k)) (box a b y (y + 1) k)"
proof -
  have "for_range y (y + 1) (\<lambda>i. for_range a b (\<lambda>j. put j i k)) = for_range a b (\<lambda>j. put j y k)" by (simp add: for_range_def fun_eq_iff)
  then show ?thesis using paints_box [of y "y + 1" a b k] by simp
qed

lemma paints_column: "paints (for_range c d (\<lambda>i. put x i k)) (box x (x + 1) c d k)"
proof -
  have "for_range x (x + 1) (\<lambda>j. put j i k) = put x i k" for i by (simp add: for_range_def fun_eq_iff)
  then show ?thesis using paints_box [of c d x "x + 1" k] by simp
qed

text \<open>Two pixels in each round of one loop, a row of each colour.\<close>

lemma paints_rows:
  "paints (for_range a b (\<lambda>x s. put x y2 c2 (put x y1 c1 s))) (over (box a b y2 (y2 + 1) c2) (box a b y1 (y1 + 1) c1))"
proof -
  have "paints (for_range a b (\<lambda>x s. put x y2 c2 (put x y1 c1 s))) (stacked (map (\<lambda>i. over (\<lambda>x y. if x = i \<and> y = y2 then Some c2 else None) (\<lambda>x y. if x = i \<and> y = y1 then Some c1 else None)) [a .. b - 1]))"
    by (intro paints_range paints_comp paints_put)
  moreover have "stacked (map (\<lambda>i. over (\<lambda>x y. if x = i \<and> y = y2 then Some c2 else None) (\<lambda>x y. if x = i \<and> y = y1 then Some c1 else None)) [a .. b - 1])
     = over (box a b y2 (y2 + 1) c2) (box a b y1 (y1 + 1) c1)" (is "?l = ?r")
  proof (intro ext)
    fix x y
    show "?l x y = ?r x y"
      by (subst stacked_uniform [where c = "if y = y2 then c2 else c1"]) (auto simp: over_apply box_def)
  qed
  ultimately show ?thesis by simp
qed

lemma paints_columns:
  "paints (for_range a b (\<lambda>y s. put x2 y c2 (put x1 y c1 s))) (over (box x2 (x2 + 1) a b c2) (box x1 (x1 + 1) a b c1))"
proof -
  have "paints (for_range a b (\<lambda>y s. put x2 y c2 (put x1 y c1 s))) (stacked (map (\<lambda>i. over (\<lambda>x y. if x = x2 \<and> y = i then Some c2 else None) (\<lambda>x y. if x = x1 \<and> y = i then Some c1 else None)) [a .. b - 1]))"
    by (intro paints_range paints_comp paints_put)
  moreover have "stacked (map (\<lambda>i. over (\<lambda>x y. if x = x2 \<and> y = i then Some c2 else None) (\<lambda>x y. if x = x1 \<and> y = i then Some c1 else None)) [a .. b - 1])
     = over (box x2 (x2 + 1) a b c2) (box x1 (x1 + 1) a b c1)" (is "?l = ?r")
  proof (intro ext)
    fix x y
    show "?l x y = ?r x y"
      by (subst stacked_uniform [where c = "if x = x2 then c2 else c1"]) (auto simp: over_apply box_def)
  qed
  ultimately show ?thesis by simp
qed

lemma paintsD:
  "paints f p \<Longrightarrow> ok s \<Longrightarrow> ok (f s)" "paints f p \<Longrightarrow> ok s \<Longrightarrow> vis (f s) = vis s"
  "paints f p \<Longrightarrow> ok s \<Longrightarrow> vis s x y \<Longrightarrow> get (f s) x y = (case p x y of None \<Rightarrow> get s x y | Some c \<Rightarrow> c)"
  by (auto simp: paints_def)

text \<open>Routines that change nothing outside a region.\<close>

definition confined :: "(int \<Rightarrow> int \<Rightarrow> bool) \<Rightarrow> ('s \<Rightarrow> 's) \<Rightarrow> bool" where
  "confined R f \<longleftrightarrow> (\<forall>s. ok s \<longrightarrow> ok (f s) \<and> vis (f s) = vis s \<and> (\<forall>x y. vis s x y \<and> \<not> R x y \<longrightarrow> get (f s) x y = get s x y))"

lemma confined_put: "R x y \<Longrightarrow> confined R (put x y c)"
  by (auto simp: confined_def put_ok put_vis get_put)

lemma confined_pair: "R x1 y1 \<Longrightarrow> R x2 y2 \<Longrightarrow> confined R (\<lambda>s. put x2 y2 c2 (put x1 y1 c1 s))"
  by (auto simp: confined_def put_ok put_vis get_put)

lemma confined_paints: "paints f p \<Longrightarrow> (\<And>x y. p x y \<noteq> None \<Longrightarrow> R x y) \<Longrightarrow> confined R f"
  unfolding paints_def confined_def by (metis option.case_eq_if)

lemma confined_skip: "confined R (\<lambda>s. s)"
  by (simp add: confined_def)

lemma confined_comp: "confined R f \<Longrightarrow> confined R g \<Longrightarrow> confined R (\<lambda>s. g (f s))"
  by (auto simp: confined_def)

lemma confined_if: "(b \<Longrightarrow> confined R f) \<Longrightarrow> (\<not> b \<Longrightarrow> confined R g) \<Longrightarrow> confined R (\<lambda>s. if b then f s else g s)"
  by (cases b) simp_all

lemma confined_mono: "confined R f \<Longrightarrow> (\<And>x y. R x y \<Longrightarrow> Q x y) \<Longrightarrow> confined Q f"
  unfolding confined_def by blast

lemma confined_fold: "(\<And>i. i \<in> set is \<Longrightarrow> confined R (f i)) \<Longrightarrow> confined R (fold f is)"
proof (induction "is" rule: rev_induct)
  case (snoc i "is")
  then have "confined R (fold f is)" "confined R (f i)" by auto
  from confined_comp [OF this] show ?case by (simp add: comp_def)
qed (simp add: confined_skip id_def)

lemma confined_range: "(\<And>i. a \<le> i \<Longrightarrow> i < b \<Longrightarrow> confined R (f i)) \<Longrightarrow> confined R (for_range a b f)"
  unfolding for_range_def by (rule confined_fold) auto

lemma confined_range2: "(\<And>i. a \<le> i \<Longrightarrow> i < b \<Longrightarrow> confined R (f i)) \<Longrightarrow> confined R (for_range2 a b f)"
  unfolding for_range2_def by (rule confined_fold) auto

lemma confinedD:
  "confined R f \<Longrightarrow> ok s \<Longrightarrow> ok (f s)" "confined R f \<Longrightarrow> ok s \<Longrightarrow> vis (f s) = vis s"
  "confined R f \<Longrightarrow> ok s \<Longrightarrow> vis s x y \<Longrightarrow> \<not> R x y \<Longrightarrow> get (f s) x y = get s x y"
  by (auto simp: confined_def)

text \<open>The painter's algorithm: what is painted last is seen.\<close>

lemma paints_topmost:
  assumes "\<And>w. w \<in> set ws \<Longrightarrow> paints (f w) (p w)" "ok s" "vis s x y"
  shows "get (fold f ws s) x y = (case List.find (\<lambda>w. p w x y \<noteq> None) (rev ws) of None \<Rightarrow> get s x y | Some w \<Rightarrow> the (p w x y))"
proof -
  have "get (fold f ws s) x y = (case stacked (map p ws) x y of None \<Rightarrow> get s x y | Some c \<Rightarrow> c)"
    using paintsD(3) [OF paints_fold assms(2,3)] assms(1) by blast
  moreover have "\<exists>c. p w x y = Some c" if "List.find (\<lambda>w. p w x y \<noteq> None) (rev ws) = Some w" for w
    using that by (auto simp: find_Some_iff)
  ultimately show ?thesis unfolding stacked_last by (cases "List.find (\<lambda>w. p w x y \<noteq> None) (rev ws)") fastforce+
qed

end

end
