(* ===== verification/Gui.thy ===== *)
theory Gui
  imports Raster "HOL-Library.Signed_Division" "HOL-Library.Monad_Syntax"
begin

text \<open>
  The widget library, \<^verbatim>\<open>src/lib/libgui\<close>: rectangles and colours of \<^verbatim>\<open>gui.h\<close>, windows with their back buffers, drawing and the
  window list of \<^verbatim>\<open>window.c\<close>, and the widgets of \<^verbatim>\<open>widgets.c\<close>. A window is drawn on with a guarded pixel store, except for text,
  whose store is not guarded at the lower edge; the routines that draw text therefore return an option, where \<open>None\<close> is a store outside the
  back buffer. The windows live in a store indexed by address, and the callbacks are run by a function given as an argument.
\<close>

section \<open>Rectangles, colours, events\<close>

definition GUI_BLACK :: u32 where [kconst]: "GUI_BLACK = 0x000000"
definition GUI_WHITE :: u32 where [kconst]: "GUI_WHITE = 0xFFFFFF"
definition GUI_GRAY :: u32 where [kconst]: "GUI_GRAY = 0xC0C0C0"
definition GUI_DARK_GRAY :: u32 where [kconst]: "GUI_DARK_GRAY = 0x808080"
definition GUI_LIGHT_GRAY :: u32 where [kconst]: "GUI_LIGHT_GRAY = 0xDFDFDF"
definition GUI_TEAL :: u32 where [kconst]: "GUI_TEAL = 0x008080"
definition GUI_DARK_BLUE :: u32 where [kconst]: "GUI_DARK_BLUE = 0x000080"
definition GUI_BTN_FACE :: u32 where [kconst]: "GUI_BTN_FACE = GUI_GRAY"
definition GUI_BTN_HIGHLIGHT :: u32 where [kconst]: "GUI_BTN_HIGHLIGHT = GUI_WHITE"
definition GUI_BTN_SHADOW :: u32 where [kconst]: "GUI_BTN_SHADOW = GUI_DARK_GRAY"
definition GUI_BTN_DARK_SHADOW :: u32 where [kconst]: "GUI_BTN_DARK_SHADOW = 0x404040"
definition GUI_TITLEBAR_ACTIVE :: u32 where [kconst]: "GUI_TITLEBAR_ACTIVE = GUI_DARK_BLUE"
definition GUI_TITLEBAR_INACTIVE :: u32 where [kconst]: "GUI_TITLEBAR_INACTIVE = GUI_DARK_GRAY"
definition GUI_DESKTOP :: u32 where [kconst]: "GUI_DESKTOP = GUI_TEAL"
definition GUI_MENU_HIGHLIGHT :: u32 where [kconst]: "GUI_MENU_HIGHLIGHT = GUI_DARK_BLUE"
definition GUI_TEXT :: u32 where [kconst]: "GUI_TEXT = GUI_BLACK"

record rect =
  r_x :: int
  r_y :: int
  r_w :: int
  r_h :: int

definition rect_contains :: "rect \<Rightarrow> int \<Rightarrow> int \<Rightarrow> bool" where
  "rect_contains r x y \<longleftrightarrow> x \<ge> r_x r \<and> x < r_x r + r_w r \<and> y \<ge> r_y r \<and> y < r_y r + r_h r"

definition rect_make :: "int \<Rightarrow> int \<Rightarrow> int \<Rightarrow> int \<Rightarrow> rect" where
  "rect_make x y w h = \<lparr>r_x = x, r_y = y, r_w = w, r_h = h\<rparr>"

definition rect_inset :: "rect \<Rightarrow> int \<Rightarrow> rect" where
  "rect_inset r n = rect_make (r_x r + n) (r_y r + n) (r_w r - 2 * n) (r_h r - 2 * n)"

record color =
  c_r :: u8
  c_g :: u8
  c_b :: u8
  c_a :: u8

definition color_from_rgb :: "u32 \<Rightarrow> color" where
  "color_from_rgb rgb = \<lparr>c_r = ucast (drop_bit 16 rgb AND 0xFF), c_g = ucast (drop_bit 8 rgb AND 0xFF), c_b = ucast (rgb AND 0xFF), c_a = 255\<rparr>"

datatype event_type = EVT_NONE | EVT_MOUSE_MOVE | EVT_MOUSE_DOWN | EVT_MOUSE_UP | EVT_KEY_DOWN | EVT_KEY_UP | EVT_CLOSE | EVT_RESIZE
  | EVT_FOCUS | EVT_BLUR | EVT_PAINT | EVT_TIMER | EVT_QUIT

datatype event_data = Mouse_data int int int | Key_data u32 u8 char | Resize_data int int

record event =
  ev_type :: event_type
  ev_data :: event_data
  ev_window_id :: u32
  ev_timestamp :: u32

section \<open>Windows\<close>

record 'cb window =
  win_id :: u32
  win_title :: string
  win_rect :: rect
  win_flags :: u32
  back_buf :: "u32 list option"
  draw_callback :: "'cb option"
  event_callback :: "'cb option"

definition MAX_WINDOWS :: nat where [kconst]: "MAX_WINDOWS = 64"

record 'cb gui =
  framebuffer :: "(nat \<Rightarrow> u32) option"
  fb_width :: u32
  fb_height :: u32
  fb_pitch :: u32
  windows :: "nat \<Rightarrow> nat option"
  win_count :: nat
  next_win_id :: u32
  running :: bool
  win_at :: "nat \<Rightarrow> 'cb window"

definition gui_init :: "(nat \<Rightarrow> u32) \<Rightarrow> u32 \<Rightarrow> u32 \<Rightarrow> u32 \<Rightarrow> 'cb gui \<Rightarrow> 'cb gui" where
  "gui_init fb width height pitch g = g\<lparr>framebuffer := Some fb, fb_width := width, fb_height := height, fb_pitch := pitch, running := True\<rparr>"

text \<open>
  \<open>cw\<close> is the address that the first \<^verbatim>\<open>calloc\<close> returns, if any, and \<open>cb\<close> whether the second one succeeds; it
  cannot for a negative number of pixels.
\<close>

definition gui_create_window ::
    "nat option \<Rightarrow> bool \<Rightarrow> string option \<Rightarrow> int \<Rightarrow> int \<Rightarrow> int \<Rightarrow> int \<Rightarrow> u32 \<Rightarrow> 'cb gui \<Rightarrow> nat option \<times> 'cb gui" where
  "gui_create_window cw cb title x y w h flags g =
     (if win_count g \<ge> MAX_WINDOWS then (None, g)
      else case cw of
        None \<Rightarrow> (None, g)
      | Some p \<Rightarrow>
          (let g1 = g\<lparr>next_win_id := next_win_id g + 1\<rparr> in
           if \<not> cb \<or> w * h < 0 then (None, g1)
           else
             (let win = \<lparr>win_id = next_win_id g, win_title = take 63 (case title of None \<Rightarrow> [] | Some t \<Rightarrow> t), win_rect = rect_make x y w h,
                win_flags = flags, back_buf = Some (replicate (nat (w * h)) GUI_BTN_FACE), draw_callback = None, event_callback = None\<rparr>
              in (Some p, g1\<lparr>win_at := (win_at g)(p := win), windows := (windows g)(win_count g := Some p), win_count := win_count g + 1\<rparr>))))"

definition find_window :: "nat \<Rightarrow> 'cb gui \<Rightarrow> nat option" where
  "find_window p g = List.find (\<lambda>i. windows g i = Some p) [0 ..< win_count g]"

definition gui_destroy_window :: "nat \<Rightarrow> 'cb gui \<Rightarrow> 'cb gui" where
  "gui_destroy_window p g =
     (case find_window p g of
        None \<Rightarrow> g
      | Some i \<Rightarrow> g\<lparr>windows := (windows g)(i := windows g (win_count g - 1), win_count g - 1 := None), win_count := win_count g - 1\<rparr>)"

definition gui_raise_window :: "nat \<Rightarrow> 'cb gui \<Rightarrow> 'cb gui" where
  "gui_raise_window p g =
     (case find_window p g of
        None \<Rightarrow> g
      | Some i \<Rightarrow> g\<lparr>windows := (fold (\<lambda>j t. t(j := t (j + 1))) [i ..< win_count g - 1] (windows g))(win_count g - 1 := Some p)\<rparr>)"

definition gui_set_window_title :: "string \<Rightarrow> 'cb window \<Rightarrow> 'cb window" where
  "gui_set_window_title title w = w\<lparr>win_title := take 63 title\<rparr>"

section \<open>Drawing\<close>

definition gui_draw_pixel :: "int \<Rightarrow> int \<Rightarrow> u32 \<Rightarrow> 'cb window \<Rightarrow> 'cb window" where
  "gui_draw_pixel x y c w =
     (case back_buf w of
        None \<Rightarrow> w
      | Some b \<Rightarrow>
          if x < 0 \<or> y < 0 \<or> x \<ge> r_w (win_rect w) \<or> y \<ge> r_h (win_rect w) then w
          else w\<lparr>back_buf := Some (b[nat (y * r_w (win_rect w) + x) := c])\<rparr>)"

definition gui_draw_fill :: "rect \<Rightarrow> u32 \<Rightarrow> 'cb window \<Rightarrow> 'cb window" where
  "gui_draw_fill r c = for_range (r_y r) (r_y r + r_h r) (\<lambda>row. for_range (r_x r) (r_x r + r_w r) (\<lambda>col. gui_draw_pixel col row c))"

definition gui_draw_rect :: "rect \<Rightarrow> u32 \<Rightarrow> 'cb window \<Rightarrow> 'cb window" where
  "gui_draw_rect r c w =
     (let w1 = for_range (r_x r) (r_x r + r_w r) (\<lambda>x v. gui_draw_pixel x (r_y r + r_h r - 1) c (gui_draw_pixel x (r_y r) c v)) w
      in for_range (r_y r + 1) (r_y r + r_h r - 1) (\<lambda>y v. gui_draw_pixel (r_x r + r_w r - 1) y c (gui_draw_pixel (r_x r) y c v)) w1)"

text \<open>One edge of two colours around a rectangle: the body of the bevel for the outer and the inner edge.\<close>

definition bevel_edge :: "rect \<Rightarrow> u32 \<Rightarrow> u32 \<Rightarrow> 'cb window \<Rightarrow> 'cb window" where
  "bevel_edge r ctl cbr w =
     (let w1 = for_range (r_x r) (r_x r + r_w r) (\<lambda>x v. gui_draw_pixel x (r_y r + r_h r - 1) cbr (gui_draw_pixel x (r_y r) ctl v)) w
      in for_range (r_y r) (r_y r + r_h r) (\<lambda>y v. gui_draw_pixel (r_x r + r_w r - 1) y cbr (gui_draw_pixel (r_x r) y ctl v)) w1)"

definition gui_draw_bevel :: "rect \<Rightarrow> bool \<Rightarrow> 'cb window \<Rightarrow> 'cb window" where
  "gui_draw_bevel r raised w =
     (let ctl = (if raised then GUI_BTN_HIGHLIGHT else GUI_BTN_DARK_SHADOW); cbr = (if raised then GUI_BTN_DARK_SHADOW else GUI_BTN_HIGHLIGHT);
          ctl2 = (if raised then GUI_BTN_FACE else GUI_BTN_SHADOW); cbr2 = (if raised then GUI_BTN_SHADOW else GUI_BTN_FACE)
      in bevel_edge (rect_inset r 1) ctl2 cbr2 (bevel_edge r ctl cbr w))"

text \<open>
  A character is a box of the background colour. A row above the buffer and a column outside it are skipped, a row below it is not: the
  store then misses the buffer, whose length is all that is known about it.
\<close>

definition draw_char_to_buf :: "u32 \<Rightarrow> int \<Rightarrow> int \<Rightarrow> char \<Rightarrow> u32 \<Rightarrow> u32 \<Rightarrow> u32 list \<Rightarrow> u32 list option" where
  "draw_char_to_buf buf_w cx cy c fg bg buf =
     for_range 0 16 (\<lambda>row. for_range 0 8 (\<lambda>col ob.
       do { b \<leftarrow> ob;
            let px = cx + col; py = cy + row; i = unat (of_int py * buf_w + of_int px) in
            if px < 0 \<or> py < 0 \<or> px \<ge> uint buf_w then Some b
            else if i < length b then Some (b[i := bg]) else None })) (Some buf)"

text \<open>A missing back buffer has no cell.\<close>

fun draw_text_from :: "int \<Rightarrow> int \<Rightarrow> int \<Rightarrow> string \<Rightarrow> u32 \<Rightarrow> u32 \<Rightarrow> 'cb window \<Rightarrow> 'cb window option" where
  "draw_text_from x cx y [] color bg w = Some w"
| "draw_text_from x cx y (c # cs) color bg w =
     (if c = CHR 0x0A then draw_text_from x x (y + 16) cs color bg w
      else if c = CHR 0x09 then draw_text_from x (cx + 8 * 4) y cs color bg w
      else do {
        b \<leftarrow> draw_char_to_buf (of_int (r_w (win_rect w))) cx y c color bg (case back_buf w of None \<Rightarrow> [] | Some b \<Rightarrow> b);
        draw_text_from x (cx + 8) y cs color bg (w\<lparr>back_buf := map_option (\<lambda>_. b) (back_buf w)\<rparr>) })"

definition gui_draw_text :: "int \<Rightarrow> int \<Rightarrow> string \<Rightarrow> u32 \<Rightarrow> u32 \<Rightarrow> 'cb window \<Rightarrow> 'cb window option" where
  "gui_draw_text x y str color bg w = draw_text_from x x y str color bg w"

definition gui_draw_titlebar :: "rect \<Rightarrow> string \<Rightarrow> bool \<Rightarrow> 'cb window \<Rightarrow> 'cb window option" where
  "gui_draw_titlebar r title active w =
     (let bg = (if active then GUI_TITLEBAR_ACTIVE else GUI_TITLEBAR_INACTIVE)
      in gui_draw_text (r_x r + 3) (r_y r + (r_h r - 16) sdiv 2) title GUI_WHITE bg (gui_draw_fill r bg w))"

section \<open>The screen\<close>

definition fb_index :: "int \<Rightarrow> int \<Rightarrow> 'cb gui \<Rightarrow> nat" where
  "fb_index x y g = unat (of_int y * (fb_pitch g div 4) + of_int x)"

definition fb_store :: "int \<Rightarrow> int \<Rightarrow> u32 \<Rightarrow> 'cb gui \<Rightarrow> 'cb gui" where
  "fb_store x y c g = g\<lparr>framebuffer := map_option (\<lambda>m. m(fb_index x y g := c)) (framebuffer g)\<rparr>"

text \<open>Copies a back buffer to its place on the screen; a buffer shorter than its window would be read beyond its end.\<close>

definition present_window :: "'cb window \<Rightarrow> 'cb gui \<Rightarrow> 'cb gui" where
  "present_window win g =
     (case (back_buf win, framebuffer g) of
        (Some b, Some m) \<Rightarrow>
          (let wx = r_x (win_rect win); wy = r_y (win_rect win); ww = r_w (win_rect win); wh = r_h (win_rect win)
           in for_range 0 wh (\<lambda>row s.
                let dst_y = wy + row in
                if dst_y < 0 \<or> dst_y \<ge> uint (fb_height g) then s
                else for_range 0 ww (\<lambda>col t.
                  let dst_x = wx + col in
                  if dst_x < 0 \<or> dst_x \<ge> uint (fb_width g) then t
                  else fb_store dst_x dst_y (b ! nat (row * ww + col)) t) s) g)
      | _ \<Rightarrow> g)"

definition draw_window :: "('cb \<Rightarrow> 'cb window \<Rightarrow> 'cb window option) \<Rightarrow> 'cb window \<Rightarrow> 'cb window option" where
  "draw_window call w = (case draw_callback w of None \<Rightarrow> Some w | Some f \<Rightarrow> call f w)"

definition gui_redraw_window :: "('cb \<Rightarrow> 'cb window \<Rightarrow> 'cb window option) \<Rightarrow> nat \<Rightarrow> 'cb gui \<Rightarrow> 'cb gui option" where
  "gui_redraw_window call p g =
     do { w \<leftarrow> draw_window call (win_at g p);
          Some (present_window w (g\<lparr>win_at := (win_at g)(p := w)\<rparr>)) }"

definition clear_desktop :: "'cb gui \<Rightarrow> 'cb gui" where
  "clear_desktop g =
     (if framebuffer g = None then g
      else for_range 0 (uint (fb_height g)) (\<lambda>y. for_range 0 (uint (fb_width g)) (\<lambda>x. fb_store x y GUI_DESKTOP)) g)"

definition gui_redraw_all :: "('cb \<Rightarrow> 'cb window \<Rightarrow> 'cb window option) \<Rightarrow> 'cb gui \<Rightarrow> 'cb gui option" where
  "gui_redraw_all call g =
     fold (\<lambda>i og. do { h \<leftarrow> og; p \<leftarrow> windows h i; gui_redraw_window call p h }) [0 ..< win_count g] (Some (clear_desktop g))"

section \<open>Events\<close>

definition gui_poll_event :: "event \<Rightarrow> int \<times> event" where
  "gui_poll_event evt = (0, evt\<lparr>ev_type := EVT_NONE\<rparr>)"

definition gui_quit :: "'cb gui \<Rightarrow> 'cb gui" where
  "gui_quit g = g\<lparr>running := False\<rparr>"

text \<open>
  The inner loop of \<open>gui_run\<close> over the events that are waiting, \<open>deliver\<close> being a window's event callback; then at most \<open>n\<close> turns of the outer loop.
\<close>

fun run_events :: "nat \<Rightarrow> ('cb \<Rightarrow> event \<Rightarrow> 'cb window \<Rightarrow> 'cb window) \<Rightarrow> event \<Rightarrow> 'cb gui \<Rightarrow> event \<times> 'cb gui" where
  "run_events 0 deliver e g = (e, g)"
| "run_events (Suc n) deliver e g =
     (case gui_poll_event e of (r, e1) \<Rightarrow>
        if r \<noteq> 0 \<and> ev_type e1 \<noteq> EVT_NONE then
          (let g1 = (if win_count g > 0 then
                       (case windows g (win_count g - 1) of
                          None \<Rightarrow> g
                        | Some p \<Rightarrow> (case event_callback (win_at g p) of
                            None \<Rightarrow> g | Some f \<Rightarrow> g\<lparr>win_at := (win_at g)(p := deliver f e1 (win_at g p))\<rparr>))
                     else g)
           in run_events n deliver e1 (if ev_type e1 = EVT_QUIT then g1\<lparr>running := False\<rparr> else g1))
        else (e1, g))"

fun gui_run :: "nat \<Rightarrow> ('cb \<Rightarrow> 'cb window \<Rightarrow> 'cb window option) \<Rightarrow> ('cb \<Rightarrow> event \<Rightarrow> 'cb window \<Rightarrow> 'cb window) \<Rightarrow> event \<Rightarrow> 'cb gui \<Rightarrow> 'cb gui option" where
  "gui_run 0 call deliver e g = (if running g then None else Some g)"
| "gui_run (Suc n) call deliver e g =
     (if running g then
        do { g1 \<leftarrow> gui_redraw_all call g;
             (case run_events (Suc n) deliver e g1 of (e1, g2) \<Rightarrow> gui_run n call deliver e1 g2) }
      else Some g)"

section \<open>Widgets\<close>

text \<open>The dotted rectangle that marks the focus: its rows, then its columns.\<close>

definition dotted_rows :: "rect \<Rightarrow> 'cb window \<Rightarrow> 'cb window" where
  "dotted_rows fr = for_range2 (r_x fr) (r_x fr + r_w fr) (\<lambda>x v. gui_draw_pixel x (r_y fr + r_h fr - 1) GUI_TEXT (gui_draw_pixel x (r_y fr) GUI_TEXT v))"

definition dotted_columns :: "rect \<Rightarrow> 'cb window \<Rightarrow> 'cb window" where
  "dotted_columns fr = for_range2 (r_y fr) (r_y fr + r_h fr) (\<lambda>y v. gui_draw_pixel (r_x fr + r_w fr - 1) y GUI_TEXT (gui_draw_pixel (r_x fr) y GUI_TEXT v))"

definition gui_button_draw :: "rect \<Rightarrow> string option \<Rightarrow> bool \<Rightarrow> bool \<Rightarrow> 'cb window \<Rightarrow> 'cb window option" where
  "gui_button_draw r label pressed focused w =
     (let w1 = gui_draw_bevel r (\<not> pressed) (gui_draw_fill r GUI_BTN_FACE w);
          fr = rect_inset r 3;
          w2 = (if focused then dotted_columns fr (dotted_rows fr w1) else w1);
          d = (if pressed then 1 else 0)
      in case label of
           None \<Rightarrow> Some w2
         | Some l \<Rightarrow>
             if l = [] then Some w2
             else gui_draw_text (r_x r + (r_w r - int (length l) * 8) sdiv 2 + d) (r_y r + (r_h r - 16) sdiv 2 + d) l GUI_TEXT GUI_BTN_FACE w2)"

definition ALIGN_CENTER :: u8 where [kconst]: "ALIGN_CENTER = 1"
definition ALIGN_RIGHT :: u8 where [kconst]: "ALIGN_RIGHT = 2"

definition gui_label_draw :: "rect \<Rightarrow> string option \<Rightarrow> u32 \<Rightarrow> u8 \<Rightarrow> 'cb window \<Rightarrow> 'cb window option" where
  "gui_label_draw r text color align w =
     (let w1 = gui_draw_fill r GUI_BTN_FACE w
      in case text of
           None \<Rightarrow> Some w1
         | Some t \<Rightarrow>
             if t = [] then Some w1
             else
               (let tx = (if align = ALIGN_CENTER then r_x r + (r_w r - int (length t) * 8) sdiv 2
                          else if align = ALIGN_RIGHT then r_x r + r_w r - int (length t) * 8 - 2
                          else r_x r + 2)
                in gui_draw_text tx (r_y r + (r_h r - 16) sdiv 2) t color GUI_BTN_FACE w1))"

definition gui_textbox_draw :: "rect \<Rightarrow> string option \<Rightarrow> int \<Rightarrow> bool \<Rightarrow> 'cb window \<Rightarrow> 'cb window option" where
  "gui_textbox_draw r text cursor_pos focused w =
     (let inner = rect_inset r 2;
          w1 = gui_draw_fill inner GUI_WHITE (gui_draw_bevel r False (gui_draw_fill r GUI_WHITE w))
      in do {
        w2 \<leftarrow> (case text of
                 None \<Rightarrow> Some w1
               | Some t \<Rightarrow> if t = [] then Some w1 else gui_draw_text (r_x inner + 1) (r_y inner + (r_h inner - 16) sdiv 2) t GUI_TEXT GUI_WHITE w1);
        Some (if focused then
                (let len = (case text of None \<Rightarrow> 0 | Some t \<Rightarrow> int (length t));
                     cx = r_x inner + 1 + (if cursor_pos > len then len else cursor_pos) * 8
                 in for_range (r_y inner + 2) (r_y inner + r_h inner - 2) (\<lambda>y. gui_draw_pixel cx y GUI_TEXT) w2)
              else w2) })"

definition gui_listbox_draw :: "rect \<Rightarrow> string option list \<Rightarrow> int \<Rightarrow> 'cb window \<Rightarrow> 'cb window option" where
  "gui_listbox_draw r items selected w =
     (let w1 = gui_draw_bevel r False (gui_draw_fill r GUI_WHITE w);
          inner = rect_inset r 2; item_h = 18; visible = r_h inner sdiv item_h
      in fold (\<lambda>i ov. do {
           v \<leftarrow> ov;
           if int i < visible then
             (let item_r = rect_make (r_x inner) (r_y inner + int i * item_h) (r_w inner) item_h;
                  bg = (if int i = selected then GUI_MENU_HIGHLIGHT else GUI_WHITE); fg = (if int i = selected then GUI_WHITE else GUI_TEXT);
                  v1 = gui_draw_fill item_r bg v
              in case items ! i of None \<Rightarrow> Some v1 | Some t \<Rightarrow> gui_draw_text (r_x item_r + 2) (r_y item_r + 1) t fg bg v1)
           else Some v }) [0 ..< length items] (Some w1))"

text \<open>The geometry of the thumb of a scroll bar of length \<open>len\<close> with square buttons of size \<open>btn_sz\<close>: its position and its length.\<close>

definition thumb_span :: "int \<Rightarrow> int \<Rightarrow> int \<Rightarrow> int \<Rightarrow> int \<Rightarrow> int \<times> int" where
  "thumb_span len btn_sz total_n visible_count offset =
     (let track_len = len - btn_sz * 2; t = track_len * visible_count sdiv total_n
      in (btn_sz + track_len * offset sdiv total_n, if t < 8 then 8 else t))"

definition gui_scrollbar_draw :: "rect \<Rightarrow> int \<Rightarrow> int \<Rightarrow> int \<Rightarrow> bool \<Rightarrow> 'cb window \<Rightarrow> 'cb window" where
  "gui_scrollbar_draw r total_n visible_count offset vertical w =
     (let btn_sz = (if vertical then r_w r else r_h r);
          up_btn = rect_make (r_x r) (r_y r) btn_sz btn_sz;
          dn_btn = (if vertical then rect_make (r_x r) (r_y r + r_h r - btn_sz) btn_sz btn_sz else rect_make (r_x r + r_w r - btn_sz) (r_y r) btn_sz btn_sz);
          w1 = gui_draw_fill r GUI_LIGHT_GRAY w;
          w2 = gui_draw_bevel up_btn True (gui_draw_fill up_btn GUI_BTN_FACE w1);
          w3 = gui_draw_bevel dn_btn True (gui_draw_fill dn_btn GUI_BTN_FACE w2)
      in if total_n > visible_count \<and> total_n > 0 then
           (let (thumb_pos, thumb_len) = thumb_span (if vertical then r_h r else r_w r) btn_sz total_n visible_count offset;
                thumb = (if vertical then rect_make (r_x r + 1) (r_y r + thumb_pos) (r_w r - 2) thumb_len
                         else rect_make (r_x r + thumb_pos) (r_y r + 1) thumb_len (r_h r - 2))
            in gui_draw_bevel thumb True (gui_draw_fill thumb GUI_BTN_FACE w3))
         else w3)"

definition gui_checkbox_draw :: "rect \<Rightarrow> string option \<Rightarrow> bool \<Rightarrow> bool \<Rightarrow> 'cb window \<Rightarrow> 'cb window option" where
  "gui_checkbox_draw r label checked focused w =
     (let box_sz = 13; bx = rect_make (r_x r + 2) (r_y r + (r_h r - box_sz) sdiv 2) box_sz box_sz;
          w1 = gui_draw_bevel bx False (gui_draw_fill bx GUI_WHITE w);
          w2 = (if checked then
                  for_range 0 5 (\<lambda>i v. gui_draw_pixel (r_x bx + 5 + i) (r_y bx + 8 - i) GUI_TEXT (gui_draw_pixel (r_x bx + 5 + i) (r_y bx + 7 - i) GUI_TEXT v))
                    (for_range 0 3 (\<lambda>i v. gui_draw_pixel (r_x bx + 2 + i) (r_y bx + 6 + i) GUI_TEXT (gui_draw_pixel (r_x bx + 2 + i) (r_y bx + 5 + i) GUI_TEXT v)) w1)
                else w1);
          fr = rect_inset r 1;
          w3 = (if focused then dotted_rows fr w2 else w2)
      in case label of
           None \<Rightarrow> Some w3
         | Some l \<Rightarrow> gui_draw_text (r_x bx + box_sz + 4) (r_y r + (r_h r - 16) sdiv 2) l GUI_TEXT GUI_BTN_FACE w3)"

text \<open>The items from index \<open>i\<close> on, starting at column \<open>cx\<close>.\<close>

fun menu_items :: "rect \<Rightarrow> string option list \<Rightarrow> int \<Rightarrow> int \<Rightarrow> int \<Rightarrow> 'cb window \<Rightarrow> 'cb window option" where
  "menu_items r [] i active_item cx w = Some w"
| "menu_items r (None # items) i active_item cx w = menu_items r items (i + 1) active_item cx w"
| "menu_items r (Some t # items) i active_item cx w =
     (let item_w = int (length t) * 8 + 12; ir = rect_make cx (r_y r + 1) item_w (r_h r - 2); ty = r_y r + (r_h r - 16) sdiv 2
      in do {
        v \<leftarrow> (if i = active_item then gui_draw_text (cx + 6) ty t GUI_WHITE GUI_MENU_HIGHLIGHT (gui_draw_fill ir GUI_MENU_HIGHLIGHT w)
             else gui_draw_text (cx + 6) ty t GUI_TEXT GUI_BTN_FACE w);
        menu_items r items (i + 1) active_item (cx + item_w) v })"

definition gui_menubar_draw :: "rect \<Rightarrow> string option list \<Rightarrow> int \<Rightarrow> 'cb window \<Rightarrow> 'cb window option" where
  "gui_menubar_draw r items active_item w =
     (let w1 = gui_draw_fill r GUI_BTN_FACE w;
          w2 = for_range (r_x r) (r_x r + r_w r) (\<lambda>x. gui_draw_pixel x (r_y r + r_h r - 1) GUI_BTN_SHADOW) w1
      in menu_items r items 0 active_item (r_x r + 2) w2)"

fun menu_search :: "nat \<Rightarrow> int \<Rightarrow> int \<Rightarrow> int \<Rightarrow> int" where
  "menu_search 0 i cx mx = -1"
| "menu_search (Suc n) i cx mx = (if mx \<ge> cx \<and> mx < cx + 60 then i else menu_search n (i + 1) (cx + 60) mx)"

definition gui_menubar_hit :: "rect \<Rightarrow> int \<Rightarrow> int \<Rightarrow> int \<Rightarrow> int" where
  "gui_menubar_hit r count mx my = (if \<not> rect_contains r mx my then -1 else menu_search (nat count) 0 (r_x r + 2) mx)"

section \<open>Windows as canvases\<close>

definition win_ok :: "'cb window \<Rightarrow> bool" where
  "win_ok w \<longleftrightarrow> 0 \<le> r_w (win_rect w) \<and> 0 \<le> r_h (win_rect w) \<and> r_w (win_rect w) < 2 ^ 32 \<and> r_w (win_rect w) * r_h (win_rect w) < 2 ^ 32
     \<and> (\<exists>b. back_buf w = Some b \<and> length b = nat (r_w (win_rect w) * r_h (win_rect w)))"

definition in_window :: "'cb window \<Rightarrow> int \<Rightarrow> int \<Rightarrow> bool" where
  "in_window w x y \<longleftrightarrow> 0 \<le> x \<and> x < r_w (win_rect w) \<and> 0 \<le> y \<and> y < r_h (win_rect w)"

definition pixel :: "'cb window \<Rightarrow> int \<Rightarrow> int \<Rightarrow> u32" where
  "pixel w x y = the (back_buf w) ! nat (y * r_w (win_rect w) + x)"

lemma cell_bounds:
  fixes x y w h :: int
  assumes "0 \<le> x" "x < w" "0 \<le> y" "y < h"
  shows "0 \<le> y * w + x" "y * w + x < w * h"
proof -
  have "(y + 1) * w \<le> h * w" using assms by (intro mult_right_mono) auto
  then show "y * w + x < w * h" using assms by (simp add: algebra_simps)
qed (use assms in simp)

lemma cell_inj:
  fixes x y x' y' w :: int
  assumes "0 \<le> x" "x < w" "0 \<le> x'" "x' < w" "y * w + x = y' * w + x'"
  shows "x = x' \<and> y = y'"
proof -
  have "(y * w + x) mod w = x" "(y' * w + x') mod w = x'" using assms(1-4) by simp_all
  then have "x = x'" using assms(5) by metis
  then show ?thesis using assms by auto
qed

lemma win_rect_pixel [simp]: "win_rect (gui_draw_pixel x y c w) = win_rect w"
  by (auto simp: gui_draw_pixel_def split: option.splits)

lemma win_rect_draw [simp]:
  "win_rect (gui_draw_fill r c w) = win_rect w" "win_rect (bevel_edge r c1 c2 w) = win_rect w" "win_rect (gui_draw_bevel r b w) = win_rect w"
  unfolding gui_draw_fill_def bevel_edge_def gui_draw_bevel_def Let_def by (simp_all add: for_range_inv)

interpretation wc: canvas win_ok in_window pixel gui_draw_pixel
proof
  fix w :: "'cb window" and x y c
  assume ok: "win_ok w"
  then show "win_ok (gui_draw_pixel x y c w)" by (auto simp: win_ok_def gui_draw_pixel_def)
  show "in_window (gui_draw_pixel x y c w) = in_window w" by (simp add: in_window_def fun_eq_iff)
next
  fix w :: "'cb window" and x y x' y' c
  assume ok: "win_ok w" and v: "in_window w x y"
  obtain b where b: "back_buf w = Some b" "length b = nat (r_w (win_rect w) * r_h (win_rect w))" using ok by (auto simp: win_ok_def)
  let ?W = "r_w (win_rect w)" and ?H = "r_h (win_rect w)"
  note cb = cell_bounds [of x ?W y ?H] cell_bounds [of x' ?W y' ?H] cell_inj [of x ?W x' y y']
  show "pixel (gui_draw_pixel x' y' c w) x y = (if x' = x \<and> y' = y then c else pixel w x y)"
    using v b cb unfolding pixel_def win_rect_pixel
    by (auto simp: gui_draw_pixel_def in_window_def nth_list_update nat_eq_iff)
qed

text \<open>The picture that a window shows at its place.\<close>

definition win_pic :: "'cb window \<Rightarrow> picture" where
  "win_pic w = (\<lambda>x y. if in_window w (x - r_x (win_rect w)) (y - r_y (win_rect w))
     then Some (pixel w (x - r_x (win_rect w)) (y - r_y (win_rect w))) else None)"

definition rect_pic :: "rect \<Rightarrow> u32 \<Rightarrow> picture" where
  "rect_pic r c = box (r_x r) (r_x r + r_w r) (r_y r) (r_y r + r_h r) c"

lemma paints_fill: "wc.paints (gui_draw_fill r c) (rect_pic r c)"
  unfolding gui_draw_fill_def rect_pic_def by (rule wc.paints_box)

text \<open>The edge of two colours: the right column over the left one, both over the bottom row over the top row.\<close>

definition edge_pic :: "rect \<Rightarrow> u32 \<Rightarrow> u32 \<Rightarrow> picture" where
  "edge_pic r c1 c2 = (\<lambda>x y. if \<not> rect_contains r x y then None
     else if x = r_x r + r_w r - 1 then Some c2 else if x = r_x r then Some c1
     else if y = r_y r + r_h r - 1 then Some c2 else if y = r_y r then Some c1 else None)"

lemma paints_edge: "0 < r_w r \<Longrightarrow> 0 < r_h r \<Longrightarrow> wc.paints (bevel_edge r c1 c2) (edge_pic r c1 c2)"
proof -
  assume "0 < r_w r" "0 < r_h r"
  let ?x0 = "r_x r" and ?x1 = "r_x r + r_w r" and ?y0 = "r_y r" and ?y1 = "r_y r + r_h r"
  have "wc.paints (bevel_edge r c1 c2) (over (over (box (?x1 - 1) (?x1 - 1 + 1) ?y0 ?y1 c2) (box ?x0 (?x0 + 1) ?y0 ?y1 c1))
      (over (box ?x0 ?x1 (?y1 - 1) (?y1 - 1 + 1) c2) (box ?x0 ?x1 ?y0 (?y0 + 1) c1)))"
    unfolding bevel_edge_def Let_def by (intro wc.paints_comp wc.paints_rows wc.paints_columns)
  moreover have "over (over (box (?x1 - 1) (?x1 - 1 + 1) ?y0 ?y1 c2) (box ?x0 (?x0 + 1) ?y0 ?y1 c1))
      (over (box ?x0 ?x1 (?y1 - 1) (?y1 - 1 + 1) c2) (box ?x0 ?x1 ?y0 (?y0 + 1) c1)) = edge_pic r c1 c2"
    using \<open>0 < r_w r\<close> \<open>0 < r_h r\<close> by (auto simp: edge_pic_def over_apply box_def rect_contains_def fun_eq_iff)
  ultimately show ?thesis by simp
qed

definition bevel_pic :: "rect \<Rightarrow> bool \<Rightarrow> picture" where
  "bevel_pic r raised =
     (if raised then over (edge_pic (rect_inset r 1) GUI_BTN_FACE GUI_BTN_SHADOW) (edge_pic r GUI_BTN_HIGHLIGHT GUI_BTN_DARK_SHADOW)
      else over (edge_pic (rect_inset r 1) GUI_BTN_SHADOW GUI_BTN_FACE) (edge_pic r GUI_BTN_DARK_SHADOW GUI_BTN_HIGHLIGHT))"

lemma rect_inset_sel [simp]:
  "r_x (rect_inset r n) = r_x r + n" "r_y (rect_inset r n) = r_y r + n" "r_w (rect_inset r n) = r_w r - 2 * n" "r_h (rect_inset r n) = r_h r - 2 * n"
  by (simp_all add: rect_inset_def rect_make_def)

lemma rect_make_sel [simp]: "r_x (rect_make x y w h) = x" "r_y (rect_make x y w h) = y" "r_w (rect_make x y w h) = w" "r_h (rect_make x y w h) = h"
  by (simp_all add: rect_make_def)

lemma paints_bevel: "2 < r_w r \<Longrightarrow> 2 < r_h r \<Longrightarrow> wc.paints (gui_draw_bevel r raised) (bevel_pic r raised)"
  unfolding gui_draw_bevel_def bevel_pic_def Let_def
  by (cases raised; simp only: if_True if_False; intro wc.paints_comp paints_edge) simp_all

section \<open>Text\<close>

text \<open>What text does when every line of it ends above the lower edge: a box of the background colour for each character.\<close>

definition char_plot :: "int \<Rightarrow> int \<Rightarrow> u32 \<Rightarrow> 'cb window \<Rightarrow> 'cb window" where
  "char_plot cx cy bg = for_range 0 16 (\<lambda>row. for_range 0 8 (\<lambda>col. gui_draw_pixel (cx + col) (cy + row) bg))"

fun text_plot :: "int \<Rightarrow> int \<Rightarrow> int \<Rightarrow> string \<Rightarrow> u32 \<Rightarrow> 'cb window \<Rightarrow> 'cb window" where
  "text_plot x cx y [] bg w = w"
| "text_plot x cx y (c # cs) bg w =
     (if c = CHR 0x0A then text_plot x x (y + 16) cs bg w
      else if c = CHR 0x09 then text_plot x (cx + 32) y cs bg w
      else text_plot x (cx + 8) y cs bg (char_plot cx y bg w))"

fun text_fits :: "int \<Rightarrow> int \<Rightarrow> string \<Rightarrow> bool" where
  "text_fits h y [] = True"
| "text_fits h y (c # cs) =
     (if c = CHR 0x0A then text_fits h (y + 16) cs
      else if c = CHR 0x09 then text_fits h y cs
      else y + 16 \<le> h \<and> text_fits h y cs)"

lemma win_rect_char [simp]: "win_rect (char_plot cx cy bg w) = win_rect w"
  unfolding char_plot_def by (intro for_range_inv) (simp add: for_range_inv)

lemma char_plot_ok: "win_ok w \<Longrightarrow> win_ok (char_plot cx cy bg w)"
  using wc.confinedD(1) [of "\<lambda>_ _. True" "char_plot cx cy bg" w] unfolding char_plot_def
  by (simp add: wc.confined_range wc.confined_put)

lemma uint_of_int_small: "0 \<le> k \<Longrightarrow> k < 2 ^ 32 \<Longrightarrow> uint (of_int k :: u32) = k"
  by (simp add: uint_word_of_int take_bit_int_eq_self)

lemma cell_word:
  assumes "0 \<le> x" "x < w" "0 \<le> y" "y < h" "w * h \<le> 2 ^ 32"
  shows "unat (of_int y * of_int w + of_int x :: u32) = nat (y * w + x)"
proof -
  have "uint (of_int (y * w + x) :: u32) = y * w + x"
    using cell_bounds [OF assms(1-4)] assms(5) by (intro uint_of_int_small) auto
  moreover have "(of_int y * of_int w + of_int x :: u32) = of_int (y * w + x)" by simp
  ultimately show ?thesis by (simp only: unat_eq_nat_uint)
qed

lemma draw_char_fits:
  assumes "win_ok w" "cy + 16 \<le> r_h (win_rect w)"
  shows "\<exists>b. draw_char_to_buf (of_int (r_w (win_rect w))) cx cy c fg bg (the (back_buf w)) = Some b \<and> char_plot cx cy bg w = w\<lparr>back_buf := Some b\<rparr>"
proof -
  let ?W = "r_w (win_rect w)" and ?H = "r_h (win_rect w)"
  obtain b0 where b0: "back_buf w = Some b0" "length b0 = nat (?W * ?H)" and ok: "0 \<le> ?W" "?W < 2 ^ 32" "?W * ?H < 2 ^ 32"
    using assms(1) by (auto simp: win_ok_def)
  have u: "uint (of_int ?W :: u32) = ?W" using ok by (intro uint_of_int_small)
  define R where "R ob v \<longleftrightarrow> (\<exists>b. ob = Some b \<and> length b = length b0 \<and> v = w\<lparr>back_buf := Some b\<rparr>)" for ob v
  have "R (draw_char_to_buf (of_int ?W) cx cy c fg bg b0) (char_plot cx cy bg w)"
    unfolding draw_char_to_buf_def char_plot_def
  proof (rule for_range_sim [where R = R], rule for_range_sim [where R = R], goal_cases)
    case (1 row ob v col ob' v')
    then obtain b where b: "ob' = Some b" "length b = length b0" "v' = w\<lparr>back_buf := Some b\<rparr>" by (auto simp: R_def)
    let ?x = "cx + col" and ?y = "cy + row"
    show ?case
    proof (cases "?x < 0 \<or> ?y < 0 \<or> ?x \<ge> ?W")
      case True
      then show ?thesis using b u by (auto simp: R_def gui_draw_pixel_def)
    next
      case False
      then have v: "0 \<le> ?x" "?x < ?W" "0 \<le> ?y" "?y < ?H" using 1 assms(2) by auto
      have "nat (?y * ?W + ?x) < length b" using cell_bounds [OF v] b(2) b0(2) by simp
      then show ?thesis using b u v cell_word [OF v less_imp_le [OF ok(3)]] by (auto simp: R_def gui_draw_pixel_def Let_def)
    qed
  next
    case 2
    then show ?case by simp
  next
    case 3
    have "w = w\<lparr>back_buf := Some b0\<rparr>" using b0(1) by (cases w) simp
    then show ?case by (auto simp: R_def)
  qed
  then show ?thesis using b0 by (auto simp: R_def)
qed

lemma draw_text_fits:
  "win_ok w \<Longrightarrow> text_fits (r_h (win_rect w)) y str \<Longrightarrow> draw_text_from x cx y str color bg w = Some (text_plot x cx y str bg w)"
proof (induction x cx y str color bg w rule: draw_text_from.induct)
  case (2 x cx y c cs color bg w)
  show ?case
  proof (cases "c = CHR 0x0A \<or> c = CHR 0x09")
    case True
    then show ?thesis using 2 by auto
  next
    case False
    then have "y + 16 \<le> r_h (win_rect w)" using "2.prems" by simp
    from draw_char_fits [OF "2.prems"(1) this, of cx c color bg] obtain b where
      b: "draw_char_to_buf (of_int (r_w (win_rect w))) cx y c color bg (the (back_buf w)) = Some b" "char_plot cx y bg w = w\<lparr>back_buf := Some b\<rparr>" by blast
    obtain b0 where b0: "back_buf w = Some b0" using "2.prems"(1) by (auto simp: win_ok_def)
    have "win_ok (w\<lparr>back_buf := Some b\<rparr>)" using char_plot_ok [OF "2.prems"(1), of cx y bg] b(2) by simp
    then show ?thesis using "2.IH"(3) [of b] "2.prems" False b b0 by simp
  qed
qed simp

text \<open>Where the boxes of a text lie.\<close>

fun text_in :: "(int \<Rightarrow> int \<Rightarrow> bool) \<Rightarrow> int \<Rightarrow> int \<Rightarrow> int \<Rightarrow> string \<Rightarrow> bool" where
  "text_in R x cx y [] \<longleftrightarrow> True"
| "text_in R x cx y (c # cs) \<longleftrightarrow>
     (if c = CHR 0x0A then text_in R x x (y + 16) cs
      else if c = CHR 0x09 then text_in R x (cx + 32) y cs
      else (\<forall>i \<in> {cx ..< cx + 8}. \<forall>j \<in> {y ..< y + 16}. R i j) \<and> text_in R x (cx + 8) y cs)"

lemma confined_text: "text_in R x cx y str \<Longrightarrow> wc.confined R (text_plot x cx y str bg)"
proof (induction str arbitrary: cx y)
  case Nil
  then show ?case by (simp add: wc.confined_skip)
next
  case (Cons c cs)
  have "wc.confined R (char_plot cx y bg)" if "\<forall>i \<in> {cx ..< cx + 8}. \<forall>j \<in> {y ..< y + 16}. R i j"
    unfolding char_plot_def using that by (intro wc.confined_range wc.confined_put) auto
  then show ?case using Cons by (cases "c = CHR 0x0A"; cases "c = CHR 0x09") (auto intro: wc.confined_comp)
qed

section \<open>Widgets stay in their rectangles\<close>

definition drawn_in :: "rect \<Rightarrow> 'cb window \<Rightarrow> 'cb window option \<Rightarrow> bool" where
  "drawn_in r w ow \<longleftrightarrow> (\<exists>v. ow = Some v \<and> win_ok v \<and> win_rect v = win_rect w
     \<and> (\<forall>x y. in_window w x y \<and> \<not> rect_contains r x y \<longrightarrow> pixel v x y = pixel w x y))"

lemma drawn_in_plot: "wc.confined (rect_contains r) f \<Longrightarrow> win_ok w \<Longrightarrow> win_rect (f w) = win_rect w \<Longrightarrow> drawn_in r w (Some (f w))"
  using wc.confinedD [of "rect_contains r" f w] by (auto simp: drawn_in_def)

lemma drawn_in_trans: "drawn_in r w (Some v) \<Longrightarrow> drawn_in r v ov \<Longrightarrow> drawn_in r w ov"
  by (auto simp: drawn_in_def in_window_def)

lemma drawn_in_SomeD: "drawn_in r w (Some v) \<Longrightarrow> win_ok v \<and> win_rect v = win_rect w"
  by (auto simp: drawn_in_def)

lemma drawn_in_bind:
  assumes "drawn_in r w ov" "\<And>v. win_ok v \<Longrightarrow> win_rect v = win_rect w \<Longrightarrow> drawn_in r v (f v)"
  shows "drawn_in r w (Option.bind ov f)"
proof -
  obtain v where v: "ov = Some v" "drawn_in r w (Some v)" using assms(1) by (auto simp: drawn_in_def)
  then show ?thesis using drawn_in_trans [OF v(2)] assms(2) [of v] drawn_in_SomeD [OF v(2)] by simp
qed

lemma drawn_in_seq:
  assumes "drawn_in r w (Some v)" "win_ok v \<Longrightarrow> win_rect v = win_rect w \<Longrightarrow> drawn_in r v ov"
  shows "drawn_in r w ov"
  using assms drawn_in_SomeD [OF assms(1)] drawn_in_trans [OF assms(1)] by blast

lemma drawn_in_refl: "win_ok w \<Longrightarrow> drawn_in r w (Some w)"
  by (auto simp: drawn_in_def)

definition within :: "rect \<Rightarrow> rect \<Rightarrow> bool" where
  "within q r \<longleftrightarrow> r_x r \<le> r_x q \<and> r_x q + r_w q \<le> r_x r + r_w r \<and> r_y r \<le> r_y q \<and> r_y q + r_h q \<le> r_y r + r_h r"

lemma confined_fill: "within q r \<Longrightarrow> wc.confined (rect_contains r) (gui_draw_fill q c)"
  by (rule wc.confined_paints [OF paints_fill]) (auto simp: within_def rect_pic_def box_def rect_contains_def split: if_splits)

lemma confined_bevel: "within q r \<Longrightarrow> 2 < r_w q \<Longrightarrow> 2 < r_h q \<Longrightarrow> wc.confined (rect_contains r) (gui_draw_bevel q b)"
  by (rule wc.confined_paints [OF paints_bevel])
    (auto simp: within_def bevel_pic_def edge_pic_def over_apply rect_contains_def split: if_splits)

lemma confined_panel: "within q r \<Longrightarrow> 2 < r_w q \<Longrightarrow> 2 < r_h q \<Longrightarrow> wc.confined (rect_contains r) (\<lambda>v. gui_draw_bevel q b (gui_draw_fill q c v))"
  by (rule wc.confined_comp [OF confined_fill confined_bevel])

text \<open>Text of one line.\<close>

definition plain :: "string \<Rightarrow> bool" where
  "plain t \<longleftrightarrow> CHR 0x0A \<notin> set t \<and> CHR 0x09 \<notin> set t"

lemma plain_Cons [simp]: "plain (c # cs) \<longleftrightarrow> c \<noteq> CHR 0x0A \<and> c \<noteq> CHR 0x09 \<and> plain cs" and plain_Nil [simp]: "plain []"
  by (auto simp: plain_def)

lemma text_fits_plain: "plain t \<Longrightarrow> y + 16 \<le> h \<Longrightarrow> text_fits h y t"
  by (induction t) auto

lemma text_in_plain:
  "plain t \<Longrightarrow> r_x r \<le> cx \<Longrightarrow> cx + 8 * int (length t) \<le> r_x r + r_w r \<Longrightarrow> r_y r \<le> y \<Longrightarrow> y + 16 \<le> r_y r + r_h r \<Longrightarrow> text_in (rect_contains r) x cx y t"
  by (induction t arbitrary: cx) (auto simp: rect_contains_def)

lemma win_rect_text [simp]: "win_rect (text_plot x cx y t bg w) = win_rect w"
  by (induction x cx y t bg w rule: text_plot.induct) simp_all

lemma drawn_in_text:
  assumes "win_ok w" "plain t" "r_x r \<le> x" "x + 8 * int (length t) \<le> r_x r + r_w r" "r_y r \<le> y" "y + 16 \<le> r_y r + r_h r"
    "r_y r + r_h r \<le> r_h (win_rect w)"
  shows "drawn_in r w (gui_draw_text x y t c bg w)"
proof -
  have "gui_draw_text x y t c bg w = Some (text_plot x x y t bg w)"
    unfolding gui_draw_text_def using assms by (intro draw_text_fits text_fits_plain) auto
  moreover have "wc.confined (rect_contains r) (text_plot x x y t bg)"
    using assms by (intro confined_text text_in_plain) auto
  ultimately show ?thesis using drawn_in_plot [of r "text_plot x x y t bg" w] assms(1) by simp
qed

lemma sdiv2: "(0 :: int) \<le> a \<Longrightarrow> a sdiv 2 = a div 2"
  by (cases "a = 0") (simp_all add: signed_divide_int_def)

lemma centred: "(0 :: int) \<le> a \<Longrightarrow> 0 \<le> a sdiv 2 \<and> a sdiv 2 \<le> a" "(1 :: int) \<le> a \<Longrightarrow> a sdiv 2 + 1 \<le> a"
  by (auto simp: sdiv2)

datatype widget =
    Button "string option" bool bool
  | Label "string option" u32 u8
  | Textbox "string option" int bool
  | Listbox "string option list" int
  | Scrollbar int int int bool
  | Checkbox "string option" bool bool
  | Menubar "string option list" int
  | Titlebar string bool

fun draw_widget :: "widget \<Rightarrow> rect \<Rightarrow> 'cb window \<Rightarrow> 'cb window option" where
  "draw_widget (Button l p f) r w = gui_button_draw r l p f w"
| "draw_widget (Label t c a) r w = gui_label_draw r t c a w"
| "draw_widget (Textbox t n f) r w = gui_textbox_draw r t n f w"
| "draw_widget (Listbox ts n) r w = gui_listbox_draw r ts n w"
| "draw_widget (Scrollbar t v k b) r w = Some (gui_scrollbar_draw r t v k b w)"
| "draw_widget (Checkbox l c f) r w = gui_checkbox_draw r l c f w"
| "draw_widget (Menubar ts a) r w = gui_menubar_draw r ts a w"
| "draw_widget (Titlebar t a) r w = gui_draw_titlebar r t a w"

text \<open>A line of text with a margin of \<open>m\<close> pixels in a rectangle.\<close>

definition line_fits :: "int \<Rightarrow> int \<Rightarrow> rect \<Rightarrow> string option \<Rightarrow> bool" where
  "line_fits m n r t \<longleftrightarrow> (case t of None \<Rightarrow> True | Some s \<Rightarrow> plain s \<and> m + 8 * int (length s) \<le> r_w r \<and> n + 16 \<le> r_h r)"

definition menu_width :: "string option list \<Rightarrow> int" where
  "menu_width ts = sum_list (map (\<lambda>t. case t of None \<Rightarrow> 0 | Some s \<Rightarrow> int (length s) * 8 + 12) ts)"

fun widget_fits :: "widget \<Rightarrow> rect \<Rightarrow> bool" where
  "widget_fits (Button l p f) r \<longleftrightarrow> 7 \<le> r_w r \<and> 7 \<le> r_h r \<and> line_fits 1 1 r l"
| "widget_fits (Label t c a) r \<longleftrightarrow> line_fits 2 0 r t"
| "widget_fits (Textbox t n f) r \<longleftrightarrow> 0 \<le> n \<and> 5 \<le> r_w r \<and> 5 \<le> r_h r \<and> line_fits 5 4 r t"
| "widget_fits (Listbox ts n) r \<longleftrightarrow> 4 \<le> r_w r \<and> 4 \<le> r_h r \<and> (\<forall>t \<in> set ts. line_fits 6 0 r t)"
| "widget_fits (Scrollbar t v k b) r \<longleftrightarrow> 0 \<le> v \<and> 0 \<le> k \<and> k + v \<le> t \<and> 8 \<le> r_w r \<and> 8 \<le> r_h r \<and> (if b then 2 * r_w r \<le> r_h r else 2 * r_h r \<le> r_w r)"
| "widget_fits (Checkbox l c f) r \<longleftrightarrow> 15 \<le> r_w r \<and> 13 \<le> r_h r \<and> line_fits 19 0 r l"
| "widget_fits (Menubar ts a) r \<longleftrightarrow> 16 \<le> r_h r \<and> 2 + menu_width ts \<le> r_w r \<and> (\<forall>s. Some s \<in> set ts \<longrightarrow> plain s)"
| "widget_fits (Titlebar t a) r \<longleftrightarrow> line_fits 3 0 r (Some t)"

lemma within_refl [simp]: "within r r"
  by (simp add: within_def)

lemma win_rect_loops [simp]:
  "(\<And>i v. win_rect (f i v) = win_rect v) \<Longrightarrow> win_rect (for_range a b f w) = win_rect w"
  "(\<And>i v. win_rect (f i v) = win_rect v) \<Longrightarrow> win_rect (for_range2 a b f w) = win_rect w"
  by (simp_all add: for_range_inv for_range2_inv)

lemma win_rect_dots [simp]: "win_rect (dotted_rows r w) = win_rect w" "win_rect (dotted_columns r w) = win_rect w"
  by (simp_all add: dotted_rows_def dotted_columns_def)

lemma confined_dots:
  "within fr r \<or> r_w fr \<le> 0 \<Longrightarrow> 0 < r_h fr \<or> r_w fr \<le> 0 \<Longrightarrow> wc.confined (rect_contains r) (dotted_rows fr)"
  "within fr r \<or> r_h fr \<le> 0 \<Longrightarrow> 0 < r_w fr \<or> r_h fr \<le> 0 \<Longrightarrow> wc.confined (rect_contains r) (dotted_columns fr)"
  unfolding dotted_rows_def dotted_columns_def
  by (intro wc.confined_range2 wc.confined_pair; auto simp: within_def rect_contains_def)+

lemma button_inside:
  assumes ok: "win_ok w" "r_y r + r_h r \<le> r_h (win_rect w)" and fits: "widget_fits (Button l p f) r"
  shows "drawn_in r w (gui_button_draw r l p f w)"
proof -
  let ?fr = "rect_inset r 3"
  define body where "body = (\<lambda>v :: 'a window. if f then dotted_columns ?fr (dotted_rows ?fr (gui_draw_bevel r (\<not> p) (gui_draw_fill r GUI_BTN_FACE v)))
     else gui_draw_bevel r (\<not> p) (gui_draw_fill r GUI_BTN_FACE v))"
  have face: "wc.confined (rect_contains r) (\<lambda>v. gui_draw_bevel r (\<not> p) (gui_draw_fill r GUI_BTN_FACE v))"
    using fits by (intro confined_panel) auto
  have "wc.confined (rect_contains r) (dotted_rows ?fr)" "wc.confined (rect_contains r) (dotted_columns ?fr)"
    using fits by (auto intro!: confined_dots simp: within_def)
  from wc.confined_comp [OF wc.confined_comp [OF face this(1)] this(2)] face
  have "wc.confined (rect_contains r) body" unfolding body_def by (rule wc.confined_if)
  moreover have "win_rect (body w) = win_rect w" by (simp add: body_def)
  ultimately have b: "drawn_in r w (Some (body w))" using ok(1) by (intro drawn_in_plot)
  let ?d = "if p then 1 else 0 :: int"
  have t: "drawn_in r (body w) (gui_draw_text (r_x r + (r_w r - int (length t) * 8) sdiv 2 + ?d) (r_y r + (r_h r - 16) sdiv 2 + ?d) t GUI_TEXT GUI_BTN_FACE (body w))"
    if "l = Some t" for t
    using that fits ok(2) drawn_in_SomeD [OF b] centred [of "r_w r - int (length t) * 8"] centred [of "r_h r - 16"]
    by (intro drawn_in_text) (auto simp: line_fits_def)
  have "gui_button_draw r l p f w = (case l of None \<Rightarrow> Some (body w) | Some t \<Rightarrow> if t = [] then Some (body w)
      else gui_draw_text (r_x r + (r_w r - int (length t) * 8) sdiv 2 + (if p then 1 else 0)) (r_y r + (r_h r - 16) sdiv 2 + (if p then 1 else 0)) t GUI_TEXT GUI_BTN_FACE (body w))"
    unfolding gui_button_draw_def body_def Let_def by (rule refl)
  then show ?thesis using b drawn_in_trans [OF b t] by (cases l) (simp_all split del: if_split, simp split: if_splits)
qed

lemma label_inside:
  assumes ok: "win_ok w" "r_y r + r_h r \<le> r_h (win_rect w)" and fits: "widget_fits (Label t c a) r"
  shows "drawn_in r w (gui_label_draw r t c a w)"
proof -
  have b: "drawn_in r w (Some (gui_draw_fill r GUI_BTN_FACE w))" using ok(1) by (intro drawn_in_plot confined_fill) auto
  have "drawn_in r (gui_draw_fill r GUI_BTN_FACE w) (gui_draw_text tx (r_y r + (r_h r - 16) sdiv 2) s c GUI_BTN_FACE (gui_draw_fill r GUI_BTN_FACE w))"
    if "t = Some s" "r_x r \<le> tx" "tx + 8 * int (length s) \<le> r_x r + r_w r" for s tx
    using that fits ok(2) drawn_in_SomeD [OF b] centred [of "r_h r - 16"] by (intro drawn_in_text) (auto simp: line_fits_def)
  then show ?thesis unfolding gui_label_draw_def Let_def
    using fits centred(1) [of "r_w r - int (length (the t)) * 8"] by (cases t) (auto simp: line_fits_def intro: drawn_in_trans [OF b] b)
qed

lemma confined_column: "(\<And>y. a \<le> y \<Longrightarrow> y < b \<Longrightarrow> R x y) \<Longrightarrow> wc.confined R (for_range a b (\<lambda>y. gui_draw_pixel x y c))"
  by (intro wc.confined_range wc.confined_put) auto

lemma confined_row: "(\<And>x. a \<le> x \<Longrightarrow> x < b \<Longrightarrow> R x y) \<Longrightarrow> wc.confined R (for_range a b (\<lambda>x. gui_draw_pixel x y c))"
  by (intro wc.confined_range wc.confined_put) auto

lemma textbox_inside:
  assumes ok: "win_ok w" "r_y r + r_h r \<le> r_h (win_rect w)" and fits: "widget_fits (Textbox t n f) r"
  shows "drawn_in r w (gui_textbox_draw r t n f w)"
proof -
  let ?i = "rect_inset r 2" and ?w1 = "gui_draw_fill (rect_inset r 2) GUI_WHITE (gui_draw_bevel r False (gui_draw_fill r GUI_WHITE w))"
  have "wc.confined (rect_contains r) (\<lambda>v. gui_draw_fill ?i GUI_WHITE (gui_draw_bevel r False (gui_draw_fill r GUI_WHITE v)))"
    using fits by (intro wc.confined_comp [OF confined_panel confined_fill]) (auto simp: within_def)
  then have b: "drawn_in r w (Some ?w1)" using ok(1) by (intro drawn_in_plot) auto
  have line: "drawn_in r w (case t of None \<Rightarrow> Some ?w1 | Some s \<Rightarrow> if s = [] then Some ?w1
      else gui_draw_text (r_x ?i + 1) (r_y ?i + (r_h ?i - 16) sdiv 2) s GUI_TEXT GUI_WHITE ?w1)"
  proof (cases t)
    case (Some s)
    have "drawn_in r ?w1 (gui_draw_text (r_x ?i + 1) (r_y ?i + (r_h ?i - 16) sdiv 2) s GUI_TEXT GUI_WHITE ?w1)"
      using fits ok(2) drawn_in_SomeD [OF b] centred [of "r_h r - 20"] Some by (intro drawn_in_text) (auto simp: line_fits_def algebra_simps)
    then show ?thesis using Some b drawn_in_trans [OF b] by simp
  qed (use b in simp)
  let ?len = "case t of None \<Rightarrow> 0 | Some s \<Rightarrow> int (length s)" and ?cur = "\<lambda>cx. for_range (r_y ?i + 2) (r_y ?i + r_h ?i - 2) (\<lambda>y. gui_draw_pixel cx y GUI_TEXT)"
  have "0 \<le> ?len" "?len * 8 + 5 \<le> r_w r" "0 \<le> n" using fits by (auto simp: line_fits_def split: option.splits)
  then have "wc.confined (rect_contains r) (?cur (r_x ?i + 1 + (if n > ?len then ?len else n) * 8))"
    by (intro confined_column) (auto simp: rect_contains_def)
  then have "drawn_in r v (Some (?cur (r_x ?i + 1 + (if n > ?len then ?len else n) * 8) v))" if "win_ok v" for v
    using that by (intro drawn_in_plot) (auto intro: for_range_inv)
  then show ?thesis unfolding gui_textbox_draw_def Let_def
    by (intro drawn_in_bind [OF line]) (auto intro: drawn_in_refl)
qed

lemma checkbox_inside:
  assumes ok: "win_ok w" "r_y r + r_h r \<le> r_h (win_rect w)" and fits: "widget_fits (Checkbox l c f) r"
  shows "drawn_in r w (gui_checkbox_draw r l c f w)"
proof -
  let ?bx = "rect_make (r_x r + 2) (r_y r + (r_h r - 13) sdiv 2) 13 13"
  define tick where "tick = (\<lambda>v :: 'a window. for_range 0 5 (\<lambda>i v. gui_draw_pixel (r_x ?bx + 5 + i) (r_y ?bx + 8 - i) GUI_TEXT (gui_draw_pixel (r_x ?bx + 5 + i) (r_y ?bx + 7 - i) GUI_TEXT v))
      (for_range 0 3 (\<lambda>i v. gui_draw_pixel (r_x ?bx + 2 + i) (r_y ?bx + 6 + i) GUI_TEXT (gui_draw_pixel (r_x ?bx + 2 + i) (r_y ?bx + 5 + i) GUI_TEXT v)) v))"
  define panel where "panel = (\<lambda>v :: 'a window. gui_draw_bevel ?bx False (gui_draw_fill ?bx GUI_WHITE v))"
  define w2 where "w2 = (if c then tick (panel w) else panel w)"
  define w3 where "w3 = (if f then dotted_rows (rect_inset r 1) w2 else w2)"
  have bx: "within ?bx r" using fits centred(1) [of "r_h r - 13"] by (auto simp: within_def)
  have "wc.confined (rect_contains r) tick" unfolding tick_def
    using bx by (intro wc.confined_comp [OF wc.confined_range wc.confined_range] wc.confined_pair) (auto simp: within_def rect_contains_def)
  moreover have "wc.confined (rect_contains r) panel" unfolding panel_def using bx by (intro confined_panel) auto
  moreover have "wc.confined (rect_contains r) (dotted_rows (rect_inset r 1))" using fits by (intro confined_dots) (auto simp: within_def)
  moreover have "win_rect (tick v) = win_rect v" "win_rect (panel v) = win_rect v" for v by (simp_all add: tick_def panel_def)
  ultimately have p: "win_ok v \<Longrightarrow> drawn_in r v (Some (tick v))" "win_ok v \<Longrightarrow> drawn_in r v (Some (panel v))"
    "win_ok v \<Longrightarrow> drawn_in r v (Some (dotted_rows (rect_inset r 1) v))" for v by (auto intro: drawn_in_plot)
  have d1: "drawn_in r w (Some (panel w))" using p(2) ok(1) .
  have d2: "drawn_in r w (Some w2)" unfolding w2_def using drawn_in_trans [OF d1 p(1)] drawn_in_SomeD [OF d1] d1 by simp
  have b: "drawn_in r w (Some w3)" unfolding w3_def using drawn_in_trans [OF d2 p(3)] drawn_in_SomeD [OF d2] d2 by simp
  have "drawn_in r w3 (gui_draw_text (r_x ?bx + 13 + 4) (r_y r + (r_h r - 16) sdiv 2) t GUI_TEXT GUI_BTN_FACE w3)" if "l = Some t" for t
    using that fits ok(2) drawn_in_SomeD [OF b] centred [of "r_h r - 16"] by (intro drawn_in_text) (auto simp: line_fits_def)
  then have "drawn_in r w (case l of None \<Rightarrow> Some w3 | Some t \<Rightarrow> gui_draw_text (r_x ?bx + 13 + 4) (r_y r + (r_h r - 16) sdiv 2) t GUI_TEXT GUI_BTN_FACE w3)"
    using b drawn_in_trans [OF b] by (cases l) auto
  then show ?thesis unfolding gui_checkbox_draw_def Let_def w3_def w2_def tick_def panel_def .
qed

lemma drawn_in_fold:
  assumes "drawn_in r w (Some v)" "\<And>i u. i \<in> set is \<Longrightarrow> win_ok u \<Longrightarrow> win_rect u = win_rect w \<Longrightarrow> drawn_in r u (f i u)"
  shows "drawn_in r w (fold (\<lambda>i ov. Option.bind ov (f i)) is (Some v))"
  using assms(2)
proof (induction "is" rule: rev_induct)
  case (snoc i "is")
  then have "drawn_in r w (fold (\<lambda>i ov. Option.bind ov (f i)) is (Some v))" by auto
  from drawn_in_bind [OF this, of "f i"] snoc.prems [of i] show ?case by simp
qed (use assms(1) in simp)

lemma listbox_inside:
  assumes ok: "win_ok w" "r_y r + r_h r \<le> r_h (win_rect w)" and fits: "widget_fits (Listbox ts n) r"
  shows "drawn_in r w (gui_listbox_draw r ts n w)"
  unfolding gui_listbox_draw_def Let_def
proof (rule drawn_in_fold, goal_cases)
  case 1
  have "wc.confined (rect_contains r) (\<lambda>v. gui_draw_bevel r False (gui_draw_fill r GUI_WHITE v))" using fits by (intro confined_panel) auto
  then show ?case using ok(1) by (intro drawn_in_plot) auto
next
  case (2 i v)
  let ?in = "rect_inset r 2" and ?ir = "rect_make (r_x r + 2) (r_y r + 2 + int i * 18) (r_w r - 4) 18"
  define bg where "bg = (if int i = n then GUI_MENU_HIGHLIGHT else GUI_WHITE)"
  define fg where "fg = (if int i = n then GUI_WHITE else GUI_TEXT)"
  show ?case
  proof (cases "int i < (r_h r - 4) sdiv 18")
    case True
    have "(0 :: int) \<le> r_h r - 4" using fits by simp
    then have "(r_h r - 4) sdiv 18 = (r_h r - 4) div 18" by (cases "r_h r - 4 = 0") (simp_all add: signed_divide_int_def)
    then have "(int i + 1) * 18 \<le> r_h r - 4" using True by presburger
    then have wi: "within ?ir r" by (simp add: within_def)
    have b: "drawn_in r v (Some (gui_draw_fill ?ir bg v))" using 2 wi by (intro drawn_in_plot confined_fill) auto
    have "drawn_in r (gui_draw_fill ?ir bg v) (gui_draw_text (r_x ?ir + 2) (r_y ?ir + 1) t fg bg (gui_draw_fill ?ir bg v))" if "ts ! i = Some t" for t
    proof -
      have "Some t \<in> set ts" using that 2(1) by (auto simp: in_set_conv_nth)
      then have "plain t" "6 + 8 * int (length t) \<le> r_w r" using fits by (auto simp: line_fits_def)
      then show ?thesis using wi drawn_in_SomeD [OF b] ok(2) 2 by (intro drawn_in_text) (auto simp: within_def)
    qed
    then show ?thesis using True b drawn_in_trans [OF b] by (auto simp: bg_def fg_def split: option.splits)
  qed (use 2 in \<open>auto intro: drawn_in_refl\<close>)
qed

lemma div_sum_le:
  fixes a b t :: int
  assumes "0 < t"
  shows "a div t + b div t \<le> (a + b) div t"
proof -
  have "(a div t + b div t) * t \<le> a + b" unfolding distrib_right
    using div_mult_mod_eq [of a t] div_mult_mod_eq [of b t] pos_mod_sign [OF assms, of a] pos_mod_sign [OF assms, of b] by linarith
  from zdiv_mono1 [OF this assms] show ?thesis using assms by simp
qed

lemma thumb_in_track:
  assumes "0 \<le> v" "0 \<le> k" "k + v \<le> t" "0 < t" "8 \<le> btn" "2 * btn \<le> len"
  shows "btn \<le> fst (thumb_span len btn t v k)" "8 \<le> snd (thumb_span len btn t v k)"
    "fst (thumb_span len btn t v k) + snd (thumb_span len btn t v k) \<le> len"
proof -
  let ?l = "len - btn * 2"
  have l: "0 \<le> ?l" using assms by simp
  have sd: "a sdiv t = a div t" if "0 \<le> a" for a using that assms(4) by (cases "a = 0") (simp_all add: signed_divide_int_def)
  have "?l * (k + v) \<le> ?l * t" using l assms(3) by (rule mult_left_mono [rotated])
  then have p: "0 \<le> ?l * v" "0 \<le> ?l * k" "?l * v + ?l * k \<le> ?l * t"
    using l assms(1,2) by (simp_all add: distrib_left)
  have "?l * k div t \<le> ?l" "?l * v div t + ?l * k div t \<le> ?l"
  proof -
    have "?l * v div t + ?l * k div t \<le> (?l * v + ?l * k) div t" using assms(4) by (rule div_sum_le)
    also have "\<dots> \<le> ?l * t div t" using p(3) assms(4) by (intro zdiv_mono1) auto
    finally show "?l * v div t + ?l * k div t \<le> ?l" using assms(4) by simp
    moreover have "0 \<le> ?l * v div t" using p(1) assms(4) by (simp add: pos_imp_zdiv_nonneg_iff)
    ultimately show "?l * k div t \<le> ?l" by simp
  qed
  moreover have "0 \<le> ?l * k div t" using p(2) assms(4) by (simp add: pos_imp_zdiv_nonneg_iff)
  ultimately show "btn \<le> fst (thumb_span len btn t v k)" "8 \<le> snd (thumb_span len btn t v k)"
    "fst (thumb_span len btn t v k) + snd (thumb_span len btn t v k) \<le> len"
    using p(1,2) assms(5) by (auto simp: thumb_span_def Let_def sd)
qed

lemma scrollbar_inside:
  assumes ok: "win_ok w" and fits: "widget_fits (Scrollbar t v k b) r"
  shows "drawn_in r w (Some (gui_scrollbar_draw r t v k b w))"
proof -
  define sz where "sz = (if b then r_w r else r_h r)"
  define up where "up = rect_make (r_x r) (r_y r) sz sz"
  define dn where "dn = (if b then rect_make (r_x r) (r_y r + r_h r - sz) sz sz else rect_make (r_x r + r_w r - sz) (r_y r) sz sz)"
  define th where "th = (let (pos, l) = thumb_span (if b then r_h r else r_w r) sz t v k in
     if b then rect_make (r_x r + 1) (r_y r + pos) (r_w r - 2) l else rect_make (r_x r + pos) (r_y r + 1) l (r_h r - 2))"
  let ?panel = "\<lambda>q (u :: 'a window). gui_draw_bevel q True (gui_draw_fill q GUI_BTN_FACE u)"
  let ?frame = "\<lambda>u :: 'a window. ?panel dn (?panel up (gui_draw_fill r GUI_LIGHT_GRAY u))"
  have q: "within up r" "within dn r" "2 < r_w up" "2 < r_h up" "2 < r_w dn" "2 < r_h dn" using fits by (auto simp: up_def dn_def sz_def within_def)
  have th: "within th r \<and> 2 < r_w th \<and> 2 < r_h th" if "0 < t"
    using fits that thumb_in_track [of v k t sz "if b then r_h r else r_w r"] by (auto simp: th_def sz_def within_def split_def Let_def)
  have f: "wc.confined (rect_contains r) ?frame"
    by (rule wc.confined_comp [OF wc.confined_comp [OF confined_fill [OF within_refl] confined_panel [OF q(1,3,4)]] confined_panel [OF q(2,5,6)]])
  have "wc.confined (rect_contains r) (\<lambda>u. if t > v \<and> t > 0 then ?panel th (?frame u) else ?frame u)"
    by (rule wc.confined_if) (use wc.confined_comp [OF f confined_panel] th f in auto)
  moreover have "gui_scrollbar_draw r t v k b w = (if t > v \<and> t > 0 then ?panel th (?frame w) else ?frame w)"
    unfolding gui_scrollbar_draw_def Let_def up_def dn_def th_def sz_def by (simp add: split_def)
  ultimately show ?thesis using ok drawn_in_plot [of r "\<lambda>u. if t > v \<and> t > 0 then ?panel th (?frame u) else ?frame u" w] by simp
qed

lemma titlebar_inside:
  assumes ok: "win_ok w" "r_y r + r_h r \<le> r_h (win_rect w)" and fits: "widget_fits (Titlebar t a) r"
  shows "drawn_in r w (gui_draw_titlebar r t a w)"
proof -
  define bg where "bg = (if a then GUI_TITLEBAR_ACTIVE else GUI_TITLEBAR_INACTIVE)"
  have b: "drawn_in r w (Some (gui_draw_fill r bg w))" using ok(1) by (intro drawn_in_plot confined_fill) auto
  have "drawn_in r (gui_draw_fill r bg w) (gui_draw_text (r_x r + 3) (r_y r + (r_h r - 16) sdiv 2) t GUI_WHITE bg (gui_draw_fill r bg w))"
    using fits ok(2) drawn_in_SomeD [OF b] centred [of "r_h r - 16"] by (intro drawn_in_text) (auto simp: line_fits_def)
  then show ?thesis unfolding gui_draw_titlebar_def Let_def using drawn_in_trans [OF b] by (simp add: bg_def)
qed

lemma menu_items_inside:
  assumes "win_ok w" "r_y r + r_h r \<le> r_h (win_rect w)" "16 \<le> r_h r" "r_x r \<le> cx" "cx + menu_width ts \<le> r_x r + r_w r" "\<forall>s. Some s \<in> set ts \<longrightarrow> plain s"
  shows "drawn_in r w (menu_items r ts i a cx w)"
  using assms
proof (induction ts arbitrary: i cx w)
  case (Cons o1 items)
  show ?case
  proof (cases o1)
    case None
    then show ?thesis using Cons by (auto simp: menu_width_def)
  next
    case (Some t)
    note prems = Cons.prems [unfolded Some]
    let ?ir = "rect_make cx (r_y r + 1) (int (length t) * 8 + 12) (r_h r - 2)" and ?ty = "r_y r + (r_h r - 16) sdiv 2"
    have mw: "menu_width (Some t # items) = int (length t) * 8 + 12 + menu_width items" "0 \<le> menu_width items"
      by (auto simp: menu_width_def intro!: sum_list_nonneg split: option.splits)
    have tx: "drawn_in r v (gui_draw_text (cx + 6) ?ty t c bg v)" if "win_ok v" "win_rect v = win_rect w" for v :: "'a window" and c bg
      using that prems mw centred [of "r_h r - 16"] by (intro drawn_in_text) auto
    have "within ?ir r" using prems mw by (simp add: within_def)
    then have b: "drawn_in r w (Some (gui_draw_fill ?ir GUI_MENU_HIGHLIGHT w))" using prems by (intro drawn_in_plot confined_fill) auto
    have "drawn_in r w (if i = a then gui_draw_text (cx + 6) ?ty t GUI_WHITE GUI_MENU_HIGHLIGHT (gui_draw_fill ?ir GUI_MENU_HIGHLIGHT w)
        else gui_draw_text (cx + 6) ?ty t GUI_TEXT GUI_BTN_FACE w)"
      using drawn_in_trans [OF b tx] drawn_in_SomeD [OF b] tx prems(1) by auto
    then show ?thesis unfolding Some menu_items.simps Let_def
    proof (rule drawn_in_bind)
      fix v :: "'a window"
      assume "win_ok v" "win_rect v = win_rect w"
      then show "drawn_in r v (menu_items r items (i + 1) a (cx + (int (length t) * 8 + 12)) v)"
        using prems mw by (intro Cons.IH) auto
    qed
  qed
qed (simp add: drawn_in_refl)

lemma menubar_inside:
  assumes ok: "win_ok w" "r_y r + r_h r \<le> r_h (win_rect w)" and fits: "widget_fits (Menubar ts a) r"
  shows "drawn_in r w (gui_menubar_draw r ts a w)"
proof -
  let ?line = "for_range (r_x r) (r_x r + r_w r) (\<lambda>x. gui_draw_pixel x (r_y r + r_h r - 1) GUI_BTN_SHADOW)"
  have "wc.confined (rect_contains r) ?line" using fits by (intro confined_row) (auto simp: rect_contains_def)
  from wc.confined_comp [OF confined_fill [OF within_refl] this] have b: "drawn_in r w (Some (?line (gui_draw_fill r GUI_BTN_FACE w)))"
    using ok(1) by (intro drawn_in_plot) auto
  show ?thesis unfolding gui_menubar_draw_def Let_def
    by (rule drawn_in_seq [OF b]) (use fits ok(2) in \<open>intro menu_items_inside; simp\<close>)
qed


definition blank_window :: "int \<Rightarrow> int \<Rightarrow> nat window" where
  "blank_window w h = \<lparr>win_id = 1, win_title = [], win_rect = rect_make 0 0 w h, win_flags = 0, back_buf = Some (replicate (nat (w * h)) GUI_BTN_FACE),
     draw_callback = None, event_callback = None\<rparr>"


section \<open>The bevel\<close>

text \<open>
  After a bevel is drawn, a visible pixel has the colour the border prescribes: on the outer and the inner ring the right and
  the left column are drawn over the bottom and the top row, light at the top left and dark at the bottom right for a
  raised border, the other way round for a sunken one; all other pixels are as before.
\<close>

theorem bevel_drawn:
  assumes "win_ok w" "in_window w x y" "2 < r_w r" "2 < r_h r"
  shows "pixel (gui_draw_bevel r raised w) x y =
    (let x0 = r_x r; x1 = r_x r + r_w r - 1; y0 = r_y r; y1 = r_y r + r_h r - 1;
         light = (if raised then GUI_WHITE else GUI_BTN_DARK_SHADOW); dark = (if raised then GUI_BTN_DARK_SHADOW else GUI_WHITE);
         light2 = (if raised then GUI_GRAY else GUI_DARK_GRAY); dark2 = (if raised then GUI_DARK_GRAY else GUI_GRAY)
     in if x < x0 \<or> x1 < x \<or> y < y0 \<or> y1 < y then pixel w x y
        else if x = x1 then dark else if x = x0 then light else if y = y1 then dark else if y = y0 then light
        else if x = x1 - 1 then dark2 else if x = x0 + 1 then light2 else if y = y1 - 1 then dark2 else if y = y0 + 1 then light2
        else pixel w x y)"
  using wc.paintsD(3) [OF paints_bevel [OF assms(3,4), of raised] assms(1,2)] assms(3,4)
  by (auto simp: bevel_pic_def edge_pic_def over_apply rect_contains_def Let_def GUI_BTN_HIGHLIGHT_def GUI_BTN_FACE_def GUI_BTN_SHADOW_def)

theorem bevel_drawn_witness: "pixel (gui_draw_bevel (rect_make 2 2 10 10) True (blank_window 20 20)) 11 2 = GUI_BTN_DARK_SHADOW"
proof -
  have "win_ok (blank_window 20 20)" "in_window (blank_window 20 20) 11 2" by (simp_all add: win_ok_def in_window_def blank_window_def)
  then show ?thesis by (subst bevel_drawn) simp_all
qed

end
