(* ===== verification/Gui_Screen.thy ===== *)
theory Gui_Screen
  imports Gui
begin

text \<open>
  The widget library as a whole: the array of windows refines a list from bottom to top, and a redraw shows, at each pixel of the screen,
  the topmost window that covers it. The screen is a second canvas of the contract in \<open>Raster\<close>. The last section states what the
  library does not do: destroying a window disturbs the order, text shows no characters, a menu bar is hit where it is not drawn, and
  the event loop never ends.
\<close>

section \<open>The window list\<close>

definition stack_is :: "'cb gui \<Rightarrow> nat list \<Rightarrow> bool" where
  "stack_is g ps \<longleftrightarrow> win_count g = length ps \<and> length ps \<le> MAX_WINDOWS \<and> distinct ps \<and> (\<forall>i < length ps. windows g i = Some (ps ! i))
     \<and> (\<forall>i \<ge> length ps. windows g i = None)"

fun index_of :: "nat \<Rightarrow> nat list \<Rightarrow> nat" where
  "index_of p [] = 0"
| "index_of p (q # qs) = (if q = p then 0 else Suc (index_of p qs))"

lemma index_of_nth: "p \<in> set ps \<Longrightarrow> index_of p ps < length ps \<and> ps ! index_of p ps = p"
  by (induction ps) auto

lemma find_window_stack: "stack_is g ps \<Longrightarrow> find_window p g = (if p \<in> set ps then Some (index_of p ps) else None)"
proof -
  assume s: "stack_is g ps"
  show ?thesis
  proof (cases "p \<in> set ps")
    case True
    note i = index_of_nth [OF True]
    have "find_window p g = Some (index_of p ps)" unfolding find_window_def find_Some_iff
      using s i by (intro exI [of _ "index_of p ps"]) (auto simp: stack_is_def nth_eq_iff_index_eq)
    then show ?thesis using True by simp
  next
    case False
    then have "find_window p g = None" using s by (auto simp: find_window_def find_None_iff stack_is_def in_set_conv_nth)
    then show ?thesis using False by simp
  qed
qed

text \<open>The shift of the entries above a window.\<close>

lemma shift_down: "i \<le> n \<Longrightarrow> fold (\<lambda>j t. t(j := t (j + 1))) [i ..< n] t = (\<lambda>j. if i \<le> j \<and> j < n then t (j + 1) else t j)"
proof (induction n)
  case (Suc n)
  then show ?case by (cases "i = Suc n") (auto simp: fun_eq_iff less_Suc_eq)
qed (auto simp: fun_eq_iff)

lemma remove1_nth:
  "distinct ps \<Longrightarrow> p \<in> set ps \<Longrightarrow> j < length ps - 1 \<Longrightarrow> remove1 p ps ! j = (if j < index_of p ps then ps ! j else ps ! (j + 1))"
proof (induction ps arbitrary: j)
  case (Cons q qs)
  then show ?case by (cases j) auto
qed simp

lemma raise_stack:
  assumes s: "stack_is g ps" and p: "p \<in> set ps"
  shows "stack_is (gui_raise_window p g) (remove1 p ps @ [p])"
proof -
  note i = index_of_nth [OF p]
  have len: "length (remove1 p ps @ [p]) = length ps" using p by (simp add: length_remove1) (cases ps; simp)
  have f: "find_window p g = Some (index_of p ps)" using find_window_stack [OF s, of p] p by simp
  have "windows (gui_raise_window p g) = (fold (\<lambda>j t. t(j := t (j + 1))) [index_of p ps ..< length ps - 1] (windows g))(length ps - 1 := Some p)"
    using s by (simp add: gui_raise_window_def f stack_is_def)
  also have "fold (\<lambda>j t. t(j := t (j + 1))) [index_of p ps ..< length ps - 1] (windows g) = (\<lambda>j. if index_of p ps \<le> j \<and> j < length ps - 1 then windows g (j + 1) else windows g j)"
    using i by (intro shift_down) linarith
  finally have w: "windows (gui_raise_window p g) = (\<lambda>j. if j = length ps - 1 then Some p else if index_of p ps \<le> j \<and> j < length ps - 1 then windows g (j + 1) else windows g j)"
    by (simp add: fun_eq_iff)
  have "windows (gui_raise_window p g) j = Some ((remove1 p ps @ [p]) ! j)" if "j < length ps" for j
    using that s p remove1_nth [of ps p j] i by (auto simp: w stack_is_def nth_append length_remove1)
  moreover have "win_count (gui_raise_window p g) = win_count g" by (simp add: gui_raise_window_def f)
  moreover have "windows (gui_raise_window p g) j = None" if "length ps \<le> j" for j using that s i by (auto simp: w stack_is_def)
  ultimately show ?thesis using s len by (simp add: stack_is_def)
qed

lemma destroy_stack:
  assumes s: "stack_is g ps" and p: "p \<in> set ps"
  shows "stack_is (gui_destroy_window p g) (butlast (ps[index_of p ps := last ps]))"
proof -
  note i = index_of_nth [OF p]
  have f: "find_window p g = Some (index_of p ps)" using find_window_stack [OF s, of p] p by simp
  have ne: "ps \<noteq> []" using p by auto
  have l: "last ps = ps ! (length ps - 1)" using ne by (rule last_conv_nth)
  have d: "distinct (butlast (ps[index_of p ps := last ps]))"
  proof (cases "index_of p ps = length ps - 1")
    case True
    then show ?thesis using s l by (simp add: stack_is_def distinct_butlast)
  next
    case False
    have "distinct ps" using s by (simp add: stack_is_def)
    then show ?thesis using i False l ne
      by (auto simp: distinct_conv_nth nth_butlast nth_list_update)
  qed
  have "windows (gui_destroy_window p g) j = Some (butlast (ps[index_of p ps := last ps]) ! j)" if "j < length ps - 1" for j
    using that s i l by (auto simp: gui_destroy_window_def f stack_is_def nth_butlast nth_list_update)
  moreover have "windows (gui_destroy_window p g) j = None" if "length ps - 1 \<le> j" for j
    using that s i by (auto simp: gui_destroy_window_def f stack_is_def)
  ultimately show ?thesis using s d by (auto simp: stack_is_def) (simp add: gui_destroy_window_def f)
qed

text \<open>
  C33: The array of windows with its counter is a list from bottom to top, without repetition and of at most 64 windows: creating a window puts
  it on top, unless the list is full or memory is short; raising moves it to the top and keeps the order of the others; destroying
  removes it, but puts the topmost window into its place.
\<close>

theorem window_list_refined:
  assumes "stack_is g ps"
  shows "(case gui_create_window cw cb title x y w h flags g of
      (None, g') \<Rightarrow> (length ps = MAX_WINDOWS \<or> cw = None \<or> \<not> cb \<or> w * h < 0) \<and> stack_is g' ps
    | (Some q, g') \<Rightarrow> cw = Some q \<and> (q \<notin> set ps \<longrightarrow> stack_is g' (ps @ [q])) \<and> win_id (win_at g' q) = next_win_id g)
    \<and> (p \<in> set ps \<longrightarrow> stack_is (gui_raise_window p g) (remove1 p ps @ [p]) \<and> stack_is (gui_destroy_window p g) (butlast (ps[index_of p ps := last ps])))
    \<and> (p \<notin> set ps \<longrightarrow> gui_raise_window p g = g \<and> gui_destroy_window p g = g)"
proof -
  have "case gui_create_window cw cb title x y w h flags g of
      (None, g') \<Rightarrow> (length ps = MAX_WINDOWS \<or> cw = None \<or> \<not> cb \<or> w * h < 0) \<and> stack_is g' ps
    | (Some q, g') \<Rightarrow> cw = Some q \<and> (q \<notin> set ps \<longrightarrow> stack_is g' (ps @ [q])) \<and> win_id (win_at g' q) = next_win_id g"
    using assms by (cases cw) (auto simp: gui_create_window_def stack_is_def Let_def nth_append)
  moreover have "gui_raise_window p g = g \<and> gui_destroy_window p g = g" if "p \<notin> set ps"
    using that find_window_stack [OF assms, of p] by (simp add: gui_raise_window_def gui_destroy_window_def)
  ultimately show ?thesis using raise_stack [OF assms] destroy_stack [OF assms] by blast
qed

definition gui_empty :: "nat gui" where
  "gui_empty = \<lparr>framebuffer = None, fb_width = 0, fb_height = 0, fb_pitch = 0, windows = (\<lambda>_. None), win_count = 0, next_win_id = 1, running = False,
     win_at = (\<lambda>_. blank_window 0 0)\<rparr>"

definition three_windows :: "nat gui" where
  "three_windows = gui_empty\<lparr>windows := (\<lambda>_. None)(0 := Some 10, 1 := Some 20, 2 := Some 30), win_count := 3\<rparr>"

lemma three_windows_stack: "stack_is three_windows [10, 20, 30]"
  by (auto simp: stack_is_def three_windows_def kconst nth_Cons' less_Suc_eq numeral_eq_Suc)

theorem window_list_refined_witness:
  "stack_is (gui_raise_window 20 three_windows) [10, 30, 20] \<and> stack_is (gui_destroy_window 10 three_windows) [30, 20]"
  using window_list_refined [OF three_windows_stack, where p = 20]
    window_list_refined [OF three_windows_stack, where p = 10] by simp

section \<open>The screen\<close>

definition fb_ok :: "'cb gui \<Rightarrow> bool" where
  "fb_ok g \<longleftrightarrow> framebuffer g \<noteq> None \<and> uint (fb_width g) \<le> uint (fb_pitch g div 4) \<and> uint (fb_pitch g div 4) * uint (fb_height g) \<le> 2 ^ 32"

definition on_screen :: "'cb gui \<Rightarrow> int \<Rightarrow> int \<Rightarrow> bool" where
  "on_screen g x y \<longleftrightarrow> 0 \<le> x \<and> x < uint (fb_width g) \<and> 0 \<le> y \<and> y < uint (fb_height g)"

definition screen_pixel :: "'cb gui \<Rightarrow> int \<Rightarrow> int \<Rightarrow> u32" where
  "screen_pixel g x y = the (framebuffer g) (fb_index x y g)"

definition fb_put :: "int \<Rightarrow> int \<Rightarrow> u32 \<Rightarrow> 'cb gui \<Rightarrow> 'cb gui" where
  "fb_put x y c g = (if on_screen g x y then fb_store x y c g else g)"

lemma fb_store_dims [simp]: "fb_width (fb_store x y c g) = fb_width g" "fb_height (fb_store x y c g) = fb_height g"
  "fb_pitch (fb_store x y c g) = fb_pitch g" "windows (fb_store x y c g) = windows g" "win_count (fb_store x y c g) = win_count g"
  "win_at (fb_store x y c g) = win_at g" "running (fb_store x y c g) = running g"
  by (simp_all add: fb_store_def)

lemma fb_index_nat: "fb_ok g \<Longrightarrow> on_screen g x y \<Longrightarrow> fb_index x y g = nat (y * uint (fb_pitch g div 4) + x)"
  using cell_word [of x "uint (fb_pitch g div 4)" y "uint (fb_height g)"] by (auto simp: fb_index_def fb_ok_def on_screen_def)

interpretation sc: canvas fb_ok on_screen screen_pixel fb_put
proof
  fix g :: "'cb gui" and x y c
  assume ok: "fb_ok g"
  then show "fb_ok (fb_put x y c g)" by (auto simp: fb_ok_def fb_put_def) (simp add: fb_store_def)
  show "on_screen (fb_put x y c g) = on_screen g" by (simp add: on_screen_def fb_put_def fun_eq_iff)
next
  fix g :: "'cb gui" and x y x' y' c
  assume ok: "fb_ok g" and v: "on_screen g x y"
  let ?s = "uint (fb_pitch g div 4)"
  have "fb_index x y g = fb_index x' y' g \<longleftrightarrow> x' = x \<and> y' = y" if "on_screen g x' y'"
    using fb_index_nat [OF ok v] fb_index_nat [OF ok that] cell_inj [of x ?s x' y y'] cell_bounds [of x ?s y "uint (fb_height g)"]
      cell_bounds [of x' ?s y' "uint (fb_height g)"] ok v that by (auto simp: fb_ok_def on_screen_def nat_eq_iff)
  then show "screen_pixel (fb_put x' y' c g) x y = (if x' = x \<and> y' = y then c else screen_pixel g x y)"
    using ok v by (auto simp: screen_pixel_def fb_put_def fb_ok_def) (auto simp: fb_store_def fb_index_def)
qed

definition same_dims :: "'cb gui \<Rightarrow> 'cb gui \<Rightarrow> bool" where
  "same_dims g h \<longleftrightarrow> fb_width h = fb_width g \<and> fb_height h = fb_height g"

lemma present_as_puts:
  assumes "back_buf w = Some b" "framebuffer g \<noteq> None"
  shows "present_window w g = for_range 0 (r_h (win_rect w)) (\<lambda>row. for_range 0 (r_w (win_rect w)) (\<lambda>col.
     fb_put (r_x (win_rect w) + col) (r_y (win_rect w) + row) (pixel w col row))) g"
proof -
  define R where "R s t \<longleftrightarrow> s = t \<and> same_dims g t" for s t :: "'a gui"
  let ?W = "r_w (win_rect w)" and ?X = "r_x (win_rect w)" and ?Y = "r_y (win_rect w)"
  have "R (for_range 0 (r_h (win_rect w)) (\<lambda>row s. let dst_y = ?Y + row in if dst_y < 0 \<or> dst_y \<ge> uint (fb_height g) then s
        else for_range 0 ?W (\<lambda>col t. let dst_x = ?X + col in if dst_x < 0 \<or> dst_x \<ge> uint (fb_width g) then t
          else fb_store dst_x dst_y (b ! nat (row * ?W + col)) t) s) g)
      (for_range 0 (r_h (win_rect w)) (\<lambda>row. for_range 0 ?W (\<lambda>col. fb_put (?X + col) (?Y + row) (pixel w col row))) g)"
    unfolding Let_def for_range_guard
    by (rule for_range_sim [where R = R], rule for_range_sim [where R = R])
      (use assms(1) in \<open>auto simp: R_def same_dims_def fb_put_def on_screen_def pixel_def\<close>)
  then show ?thesis using assms by (auto simp: R_def present_window_def Let_def split: option.splits)
qed

lemma paints_present: "win_ok w \<Longrightarrow> sc.paints (present_window w) (win_pic w)"
proof -
  assume "win_ok w"
  then obtain b where b: "back_buf w = Some b" by (auto simp: win_ok_def)
  let ?f = "for_range 0 (r_h (win_rect w)) (\<lambda>row. for_range 0 (r_w (win_rect w)) (\<lambda>col.
     fb_put (r_x (win_rect w) + col) (r_y (win_rect w) + row) (pixel w col row)))"
  have "sc.paints ?f (win_pic w)"
    using sc.paints_cells_at [of "r_h (win_rect w)" "r_w (win_rect w)" "r_x (win_rect w)" "r_y (win_rect w)" "pixel w"]
    by (simp add: win_pic_def in_window_def algebra_simps)
  then show ?thesis using present_as_puts [OF b] by (auto simp: sc.paints_def fb_ok_def)
qed

lemma present_frame [simp]:
  "windows (present_window w g) = windows g" "win_count (present_window w g) = win_count g" "win_at (present_window w g) = win_at g"
  "running (present_window w g) = running g"
  unfolding present_window_def Let_def by (simp_all add: for_range_inv split: option.splits)

lemma clear_frame [simp]:
  "windows (clear_desktop g) = windows g" "win_count (clear_desktop g) = win_count g" "win_at (clear_desktop g) = win_at g"
  "running (clear_desktop g) = running g"
  unfolding clear_desktop_def by (simp_all add: for_range_inv)

lemma paints_clear: "fb_ok g \<Longrightarrow> fb_ok (clear_desktop g) \<and> on_screen (clear_desktop g) = on_screen g
    \<and> (on_screen g x y \<longrightarrow> screen_pixel (clear_desktop g) x y = GUI_DESKTOP)"
proof -
  assume ok: "fb_ok g"
  let ?H = "uint (fb_height g)" and ?W = "uint (fb_width g)"
  define R where "R s t \<longleftrightarrow> s = t \<and> same_dims g t" for s t :: "'a gui"
  have "R (for_range 0 ?H (\<lambda>y. for_range 0 ?W (\<lambda>x. fb_store x y GUI_DESKTOP)) g) (for_range 0 ?H (\<lambda>y. for_range 0 ?W (\<lambda>x. fb_put x y GUI_DESKTOP)) g)"
    by (rule for_range_sim [where R = R], rule for_range_sim [where R = R])
      (auto simp: R_def same_dims_def fb_put_def on_screen_def)
  then have "clear_desktop g = for_range 0 ?H (\<lambda>y. for_range 0 ?W (\<lambda>x. fb_put x y GUI_DESKTOP)) g"
    using ok by (auto simp: clear_desktop_def R_def fb_ok_def)
  then show ?thesis using sc.paintsD [OF sc.paints_box [of 0 ?H 0 ?W GUI_DESKTOP] ok] by (auto simp: box_def on_screen_def)
qed

text \<open>Stores of windows by address do not show on the screen.\<close>

lemma present_win_at: "present_window w (g\<lparr>win_at := f\<rparr>) = (present_window w g)\<lparr>win_at := f\<rparr>"
proof -
  have st: "fb_store x y c (h\<lparr>win_at := f\<rparr>) = (fb_store x y c h)\<lparr>win_at := f\<rparr>" for x y c and h :: "'a gui"
    by (simp add: fb_store_def fb_index_def)
  have cm: "(if p then h else for_range a b F h)\<lparr>win_at := f\<rparr> = (if p then h\<lparr>win_at := f\<rparr> else for_range a b F (h\<lparr>win_at := f\<rparr>))"
    if "\<And>i s. (F i s)\<lparr>win_at := f\<rparr> = F i (s\<lparr>win_at := f\<rparr>)" for p a b F and h :: "'a gui"
    using for_range_commute [of "\<lambda>s. s\<lparr>win_at := f\<rparr>" F] that by simp
  show ?thesis
  proof (cases "back_buf w = None \<or> framebuffer g = None")
    case False
    then show ?thesis unfolding present_window_def Let_def
      by (auto simp: st intro!: for_range_commute [of "\<lambda>s. s\<lparr>win_at := f\<rparr>", symmetric] cm cong: if_cong)
  qed (auto simp: present_window_def split: option.splits)
qed

lemma redraw_windows:
  assumes "\<forall>p \<in> set ps. draw_window call (win_at g p) = Some (d (win_at g p))" "distinct ps" "\<forall>i < length ps. windows g i = Some (ps ! i)"
    "h = g\<lparr>framebuffer := fbm\<rparr>" "n \<le> length ps"
  shows "\<exists>f. fold (\<lambda>i og. do { h \<leftarrow> og; p \<leftarrow> windows h i; gui_redraw_window call p h }) [0 ..< n] (Some h)
     = Some ((fold (\<lambda>p h. present_window (d (win_at g p)) h) (take n ps) h)\<lparr>win_at := f\<rparr>) \<and> (\<forall>p. p \<notin> set (take n ps) \<longrightarrow> f p = win_at g p)"
  using assms(5)
proof (induction n)
  case 0
  have "h = h\<lparr>win_at := win_at g\<rparr>" using assms(4) by simp
  then show ?case by (intro exI [of _ "win_at g"]) simp
next
  case (Suc n)
  let ?F = "fold (\<lambda>p h. present_window (d (win_at g p)) h) (take n ps) h"
  obtain f where f: "fold (\<lambda>i og. do { h \<leftarrow> og; p \<leftarrow> windows h i; gui_redraw_window call p h }) [0 ..< n] (Some h) = Some (?F\<lparr>win_at := f\<rparr>)"
    "\<forall>p. p \<notin> set (take n ps) \<longrightarrow> f p = win_at g p" using Suc by auto
  have t: "take (Suc n) ps = take n ps @ [ps ! n]" using Suc.prems by (simp add: take_Suc_conv_app_nth)
  have nin: "ps ! n \<notin> set (take n ps)" using assms(2) Suc.prems t by (metis distinct_take not_distinct_conv_prefix)
  have wF: "windows (fold (\<lambda>p h. present_window (d (win_at g p)) h) qs h) = windows g" for qs
    using assms(4) by (induction qs rule: rev_induct) simp_all
  have call: "draw_window call (f (ps ! n)) = Some (d (win_at g (ps ! n)))" using f(2) nin assms(1) Suc.prems by simp
  let ?q = "ps ! n" and ?f = "f(ps ! n := d (win_at g (ps ! n)))"
  have "gui_redraw_window call ?q (?F\<lparr>win_at := f\<rparr>) = Some ((present_window (d (win_at g ?q)) ?F)\<lparr>win_at := ?f\<rparr>)"
    unfolding gui_redraw_window_def using call by (simp add: present_win_at cong: if_cong)
  moreover have "windows (?F\<lparr>win_at := f\<rparr>) n = Some ?q" using wF assms(3) Suc.prems by simp
  ultimately have "fold (\<lambda>i og. do { h \<leftarrow> og; p \<leftarrow> windows h i; gui_redraw_window call p h }) [0 ..< Suc n] (Some h)
      = Some ((fold (\<lambda>p h. present_window (d (win_at g p)) h) (take (Suc n) ps) h)\<lparr>win_at := ?f\<rparr>)" using f(1) unfolding t by simp
  moreover have "\<forall>p. p \<notin> set (take (Suc n) ps) \<longrightarrow> ?f p = win_at g p" using f(2) unfolding t by simp
  ultimately show ?case by blast
qed

text \<open>
  C32: A redraw of the screen is the painter's algorithm: if the framebuffer is large enough for its geometry and each window's draw callback returns a
  window with a full back buffer, then the redraw ends, and every pixel of the screen shows the topmost of the windows that cover it, at
  the window's own coordinates, or the desktop colour where there is none.
\<close>

theorem redraw_shows_topmost:
  assumes "stack_is g ps" "fb_ok g" "\<forall>p \<in> set ps. \<exists>w. draw_window call (win_at g p) = Some w \<and> win_ok w"
  shows "\<exists>g'. gui_redraw_all call g = Some g' \<and> (\<forall>x y. on_screen g x y \<longrightarrow> screen_pixel g' x y =
    (case List.find (\<lambda>p. win_pic (the (draw_window call (win_at g p))) x y \<noteq> None) (rev ps) of
       None \<Rightarrow> GUI_DESKTOP | Some p \<Rightarrow> the (win_pic (the (draw_window call (win_at g p))) x y)))"
proof -
  define d where "d = (\<lambda>w. the (draw_window call w))"
  let ?c = "clear_desktop g" and ?F = "fold (\<lambda>p h. present_window (d (win_at g p)) h) ps (clear_desktop g)"
  have st: "win_count g = length ps" "distinct ps" "\<forall>i < length ps. windows g i = Some (ps ! i)" using assms(1) by (auto simp: stack_is_def)
  have dr: "\<forall>p \<in> set ps. draw_window call (win_at g p) = Some (d (win_at g p))" using assms(3) by (auto simp: d_def)
  have c: "?c = g\<lparr>framebuffer := framebuffer ?c\<rparr>"
    unfolding clear_desktop_def by (auto intro!: gui.equality simp: for_range_inv) (simp_all add: for_range_inv fb_store_def)
  obtain f where f: "gui_redraw_all call g = Some (?F\<lparr>win_at := f\<rparr>)"
    using redraw_windows [OF dr st(2,3) c order_refl] st(1) unfolding gui_redraw_all_def by auto
  have "screen_pixel (?F\<lparr>win_at := f\<rparr>) x y = screen_pixel ?F x y" for x y by (simp add: screen_pixel_def fb_index_def)
  moreover have "screen_pixel ?F x y = (case List.find (\<lambda>p. win_pic (d (win_at g p)) x y \<noteq> None) (rev ps) of
       None \<Rightarrow> GUI_DESKTOP | Some p \<Rightarrow> the (win_pic (d (win_at g p)) x y))" if "on_screen g x y" for x y
  proof -
    have "\<And>p. p \<in> set ps \<Longrightarrow> sc.paints (present_window (d (win_at g p))) (win_pic (d (win_at g p)))"
      using assms(3) by (intro paints_present) (auto simp: d_def)
    from sc.paints_topmost [of ps "\<lambda>p. present_window (d (win_at g p))" "\<lambda>p. win_pic (d (win_at g p))", OF this] show ?thesis
      using paints_clear [OF assms(2), of x y] that by (simp del: not_None_eq cong: option.case_cong)
  qed
  ultimately show ?thesis unfolding f by (intro exI [of _ "?F\<lparr>win_at := f\<rparr>"]) (simp add: d_def cong: option.case_cong)
qed

text \<open>Two overlapping windows on a screen of 4 by 2 pixels, the second one on top at the second column.\<close>

definition two_windows :: "nat gui" where
  "two_windows = gui_empty\<lparr>framebuffer := Some (\<lambda>_. 0), fb_width := 4, fb_height := 2, fb_pitch := 16,
     windows := (\<lambda>_. None)(0 := Some 10, 1 := Some 20), win_count := 2,
     win_at := (\<lambda>p. if p = 10 then (blank_window 2 1)\<lparr>back_buf := Some [1, 2]\<rparr>
       else (blank_window 2 1)\<lparr>win_rect := rect_make 1 0 2 1, back_buf := Some [3, 4]\<rparr>)\<rparr>"

theorem redraw_shows_topmost_witness:
  "\<exists>g'. gui_redraw_all (\<lambda>_. Some) two_windows = Some g' \<and> map (\<lambda>x. screen_pixel g' x 0) [0, 1, 2, 3] = [1, 3, 4, GUI_DESKTOP]"
proof -
  have "stack_is two_windows [10, 20]" by (auto simp: stack_is_def two_windows_def kconst nth_Cons' less_Suc_eq numeral_eq_Suc)
  moreover have "fb_ok two_windows" by (simp add: fb_ok_def two_windows_def)
  moreover have dr: "draw_window (\<lambda>_. Some) (win_at two_windows p) = Some (win_at two_windows p)" for p
    by (simp add: draw_window_def split: option.splits)
  moreover have "win_ok (win_at two_windows p)" for p by (simp add: two_windows_def win_ok_def blank_window_def)
  ultimately obtain g' where g': "gui_redraw_all (\<lambda>_. Some) two_windows = Some g'"
    "\<forall>x y. on_screen two_windows x y \<longrightarrow> screen_pixel g' x y =
       (case List.find (\<lambda>p. win_pic (the (draw_window (\<lambda>_. Some) (win_at two_windows p))) x y \<noteq> None) (rev [10, 20]) of
          None \<Rightarrow> GUI_DESKTOP | Some p \<Rightarrow> the (win_pic (the (draw_window (\<lambda>_. Some) (win_at two_windows p))) x y))"
    using redraw_shows_topmost [of two_windows "[10, 20]" "\<lambda>_. Some"] by auto
  have "on_screen two_windows x 0" if "x \<in> {0, 1, 2, 3}" for x using that by (auto simp: on_screen_def two_windows_def)
  then have px: "screen_pixel g' x 0 = (case List.find (\<lambda>p. win_pic (win_at two_windows p) x 0 \<noteq> None) [20, 10] of
      None \<Rightarrow> GUI_DESKTOP | Some p \<Rightarrow> the (win_pic (win_at two_windows p) x 0))" if "x \<in> {0, 1, 2, 3}" for x
    using g'(2) that by (simp add: dr)
  have "win_pic (win_at two_windows 10) 0 0 = Some 1" "win_pic (win_at two_windows 10) 3 0 = None"
    "win_pic (win_at two_windows 20) 0 0 = None" "win_pic (win_at two_windows 20) 1 0 = Some 3" "win_pic (win_at two_windows 20) 2 0 = Some 4"
    "win_pic (win_at two_windows 20) 3 0 = None"
    by (simp_all add: win_pic_def in_window_def pixel_def two_windows_def blank_window_def)
  then have "map (\<lambda>x. screen_pixel g' x 0) [0, 1, 2, 3] = [1, 3, 4, GUI_DESKTOP]" using px [of 0] px [of 1] px [of 2] px [of 3] by simp
  then show ?thesis using g'(1) by (intro exI [of _ g'] conjI)
qed

section \<open>What the library does not do\<close>

text \<open>Destroying a window brings the topmost window down into its place.\<close>

theorem destroy_disturbs_order: "stack_is (gui_destroy_window 10 three_windows) [30, 20]"
  using destroy_stack [OF three_windows_stack, of 10] by simp

text \<open>Text within 16 pixels of the lower edge is stored beyond the back buffer.\<close>

theorem text_overruns_buffer: "gui_draw_text 0 0 ''A'' c bg (blank_window 8 8) = None"
  by (simp add: gui_draw_text_def draw_char_to_buf_def for_range_def upto.simps blank_window_def)

text \<open>Text shows no characters: neither its letters nor its colour matter.\<close>

theorem text_shows_nothing:
  assumes "length s = length t" "plain s" "plain t"
  shows "gui_draw_text x y s c bg w = gui_draw_text x y t c' bg w"
proof -
  have ch: "draw_char_to_buf bw cx cy a c bg buf = draw_char_to_buf bw cx cy b c' bg buf" for bw cx cy a b buf
    unfolding draw_char_to_buf_def by (rule refl)
  have "draw_text_from x cx y s c bg w = draw_text_from x cx y t c' bg w" for cx w
    using assms
  proof (induction s t arbitrary: cx w rule: list_induct2)
    case (Cons a as b bs)
    then show ?case using ch [of _ cx y a _ b] by simp
  qed simp
  then show ?thesis by (simp add: gui_draw_text_def)
qed

text \<open>The second of two menu items of one letter is drawn from column 22 on, but found from column 62 on.\<close>

theorem menu_hit_elsewhere: "gui_menubar_hit (rect_make 0 0 200 20) 2 30 10 = 0 \<and> r_x (rect_make 0 0 200 20) + 2 + (int (length ''F'') * 8 + 12) \<le> 30"
  by (simp add: gui_menubar_hit_def rect_contains_def numeral_eq_Suc)

text \<open>No event is ever delivered, and the event loop does not end while nobody else stops it.\<close>

lemma redraw_running: "gui_redraw_all call g = Some g' \<Longrightarrow> running g' = running g"
proof -
  let ?step = "\<lambda>i og. do { h \<leftarrow> og; p \<leftarrow> windows h i; gui_redraw_window call p h }"
  assume "gui_redraw_all call g = Some g'"
  moreover have "fold ?step is og = Some g' \<Longrightarrow> \<exists>h. og = Some h \<and> running g' = running h" for "is" og
  proof (induction "is" arbitrary: og)
    case (Cons i "is")
    then obtain h where h: "?step i og = Some h" "running g' = running h" by force
    then show ?case by (auto simp: gui_redraw_window_def split: bind_splits)
  qed auto
  ultimately show ?thesis unfolding gui_redraw_all_def by fastforce
qed

theorem event_loop_never_ends: "running g \<Longrightarrow> gui_run n call deliver e g = None"
proof (induction n arbitrary: e g)
  case (Suc n)
  have "run_events (Suc n) deliver e g1 = (e\<lparr>ev_type := EVT_NONE\<rparr>, g1)" for g1 by (simp add: gui_poll_event_def)
  then show ?case using Suc redraw_running [of call g] by (auto split: bind_splits)
qed simp

end
