(* ===== verification/Compositor.thy ===== *)
theory Compositor
  imports Gui
begin

text \<open>
  The two programs that put windows on the screen: the compositor with its back buffer and list of dirty rectangles,
  \<^verbatim>\<open>src/desktop/wm/compositor.c\<close>, and the window manager that draws frames, contents and the mouse pointer straight into the framebuffer,
  \<^verbatim>\<open>src/desktop/wm/main.c\<close>. Both buffers are canvases; what a frame shows is computed with the calculus of pictures.
  Coordinates are integers in the range of \<^verbatim>\<open>s32\<close>; sums of them that leave it are undefined in C and left out.
  Indices into the buffers are computed with 32 bits, as in the code. The opening of the framebuffer device is not modelled: its
  geometry and memory are the initial state.
\<close>

section \<open>Compositor\<close>

definition MAX_DIRTY :: nat where [kconst]: "MAX_DIRTY = 64"

record comp =
  comp_back :: "(nat \<Rightarrow> u32) option"
  front_buf :: "(nat \<Rightarrow> u32) option"
  comp_w :: u32
  comp_h :: u32
  comp_pitch :: u32
  dirty_rects :: "rect list"

text \<open>\<open>buf\<close> is whether the allocation of the back buffer succeeds.\<close>

definition comp_init :: "bool \<Rightarrow> (nat \<Rightarrow> u32) option \<Rightarrow> u32 \<Rightarrow> u32 \<Rightarrow> u32 \<Rightarrow> comp \<Rightarrow> int \<times> comp" where
  "comp_init buf fb width height pitch s =
     (let s1 = s\<lparr>front_buf := fb, comp_w := width, comp_h := height, comp_pitch := pitch, comp_back := (if buf then Some (\<lambda>_. 0) else None)\<rparr>
      in (if buf then 0 else -1, s1))"

definition comp_mark_dirty :: "int \<Rightarrow> int \<Rightarrow> int \<Rightarrow> int \<Rightarrow> comp \<Rightarrow> comp" where
  "comp_mark_dirty x y w h s = (if length (dirty_rects s) \<ge> MAX_DIRTY then s else s\<lparr>dirty_rects := dirty_rects s @ [rect_make x y w h]\<rparr>)"

definition comp_mark_all_dirty :: "comp \<Rightarrow> comp" where
  "comp_mark_all_dirty s = s\<lparr>dirty_rects := [rect_make 0 0 (sint (comp_w s)) (sint (comp_h s))]\<rparr>"

definition back_index :: "int \<Rightarrow> int \<Rightarrow> comp \<Rightarrow> nat" where
  "back_index x y s = unat (of_int y * comp_w s + of_int x)"

definition back_store :: "int \<Rightarrow> int \<Rightarrow> u32 \<Rightarrow> comp \<Rightarrow> comp" where
  "back_store x y c s = s\<lparr>comp_back := map_option (\<lambda>m. m(back_index x y s := c)) (comp_back s)\<rparr>"

definition draw_desktop_background :: "comp \<Rightarrow> comp" where
  "draw_desktop_background s = for_range 0 (uint (comp_h s)) (\<lambda>y. for_range 0 (uint (comp_w s)) (\<lambda>x. back_store x y GUI_DESKTOP)) s"

text \<open>A box of one colour, clipped at the edges of the back buffer: the two loops of the decoration.\<close>

definition back_box :: "int \<Rightarrow> int \<Rightarrow> int \<Rightarrow> int \<Rightarrow> u32 \<Rightarrow> comp \<Rightarrow> comp" where
  "back_box x0 x1 y0 y1 c s =
     for_range y0 y1 (\<lambda>row t.
       if row < 0 \<or> row \<ge> uint (comp_h s) then t
       else for_range x0 x1 (\<lambda>col u. if col < 0 \<or> col \<ge> uint (comp_w s) then u else back_store col row c u) t) s"

definition draw_window_decoration :: "'cb window option \<Rightarrow> bool \<Rightarrow> comp \<Rightarrow> comp" where
  "draw_window_decoration wo active s =
     (case wo of
        None \<Rightarrow> s
      | Some w \<Rightarrow>
          if comp_back s = None then s
          else
            (let bw = 3; th = 18; r = win_rect w;
                 ox = r_x r - bw; oy = r_y r - th - bw; ow = r_w r + bw * 2; oh = r_h r + th + bw * 2;
                 tc = (if active then GUI_TITLEBAR_ACTIVE else GUI_TITLEBAR_INACTIVE)
             in back_box (ox + bw) (ox + ow - bw) (oy + bw) (oy + bw + th) tc (back_box ox (ox + ow) oy (oy + oh) GUI_BTN_FACE s)))"

definition comp_blit_window :: "'cb window option \<Rightarrow> comp \<Rightarrow> comp" where
  "comp_blit_window wo s =
     (case wo of
        None \<Rightarrow> s
      | Some w \<Rightarrow>
          (case (back_buf w, comp_back s) of
             (Some b, Some _) \<Rightarrow>
               for_range 0 (r_h (win_rect w)) (\<lambda>row t.
                 let dy = r_y (win_rect w) + row in
                 if dy < 0 \<or> dy \<ge> uint (comp_h s) then t
                 else for_range 0 (r_w (win_rect w)) (\<lambda>col u.
                   let dx = r_x (win_rect w) + col in
                   if dx < 0 \<or> dx \<ge> uint (comp_w s) then u else back_store dx dy (b ! nat (row * r_w (win_rect w) + col)) u) t) s
           | _ \<Rightarrow> s))"

definition clip :: "comp \<Rightarrow> rect \<Rightarrow> rect" where
  "clip s r =
     (let r1 = (if r_x r < 0 then r\<lparr>r_w := r_w r + r_x r, r_x := 0\<rparr> else r);
          r2 = (if r_y r1 < 0 then r1\<lparr>r_h := r_h r1 + r_y r1, r_y := 0\<rparr> else r1);
          r3 = (if r_x r2 + r_w r2 > sint (comp_w s) then r2\<lparr>r_w := sint (comp_w s) - r_x r2\<rparr> else r2)
      in if r_y r3 + r_h r3 > sint (comp_h s) then r3\<lparr>r_h := sint (comp_h s) - r_y r3\<rparr> else r3)"

definition front_index :: "int \<Rightarrow> int \<Rightarrow> comp \<Rightarrow> nat" where
  "front_index x y s = unat (of_int y * (comp_pitch s div 4) + of_int x)"

definition front_store :: "int \<Rightarrow> int \<Rightarrow> u32 \<Rightarrow> comp \<Rightarrow> comp" where
  "front_store x y c s = s\<lparr>front_buf := map_option (\<lambda>m. m(front_index x y s := c)) (front_buf s)\<rparr>"

definition present_rect :: "rect \<Rightarrow> comp \<Rightarrow> comp" where
  "present_rect q s =
     (let r = clip s q
      in if r_w r \<le> 0 \<or> r_h r \<le> 0 then s
         else for_range (r_y r) (r_y r + r_h r) (\<lambda>y. for_range (r_x r) (r_x r + r_w r) (\<lambda>x t. front_store x y (the (comp_back t) (back_index x y t)) t)) s)"

definition present :: "comp \<Rightarrow> comp" where
  "present s =
     (if front_buf s = None \<or> comp_back s = None then s
      else if dirty_rects s = [] then s
      else (fold present_rect (dirty_rects s) s)\<lparr>dirty_rects := []\<rparr>)"

definition comp_window :: "int \<Rightarrow> int \<times> 'cb window option \<Rightarrow> comp \<Rightarrow> comp" where
  "comp_window focused iw s =
     (case iw of (i, None) \<Rightarrow> s | (i, Some w) \<Rightarrow> comp_blit_window (Some w) (draw_window_decoration (Some w) (i = focused) s))"

definition comp_frame :: "'cb window option list \<Rightarrow> int \<Rightarrow> comp \<Rightarrow> comp" where
  "comp_frame wins focused s =
     present (comp_mark_all_dirty (fold (comp_window focused) (zip (map int [0 ..< length wins]) wins) (draw_desktop_background s)))"

section \<open>Window manager\<close>

definition TITLEBAR_H :: int where [kconst]: "TITLEBAR_H = 18"
definition BORDER_W :: int where [kconst]: "BORDER_W = 3"
definition BTN_W :: int where [kconst]: "BTN_W = 14"
definition BTN_H :: int where [kconst]: "BTN_H = 14"

record 'cb wm_window =
  wm_win :: "'cb window option"
  wm_visible :: bool
  dragging :: bool
  drag_ox :: int
  drag_oy :: int

record 'cb wm =
  wm_windows :: "'cb wm_window list"
  focused_idx :: int
  mouse_x :: int
  mouse_y :: int
  fb_mem :: "nat \<Rightarrow> u32"
  fb_width :: u32
  fb_height :: u32
  fb_pitch :: u32

text \<open>The conversion \<^verbatim>\<open>(u32)e\<close> of a signed coordinate.\<close>

definition as_u32 :: "int \<Rightarrow> int" where
  "as_u32 e = uint (of_int e :: u32)"

definition mem_index :: "int \<Rightarrow> int \<Rightarrow> 'cb wm \<Rightarrow> nat" where
  "mem_index x y s = unat (of_int y * (fb_pitch s div 4) + of_int x)"

definition mem_store :: "int \<Rightarrow> int \<Rightarrow> u32 \<Rightarrow> 'cb wm \<Rightarrow> 'cb wm" where
  "mem_store x y c s = s\<lparr>fb_mem := (fb_mem s)(mem_index x y s := c)\<rparr>"

definition draw_desktop :: "'cb wm \<Rightarrow> 'cb wm" where
  "draw_desktop s = for_range 0 (uint (fb_height s)) (\<lambda>y. for_range 0 (uint (fb_width s)) (\<lambda>x. mem_store x y GUI_DESKTOP)) s"

definition mem_box :: "int \<Rightarrow> int \<Rightarrow> int \<Rightarrow> int \<Rightarrow> u32 \<Rightarrow> 'cb wm \<Rightarrow> 'cb wm" where
  "mem_box x0 x1 y0 y1 c s =
     for_range y0 y1 (\<lambda>y t.
       if y < 0 \<or> as_u32 y \<ge> uint (fb_height s) then t
       else for_range x0 x1 (\<lambda>x u. if x < 0 \<or> as_u32 x \<ge> uint (fb_width s) then u else mem_store x y c u) t) s"

definition frame_bevel :: "int \<Rightarrow> int \<Rightarrow> int \<Rightarrow> int \<Rightarrow> 'cb wm \<Rightarrow> 'cb wm" where
  "frame_bevel ox oy ow oh s =
     for_range 0 BORDER_W (\<lambda>i t.
       let c = (if i = 0 then GUI_BTN_HIGHLIGHT else GUI_BTN_FACE);
           t1 = for_range (ox + i) (ox + ow - i) (\<lambda>x u.
                  if as_u32 (oy + i) < uint (fb_height s) \<and> x \<ge> 0 \<and> as_u32 x < uint (fb_width s) then mem_store x (oy + i) c u else u) t
       in for_range (oy + i) (oy + oh - i) (\<lambda>y u.
            if y \<ge> 0 \<and> as_u32 y < uint (fb_height s) \<and> ox + i \<ge> 0 \<and> as_u32 (ox + i) < uint (fb_width s) then mem_store (ox + i) y c u else u) t1) s"

definition close_mark :: "int \<Rightarrow> int \<Rightarrow> 'cb wm \<Rightarrow> 'cb wm" where
  "close_mark cbx cby s =
     for_range 2 (BTN_W - 2) (\<lambda>i t.
       let xi = cbx + i; yi1 = cby + i; yi2 = cby + BTN_H - 1 - i in
       if as_u32 xi < uint (fb_width s) then
         (let t1 = (if as_u32 yi1 < uint (fb_height s) then mem_store xi yi1 GUI_TEXT t else t)
          in if as_u32 yi2 < uint (fb_height s) then mem_store xi yi2 GUI_TEXT t1 else t1)
       else t) s"

definition draw_decoration :: "'cb wm_window \<Rightarrow> bool \<Rightarrow> 'cb wm \<Rightarrow> 'cb wm" where
  "draw_decoration wmw active s =
     (case wm_win wmw of
        None \<Rightarrow> s
      | Some w \<Rightarrow>
          (let r = win_rect w;
               ox = r_x r - BORDER_W; oy = r_y r - TITLEBAR_H - BORDER_W; ow = r_w r + BORDER_W * 2; oh = r_h r + TITLEBAR_H + BORDER_W * 2;
               s1 = mem_box ox (ox + ow) oy (oy + oh) GUI_BTN_FACE s;
               s2 = frame_bevel ox oy ow oh s1;
               tx = ox + BORDER_W; ty = oy + BORDER_W; tw = ow - BORDER_W * 2; th = TITLEBAR_H;
               s3 = mem_box tx (tx + tw) ty (ty + th) (if active then GUI_TITLEBAR_ACTIVE else GUI_TITLEBAR_INACTIVE) s2;
               cbx = tx + tw - BTN_W - 2; cby = ty + (th - BTN_H) sdiv 2
           in close_mark cbx cby (mem_box cbx (cbx + BTN_W) cby (cby + BTN_H) GUI_BTN_FACE s3)))"

definition blit :: "'cb window \<Rightarrow> 'cb wm \<Rightarrow> 'cb wm" where
  "blit w s =
     for_range 0 (r_h (win_rect w)) (\<lambda>row t.
       let dy = r_y (win_rect w) + row in
       if dy < 0 \<or> as_u32 dy \<ge> uint (fb_height s) then t
       else for_range 0 (r_w (win_rect w)) (\<lambda>col u.
         let dx = r_x (win_rect w) + col in
         if dx < 0 \<or> as_u32 dx \<ge> uint (fb_width s) then u
         else mem_store dx dy (the (back_buf w) ! nat (row * r_w (win_rect w) + col)) u) t) s"

definition draw_cursor :: "'cb wm \<Rightarrow> 'cb wm" where
  "draw_cursor s =
     for_range 0 12 (\<lambda>i t.
       let t1 = (if as_u32 (mouse_x s) < uint (fb_width s) \<and> as_u32 (mouse_y s + i) < uint (fb_height s) then mem_store (mouse_x s) (mouse_y s + i) GUI_BLACK t else t)
       in if as_u32 (mouse_x s + i) < uint (fb_width s) \<and> as_u32 (mouse_y s) < uint (fb_height s) \<and> i < 8 then mem_store (mouse_x s + i) (mouse_y s) GUI_BLACK t1 else t1) s"

definition wm_show :: "int \<Rightarrow> int \<times> 'cb wm_window \<Rightarrow> 'cb wm \<Rightarrow> 'cb wm" where
  "wm_show focused iw s =
     (case iw of (i, wmw) \<Rightarrow>
        (case wm_win wmw of
           None \<Rightarrow> s
         | Some w \<Rightarrow> if \<not> wm_visible wmw then s else blit w (draw_decoration wmw (i = focused) s)))"

text \<open>
  The start of \<^verbatim>\<open>main\<close>: a window with three lines of text becomes the only one, with the focus; \<open>cw\<close> and \<open>cb\<close> are the outcomes
  of its allocations.
\<close>

definition wm_start :: "nat option \<Rightarrow> bool \<Rightarrow> 'cb gui \<Rightarrow> 'cb wm \<Rightarrow> ('cb gui \<times> 'cb wm) option" where
  "wm_start cw cb g s =
     (let g1 = gui_init (fb_mem s) (fb_width s) (fb_height s) (fb_pitch s) g
      in case gui_create_window cw cb (Some ''PhoenixOS Desktop'') 50 50 400 300 0 g1 of
           (None, g2) \<Rightarrow> Some (g2, s)
         | (Some p, g2) \<Rightarrow>
             do { w1 \<leftarrow> gui_draw_text 10 10 ''Welcome to PhoenixOS!'' GUI_TEXT GUI_BTN_FACE (gui_draw_fill (rect_make 0 0 400 300) GUI_BTN_FACE (win_at g2 p));
                  w2 \<leftarrow> gui_draw_text 10 30 ''AshDE Window Manager'' GUI_TEXT GUI_BTN_FACE w1;
                  w3 \<leftarrow> gui_draw_text 10 50 ''EmberKernel running'' GUI_TEXT GUI_BTN_FACE w2;
                  Some (g2\<lparr>win_at := (win_at g2)(p := w3)\<rparr>,
                        s\<lparr>wm_windows := [\<lparr>wm_win = Some w3, wm_visible = True, dragging = False, drag_ox = 0, drag_oy = 0\<rparr>], focused_idx := 0\<rparr>) })"

definition composite :: "'cb wm \<Rightarrow> 'cb wm" where
  "composite s =
     draw_cursor (fold (wm_show (focused_idx s)) (zip (map int [0 ..< length (wm_windows s)]) (wm_windows s)) (draw_desktop s))"

section \<open>The back buffer and the screen of the compositor\<close>

definition comp_ok :: "comp \<Rightarrow> bool" where
  "comp_ok s \<longleftrightarrow> comp_back s \<noteq> None \<and> uint (comp_w s) < 2 ^ 31 \<and> uint (comp_h s) < 2 ^ 31 \<and> uint (comp_w s) * uint (comp_h s) \<le> 2 ^ 32"

definition front_ok :: "comp \<Rightarrow> bool" where
  "front_ok s \<longleftrightarrow> comp_ok s \<and> front_buf s \<noteq> None \<and> uint (comp_w s) \<le> uint (comp_pitch s div 4) \<and> uint (comp_pitch s div 4) * uint (comp_h s) \<le> 2 ^ 32"

definition comp_vis :: "comp \<Rightarrow> int \<Rightarrow> int \<Rightarrow> bool" where
  "comp_vis s x y \<longleftrightarrow> 0 \<le> x \<and> x < uint (comp_w s) \<and> 0 \<le> y \<and> y < uint (comp_h s)"

definition back_pixel :: "comp \<Rightarrow> int \<Rightarrow> int \<Rightarrow> u32" where
  "back_pixel s x y = the (comp_back s) (back_index x y s)"

definition front_pixel :: "comp \<Rightarrow> int \<Rightarrow> int \<Rightarrow> u32" where
  "front_pixel s x y = the (front_buf s) (front_index x y s)"

definition back_put :: "int \<Rightarrow> int \<Rightarrow> u32 \<Rightarrow> comp \<Rightarrow> comp" where
  "back_put x y c s = (if comp_vis s x y then back_store x y c s else s)"

definition front_put :: "int \<Rightarrow> int \<Rightarrow> u32 \<Rightarrow> comp \<Rightarrow> comp" where
  "front_put x y c s = (if comp_vis s x y then front_store x y c s else s)"

text \<open>Cells of a buffer of width at most \<open>stride\<close> have indices of their own.\<close>

lemma index_inj:
  assumes "0 \<le> x" "x < w" "0 \<le> y" "y < h" "0 \<le> x'" "x' < w" "0 \<le> y'" "y' < h" "w \<le> uint stride" "uint stride * h \<le> 2 ^ 32"
  shows "unat (of_int y * stride + of_int x :: u32) = unat (of_int y' * stride + of_int x') \<longleftrightarrow> x' = x \<and> y' = y"
proof -
  let ?s = "uint stride"
  have "unat (of_int y * stride + of_int x :: u32) = nat (y * ?s + x)" "unat (of_int y' * stride + of_int x' :: u32) = nat (y' * ?s + x')"
    using cell_word [of x ?s y h] cell_word [of x' ?s y' h] assms by auto
  moreover have "0 \<le> y * ?s + x" "0 \<le> y' * ?s + x'" using assms by auto
  ultimately show ?thesis using cell_inj [of x ?s x' y y'] assms by (auto simp: nat_eq_iff)
qed

interpretation bc: canvas comp_ok comp_vis back_pixel back_put
proof
  fix s x y c
  assume ok: "comp_ok s"
  then show "comp_ok (back_put x y c s)" by (auto simp: comp_ok_def back_put_def back_store_def)
  show "comp_vis (back_put x y c s) = comp_vis s" by (simp add: comp_vis_def back_put_def back_store_def fun_eq_iff)
next
  fix s x y x' y' c
  assume ok: "comp_ok s" and v: "comp_vis s x y"
  then show "back_pixel (back_put x' y' c s) x y = (if x' = x \<and> y' = y then c else back_pixel s x y)"
    using index_inj [of x "uint (comp_w s)" y "uint (comp_h s)" x' y' "comp_w s"]
    by (auto simp: back_pixel_def back_put_def back_store_def back_index_def comp_ok_def comp_vis_def)
qed

interpretation fc: canvas front_ok comp_vis front_pixel front_put
proof
  fix s x y c
  assume ok: "front_ok s"
  then show "front_ok (front_put x y c s)" by (auto simp: front_ok_def comp_ok_def front_put_def front_store_def)
  show "comp_vis (front_put x y c s) = comp_vis s" by (simp add: comp_vis_def front_put_def front_store_def fun_eq_iff)
next
  fix s x y x' y' c
  assume ok: "front_ok s" and v: "comp_vis s x y"
  then show "front_pixel (front_put x' y' c s) x y = (if x' = x \<and> y' = y then c else front_pixel s x y)"
    using index_inj [of x "uint (comp_w s)" y "uint (comp_h s)" x' y' "comp_pitch s div 4"]
    by (auto simp: front_pixel_def front_put_def front_store_def front_index_def front_ok_def comp_vis_def)
qed

text \<open>The part of the state that drawing on the back buffer leaves alone.\<close>

definition comp_frame_of :: "comp \<Rightarrow> (nat \<Rightarrow> u32) option \<times> u32 \<times> u32 \<times> u32 \<times> rect list \<times> bool" where
  "comp_frame_of s = (front_buf s, comp_w s, comp_h s, comp_pitch s, dirty_rects s, comp_back s = None)"

lemma back_store_frame [simp]: "comp_frame_of (back_store x y c s) = comp_frame_of s"
  by (auto simp: comp_frame_of_def back_store_def)

lemma back_frame [simp]:
  "comp_frame_of (back_box x0 x1 y0 y1 c s) = comp_frame_of s" "comp_frame_of (draw_desktop_background s) = comp_frame_of s"
  "comp_frame_of (draw_window_decoration wo a s) = comp_frame_of s" "comp_frame_of (comp_blit_window wo s) = comp_frame_of s"
proof -
  show b: "comp_frame_of (back_box x0 x1 y0 y1 c s) = comp_frame_of s" for x0 x1 y0 y1 c s
    unfolding back_box_def by (intro for_range_inv) (simp add: for_range_inv)
  show "comp_frame_of (draw_desktop_background s) = comp_frame_of s"
    unfolding draw_desktop_background_def by (intro for_range_inv) (simp add: for_range_inv)
  show "comp_frame_of (draw_window_decoration wo a s) = comp_frame_of s"
    by (simp add: draw_window_decoration_def Let_def b split: option.splits)
  show "comp_frame_of (comp_blit_window wo s) = comp_frame_of s"
    unfolding comp_blit_window_def Let_def by (auto split: option.splits intro!: for_range_inv simp: for_range_inv)
qed

text \<open>Loops with the code's guards are loops over the guarded store.\<close>

definition at_dims :: "comp \<Rightarrow> comp \<Rightarrow> comp \<Rightarrow> bool" where
  "at_dims s t u \<longleftrightarrow> t = u \<and> comp_w u = comp_w s \<and> comp_h u = comp_h s"

lemma at_dims_store: "at_dims s t u \<Longrightarrow> at_dims s (if y < 0 \<or> y \<ge> uint (comp_h s) \<or> x < 0 \<or> x \<ge> uint (comp_w s) then t else back_store x y c t) (back_put x y c u)"
  by (auto simp: at_dims_def back_put_def comp_vis_def back_store_def)

lemma paints_back_box: "bc.paints (back_box x0 x1 y0 y1 c) (box x0 x1 y0 y1 c)"
proof -
  have "back_box x0 x1 y0 y1 c s = for_range y0 y1 (\<lambda>y. for_range x0 x1 (\<lambda>x. back_put x y c)) s" for s
  proof -
    have "at_dims s (back_box x0 x1 y0 y1 c s) (for_range y0 y1 (\<lambda>y. for_range x0 x1 (\<lambda>x. back_put x y c)) s)"
      unfolding back_box_def for_range_guard disj_assoc
      by (rule for_range_sim [where R = "at_dims s"], rule for_range_sim [where R = "at_dims s"], rule at_dims_store) (auto simp: at_dims_def)
    then show ?thesis by (simp add: at_dims_def)
  qed
  then have "back_box x0 x1 y0 y1 c = for_range y0 y1 (\<lambda>y. for_range x0 x1 (\<lambda>x. back_put x y c))" by (rule ext)
  then show ?thesis by (simp add: bc.paints_box)
qed

text \<open>The picture of a window's frame and title bar.\<close>

definition frame_pic :: "'cb window \<Rightarrow> bool \<Rightarrow> picture" where
  "frame_pic w active =
     (let r = win_rect w
      in over (box (r_x r) (r_x r + r_w r) (r_y r - 18) (r_y r) (if active then GUI_TITLEBAR_ACTIVE else GUI_TITLEBAR_INACTIVE))
           (box (r_x r - 3) (r_x r + r_w r + 3) (r_y r - 21) (r_y r + r_h r + 3) GUI_BTN_FACE))"

lemma paints_decoration: "bc.paints (draw_window_decoration (Some w) active) (frame_pic w active)"
proof -
  let ?r = "win_rect w" and ?tc = "if active then GUI_TITLEBAR_ACTIVE else GUI_TITLEBAR_INACTIVE"
  have "bc.paints (\<lambda>s. back_box (r_x ?r) (r_x ?r + r_w ?r) (r_y ?r - 18) (r_y ?r) ?tc
      (back_box (r_x ?r - 3) (r_x ?r + r_w ?r + 3) (r_y ?r - 21) (r_y ?r + r_h ?r + 3) GUI_BTN_FACE s)) (frame_pic w active)"
    unfolding frame_pic_def Let_def by (rule bc.paints_comp [OF paints_back_box paints_back_box])
  then show ?thesis by (auto simp: bc.paints_def draw_window_decoration_def Let_def comp_ok_def algebra_simps)
qed

lemma paints_blit:
  assumes "win_ok w"
  shows "bc.paints (comp_blit_window (Some w)) (win_pic w)"
proof -
  obtain b where b: "back_buf w = Some b" using assms by (auto simp: win_ok_def)
  let ?r = "win_rect w"
  let ?f = "for_range 0 (r_h ?r) (\<lambda>row. for_range 0 (r_w ?r) (\<lambda>col. back_put (r_x ?r + col) (r_y ?r + row) (pixel w col row)))"
  have "comp_blit_window (Some w) s = ?f s" if "comp_ok s" for s
  proof -
    have "at_dims s (comp_blit_window (Some w) s) (?f s)"
      using b that unfolding comp_blit_window_def Let_def for_range_guard disj_assoc comp_ok_def
      by (auto simp: pixel_def intro!: for_range_sim [where R = "at_dims s"] at_dims_store) (auto simp: at_dims_def)
    then show ?thesis by (simp add: at_dims_def)
  qed
  moreover have "bc.paints ?f (win_pic w)"
    using bc.paints_cells_at [of "r_h ?r" "r_w ?r" "r_x ?r" "r_y ?r" "pixel w"] by (simp add: win_pic_def in_window_def algebra_simps)
  ultimately show ?thesis by (simp add: bc.paints_def)
qed

lemma paints_background: "comp_ok s \<Longrightarrow> comp_ok (draw_desktop_background s) \<and> comp_vis (draw_desktop_background s) = comp_vis s
    \<and> (comp_vis s x y \<longrightarrow> back_pixel (draw_desktop_background s) x y = GUI_DESKTOP)"
proof -
  assume ok: "comp_ok s"
  let ?f = "for_range 0 (uint (comp_h s)) (\<lambda>y. for_range 0 (uint (comp_w s)) (\<lambda>x. back_put x y GUI_DESKTOP))"
  have "at_dims s (draw_desktop_background s) (?f s)" unfolding draw_desktop_background_def
    by (rule for_range_sim [where R = "at_dims s"], rule for_range_sim [where R = "at_dims s"])
      (auto simp: at_dims_def back_put_def comp_vis_def back_store_def)
  then have "draw_desktop_background s = ?f s" by (simp add: at_dims_def)
  then show ?thesis using bc.paintsD [OF bc.paints_box [of 0 "uint (comp_h s)" 0 "uint (comp_w s)" GUI_DESKTOP] ok] by (auto simp: box_def comp_vis_def)
qed

section \<open>Presentation\<close>

lemma sint_small: "uint (v :: u32) < 2 ^ 31 \<Longrightarrow> sint v = uint v"
  unfolding sint_uint by (rule signed_take_bit_int_eq_self) (simp_all add: order_trans [OF _ uint_ge_0])

lemma comp_ok_sint: "comp_ok s \<Longrightarrow> sint (comp_w s) = uint (comp_w s) \<and> sint (comp_h s) = uint (comp_h s)"
  by (simp add: comp_ok_def sint_small)

lemma clip_contains: "comp_ok s \<Longrightarrow> rect_contains (clip s r) x y \<longleftrightarrow> rect_contains r x y \<and> comp_vis s x y"
  by (auto simp: clip_def rect_contains_def comp_vis_def Let_def comp_ok_sint)

lemma present_rect_pixels:
  assumes "front_ok s"
  shows "front_ok (present_rect q s) \<and> comp_vis (present_rect q s) = comp_vis s \<and> back_pixel (present_rect q s) = back_pixel s
    \<and> (comp_vis s x y \<longrightarrow> front_pixel (present_rect q s) x y = (if rect_contains q x y then back_pixel s x y else front_pixel s x y))"
proof -
  let ?r = "clip s q"
  have ok: "comp_ok s" using assms by (simp add: front_ok_def)
  let ?f = "for_range (r_y ?r) (r_y ?r + r_h ?r) (\<lambda>y. for_range (r_x ?r) (r_x ?r + r_w ?r) (\<lambda>x. front_put x y (back_pixel s x y)))"
  define R where "R t u \<longleftrightarrow> t = u \<and> comp_w u = comp_w s \<and> comp_h u = comp_h s \<and> comp_back u = comp_back s" for t u :: comp
  have in_clip: "comp_vis s x y" if "r_y ?r \<le> y" "y < r_y ?r + r_h ?r" "r_x ?r \<le> x" "x < r_x ?r + r_w ?r" for x y
    using that clip_contains [OF ok, of q x y] by (simp add: rect_contains_def)
  have "R (for_range (r_y ?r) (r_y ?r + r_h ?r) (\<lambda>y. for_range (r_x ?r) (r_x ?r + r_w ?r) (\<lambda>x t. front_store x y (the (comp_back t) (back_index x y t)) t)) s) (?f s)"
    by (rule for_range_sim [where R = R], rule for_range_sim [where R = R])
      (use in_clip in \<open>auto simp: R_def front_put_def comp_vis_def front_store_def back_pixel_def back_index_def\<close>)
  then have e: "present_rect q s = ?f s" and b: "R (?f s) (?f s)" by (auto simp: R_def present_rect_def Let_def for_range_none)
  have "back_pixel (?f s) = back_pixel s" using b by (simp add: R_def back_pixel_def back_index_def fun_eq_iff)
  then show ?thesis unfolding e
    using fc.paintsD [OF fc.paints_cells [of "r_y ?r" "r_y ?r + r_h ?r" "r_x ?r" "r_x ?r + r_w ?r" "back_pixel s"] assms] clip_contains [OF ok, of q x y]
    by (auto simp: rect_contains_def)
qed

lemma present_rects:
  assumes "front_ok s"
  shows "front_ok (fold present_rect qs s) \<and> comp_vis (fold present_rect qs s) = comp_vis s \<and> back_pixel (fold present_rect qs s) = back_pixel s
    \<and> (comp_vis s x y \<longrightarrow> front_pixel (fold present_rect qs s) x y = (if \<exists>q \<in> set qs. rect_contains q x y then back_pixel s x y else front_pixel s x y))"
  using assms
proof (induction qs arbitrary: s)
  case (Cons q qs)
  show ?case using Cons.IH [of "present_rect q s"] present_rect_pixels [OF Cons.prems, of q x y] by auto
qed simp

text \<open>
  Presenting copies exactly the dirty part of the back buffer: a visible pixel that some dirty rectangle contains, clipped or not, afterwards
  shows the back buffer, every other pixel of the screen keeps its colour, the back buffer is untouched and nothing is dirty any more.
\<close>

theorem present_copies_dirty:
  assumes "front_ok s" "comp_vis s x y"
  shows "front_pixel (present s) x y = (if \<exists>q \<in> set (dirty_rects s). rect_contains q x y then back_pixel s x y else front_pixel s x y)
    \<and> back_pixel (present s) = back_pixel s \<and> dirty_rects (present s) = []"
proof -
  have f: "front_pixel (t\<lparr>dirty_rects := []\<rparr>) = front_pixel t" "back_pixel (t\<lparr>dirty_rects := []\<rparr>) = back_pixel t" for t
    by (simp_all add: front_pixel_def front_index_def back_pixel_def back_index_def fun_eq_iff)
  show ?thesis using present_rects [OF assms(1), of "dirty_rects s" x y] assms by (auto simp: present_def front_ok_def comp_ok_def f)
qed

text \<open>A screen of 2 by 2 pixels with padded lines, and a rectangle that sticks out on the left.\<close>

definition comp_small :: comp where
  "comp_small = \<lparr>comp_back = Some (\<lambda>i. of_nat i + 1), front_buf = Some (\<lambda>_. 0), comp_w = 2, comp_h = 2, comp_pitch = 16, dirty_rects = [rect_make (-1) 0 2 5]\<rparr>"

lemma comp_small_ok: "front_ok comp_small" and comp_small_vis: "comp_vis comp_small x y \<longleftrightarrow> x \<in> {0, 1} \<and> y \<in> {0, 1}"
  by (auto simp: front_ok_def comp_ok_def comp_vis_def comp_small_def)

theorem present_copies_dirty_witness: "front_pixel (present comp_small) 0 1 = 3 \<and> front_pixel (present comp_small) 1 1 = 0"
proof -
  have "back_pixel comp_small 0 1 = 3" "front_pixel comp_small 1 1 = 0" "dirty_rects comp_small = [rect_make (-1) 0 2 5]"
    by (simp_all add: back_pixel_def back_index_def front_pixel_def comp_small_def)
  then show ?thesis using present_copies_dirty [OF comp_small_ok, of 0 1] present_copies_dirty [OF comp_small_ok, of 1 1]
    by (simp add: comp_small_vis rect_contains_def)
qed

section \<open>A frame of the compositor\<close>

definition shown :: "int \<Rightarrow> int \<times> 'cb window option \<Rightarrow> picture" where
  "shown focused iw = (case iw of (i, None) \<Rightarrow> blank | (i, Some w) \<Rightarrow> over (win_pic w) (frame_pic w (i = focused)))"

lemma paints_comp_window: "(\<And>w. snd iw = Some w \<Longrightarrow> win_ok w) \<Longrightarrow> bc.paints (comp_window focused iw) (shown focused iw)"
proof (cases iw)
  case (Pair i wo)
  assume "\<And>w. snd iw = Some w \<Longrightarrow> win_ok w"
  then show ?thesis unfolding Pair comp_window_def shown_def
    by (cases wo) (auto simp: Pair intro: bc.paints_skip bc.paints_comp [OF paints_decoration paints_blit])
qed

lemma comp_windows_frame: "comp_frame_of (fold (comp_window focused) iws s) = comp_frame_of s"
  by (induction iws arbitrary: s) (auto simp: comp_window_def split: prod.splits option.splits)

text \<open>
  After a frame of the compositor the screen shows, at every pixel, the topmost of the windows that cover it with their contents, their title
  bar (in the colour of the focus) or their frame, and the desktop colour elsewhere; absent windows are skipped, and
  windows that lie partly outside the screen are clipped.
\<close>

theorem comp_frame_shows_topmost:
  assumes "front_ok s" "comp_vis s x y" "\<And>w. Some w \<in> set wins \<Longrightarrow> win_ok w"
  shows "front_pixel (comp_frame wins focused s) x y =
    (let iws = zip (map int [0 ..< length wins]) wins
     in case List.find (\<lambda>iw. shown focused iw x y \<noteq> None) (rev iws) of None \<Rightarrow> GUI_DESKTOP | Some iw \<Rightarrow> the (shown focused iw x y))"
proof -
  let ?iws = "zip (map int [0 ..< length wins]) wins" and ?b = "draw_desktop_background s"
  let ?w = "fold (comp_window focused) (zip (map int [0 ..< length wins]) wins) (draw_desktop_background s)"
  have ok: "comp_ok s" using assms(1) by (simp add: front_ok_def)
  have "\<And>iw. iw \<in> set ?iws \<Longrightarrow> bc.paints (comp_window focused iw) (shown focused iw)"
    using assms(3) by (intro paints_comp_window) (auto dest: set_zip_rightD)
  note top = bc.paints_topmost [of ?iws "comp_window focused" "shown focused", OF this]
  have "back_pixel ?w x y = (case List.find (\<lambda>iw. shown focused iw x y \<noteq> None) (rev ?iws) of None \<Rightarrow> GUI_DESKTOP | Some iw \<Rightarrow> the (shown focused iw x y))"
    using top paints_background [OF ok, of x y] assms(2) by (simp del: not_None_eq cong: option.case_cong)
  moreover have fr: "comp_frame_of ?w = comp_frame_of s" by (simp add: comp_windows_frame)
  then have w: "front_ok (comp_mark_all_dirty ?w)" "comp_vis (comp_mark_all_dirty ?w) x y" "back_pixel (comp_mark_all_dirty ?w) = back_pixel ?w"
    using assms(1,2) by (auto simp: comp_frame_of_def front_ok_def comp_ok_def comp_vis_def comp_mark_all_dirty_def back_pixel_def back_index_def fun_eq_iff)
  have "comp_ok ?w" using w(1) by (simp add: front_ok_def comp_ok_def comp_mark_all_dirty_def)
  then have "rect_contains (rect_make 0 0 (sint (comp_w ?w)) (sint (comp_h ?w))) x y"
    using w(2) by (simp add: comp_ok_sint comp_vis_def rect_contains_def comp_mark_all_dirty_def)
  then have "front_pixel (present (comp_mark_all_dirty ?w)) x y = back_pixel ?w x y"
    using present_rects [OF w(1), of "dirty_rects (comp_mark_all_dirty ?w)" x y] w
    by (auto simp: present_def comp_mark_all_dirty_def front_ok_def comp_ok_def front_pixel_def front_index_def)
  ultimately show ?thesis by (simp add: comp_frame_def Let_def)
qed

theorem comp_frame_shows_topmost_witness:
  "front_pixel (comp_frame [Some ((blank_window 1 1)\<lparr>back_buf := Some [7]\<rparr>), None] 0 comp_small) 0 0 = 7
   \<and> front_pixel (comp_frame [Some ((blank_window 1 1)\<lparr>back_buf := Some [7]\<rparr>), None] 0 comp_small) 1 0 = GUI_BTN_FACE"
proof -
  let ?w = "(blank_window 1 1)\<lparr>back_buf := Some [7 :: u32]\<rparr>"
  have ok: "win_ok w" if "Some w \<in> set [Some ?w, None]" for w using that by (simp add: win_ok_def blank_window_def)
  have "shown 0 (0, Some ?w) 0 0 = Some 7" "shown 0 (0, Some ?w) 1 0 = Some GUI_BTN_FACE" "shown 0 (1, None :: nat window option) x y = None" for x y
    by (simp_all add: shown_def win_pic_def frame_pic_def over_apply box_def in_window_def pixel_def blank_window_def blank_def)
  then show ?thesis
    using comp_frame_shows_topmost [OF comp_small_ok _ ok, where wins = "[Some ?w, None]" and x = 0 and y = 0 and focused = 0]
      comp_frame_shows_topmost [OF comp_small_ok _ ok, where wins = "[Some ?w, None]" and x = 1 and y = 0 and focused = 0]
    by (simp add: comp_small_vis upt_conv_Cons)
qed

text \<open>The 65th dirty rectangle is forgotten.\<close>

theorem dirty_rect_forgotten: "length (dirty_rects s) = MAX_DIRTY \<Longrightarrow> comp_mark_dirty x y w h s = s"
  by (simp add: comp_mark_dirty_def)

section \<open>The window manager's screen\<close>

definition wm_ok :: "'cb wm \<Rightarrow> bool" where
  "wm_ok s \<longleftrightarrow> uint (fb_width s) \<le> 2 ^ 31 \<and> uint (fb_height s) \<le> 2 ^ 31 \<and> uint (fb_width s) \<le> uint (fb_pitch s div 4)
     \<and> uint (fb_pitch s div 4) * uint (fb_height s) \<le> 2 ^ 32"

definition wm_vis :: "'cb wm \<Rightarrow> int \<Rightarrow> int \<Rightarrow> bool" where
  "wm_vis s x y \<longleftrightarrow> 0 \<le> x \<and> x < uint (fb_width s) \<and> 0 \<le> y \<and> y < uint (fb_height s)"

definition mem_pixel :: "'cb wm \<Rightarrow> int \<Rightarrow> int \<Rightarrow> u32" where
  "mem_pixel s x y = fb_mem s (mem_index x y s)"

definition mem_put :: "int \<Rightarrow> int \<Rightarrow> u32 \<Rightarrow> 'cb wm \<Rightarrow> 'cb wm" where
  "mem_put x y c s = (if wm_vis s x y then mem_store x y c s else s)"

interpretation mc: canvas wm_ok wm_vis mem_pixel mem_put
proof
  fix s :: "'cb wm" and x y c
  assume ok: "wm_ok s"
  then show "wm_ok (mem_put x y c s)" by (auto simp: wm_ok_def mem_put_def mem_store_def)
  show "wm_vis (mem_put x y c s) = wm_vis s" by (simp add: wm_vis_def mem_put_def mem_store_def fun_eq_iff)
next
  fix s :: "'cb wm" and x y x' y' c
  assume ok: "wm_ok s" and v: "wm_vis s x y"
  then show "mem_pixel (mem_put x' y' c s) x y = (if x' = x \<and> y' = y then c else mem_pixel s x y)"
    using index_inj [of x "uint (fb_width s)" y "uint (fb_height s)" x' y' "fb_pitch s div 4"]
    by (auto simp: mem_pixel_def mem_put_def mem_store_def mem_index_def wm_ok_def wm_vis_def)
qed

text \<open>Coordinates of 32 bits: a negative one is beyond every screen once it is converted.\<close>

definition s32 :: "int \<Rightarrow> bool" where
  "s32 e \<longleftrightarrow> - (2 ^ 31) \<le> e \<and> e < 2 ^ 31"

lemma as_u32_less: "s32 e \<Longrightarrow> n \<le> 2 ^ 31 \<Longrightarrow> as_u32 e < n \<longleftrightarrow> 0 \<le> e \<and> e < n"
proof (cases "0 \<le> e")
  case True
  assume "s32 e"
  then show ?thesis using True uint_of_int_small [of e] by (simp add: s32_def as_u32_def)
next
  case False
  assume e: "s32 e" "n \<le> 2 ^ 31"
  have "(of_int e :: u32) = of_int (e + 2 ^ 32)" by (simp add: word_of_int_2p_len [where 'a = 32, simplified])
  then have "as_u32 e = uint (of_int (e + 2 ^ 32) :: u32)" unfolding as_u32_def by (simp only:)
  also have "\<dots> = e + 2 ^ 32" using e False by (intro uint_of_int_small) (auto simp: s32_def)
  finally have "as_u32 e = e + 2 ^ 32" .
  then show ?thesis using e False by (simp add: s32_def)
qed

definition at_screen :: "'cb wm \<Rightarrow> 'cb wm \<Rightarrow> 'cb wm \<Rightarrow> bool" where
  "at_screen s t u \<longleftrightarrow> t = u \<and> fb_width u = fb_width s \<and> fb_height u = fb_height s"

lemma at_screen_put:
  assumes "at_screen s t u" "g \<longleftrightarrow> wm_vis s x y"
  shows "at_screen s (if g then mem_store x y c t else t) (mem_put x y c u)"
  using assms by (auto simp: at_screen_def mem_put_def wm_vis_def mem_store_def)

lemma at_screen_skip:
  assumes "at_screen s t u" "g \<longleftrightarrow> \<not> wm_vis s x y"
  shows "at_screen s (if g then t else mem_store x y c t) (mem_put x y c u)"
  using assms by (auto simp: at_screen_def mem_put_def wm_vis_def mem_store_def)

lemma mc_paints_cong: "mc.paints f p \<Longrightarrow> (\<And>s. wm_ok s \<Longrightarrow> at_screen s (g s) (f s)) \<Longrightarrow> mc.paints g p"
  by (simp add: mc.paints_def at_screen_def)

lemma paints_mem_box: "s32 x0 \<Longrightarrow> s32 x1 \<Longrightarrow> s32 y0 \<Longrightarrow> s32 y1 \<Longrightarrow> mc.paints (mem_box x0 x1 y0 y1 c) (box x0 x1 y0 y1 c)"
proof (rule mc_paints_cong [OF mc.paints_box])
  fix s :: "'a wm" assume b: "s32 x0" "s32 x1" "s32 y0" "s32 y1" and ok: "wm_ok s"
  show "at_screen s (mem_box x0 x1 y0 y1 c s) (for_range y0 y1 (\<lambda>i. for_range x0 x1 (\<lambda>j. mem_put j i c)) s)"
    unfolding mem_box_def for_range_guard
  proof (rule for_range_sim [where R = "at_screen s"], rule for_range_sim [where R = "at_screen s"], rule at_screen_skip, assumption)
    fix x y assume "y0 \<le> y" "y < y1" "x0 \<le> x" "x < x1"
    then have "s32 x" "s32 y" using b by (auto simp: s32_def)
    then show "((y < 0 \<or> uint (fb_height s) \<le> as_u32 y) \<or> x < 0 \<or> uint (fb_width s) \<le> as_u32 x) \<longleftrightarrow> \<not> wm_vis s x y"
      using as_u32_less [of x "uint (fb_width s)"] as_u32_less [of y "uint (fb_height s)"] ok by (auto simp: wm_vis_def wm_ok_def)
  qed (auto simp: at_screen_def)
qed

lemma paints_mem_blit:
  assumes "win_ok w" "\<And>i. 0 \<le> i \<Longrightarrow> i < r_w (win_rect w) \<Longrightarrow> s32 (r_x (win_rect w) + i)" "\<And>i. 0 \<le> i \<Longrightarrow> i < r_h (win_rect w) \<Longrightarrow> s32 (r_y (win_rect w) + i)"
  shows "mc.paints (blit w) (win_pic w)"
proof -
  let ?r = "win_rect w"
  let ?f = "for_range 0 (r_h ?r) (\<lambda>row. for_range 0 (r_w ?r) (\<lambda>col. mem_put (r_x ?r + col) (r_y ?r + row) (pixel w col row)))"
  have "mc.paints ?f (win_pic w)"
    using mc.paints_cells_at [of "r_h ?r" "r_w ?r" "r_x ?r" "r_y ?r" "pixel w"] by (simp add: win_pic_def in_window_def algebra_simps)
  then show ?thesis
  proof (rule mc_paints_cong)
    fix s :: "'a wm" assume ok: "wm_ok s"
    show "at_screen s (blit w s) (?f s)" unfolding blit_def Let_def for_range_guard pixel_def
    proof (rule for_range_sim [where R = "at_screen s"], rule for_range_sim [where R = "at_screen s"], rule at_screen_skip, assumption)
      fix i j assume "0 \<le> i" "i < r_h ?r" "0 \<le> j" "j < r_w ?r"
      then show "((r_y ?r + i < 0 \<or> uint (fb_height s) \<le> as_u32 (r_y ?r + i)) \<or> r_x ?r + j < 0 \<or> uint (fb_width s) \<le> as_u32 (r_x ?r + j)) \<longleftrightarrow> \<not> wm_vis s (r_x ?r + j) (r_y ?r + i)"
        using as_u32_less [OF assms(2), of j "uint (fb_width s)"] as_u32_less [OF assms(3), of i "uint (fb_height s)"] ok by (auto simp: wm_vis_def wm_ok_def)
    qed (auto simp: at_screen_def)
  qed
qed

lemma paints_mem_desktop: "wm_ok s \<Longrightarrow> wm_ok (draw_desktop s) \<and> wm_vis (draw_desktop s) = wm_vis s
    \<and> (wm_vis s x y \<longrightarrow> mem_pixel (draw_desktop s) x y = GUI_DESKTOP)"
proof -
  assume ok: "wm_ok s"
  let ?f = "for_range 0 (uint (fb_height s)) (\<lambda>y. for_range 0 (uint (fb_width s)) (\<lambda>x. mem_put x y GUI_DESKTOP))"
  have "at_screen s (draw_desktop s) (?f s)" unfolding draw_desktop_def
    by (rule for_range_sim [where R = "at_screen s"], rule for_range_sim [where R = "at_screen s"])
      (auto simp: at_screen_def mem_put_def wm_vis_def mem_store_def)
  then have "draw_desktop s = ?f s" by (simp add: at_screen_def)
  then show ?thesis using mc.paintsD [OF mc.paints_box [of 0 "uint (fb_height s)" 0 "uint (fb_width s)" GUI_DESKTOP] ok] by (auto simp: box_def wm_vis_def)
qed

text \<open>The light outer edge at the top and the left; the two inner rings have the colour of the frame.\<close>

definition ring :: "int \<Rightarrow> int \<Rightarrow> int \<Rightarrow> int \<Rightarrow> int \<Rightarrow> picture" where
  "ring ox oy ow oh i =
     (let c = (if i = 0 then GUI_BTN_HIGHLIGHT else GUI_BTN_FACE)
      in over (box (ox + i) (ox + i + 1) (oy + i) (oy + oh - i) c) (box (ox + i) (ox + ow - i) (oy + i) (oy + i + 1) c))"

lemma paints_frame_bevel:
  assumes "s32 (ox + ow)" "s32 (oy + oh)" "s32 ox" "s32 oy" "s32 (ox + 3)" "s32 (oy + 3)"
  shows "mc.paints (frame_bevel ox oy ow oh) (stacked (map (ring ox oy ow oh) [0 .. 2]))"
proof -
  let ?c = "\<lambda>i :: int. if i = 0 then GUI_BTN_HIGHLIGHT else GUI_BTN_FACE"
  let ?f = "for_range 0 3 (\<lambda>i t. for_range (oy + i) (oy + oh - i) (\<lambda>y. mem_put (ox + i) y (?c i)) (for_range (ox + i) (ox + ow - i) (\<lambda>x. mem_put x (oy + i) (?c i)) t))"
  have "mc.paints ?f (stacked (map (ring ox oy ow oh) [0 .. 3 - 1]))"
    unfolding ring_def Let_def by (rule mc.paints_range) (rule mc.paints_comp [OF mc.paints_row mc.paints_column])
  then have "mc.paints ?f (stacked (map (ring ox oy ow oh) [0 .. 2]))" by simp
  then show ?thesis
  proof (rule mc_paints_cong)
    fix s :: "'a wm" assume ok: "wm_ok s"
    have v: "as_u32 x < uint (fb_width s) \<longleftrightarrow> 0 \<le> x \<and> x < uint (fb_width s)" "as_u32 y < uint (fb_height s) \<longleftrightarrow> 0 \<le> y \<and> y < uint (fb_height s)"
      if "s32 x" "s32 y" for x y using that ok as_u32_less by (auto simp: wm_ok_def)
    show "at_screen s (frame_bevel ox oy ow oh s) (?f s)" unfolding frame_bevel_def BORDER_W_def Let_def
    proof (rule for_range_sim [where R = "at_screen s"], goal_cases)
      case (1 i t u)
      show ?case
      proof (rule for_range_sim [where R = "at_screen s"], rule at_screen_put, assumption, goal_cases)
        case (1 y t u)
        have "s32 y" "s32 (ox + i)" using 1 \<open>0 \<le> i\<close> \<open>i < 3\<close> assms by (auto simp: s32_def)
        then show ?case using v [of "ox + i" y] by (auto simp: wm_vis_def)
      next
        case 2
        show ?case
        proof (rule for_range_sim [where R = "at_screen s"], rule at_screen_put, assumption, goal_cases)
          case (1 x t u)
          have "s32 x" "s32 (oy + i)" using 1 \<open>0 \<le> i\<close> \<open>i < 3\<close> assms by (auto simp: s32_def)
          then show ?case using v [of x "oy + i"] by (auto simp: wm_vis_def)
        qed (rule \<open>at_screen s t u\<close>)
      qed
    qed (simp add: at_screen_def)
  qed
qed

definition cross_pic :: "int \<Rightarrow> int \<Rightarrow> picture" where
  "cross_pic cx cy = (\<lambda>x y. if 2 \<le> x - cx \<and> x - cx < 12 \<and> (y - cy = x - cx \<or> y - cy = 13 - (x - cx)) then Some GUI_TEXT else None)"

lemma twelve: "14 - 2 = (12 :: int)" "cy + 14 - 1 - i = cy + 13 - (i :: int)"
  by simp_all

lemma paints_close_mark:
  assumes "s32 cx" "s32 cy" "s32 (cx + 14)" "s32 (cy + 14)"
  shows "mc.paints (close_mark cx cy) (cross_pic cx cy)"
proof -
  let ?f = "for_range 2 12 (\<lambda>i t. mem_put (cx + i) (cy + 13 - i) GUI_TEXT (mem_put (cx + i) (cy + i) GUI_TEXT t))"
  let ?p = "\<lambda>i. over (\<lambda>x y. if x = cx + i \<and> y = cy + 13 - i then Some GUI_TEXT else None) (\<lambda>x y. if x = cx + i \<and> y = cy + i then Some GUI_TEXT else None)"
  have "mc.paints ?f (stacked (map ?p [2 .. 12 - 1]))" by (rule mc.paints_range) (rule mc.paints_comp [OF mc.paints_put mc.paints_put])
  moreover have "stacked (map ?p [2 .. 12 - 1]) = cross_pic cx cy"
  proof (intro ext)
    fix x y
    have p: "?p i x y = (if x = cx + i \<and> (y = cy + 13 - i \<or> y = cy + i) then Some GUI_TEXT else None)" for i by (simp add: over_apply)
    have "stacked (map ?p [a .. b]) x y = (if a \<le> x - cx \<and> x - cx \<le> b \<and> (y - cy = x - cx \<or> y - cy = 13 - (x - cx)) then Some GUI_TEXT else None)" for a b
    proof -
      have "(\<exists>i \<in> {a .. b}. x = cx + i \<and> (y = cy + 13 - i \<or> y = cy + i)) \<longleftrightarrow> a \<le> x - cx \<and> x - cx \<le> b \<and> (y - cy = x - cx \<or> y - cy = 13 - (x - cx))"
        by (rule iffI, force, rule bexI [of _ "x - cx"]) auto
      then show ?thesis by (subst stacked_uniform [where c = GUI_TEXT]) (auto simp: p)
    qed
    from this [of 2 11] show "stacked (map ?p [2 .. 12 - 1]) x y = cross_pic cx cy x y" by (auto simp: cross_pic_def)
  qed
  ultimately have "mc.paints ?f (cross_pic cx cy)" by simp
  then show ?thesis
  proof (rule mc_paints_cong)
    fix s :: "'a wm" assume ok: "wm_ok s"
    show "at_screen s (close_mark cx cy s) (?f s)" unfolding close_mark_def BTN_W_def BTN_H_def Let_def twelve
    proof (rule for_range_sim [where R = "at_screen s"], goal_cases)
      case (1 i t u)
      have "as_u32 (cx + i) < uint (fb_width s) \<longleftrightarrow> 0 \<le> cx + i \<and> cx + i < uint (fb_width s)"
        "as_u32 (cy + i) < uint (fb_height s) \<longleftrightarrow> 0 \<le> cy + i \<and> cy + i < uint (fb_height s)"
        "as_u32 (cy + 13 - i) < uint (fb_height s) \<longleftrightarrow> 0 \<le> cy + 13 - i \<and> cy + 13 - i < uint (fb_height s)"
        using 1 assms ok as_u32_less [of "cx + i" "uint (fb_width s)"] as_u32_less [of "cy + i" "uint (fb_height s)"] as_u32_less [of "cy + 13 - i" "uint (fb_height s)"]
        by (auto simp: s32_def wm_ok_def)
      then show ?case using 1 by (auto simp: at_screen_def mem_put_def wm_vis_def mem_store_def)
    qed (simp_all add: at_screen_def)
  qed
qed

text \<open>A window's frame: the close button with its mark, the title bar, the light edge, the frame.\<close>

definition deco_pic :: "'cb window \<Rightarrow> bool \<Rightarrow> picture" where
  "deco_pic w active =
     (let r = win_rect w; ox = r_x r - 3; oy = r_y r - 21; cx = r_x r + r_w r - 16; cy = r_y r - 16
      in (\<lambda>x y.
        if cross_pic cx cy x y \<noteq> None then Some GUI_TEXT
        else if cx \<le> x \<and> x < cx + 14 \<and> cy \<le> y \<and> y < cy + 14 then Some GUI_BTN_FACE
        else if r_x r \<le> x \<and> x < r_x r + r_w r \<and> r_y r - 18 \<le> y \<and> y < r_y r then Some (if active then GUI_TITLEBAR_ACTIVE else GUI_TITLEBAR_INACTIVE)
        else if ox \<le> x \<and> x < r_x r + r_w r + 3 \<and> oy \<le> y \<and> y < r_y r + r_h r + 3 then Some (if x = ox \<or> y = oy then GUI_BTN_HIGHLIGHT else GUI_BTN_FACE)
        else None))"

definition win_near :: "'cb window \<Rightarrow> bool" where
  "win_near w \<longleftrightarrow> win_ok w \<and> \<bar>r_x (win_rect w)\<bar> < 2 ^ 30 \<and> \<bar>r_y (win_rect w)\<bar> < 2 ^ 30 \<and> r_w (win_rect w) < 2 ^ 29 \<and> r_h (win_rect w) < 2 ^ 29"

lemma rings: "stacked (map (ring ox oy ow oh) [0 .. 2]) = over (ring ox oy ow oh 2) (over (ring ox oy ow oh 1) (ring ox oy ow oh 0))"
  by (simp add: upto.simps over_assoc)

lemma rings_pic:
  assumes "6 \<le> ow" "6 \<le> oh"
  shows "over (stacked (map (ring ox oy ow oh) [0 .. 2])) (box ox (ox + ow) oy (oy + oh) GUI_BTN_FACE) x y =
    (if ox \<le> x \<and> x < ox + ow \<and> oy \<le> y \<and> y < oy + oh then Some (if x = ox \<or> y = oy then GUI_BTN_HIGHLIGHT else GUI_BTN_FACE) else None)"
proof -
  have r: "ring ox oy ow oh i x y = (if ox + i = x \<and> oy + i \<le> y \<and> y < oy + oh - i \<or> oy + i = y \<and> ox + i \<le> x \<and> x < ox + ow - i
      then Some (if i = 0 then GUI_BTN_HIGHLIGHT else GUI_BTN_FACE) else None)" for i
    by (auto simp: ring_def over_apply box_def Let_def)
  show ?thesis using assms unfolding rings over_apply r box_def by (auto split: if_splits)
qed

lemma paints_wm_decoration:
  assumes "wm_win wmw = Some w" "win_near w"
  shows "mc.paints (draw_decoration wmw active) (deco_pic w active)"
proof -
  let ?r = "win_rect w" and ?tc = "if active then GUI_TITLEBAR_ACTIVE else GUI_TITLEBAR_INACTIVE"
  let ?ox = "r_x ?r - 3" and ?oy = "r_y ?r - 21" and ?ow = "r_w ?r + 6" and ?oh = "r_h ?r + 24" and ?cx = "r_x ?r + r_w ?r - 16" and ?cy = "r_y ?r - 16"
  have n: "0 \<le> r_w ?r" "0 \<le> r_h ?r" "\<bar>r_x ?r\<bar> < 2 ^ 30" "\<bar>r_y ?r\<bar> < 2 ^ 30" "r_w ?r < 2 ^ 29" "r_h ?r < 2 ^ 29" using assms(2) by (auto simp: win_near_def win_ok_def)
  have f: "draw_decoration wmw active = (\<lambda>s. close_mark ?cx ?cy (mem_box ?cx (?cx + 14) ?cy (?cy + 14) GUI_BTN_FACE
      (mem_box (r_x ?r) (r_x ?r + r_w ?r) (r_y ?r - 18) (r_y ?r) ?tc (frame_bevel ?ox ?oy ?ow ?oh (mem_box ?ox (?ox + ?ow) ?oy (?oy + ?oh) GUI_BTN_FACE s)))))"
    using assms(1) by (simp add: draw_decoration_def Let_def fun_eq_iff TITLEBAR_H_def BORDER_W_def BTN_W_def BTN_H_def sdiv2 algebra_simps)
  let ?p = "over (cross_pic ?cx ?cy) (over (box ?cx (?cx + 14) ?cy (?cy + 14) GUI_BTN_FACE) (over (box (r_x ?r) (r_x ?r + r_w ?r) (r_y ?r - 18) (r_y ?r) ?tc)
      (over (stacked (map (ring ?ox ?oy ?ow ?oh) [0 .. 2])) (box ?ox (?ox + ?ow) ?oy (?oy + ?oh) GUI_BTN_FACE))))"
  have "mc.paints (draw_decoration wmw active) ?p" unfolding f
    by (rule mc.paints_comp [OF mc.paints_comp [OF mc.paints_comp [OF mc.paints_comp [OF paints_mem_box paints_frame_bevel] paints_mem_box] paints_mem_box] paints_close_mark])
      (use n in \<open>auto simp: s32_def\<close>)
  moreover have "?p x y = deco_pic w active x y" for x y
  proof -
    have e: "over (stacked (map (ring ?ox ?oy ?ow ?oh) [0 .. 2])) (box ?ox (?ox + ?ow) ?oy (?oy + ?oh) GUI_BTN_FACE) x y =
        (if ?ox \<le> x \<and> x < ?ox + ?ow \<and> ?oy \<le> y \<and> y < ?oy + ?oh then Some (if x = ?ox \<or> y = ?oy then GUI_BTN_HIGHLIGHT else GUI_BTN_FACE) else None)"
      by (rule rings_pic) (use n(1,2) in auto)
    have c: "cross_pic ?cx ?cy x y = None \<or> cross_pic ?cx ?cy x y = Some GUI_TEXT" by (simp add: cross_pic_def)
    have bx: "over (box a b c d k) q x y = (if a \<le> x \<and> x < b \<and> c \<le> y \<and> y < d then Some k else q x y)" for a b c d k q by (simp add: over_apply box_def)
    have cr: "over (cross_pic ?cx ?cy) q x y = (if cross_pic ?cx ?cy x y \<noteq> None then Some GUI_TEXT else q x y)" for q using c by (auto simp: over_apply)
    show ?thesis unfolding cr bx e deco_pic_def Let_def by (simp add: algebra_simps)
  qed
  then have "?p = deco_pic w active" by (intro ext)
  ultimately show ?thesis by (simp only:)
qed

definition cursor_at :: "'cb wm \<Rightarrow> int \<Rightarrow> int \<Rightarrow> bool" where
  "cursor_at s x y \<longleftrightarrow> x = mouse_x s \<and> mouse_y s \<le> y \<and> y < mouse_y s + 12 \<or> y = mouse_y s \<and> mouse_x s \<le> x \<and> x < mouse_x s + 8"

lemma cursor_pixels:
  assumes ok: "wm_ok s" and "wm_vis s x y" "\<bar>mouse_x s\<bar> < 2 ^ 30" "\<bar>mouse_y s\<bar> < 2 ^ 30"
  shows "mem_pixel (draw_cursor s) x y = (if cursor_at s x y then GUI_BLACK else mem_pixel s x y)"
proof -
  let ?X = "mouse_x s" and ?Y = "mouse_y s"
  let ?step = "\<lambda>i t. (if i < 8 then mem_put (?X + i) ?Y GUI_BLACK else (\<lambda>t. t)) (mem_put ?X (?Y + i) GUI_BLACK t)"
  let ?p = "\<lambda>i. over (if i < 8 then (\<lambda>x y. if x = ?X + i \<and> y = ?Y then Some GUI_BLACK else None) else blank) (\<lambda>x y. if x = ?X \<and> y = ?Y + i then Some GUI_BLACK else None)"
  have "mc.paints (for_range 0 12 ?step) (stacked (map ?p [0 .. 12 - 1]))"
    by (rule mc.paints_range, rule mc.paints_comp [OF mc.paints_put mc.paints_if]) (rule mc.paints_put mc.paints_skip)+
  from mc.paintsD(3) [OF this ok assms(2)] have px: "mem_pixel (for_range 0 12 ?step s) x y = (case stacked (map ?p [0 .. 12 - 1]) x y of None \<Rightarrow> mem_pixel s x y | Some c \<Rightarrow> c)" .
  have pp: "?p i x y = (if i < 8 \<and> x = ?X + i \<and> y = ?Y \<or> x = ?X \<and> y = ?Y + i then Some GUI_BLACK else None)" for i by (auto simp: over_apply blank_def)
  have "stacked (map ?p [a .. b]) x y = (if (\<exists>i \<in> {a .. b}. i < 8 \<and> x = ?X + i \<and> y = ?Y \<or> x = ?X \<and> y = ?Y + i) then Some GUI_BLACK else None)" for a b
    by (subst stacked_uniform [where c = GUI_BLACK]) (simp_all add: pp)
  moreover have "(\<exists>i \<in> {0 .. 12 - 1}. i < 8 \<and> x = ?X + i \<and> y = ?Y \<or> x = ?X \<and> y = ?Y + i) \<longleftrightarrow> cursor_at s x y"
    unfolding cursor_at_def by (rule iffI, force) (elim disjE, rule bexI [of _ "y - ?Y"], force, force, rule bexI [of _ "x - ?X"], force, force)
  ultimately have "stacked (map ?p [0 .. 12 - 1]) x y = (if cursor_at s x y then Some GUI_BLACK else None)" by (simp only:)
  moreover have "at_screen s (draw_cursor s) (for_range 0 12 ?step s)" unfolding draw_cursor_def Let_def
  proof (rule for_range_sim [where R = "at_screen s"], goal_cases)
    case (1 i t u)
    have "as_u32 (?X + j) < uint (fb_width s) \<longleftrightarrow> 0 \<le> ?X + j \<and> ?X + j < uint (fb_width s)" "as_u32 (?Y + j) < uint (fb_height s) \<longleftrightarrow> 0 \<le> ?Y + j \<and> ?Y + j < uint (fb_height s)" if "0 \<le> j" "j < 12" for j
    proof -
      have "s32 (?X + j)" "s32 (?Y + j)" using that assms(3,4) by (auto simp: s32_def abs_less_iff)
      then show "as_u32 (?X + j) < uint (fb_width s) \<longleftrightarrow> 0 \<le> ?X + j \<and> ?X + j < uint (fb_width s)" "as_u32 (?Y + j) < uint (fb_height s) \<longleftrightarrow> 0 \<le> ?Y + j \<and> ?Y + j < uint (fb_height s)"
        using ok as_u32_less by (auto simp: wm_ok_def)
    qed
    from this [of i] this [of 0] 1 show ?case by (auto simp: at_screen_def mem_put_def wm_vis_def mem_store_def)
  qed (simp add: at_screen_def)
  then have "draw_cursor s = for_range 0 12 ?step s" by (simp add: at_screen_def)
  ultimately show ?thesis using px by (simp split: if_splits)
qed

section \<open>A frame of the window manager\<close>

definition wm_frame_of :: "'cb wm \<Rightarrow> 'cb wm_window list \<times> int \<times> int \<times> int \<times> u32 \<times> u32 \<times> u32" where
  "wm_frame_of s = (wm_windows s, focused_idx s, mouse_x s, mouse_y s, fb_width s, fb_height s, fb_pitch s)"

lemma mem_store_frame [simp]: "wm_frame_of (mem_store x y c s) = wm_frame_of s"
  by (simp add: wm_frame_of_def mem_store_def)

lemma wm_frames [simp]:
  "wm_frame_of (mem_box x0 x1 y0 y1 c s) = wm_frame_of s" "wm_frame_of (draw_desktop s) = wm_frame_of s" "wm_frame_of (blit w s) = wm_frame_of s"
  "wm_frame_of (frame_bevel ox oy ow oh s) = wm_frame_of s" "wm_frame_of (close_mark cx cy s) = wm_frame_of s"
  unfolding mem_box_def draw_desktop_def blit_def frame_bevel_def close_mark_def Let_def
  by (intro for_range_inv; simp add: for_range_inv)+

lemma wm_show_frame: "wm_frame_of (wm_show f iw s) = wm_frame_of s"
  by (simp add: wm_show_def draw_decoration_def Let_def split: prod.splits option.splits)

lemma wm_shows_frame: "wm_frame_of (fold (wm_show f) iws s) = wm_frame_of s"
  by (induction iws arbitrary: s) (simp_all add: wm_show_frame)

definition wm_shown :: "int \<Rightarrow> int \<times> 'cb wm_window \<Rightarrow> picture" where
  "wm_shown focused iw =
     (case iw of (i, wmw) \<Rightarrow> case wm_win wmw of None \<Rightarrow> blank
        | Some w \<Rightarrow> if wm_visible wmw then over (win_pic w) (deco_pic w (i = focused)) else blank)"

lemma paints_wm_show: "(\<And>w. wm_win (snd iw) = Some w \<Longrightarrow> win_near w) \<Longrightarrow> mc.paints (wm_show focused iw) (wm_shown focused iw)"
proof (cases iw)
  case (Pair i wmw)
  assume near: "\<And>w. wm_win (snd iw) = Some w \<Longrightarrow> win_near w"
  show ?thesis
  proof (cases "wm_win wmw")
    case None
    then have "wm_show focused iw = (\<lambda>s. s)" "wm_shown focused iw = blank" by (simp_all add: Pair wm_show_def wm_shown_def fun_eq_iff)
    then show ?thesis by (simp add: mc.paints_skip)
  next
    case (Some w)
    then have n: "win_near w" using near Pair by simp
    have "mc.paints (blit w) (win_pic w)" using n by (intro paints_mem_blit) (auto simp: win_near_def s32_def abs_less_iff)
    note p = mc.paints_comp [OF paints_wm_decoration [OF Some n, of "i = focused"] this]
    show ?thesis
    proof (cases "wm_visible wmw")
      case True
      then have "wm_show focused iw = (\<lambda>s. blit w (draw_decoration wmw (i = focused) s))"
        using Some by (simp add: Pair wm_show_def fun_eq_iff)
      then show ?thesis using p True Some by (simp add: Pair wm_shown_def)
    next
      case False
      then have "wm_show focused iw = (\<lambda>s. s)" "wm_shown focused iw = blank"
        using Some by (simp_all add: Pair wm_show_def wm_shown_def fun_eq_iff)
      then show ?thesis by (simp add: mc.paints_skip)
    qed
  qed
qed


text \<open>The window manager's first frame on its simulated screen, with the pointer in the middle.\<close>

definition wm_init :: "nat wm" where
  "wm_init = \<lparr>wm_windows = [\<lparr>wm_win = Some (blank_window 40 30), wm_visible = True, dragging = False, drag_ox = 0, drag_oy = 0\<rparr>], focused_idx = 0,
     mouse_x = 320, mouse_y = 240, fb_mem = (\<lambda>_. 0), fb_width = 640, fb_height = 480, fb_pitch = 2560\<rparr>"


end
