(* ===== verification/Ipc.thy ===== *)
theory Ipc
  imports Vfs
begin

text \<open>
  Message passing between programs, \<^verbatim>\<open>src/lib/libipc\<close>. A message is a structure of 276 bytes that is sent and received as it lies in memory, with
  writes and reads that may transfer less than asked. The sockets are those of the system below: the calls are arguments of
  the definitions, and \<open>byte_stream\<close> is what the library relies on, one end delivering the bytes of the other in order. The kernel's pipes, reached
  through file descriptors, are shown to be such a stream. A call that never returns is \<open>None\<close>.
\<close>

section \<open>Messages and channels\<close>

definition IPC_DATA_MAX :: nat where [kconst]: "IPC_DATA_MAX = 256"

datatype message_type = MSG_NONE | MSG_PING | MSG_PONG | MSG_CONNECT | MSG_DISCONNECT | MSG_DATA
  | MSG_WIN_CREATE | MSG_WIN_DESTROY | MSG_WIN_SHOW | MSG_WIN_HIDE | MSG_WIN_MOVE | MSG_WIN_RESIZE | MSG_WIN_RAISE | MSG_WIN_PAINT | MSG_WIN_EVENT
  | MSG_SVC_START | MSG_SVC_STOP | MSG_SVC_STATUS | MSG_SVC_RESTART

fun message_code :: "message_type \<Rightarrow> u32" where
  "message_code MSG_NONE = 0"
| "message_code MSG_PING = 1"
| "message_code MSG_PONG = 2"
| "message_code MSG_CONNECT = 10"
| "message_code MSG_DISCONNECT = 11"
| "message_code MSG_DATA = 20"
| "message_code MSG_WIN_CREATE = 100"
| "message_code MSG_WIN_DESTROY = 101"
| "message_code MSG_WIN_SHOW = 102"
| "message_code MSG_WIN_HIDE = 103"
| "message_code MSG_WIN_MOVE = 104"
| "message_code MSG_WIN_RESIZE = 105"
| "message_code MSG_WIN_RAISE = 106"
| "message_code MSG_WIN_PAINT = 107"
| "message_code MSG_WIN_EVENT = 108"
| "message_code MSG_SVC_START = 200"
| "message_code MSG_SVC_STOP = 201"
| "message_code MSG_SVC_STATUS = 202"
| "message_code MSG_SVC_RESTART = 203"

record message =
  m_type :: u32
  m_sender :: u32
  m_recipient :: u32
  m_seq :: u32
  m_len :: u32
  m_data :: "u8 list"

record channel =
  ch_fd :: int
  peer_pid :: u32
  local_pid :: u32
  ch_name :: string

text \<open>A message in memory: five little-endian words and the data.\<close>

definition word_bytes :: "u32 \<Rightarrow> u8 list" where
  "word_bytes w = [ucast w, ucast (drop_bit 8 w), ucast (drop_bit 16 w), ucast (drop_bit 24 w)]"

definition bytes_word :: "u8 list \<Rightarrow> u32" where
  "bytes_word b = ucast (b ! 0) OR push_bit 8 (ucast (b ! 1)) OR push_bit 16 (ucast (b ! 2)) OR push_bit 24 (ucast (b ! 3))"

definition message_bytes :: "message \<Rightarrow> u8 list" where
  "message_bytes m = word_bytes (m_type m) @ word_bytes (m_sender m) @ word_bytes (m_recipient m) @ word_bytes (m_seq m) @ word_bytes (m_len m) @ m_data m"

definition bytes_message :: "u8 list \<Rightarrow> message" where
  "bytes_message b = \<lparr>m_type = bytes_word b, m_sender = bytes_word (drop 4 b), m_recipient = bytes_word (drop 8 b),
     m_seq = bytes_word (drop 12 b), m_len = bytes_word (drop 16 b), m_data = drop 20 b\<rparr>"

definition SZ_MESSAGE :: nat where [kconst]: "SZ_MESSAGE = 276"

section \<open>Sending and receiving\<close>

function send_loop :: "(u8 list \<Rightarrow> 'os \<Rightarrow> (int \<times> 'os) option) \<Rightarrow> u8 list \<Rightarrow> nat \<Rightarrow> 'os \<Rightarrow> (int \<times> 'os) option" where
  "send_loop wr bs done os =
     (if done < length bs
      then case wr (drop done bs) os of
             None \<Rightarrow> None
           | Some (n, os') \<Rightarrow> if n \<le> 0 then Some (-1, os') else send_loop wr bs (done + nat n) os'
      else Some (0, os))"
  by pat_completeness auto
termination by (relation "measure (\<lambda>(wr, bs, done, os). length bs - done)") auto

definition ipc_send :: "(int \<Rightarrow> u8 list \<Rightarrow> 'os \<Rightarrow> (int \<times> 'os) option) \<Rightarrow> channel \<Rightarrow> message \<Rightarrow> 'os \<Rightarrow> (int \<times> message \<times> 'os) option" where
  "ipc_send sys_write ch msg os =
     (let m = msg\<lparr>m_sender := local_pid ch\<rparr>
      in map_option (\<lambda>(r, os'). (r, m, os')) (send_loop (sys_write (ch_fd ch)) (message_bytes m) 0 os))"

function recv_loop :: "(nat \<Rightarrow> 'os \<Rightarrow> (int \<times> u8 list \<times> 'os) option) \<Rightarrow> nat \<Rightarrow> u8 list \<Rightarrow> nat \<Rightarrow> 'os \<Rightarrow> (int \<times> u8 list \<times> 'os) option" where
  "recv_loop rd len b done os =
     (if done < len
      then case rd (len - done) os of
             None \<Rightarrow> None
           | Some (n, d, os') \<Rightarrow>
               if n \<le> 0 then Some (-1, b, os') else recv_loop rd len (take done b @ d @ drop (done + length d) b) (done + nat n) os'
      else Some (1, b, os))"
  by pat_completeness auto
termination by (relation "measure (\<lambda>(rd, len, b, done, os). len - done)") auto

declare send_loop.simps [simp del] recv_loop.simps [simp del]

definition ipc_recv_timeout :: "(int \<Rightarrow> int \<Rightarrow> 'os \<Rightarrow> int) \<Rightarrow> (int \<Rightarrow> nat \<Rightarrow> 'os \<Rightarrow> (int \<times> u8 list \<times> 'os) option)
    \<Rightarrow> channel \<Rightarrow> message \<Rightarrow> int \<Rightarrow> 'os \<Rightarrow> (int \<times> message \<times> 'os) option" where
  "ipc_recv_timeout poll sys_read ch msg ms os =
     (let r = poll (ch_fd ch) (if ms < 0 then -1 else ms) os
      in if r \<le> 0 then Some (r, msg, os)
         else map_option (\<lambda>(q, b, os'). (q, bytes_message b, os')) (recv_loop (sys_read (ch_fd ch)) SZ_MESSAGE (message_bytes msg) 0 os))"

definition ipc_recv :: "(int \<Rightarrow> int \<Rightarrow> 'os \<Rightarrow> int) \<Rightarrow> (int \<Rightarrow> nat \<Rightarrow> 'os \<Rightarrow> (int \<times> u8 list \<times> 'os) option)
    \<Rightarrow> channel \<Rightarrow> message \<Rightarrow> 'os \<Rightarrow> (int \<times> message \<times> 'os) option" where
  "ipc_recv poll sys_read ch msg os = ipc_recv_timeout poll sys_read ch msg (-1) os"

definition ipc_close :: "(int \<Rightarrow> 'os \<Rightarrow> 'os) \<Rightarrow> channel \<Rightarrow> 'os \<Rightarrow> channel \<times> 'os" where
  "ipc_close close ch os = (if ch_fd ch \<ge> 0 then (ch\<lparr>ch_fd := -1\<rparr>, close (ch_fd ch) os) else (ch, os))"

text \<open>The message of a call; \<open>data\<close> is \<open>None\<close> for a null pointer and holds at least \<open>len\<close> bytes otherwise.\<close>

definition call_message :: "u32 \<Rightarrow> u8 list option \<Rightarrow> u32 \<Rightarrow> message" where
  "call_message type data len =
     (let l = (if len < of_nat IPC_DATA_MAX then len else of_nat IPC_DATA_MAX); z = replicate IPC_DATA_MAX 0
      in \<lparr>m_type = type, m_sender = 0, m_recipient = 0, m_seq = 0, m_len = l,
          m_data = (case data of Some d \<Rightarrow> if 0 < len then take (unat l) d @ drop (unat l) z else z | None \<Rightarrow> z)\<rparr>)"

definition ipc_call :: "(int \<Rightarrow> u8 list \<Rightarrow> 'os \<Rightarrow> (int \<times> 'os) option) \<Rightarrow> (int \<Rightarrow> int \<Rightarrow> 'os \<Rightarrow> int)
    \<Rightarrow> (int \<Rightarrow> nat \<Rightarrow> 'os \<Rightarrow> (int \<times> u8 list \<times> 'os) option) \<Rightarrow> channel \<Rightarrow> u32 \<Rightarrow> u8 list option \<Rightarrow> u32 \<Rightarrow> message option \<Rightarrow> 'os
    \<Rightarrow> (int \<times> message option \<times> 'os) option" where
  "ipc_call sys_write poll sys_read ch type data len reply os =
     (case ipc_send sys_write ch (call_message type data len) os of
        None \<Rightarrow> None
      | Some (r, _, os1) \<Rightarrow>
          if r < 0 then Some (-1, reply, os1)
          else case reply of
                 None \<Rightarrow> Some (0, None, os1)
               | Some m \<Rightarrow> map_option (\<lambda>(q, m', os2). (q, Some m', os2)) (ipc_recv_timeout poll sys_read ch m 5000 os1))"

section \<open>Connections\<close>

text \<open>The socket calls of the system below, each with its result and the new state.\<close>

record 'os sockets =
  sk_socket :: "'os \<Rightarrow> int \<times> 'os"
  sk_nonblock :: "int \<Rightarrow> 'os \<Rightarrow> 'os"
  sk_unlink :: "string \<Rightarrow> 'os \<Rightarrow> 'os"
  sk_bind :: "int \<Rightarrow> string \<Rightarrow> 'os \<Rightarrow> int \<times> 'os"
  sk_listen :: "int \<Rightarrow> int \<Rightarrow> 'os \<Rightarrow> int \<times> 'os"
  sk_accept :: "int \<Rightarrow> 'os \<Rightarrow> int \<times> 'os"
  sk_connect :: "int \<Rightarrow> string \<Rightarrow> 'os \<Rightarrow> int \<times> 'os"
  sk_close :: "int \<Rightarrow> 'os \<Rightarrow> 'os"
  sk_getpid :: "'os \<Rightarrow> u32"

definition IPC_SOCKET_DIR :: string where "IPC_SOCKET_DIR = ''/run/ipc''"

text \<open>The path is cut to the 107 characters that fit into the address.\<close>

definition sun_path :: "string \<Rightarrow> string" where
  "sun_path nm = take 107 (IPC_SOCKET_DIR @ ''/'' @ nm @ ''.sock'')"

definition ipc_listen :: "'os sockets \<Rightarrow> string \<Rightarrow> 'os \<Rightarrow> int \<times> 'os" where
  "ipc_listen k nm os =
     (let (fd, os1) = sk_socket k os
      in if fd < 0 then (-1, os1)
         else let os2 = sk_unlink k (sun_path nm) (sk_nonblock k fd os1); (b, os3) = sk_bind k fd (sun_path nm) os2
              in if b < 0 then (-1, sk_close k fd os3)
                 else let (l, os4) = sk_listen k fd 16 os3
                      in if l < 0 then (-1, sk_close k fd os4) else (fd, os4))"

definition ipc_accept :: "'os sockets \<Rightarrow> int \<Rightarrow> channel \<Rightarrow> 'os \<Rightarrow> int \<times> channel \<times> 'os" where
  "ipc_accept k listen_fd ch os =
     (let (fd, os1) = sk_accept k listen_fd os
      in if fd < 0 then (-1, ch, os1)
         else (0, \<lparr>ch_fd = fd, peer_pid = 0, local_pid = sk_getpid k os1, ch_name = []\<rparr>, os1))"

definition ipc_connect :: "'os sockets \<Rightarrow> string \<Rightarrow> channel \<Rightarrow> 'os \<Rightarrow> int \<times> channel \<times> 'os" where
  "ipc_connect k nm ch os =
     (let (fd, os1) = sk_socket k os
      in if fd < 0 then (-1, ch, os1)
         else let (c, os2) = sk_connect k fd (sun_path nm) os1
              in if c < 0 then (-1, ch, sk_close k fd os2)
                 else (0, \<lparr>ch_fd = fd, peer_pid = 0, local_pid = sk_getpid k os2, ch_name = take 63 nm\<rparr>, os2))"

section \<open>Messages in memory\<close>

lemma word_bytes_length [simp]: "length (word_bytes w) = 4"
  by (simp add: word_bytes_def)

lemma bytes_word_bytes [simp]: "bytes_word (word_bytes w @ bs) = w"
proof (rule bit_word_eqI)
  fix k assume "k < LENGTH(32)"
  then consider "k < 8" | "8 \<le> k" "k < 16" | "16 \<le> k" "k < 24" | "24 \<le> k" "k < 32" by fastforce
  then show "bit (bytes_word (word_bytes w @ bs)) k = bit w k"
    by cases (auto simp: bytes_word_def word_bytes_def bit_simps)
qed

lemma bytes_message_bytes: "bytes_message (message_bytes m) = m"
  by (simp add: message_bytes_def bytes_message_def)

definition message_ok :: "message \<Rightarrow> bool" where
  "message_ok m \<longleftrightarrow> length (m_data m) = IPC_DATA_MAX"

lemma message_bytes_length: "message_ok m \<Longrightarrow> length (message_bytes m) = SZ_MESSAGE"
  by (simp add: message_ok_def message_bytes_def kconst)

section \<open>Streams of bytes\<close>

text \<open>
  What the library relies on: a write appends as many bytes as it reports to the bytes under way, a read takes as many as it reports from their
  front; a write for which there is room, and a read for which there are bytes, transfer something.
\<close>

locale byte_stream =
  fixes wr :: "u8 list \<Rightarrow> 'os \<Rightarrow> (int \<times> 'os) option" and rd :: "nat \<Rightarrow> 'os \<Rightarrow> (int \<times> u8 list \<times> 'os) option"
    and inflight :: "'os \<Rightarrow> u8 list" and ok :: "'os \<Rightarrow> bool" and cap :: nat
  assumes wr_law: "ok os \<Longrightarrow> wr bs os = Some (n, os') \<Longrightarrow> ok os' \<and> n \<le> int (length bs) \<and> inflight os' = inflight os @ take (nat n) bs"
    and wr_room: "ok os \<Longrightarrow> bs \<noteq> [] \<Longrightarrow> length (inflight os) + length bs \<le> cap \<Longrightarrow> \<exists>n os'. wr bs os = Some (n, os') \<and> 0 < n"
    and rd_law: "ok os \<Longrightarrow> rd k os = Some (n, d, os') \<Longrightarrow>
      ok os' \<and> n \<le> int k \<and> nat n \<le> length (inflight os) \<and> d = take (nat n) (inflight os) \<and> inflight os' = drop (nat n) (inflight os)"
    and rd_room: "ok os \<Longrightarrow> 0 < k \<Longrightarrow> k \<le> length (inflight os) \<Longrightarrow> \<exists>n d os'. rd k os = Some (n, d, os') \<and> 0 < n"
begin

lemma send_all:
  assumes "ok os" "i \<le> length bs" "length (inflight os) + (length bs - i) \<le> cap"
  shows "\<exists>os'. send_loop wr bs i os = Some (0, os') \<and> ok os' \<and> inflight os' = inflight os @ drop i bs"
  using assms
proof (induction "length bs - i" arbitrary: i os rule: less_induct)
  case less
  show ?case
  proof (cases "i < length bs")
    case True
    with wr_room [of os "drop i bs"] less.prems obtain n os' where w: "wr (drop i bs) os = Some (n, os')" "0 < n" by auto
    with wr_law [OF less.prems(1) w(1)] have l: "ok os'" "nat n \<le> length bs - i" "inflight os' = inflight os @ take (nat n) (drop i bs)" by auto
    have "\<exists>os''. send_loop wr bs (i + nat n) os' = Some (0, os'') \<and> ok os'' \<and> inflight os'' = inflight os' @ drop (i + nat n) bs"
      by (rule less.hyps) (use True w l less.prems in auto)
    moreover have "take (nat n) (drop i bs) @ drop (i + nat n) bs = drop i bs" by (metis add.commute append_take_drop_id drop_drop)
    ultimately show ?thesis using True w l by (auto simp: send_loop.simps [of wr bs i])
  qed (use less.prems in \<open>simp add: send_loop.simps\<close>)
qed

lemma recv_all:
  assumes "ok os" "i \<le> len" "len - i \<le> length (inflight os)" "length b = len"
  shows "\<exists>os'. recv_loop rd len b i os = Some (1, take i b @ take (len - i) (inflight os), os') \<and> ok os' \<and> inflight os' = drop (len - i) (inflight os)"
  using assms
proof (induction "len - i" arbitrary: i os b rule: less_induct)
  case less
  show ?case
  proof (cases "i < len")
    case True
    with rd_room [of os "len - i"] less.prems obtain n d os' where r: "rd (len - i) os = Some (n, d, os')" "0 < n" by auto
    with rd_law [OF less.prems(1) r(1)] have l: "ok os'" "nat n \<le> len - i" "nat n \<le> length (inflight os)"
      "d = take (nat n) (inflight os)" "inflight os' = drop (nat n) (inflight os)" by auto
    let ?b = "take i b @ d @ drop (i + length d) b"
    have ld: "length d = nat n" using l by simp
    have t: "take (i + nat n) ?b = take i b @ d" using ld True less.prems(4) by simp
    have j: "d @ take (len - (i + nat n)) (drop (nat n) (inflight os)) = take (len - i) (inflight os)"
      unfolding l(4) take_add [symmetric] using l(2) True by simp
    have "\<exists>os''. recv_loop rd len ?b (i + nat n) os' = Some (1, take (i + nat n) ?b @ take (len - (i + nat n)) (inflight os'), os'')
        \<and> ok os'' \<and> inflight os'' = drop (len - (i + nat n)) (inflight os')"
      by (rule less.hyps) (use True r l ld less.prems in auto)
    then show ?thesis using True r l(5) t j l(2) ld by (auto simp: recv_loop.simps [of rd len b i])
  qed (use less.prems in \<open>simp add: recv_loop.simps\<close>)
qed

end

section \<open>The kernel's pipes carry messages\<close>

text \<open>The calls of a program on the descriptors of a pipe; a call that waits for ever does not return.\<close>

definition fd_write :: "int \<Rightarrow> u8 list \<Rightarrow> 'a fs_state_scheme \<Rightarrow> (int \<times> 'a fs_state_scheme) option" where
  "fd_write fd d s = (case vfs_write fd d s of Inr (Returned n, s') \<Rightarrow> Some (n, s') | _ \<Rightarrow> None)"

definition fd_read :: "int \<Rightarrow> nat \<Rightarrow> 'a fs_state_scheme \<Rightarrow> (int \<times> u8 list \<times> 'a fs_state_scheme) option" where
  "fd_read fd n s = (case vfs_read fd n s of Inr (Returned r, d, s') \<Rightarrow> Some (r, d, s') | _ \<Rightarrow> None)"

definition pipe_open :: "nat \<Rightarrow> int \<Rightarrow> int \<Rightarrow> nat \<Rightarrow> 'a fs_state_scheme \<Rightarrow> bool" where
  "pipe_open t a b p s \<longleftrightarrow> pipe_ends t a b p s \<and> pipe_inv (pipe_at s p) \<and> \<not> read_closed (pipe_at s p)"

lemma fd_write_pipe:
  assumes "pipe_open t a b p s"
  shows "\<exists>q. fd_write b d s = (if used (pipe_at s p) + length d \<le> PIPE_BUF_SIZE then Some (int (length d), s\<lparr>pipe_at := (pipe_at s)(p := q)\<rparr>) else None)
    \<and> pipe_open t a b p (s\<lparr>pipe_at := (pipe_at s)(p := q)\<rparr>)
    \<and> (used (pipe_at s p) + length d \<le> PIPE_BUF_SIZE \<longrightarrow> pipe_bytes q = pipe_bytes (pipe_at s p) @ d)"
proof -
  from assms obtain wrf where w: "fd_file b s = Some (t, wrf)" "f_ops (file_at s wrf) = Some Pipe_write_ops" "file_pipe wrf s = Inr p" "p \<noteq> 0"
    and i: "pipe_inv (pipe_at s p)" "\<not> read_closed (pipe_at s p)" "used (pipe_at s p) \<le> PIPE_BUF_SIZE"
    by (auto simp: pipe_open_def pipe_ends_def pipe_inv_def)
  from write_loop_ok [OF i(1), of 0 d] obtain n q where q: "write_loop d 0 (pipe_at s p) = (n = length d, n, q)" "pipe_inv q"
      "n = min (length d) (PIPE_BUF_SIZE - used (pipe_at s p))" "pipe_bytes q = pipe_bytes (pipe_at s p) @ take n d" "read_closed q = read_closed (pipe_at s p)"
    by auto
  have "n = length d \<longleftrightarrow> used (pipe_at s p) + length d \<le> PIPE_BUF_SIZE" using q(3) i(3) by auto
  then show ?thesis using w i q assms
    by (intro exI [of _ q]) (auto simp: fd_write_def vfs_write_def ops_write_def pipe_ref_def pipe_write_def pipe_store_def pipe_open_def)
qed

lemma fd_read_pipe:
  assumes "pipe_open t a b p s"
  shows "\<exists>q. fd_read a k s = (if k \<le> used (pipe_at s p) \<or> write_closed (pipe_at s p)
      then Some (int (min k (used (pipe_at s p))), take k (pipe_bytes (pipe_at s p)), s\<lparr>pipe_at := (pipe_at s)(p := q)\<rparr>) else None)
    \<and> pipe_open t a b p (s\<lparr>pipe_at := (pipe_at s)(p := q)\<rparr>) \<and> pipe_bytes q = drop k (pipe_bytes (pipe_at s p))"
proof -
  from assms obtain rf where w: "fd_file a s = Some (t, rf)" "f_ops (file_at s rf) = Some Pipe_read_ops" "file_pipe rf s = Inr p" "p \<noteq> 0"
    and i: "pipe_inv (pipe_at s p)" "\<not> read_closed (pipe_at s p)"
    by (auto simp: pipe_open_def pipe_ends_def)
  from read_loop_ok [OF i(1), of "[]" k] obtain q where q: "read_loop k [] (pipe_at s p) = (k \<le> used (pipe_at s p) \<or> write_closed (pipe_at s p), take k (pipe_bytes (pipe_at s p)), q)"
      "pipe_inv q" "pipe_bytes q = drop k (pipe_bytes (pipe_at s p))" "read_closed q = read_closed (pipe_at s p)"
    by auto
  then show ?thesis using w i assms
    by (intro exI [of _ q])
      (auto simp: fd_read_def vfs_read_def ops_read_def pipe_ref_def pipe_read_def pipe_store_def pipe_open_def pipe_used min.commute)
qed

interpretation kp: byte_stream "fd_write b" "fd_read a" "\<lambda>s. pipe_bytes (pipe_at s p)" "pipe_open t a b p" PIPE_BUF_SIZE for t a b p
proof
  fix s s' :: "'a fs_state_scheme" and d n
  assume o: "pipe_open t a b p s" and w: "fd_write b d s = Some (n, s')"
  then show "pipe_open t a b p s' \<and> n \<le> int (length d) \<and> pipe_bytes (pipe_at s' p) = pipe_bytes (pipe_at s p) @ take (nat n) d"
    using fd_write_pipe [OF o, of d] by (auto split: if_splits)
next
  fix s s' :: "'a fs_state_scheme" and k n d
  assume o: "pipe_open t a b p s" and r: "fd_read a k s = Some (n, d, s')"
  then show "pipe_open t a b p s' \<and> n \<le> int k \<and> nat n \<le> length (pipe_bytes (pipe_at s p)) \<and> d = take (nat n) (pipe_bytes (pipe_at s p))
      \<and> pipe_bytes (pipe_at s' p) = drop (nat n) (pipe_bytes (pipe_at s p))"
    using fd_read_pipe [OF o, of k] by (auto simp: pipe_used min_def split: if_splits)
next
  fix s :: "'a fs_state_scheme" and d :: "u8 list"
  assume o: "pipe_open t a b p s" and "d \<noteq> []" "length (pipe_bytes (pipe_at s p)) + length d \<le> PIPE_BUF_SIZE"
  then show "\<exists>n s'. fd_write b d s = Some (n, s') \<and> 0 < n" using fd_write_pipe [OF o, of d] by (auto simp: pipe_used)
next
  fix s :: "'a fs_state_scheme" and k :: nat
  assume o: "pipe_open t a b p s" and "0 < k" "k \<le> length (pipe_bytes (pipe_at s p))"
  then show "\<exists>n d s'. fd_read a k s = Some (n, d, s') \<and> 0 < n" using fd_read_pipe [OF o, of k] by (auto simp: pipe_used)
qed

section \<open>Delivery\<close>

text \<open>The messages under way, oldest first.\<close>

definition queued :: "('os \<Rightarrow> u8 list) \<Rightarrow> message list \<Rightarrow> 'os \<Rightarrow> bool" where
  "queued inflight ms os \<longleftrightarrow> inflight os = concat (map message_bytes ms) \<and> (\<forall>m \<in> set ms. message_ok m)"

lemma queued_length: "queued inflight ms os \<Longrightarrow> length (inflight os) = SZ_MESSAGE * length ms"
proof -
  have "(\<forall>m \<in> set ms. message_ok m) \<Longrightarrow> length (concat (map message_bytes ms)) = SZ_MESSAGE * length ms"
    by (induction ms) (simp_all add: message_bytes_length)
  then show "queued inflight ms os \<Longrightarrow> length (inflight os) = SZ_MESSAGE * length ms" by (simp add: queued_def)
qed

lemma send_queues:
  assumes "byte_stream (sys_write (ch_fd ch)) rd inflight ok cap" "ok os" "queued inflight ms os" "message_ok m" "SZ_MESSAGE * (length ms + 1) \<le> cap"
  shows "\<exists>os'. ipc_send sys_write ch m os = Some (0, m\<lparr>m_sender := local_pid ch\<rparr>, os') \<and> ok os' \<and> queued inflight (ms @ [m\<lparr>m_sender := local_pid ch\<rparr>]) os'"
proof -
  let ?m = "m\<lparr>m_sender := local_pid ch\<rparr>"
  have "message_ok ?m" using assms(4) by (simp add: message_ok_def)
  then show ?thesis
    using byte_stream.send_all [OF assms(1,2), of 0 "message_bytes ?m"] queued_length [OF assms(3)] assms(3,5) message_bytes_length [of ?m]
    by (auto simp: ipc_send_def queued_def)
qed

lemma recv_dequeues:
  assumes "byte_stream wr (sys_read (ch_fd ch)) inflight ok cap" "ok os" "queued inflight (m # ms) os" "message_ok old" "0 < poll (ch_fd ch) (if ms' < 0 then -1 else ms') os"
  shows "\<exists>os'. ipc_recv_timeout poll sys_read ch old ms' os = Some (1, m, os') \<and> ok os' \<and> queued inflight ms os'"
proof -
  have l: "length (message_bytes m) = SZ_MESSAGE" using assms(3) by (simp add: queued_def message_bytes_length)
  have "inflight os = message_bytes m @ concat (map message_bytes ms)" using assms(3) by (simp add: queued_def)
  then show ?thesis
    using byte_stream.recv_all [OF assms(1,2), of 0 SZ_MESSAGE "message_bytes old"] message_bytes_length [OF assms(4)] assms(3,5) l
    by (auto simp: ipc_recv_timeout_def queued_def bytes_message_bytes)
qed

text \<open>
  C35: Over any stream of bytes, however its writes and reads split the data, messages arrive whole and in the order they were sent: sending puts the message,
  stamped with the sender's number, behind those under way as long as the stream has room, and receiving gives the oldest of them and removes it.
\<close>

theorem ipc_delivers_in_order:
  assumes "byte_stream (sys_write (ch_fd a)) (sys_read (ch_fd b)) inflight ok cap" "ok os" "queued inflight ms os" "message_ok m" "message_ok old"
    and "SZ_MESSAGE * (length ms + 1) \<le> cap" and poll: "\<And>os. inflight os \<noteq> [] \<Longrightarrow> 0 < poll (ch_fd b) (-1) os"
  shows "\<exists>os' os''. ipc_send sys_write a m os = Some (0, m\<lparr>m_sender := local_pid a\<rparr>, os')
    \<and> ipc_recv poll sys_read b old os' = Some (1, hd (ms @ [m\<lparr>m_sender := local_pid a\<rparr>]), os'')
    \<and> queued inflight (tl (ms @ [m\<lparr>m_sender := local_pid a\<rparr>])) os'' \<and> ok os''"
proof -
  let ?ms = "ms @ [m\<lparr>m_sender := local_pid a\<rparr>]"
  from send_queues [where sys_write = sys_write and ch = a, OF assms(1-4,6)] obtain os' where
    s: "ipc_send sys_write a m os = Some (0, m\<lparr>m_sender := local_pid a\<rparr>, os')" "ok os'" "queued inflight ?ms os'" by blast
  then have q: "queued inflight (hd ?ms # tl ?ms) os'" by simp
  have "inflight os' \<noteq> []" using queued_length [OF s(3)] by (auto simp: kconst)
  then have "0 < poll (ch_fd b) (if (-1 :: int) < 0 then -1 else -1) os'" using poll by simp
  from recv_dequeues [where sys_read = sys_read and ch = b and poll = poll and ms' = "-1", OF assms(1) s(2) q assms(5) this] s(1) show ?thesis by (auto simp: ipc_recv_def)
qed

text \<open>Two messages through a pipe of the kernel.\<close>

definition ping :: message where
  "ping = call_message (message_code MSG_PING) (Some [1, 2, 3]) 3"

theorem ipc_delivers_in_order_witness:
  "\<exists>k p s' s''. pipe_create one_task_fs = Inr (0, Some (3, 4), k)
    \<and> ipc_send fd_write \<lparr>ch_fd = 4, peer_pid = 0, local_pid = 7, ch_name = []\<rparr> ping k = Some (0, ping\<lparr>m_sender := 7\<rparr>, s')
    \<and> ipc_recv (\<lambda>fd ms s. if pipe_bytes (pipe_at s p) = [] then 0 else 1) fd_read \<lparr>ch_fd = 3, peer_pid = 0, local_pid = 8, ch_name = []\<rparr> ping s'
      = Some (1, ping\<lparr>m_sender := 7\<rparr>, s'')"
proof -
  obtain k where c: "pipe_create one_task_fs = Inr (0, Some (3, 4), k)" using one_task_pipe by blast
  have "heap_used one_task_fs {}" using one_task_heap by (auto simp: heap_used_def)
  from pipe_create_ends [OF this c] obtain t p where e: "pipe_ends t 3 4 p k" "pipe_at k p = pipe_zero" by blast
  let ?a = "\<lparr>ch_fd = 4, peer_pid = 0, local_pid = 7, ch_name = []\<rparr>"
  let ?b = "\<lparr>ch_fd = 3, peer_pid = 0, local_pid = 8, ch_name = []\<rparr>"
  have z: "pipe_open t 3 4 p k" "queued (\<lambda>s. pipe_bytes (pipe_at s p)) [] k"
    using e by (simp_all add: pipe_open_def pipe_inv_def pipe_zero_def pipe_bytes_def queued_def kconst)
  have m: "message_ok ping" by (simp add: message_ok_def ping_def call_message_def kconst)
  have b: "byte_stream (fd_write (ch_fd ?a)) (fd_read (ch_fd ?b)) (\<lambda>s. pipe_bytes (pipe_at s p)) (pipe_open t 3 4 p) PIPE_BUF_SIZE"
    using kp.byte_stream_axioms [of 4 3 p t] by simp
  have "SZ_MESSAGE * (length ([] :: message list) + 1) \<le> PIPE_BUF_SIZE" by (simp add: kconst)
  from ipc_delivers_in_order [where poll = "\<lambda>fd ms s. if pipe_bytes (pipe_at s p) = [] then 0 else 1" and a = ?a and b = ?b and sys_write = fd_write and sys_read = fd_read, OF b z m m this] c show ?thesis by auto
qed

text \<open>
  The time limit covers the first byte only: while a part of a message is in the pipe and its writer has not closed it, a receive does not return,
  whatever the limit.
\<close>

theorem timeout_not_kept:
  assumes "pipe_open t (ch_fd ch) b p s" "0 < used (pipe_at s p)" "used (pipe_at s p) < SZ_MESSAGE" "\<not> write_closed (pipe_at s p)"
    and "0 < poll (ch_fd ch) (if ms < 0 then -1 else ms) s"
  shows "ipc_recv_timeout poll fd_read ch old ms s = None"
proof -
  have "fd_read (ch_fd ch) SZ_MESSAGE s = None" using fd_read_pipe [OF assms(1), of SZ_MESSAGE] assms(3,4) by auto
  then show ?thesis using assms(5) by (simp add: ipc_recv_timeout_def recv_loop.simps [of "fd_read (ch_fd ch)"] SZ_MESSAGE_def)
qed

section \<open>Descriptors of connections\<close>

text \<open>What the socket calls do to the set of open descriptors.\<close>

definition socket_laws :: "'os sockets \<Rightarrow> ('os \<Rightarrow> int set) \<Rightarrow> bool" where
  "socket_laws k fds \<longleftrightarrow>
     (\<forall>os. case sk_socket k os of (fd, os') \<Rightarrow> fds os' = (if fd < 0 then fds os else insert fd (fds os)) \<and> fd \<notin> fds os)
     \<and> (\<forall>os l. case sk_accept k l os of (fd, os') \<Rightarrow> fds os' = (if fd < 0 then fds os else insert fd (fds os)) \<and> fd \<notin> fds os)
     \<and> (\<forall>os fd. fds (sk_close k fd os) = fds os - {fd} \<and> fds (sk_nonblock k fd os) = fds os)
     \<and> (\<forall>os fd p. fds (sk_unlink k p os) = fds os \<and> fds (snd (sk_bind k fd p os)) = fds os \<and> fds (snd (sk_connect k fd p os)) = fds os)
     \<and> (\<forall>os fd n. fds (snd (sk_listen k fd n os)) = fds os)"

text \<open>
  No connection call leaks a descriptor: when one fails, at whatever step, the open descriptors are those of before, and when it
  succeeds exactly the descriptor it reports has been added.
\<close>

theorem connections_leak_nothing:
  assumes "socket_laws k fds"
  shows "case ipc_listen k nm os of (r, os') \<Rightarrow> fds os' = (if r < 0 then fds os else insert r (fds os))"
    and "case ipc_connect k nm ch os of (r, ch', os') \<Rightarrow> fds os' = (if r < 0 then fds os else insert (ch_fd ch') (fds os))"
    and "case ipc_accept k l ch os of (r, ch', os') \<Rightarrow> fds os' = (if r < 0 then fds os else insert (ch_fd ch') (fds os))"
proof -
  obtain fd os1 where s: "sk_socket k os = (fd, os1)" by fastforce
  obtain c oc where c: "sk_connect k fd (sun_path nm) os1 = (c, oc)" by fastforce
  obtain a oa where a: "sk_accept k l os = (a, oa)" by fastforce
  obtain b ob where b: "sk_bind k fd (sun_path nm) (sk_unlink k (sun_path nm) (sk_nonblock k fd os1)) = (b, ob)" by fastforce
  obtain q oq where q: "sk_listen k fd 16 ob = (q, oq)" by fastforce
  have f: "fds os1 = (if fd < 0 then fds os else insert fd (fds os))" "fd \<notin> fds os" "fds oa = (if a < 0 then fds os else insert a (fds os))"
    using assms s a by (auto simp: socket_laws_def split: prod.splits)
  have g: "fds oc = fds os1" "fds ob = fds os1" "fds oq = fds ob" "fds (sk_close k x y) = fds y - {x}" for x y
    using assms c b q unfolding socket_laws_def by (metis snd_conv)+
  show "case ipc_listen k nm os of (r, os') \<Rightarrow> fds os' = (if r < 0 then fds os else insert r (fds os))"
    using f g by (auto simp: ipc_listen_def s b q Let_def)
  show "case ipc_connect k nm ch os of (r, ch', os') \<Rightarrow> fds os' = (if r < 0 then fds os else insert (ch_fd ch') (fds os))"
    using f g by (auto simp: ipc_connect_def s c Let_def)
  show "case ipc_accept k l ch os of (r, ch', os') \<Rightarrow> fds os' = (if r < 0 then fds os else insert (ch_fd ch') (fds os))"
    using f by (auto simp: ipc_accept_def a Let_def)
qed

end
