(* ===== verification/Gui_Text.thy ===== *)
theory Gui_Text
  imports Gui
begin

text \<open>
  What the desktop programs share: numbers as \<^verbatim>\<open>snprintf\<close> prints them, lines of text as pictures, and loops that draw with text in them.
\<close>

section \<open>Numbers\<close>

text \<open>The conversions \<^verbatim>\<open>%ld\<close> and \<^verbatim>\<open>%lld\<close>.\<close>

fun show_nat :: "nat \<Rightarrow> string" where
  "show_nat n = (if n < 10 then [char_of (48 + n)] else show_nat (n div 10) @ [char_of (48 + n mod 10)])"

declare show_nat.simps [simp del]

definition show_int :: "int \<Rightarrow> string" where
  "show_int k = (if k < 0 then CHR ''-'' # show_nat (nat (- k)) else show_nat (nat k))"

section \<open>Text\<close>

lemma paints_char: "wc.paints (char_plot cx cy bg) (box cx (cx + 8) cy (cy + 16) bg)"
  using wc.paints_cells_at [of 16 8 cx cy "\<lambda>_ _. bg"] by (simp add: char_plot_def box_def)

lemma paints_text: "plain t \<Longrightarrow> wc.paints (text_plot x cx y t bg :: 'cb window \<Rightarrow> 'cb window) (box cx (cx + 8 * int (length t)) y (y + 16) bg)"
proof (induction t arbitrary: cx)
  case Nil
  have "box cx cx y (y + 16) bg = blank" by (auto simp: box_def blank_def fun_eq_iff)
  then show ?case using wc.paints_skip by simp
next
  case (Cons c t)
  have "over (box (cx + 8) (cx + 8 + 8 * int (length t)) y (y + 16) bg) (box cx (cx + 8) y (y + 16) bg) = box cx (cx + 8 * int (length (c # t))) y (y + 16) bg"
    by (auto simp: over_apply box_def fun_eq_iff)
  moreover have "wc.paints (text_plot x (cx + 8) y t bg :: 'cb window \<Rightarrow> 'cb window) (box (cx + 8) (cx + 8 + 8 * int (length t)) y (y + 16) bg)"
    by (rule Cons.IH) (use Cons.prems in simp)
  ultimately have "wc.paints (\<lambda>w :: 'cb window. text_plot x (cx + 8) y t bg (char_plot cx y bg w)) (box cx (cx + 8 * int (length (c # t))) y (y + 16) bg)"
    using wc.paints_comp [OF paints_char [of cx y bg]] by metis
  then show ?case using Cons.prems by simp
qed

lemma text_plain: "win_ok w \<Longrightarrow> plain t \<Longrightarrow> y + 16 \<le> r_h (win_rect w) \<Longrightarrow> gui_draw_text x y t c bg w = Some (text_plot x x y t bg w)"
  unfolding gui_draw_text_def by (intro draw_text_fits text_fits_plain)

lemma digit_plain: "k < 10 \<Longrightarrow> CHR 0x0A \<noteq> char_of (48 + k :: nat) \<and> CHR 0x09 \<noteq> char_of (48 + k :: nat)"
proof -
  assume k: "k < 10"
  have e: "(of_char (char_of (48 + k :: nat) :: char) :: nat) = 48 + k" using k by simp
  show ?thesis
  proof (intro conjI notI)
    assume "CHR 0x0A = char_of (48 + k :: nat)"
    from this [symmetric] show False using e by (simp del: of_char_of)
  next
    assume "CHR 0x09 = char_of (48 + k :: nat)"
    from this [symmetric] show False using e by (simp del: of_char_of)
  qed
qed

lemma show_nat_plain: "plain (show_nat n)"
proof (induction n rule: show_nat.induct)
  case (1 n)
  then show ?case using digit_plain [of n] digit_plain [of "n mod 10"] by (simp add: show_nat.simps [of n] plain_def)
qed

lemma plain_append [simp]: "plain (a @ b) \<longleftrightarrow> plain a \<and> plain b"
  by (auto simp: plain_def)

lemma plain_take: "plain t \<Longrightarrow> plain (take n t)"
  unfolding plain_def by (meson in_set_takeD)

lemma show_int_plain: "plain (show_int k)"
  by (simp add: show_int_def show_nat_plain)

section \<open>Loops\<close>

lemma draws_rows:
  assumes "\<And>i v. a \<le> i \<Longrightarrow> i < b \<Longrightarrow> win_ok v \<Longrightarrow> win_rect v = R \<Longrightarrow> f i v = Some (g i v) \<and> win_ok (g i v) \<and> win_rect (g i v) = R"
    and "win_ok w" "win_rect w = R"
  shows "for_range a b (\<lambda>i ov. do { v \<leftarrow> ov; f i v }) (Some w) = Some (for_range a b g w) \<and> win_ok (for_range a b g w) \<and> win_rect (for_range a b g w) = R"
  by (rule for_range_sim [where R = "\<lambda>ov v. ov = Some v \<and> win_ok v \<and> win_rect v = R"]) (use assms in auto)

section \<open>Drawing below a line of the window\<close>

text \<open>Drawing that succeeds and changes no row above \<open>y0\<close>.\<close>

definition drawn_below :: "int \<Rightarrow> 'cb window \<Rightarrow> 'cb window option \<Rightarrow> bool" where
  "drawn_below y0 w ow \<longleftrightarrow> (\<exists>v. ow = Some v \<and> win_ok v \<and> win_rect v = win_rect w
     \<and> (\<forall>x y. in_window w x y \<and> y < y0 \<longrightarrow> pixel v x y = pixel w x y))"

lemma below_plot: "wc.confined (\<lambda>x y. y0 \<le> y) f \<Longrightarrow> win_ok w \<Longrightarrow> win_rect (f w) = win_rect w \<Longrightarrow> drawn_below y0 w (Some (f w))"
  using wc.confinedD [of "\<lambda>x y. y0 \<le> y" f w] by (auto simp: drawn_below_def)

lemma below_bind:
  assumes "drawn_below y0 w ov" "\<And>v. win_ok v \<Longrightarrow> win_rect v = win_rect w \<Longrightarrow> drawn_below y0 v (f v)"
  shows "drawn_below y0 w (Option.bind ov f)"
proof -
  obtain v where v: "ov = Some v" "win_ok v" "win_rect v = win_rect w" "\<forall>x y. in_window w x y \<and> y < y0 \<longrightarrow> pixel v x y = pixel w x y"
    using assms(1) by (auto simp: drawn_below_def)
  then show ?thesis using assms(2) [OF v(2,3)] by (auto simp: drawn_below_def in_window_def)
qed

lemma below_seq: "drawn_below y0 w (Some v) \<Longrightarrow> (win_ok v \<Longrightarrow> win_rect v = win_rect w \<Longrightarrow> drawn_below y0 v ov) \<Longrightarrow> drawn_below y0 w ov"
  by (fastforce simp: drawn_below_def in_window_def)

lemma below_skip: "win_ok w \<Longrightarrow> drawn_below y0 w (Some w)"
  by (simp add: drawn_below_def)

lemma below_fill: "win_ok w \<Longrightarrow> y0 \<le> r_y r \<Longrightarrow> drawn_below y0 w (Some (gui_draw_fill r c w))"
  by (rule below_plot [OF wc.confined_paints [OF paints_fill]]) (auto simp: rect_pic_def box_def split: if_splits)

lemma below_bevel: "win_ok w \<Longrightarrow> y0 \<le> r_y r \<Longrightarrow> 2 < r_w r \<Longrightarrow> 2 < r_h r \<Longrightarrow> drawn_below y0 w (Some (gui_draw_bevel r b w))"
  by (rule below_plot [OF wc.confined_paints [OF paints_bevel]])
    (auto simp: bevel_pic_def edge_pic_def over_apply rect_contains_def split: if_splits option.splits)

text \<open>A text with at most one newline, at its end.\<close>

definition one_line :: "string \<Rightarrow> bool" where
  "one_line t \<longleftrightarrow> CHR 0x0A \<notin> set (butlast t)"

lemma one_line_fits: "one_line t \<Longrightarrow> y + 16 \<le> h \<Longrightarrow> text_fits h y t"
  by (induction t) (auto simp: one_line_def split: if_splits)

lemma plain_one_line: "plain t \<Longrightarrow> one_line t"
  by (auto simp: plain_def one_line_def dest: in_set_butlastD)

lemma one_line_prefix: "one_line (s @ t) \<Longrightarrow> one_line s"
  by (auto simp: one_line_def butlast_append dest: in_set_butlastD split: if_splits)

lemma text_in_below: "y0 \<le> y \<Longrightarrow> text_in (\<lambda>x y. y0 \<le> y) x cx y t"
  by (induction t arbitrary: cx y) auto

lemma below_text: "win_ok w \<Longrightarrow> one_line t \<Longrightarrow> y0 \<le> y \<Longrightarrow> y + 16 \<le> r_h (win_rect w) \<Longrightarrow> drawn_below y0 w (gui_draw_text x y t c bg w)"
proof -
  assume a: "win_ok w" "one_line t" "y0 \<le> y" "y + 16 \<le> r_h (win_rect w)"
  then have "gui_draw_text x y t c bg w = Some (text_plot x x y t bg w)"
    unfolding gui_draw_text_def by (intro draw_text_fits one_line_fits)
  moreover have "drawn_below y0 w (Some (text_plot x x y t bg w))"
    by (rule below_plot [OF confined_text [OF text_in_below [OF a(3)]] a(1)]) simp
  ultimately show ?thesis by simp
qed

lemma below_button:
  assumes "win_ok w" "r_y r + r_h r \<le> r_h (win_rect w)" "y0 \<le> r_y r" "widget_fits (Button l p f) r"
  shows "drawn_below y0 w (gui_button_draw r l p f w)"
  using button_inside [OF assms(1,2,4)] assms(3) by (auto simp: drawn_in_def drawn_below_def rect_contains_def)

lemma below_range:
  assumes "\<And>i v. a \<le> i \<Longrightarrow> i < b \<Longrightarrow> win_ok v \<Longrightarrow> win_rect v = win_rect w \<Longrightarrow> drawn_below y0 v (f i v)" "win_ok w"
  shows "drawn_below y0 w (for_range a b (\<lambda>i ov. do { v \<leftarrow> ov; f i v }) (Some w))"
proof -
  have "drawn_below y0 w (fold (\<lambda>i ov. do { v \<leftarrow> ov; f i v }) is ov)" if "set is \<subseteq> {a ..< b}" "drawn_below y0 w ov" for "is" ov
    using that
  proof (induction "is" arbitrary: ov)
    case (Cons i "is")
    then show ?case using below_bind [OF Cons.prems(2)] assms(1) [of i] by simp
  qed simp
  note step = this
  show ?thesis unfolding for_range_def by (rule step) (use below_skip [OF assms(2)] in auto)
qed

end
