(* ===== verification/Scroll.thy ===== *)
theory Scroll
  imports Gui_Text "HOL-Library.Multiset" "HOL-Library.List_Lexorder" "HOL-Library.Char_ord"
begin

text \<open>
  The file manager, \<^verbatim>\<open>src/desktop/fileman/scroll.c\<close>: two panes with a path, the entries of the directory and a selection, drawn with the
  widget library. The directory and status calls of the system are arguments: \<open>ls\<close> gives the names in a directory in the order of \<^verbatim>\<open>readdir\<close>, if it
  can be opened, and \<open>st\<close> size, mode and time of a file.
\<close>

section \<open>Entries and panes\<close>

definition MAX_FILES :: nat where [kconst]: "MAX_FILES = 1024"
definition MAX_PATH :: nat where [kconst]: "MAX_PATH = 4096"

record file_entry =
  fe_name :: string
  fe_size :: int
  fe_mode :: u32
  fe_mtime :: int
  fe_is_dir :: bool

record pane =
  p_path :: string
  p_files :: "file_entry list"
  p_count :: nat
  p_sel :: int
  p_scroll :: int

record scroll =
  left :: pane
  right :: pane
  left_active :: bool

section \<open>Reading a directory\<close>

type_synonym listing = "string \<Rightarrow> string list option"
type_synonym status = "string \<Rightarrow> (int \<times> u32 \<times> int) option"

definition S_ISDIR :: "u32 \<Rightarrow> bool" where
  "S_ISDIR m \<longleftrightarrow> m AND 0xF000 = 0x4000"

text \<open>The sign of \<^verbatim>\<open>strcmp\<close>.\<close>

fun strcmp_gt :: "string \<Rightarrow> string \<Rightarrow> bool" where
  "strcmp_gt [] b = False"
| "strcmp_gt (c # a) [] = True"
| "strcmp_gt (c # a) (d # b) = (if c = d then strcmp_gt a b else (of_char d :: nat) < of_char c)"

text \<open>An entry that fails to report its status keeps what the array held before.\<close>

definition fill_entry :: "status \<Rightarrow> string \<Rightarrow> string \<Rightarrow> file_entry \<Rightarrow> file_entry" where
  "fill_entry st path d fe =
     (let fe1 = fe\<lparr>fe_name := take 255 d\<rparr>; full = take (MAX_PATH - 1) (path @ ''/'' @ d)
      in case st full of
           None \<Rightarrow> fe1
         | Some (sz, md, mt) \<Rightarrow> fe1\<lparr>fe_size := sz, fe_mode := md, fe_mtime := mt, fe_is_dir := S_ISDIR md\<rparr>)"

fun fill_entries :: "status \<Rightarrow> string \<Rightarrow> nat \<Rightarrow> string list \<Rightarrow> nat \<Rightarrow> file_entry list \<Rightarrow> nat \<times> file_entry list" where
  "fill_entries st path mx [] n es = (n, es)"
| "fill_entries st path mx (d # ds) n es =
     (if \<not> n < mx then (n, es)
      else if d = ''.'' then fill_entries st path mx ds n es
      else fill_entries st path mx ds (n + 1) (es[n := fill_entry st path d (es ! n)]))"

definition must_swap :: "file_entry \<Rightarrow> file_entry \<Rightarrow> bool" where
  "must_swap a b \<longleftrightarrow>
     (if fe_is_dir a = fe_is_dir b then strcmp_gt (fe_name a) (fe_name b) else \<not> fe_is_dir a \<and> fe_is_dir b)"

definition sort_step :: "nat \<Rightarrow> nat \<Rightarrow> file_entry list \<Rightarrow> file_entry list" where
  "sort_step i j es = (if must_swap (es ! i) (es ! j) then es[i := es ! j, j := es ! i] else es)"

definition sort_entries :: "nat \<Rightarrow> file_entry list \<Rightarrow> file_entry list" where
  "sort_entries n es = fold (\<lambda>i. fold (sort_step i) [i + 1 ..< n]) [0 ..< n - 1] es"

definition read_dir :: "listing \<Rightarrow> status \<Rightarrow> string \<Rightarrow> nat \<Rightarrow> file_entry list \<Rightarrow> nat \<times> file_entry list" where
  "read_dir ls st path mx es =
     (case ls path of
        None \<Rightarrow> (0, es)
      | Some ds \<Rightarrow> (case fill_entries st path mx ds 0 es of (n, es') \<Rightarrow> (n, sort_entries n es')))"

section \<open>Drawing\<close>

definition fmt_size :: "int \<Rightarrow> nat \<Rightarrow> string" where
  "fmt_size sz bufsz = take (bufsz - 1)
     (if sz < 1024 then show_int sz
      else if sz < 1048576 then show_int (sz sdiv 1024) @ ''k''
      else show_int (sz sdiv 1048576) @ ''M'')"

definition row_back :: "pane \<Rightarrow> bool \<Rightarrow> int \<Rightarrow> u32" where
  "row_back p active idx = (if idx = p_sel p \<and> active then GUI_MENU_HIGHLIGHT else if idx = p_sel p then GUI_LIGHT_GRAY else GUI_WHITE)"

definition draw_row :: "rect \<Rightarrow> pane \<Rightarrow> bool \<Rightarrow> int \<Rightarrow> 'cb window \<Rightarrow> 'cb window option" where
  "draw_row list_r p active i w =
     (let idx = i + p_scroll p; fe = p_files p ! nat idx;
          ir = rect_make (r_x list_r) (r_y list_r + i * 16) (r_w list_r) 16;
          bg = row_back p active idx; fg = (if idx = p_sel p \<and> active then GUI_WHITE else GUI_TEXT);
          nm = (if fe_is_dir fe then ''['' @ fe_name fe @ '']'' else '' '' @ fe_name fe)
      in do {
        v \<leftarrow> gui_draw_text (r_x ir + 2) (r_y ir) nm fg bg (gui_draw_fill ir bg w);
        if fe_is_dir fe then Some v
        else (let sz = fmt_size (fe_size fe) 16 in gui_draw_text (r_x ir + r_w ir - int (length sz) * 8 - 4) (r_y ir) sz fg bg v) })"

definition list_rect :: "rect \<Rightarrow> rect" where
  "list_rect r = rect_make (r_x r + 2) (r_y r + 20) (r_w r - 4) (r_h r - 22)"

text \<open>The number of rows that are drawn.\<close>

definition rows_shown :: "rect \<Rightarrow> pane \<Rightarrow> int" where
  "rows_shown r p = min (r_h (list_rect r) sdiv 16) (int (p_count p) - p_scroll p)"

definition draw_pane :: "rect \<Rightarrow> pane \<Rightarrow> bool \<Rightarrow> 'cb window \<Rightarrow> 'cb window option" where
  "draw_pane r p active w =
     (let w1 = gui_draw_bevel r False (gui_draw_fill r GUI_WHITE w);
          path_r = rect_make (r_x r + 2) (r_y r + 2) (r_w r - 4) 16;
          bg = (if active then GUI_TITLEBAR_ACTIVE else GUI_BTN_FACE)
      in do {
        w2 \<leftarrow> gui_draw_text (r_x path_r + 2) (r_y path_r) (p_path p) (if active then GUI_WHITE else GUI_TEXT) bg (gui_draw_fill path_r bg w1);
        for_range 0 (rows_shown r p) (\<lambda>i ov. do { v \<leftarrow> ov; draw_row (list_rect r) p active i v }) (Some w2) })"

definition toolbar_btns :: "string list" where
  "toolbar_btns = [''F5 Copy'', ''F6 Move'', ''F7 MkDir'', ''F8 Delete'', ''F10 Quit'']"

fun toolbar_buttons :: "rect \<Rightarrow> string list \<Rightarrow> int \<Rightarrow> 'cb window \<Rightarrow> 'cb window option" where
  "toolbar_buttons r [] bx w = Some w"
| "toolbar_buttons r (t # ts) bx w =
     (let bw = int (length t) * 8 + 12
      in do { v \<leftarrow> gui_button_draw (rect_make bx (r_y r + 2) bw (r_h r - 4)) (Some t) False False w; toolbar_buttons r ts (bx + (bw + 4)) v })"

definition draw_toolbar :: "rect \<Rightarrow> 'cb window \<Rightarrow> 'cb window option" where
  "draw_toolbar r w =
     toolbar_buttons r toolbar_btns (r_x r + 2)
       (for_range (r_x r) (r_x r + r_w r) (\<lambda>x. gui_draw_pixel x (r_y r) GUI_BTN_SHADOW) (gui_draw_fill r GUI_BTN_FACE w))"

definition pane_half :: "'cb window \<Rightarrow> int" where
  "pane_half w = (r_w (win_rect w) - 6) sdiv 2"

definition scroll_draw :: "scroll \<Rightarrow> 'cb window \<Rightarrow> 'cb window option" where
  "scroll_draw s w =
     (let ww = r_w (win_rect w); wh = r_h (win_rect w); toolbar_h = 24; half = pane_half w;
          left_r = rect_make 2 1 half (wh - toolbar_h - 2); right_r = rect_make (2 + half + 2) 1 half (wh - toolbar_h - 2)
      in do {
        w1 \<leftarrow> draw_toolbar (rect_make 0 (wh - toolbar_h) ww toolbar_h) (gui_draw_fill (rect_make 0 0 ww wh) GUI_BTN_FACE w);
        w2 \<leftarrow> draw_pane left_r (left s) (left_active s) w1;
        w3 \<leftarrow> draw_pane right_r (right s) (\<not> left_active s) w2;
        Some (for_range 1 (wh - toolbar_h - 1) (\<lambda>y. gui_draw_pixel (2 + half) y GUI_BTN_SHADOW) w3) })"

section \<open>Events\<close>

text \<open>The path after going up: the part before the last slash, or the root.\<close>

fun strrchr_slash :: "string \<Rightarrow> nat option" where
  "strrchr_slash [] = None"
| "strrchr_slash (c # cs) = (case strrchr_slash cs of Some i \<Rightarrow> Some (i + 1) | None \<Rightarrow> if c = CHR ''/'' then Some 0 else None)"

definition path_up :: "string \<Rightarrow> string" where
  "path_up path =
     (case strrchr_slash path of
        None \<Rightarrow> path
      | Some i \<Rightarrow> if i \<noteq> 0 then take i path else if length path > 1 then take 1 path else path)"

definition strncat :: "string \<Rightarrow> string \<Rightarrow> nat \<Rightarrow> string" where
  "strncat dst src n = dst @ take n src"

text \<open>The code reads the byte before the path when the path is empty, which is undefined; every path it makes is non-empty.\<close>

definition path_down :: "string \<Rightarrow> string \<Rightarrow> string" where
  "path_down path nm =
     (let p1 = (if last path \<noteq> CHR ''/'' then strncat path ''/'' (MAX_PATH - length path - 1) else path)
      in strncat p1 nm (MAX_PATH - length p1 - 1))"

definition active_pane :: "scroll \<Rightarrow> pane" where
  "active_pane s = (if left_active s then left s else right s)"

definition set_active :: "pane \<Rightarrow> scroll \<Rightarrow> scroll" where
  "set_active p s = (if left_active s then s\<lparr>left := p\<rparr> else s\<lparr>right := p\<rparr>)"

definition reload :: "listing \<Rightarrow> status \<Rightarrow> pane \<Rightarrow> pane" where
  "reload ls st p = (case read_dir ls st (p_path p) MAX_FILES (p_files p) of (n, es) \<Rightarrow> p\<lparr>p_files := es, p_count := n, p_sel := 0, p_scroll := 0\<rparr>)"

definition enter_selected :: "listing \<Rightarrow> status \<Rightarrow> scroll \<Rightarrow> scroll" where
  "enter_selected ls st s =
     (let p = active_pane s; sel = p_sel p
      in if sel < 0 \<or> sel \<ge> int (p_count p) then s
         else (let fe = p_files p ! nat sel
               in if fe_is_dir fe
                  then set_active (reload ls st (p\<lparr>p_path := if fe_name fe = ''..'' then path_up (p_path p) else path_down (p_path p) (fe_name fe)\<rparr>)) s
                  else s))"

definition scroll_key :: "listing \<Rightarrow> status \<Rightarrow> u32 \<Rightarrow> scroll \<Rightarrow> scroll" where
  "scroll_key ls st k s =
     (let p = active_pane s
      in if k = 0x51 then (if p_sel p < int (p_count p) - 1 then set_active (p\<lparr>p_sel := p_sel p + 1\<rparr>) s else s)
         else if k = 0x52 then (if p_sel p > 0 then set_active (p\<lparr>p_sel := p_sel p - 1\<rparr>) s else s)
         else if k = 10 \<or> k = 13 then enter_selected ls st s
         else if k = 9 then s\<lparr>left_active := \<not> left_active s\<rparr>
         else s)"

text \<open>The redraw runs the draw callback, which shows the new state.\<close>

definition scroll_event :: "listing \<Rightarrow> status \<Rightarrow> nat \<Rightarrow> event \<Rightarrow> scroll \<Rightarrow> 'cb gui \<Rightarrow> (scroll \<times> 'cb gui) option" where
  "scroll_event ls st w evt s g =
     (if ev_type evt = EVT_KEY_DOWN
      then (let s' = (case ev_data evt of Key_data k m c \<Rightarrow> scroll_key ls st k s | _ \<Rightarrow> s)
            in map_option (Pair s') (gui_redraw_window (\<lambda>_. scroll_draw s') w g))
      else Some (s, g))"

text \<open>The start of \<^verbatim>\<open>main\<close>, up to the two readings of the directory; \<open>cwd\<close> is what \<^verbatim>\<open>getcwd\<close> stores.\<close>

definition scroll_start :: "listing \<Rightarrow> status \<Rightarrow> string option \<Rightarrow> string \<Rightarrow> scroll" where
  "scroll_start ls st arg cwd =
     (let path = (case arg of Some a \<Rightarrow> take (MAX_PATH - 1) a | None \<Rightarrow> cwd);
          fe0 = \<lparr>fe_name = [], fe_size = 0, fe_mode = 0, fe_mtime = 0, fe_is_dir = False\<rparr>;
          p0 = \<lparr>p_path = path, p_files = replicate MAX_FILES fe0, p_count = 0, p_sel = 0, p_scroll = 0\<rparr>
      in \<lparr>left = reload ls st p0, right = reload ls st p0, left_active = True\<rparr>)"

section \<open>The order of the entries\<close>

text \<open>Directories before files, both by name.\<close>

definition listed_before :: "file_entry \<Rightarrow> file_entry \<Rightarrow> bool" where
  "listed_before a b \<longleftrightarrow> fe_is_dir a \<and> \<not> fe_is_dir b \<or> fe_is_dir a = fe_is_dir b \<and> fe_name a \<le> fe_name b"

lemma strcmp_gt_less: "strcmp_gt a b \<longleftrightarrow> b < a"
  by (induction a b rule: strcmp_gt.induct) (auto simp: less_char_def)

lemma must_swap_order: "must_swap a b \<longleftrightarrow> \<not> listed_before a b"
  by (auto simp: must_swap_def listed_before_def strcmp_gt_less not_le)

lemma listed_before_refl: "listed_before a a"
  by (simp add: listed_before_def)

lemma listed_before_total: "\<not> listed_before a b \<Longrightarrow> listed_before b a"
  by (auto simp: listed_before_def)

lemma listed_before_trans: "listed_before a b \<Longrightarrow> listed_before b c \<Longrightarrow> listed_before a c"
  by (auto simp: listed_before_def)

lemma sort_step_nth:
  assumes "i < j" "j < length es"
  shows "sort_step i j es ! k = (if must_swap (es ! i) (es ! j) \<and> k = i then es ! j else if must_swap (es ! i) (es ! j) \<and> k = j then es ! i else es ! k)"
  using assms by (auto simp: sort_step_def nth_list_update)

lemma sort_step_perm: "i < j \<Longrightarrow> j < length es \<Longrightarrow> length (sort_step i j es) = length es \<and> mset (sort_step i j es) = mset es"
  using mset_swap [of i es j] by (auto simp: sort_step_def list_update_swap)

text \<open>One round of the outer loop brings the least of the remaining entries to the front of them.\<close>

definition round_done :: "nat \<Rightarrow> nat \<Rightarrow> file_entry list \<Rightarrow> file_entry list \<Rightarrow> bool" where
  "round_done i k es es' \<longleftrightarrow> length es' = length es \<and> mset es' = mset es \<and> (\<forall>p. p < i \<or> k \<le> p \<longrightarrow> es' ! p = es ! p)
     \<and> (\<forall>q. i \<le> q \<and> q < k \<longrightarrow> listed_before (es' ! i) (es' ! q) \<and> (\<exists>r. i \<le> r \<and> r < k \<and> es' ! q = es ! r))"

lemma sort_round:
  assumes "i < k" "k \<le> length es"
  shows "round_done i k es (fold (sort_step i) [i + 1 ..< k] es)"
  using assms
proof (induction k rule: less_induct)
  case (less k)
  show ?case
  proof (cases "k = i + 1")
    case True
    then have "i \<le> q \<and> q < k \<longleftrightarrow> q = i" for q by auto
    then show ?thesis using True by (auto simp: round_done_def listed_before_refl)
  next
    case False
    then obtain j where j: "k = Suc j" "i < j" "j < length es" using less.prems by (cases k) auto
    define t where "t = fold (sort_step i) [i + 1 ..< j] es"
    have ih: "round_done i j es t" using less.IH [of j] j by (simp add: t_def)
    have e: "fold (sort_step i) [i + 1 ..< k] es = sort_step i j t" using j by (simp add: t_def)
    have l: "j < length t" and tj: "t ! j = es ! j" using ih j by (auto simp: round_done_def)
    note n = sort_step_nth [OF j(2) l]
    have ti: "\<exists>r. i \<le> r \<and> r < k \<and> t ! q = es ! r" if "i \<le> q" "q < k" for q
    proof (cases "q = j")
      case False
      then have "i \<le> q \<and> q < j" using that j by simp
      then obtain r where "i \<le> r" "r < j" "t ! q = es ! r" using ih unfolding round_done_def by blast
      then show ?thesis using j by (intro exI [of _ r]) simp
    qed (use tj j in \<open>auto intro!: exI [of _ j]\<close>)
    have "listed_before (sort_step i j t ! i) (sort_step i j t ! q)" if "i \<le> q" "q < k" for q
    proof (cases "must_swap (t ! i) (t ! j)")
      case True
      then have "listed_before (t ! j) (t ! i)" by (simp add: must_swap_order listed_before_total)
      moreover have "q \<noteq> j \<Longrightarrow> listed_before (t ! i) (t ! q)" using that ih j by (simp add: round_done_def)
      ultimately show ?thesis using True that j by (auto simp: n listed_before_refl intro: listed_before_trans)
    next
      case False
      then have "listed_before (t ! i) (t ! j)" by (simp add: must_swap_order)
      moreover have "q \<noteq> j \<Longrightarrow> listed_before (t ! i) (t ! q)" using that ih j by (simp add: round_done_def)
      ultimately show ?thesis using False that j by (cases "q = j") (simp_all add: n)
    qed
    moreover have "\<exists>r. i \<le> r \<and> r < k \<and> sort_step i j t ! q = es ! r" if "i \<le> q" "q < k" for q
      using ti [of q] ti [of i] ti [of j] that j by (simp add: n)
    moreover have "sort_step i j t ! p = es ! p" if "p < i \<or> k \<le> p" for p using that ih j by (auto simp: n round_done_def)
    ultimately show ?thesis using sort_step_perm [OF j(2) l] ih unfolding e by (auto simp: round_done_def)
  qed
qed

lemma sort_rounds:
  assumes "m < n" "n \<le> length es"
  shows "let es' = fold (\<lambda>i. fold (sort_step i) [i + 1 ..< n]) [0 ..< m] es
     in length es' = length es \<and> mset es' = mset es \<and> (\<forall>p \<ge> n. es' ! p = es ! p) \<and> (\<forall>p < m. \<forall>q. p \<le> q \<and> q < n \<longrightarrow> listed_before (es' ! p) (es' ! q))"
  using assms(1)
proof (induction m)
  case (Suc m)
  define t where "t = fold (\<lambda>i. fold (sort_step i) [i + 1 ..< n]) [0 ..< m] es"
  define u where "u = fold (sort_step m) [m + 1 ..< n] t"
  have ih: "length t = length es" "mset t = mset es" "\<forall>p \<ge> n. t ! p = es ! p" "\<forall>p < m. \<forall>q. p \<le> q \<and> q < n \<longrightarrow> listed_before (t ! p) (t ! q)"
    using Suc by (auto simp: t_def Let_def)
  have r: "round_done m n t u" using sort_round [of m n t] Suc.prems assms(2) ih(1) by (simp add: u_def)
  have "listed_before (u ! p) (u ! q)" if "p < m" "p \<le> q" "q < n" for p q
  proof (cases "q < m")
    case False
    then have "m \<le> q \<and> q < n" using \<open>q < n\<close> by simp
    then obtain r where "m \<le> r" "r < n" "u ! q = t ! r" using r unfolding round_done_def by blast
    then show ?thesis using r ih(4) that by (simp add: round_done_def)
  qed (use that r ih(4) in \<open>simp add: round_done_def\<close>)
  then have "\<forall>p < Suc m. \<forall>q. p \<le> q \<and> q < n \<longrightarrow> listed_before (u ! p) (u ! q)" using r by (auto simp: less_Suc_eq round_done_def)
  moreover have "fold (\<lambda>i. fold (sort_step i) [i + 1 ..< n]) [0 ..< Suc m] es = u" by (simp add: u_def t_def)
  ultimately show ?case using ih r by (simp add: Let_def round_done_def)
qed simp

lemma sort_entries_sorted:
  assumes "n \<le> length es"
  shows "length (sort_entries n es) = length es \<and> sorted_wrt listed_before (take n (sort_entries n es))
    \<and> mset (take n (sort_entries n es)) = mset (take n es) \<and> drop n (sort_entries n es) = drop n es"
proof (cases "n = 0")
  case True
  then show ?thesis by (simp add: sort_entries_def)
next
  case False
  define u where "u = sort_entries n es"
  have r: "length u = length es" "mset u = mset es" "\<forall>p \<ge> n. u ! p = es ! p" "\<forall>p < n - 1. \<forall>q. p \<le> q \<and> q < n \<longrightarrow> listed_before (u ! p) (u ! q)"
    using sort_rounds [of "n - 1" n es] False assms by (simp_all add: u_def sort_entries_def Let_def)
  have d: "drop n u = drop n es" using r(1,3) by (intro nth_equalityI) auto
  have "mset (take n u) + mset (drop n u) = mset (take n es) + mset (drop n es)" using r(2) by (simp flip: mset_append)
  then have "mset (take n u) = mset (take n es)" using d by simp
  moreover have "sorted_wrt listed_before (take n u)"
    unfolding sorted_wrt_iff_nth_less using r(1,4) assms by auto
  ultimately show ?thesis using r(1) d by (simp add: u_def)
qed

lemma fill_entries_ok:
  assumes "n \<le> mx" "mx \<le> length es"
  shows "\<exists>k es'. fill_entries st path mx ds n es = (n + k, es') \<and> length es' = length es
    \<and> k = min (mx - n) (length (filter (\<lambda>d. d \<noteq> ''.'') ds))
    \<and> es' = take n es @ map2 (fill_entry st path) (take k (filter (\<lambda>d. d \<noteq> ''.'') ds)) (drop n es) @ drop (n + k) es"
  using assms
proof (induction ds arbitrary: n es)
  case (Cons d ds)
  let ?f = "filter (\<lambda>d. d \<noteq> ''.'')"
  show ?case
  proof (cases "n < mx \<and> d \<noteq> ''.''")
    case True
    let ?es = "es[n := fill_entry st path d (es ! n)]"
    from Cons.IH [of "n + 1" ?es] Cons.prems True obtain k es' where k:
      "fill_entries st path mx ds (n + 1) ?es = (n + 1 + k, es')" "length es' = length es" "k = min (mx - (n + 1)) (length (?f ds))"
      "es' = take (n + 1) ?es @ map2 (fill_entry st path) (take k (?f ds)) (drop (n + 1) ?es) @ drop (n + 1 + k) ?es" by auto
    have "take (n + 1) ?es = take n es @ [fill_entry st path d (es ! n)]" using True Cons.prems by (simp add: take_Suc_conv_app_nth)
    moreover have "drop (n + 1) ?es = drop (n + 1) es" "drop (n + 1 + k) ?es = drop (n + (k + 1)) es" by simp_all
    moreover have d: "drop n es = es ! n # drop (n + 1) es" using True Cons.prems by (simp add: Cons_nth_drop_Suc)
    have "map2 (fill_entry st path) (take (k + 1) (?f (d # ds))) (drop n es) = fill_entry st path d (es ! n) # map2 (fill_entry st path) (take k (?f ds)) (drop (n + 1) es)"
      unfolding d using True by simp
    ultimately have "es' = take n es @ map2 (fill_entry st path) (take (k + 1) (?f (d # ds))) (drop n es) @ drop (n + (k + 1)) es"
      unfolding k(4) by simp
    moreover have "k + 1 = min (mx - n) (length (?f (d # ds)))" using True k(3) by auto
    moreover have "fill_entries st path mx (d # ds) n es = (n + (k + 1), es')" using True k(1) by simp
    ultimately show ?thesis using k(2) by blast
  next
    case False
    then show ?thesis using Cons by (cases "n < mx") auto
  qed
qed simp

text \<open>
  C36: A directory that can be opened is shown complete and in order: up to the capacity, the entries are those of the directory other than the directory itself, each with the
  status the system reports for it; directories come before files and both are sorted by name, and the rest of the array is untouched.
\<close>

theorem read_dir_lists:
  assumes "ls path = Some ds" "mx \<le> length es"
  defines "names \<equiv> filter (\<lambda>d. d \<noteq> ''.'') ds"
  shows "\<exists>es'. read_dir ls st path mx es = (min mx (length names), es') \<and> length es' = length es
    \<and> sorted_wrt listed_before (take (min mx (length names)) es')
    \<and> mset (take (min mx (length names)) es') = mset (map2 (fill_entry st path) (take mx names) es)
    \<and> drop (min mx (length names)) es' = drop (min mx (length names)) es"
proof -
  let ?n = "min mx (length names)"
  have t: "take ?n names = take mx names" by (simp add: min_def)
  from fill_entries_ok [of 0 mx es st path ds] assms(2) obtain es1 where
    f: "fill_entries st path mx ds 0 es = (?n, es1)" "length es1 = length es" "es1 = map2 (fill_entry st path) (take mx names) es @ drop ?n es"
    by (auto simp: names_def [symmetric] t)
  have "length (map2 (fill_entry st path) (take mx names) es) = ?n" using assms(2) by auto
  then have "take ?n es1 = map2 (fill_entry st path) (take mx names) es" "drop ?n es1 = drop ?n es" using f(3) by simp_all
  then show ?thesis using sort_entries_sorted [of ?n es1] f(1,2) assms(1,2) by (simp add: read_dir_def)
qed

definition demo_ls :: listing where
  "demo_ls p = (if p = ''/'' then Some [''.'', ''b'', ''..'', ''a''] else None)"

definition demo_st :: status where
  "demo_st f = (if f = ''//b'' then Some (2000, 0x81A4, 0) else Some (0, 0x41ED, 0))"

lemma demo_dirs: "S_ISDIR 0x41ED" "\<not> S_ISDIR 0x81A4"
  by (simp_all add: S_ISDIR_def)

theorem read_dir_lists_witness:
  "\<exists>es'. read_dir demo_ls demo_st ''/'' 2 [\<lparr>fe_name = [], fe_size = 0, fe_mode = 0, fe_mtime = 0, fe_is_dir = False\<rparr>, \<lparr>fe_name = [], fe_size = 0, fe_mode = 0, fe_mtime = 0, fe_is_dir = False\<rparr>] = (2, es')
    \<and> sorted_wrt listed_before es' \<and> mset (map fe_name es') = {#''b'', ''..''#}"
proof -
  let ?e = "\<lparr>fe_name = [], fe_size = 0, fe_mode = 0, fe_mtime = 0, fe_is_dir = False\<rparr>"
  have l: "demo_ls ''/'' = Some [''.'', ''b'', ''..'', ''a'']" by (simp add: demo_ls_def)
  obtain es' where e: "read_dir demo_ls demo_st ''/'' 2 [?e, ?e] = (2, es')" "length es' = 2" "sorted_wrt listed_before (take 2 es')"
      "mset (take 2 es') = mset (map2 (fill_entry demo_st ''/'') [''b'', ''..''] [?e, ?e])"
    using read_dir_lists [of demo_ls "''/''", OF l, of 2 "[?e, ?e]" demo_st] by auto
  have "mset (map fe_name es') = image_mset fe_name (mset (take 2 es'))" using e(2) by simp
  also have "\<dots> = {#''b'', ''..''#}" unfolding e(4) by (simp add: fill_entry_def demo_st_def kconst Let_def)
  finally show ?thesis using e by simp
qed

section \<open>Paths and selection\<close>

lemma strrchr_slash_None: "CHR ''/'' \<notin> set p \<Longrightarrow> strrchr_slash p = None"
  by (induction p) auto

lemma strrchr_slash_append: "CHR ''/'' \<notin> set nm \<Longrightarrow> strrchr_slash (p @ CHR ''/'' # nm) = Some (length p)"
  by (induction p) (auto simp: strrchr_slash_None)

text \<open>A path as the file manager keeps it: absolute, and without a slash at the end unless it is the root.\<close>

definition path_ok :: "string \<Rightarrow> bool" where
  "path_ok p \<longleftrightarrow> p \<noteq> [] \<and> hd p = CHR ''/'' \<and> (last p = CHR ''/'' \<longrightarrow> p = ''/'')"

text \<open>
  Going into a directory and up again leads back to the same path, as long as the longer path fits into its buffer.
\<close>

theorem up_undoes_down:
  assumes "path_ok path" "nm \<noteq> []" "CHR ''/'' \<notin> set nm" "length path + length nm + 2 \<le> MAX_PATH"
  shows "path_ok (path_down path nm) \<and> path_up (path_down path nm) = path"
proof (cases "path = ''/''")
  case True
  have last_slash: "last nm \<noteq> CHR ''/''" using last_in_set [OF assms(2)] assms(3) by metis
  from True have "path_down path nm = [] @ CHR ''/'' # nm" using assms by (simp add: path_down_def strncat_def Let_def)
  then show ?thesis using True assms strrchr_slash_append [OF assms(3), of "[]"] last_slash by (auto simp: path_up_def path_ok_def)
next
  case False
  have last_slash: "last nm \<noteq> CHR ''/''" using last_in_set [OF assms(2)] assms(3) by metis
  from False have l: "last path \<noteq> CHR ''/''" "0 < length path" using assms(1) by (auto simp: path_ok_def)
  then have "path_down path nm = path @ CHR ''/'' # nm" using assms by (simp add: path_down_def strncat_def Let_def)
  then show ?thesis using l assms strrchr_slash_append [OF assms(3), of path] last_slash by (auto simp: path_up_def path_ok_def)
qed

theorem up_undoes_down_witness: "path_down ''/usr'' ''lib'' = ''/usr/lib'' \<and> path_up (path_down ''/usr'' ''lib'') = ''/usr''"
proof -
  have "path_up (path_down ''/usr'' ''lib'') = ''/usr''" using up_undoes_down [of "''/usr''" "''lib''"] by (simp add: path_ok_def kconst)
  then show ?thesis by (simp add: path_down_def strncat_def Let_def kconst)
qed

text \<open>Every key keeps the selection of both panes on an entry, or at the start of an empty list, and the array at its size.\<close>

definition pane_ok :: "pane \<Rightarrow> bool" where
  "pane_ok p \<longleftrightarrow> length (p_files p) = MAX_FILES \<and> p_count p \<le> MAX_FILES \<and> 0 \<le> p_sel p \<and> (p_sel p < int (p_count p) \<or> p_sel p = 0) \<and> p_scroll p = 0"

definition scroll_ok :: "scroll \<Rightarrow> bool" where
  "scroll_ok s \<longleftrightarrow> pane_ok (left s) \<and> pane_ok (right s)"

lemma reload_ok: "length (p_files p) = MAX_FILES \<Longrightarrow> pane_ok (reload ls st p)"
proof (cases "ls (p_path p)")
  case None
  assume "length (p_files p) = MAX_FILES"
  then show ?thesis using None by (simp add: reload_def read_dir_def pane_ok_def)
next
  case (Some ds)
  assume l: "length (p_files p) = MAX_FILES"
  let ?n = "min MAX_FILES (length (filter (\<lambda>d. d \<noteq> ''.'') ds))"
  obtain es where "read_dir ls st (p_path p) MAX_FILES (p_files p) = (?n, es)" "length es = MAX_FILES"
    using fill_entries_ok [of 0 MAX_FILES "p_files p" st "p_path p" ds] sort_entries_sorted [of ?n] l Some by (auto simp: read_dir_def)
  then show ?thesis by (simp add: reload_def pane_ok_def)
qed

lemma set_active_ok: "scroll_ok s \<Longrightarrow> pane_ok p \<Longrightarrow> scroll_ok (set_active p s)"
  by (simp add: scroll_ok_def set_active_def)

lemma active_pane_ok: "scroll_ok s \<Longrightarrow> pane_ok (active_pane s)"
  by (simp add: scroll_ok_def active_pane_def)

lemma enter_selected_ok: "scroll_ok s \<Longrightarrow> scroll_ok (enter_selected ls st s)"
  using active_pane_ok [of s] by (auto simp: enter_selected_def Let_def pane_ok_def intro!: set_active_ok reload_ok)

lemma scroll_key_ok: "scroll_ok s \<Longrightarrow> scroll_ok (scroll_key ls st k s)"
proof -
  assume s: "scroll_ok s"
  have "scroll_ok (s\<lparr>left_active := b\<rparr>)" for b using s by (simp add: scroll_ok_def)
  then show ?thesis using s active_pane_ok [OF s] enter_selected_ok [OF s, of ls st] unfolding scroll_key_def Let_def
    by (auto intro!: set_active_ok simp: pane_ok_def)
qed

text \<open>
  The keys as a program of their own: from the start on, whatever directories the calls report at each key, the selection stays within the list. The
  offset of the list never changes, so an entry beyond the rows of the pane can be selected but is not shown.
\<close>

inductive scroll_reach :: "scroll \<Rightarrow> bool" where
  start: "scroll_reach (scroll_start ls st arg cwd)"
| key: "scroll_reach s \<Longrightarrow> scroll_reach (scroll_key ls st k s)"

theorem scroll_stays_in_bounds: "scroll_reach s \<Longrightarrow> scroll_ok s"
  by (induction rule: scroll_reach.induct) (simp_all add: scroll_key_ok, simp add: scroll_ok_def scroll_start_def Let_def reload_ok)

text \<open>A directory that cannot be opened is entered all the same; its list is empty, so that enter and the arrows do nothing any more in that pane.\<close>

theorem unreadable_directory_traps:
  assumes "left_active s" "p_sel (left s) = 0" "p_count (left s) > 0" "fe_is_dir (p_files (left s) ! 0)" "fe_name (p_files (left s) ! 0) \<noteq> ''..''"
    and "ls (path_down (p_path (left s)) (fe_name (p_files (left s) ! 0))) = None" "k \<noteq> 9"
  shows "p_count (left (enter_selected ls st s)) = 0 \<and> scroll_key ls st k (enter_selected ls st s) = enter_selected ls st s"
proof -
  let ?s = "enter_selected ls st s"
  have "left_active ?s" "p_count (left ?s) = 0" "p_sel (left ?s) = 0"
    using assms by (simp_all add: enter_selected_def active_pane_def set_active_def reload_def read_dir_def Let_def)
  then show ?thesis using assms(7) by (auto simp: scroll_key_def active_pane_def Let_def enter_selected_def [of ls st ?s])
qed

section \<open>What the window shows\<close>

definition row_text :: "file_entry \<Rightarrow> string" where
  "row_text fe = (if fe_is_dir fe then ''['' @ fe_name fe @ '']'' else '' '' @ fe_name fe)"

definition size_text :: "file_entry \<Rightarrow> string" where
  "size_text fe = (if fe_is_dir fe then [] else fmt_size (fe_size fe) 16)"

definition row_plot :: "rect \<Rightarrow> pane \<Rightarrow> bool \<Rightarrow> int \<Rightarrow> 'cb window \<Rightarrow> 'cb window" where
  "row_plot lr p active i w =
     (let fe = p_files p ! nat (i + p_scroll p); y = r_y lr + i * 16; bg = row_back p active (i + p_scroll p);
          sx = r_x lr + r_w lr - int (length (size_text fe)) * 8 - 4
      in text_plot sx sx y (size_text fe) bg (text_plot (r_x lr + 2) (r_x lr + 2) y (row_text fe) bg (gui_draw_fill (rect_make (r_x lr) y (r_w lr) 16) bg w)))"

definition row_pic :: "rect \<Rightarrow> pane \<Rightarrow> bool \<Rightarrow> int \<Rightarrow> picture" where
  "row_pic lr p active i =
     (let fe = p_files p ! nat (i + p_scroll p); y = r_y lr + i * 16; bg = row_back p active (i + p_scroll p);
          sx = r_x lr + r_w lr - int (length (size_text fe)) * 8 - 4
      in over (box sx (sx + 8 * int (length (size_text fe))) y (y + 16) bg)
           (over (box (r_x lr + 2) (r_x lr + 2 + 8 * int (length (row_text fe))) y (y + 16) bg) (rect_pic (rect_make (r_x lr) y (r_w lr) 16) bg)))"

lemma size_text_plain: "plain (size_text fe)" and size_text_length: "length (size_text fe) \<le> 15"
proof -
  show "plain (size_text fe)" by (simp add: size_text_def fmt_size_def plain_take show_int_plain)
  show "length (size_text fe) \<le> 15" by (simp add: size_text_def fmt_size_def)
qed

lemma paints_file_row: "plain (fe_name (p_files p ! nat (i + p_scroll p))) \<Longrightarrow> wc.paints (row_plot lr p active i) (row_pic lr p active i)"
  unfolding row_plot_def row_pic_def Let_def
  by (rule wc.paints_comp [OF wc.paints_comp [OF paints_fill paints_text] paints_text]) (simp_all add: row_text_def size_text_plain)

lemma win_rect_row [simp]: "win_rect (row_plot lr p active i w) = win_rect w"
  by (simp add: row_plot_def Let_def)

lemma draw_row_plot:
  assumes "win_ok w" "plain (fe_name (p_files p ! nat (i + p_scroll p)))" "r_y lr + i * 16 + 16 \<le> r_h (win_rect w)"
  shows "draw_row lr p active i w = Some (row_plot lr p active i w)"
proof -
  define fe where "fe = p_files p ! nat (i + p_scroll p)"
  define bg where "bg = row_back p active (i + p_scroll p)"
  define w1 where "w1 = gui_draw_fill (rect_make (r_x lr) (r_y lr + i * 16) (r_w lr) 16) bg w"
  define w2 where "w2 = text_plot (r_x lr + 2) (r_x lr + 2) (r_y lr + i * 16) (row_text fe) bg w1"
  have t: "plain (row_text fe)" using assms(2) by (simp add: row_text_def fe_def)
  have ok: "win_ok w1" "win_ok w2"
    unfolding w2_def w1_def using wc.paintsD(1) [OF paints_fill assms(1)] wc.paintsD(1) [OF paints_text [OF t]] by blast+
  have h: "r_y lr + i * 16 + 16 \<le> r_h (win_rect w1)" "r_y lr + i * 16 + 16 \<le> r_h (win_rect w2)" using assms(3) by (simp_all add: w1_def w2_def)
  have a: "\<And>c. gui_draw_text (r_x lr + 2) (r_y lr + i * 16) (row_text fe) c bg w1 = Some w2" unfolding w2_def by (rule text_plain [OF ok(1) t h(1)])
  have b: "\<And>x c. gui_draw_text x (r_y lr + i * 16) (size_text fe) c bg w2 = Some (text_plot x x (r_y lr + i * 16) (size_text fe) bg w2)"
    by (rule text_plain [OF ok(2) size_text_plain h(2)])
  show ?thesis
    unfolding draw_row_def row_plot_def Let_def fe_def [symmetric] bg_def [symmetric] rect_make_sel row_text_def [symmetric] w1_def [symmetric] a bind.bind_lunit
      w2_def [symmetric]
    using b by (cases "fe_is_dir fe") (simp_all add: size_text_def)
qed

definition pane_plain :: "pane \<Rightarrow> bool" where
  "pane_plain p \<longleftrightarrow> plain (p_path p) \<and> (\<forall>fe \<in> set (take (p_count p) (p_files p)). plain (fe_name fe))"

definition pane_plot :: "rect \<Rightarrow> pane \<Rightarrow> bool \<Rightarrow> 'cb window \<Rightarrow> 'cb window" where
  "pane_plot r p active w =
     (let bg = (if active then GUI_TITLEBAR_ACTIVE else GUI_BTN_FACE)
      in for_range 0 (rows_shown r p) (row_plot (list_rect r) p active)
           (text_plot (r_x r + 4) (r_x r + 4) (r_y r + 2) (p_path p) bg
             (gui_draw_fill (rect_make (r_x r + 2) (r_y r + 2) (r_w r - 4) 16) bg (gui_draw_bevel r False (gui_draw_fill r GUI_WHITE w)))))"

definition pane_pic :: "rect \<Rightarrow> pane \<Rightarrow> bool \<Rightarrow> picture" where
  "pane_pic r p active =
     (let bg = (if active then GUI_TITLEBAR_ACTIVE else GUI_BTN_FACE)
      in over (stacked (map (row_pic (list_rect r) p active) [0 .. rows_shown r p - 1]))
           (over (box (r_x r + 4) (r_x r + 4 + 8 * int (length (p_path p))) (r_y r + 2) (r_y r + 2 + 16) bg)
             (over (rect_pic (rect_make (r_x r + 2) (r_y r + 2) (r_w r - 4) 16) bg) (over (bevel_pic r False) (rect_pic r GUI_WHITE)))))"

lemma list_rect_sel [simp]:
  "r_x (list_rect r) = r_x r + 2" "r_y (list_rect r) = r_y r + 20" "r_w (list_rect r) = r_w r - 4" "r_h (list_rect r) = r_h r - 22"
  by (simp_all add: list_rect_def)

lemma row_name_plain:
  assumes "pane_ok p" "pane_plain p" "0 \<le> i" "i < rows_shown r p"
  shows "plain (fe_name (p_files p ! nat (i + p_scroll p)))"
proof -
  have "nat i < p_count p" "nat i < length (p_files p)" using assms by (auto simp: rows_shown_def pane_ok_def)
  then have "p_files p ! nat i \<in> set (take (p_count p) (p_files p))" by (auto simp: in_set_conv_nth intro!: exI [of _ "nat i"])
  then show ?thesis using assms by (auto simp: pane_plain_def pane_ok_def)
qed

lemma paints_pane:
  assumes "pane_ok p" "pane_plain p" "2 < r_w r" "2 < r_h r"
  shows "wc.paints (pane_plot r p active) (pane_pic r p active)"
  unfolding pane_plot_def pane_pic_def Let_def
proof (rule wc.paints_comp [OF wc.paints_comp [OF wc.paints_comp [OF wc.paints_comp [OF paints_fill paints_bevel [OF assms(3,4)]] paints_fill] paints_text] wc.paints_range])
  show "plain (p_path p)" using assms(2) by (simp add: pane_plain_def)
qed (use assms row_name_plain in \<open>auto intro: paints_file_row\<close>)

lemma draw_pane_plot:
  assumes "win_ok w" "pane_ok p" "pane_plain p" "2 < r_w r" "2 < r_h r" "22 \<le> r_h r" "r_y r + r_h r \<le> r_h (win_rect w)"
  shows "draw_pane r p active w = Some (pane_plot r p active w) \<and> win_rect (pane_plot r p active w) = win_rect w"
proof -
  define bg where "bg = (if active then GUI_TITLEBAR_ACTIVE else GUI_BTN_FACE)"
  define w1 where "w1 = gui_draw_fill (rect_make (r_x r + 2) (r_y r + 2) (r_w r - 4) 16) bg (gui_draw_bevel r False (gui_draw_fill r GUI_WHITE w))"
  define w2 where "w2 = text_plot (r_x r + 4) (r_x r + 4) (r_y r + 2) (p_path p) bg w1"
  have pl: "plain (p_path p)" using assms(3) by (simp add: pane_plain_def)
  have ok: "win_ok w1" "win_ok w2" unfolding w2_def w1_def
    using wc.paintsD(1) [OF wc.paints_comp [OF wc.paints_comp [OF paints_fill paints_bevel [OF assms(4,5)]] paints_fill] assms(1)] wc.paintsD(1) [OF paints_text [OF pl]]
    by blast+
  have r: "win_rect w1 = win_rect w" "win_rect w2 = win_rect w" by (simp_all add: w1_def w2_def)
  have "r_y r + 2 + 16 \<le> r_h (win_rect w1)" using r assms(6,7) by simp
  then have a: "\<And>c. gui_draw_text (r_x r + 2 + 2) (r_y r + 2) (p_path p) c bg w1 = Some w2"
    using text_plain [OF ok(1) pl, of "r_y r + 2" "r_x r + 4"] by (simp add: w2_def add.assoc)
  have row: "draw_row (list_rect r) p active i v = Some (row_plot (list_rect r) p active i v) \<and> win_ok (row_plot (list_rect r) p active i v)
      \<and> win_rect (row_plot (list_rect r) p active i v) = win_rect w" if "0 \<le> i" "i < rows_shown r p" "win_ok v" "win_rect v = win_rect w" for i v
  proof -
    note n = row_name_plain [OF assms(2,3) that(1,2)]
    have "i + 1 \<le> (r_h r - 22) sdiv 16" using that(2) by (auto simp: rows_shown_def)
    moreover have "(r_h r - 22) sdiv 16 = (r_h r - 22) div 16" using assms(6) by (cases "r_h r = 22") (simp_all add: signed_divide_int_def)
    ultimately have "i + 1 \<le> (r_h r - 22) div 16" by simp
    then have "(i + 1) * 16 \<le> r_h r - 22" by presburger
    then have "r_y (list_rect r) + i * 16 + 16 \<le> r_h (win_rect v)" using assms(7) that(4) by simp
    then show ?thesis using draw_row_plot [OF that(3) n] wc.paintsD(1) [OF paints_file_row [OF n] that(3)] that(4) by simp
  qed
  have "for_range 0 (rows_shown r p) (\<lambda>i ov. do { v \<leftarrow> ov; draw_row (list_rect r) p active i v }) (Some w2) = Some (for_range 0 (rows_shown r p) (row_plot (list_rect r) p active) w2)
      \<and> win_ok (for_range 0 (rows_shown r p) (row_plot (list_rect r) p active) w2) \<and> win_rect (for_range 0 (rows_shown r p) (row_plot (list_rect r) p active) w2) = win_rect w"
    by (rule draws_rows [OF row ok(2) r(2)])
  then show ?thesis
    unfolding draw_pane_def pane_plot_def Let_def bg_def [symmetric] rect_make_sel w1_def [symmetric] a bind.bind_lunit w2_def [symmetric] by blast
qed

lemma row_pic_at:
  "r_x lr \<le> x \<Longrightarrow> x < r_x lr + r_w lr \<Longrightarrow> r_y lr + i * 16 \<le> y \<Longrightarrow> y < r_y lr + i * 16 + 16 \<Longrightarrow> row_pic lr p active i x y = Some (row_back p active (i + p_scroll p))"
  by (simp add: row_pic_def Let_def over_apply box_def rect_pic_def)

lemma row_pic_elsewhere:
  "y < r_y lr + i * 16 \<or> r_y lr + i * 16 + 16 \<le> y \<Longrightarrow> row_pic lr p active i x y = None"
  "x < r_x lr \<Longrightarrow> 124 \<le> r_w lr \<Longrightarrow> row_pic lr p active i x y = None"
  using size_text_length [of "p_files p ! nat (i + p_scroll p)"] by (auto simp: row_pic_def Let_def over_apply box_def rect_pic_def)

lemma pane_pic_row:
  assumes "0 \<le> i" "i < rows_shown r p" "r_x r + 2 \<le> x" "x < r_x r + r_w r - 2" "r_y r + 20 + i * 16 \<le> y" "y < r_y r + 36 + i * 16"
  shows "pane_pic r p active x y = Some (row_back p active (i + p_scroll p))"
proof -
  let ?pic = "row_pic (list_rect r) p active"
  have i: "?pic i x y = Some (row_back p active (i + p_scroll p))" using assms by (intro row_pic_at) simp_all
  have "?pic j x y = None" if "j \<noteq> i" for j
  proof -
    have "j + 1 \<le> i \<or> i + 1 \<le> j" using that by linarith
    then show ?thesis using assms by (intro row_pic_elsewhere(1)) (auto simp: algebra_simps)
  qed
  then have "?pic j x y = None \<or> ?pic j x y = Some (row_back p active (i + p_scroll p))" for j using i by (cases "j = i") auto
  then have "stacked (map ?pic [0 .. rows_shown r p - 1]) x y = Some (row_back p active (i + p_scroll p))"
    using i assms(1,2) by (subst stacked_uniform [where c = "row_back p active (i + p_scroll p)"]) auto
  then show ?thesis by (simp add: pane_pic_def Let_def over_apply)
qed

lemma pane_pic_left: "x < r_x r \<Longrightarrow> 128 \<le> r_w r \<Longrightarrow> pane_pic r p active x y = None"
proof -
  assume x: "x < r_x r" "128 \<le> r_w r"
  have "stacked (map (row_pic (list_rect r) p active) [0 .. rows_shown r p - 1]) x y = None"
    using x by (auto simp: stacked_None intro!: row_pic_elsewhere(2))
  then show ?thesis using x by (simp add: pane_pic_def Let_def over_apply box_def rect_pic_def bevel_pic_def edge_pic_def rect_contains_def)
qed

lemma toolbar_buttons_drawn:
  "win_ok w \<Longrightarrow> \<forall>t \<in> set ts. plain t \<Longrightarrow> 21 \<le> r_h r \<Longrightarrow> r_y r + r_h r \<le> r_h (win_rect w) \<Longrightarrow>
   \<exists>v. toolbar_buttons r ts bx w = Some v \<and> win_ok v \<and> win_rect v = win_rect w"
proof (induction ts arbitrary: bx w)
  case (Cons t ts)
  let ?r = "rect_make bx (r_y r + 2) (int (length t) * 8 + 12) (r_h r - 4)"
  have "drawn_in ?r w (gui_button_draw ?r (Some t) False False w)"
    using Cons.prems by (intro button_inside) (auto simp: line_fits_def)
  then obtain v where v: "gui_button_draw ?r (Some t) False False w = Some v" "win_ok v" "win_rect v = win_rect w" by (auto simp: drawn_in_def)
  then show ?case using Cons.IH [of v] Cons.prems by simp
qed simp

lemma draw_toolbar_drawn:
  assumes "win_ok w" "21 \<le> r_h r" "r_y r + r_h r \<le> r_h (win_rect w)"
  shows "\<exists>v. draw_toolbar r w = Some v \<and> win_ok v \<and> win_rect v = win_rect w"
proof -
  have "wc.confined (\<lambda>_ _. True) (\<lambda>v. for_range (r_x r) (r_x r + r_w r) (\<lambda>x. gui_draw_pixel x (r_y r) GUI_BTN_SHADOW) (gui_draw_fill r GUI_BTN_FACE v))"
    by (rule wc.confined_comp [OF wc.confined_paints [OF paints_fill] confined_row]) simp_all
  note ok = wc.confinedD(1) [OF this assms(1)]
  have pl: "\<forall>t \<in> set toolbar_btns. plain t" by (simp add: toolbar_btns_def)
  show ?thesis using toolbar_buttons_drawn [OF ok pl assms(2), of "r_x r + 2"] assms(3) unfolding draw_toolbar_def by simp
qed


definition demo_pane :: pane where
  "demo_pane = \<lparr>p_path = ''/'', p_files = replicate MAX_FILES \<lparr>fe_name = ''a'', fe_size = 5, fe_mode = 0, fe_mtime = 0, fe_is_dir = False\<rparr>, p_count = 2, p_sel = 1, p_scroll = 0\<rparr>"


end
