(* ===== verification/Forge.thy ===== *)
theory Forge
  imports Gui_Text
begin

text \<open>
  The control panel, \<^verbatim>\<open>src/desktop/control/forge.c\<close>: a grid of icons, one applet for each of them, and the clicks that lead from one to the other. What
  the applets ask the system for (names, memory, time, the user file) is the record \<open>forge_env\<close>.
\<close>

section \<open>State and surroundings\<close>

record forge =
  active_applet :: int
  selected_theme :: int

text \<open>
  The texts of \<^verbatim>\<open>uname\<close>, memory and uptime of \<^verbatim>\<open>sysinfo\<close> if the call succeeds, the two texts of \<^verbatim>\<open>strftime\<close>, and the
  lines that \<^verbatim>\<open>fgets\<close> delivers from the user file if it can be opened.
\<close>

record forge_env =
  un_sysname :: string
  un_release :: string
  un_machine :: string
  sysinfo :: "(int \<times> int \<times> int) option"
  date_text :: string
  time_text :: string
  passwd :: "string list option"

section \<open>Applets\<close>

text \<open>A column of lines of text, each with its offset from the top.\<close>

fun draw_lines :: "rect \<Rightarrow> (int \<times> string) list \<Rightarrow> 'cb window \<Rightarrow> 'cb window option" where
  "draw_lines r [] w = Some w"
| "draw_lines r ((dy, t) # ts) w = do { v \<leftarrow> gui_draw_text (r_x r + 8) (r_y r + dy) t GUI_TEXT GUI_BTN_FACE w; draw_lines r ts v }"

definition applet_display :: "rect \<Rightarrow> 'cb window \<Rightarrow> 'cb window option" where
  "applet_display r w =
     (let sw = rect_make (r_x r + 8) (r_y r + 90) 60 20
      in do { v \<leftarrow> draw_lines r [(8, ''Display Settings''), (30, ''Resolution: 640x480''), (48, ''Color Depth: 32bpp''), (70, ''Background Color:'')]
                (gui_draw_fill r GUI_BTN_FACE w);
              Some (gui_draw_bevel sw False (gui_draw_fill sw GUI_TEAL v)) })"

definition themes :: "string list" where
  "themes = [''Retro Gray'', ''Dark Ember'', ''Teal Classic'', ''Mono Classic'', ''High Contrast'']"

definition applet_appearance :: "int \<Rightarrow> rect \<Rightarrow> 'cb window \<Rightarrow> 'cb window option" where
  "applet_appearance sel r w =
     do { v \<leftarrow> draw_lines r [(8, ''Color Scheme:'')] (gui_draw_fill r GUI_BTN_FACE w);
          for_range 0 5 (\<lambda>i ov. do { u \<leftarrow> ov;
            gui_button_draw (rect_make (r_x r + 8) (r_y r + 28 + i * 22) (r_w r - 16) 18) (Some (themes ! nat i)) (i = sel) False u }) (Some v) }"

text \<open>Every text is cut to the 255 characters of the buffer.\<close>

definition applet_sysinfo :: "forge_env \<Rightarrow> rect \<Rightarrow> 'cb window \<Rightarrow> 'cb window option" where
  "applet_sysinfo e r w =
     do { v \<leftarrow> draw_lines r [(8, ''OS: PhoenixOS (EmberKernel)''), (26, take 255 (''Kernel: '' @ un_sysname e @ '' '' @ un_release e)),
                (44, take 255 (''Arch: '' @ un_machine e))] (gui_draw_fill r GUI_BTN_FACE w);
          case sysinfo e of
            None \<Rightarrow> Some v
          | Some (totalram, freeram, uptime) \<Rightarrow>
              draw_lines r
                [(62, take 255 (''Memory: '' @ show_int (totalram div 1048576) @ '' MB total, '' @ show_int (freeram div 1048576) @ '' MB free'')),
                 (80, take 255 (''Uptime: '' @ show_int (uptime sdiv 86400) @ ''d '' @ show_int ((uptime smod 86400) sdiv 3600) @ ''h ''
                        @ show_int ((uptime smod 3600) sdiv 60) @ ''m''))] v }"

definition applet_datetime :: "forge_env \<Rightarrow> rect \<Rightarrow> 'cb window \<Rightarrow> 'cb window option" where
  "applet_datetime e r w = draw_lines r [(8, ''Date & Time''), (30, date_text e), (50, time_text e)] (gui_draw_fill r GUI_BTN_FACE w)"

definition applet_keyboard :: "rect \<Rightarrow> 'cb window \<Rightarrow> 'cb window option" where
  "applet_keyboard r w =
     draw_lines r [(8, ''Keyboard Settings''), (30, ''Layout: US QWERTY''), (48, ''Repeat Rate: Normal''), (66, ''Repeat Delay: 500ms'')] (gui_draw_fill r GUI_BTN_FACE w)"

definition applet_mouse :: "rect \<Rightarrow> 'cb window \<Rightarrow> 'cb window option" where
  "applet_mouse r w = draw_lines r [(8, ''Mouse Settings''), (30, ''Speed: Normal''), (48, ''Left-handed: No'')] (gui_draw_fill r GUI_BTN_FACE w)"

fun list_users :: "rect \<Rightarrow> string list \<Rightarrow> int \<Rightarrow> 'cb window \<Rightarrow> 'cb window option" where
  "list_users r [] y w = Some w"
| "list_users r (l # ls) y w =
     (if \<not> y < r_h r - 10 then Some w
      else if l \<noteq> [] \<and> hd l = CHR ''#'' then list_users r ls y w
      else do { v \<leftarrow> gui_draw_text (r_x r + 8) (r_y r + y) (takeWhile (\<lambda>c. c \<noteq> CHR '':'') l) GUI_TEXT GUI_BTN_FACE w; list_users r ls (y + 18) v })"

definition applet_users :: "forge_env \<Rightarrow> rect \<Rightarrow> 'cb window \<Rightarrow> 'cb window option" where
  "applet_users e r w =
     do { v \<leftarrow> draw_lines r [(8, ''User Accounts'')] (gui_draw_fill r GUI_BTN_FACE w);
          case passwd e of None \<Rightarrow> Some v | Some ls \<Rightarrow> list_users r ls 30 v }"

section \<open>The grid and the applet view\<close>

definition applets :: "(string \<times> string) list" where
  "applets = [(''Display'', ''DISP''), (''Appearance'', ''APPR''), (''System Info'', ''INFO''), (''Date/Time'', ''CLCK''), (''Keyboard'', ''KBRD''), (''Mouse'', ''MOUS''), (''Users'', ''USER'')]"

definition APPLET_COUNT :: int where [kconst]: "APPLET_COUNT = 7"
definition ICON_W :: int where [kconst]: "ICON_W = 72"
definition ICON_H :: int where [kconst]: "ICON_H = 72"
definition GRID_X :: int where [kconst]: "GRID_X = 8"
definition GRID_COLS :: int where [kconst]: "GRID_COLS = 4"

text \<open>The call through the table of applets.\<close>

definition applet_draw :: "forge_env \<Rightarrow> int \<Rightarrow> int \<Rightarrow> rect \<Rightarrow> 'cb window \<Rightarrow> 'cb window option" where
  "applet_draw e theme i =
     [applet_display, applet_appearance theme, applet_sysinfo e, applet_datetime e, applet_keyboard, applet_mouse, applet_users e] ! nat i"

definition icon_rect :: "int \<Rightarrow> rect" where
  "icon_rect i =
     (let col = i mod GRID_COLS; row = i div GRID_COLS
      in rect_make (GRID_X + col * (ICON_W + 8)) (24 + row * (ICON_H + 8)) ICON_W ICON_H)"

definition title_text :: string where
  "title_text = ''Forge '' @ [CHR 0xE2, CHR 0x80, CHR 0x94] @ '' Control Panel''"

definition draw_icon :: "int \<Rightarrow> int \<Rightarrow> 'cb window \<Rightarrow> 'cb window option" where
  "draw_icon active i w =
     (let ir = icon_rect i
      in do {
        v \<leftarrow> gui_draw_text (r_x ir + 8) (r_y ir + 12) (snd (applets ! nat i)) GUI_DARK_BLUE GUI_BTN_FACE
               (gui_draw_bevel ir (i \<noteq> active) (gui_draw_fill ir GUI_BTN_FACE w));
        gui_draw_text (r_x ir + 2) (r_y ir + ICON_H - 18) (fst (applets ! nat i)) GUI_TEXT GUI_BTN_FACE v })"

definition draw_grid :: "int \<Rightarrow> 'cb window \<Rightarrow> 'cb window option" where
  "draw_grid active w =
     do { v \<leftarrow> gui_draw_text 4 2 title_text GUI_WHITE GUI_TITLEBAR_ACTIVE (gui_draw_fill (rect_make 0 0 (r_w (win_rect w)) 20) GUI_TITLEBAR_ACTIVE w);
          for_range 0 APPLET_COUNT (\<lambda>i ov. do { u \<leftarrow> ov; draw_icon active i u }) (Some v) }"

definition back_btn :: rect where
  "back_btn = rect_make 4 4 60 18"

definition ok_btn :: "'cb window \<Rightarrow> rect" where
  "ok_btn w = rect_make (r_w (win_rect w) - 70) (r_h (win_rect w) - 26) 64 20"

definition content_rect :: "'cb window \<Rightarrow> rect" where
  "content_rect w = rect_make 4 28 (r_w (win_rect w) - 8) (r_h (win_rect w) - 36)"

definition forge_draw :: "forge_env \<Rightarrow> forge \<Rightarrow> 'cb window \<Rightarrow> 'cb window option" where
  "forge_draw e s w =
     (let w0 = gui_draw_fill (rect_make 0 0 (r_w (win_rect w)) (r_h (win_rect w))) GUI_BTN_FACE w
      in if active_applet s < 0 then draw_grid (active_applet s) w0
         else do {
           w1 \<leftarrow> gui_button_draw back_btn (Some ''<< Back'') False False w0;
           w2 \<leftarrow> gui_draw_text 70 4 (fst (applets ! nat (active_applet s))) GUI_WHITE GUI_TITLEBAR_ACTIVE
                   (gui_draw_fill (rect_make 0 0 (r_w (win_rect w)) 24) GUI_TITLEBAR_ACTIVE w1);
           w3 \<leftarrow> applet_draw e (selected_theme s) (active_applet s) (rect_inset (content_rect w) 3)
                   (gui_draw_bevel (content_rect w) False (gui_draw_fill (content_rect w) GUI_BTN_FACE w2));
           gui_button_draw (ok_btn w) (Some ''OK'') False False w3 })"

section \<open>Clicks\<close>

fun icon_hit :: "nat \<Rightarrow> int \<Rightarrow> int \<Rightarrow> int \<Rightarrow> int option" where
  "icon_hit 0 i mx my = None"
| "icon_hit (Suc n) i mx my = (if rect_contains (icon_rect i) mx my then Some i else icon_hit n (i + 1) mx my)"

text \<open>The new state, if the click changes it; the window is then drawn again.\<close>

definition forge_click :: "'cb window \<Rightarrow> int \<Rightarrow> int \<Rightarrow> forge \<Rightarrow> forge option" where
  "forge_click w mx my s =
     (if active_applet s < 0 then map_option (\<lambda>i. s\<lparr>active_applet := i\<rparr>) (icon_hit (nat APPLET_COUNT) 0 mx my)
      else if rect_contains back_btn mx my then Some (s\<lparr>active_applet := -1\<rparr>)
      else if rect_contains (ok_btn w) mx my then Some (s\<lparr>active_applet := -1\<rparr>)
      else None)"

definition forge_event :: "forge_env \<Rightarrow> nat \<Rightarrow> event \<Rightarrow> forge \<Rightarrow> 'cb gui \<Rightarrow> (forge \<times> 'cb gui) option" where
  "forge_event e p evt s g =
     (case (ev_type evt, ev_data evt) of
        (EVT_MOUSE_DOWN, Mouse_data mx my b) \<Rightarrow>
          (case forge_click (win_at g p) mx my s of
             None \<Rightarrow> Some (s, g)
           | Some s' \<Rightarrow> map_option (Pair s') (gui_redraw_window (\<lambda>_. forge_draw e s') p g))
      | _ \<Rightarrow> Some (s, g))"

definition forge_start :: forge where
  "forge_start = \<lparr>active_applet = -1, selected_theme = 0\<rparr>"

section \<open>Drawing stays in the window\<close>

text \<open>What the texts of the system may look like: at most one newline each, at the end, as in a line that \<^verbatim>\<open>fgets\<close> delivers.\<close>

definition env_ok :: "forge_env \<Rightarrow> bool" where
  "env_ok e \<longleftrightarrow> plain (un_sysname e) \<and> plain (un_release e) \<and> plain (un_machine e) \<and> plain (date_text e) \<and> plain (time_text e)
     \<and> (\<forall>ls. passwd e = Some ls \<longrightarrow> (\<forall>l \<in> set ls. one_line l))"

definition forge_ok :: "forge \<Rightarrow> bool" where
  "forge_ok s \<longleftrightarrow> -1 \<le> active_applet s \<and> active_applet s < APPLET_COUNT"

lemma below_lines:
  "win_ok w \<Longrightarrow> \<forall>(dy, t) \<in> set ts. plain t \<and> y0 \<le> r_y r + dy \<and> r_y r + dy + 16 \<le> r_h (win_rect w) \<Longrightarrow> drawn_below y0 w (draw_lines r ts w)"
proof (induction ts arbitrary: w)
  case (Cons d ts)
  obtain dy t where d: "d = (dy, t)" by (cases d)
  with Cons.prems have h: "plain t" "y0 \<le> r_y r + dy" "r_y r + dy + 16 \<le> r_h (win_rect w)" by auto
  show ?case unfolding d draw_lines.simps
  proof (rule below_bind)
    show "drawn_below y0 w (gui_draw_text (r_x r + 8) (r_y r + dy) t GUI_TEXT GUI_BTN_FACE w)"
      using h Cons.prems(1) by (intro below_text plain_one_line)
  qed (use Cons in auto)
qed (simp add: below_skip)

lemma below_filled_lines:
  assumes "win_ok w" "y0 \<le> r_y r" "\<forall>(dy, t) \<in> set ts. plain t \<and> 0 \<le> dy \<and> r_y r + dy + 16 \<le> r_h (win_rect w)"
  shows "drawn_below y0 w (draw_lines r ts (gui_draw_fill r c w))"
proof (rule below_seq [OF below_fill [OF assms(1,2), of c]])
  assume ok: "win_ok (gui_draw_fill r c w)"
  then show "drawn_below y0 (gui_draw_fill r c w) (draw_lines r ts (gui_draw_fill r c w))"
    using assms(2,3) by (intro below_lines) fastforce+
qed

lemma below_users:
  "win_ok w \<Longrightarrow> \<forall>l \<in> set ls. one_line l \<Longrightarrow> 0 \<le> y \<Longrightarrow> y0 \<le> r_y r \<Longrightarrow> r_y r + r_h r + 6 \<le> r_h (win_rect w) \<Longrightarrow> drawn_below y0 w (list_users r ls y w)"
proof (induction ls arbitrary: y w)
  case (Cons l ls)
  have "one_line (takeWhile (\<lambda>c. c \<noteq> CHR '':'') l @ dropWhile (\<lambda>c. c \<noteq> CHR '':'') l)" using Cons.prems(2) by simp
  then have o: "one_line (takeWhile (\<lambda>c. c \<noteq> CHR '':'') l)" by (rule one_line_prefix)
  have "drawn_below y0 w (gui_draw_text (r_x r + 8) (r_y r + y) (takeWhile (\<lambda>c. c \<noteq> CHR '':'') l) GUI_TEXT GUI_BTN_FACE w)" if "y < r_h r - 10"
    using that Cons.prems o by (intro below_text) auto
  from below_bind [OF this] show ?case using Cons by (auto simp: below_skip)
qed (simp add: below_skip)

lemma applet_below:
  assumes "win_ok w" "env_ok e" "0 \<le> i" "i < APPLET_COUNT" "y0 \<le> r_y r" "180 \<le> r_h r" "122 \<le> r_w r" "r_y r + r_h r + 6 \<le> r_h (win_rect w)"
  shows "drawn_below y0 w (applet_draw e th i r w)"
proof -
  have e: "plain (un_sysname e)" "plain (un_release e)" "plain (un_machine e)" "plain (date_text e)" "plain (time_text e)"
    using assms(2) by (simp_all add: env_ok_def)
  note lines = below_filled_lines [OF assms(1,5), of _ GUI_BTN_FACE] and room = assms(5-8)
  let ?sw = "rect_make (r_x r + 8) (r_y r + 90) 60 20"
  have "drawn_below y0 w (applet_display r w)"
    unfolding applet_display_def Let_def
  proof (rule below_bind)
    fix v assume v: "win_ok v" "win_rect v = win_rect w"
    show "drawn_below y0 v (Some (gui_draw_bevel ?sw False (gui_draw_fill ?sw GUI_TEAL v)))"
      by (rule below_seq [OF below_fill [OF v(1)] below_bevel]) (use room in auto)
  qed (rule lines, use room in auto)
  moreover have "drawn_below y0 w (applet_appearance th r w)"
    unfolding applet_appearance_def
  proof (rule below_bind)
    fix v assume v: "win_ok v" "win_rect v = win_rect w"
    have b: "widget_fits (Button (Some (themes ! nat i)) p False) (rect_make x y (r_w r - 16) 18)" if "0 \<le> i" "i < 5" for i p x y
    proof -
      have "i \<in> {0, 1, 2, 3, 4}" using that by auto
      then show ?thesis using room by (auto simp: themes_def line_fits_def)
    qed
    show "drawn_below y0 v (for_range 0 5 (\<lambda>i ov. do { u \<leftarrow> ov;
        gui_button_draw (rect_make (r_x r + 8) (r_y r + 28 + i * 22) (r_w r - 16) 18) (Some (themes ! nat i)) (i = th) False u }) (Some v))"
      by (rule below_range [OF below_button _]) (use v b room in auto)
  qed (rule lines, use room in auto)
  moreover have "drawn_below y0 w (applet_sysinfo e r w)"
    unfolding applet_sysinfo_def
  proof (rule below_bind)
    fix v assume v: "win_ok v" "win_rect v = win_rect w"
    show "drawn_below y0 v (case sysinfo e of None \<Rightarrow> Some v | Some (totalram, freeram, uptime) \<Rightarrow>
      draw_lines r [(62, take 255 (''Memory: '' @ show_int (totalram div 1048576) @ '' MB total, '' @ show_int (freeram div 1048576) @ '' MB free'')),
        (80, take 255 (''Uptime: '' @ show_int (uptime sdiv 86400) @ ''d '' @ show_int ((uptime smod 86400) sdiv 3600) @ ''h ''
          @ show_int ((uptime smod 3600) sdiv 60) @ ''m''))] v)"
    proof (cases "sysinfo e")
      case (Some t)
      obtain a b c where t: "t = (a, b, c)" by (cases t)
      show ?thesis unfolding Some t option.case prod.case
        by (rule below_lines [OF v(1)]) (use room v(2) in \<open>simp add: plain_take show_int_plain\<close>)
    qed (simp add: below_skip v(1))
  qed (rule lines, use room e in \<open>simp add: plain_take\<close>)
  moreover have "drawn_below y0 w (applet_datetime e r w)" unfolding applet_datetime_def by (rule lines) (use room e in auto)
  moreover have "drawn_below y0 w (applet_keyboard r w)" unfolding applet_keyboard_def by (rule lines) (use room in auto)
  moreover have "drawn_below y0 w (applet_mouse r w)" unfolding applet_mouse_def by (rule lines) (use room in auto)
  moreover have "drawn_below y0 w (applet_users e r w)"
    unfolding applet_users_def
  proof (rule below_bind)
    fix v assume "win_ok v" "win_rect v = win_rect w"
    then show "drawn_below y0 v (case passwd e of None \<Rightarrow> Some v | Some ls \<Rightarrow> list_users r ls 30 v)"
      using room assms(2) by (auto simp: below_skip env_ok_def intro!: below_users split: option.splits)
  qed (rule lines, use room in auto)
  moreover have "i \<in> {0, 1, 2, 3, 4, 5, 6}" using assms(3,4) by (auto simp: kconst)
  ultimately show ?thesis by (auto simp: applet_draw_def)
qed

lemma icon_range: "0 \<le> i \<Longrightarrow> i < APPLET_COUNT \<Longrightarrow> i \<in> {0, 1, 2, 3, 4, 5, 6}"
  by (auto simp: kconst)

lemma icon_rects:
  "icon_rect 0 = rect_make 8 24 72 72" "icon_rect 1 = rect_make 88 24 72 72" "icon_rect 2 = rect_make 168 24 72 72" "icon_rect 3 = rect_make 248 24 72 72"
  "icon_rect 4 = rect_make 8 104 72 72" "icon_rect 5 = rect_make 88 104 72 72" "icon_rect 6 = rect_make 168 104 72 72"
  by (simp_all add: icon_rect_def kconst)

lemma icon_below:
  assumes "win_ok w" "0 \<le> i" "i < APPLET_COUNT" "176 \<le> r_h (win_rect w)"
  shows "drawn_below 0 w (draw_icon active i w)"
proof -
  have g: "24 \<le> r_y (icon_rect i)" "r_y (icon_rect i) \<le> 104" "r_w (icon_rect i) = 72" "r_h (icon_rect i) = 72"
    and t: "one_line (fst (applets ! nat i))" "one_line (snd (applets ! nat i))"
    using icon_range [OF assms(2,3)] by (auto simp: icon_rects applets_def one_line_def)
  let ?w = "gui_draw_bevel (icon_rect i) (i \<noteq> active) (gui_draw_fill (icon_rect i) GUI_BTN_FACE w)"
  have face: "drawn_below 0 w (Some ?w)"
    by (rule below_seq [OF below_fill [OF assms(1)] below_bevel]) (use g in auto)
  show ?thesis unfolding draw_icon_def Let_def
  proof (rule below_bind [OF below_seq [OF face below_text]])
    fix v assume "win_ok v" "win_rect v = win_rect w"
    then show "drawn_below 0 v (gui_draw_text (r_x (icon_rect i) + 2) (r_y (icon_rect i) + ICON_H - 18) (fst (applets ! nat i)) GUI_TEXT GUI_BTN_FACE v)"
      using g t assms(4) by (intro below_text) (auto simp: kconst)
  qed (use g t assms(4) in auto)
qed

lemma grid_below:
  assumes "win_ok w" "176 \<le> r_h (win_rect w)"
  shows "drawn_below 0 w (draw_grid active w)"
  unfolding draw_grid_def
proof (rule below_bind [OF below_seq [OF below_fill [OF assms(1)] below_text]])
  fix v assume "win_ok v" "win_rect v = win_rect w"
  then show "drawn_below 0 v (for_range 0 APPLET_COUNT (\<lambda>i ov. do { u \<leftarrow> ov; draw_icon active i u }) (Some v))"
    using assms(2) by (intro below_range icon_below) auto
qed (use assms(2) in \<open>auto simp: title_text_def one_line_def\<close>)

text \<open>The view of an applet: the title bar is drawn after the back button and covers it.\<close>

lemma applet_view:
  assumes "win_ok w" "r_w (win_rect w) = 380" "r_h (win_rect w) = 340" "env_ok e" "0 \<le> active_applet s" "active_applet s < APPLET_COUNT"
  shows "\<exists>v. forge_draw e s w = Some v \<and> win_ok v \<and> win_rect v = win_rect w \<and> (\<forall>x y. rect_contains back_btn x y \<longrightarrow> pixel v x y = GUI_TITLEBAR_ACTIVE)"
proof -
  define w0 where "w0 = gui_draw_fill (rect_make 0 0 380 340) GUI_BTN_FACE w"
  have w0: "win_ok w0" "win_rect w0 = win_rect w" using wc.paintsD(1) [OF paints_fill assms(1)] by (simp_all add: w0_def)
  have "drawn_below 0 w0 (gui_button_draw back_btn (Some ''<< Back'') False False w0)"
    using w0 assms(3) by (intro below_button) (auto simp: back_btn_def line_fits_def)
  then obtain w1 where w1: "gui_button_draw back_btn (Some ''<< Back'') False False w0 = Some w1" "win_ok w1" "win_rect w1 = win_rect w"
    using w0(2) by (auto simp: drawn_below_def)
  let ?nm = "fst (applets ! nat (active_applet s))" and ?bar = "rect_make 0 0 380 24"
  define w2 where "w2 = text_plot 70 70 4 ?nm GUI_TITLEBAR_ACTIVE (gui_draw_fill ?bar GUI_TITLEBAR_ACTIVE w1)"
  have nm: "plain ?nm" using icon_range [OF assms(5,6)] by (auto simp: applets_def)
  have p: "wc.paints (\<lambda>v. text_plot 70 70 4 ?nm GUI_TITLEBAR_ACTIVE (gui_draw_fill ?bar GUI_TITLEBAR_ACTIVE v))
      (over (box 70 (70 + 8 * int (length ?nm)) 4 (4 + 16) GUI_TITLEBAR_ACTIVE) (rect_pic ?bar GUI_TITLEBAR_ACTIVE))"
    by (rule wc.paints_comp [OF paints_fill paints_text [OF nm]])
  have w2: "win_ok w2" "win_rect w2 = win_rect w" using wc.paintsD(1) [OF p w1(2)] w1(3) by (simp_all add: w2_def)
  have t: "gui_draw_text 70 4 ?nm c GUI_TITLEBAR_ACTIVE (gui_draw_fill ?bar GUI_TITLEBAR_ACTIVE w1) = Some w2" for c
    unfolding w2_def by (rule text_plain) (use wc.paintsD(1) [OF paints_fill w1(2)] nm w1(3) assms(3) in auto)
  have bar: "pixel w2 x y = GUI_TITLEBAR_ACTIVE" if "rect_contains back_btn x y" for x y
    using wc.paintsD(3) [OF p w1(2), of x y] that assms(2,3) w1(3)
    by (auto simp: w2_def in_window_def rect_contains_def back_btn_def over_apply box_def rect_pic_def)
  have cr: "content_rect w = rect_make 4 28 372 304" "ok_btn w = rect_make 310 314 64 20" using assms(2,3) by (simp_all add: content_rect_def ok_btn_def)
  let ?w3 = "gui_draw_bevel (content_rect w) False (gui_draw_fill (content_rect w) GUI_BTN_FACE w2)"
  have "drawn_below 24 w2 (Some ?w3)"
    unfolding cr by (rule below_seq [OF below_fill [OF w2(1)] below_bevel]) auto
  then have "drawn_below 24 w2 (do { u \<leftarrow> applet_draw e (selected_theme s) (active_applet s) (rect_inset (content_rect w) 3) ?w3; gui_button_draw (ok_btn w) (Some ''OK'') False False u })"
  proof (rule below_seq, intro below_bind)
    assume "win_ok ?w3" "win_rect ?w3 = win_rect w2"
    then show "drawn_below 24 ?w3 (applet_draw e (selected_theme s) (active_applet s) (rect_inset (content_rect w) 3) ?w3)"
      using assms w2(2) unfolding cr by (intro applet_below) auto
  next
    fix v assume "win_ok v" "win_rect v = win_rect ?w3"
    then show "drawn_below 24 v (gui_button_draw (ok_btn w) (Some ''OK'') False False v)"
      using assms(3) w2(2) unfolding cr by (intro below_button) (auto simp: line_fits_def)
  qed
  then obtain v where v: "(do { u \<leftarrow> applet_draw e (selected_theme s) (active_applet s) (rect_inset (content_rect w) 3) ?w3; gui_button_draw (ok_btn w) (Some ''OK'') False False u }) = Some v"
      "win_ok v" "win_rect v = win_rect w" "\<forall>x y. in_window w2 x y \<and> y < 24 \<longrightarrow> pixel v x y = pixel w2 x y"
    using w2(2) by (auto simp: drawn_below_def)
  have "forge_draw e s w = Some v"
    unfolding forge_draw_def Let_def using assms(2,3,5) w1(1) t v(1) by (simp add: w0_def)
  moreover have "pixel v x y = GUI_TITLEBAR_ACTIVE" if "rect_contains back_btn x y" for x y
    using bar [OF that] v(4) that w2(2) assms(2,3) by (auto simp: in_window_def rect_contains_def back_btn_def)
  ultimately show ?thesis using v(2,3) by blast
qed

section \<open>Clicks open what they show\<close>

lemma icon_hit_seven:
  "icon_hit (nat APPLET_COUNT) 0 mx my = List.find (\<lambda>i. rect_contains (icon_rect i) mx my) [0, 1, 2, 3, 4, 5, 6]"
  by (simp add: kconst eval_nat_numeral)

lemma icons_apart:
  assumes "i \<in> {0, 1, 2, 3, 4, 5, 6}" "j \<in> {0, 1, 2, 3, 4, 5, 6}" "rect_contains (icon_rect i) x y" "rect_contains (icon_rect j) x y"
  shows "i = j"
  using assms by (auto simp: icon_rects rect_contains_def)

lemma find_SomeD: "List.find P xs = Some i \<Longrightarrow> P i \<and> i \<in> set xs"
  by (auto simp: find_Some_iff)

lemma icon_hit_iff: "icon_hit (nat APPLET_COUNT) 0 mx my = Some i \<longleftrightarrow> 0 \<le> i \<and> i < APPLET_COUNT \<and> rect_contains (icon_rect i) mx my"
proof
  assume h: "icon_hit (nat APPLET_COUNT) 0 mx my = Some i"
  then have "rect_contains (icon_rect i) mx my \<and> i \<in> set [0, 1, 2, 3, 4, 5, 6]" unfolding icon_hit_seven by (rule find_SomeD)
  then show "0 \<le> i \<and> i < APPLET_COUNT \<and> rect_contains (icon_rect i) mx my" by (auto simp: kconst)
next
  assume r: "0 \<le> i \<and> i < APPLET_COUNT \<and> rect_contains (icon_rect i) mx my"
  then have i: "i \<in> {0, 1, 2, 3, 4, 5, 6}" using icon_range by blast
  then have "List.find (\<lambda>i. rect_contains (icon_rect i) mx my) [0, 1, 2, 3, 4, 5, 6] \<noteq> None"
    unfolding find_None_iff using r by auto
  then have "\<exists>k. icon_hit (nat APPLET_COUNT) 0 mx my = Some k" unfolding icon_hit_seven by (rule not_None_eq [THEN iffD1])
  then obtain k where k: "icon_hit (nat APPLET_COUNT) 0 mx my = Some k" by blast
  then have "rect_contains (icon_rect k) mx my \<and> k \<in> set [0, 1, 2, 3, 4, 5, 6]" unfolding icon_hit_seven by (rule find_SomeD)
  then show "icon_hit (nat APPLET_COUNT) 0 mx my = Some i" using k icons_apart [OF i, of k mx my] r by auto
qed

text \<open>States that clicks lead to.\<close>

inductive forge_reach :: "'cb window \<Rightarrow> forge \<Rightarrow> bool" where
  start: "forge_reach w forge_start"
| click: "forge_reach w s \<Longrightarrow> forge_click w mx my s = Some s' \<Longrightarrow> forge_reach w s'"

lemma forge_reach_ok: "forge_reach w s \<Longrightarrow> forge_ok s"
proof (induction rule: forge_reach.induct)
  case (click w s mx my s')
  show ?case
  proof (cases "active_applet s < 0")
    case True
    with click.hyps(2) obtain i where "icon_hit (nat APPLET_COUNT) 0 mx my = Some i" "s' = s\<lparr>active_applet := i\<rparr>" by (auto simp: forge_click_def)
    then show ?thesis unfolding icon_hit_iff by (simp add: forge_ok_def)
  qed (use click.hyps(2) in \<open>auto simp: forge_click_def forge_ok_def kconst split: if_splits\<close>)
qed (simp add: forge_start_def forge_ok_def kconst)


definition demo_env :: forge_env where
  "demo_env = \<lparr>un_sysname = ''Ember'', un_release = ''1.0'', un_machine = ''x86_64'', sysinfo = Some (134217728, 67108864, 90061), date_text = ''Monday'', time_text = ''12:00:00'',
     passwd = Some [''root:x:0:0'' @ [CHR 0x0A], ''guest'' @ [CHR 0x0A]]\<rparr>"


text \<open>The back button cannot be seen: the title bar is painted over it.\<close>

theorem back_button_hidden:
  assumes "win_ok w" "r_w (win_rect w) = 380" "r_h (win_rect w) = 340" "env_ok e" "0 \<le> active_applet s" "active_applet s < APPLET_COUNT"
  shows "\<exists>v. forge_draw e s w = Some v \<and> (\<forall>x y. rect_contains back_btn x y \<longrightarrow> pixel v x y = GUI_TITLEBAR_ACTIVE)"
  using applet_view [OF assms] by blast

end
