(* ===== verification/Panel.thy ===== *)
theory Panel
  imports Gui_Text Ipc
begin

text \<open>
  The task bar, \<^verbatim>\<open>src/desktop/panel/panel.c\<close>: the list of tasks that messages of the window manager keep up to date, and the drawing of the bar straight into the
  framebuffer. Many of its stores are not guarded; the memory of the framebuffer is a list, and a store outside it is \<open>None\<close>.
\<close>

section \<open>State\<close>

definition PANEL_HEIGHT :: int where [kconst]: "PANEL_HEIGHT = 28"
definition CLOCK_WIDTH :: int where [kconst]: "CLOCK_WIDTH = 60"
definition LOGO_WIDTH :: int where [kconst]: "LOGO_WIDTH = 38"
definition TASK_BTN_W :: int where [kconst]: "TASK_BTN_W = 120"
definition TASK_BTN_H :: int where [kconst]: "TASK_BTN_H = 22"
definition MAX_TASKS :: nat where [kconst]: "MAX_TASKS = 32"

record task_entry =
  te_win_id :: u32
  te_title :: "u8 list"
  te_active :: bool
  te_visible :: bool

record panel =
  tasks :: "task_entry list"
  wm_chan :: channel
  wm_connected :: bool
  pan_fb :: "u32 list option"
  screen_w :: u32
  screen_h :: u32
  pan_pitch :: u32

section \<open>Drawing\<close>

text \<open>A store to the framebuffer; the index is computed with 32 bits.\<close>

definition fb_put_raw :: "panel \<Rightarrow> int \<Rightarrow> int \<Rightarrow> u32 \<Rightarrow> u32 list option \<Rightarrow> u32 list option" where
  "fb_put_raw p x y c ob =
     (let i = unat (of_int y * (pan_pitch p div 4) + of_int x)
      in do { b \<leftarrow> ob; if i < length b then Some (b[i := c]) else None })"

text \<open>A box that skips rows and columns outside the screen.\<close>

definition bar_box :: "panel \<Rightarrow> int \<Rightarrow> int \<Rightarrow> int \<Rightarrow> int \<Rightarrow> u32 list option \<Rightarrow> u32 list option" where
  "bar_box p x0 x1 y0 y1 =
     for_range y0 y1 (\<lambda>y b. if y < 0 \<or> y \<ge> uint (screen_h p) then b
       else for_range x0 x1 (\<lambda>x b'. if x < 0 \<or> x \<ge> uint (screen_w p) then b' else fb_put_raw p x y GUI_BTN_FACE b') b)"

definition u32_below :: "int \<Rightarrow> u32 \<Rightarrow> bool" where
  "u32_below k n \<longleftrightarrow> (of_int k :: u32) < n"

definition bar_back :: "panel \<Rightarrow> int \<Rightarrow> u32 list option \<Rightarrow> u32 list option" where
  "bar_back p py ob =
     (let w = sint (screen_w p); h = sint (screen_h p);
          b1 = for_range py h (\<lambda>y b. if y < 0 then b else for_range 0 w (\<lambda>x. fb_put_raw p x y GUI_BTN_FACE) b) ob;
          b2 = for_range 0 w (\<lambda>x. fb_put_raw p x py GUI_BTN_SHADOW) b1
      in if py + 1 < h then for_range 0 w (\<lambda>x. fb_put_raw p x (py + 1) GUI_BTN_HIGHLIGHT) b2 else b2)"

definition bar_logo :: "panel \<Rightarrow> int \<Rightarrow> u32 list option \<Rightarrow> u32 list option" where
  "bar_logo p py ob =
     (let lx = 2; ly = py + 2;
          b1 = bar_box p lx (lx + LOGO_WIDTH) ly (ly + PANEL_HEIGHT - 4) ob;
          b2 = for_range lx (lx + LOGO_WIDTH) (\<lambda>x b.
                 let c = fb_put_raw p x ly GUI_BTN_HIGHLIGHT b
                 in if ly + PANEL_HEIGHT - 5 \<ge> 0 \<and> u32_below (ly + PANEL_HEIGHT - 5) (screen_h p) then fb_put_raw p x (ly + PANEL_HEIGHT - 5) GUI_BTN_SHADOW c else c) b1
      in for_range ly (ly + PANEL_HEIGHT - 4) (\<lambda>y b.
           let c = fb_put_raw p lx y GUI_BTN_HIGHLIGHT b
           in if lx + LOGO_WIDTH - 1 \<ge> 0 \<and> u32_below (lx + LOGO_WIDTH - 1) (screen_w p) then fb_put_raw p (lx + LOGO_WIDTH - 1) y GUI_BTN_SHADOW c else c) b2)"

definition bar_button :: "panel \<Rightarrow> int \<Rightarrow> int \<Rightarrow> bool \<Rightarrow> u32 list option \<Rightarrow> u32 list option" where
  "bar_button p bx yb pressed ob =
     (let col1 = (if pressed then GUI_BTN_SHADOW else GUI_BTN_HIGHLIGHT); col2 = (if pressed then GUI_BTN_HIGHLIGHT else GUI_BTN_SHADOW);
          b1 = bar_box p bx (bx + TASK_BTN_W) yb (yb + TASK_BTN_H) ob;
          b2 = for_range bx (bx + TASK_BTN_W) (\<lambda>x b.
                 let c = (if u32_below yb (screen_h p) then fb_put_raw p x yb col1 b else b)
                 in if u32_below (yb + TASK_BTN_H - 1) (screen_h p) then fb_put_raw p x (yb + TASK_BTN_H - 1) col2 c else c) b1
      in for_range yb (yb + TASK_BTN_H) (\<lambda>y b.
           if u32_below y (screen_h p) then fb_put_raw p (bx + TASK_BTN_W - 1) y col2 (fb_put_raw p bx y col1 b) else b) b2)"

fun bar_tasks :: "panel \<Rightarrow> int \<Rightarrow> task_entry list \<Rightarrow> int \<Rightarrow> u32 list option \<Rightarrow> u32 list option" where
  "bar_tasks p py [] bx ob = ob"
| "bar_tasks p py (t # ts) bx ob =
     (if \<not> te_visible t then bar_tasks p py ts bx ob
      else (let b = bar_button p bx (py + 3) (te_active t) ob; bx' = bx + (TASK_BTN_W + 2)
            in if bx' + TASK_BTN_W > sint (screen_w p) - CLOCK_WIDTH - 4 then b else bar_tasks p py ts bx' b))"

definition bar_clock :: "panel \<Rightarrow> int \<Rightarrow> u32 list option \<Rightarrow> u32 list option" where
  "bar_clock p py ob =
     (let clk_x = sint (screen_w p) - CLOCK_WIDTH - 2; clk_y = py + 2;
          b1 = bar_box p clk_x (clk_x + CLOCK_WIDTH) clk_y (clk_y + PANEL_HEIGHT - 4) ob
      in for_range clk_x (clk_x + CLOCK_WIDTH) (\<lambda>x b.
           let c = (if u32_below clk_y (screen_h p) then fb_put_raw p x clk_y GUI_BTN_SHADOW b else b)
           in if u32_below (clk_y + PANEL_HEIGHT - 5) (screen_h p) then fb_put_raw p x (clk_y + PANEL_HEIGHT - 5) GUI_BTN_HIGHLIGHT c else c) b1)"

text \<open>The text of the clock is formatted but not drawn.\<close>

definition draw_panel :: "panel \<Rightarrow> panel option" where
  "draw_panel p =
     (case pan_fb p of
        None \<Rightarrow> Some p
      | Some b \<Rightarrow>
          (let py = sint (screen_h p) - PANEL_HEIGHT
           in map_option (\<lambda>b'. p\<lparr>pan_fb := Some b'\<rparr>)
                (bar_clock p py (bar_tasks p py (tasks p) (LOGO_WIDTH + 4) (bar_logo p py (bar_back p py (Some b)))))))"

section \<open>Messages\<close>

definition connect_to_wm :: "'os sockets \<Rightarrow> panel \<Rightarrow> 'os \<Rightarrow> panel \<times> 'os" where
  "connect_to_wm k p os =
     (case ipc_connect k ''wm'' (wm_chan p) os of (r, ch, os') \<Rightarrow> (p\<lparr>wm_chan := ch, wm_connected := (if r = 0 then True else wm_connected p)\<rparr>, os'))"

definition handle_message :: "message \<Rightarrow> panel \<Rightarrow> panel" where
  "handle_message msg p =
     (let p1 = (if m_type msg = message_code MSG_WIN_CREATE \<and> length (tasks p) < MAX_TASKS
                then p\<lparr>tasks := tasks p @ [\<lparr>te_win_id = m_sender msg, te_title = take 63 (m_data msg), te_active = False, te_visible = True\<rparr>]\<rparr> else p)
      in if m_type msg = message_code MSG_WIN_DESTROY
         then p1\<lparr>tasks := map (\<lambda>t. if te_win_id t = m_sender msg then t\<lparr>te_visible := False\<rparr> else t) (tasks p1)\<rparr> else p1)"

text \<open>\<open>msg0\<close> is what the message on the stack holds before the call.\<close>

definition poll_ipc :: "(int \<Rightarrow> int \<Rightarrow> 'os \<Rightarrow> int) \<Rightarrow> (int \<Rightarrow> nat \<Rightarrow> 'os \<Rightarrow> (int \<times> u8 list \<times> 'os) option) \<Rightarrow> message \<Rightarrow> panel \<Rightarrow> 'os \<Rightarrow> (panel \<times> 'os) option" where
  "poll_ipc poll sys_read msg0 p os =
     (if \<not> wm_connected p then Some (p, os)
      else case ipc_recv_timeout poll sys_read (wm_chan p) msg0 0 os of
             None \<Rightarrow> None
           | Some (r, msg, os') \<Rightarrow> Some (if r > 0 then handle_message msg p else p, os'))"

section \<open>The bar stays at the bottom of the screen\<close>

definition screen_ok :: "panel \<Rightarrow> u32 list \<Rightarrow> bool" where
  "screen_ok p b \<longleftrightarrow> 162 \<le> uint (screen_w p) \<and> uint (screen_w p) < 2 ^ 31 \<and> 28 \<le> uint (screen_h p) \<and> uint (screen_h p) < 2 ^ 31
     \<and> uint (screen_w p) \<le> uint (pan_pitch p div 4) \<and> uint (pan_pitch p div 4) * uint (screen_h p) \<le> int (length b) \<and> length b \<le> 2 ^ 32"

text \<open>The cells of the bar.\<close>

definition in_bar :: "panel \<Rightarrow> int \<Rightarrow> int \<Rightarrow> bool" where
  "in_bar p x y \<longleftrightarrow> 0 \<le> x \<and> x < uint (screen_w p) \<and> uint (screen_h p) - 28 \<le> y \<and> y < uint (screen_h p)"

definition bar_only :: "panel \<Rightarrow> u32 list \<Rightarrow> u32 list option \<Rightarrow> bool" where
  "bar_only p b ob \<longleftrightarrow> (\<exists>b'. ob = Some b' \<and> length b' = length b
     \<and> (\<forall>i < length b. b' ! i = b ! i \<or> (\<exists>x y. in_bar p x y \<and> i = nat (y * uint (pan_pitch p div 4) + x))))"

lemma range_keeps:
  "bar_only p b ob \<Longrightarrow> (\<And>i ob. x0 \<le> i \<Longrightarrow> i < x1 \<Longrightarrow> bar_only p b ob \<Longrightarrow> bar_only p b (f i ob)) \<Longrightarrow> bar_only p b (for_range x0 x1 f ob)"
  by (rule for_range_sim [where R = "\<lambda>s t. bar_only p b s"]) auto

lemma put_keeps:
  assumes "screen_ok p b" "in_bar p x y" "bar_only p b ob"
  shows "bar_only p b (fb_put_raw p x y c ob)"
proof -
  let ?s = "uint (pan_pitch p div 4)"
  obtain b' where b': "ob = Some b'" "length b' = length b"
      "\<forall>i < length b. b' ! i = b ! i \<or> (\<exists>x y. in_bar p x y \<and> i = nat (y * ?s + x))"
    using assms(3) by (auto simp: bar_only_def)
  have g: "0 \<le> x" "x < ?s" "0 \<le> y" "y < uint (screen_h p)" "?s * uint (screen_h p) \<le> 2 ^ 32" using assms(1,2) by (auto simp: screen_ok_def in_bar_def)
  have "unat (of_int y * of_int ?s + of_int x :: u32) = nat (y * ?s + x)" by (rule cell_word) (use g in auto)
  then have i: "unat (of_int y * (pan_pitch p div 4) + of_int x) = nat (y * ?s + x)" by simp
  have "nat (y * ?s + x) < length b'" using cell_bounds [OF g(1-4)] assms(1) b'(2) by (auto simp: screen_ok_def)
  then show ?thesis using b' assms(2) unfolding fb_put_raw_def Let_def i by (auto simp: bar_only_def nth_list_update)
qed

lemma u32_below_iff: "0 \<le> k \<Longrightarrow> k < 2 ^ 31 \<Longrightarrow> u32_below k n \<longleftrightarrow> k < uint n"
  by (simp add: u32_below_def word_less_def uint_of_int_small)

lemma sint_screen: "screen_ok p b \<Longrightarrow> sint (screen_w p) = uint (screen_w p) \<and> sint (screen_h p) = uint (screen_h p)"
  unfolding screen_ok_def sint_uint by (intro conjI signed_take_bit_int_eq_self) (auto intro: order_trans [OF _ uint_ge_0])

lemma box_keeps:
  assumes "screen_ok p b" "uint (screen_h p) - 28 \<le> y0" "bar_only p b ob"
  shows "bar_only p b (bar_box p x0 x1 y0 y1 ob)"
  unfolding bar_box_def
  using assms(2) by (auto intro!: range_keeps put_keeps [OF assms(1)] assms(3) simp: in_bar_def)

text \<open>Every part of the bar, on a screen that is high and wide enough.\<close>

lemma bar_keeps:
  assumes s: "screen_ok p b" and o: "bar_only p b ob"
  defines "py \<equiv> sint (screen_h p) - PANEL_HEIGHT"
  shows "bar_only p b (bar_back p py ob)" "bar_only p b (bar_logo p py ob)" "bar_only p b (bar_clock p py ob)"
    "0 \<le> bx \<Longrightarrow> bx + 120 \<le> uint (screen_w p) \<Longrightarrow> bar_only p b (bar_button p bx (py + 3) pr ob)"
proof -
  have py: "py = uint (screen_h p) - 28" using sint_screen [OF s] by (simp add: py_def kconst)
  have g: "162 \<le> uint (screen_w p)" "28 \<le> uint (screen_h p)" "uint (screen_h p) < 2 ^ 31" "sint (screen_w p) = uint (screen_w p)" "sint (screen_h p) = uint (screen_h p)"
    using s sint_screen [OF s] by (auto simp: screen_ok_def)
  note k = range_keeps put_keeps [OF s] box_keeps [OF s] o
  show "bar_only p b (bar_back p py ob)"
    unfolding bar_back_def Let_def g(4,5) using g by (auto intro!: k simp: in_bar_def py)
  show "bar_only p b (bar_logo p py ob)"
    unfolding bar_logo_def Let_def using g by (auto intro!: k simp: in_bar_def py kconst)
  show "bar_only p b (bar_clock p py ob)"
    unfolding bar_clock_def Let_def g(4,5) using g by (auto intro!: k simp: in_bar_def py kconst)
  show "bar_only p b (bar_button p bx (py + 3) pr ob)" if "0 \<le> bx" "bx + 120 \<le> uint (screen_w p)"
    unfolding bar_button_def Let_def using g that by (auto intro!: k simp: in_bar_def py kconst)
qed

lemma tasks_keep:
  assumes "screen_ok p b"
  shows "bar_only p b ob \<Longrightarrow> 0 \<le> bx \<Longrightarrow> bx + 120 \<le> uint (screen_w p) \<Longrightarrow> bar_only p b (bar_tasks p (sint (screen_h p) - PANEL_HEIGHT) ts bx ob)"
proof (induction ts arbitrary: bx ob)
  case (Cons t ts)
  have "bar_only p b (bar_button p bx (sint (screen_h p) - PANEL_HEIGHT + 3) (te_active t) ob)"
    using bar_keeps(4) [OF assms Cons.prems(1)] Cons.prems by blast
  then show ?case using Cons sint_screen [OF assms] by (auto simp: Let_def kconst)
qed simp

text \<open>
  Drawing the bar on a screen of at least 162 by 28 pixels stores only inside the framebuffer, and only in the cells of the 28 lines at its bottom.
\<close>

theorem panel_draws_bar:
  assumes "pan_fb p = Some b" "screen_ok p b"
  shows "\<exists>b'. draw_panel p = Some (p\<lparr>pan_fb := Some b'\<rparr>) \<and> length b' = length b
    \<and> (\<forall>i < length b. b' ! i = b ! i \<or> (\<exists>x y. in_bar p x y \<and> i = nat (y * uint (pan_pitch p div 4) + x)))"
proof -
  let ?py = "sint (screen_h p) - PANEL_HEIGHT"
  have "bar_only p b (Some b)" by (simp add: bar_only_def)
  from bar_keeps(2) [OF assms(2) bar_keeps(1) [OF assms(2) this]]
  have "bar_only p b (bar_logo p ?py (bar_back p ?py (Some b)))" .
  from bar_keeps(3) [OF assms(2) tasks_keep [OF assms(2) this, of "LOGO_WIDTH + 4" "tasks p"]]
  have "bar_only p b (bar_clock p ?py (bar_tasks p ?py (tasks p) (LOGO_WIDTH + 4) (bar_logo p ?py (bar_back p ?py (Some b)))))"
    using assms(2) by (simp add: kconst screen_ok_def)
  then show ?thesis using assms(1) by (auto simp: bar_only_def draw_panel_def Let_def)
qed

section \<open>The tasks follow the messages\<close>

definition open_ids :: "panel \<Rightarrow> u32 set" where
  "open_ids p = te_win_id ` {t \<in> set (tasks p). te_visible t}"

text \<open>What the messages mean.\<close>

definition window_step :: "message \<Rightarrow> u32 set \<Rightarrow> u32 set" where
  "window_step m ids =
     (if m_type m = message_code MSG_WIN_CREATE then insert (m_sender m) ids
      else if m_type m = message_code MSG_WIN_DESTROY then ids - {m_sender m} else ids)"

definition creations :: "message list \<Rightarrow> nat" where
  "creations ms = length (filter (\<lambda>m. m_type m = message_code MSG_WIN_CREATE) ms)"

lemma open_ids_add: "te_visible t \<Longrightarrow> open_ids (p\<lparr>tasks := tasks p @ [t]\<rparr>) = insert (te_win_id t) (open_ids p)"
  by (auto simp: open_ids_def)

lemma hide_ids:
  "map te_win_id (filter te_visible (map (\<lambda>t. if te_win_id t = q then t\<lparr>te_visible := False\<rparr> else t) ts)) = filter (\<lambda>r. r \<noteq> q) (map te_win_id (filter te_visible ts))"
  by (induction ts) simp_all

lemma open_ids_hide: "open_ids (p\<lparr>tasks := map (\<lambda>t. if te_win_id t = q then t\<lparr>te_visible := False\<rparr> else t) (tasks p)\<rparr>) = open_ids p - {q}"
proof -
  have ids: "open_ids r = set (map te_win_id (filter te_visible (tasks r)))" for r by (simp only: open_ids_def set_map set_filter)
  have "tasks (p\<lparr>tasks := ts\<rparr>) = ts" for ts by simp
  then show ?thesis by (simp only: ids hide_ids set_filter) blast
qed

lemma handle_message_cases:
  "handle_message m p =
     (if m_type m = message_code MSG_WIN_CREATE
      then if length (tasks p) < MAX_TASKS
           then p\<lparr>tasks := tasks p @ [\<lparr>te_win_id = m_sender m, te_title = take 63 (m_data m), te_active = False, te_visible = True\<rparr>]\<rparr> else p
      else if m_type m = message_code MSG_WIN_DESTROY
      then p\<lparr>tasks := map (\<lambda>t. if te_win_id t = m_sender m then t\<lparr>te_visible := False\<rparr> else t) (tasks p)\<rparr> else p)"
  by (simp add: handle_message_def Let_def)

lemma handle_message_open:
  "m_type m = message_code MSG_WIN_CREATE \<longrightarrow> length (tasks p) < MAX_TASKS \<Longrightarrow> open_ids (handle_message m p) = window_step m (open_ids p)"
  by (simp add: handle_message_cases window_step_def open_ids_add open_ids_hide)

lemma handle_message_length: "length (tasks (handle_message m p)) \<le> length (tasks p) + (if m_type m = message_code MSG_WIN_CREATE then 1 else 0)"
  by (simp add: handle_message_def Let_def)

lemma handle_messages_open:
  "length (tasks p) + creations ms \<le> MAX_TASKS \<Longrightarrow> open_ids (fold handle_message ms p) = fold window_step ms (open_ids p)"
proof (induction ms arbitrary: p)
  case (Cons m ms)
  have "length (tasks (handle_message m p)) + creations ms \<le> MAX_TASKS"
    using Cons.prems handle_message_length [of m p] by (auto simp: creations_def split: if_splits)
  moreover have "m_type m = message_code MSG_WIN_CREATE \<longrightarrow> length (tasks p) < MAX_TASKS"
    using Cons.prems by (auto simp: creations_def)
  ultimately show ?case using Cons.IH [of "handle_message m p"] handle_message_open [of m p] by simp
qed simp

lemma handle_message_chan: "wm_connected (handle_message m p) = wm_connected p" "wm_chan (handle_message m p) = wm_chan p"
  by (simp_all add: handle_message_def Let_def)

text \<open>As many turns of the main loop as given, without the drawing.\<close>

fun poll_turns :: "nat \<Rightarrow> (int \<Rightarrow> int \<Rightarrow> 'os \<Rightarrow> int) \<Rightarrow> (int \<Rightarrow> nat \<Rightarrow> 'os \<Rightarrow> (int \<times> u8 list \<times> 'os) option) \<Rightarrow> message \<Rightarrow> panel \<Rightarrow> 'os \<Rightarrow> (panel \<times> 'os) option" where
  "poll_turns 0 poll sys_read msg0 p os = Some (p, os)"
| "poll_turns (Suc n) poll sys_read msg0 p os = do { (p', os') \<leftarrow> poll_ipc poll sys_read msg0 p os; poll_turns n poll sys_read msg0 p' os' }"

lemma poll_turns_handle:
  assumes "byte_stream wr (sys_read fd) inflight ok cap" "message_ok msg0" "\<And>os. inflight os \<noteq> [] \<Longrightarrow> 0 < poll fd 0 os"
  shows "ok os \<Longrightarrow> queued inflight ms os \<Longrightarrow> wm_connected p \<Longrightarrow> ch_fd (wm_chan p) = fd \<Longrightarrow>
    \<exists>os'. poll_turns (length ms) poll sys_read msg0 p os = Some (fold handle_message ms p, os') \<and> ok os' \<and> inflight os' = []"
proof (induction ms arbitrary: p os)
  case (Cons m ms)
  have "inflight os \<noteq> []" using queued_length [OF Cons.prems(2)] by (auto simp: kconst)
  then have "0 < poll (ch_fd (wm_chan p)) (if (0 :: int) < 0 then -1 else 0) os" using assms(3) Cons.prems(4) by simp
  moreover have "byte_stream wr (sys_read (ch_fd (wm_chan p))) inflight ok cap" using assms(1) Cons.prems(4) by simp
  ultimately obtain os' where r: "ipc_recv_timeout poll sys_read (wm_chan p) msg0 0 os = Some (1, m, os')" "ok os'" "queued inflight ms os'"
    using recv_dequeues [where sys_read = sys_read and ch = "wm_chan p" and poll = poll and ms' = 0] Cons.prems(1,2) assms(2) by blast
  then have "poll_ipc poll sys_read msg0 p os = Some (handle_message m p, os')" using Cons.prems(3) by (simp add: poll_ipc_def)
  then show ?case using Cons.IH [OF r(2,3), of "handle_message m p"] Cons.prems(3,4) by (simp add: handle_message_chan)
qed (simp add: queued_def)


definition demo_panel :: panel where
  "demo_panel = \<lparr>tasks = [], wm_chan = \<lparr>ch_fd = 3, peer_pid = 0, local_pid = 8, ch_name = ''wm''\<rparr>, wm_connected = True,
     pan_fb = None, screen_w = 640, screen_h = 480, pan_pitch = 2560\<rparr>"

definition create_message :: message where
  "create_message = call_message (message_code MSG_WIN_CREATE) (Some [65, 66]) 2"


text \<open>
  Two weaknesses. Slots of closed windows are not used again, so after 32 creations no window is added any more. And a window is identified by the process that sent
  the message; the window manager sends them all, so that closing one window takes every window from the bar.
\<close>

theorem panel_slots_run_out:
  "length (tasks p) = MAX_TASKS \<Longrightarrow> m_type m = message_code MSG_WIN_CREATE \<Longrightarrow> handle_message m p = p"
  by (simp add: handle_message_def Let_def)

lemma same_sender_tasks:
  "\<forall>t \<in> set (tasks p). te_win_id t = snd_id \<Longrightarrow> \<forall>m \<in> set ms. m_sender m = snd_id \<Longrightarrow> \<forall>t \<in> set (tasks (fold handle_message ms p)). te_win_id t = snd_id"
proof (induction ms arbitrary: p)
  case (Cons m ms)
  have "\<forall>t \<in> set (tasks (handle_message m p)). te_win_id t = snd_id" using Cons.prems by (auto simp: handle_message_cases)
  then show ?case using Cons.IH [of "handle_message m p"] Cons.prems by simp
qed simp

theorem one_close_hides_all:
  assumes "\<forall>t \<in> set (tasks p). te_win_id t = snd_id" "\<forall>m \<in> set ms. m_sender m = snd_id" "m_type d = message_code MSG_WIN_DESTROY" "m_sender d = snd_id"
  shows "open_ids (fold handle_message (ms @ [d]) p) = {}"
  using same_sender_tasks [OF assms(1,2)] assms(3,4) by (auto simp: handle_message_def Let_def open_ids_def)

end
