(* ===== verification/Spec2Isabelle.thy ===== *)
theory Spec2Isabelle
  imports Input Printf Sc_Translate Kindle Pyre Boot Gui_Screen Compositor Ipc Scroll Forge Panel
begin

text \<open>
  PhoenixOS: the Ember kernel, its user libraries and programs, verified.

  \<^bold>\<open>The system.\<close> The boot loader starts the kernel (\<^verbatim>\<open>kernel/main.c\<close>), which reads the loader's tags, gives memory to a bitmap page
  allocator, builds page tables and a heap, installs descriptor tables and interrupt gates, starts the timer, the input and output
  drivers, the scheduler, the virtual file system and the system calls. User programs reach the kernel through the system
  calls only: the init program \<^verbatim>\<open>kindle\<close> starts services in the order of their dependencies, the shell \<^verbatim>\<open>pyre\<close> reads and runs command
  lines, and the desktop draws windows through \<^verbatim>\<open>libgui\<close>, a window manager and a compositor. The compiler \<^verbatim>\<open>sc\<close> translates the language S to C.

  \<^bold>\<open>How code becomes definitions.\<close> A C struct is a record, an enumeration a datatype or a group of constants, a fixed-width integer a word of that
  width (\<^typ>\<open>8 word\<close> to \<^typ>\<open>64 word\<close>, named \<open>u8\<close> to \<open>u64\<close> in \<^verbatim>\<open>Ember_Prelude\<close>). Static variables are the fields of the component's state
  record, a C function is a definition of the same name that returns the new state beside its value, and errors are the
  values the code returns, or the left summand of a sum where the code stops the machine. Objects the code reaches by pointer live in stores
  indexed by address (tasks, heap blocks, inodes, files, windows). Port and
  memory-mapped accesses are arguments when they are read and lists of accesses when they are written.

  \<^bold>\<open>Memory.\<close> \<^verbatim>\<open>Pmm\<close> (\<^verbatim>\<open>mm/pmm.c\<close>): bitmap, counters and every operation; allocation takes the lowest free frame, zeroed, and the counters agree
  with the bitmap in every reachable state. Its contract is the locale \<open>page_allocator\<close>. \<^verbatim>\<open>Vmm\<close> (first half of \<^verbatim>\<open>mm/vmm.c\<close>): four-level tables in physical memory;
  a mapping changes the translation of its page and of no other, and unmapping undoes it (locale \<open>address_space\<close>). \<^verbatim>\<open>Kheap\<close>
  (second half): the list of block headers, first fit, splitting, coalescing and growth over \<open>Pmm\<close> and \<open>Vmm\<close>; blocks never overlap, and allocation succeeds
  whenever frames and window suffice (locale \<open>block_allocator\<close>).

  \<^bold>\<open>Processor, tasks and devices.\<close> \<^verbatim>\<open>Cpu\<close> (\<^verbatim>\<open>arch/x86_64/gdt.c\<close>, \<^verbatim>\<open>idt.c\<close>, \<^verbatim>\<open>interrupts.c\<close>): encoding and contents of the tables, masks that follow the handlers.
  \<^verbatim>\<open>Sched\<close> (\<^verbatim>\<open>sched/scheduler.c\<close>, \<^verbatim>\<open>drivers/timer/pit.c\<close>): the circular queue refines a list (locale \<open>run_queue\<close>) and the choice is round robin.
  \<^verbatim>\<open>Kqueue\<close> has the locale \<open>bounded_queue\<close>, met by the keyboard and mouse buffers of \<^verbatim>\<open>Input\<close> (\<^verbatim>\<open>drivers/input\<close>) and by
  \<^verbatim>\<open>Pipe\<close> (\<^verbatim>\<open>ipc/pipe.c\<close>), where a reader and a writer interleave in any order. \<^verbatim>\<open>Pci\<close> (\<^verbatim>\<open>drivers/pci\<close>, \<^verbatim>\<open>drivers/fb/gpu.c\<close>, \<^verbatim>\<open>drivers/net\<close>): bus scan and
  the searches made of callbacks (locale \<open>first_match\<close>). \<^verbatim>\<open>Acpi\<close> (\<^verbatim>\<open>drivers/acpi\<close>): tables are used only with correct sums.
  \<^verbatim>\<open>Framebuffer\<close> and \<^verbatim>\<open>Console\<close> (\<^verbatim>\<open>drivers/fb/framebuffer.c\<close>, \<^verbatim>\<open>drivers/tty\<close>): the pixels show a terminal of 25 lines of 80 characters.

  \<^bold>\<open>Files and system calls.\<close> \<^verbatim>\<open>Fs_Objects\<close> (\<^verbatim>\<open>include/fs.h\<close>), \<^verbatim>\<open>Ext2\<close> (\<^verbatim>\<open>fs/ext2.c\<close>), \<^verbatim>\<open>Procfs\<close> (\<^verbatim>\<open>fs/procfs.c\<close>, locale \<open>sequential_file\<close>) and \<^verbatim>\<open>Vfs\<close> (\<^verbatim>\<open>fs/vfs.c\<close>): what a read
  returns, how a path is resolved, the life of a descriptor, pipes as files. \<^verbatim>\<open>Syscall\<close> (\<^verbatim>\<open>syscall/syscall.c\<close>): the dispatch table and every handler on user memory,
  over all the components before. \<^verbatim>\<open>Boot\<close> (\<^verbatim>\<open>main.c\<close>) composes the initialisation of all of them.

  \<^bold>\<open>Libraries.\<close> \<^verbatim>\<open>Kstring\<close> (\<^verbatim>\<open>kernel/lib/string.c\<close>, \<^verbatim>\<open>lib/libflame/string.c\<close> and the copies of \<^verbatim>\<open>memory.c\<close>) works on byte memories, overlap included. \<^verbatim>\<open>Printf\<close>
  (\<^verbatim>\<open>kernel/printk.c\<close>, \<^verbatim>\<open>lib/libflame/printf.c\<close>) has both formatters; the bounded one is a prefix of the unbounded one.

  \<^bold>\<open>Programs.\<close> \<^verbatim>\<open>Sc_Lexer\<close> and \<^verbatim>\<open>Sc_Translate\<close> (\<^verbatim>\<open>tools/s-lang/sc.c\<close>, locale \<open>text_buffer\<close>): tokens make up the source, and plain C passes unchanged.
  \<^verbatim>\<open>Kindle\<close> (\<^verbatim>\<open>userspace/init/kindle.c\<close>): parser and supervisor, the latter as a step relation in which signals may arrive anywhere. \<^verbatim>\<open>Pyre\<close>
  (\<^verbatim>\<open>userspace/shell/pyre.c\<close>): history, line editor, tokenizer and pipeline parser.

  \<^bold>\<open>Desktop.\<close> \<^verbatim>\<open>Raster\<close> has the loops over coordinates, pictures as partial functions and the locale \<open>canvas\<close>, whose lemmas compute what drawing code shows.
  It is interpreted on the back buffers of windows (\<^verbatim>\<open>Gui\<close>, for \<^verbatim>\<open>lib/libgui\<close>), on the screen (\<^verbatim>\<open>Gui_Screen\<close>), and on the compositor's two
  buffers and the window manager's screen (\<^verbatim>\<open>Compositor\<close>, for \<^verbatim>\<open>desktop/wm\<close>): widgets stay inside their rectangles, the window array
  refines a list, and a frame shows the topmost window at every pixel. \<^verbatim>\<open>Ipc\<close> (\<^verbatim>\<open>lib/libipc\<close>) sends messages over any stream of bytes (locale \<open>byte_stream\<close>, interpreted
  on the kernel's pipes behind file descriptors): they arrive whole and in order. The programs on top, with what they share in \<^verbatim>\<open>Gui_Text\<close>: the file manager \<^verbatim>\<open>Scroll\<close>
  (\<^verbatim>\<open>desktop/fileman\<close>; sorted listing, navigation, what the window shows), the control panel \<^verbatim>\<open>Forge\<close> (\<^verbatim>\<open>desktop/control\<close>; drawing stays in the window, clicks do what
  the picture says) and the task bar \<^verbatim>\<open>Panel\<close> (\<^verbatim>\<open>desktop/panel\<close>; drawing stays in the bar, the tasks follow the messages).

  \<^bold>\<open>Bounds.\<close> Loops that end are total functions. Where the code would run for ever on bad input the model has a bound as an argument,
  and the theorems say which bound is enough: \<open>HEAP_STEPS\<close> exceeds the number of headers the heap window can hold; a path and a string of the user
  end at the first zero byte, and the bound is any number above its position; the walk of the boot tags needs as many steps as there are tags; the number of
  turns of the event loop of the GUI is an argument because the loop never ends. Where no bound is enough, a theorem says so.

  \<^bold>\<open>Not modelled.\<close> Assembly and the processor's own behaviour; spin locks (one processor, and the sections they guard are single
  steps); console messages of the drivers; the polling of device registers.
  Among the programs: the reading and writing of files around the compiler, the calls of the host's C library in the shell's pipelines, and the
  programs that consist of such calls alone: session manager, login, installer, core utilities, and the services in Rust.
\<close>

end
